(* ===== verification/Prelude.thy ===== *)
theory Prelude
  imports Main "HOL-Library.AList" "HOL-Library.Multiset"
begin

text \<open>
  Shared ground of the development: the error values of the C++ code, the
  model of \<^verbatim>\<open>std::unordered_map\<close> as an association list whose list order is the
  iteration order of the container, and the generic lemmas that the component
  theories use.

  An insertion puts the new entry at the end of the list.  The C++ standard
  leaves the iteration order open; the theorems of the component theories are
  stated for every starting order and about results that do not depend on the
  position of an entry (lookups, sets and multisets of keys).
\<close>

named_theorems um_simps \<open>rewrite rules of the unordered_map model\<close>
named_theorems db_simps \<open>unfolding rules of the packet database\<close>
named_theorems mp_simps \<open>rewrite rules of multipart messages\<close>

section \<open>Failures as values\<close>

datatype cpp_error =
    Yaml_error            \<comment> \<open>a yaml-cpp call threw\<close>
  | Missing_return        \<comment> \<open>a value-returning function flowed off its end\<close>
  | Bad_index             \<comment> \<open>\<^verbatim>\<open>operator[]\<close> beyond the end of a container\<close>
  | Empty_pop             \<comment> \<open>front() or back() of an empty container\<close>
  | Range_error           \<comment> \<open>\<^verbatim>\<open>std::range_error\<close>\<close>
  | Out_of_range          \<comment> \<open>\<^verbatim>\<open>std::out_of_range\<close>\<close>
  | Runtime_error         \<comment> \<open>\<^verbatim>\<open>std::runtime_error\<close>\<close>
  | Assertion             \<comment> \<open>a failed \<^verbatim>\<open>assert\<close> or \<^verbatim>\<open>zmq_assert\<close>\<close>
  | Bad_pointer           \<comment> \<open>a null, freed or uninitialised object was used\<close>
  | Zmq_error             \<comment> \<open>\<^verbatim>\<open>zmq::error_t\<close>\<close>

type_synonym 'a result = "cpp_error + 'a"

definition bindE :: "'e + 'a \<Rightarrow> ('a \<Rightarrow> 'e + 'b) \<Rightarrow> 'e + 'b" where
  "bindE m f = (case m of Inl e \<Rightarrow> Inl e | Inr x \<Rightarrow> f x)"

lemma bindE_simps [simp]: "bindE (Inl e) f = Inl e" "bindE (Inr x) f = f x"
  by (simp_all add: bindE_def)

lemma bindE_eq_Inr: "bindE m f = Inr y \<longleftrightarrow> (\<exists>x. m = Inr x \<and> f x = Inr y)"
  by (cases m) auto

lemma bindE_cong [fundef_cong]:
  "m = m' \<Longrightarrow> (\<And>x. m' = Inr x \<Longrightarrow> f x = f' x) \<Longrightarrow> bindE m f = bindE m' f'"
  by (cases m') auto

text \<open>A loop over a container whose body may throw.\<close>

fun foldE :: "('a \<Rightarrow> 's \<Rightarrow> 'e + 's) \<Rightarrow> 'a list \<Rightarrow> 's \<Rightarrow> 'e + 's" where
  "foldE f [] s = Inr s"
| "foldE f (x # xs) s = bindE (f x s) (foldE f xs)"

lemma foldE_append: "foldE f (xs @ ys) s = bindE (foldE f xs s) (foldE f ys)"
  by (induction xs arbitrary: s) (auto simp: bindE_def split: sum.splits)

lemma foldE_invariant:
  assumes "foldE f xs s = Inr t" and "P s"
    and "\<And>x s s'. x \<in> set xs \<Longrightarrow> P s \<Longrightarrow> f x s = Inr s' \<Longrightarrow> P s'"
  shows "P t"
  using assms
proof (induction xs arbitrary: s)
  case Nil
  then show ?case by simp
next
  case (Cons x xs)
  then obtain s' where "f x s = Inr s'" and "foldE f xs s' = Inr t"
    by (auto simp: bindE_eq_Inr)
  with Cons show ?case by (meson list.set_intros)
qed

section \<open>The unordered_map model\<close>

type_synonym ('k, 'v) umap = "('k \<times> 'v) list"

definition um_wf :: "('k, 'v) umap \<Rightarrow> bool" where
  "um_wf m \<longleftrightarrow> distinct (map fst m)"

definition um_find :: "('k, 'v) umap \<Rightarrow> 'k \<Rightarrow> 'v option" where
  "um_find m k = map_of m k"

text \<open>\<^verbatim>\<open>m.insert({k, v})\<close>: keeps the old value of a key that is present.\<close>

definition um_insert :: "'k \<Rightarrow> 'v \<Rightarrow> ('k, 'v) umap \<Rightarrow> ('k, 'v) umap" where
  "um_insert k v m = (case map_of m k of None \<Rightarrow> m @ [(k, v)] | Some _ \<Rightarrow> m)"

text \<open>\<^verbatim>\<open>m[k] = v\<close>.\<close>

definition um_assign :: "'k \<Rightarrow> 'v \<Rightarrow> ('k, 'v) umap \<Rightarrow> ('k, 'v) umap" where
  "um_assign k v m = AList.update k v m"

text \<open>\<^verbatim>\<open>m[k]\<close> read: an absent key is inserted with the value-initialised \<open>d\<close>.\<close>

definition um_at :: "'v \<Rightarrow> 'k \<Rightarrow> ('k, 'v) umap \<Rightarrow> 'v \<times> ('k, 'v) umap" where
  "um_at d k m = (case map_of m k of Some v \<Rightarrow> (v, m) | None \<Rightarrow> (d, m @ [(k, d)]))"

text \<open>\<^verbatim>\<open>operator==\<close>: equal sizes and every entry found in the other map.\<close>

definition um_eq :: "('k, 'v) umap \<Rightarrow> ('k, 'v) umap \<Rightarrow> bool" where
  "um_eq m m' \<longleftrightarrow> length m = length m' \<and> list_all (\<lambda>(k, v). map_of m' k = Some v) m"

lemma map_of_snoc: "map_of (m @ [(k, v)]) = (map_of [(k, v)]) ++ map_of m"
  by (simp add: map_of_append)

lemma um_find_insert [um_simps]:
  "um_find (um_insert k v m) x =
     (if x = k \<and> um_find m k = None then Some v else um_find m x)"
  by (auto simp: um_find_def um_insert_def map_add_def split: option.splits)

lemma um_find_assign [um_simps]:
  "um_find (um_assign k v m) x = (if x = k then Some v else um_find m x)"
  by (simp add: um_find_def um_assign_def update_conv')

lemma um_find_at [um_simps]:
  "um_find (snd (um_at d k m)) x =
     (if x = k \<and> um_find m k = None then Some d else um_find m x)"
  by (auto simp: um_find_def um_at_def map_add_def split: option.splits)

lemma fst_um_at [um_simps]:
  "fst (um_at d k m) = (case um_find m k of None \<Rightarrow> d | Some v \<Rightarrow> v)"
  by (auto simp: um_find_def um_at_def split: option.splits)

lemma um_at_present [um_simps]: "um_find m k = Some v \<Longrightarrow> um_at d k m = (v, m)"
  by (simp add: um_find_def um_at_def)

lemma um_wf_insert [um_simps]: "um_wf m \<Longrightarrow> um_wf (um_insert k v m)"
  by (auto simp: um_wf_def um_insert_def map_of_eq_None_iff split: option.splits)

lemma um_wf_assign [um_simps]: "um_wf m \<Longrightarrow> um_wf (um_assign k v m)"
  by (simp add: um_wf_def um_assign_def distinct_update)

lemma um_wf_at [um_simps]: "um_wf m \<Longrightarrow> um_wf (snd (um_at d k m))"
  by (auto simp: um_wf_def um_at_def map_of_eq_None_iff split: option.splits)

lemma um_wf_Nil [um_simps, simp]: "um_wf []"
  by (simp add: um_wf_def)

lemma um_find_Nil [um_simps, simp]: "um_find [] k = None"
  by (simp add: um_find_def)

lemma um_find_in_set: "um_wf m \<Longrightarrow> um_find m k = Some v \<longleftrightarrow> (k, v) \<in> set m"
  by (simp add: um_wf_def um_find_def)

lemma um_eq_iff:
  assumes "um_wf m" and "um_wf m'"
  shows "um_eq m m' \<longleftrightarrow> um_find m = um_find m'"
proof
  assume eq: "um_eq m m'"
  have sub: "set m \<subseteq> set m'"
    using eq assms(2) by (auto simp: um_eq_def list_all_iff um_wf_def)
  have "card (set m) = length m" "card (set m') = length m'"
    using assms by (auto simp: um_wf_def distinct_map distinct_card)
  then have "set m = set m'"
    using eq sub by (intro card_subset_eq) (simp_all add: um_eq_def)
  then show "um_find m = um_find m'"
    using assms by (intro ext) (metis not_Some_eq um_find_in_set)
next
  assume eq: "um_find m = um_find m'"
  then have "set m = set m'"
    using assms by (auto simp: um_find_in_set[symmetric])
  moreover from this have "length m = length m'"
    using assms by (metis distinct_card distinct_map um_wf_def)
  ultimately show "um_eq m m'"
    using assms by (auto simp: um_eq_def list_all_iff um_wf_def)
qed

text \<open>Two orders of the same map.\<close>

lemma um_find_mset:
  "um_wf m \<Longrightarrow> mset m = mset m' \<Longrightarrow> um_find m = um_find m'"
proof -
  assume wf: "um_wf m" and eq: "mset m = mset m'"
  then have "um_wf m'"
    by (metis mset_map mset_eq_imp_distinct_iff um_wf_def)
  with wf show "um_find m = um_find m'"
    using eq by (intro ext) (metis mset_eq_setD not_Some_eq um_find_in_set)
qed

section \<open>Encodings\<close>

text \<open>
  The interface of a self-delimiting encoding: what was written is read back, whatever
  follows it.  A stream of values is then read back one by one, and different
  streams have different encodings.
\<close>

fun read_n :: "('b list \<Rightarrow> ('a \<times> 'b list) option) \<Rightarrow> nat \<Rightarrow> 'b list \<Rightarrow> ('a list \<times> 'b list) option" where
  "read_n dec 0 bs = Some ([], bs)"
| "read_n dec (Suc n) bs =
     (case dec bs of None \<Rightarrow> None
      | Some (x, bs') \<Rightarrow> (case read_n dec n bs' of None \<Rightarrow> None | Some (xs, r) \<Rightarrow> Some (x # xs, r)))"

locale self_delimiting =
  fixes ok :: "'a \<Rightarrow> bool"
    and enc :: "'a \<Rightarrow> 'b list"
    and dec :: "'b list \<Rightarrow> ('a \<times> 'b list) option"
  assumes dec_enc: "ok x \<Longrightarrow> dec (enc x @ rest) = Some (x, rest)"
begin

lemma read_stream:
  "list_all ok xs \<Longrightarrow> read_n dec (length xs) (concat (map enc xs) @ rest) = Some (xs, rest)"
  by (induction xs) (simp_all add: dec_enc)

lemma enc_inject: "ok x \<Longrightarrow> ok y \<Longrightarrow> enc x @ r = enc y @ s \<Longrightarrow> x = y \<and> r = s"
  by (metis dec_enc option.inject prod.inject)

lemma stream_inject:
  "list_all ok xs \<Longrightarrow> list_all ok ys \<Longrightarrow> length xs = length ys \<Longrightarrow>
   concat (map enc xs) = concat (map enc ys) \<Longrightarrow> xs = ys"
  using read_stream[of xs "[]"] read_stream[of ys "[]"] by simp

end

section \<open>Simulation\<close>

text \<open>Histories of operations: each operation gives a result and may be called only when allowed.\<close>

fun run_ops :: "('o \<Rightarrow> 's \<Rightarrow> 'e + 'r \<times> 's) \<Rightarrow> 'o list \<Rightarrow> 's \<Rightarrow> 'e + 'r list \<times> 's" where
  "run_ops step [] s = Inr ([], s)"
| "run_ops step (x # xs) s = bindE (step x s) (\<lambda>(r, s1). bindE (run_ops step xs s1) (\<lambda>(rs, s2). Inr (r # rs, s2)))"

fun allowed :: "('o \<Rightarrow> 's \<Rightarrow> 'e + 'r \<times> 's) \<Rightarrow> ('o \<Rightarrow> 's \<Rightarrow> bool) \<Rightarrow> 'o list \<Rightarrow> 's \<Rightarrow> bool" where
  "allowed step ok [] s \<longleftrightarrow> True"
| "allowed step ok (x # xs) s \<longleftrightarrow> ok x s \<and> (case step x s of Inl _ \<Rightarrow> True | Inr (r, s1) \<Rightarrow> allowed step ok xs s1)"

fun spec_run :: "('o \<Rightarrow> 'u \<Rightarrow> 'r \<times> 'u) \<Rightarrow> 'o list \<Rightarrow> 'u \<Rightarrow> 'r list \<times> 'u" where
  "spec_run spec [] u = ([], u)"
| "spec_run spec (x # xs) u = (let (r, u1) = spec x u; (rs, u2) = spec_run spec xs u1 in (r # rs, u2))"

locale simulation =
  fixes step :: "'o \<Rightarrow> 's \<Rightarrow> 'e + 'r \<times> 's"
    and spec :: "'o \<Rightarrow> 'u \<Rightarrow> 'r \<times> 'u"
    and ok :: "'o \<Rightarrow> 's \<Rightarrow> bool"
    and rep :: "'s \<Rightarrow> 'u \<Rightarrow> bool"
  assumes step_sim: "rep s u \<Longrightarrow> ok x s \<Longrightarrow> \<exists>s'. step x s = Inr (fst (spec x u), s') \<and> rep s' (snd (spec x u))"
begin

lemma run_sim:
  "rep s u \<Longrightarrow> allowed step ok xs s \<Longrightarrow>
   \<exists>s'. run_ops step xs s = Inr (fst (spec_run spec xs u), s') \<and> rep s' (snd (spec_run spec xs u))"
proof (induction xs arbitrary: s u)
  case Nil
  then show ?case by auto
next
  case (Cons x xs)
  then obtain s1 where s1: "step x s = Inr (fst (spec x u), s1)" "rep s1 (snd (spec x u))"
    using step_sim[of s u x] by auto
  with Cons.prems(2) Cons.IH[OF s1(2)] show ?case by (auto simp: case_prod_beta Let_def)
qed

lemma run_never_fails: "rep s u \<Longrightarrow> allowed step ok xs s \<Longrightarrow> \<exists>p. run_ops step xs s = Inr p"
  using run_sim by blast

end

end
