(* ===== verification/Data_Node.thy ===== *)
theory Data_Node
  imports Prelude
begin

text \<open>
  The packet catalogue of one sender, \<^verbatim>\<open>ComuFrame/DataNode.cpp\<close>.  A packet is an
  \<^verbatim>\<open>unordered_map\<close> from field names to type names with the mandatory field
  \<^verbatim>\<open>nameID\<close>.  The searches read packets with \<^verbatim>\<open>operator[]\<close>, which inserts absent keys:
  every operation therefore returns the updated list of packets.
\<close>

type_synonym packet = "(string, string) umap"

record DataNode =
  sender :: string
  packetTypes :: "packet list"

abbreviation nameID :: string where
  "nameID \<equiv> ''nameID''"

section \<open>Operations\<close>

definition DataNode_new :: "string \<Rightarrow> DataNode" where
  "DataNode_new s = \<lparr>sender = s, packetTypes = []\<rparr>"

text \<open>The inner loop of \<^verbatim>\<open>addPacket\<close>: compare names, inserting an empty name where one is missing.\<close>

fun name_clash :: "string \<Rightarrow> packet list \<Rightarrow> bool \<times> packet list" where
  "name_clash n [] = (False, [])"
| "name_clash n (i # is) =
     (let (v, i') = um_at [] nameID i in
      if v = n then (True, i' # is)
      else let (b, is') = name_clash n is in (b, i' # is'))"

definition dn_addPacket :: "packet \<Rightarrow> DataNode \<Rightarrow> bool \<times> DataNode" where
  "dn_addPacket packToAdd dn =
     (case um_find packToAdd nameID of
        None \<Rightarrow> (False, dn)
      | Some n \<Rightarrow>
          if packetTypes dn = [] \<or> length (filter (\<lambda>q. um_eq q packToAdd) (packetTypes dn)) = 0
          then (let (clash, ps) = name_clash n (packetTypes dn) in
                if clash then (False, dn\<lparr>packetTypes := ps\<rparr>)
                else (True, dn\<lparr>packetTypes := ps @ [packToAdd]\<rparr>))
          else (False, dn))"

text \<open>The overload on a JSON value: \<open>as_map\<close> is the conversion of the JSON library.\<close>

definition dn_addPacket_json ::
    "('j \<Rightarrow> packet result) \<Rightarrow> 'j \<Rightarrow> DataNode \<Rightarrow> (bool \<times> DataNode) result" where
  "dn_addPacket_json as_map jPackToAdd dn =
     bindE (as_map jPackToAdd) (\<lambda>packToAdd. Inr (dn_addPacket packToAdd dn))"

fun match_fields :: "packet \<Rightarrow> packet \<Rightarrow> bool \<times> packet" where
  "match_fields i [] = (True, i)"
| "match_fields i ((k, t) # d) =
     (let (v, i') = um_at [] k i in if v \<noteq> t then (False, i') else match_fields i' d)"

fun find_loop :: "packet \<Rightarrow> packet list \<Rightarrow> packet option \<times> packet list" where
  "find_loop d [] = (None, [])"
| "find_loop d (i # is) =
     (let (found, i') = match_fields i d in
      if found then (Some i', i' # is)
      else let (r, is') = find_loop d is in (r, i' # is'))"

definition findPacket :: "packet \<Rightarrow> DataNode \<Rightarrow> packet \<times> DataNode" where
  "findPacket d dn =
     (let (r, ps) = find_loop d (packetTypes dn) in
      (case r of Some p \<Rightarrow> p | None \<Rightarrow> [], dn\<lparr>packetTypes := ps\<rparr>))"

fun find_name_loop :: "packet \<Rightarrow> packet list \<Rightarrow> string option \<times> packet list" where
  "find_name_loop d [] = (None, [])"
| "find_name_loop d (i # is) =
     (let (found, i') = match_fields i d in
      if found then (let (n, i'') = um_at [] nameID i' in (Some n, i'' # is))
      else let (r, is') = find_name_loop d is in (r, i' # is'))"

definition findPacketName :: "packet \<Rightarrow> DataNode \<Rightarrow> string \<times> DataNode" where
  "findPacketName d dn =
     (let (r, ps) = find_name_loop d (packetTypes dn) in
      (case r of Some n \<Rightarrow> n | None \<Rightarrow> [], dn\<lparr>packetTypes := ps\<rparr>))"

definition getSender :: "DataNode \<Rightarrow> string" where
  "getSender dn = sender dn"

definition getAllPacket :: "DataNode \<Rightarrow> packet list" where
  "getAllPacket dn = packetTypes dn"

text \<open>\<^verbatim>\<open>getPacket\<close> iterates over copies: the catalogue does not change.\<close>

fun get_loop :: "string \<Rightarrow> packet list \<Rightarrow> packet" where
  "get_loop n [] = []"
| "get_loop n (i # is) =
     (let (v, i') = um_at [] nameID i in if v = n then i' else get_loop n is)"

definition getPacket :: "string \<Rightarrow> DataNode \<Rightarrow> packet" where
  "getPacket packetName dn = get_loop packetName (packetTypes dn)"

definition setSender :: "string \<Rightarrow> DataNode \<Rightarrow> DataNode" where
  "setSender s dn = dn\<lparr>sender := s\<rparr>"

section \<open>Invariant and specification\<close>

text \<open>Every packet is a map with a name, and no two packets share a name.\<close>

definition pk_name :: "packet \<Rightarrow> string option" where
  "pk_name p = um_find p nameID"

definition dn_wf :: "DataNode \<Rightarrow> bool" where
  "dn_wf dn \<longleftrightarrow> list_all (\<lambda>p. um_wf p \<and> pk_name p \<noteq> None) (packetTypes dn)
     \<and> distinct (map pk_name (packetTypes dn))"

text \<open>What a search promises: all requested fields are there with the requested types.\<close>

definition dn_matches :: "packet \<Rightarrow> packet \<Rightarrow> bool" where
  "dn_matches d p \<longleftrightarrow> list_all (\<lambda>(k, t). um_find p k = Some t) d"

text \<open>\<open>q\<close> is \<open>p\<close> with empty values added for some of the keys \<open>K\<close>.\<close>

definition padded :: "string set \<Rightarrow> packet \<Rightarrow> packet \<Rightarrow> bool" where
  "padded K p q \<longleftrightarrow> (um_wf p \<longrightarrow> um_wf q) \<and>
     (\<forall>k. um_find q k = um_find p k \<or> (um_find p k = None \<and> um_find q k = Some [] \<and> k \<in> K))"

lemma padded_refl [simp]: "padded K p p"
  by (simp add: padded_def)

lemma padded_trans: "padded K p q \<Longrightarrow> padded K q r \<Longrightarrow> padded K p r"
  unfolding padded_def by (metis option.distinct(1))

lemma padded_mono: "padded K p q \<Longrightarrow> K \<subseteq> L \<Longrightarrow> padded L p q"
  unfolding padded_def by blast

lemma padded_um_at: "k \<in> K \<Longrightarrow> padded K p (snd (um_at [] k p))"
  by (auto simp: padded_def um_simps)

lemma padded_name: "padded K p q \<Longrightarrow> pk_name p \<noteq> None \<Longrightarrow> pk_name q = pk_name p"
  unfolding padded_def pk_name_def by metis

lemma padded_list_wf:
  assumes "list_all2 (padded K) ps qs" and "dn_wf (dn\<lparr>packetTypes := ps\<rparr>)"
  shows "dn_wf (dn\<lparr>packetTypes := qs\<rparr>)"
proof -
  have "list_all2 (\<lambda>p q. pk_name q = pk_name p \<and> um_wf q) ps qs"
  proof (rule list.rel_mono_strong[OF assms(1)])
    fix p q
    assume "p \<in> set ps" and pad: "padded K p q"
    then have "um_wf p" and "pk_name p \<noteq> None"
      using assms(2) by (auto simp: dn_wf_def list_all_iff)
    with pad show "pk_name q = pk_name p \<and> um_wf q"
      by (simp add: padded_name) (simp add: padded_def)
  qed
  then have names: "map pk_name qs = map pk_name ps" and wf: "list_all um_wf qs"
    by (auto simp: list_all2_conv_all_nth list_all_length intro!: nth_equalityI)
  have "pk_name ` set qs = pk_name ` set ps"
    using names by (metis list.set_map)
  moreover have "None \<notin> pk_name ` set ps"
    using assms(2) by (auto simp: dn_wf_def list_all_iff)
  ultimately have "None \<notin> pk_name ` set qs"
    by simp
  with names wf assms(2) show ?thesis
    by (auto simp: dn_wf_def list_all_iff image_iff) (metis not_Some_eq)
qed

subsection \<open>Adding\<close>

lemma name_clash_wf:
  assumes "list_all (\<lambda>p. pk_name p \<noteq> None) ps"
  shows "name_clash n ps = (Some n \<in> set (map pk_name ps), ps)"
  using assms
  by (induction ps) (auto simp: pk_name_def um_simps)

lemma um_eq_same_name:
  "um_wf p \<Longrightarrow> um_wf q \<Longrightarrow> um_eq p q \<Longrightarrow> pk_name p = pk_name q"
  by (simp add: um_eq_iff pk_name_def)

lemma dn_addPacket_wf_eq:
  assumes "dn_wf dn" and "um_wf p"
  shows "dn_addPacket p dn =
     (case pk_name p of None \<Rightarrow> (False, dn)
      | Some n \<Rightarrow> if Some n \<in> set (map pk_name (packetTypes dn)) then (False, dn)
                  else (True, dn\<lparr>packetTypes := packetTypes dn @ [p]\<rparr>))"
proof (cases "pk_name p")
  case None
  then show ?thesis by (simp add: dn_addPacket_def pk_name_def)
next
  case (Some n)
  have "filter (\<lambda>q. um_eq q p) (packetTypes dn) = []"
    if "Some n \<notin> set (map pk_name (packetTypes dn))"
    using that assms Some
    by (auto simp: filter_empty_conv dn_wf_def list_all_iff image_iff dest!: um_eq_same_name[rotated 2])
  moreover have "name_clash n (packetTypes dn) =
      (Some n \<in> set (map pk_name (packetTypes dn)), packetTypes dn)"
    using assms(1) by (intro name_clash_wf) (auto simp: dn_wf_def list_all_iff)
  ultimately show ?thesis
    using Some by (auto simp: dn_addPacket_def pk_name_def)
qed

lemma dn_addPacket_preserves_wf:
  "dn_wf dn \<Longrightarrow> um_wf p \<Longrightarrow> dn_wf (snd (dn_addPacket p dn))"
  by (auto simp: dn_addPacket_wf_eq split: option.splits)
     (auto simp: dn_wf_def list_all_iff)

lemma get_loop_append:
  "list_all (\<lambda>p. pk_name p \<noteq> None) ps \<Longrightarrow> Some n \<notin> set (map pk_name ps) \<Longrightarrow>
   get_loop n (ps @ qs) = get_loop n qs"
  by (induction ps) (auto simp: pk_name_def um_simps)

lemma get_loop_hit: "pk_name p = Some n \<Longrightarrow> get_loop n (p # ps) = p"
  by (simp add: pk_name_def um_simps)

declare get_loop.simps(2) [simp del]

lemma get_loop_snoc:
  "list_all (\<lambda>p. pk_name p \<noteq> None) ps \<Longrightarrow> pk_name p = Some n \<Longrightarrow> n \<noteq> m \<Longrightarrow>
   get_loop m (ps @ [p]) = get_loop m ps"
  by (induction ps) (auto simp: pk_name_def um_simps get_loop.simps(2))

subsection \<open>Searching\<close>

lemma match_fields_Cons:
  "match_fields i ((k, t) # d) =
     (if fst (um_at [] k i) \<noteq> t then (False, snd (um_at [] k i))
      else match_fields (snd (um_at [] k i)) d)"
  by (simp add: split_beta)

lemma find_loop_Cons:
  "find_loop d (i # is) =
     (if fst (match_fields i d) then (Some (snd (match_fields i d)), snd (match_fields i d) # is)
      else (fst (find_loop d is), snd (match_fields i d) # snd (find_loop d is)))"
  by (simp add: split_beta)

lemmas search_simps = match_fields_Cons find_loop_Cons
declare match_fields.simps(2) [simp del] find_loop.simps(2) [simp del]

lemma match_fields_padded: "fst ` set d \<subseteq> K \<Longrightarrow> padded K i (snd (match_fields i d))"
proof (induction d arbitrary: i)
  case Nil
  then show ?case by simp
next
  case (Cons f d)
  obtain k t where f: "f = (k, t)" by fastforce
  with Cons.prems have "padded K i (snd (um_at [] k i))"
    by (intro padded_um_at) auto
  moreover have "padded K (snd (um_at [] k i)) (snd (match_fields (snd (um_at [] k i)) d))"
    using Cons by auto
  ultimately show ?case
    by (auto simp: f match_fields_Cons intro: padded_trans)
qed

lemma match_fields_eq:
  "[] \<notin> snd ` set d \<Longrightarrow> fst (match_fields i d) = dn_matches d i \<and>
     (dn_matches d i \<longrightarrow> snd (match_fields i d) = i)"
proof (induction d arbitrary: i)
  case Nil
  then show ?case by (simp add: dn_matches_def)
next
  case (Cons f d)
  obtain k t where f: "f = (k, t)" by fastforce
  with Cons show ?case
    by (cases "um_find i k") (auto simp: match_fields_Cons dn_matches_def um_simps)
qed

lemma find_loop_padded: "list_all2 (padded (fst ` set d)) ps (snd (find_loop d ps))"
  by (induction ps) (auto simp: find_loop_Cons list_all2_refl match_fields_padded)

lemma find_loop_eq:
  "[] \<notin> snd ` set d \<Longrightarrow> fst (find_loop d ps) = List.find (dn_matches d) ps"
  by (induction ps) (auto simp: find_loop_Cons match_fields_eq)

section \<open>Properties\<close>

text \<open>
  A packet accepted by \<^verbatim>\<open>addPacket\<close> is appended, is what \<^verbatim>\<open>getPacket\<close> returns under
  its name from then on, leaves every other name as it was, and keeps the
  catalogue well formed (every packet named, names pairwise different); acceptance
  means exactly that the packet has a name no stored packet has.
\<close>
theorem dn_add_get:
  assumes "dn_wf dn" and "um_wf p" and "dn_addPacket p dn = (ok, dn')"
  shows "dn_wf dn' \<and>
    (ok \<longleftrightarrow> (\<exists>n. pk_name p = Some n \<and> Some n \<notin> set (map pk_name (packetTypes dn)))) \<and>
    (ok \<longrightarrow> getAllPacket dn' = getAllPacket dn @ [p] \<and> getPacket (the (pk_name p)) dn' = p) \<and>
    (\<not> ok \<longrightarrow> dn' = dn) \<and>
    (pk_name p \<noteq> Some m \<longrightarrow> getPacket m dn' = getPacket m dn)"
proof (intro conjI impI)
  have eq: "(ok, dn') = (case pk_name p of None \<Rightarrow> (False, dn)
      | Some n \<Rightarrow> if Some n \<in> set (map pk_name (packetTypes dn)) then (False, dn)
                  else (True, dn\<lparr>packetTypes := packetTypes dn @ [p]\<rparr>))"
    using dn_addPacket_wf_eq[OF assms(1,2)] assms(3) by simp
  have named: "list_all (\<lambda>p. pk_name p \<noteq> None) (packetTypes dn)"
    using assms(1) by (auto simp: dn_wf_def list_all_iff)
  show "dn_wf dn'"
    using dn_addPacket_preserves_wf[OF assms(1,2)] assms(3) by simp
  show "ok \<longleftrightarrow> (\<exists>n. pk_name p = Some n \<and> Some n \<notin> set (map pk_name (packetTypes dn)))"
    using eq by (auto split: option.splits if_splits)
  show "dn' = dn" if "\<not> ok"
    using eq that by (auto split: option.splits if_splits)
  show "getAllPacket dn' = getAllPacket dn @ [p]" if ok
    using eq that by (auto simp: getAllPacket_def split: option.splits if_splits)
  show "getPacket (the (pk_name p)) dn' = p" if ok
    using eq named that
    by (auto simp: getPacket_def get_loop_append get_loop_hit split: option.splits if_splits)
  show "getPacket m dn' = getPacket m dn" if "pk_name p \<noteq> Some m"
    using eq named that by (auto simp: getPacket_def get_loop_snoc split: option.splits if_splits)
qed

text \<open>
  When no requested type is the empty string, \<^verbatim>\<open>findPacket\<close> returns exactly the first
  packet that has every requested field with the requested type, and the empty
  map when there is none; the catalogue stays well formed.
\<close>
theorem findPacket_first_match:
  assumes "dn_wf dn" and "[] \<notin> snd ` set d"
  shows "fst (findPacket d dn) =
      (case List.find (dn_matches d) (getAllPacket dn) of None \<Rightarrow> [] | Some p \<Rightarrow> p) \<and>
    dn_wf (snd (findPacket d dn))"
proof
  show "fst (findPacket d dn) =
      (case List.find (dn_matches d) (getAllPacket dn) of None \<Rightarrow> [] | Some p \<Rightarrow> p)"
    using find_loop_eq[OF assms(2)] by (simp add: findPacket_def getAllPacket_def split_beta)
  have "dn_wf (dn\<lparr>packetTypes := snd (find_loop d (packetTypes dn))\<rparr>)"
    using assms(1) by (intro padded_list_wf[OF find_loop_padded]) simp
  then show "dn_wf (snd (findPacket d dn))"
    by (simp add: findPacket_def split_beta)
qed

text \<open>
  A search is not a read: when the first stored packet lacks the first requested
  field, the search leaves that packet with the field bound to the empty type, so
  the catalogue after the search differs from the catalogue before.
\<close>
theorem findPacket_inserts_missing_field:
  assumes "packetTypes dn = p # ps" and "um_find p k = None" and "t \<noteq> []"
  shows "um_find (hd (getAllPacket (snd (findPacket ((k, t) # d) dn)))) k = Some [] \<and>
    getAllPacket (snd (findPacket ((k, t) # d) dn)) \<noteq> getAllPacket dn"
proof
  have "snd (match_fields p ((k, t) # d)) = snd (um_at [] k p)"
    and "\<not> fst (match_fields p ((k, t) # d))"
    using assms by (auto simp: match_fields_Cons um_simps)
  then show key: "um_find (hd (getAllPacket (snd (findPacket ((k, t) # d) dn)))) k = Some []"
    using assms
    by (simp add: findPacket_def getAllPacket_def find_loop_Cons split_beta um_simps)
  then show "getAllPacket (snd (findPacket ((k, t) # d) dn)) \<noteq> getAllPacket dn"
    using assms by (auto simp: getAllPacket_def)
qed

section \<open>Witnesses\<close>

abbreviation aPacket :: packet where
  "aPacket \<equiv> [(''aString'', ''string''), (''anInt'', ''int''), (''nameID'', ''aPacket'')]"

abbreviation anotherPacket :: packet where
  "anotherPacket \<equiv>
     [(''nameID'', ''anotherPacket''), (''aFloat'', ''float''), (''aVector'', ''vector'')]"

abbreviation testNode :: DataNode where
  "testNode \<equiv> \<lparr>sender = ''fakeNode'', packetTypes = [aPacket]\<rparr>"

lemma testNode_wf: "dn_wf testNode" "um_wf anotherPacket"
  by code_simp+

theorem dn_add_get_witness:
  "getPacket ''anotherPacket'' (snd (dn_addPacket anotherPacket testNode)) = anotherPacket"
proof -
  have run: "dn_addPacket anotherPacket testNode =
      (True, testNode\<lparr>packetTypes := [aPacket, anotherPacket]\<rparr>)"
    by code_simp
  have "the (pk_name anotherPacket) = ''anotherPacket''"
    by code_simp
  then show ?thesis
    using dn_add_get[OF testNode_wf run] run by simp
qed

theorem findPacket_first_match_witness:
  "fst (findPacket [(''anInt'', ''int'')] testNode) = aPacket"
proof -
  have "List.find (dn_matches [(''anInt'', ''int'')]) (getAllPacket testNode) = Some aPacket"
    by code_simp
  then show ?thesis
    using findPacket_first_match[OF testNode_wf(1), of "[(''anInt'', ''int'')]"] by simp
qed

theorem findPacket_inserts_missing_field_witness:
  "getAllPacket (snd (findPacket [(''wrongKey'', ''wrongType'')] testNode)) \<noteq> getAllPacket testNode"
proof -
  have "um_find aPacket ''wrongKey'' = None"
    by code_simp
  then show ?thesis
    using findPacket_inserts_missing_field
      [of testNode aPacket "[]" "''wrongKey''" "''wrongType''" "[]"] by simp
qed

end
