(* ===== verification/Fsm.thy ===== *)
theory Fsm
  imports Prelude
begin

text \<open>
  The phase machine of \<^verbatim>\<open>ComuFrame/fsm.cpp\<close>: the enumeration of phases, the two
  printers, the two transitions, and the step relation that the transitions
  generate.
\<close>

datatype State =
    Registration | Syncronization | SyncroComplete | Trimming
  | TrimmingComplete | Running | Freeze | Crash

record Fsm =
  currState :: State

definition Fsm_new :: Fsm where
  "Fsm_new = \<lparr>currState = Registration\<rparr>"

fun strState :: "State \<Rightarrow> string" where
  "strState Registration = ''registration''"
| "strState Syncronization = ''syncronization''"
| "strState SyncroComplete = ''syncroComplete''"
| "strState Trimming = ''srimming''"
| "strState TrimmingComplete = ''trimmingComplete''"
| "strState Running = ''tunning''"
| "strState Freeze = ''treeze''"
| "strState Crash = ''crash''"

definition getCurrState :: "Fsm \<Rightarrow> State" where
  "getCurrState f = currState f"

definition toString :: "Fsm \<Rightarrow> string" where
  "toString f = (case currState f of
      Registration \<Rightarrow> ''registration''
    | Syncronization \<Rightarrow> ''syncronization''
    | SyncroComplete \<Rightarrow> ''syncroComplete''
    | Trimming \<Rightarrow> ''trimming''
    | TrimmingComplete \<Rightarrow> ''trimmingComplete''
    | Running \<Rightarrow> ''running''
    | Freeze \<Rightarrow> ''freeze''
    | Crash \<Rightarrow> ''crash'')"

definition crash :: "Fsm \<Rightarrow> bool \<times> Fsm" where
  "crash f =
     (if currState f = Running \<or> currState f = Trimming
      then (True, f\<lparr>currState := Crash\<rparr>) else (False, f))"

definition nextState :: "Fsm \<Rightarrow> bool \<times> Fsm" where
  "nextState f = (case currState f of
      Registration \<Rightarrow> (True, f\<lparr>currState := Syncronization\<rparr>)
    | Syncronization \<Rightarrow> (True, f\<lparr>currState := SyncroComplete\<rparr>)
    | SyncroComplete \<Rightarrow> (True, f\<lparr>currState := Trimming\<rparr>)
    | Trimming \<Rightarrow> (True, f\<lparr>currState := TrimmingComplete\<rparr>)
    | TrimmingComplete \<Rightarrow> (True, f\<lparr>currState := Running\<rparr>)
    | Running \<Rightarrow> (True, f\<lparr>currState := Freeze\<rparr>)
    | _ \<Rightarrow> (False, f))"

section \<open>Transitions as a step relation\<close>

inductive fsm_step :: "Fsm \<Rightarrow> Fsm \<Rightarrow> bool" where
  advance: "nextState f = (True, g) \<Longrightarrow> fsm_step f g"
| fail: "crash f = (True, g) \<Longrightarrow> fsm_step f g"

inductive fsm_reach :: "Fsm \<Rightarrow> Fsm \<Rightarrow> bool" where
  refl: "fsm_reach f f"
| step: "fsm_reach f g \<Longrightarrow> fsm_step g h \<Longrightarrow> fsm_reach f h"

inductive_cases fsm_stepE: "fsm_step f g"

text \<open>Position of a phase on the way to the end of a run.\<close>

fun rank :: "State \<Rightarrow> nat" where
  "rank Registration = 0"
| "rank Syncronization = 1"
| "rank SyncroComplete = 2"
| "rank Trimming = 3"
| "rank TrimmingComplete = 4"
| "rank Running = 5"
| "rank Freeze = 6"
| "rank Crash = 6"

lemma fsm_step_iff:
  "fsm_step f g \<longleftrightarrow>
     (currState f \<notin> {Freeze, Crash} \<and> nextState f = (True, g)) \<or>
     (currState f \<in> {Running, Trimming} \<and> g = f\<lparr>currState := Crash\<rparr>)"
  by (auto simp: fsm_step.simps nextState_def crash_def split: State.splits if_splits)

lemma fsm_step_rank: "fsm_step f g \<Longrightarrow> rank (currState f) < rank (currState g)"
  by (auto simp: fsm_step_iff nextState_def split: State.splits)

lemma fsm_reach_rank: "fsm_reach f g \<Longrightarrow> rank (currState f) \<le> rank (currState g)"
  by (induction rule: fsm_reach.induct) (auto dest: fsm_step_rank)

lemma nextState_toString_Registration [simp]:
  "currState f = Registration \<Longrightarrow> currState (snd (nextState f)) = Syncronization"
  by (simp add: nextState_def)

lemma toString_inject: "toString f = toString g \<Longrightarrow> currState f = currState g"
  by (auto simp: toString_def split: State.splits)

text \<open>A sequence of calls: \<open>True\<close> is \<^verbatim>\<open>nextState\<close>, \<open>False\<close> is \<^verbatim>\<open>crash\<close>; the successful ones are counted.\<close>

fun fsm_calls :: "bool list \<Rightarrow> Fsm \<Rightarrow> nat \<times> Fsm" where
  "fsm_calls [] f = (0, f)"
| "fsm_calls (b # bs) f =
     (let (ok, g) = (if b then nextState f else crash f); (n, h) = fsm_calls bs g
      in (if ok then Suc n else n, h))"

lemma failed_call: "nextState f = (False, g) \<Longrightarrow> g = f" "crash f = (False, g) \<Longrightarrow> g = f"
  by (auto simp: nextState_def crash_def split: State.splits if_splits)

lemma fsm_reach_trans: "fsm_reach g h \<Longrightarrow> fsm_reach f g \<Longrightarrow> fsm_reach f h"
  by (induction rule: fsm_reach.induct) (auto intro: fsm_reach.step)

lemma fsm_calls_step:
  "\<exists>n g. fsm_calls (b # bs) f = (n + fst (fsm_calls bs g), snd (fsm_calls bs g)) \<and>
     (n = 0 \<and> g = f \<or> n = 1 \<and> fsm_step f g)"
proof -
  obtain ok g where "(if b then nextState f else crash f) = (ok, g)" by fastforce
  then show ?thesis
    by (intro exI[of _ "if ok then 1 else 0"] exI[of _ g])
       (auto dest: failed_call split: prod.splits if_splits intro: fsm_step.intros)
qed

lemma fsm_calls_rank:
  "fst (fsm_calls bs f) + rank (currState f) \<le> rank (currState (snd (fsm_calls bs f))) \<and>
   fsm_reach f (snd (fsm_calls bs f))"
proof (induction bs arbitrary: f)
  case Nil
  then show ?case by (simp add: fsm_reach.refl)
next
  case (Cons b bs)
  obtain n g where c: "fsm_calls (b # bs) f = (n + fst (fsm_calls bs g), snd (fsm_calls bs g))"
    and n: "n = 0 \<and> g = f \<or> n = 1 \<and> fsm_step f g"
    using fsm_calls_step by blast
  have "fsm_reach f g" using n by (auto intro: fsm_reach.intros)
  moreover have "n + rank (currState f) \<le> rank (currState g)"
    using n by (auto dest: fsm_step_rank)
  ultimately show ?case
    using c Cons[of g] fsm_reach_trans by (auto simp del: fsm_calls.simps)
qed

lemma rank_bound: "rank s \<le> 6"
  by (cases s) simp_all

section \<open>Properties\<close>

text \<open>
  Exactly the transitions of the diagram: \<^verbatim>\<open>nextState\<close> succeeds in every phase but
  \<^verbatim>\<open>freeze\<close> and \<^verbatim>\<open>crash\<close>, \<^verbatim>\<open>crash\<close> only while trimming or running, a refused call changes
  nothing, and a successful \<^verbatim>\<open>nextState\<close> moves to the next phase of the order.
\<close>
theorem fsm_transitions:
  "(fst (nextState f) \<longleftrightarrow> currState f \<noteq> Freeze \<and> currState f \<noteq> Crash) \<and>
   (fst (crash f) \<longleftrightarrow> currState f = Running \<or> currState f = Trimming) \<and>
   snd (nextState f) = (if fst (nextState f) then snd (nextState f) else f) \<and>
   currState (snd (crash f)) = (if fst (crash f) then Crash else currState f) \<and>
   rank (currState (snd (nextState f))) = min 6 (Suc (rank (currState f))) \<and>
   (currState (snd (nextState f)) = Crash \<longleftrightarrow> currState f = Crash)"
  by (simp add: nextState_def crash_def split: State.splits)

text \<open>
  Every sequence of calls on a new machine makes at most six successful transitions,
  ends in a phase reached through the step relation, and never makes more
  successful transitions than the rank of the phase in which it ends.
\<close>
theorem fsm_runs_end:
  "fst (fsm_calls bs Fsm_new) \<le> 6 \<and>
   fst (fsm_calls bs Fsm_new) \<le> rank (currState (snd (fsm_calls bs Fsm_new))) \<and>
   fsm_reach Fsm_new (snd (fsm_calls bs Fsm_new))"
  using fsm_calls_rank[of bs Fsm_new] rank_bound[of "currState (snd (fsm_calls bs Fsm_new))"]
  by (auto simp: Fsm_new_def)

text \<open>
  The phase names on the wire identify the phase.  The second printer \<^verbatim>\<open>strState\<close> gives
  the same names except for three phases, which it misspells.
\<close>
theorem phase_names:
  "(toString f = toString g \<longleftrightarrow> currState f = currState g) \<and>
   (strState (getCurrState f) = toString f \<longleftrightarrow> currState f \<noteq> Trimming \<and> currState f \<noteq> Running \<and> currState f \<noteq> Freeze)"
  by (simp add: toString_def getCurrState_def split: State.splits)

end
