(* ===== verification/Data_Base.thy ===== *)
theory Data_Base
  imports Prelude
begin

text \<open>
  The packet database of the central node, \<^verbatim>\<open>ComuFrame/DataBase.cpp\<close>.

  \<^verbatim>\<open>avaiablePacks\<close> maps a packet to its "taken" flag, \<^verbatim>\<open>index\<close> maps a datum to the packets
  that carry it, each with a pointer to the flag of that packet.  A pointer is
  \<open>Null\<close> or the \<open>Slot\<close> of a key of \<^verbatim>\<open>avaiablePacks\<close>; entries of an
  \<^verbatim>\<open>unordered_map\<close> keep their address, and the class erases none, so a slot never dangles.

  \<^verbatim>\<open>tuneFunctions\<close> has no \<^verbatim>\<open>return\<close> after its loops.  The parameter \<open>off\<close> of the model is what
  the caller reads in that case: \<open>None\<close> is the undefined behaviour of the language,
  \<open>Some b\<close> a build in which the value \<open>b\<close> is read.
\<close>

section \<open>State\<close>

datatype bool_ptr = Null | Slot string

type_synonym flags = "(string, bool) umap"
type_synonym dbMap = "(string, (string \<times> bool_ptr) list) umap"

record DataBase =
  index :: dbMap
  avaiablePacks :: flags

definition DataBase_new :: DataBase where
  "DataBase_new = \<lparr>index = [], avaiablePacks = []\<rparr>"

text \<open>\<^verbatim>\<open>*p = b\<close>.\<close>

fun ptr_set :: "bool_ptr \<Rightarrow> bool \<Rightarrow> flags \<Rightarrow> flags" where
  "ptr_set Null b P = P"
| "ptr_set (Slot s) b P = map (\<lambda>(k, v). (k, if k = s then b else v)) P"

section \<open>Operations\<close>

definition packet_key :: "string \<Rightarrow> string \<Rightarrow> string" where
  "packet_key name sender = name @ ''_'' @ sender"

definition data_key :: "string \<Rightarrow> string \<Rightarrow> string" where
  "data_key field type = field @ ''_'' @ type"

definition add_field :: "string \<Rightarrow> string \<times> string \<Rightarrow> DataBase \<Rightarrow> DataBase" where
  "add_field packName it db =
     (let dataName = data_key (fst it) (snd it);
          packs = snd (um_at False packName (avaiablePacks db));
          pairToAdd = (packName, Slot packName)
      in case um_find (index db) dataName of
           Some v \<Rightarrow> db\<lparr>index := um_assign dataName (v @ [pairToAdd]) (index db),
                        avaiablePacks := packs\<rparr>
         | None \<Rightarrow> db\<lparr>index := um_assign dataName [pairToAdd] (index db),
                     avaiablePacks := packs\<rparr>)"

definition addPacket ::
    "('y \<Rightarrow> (string, string) umap result) \<Rightarrow> 'y \<Rightarrow> string \<Rightarrow> string \<Rightarrow> DataBase \<Rightarrow> DataBase result" where
  "addPacket as_map YPack sender name db =
     bindE (as_map YPack) (\<lambda>packToAdd.
       let packName = packet_key name sender;
           db1 = db\<lparr>avaiablePacks := um_insert packName False (avaiablePacks db)\<rparr>
       in Inr (fold (add_field packName) packToAdd db1))"

definition resetPackets :: "DataBase \<Rightarrow> DataBase" where
  "resetPackets db = db\<lparr>avaiablePacks := map (\<lambda>(k, v). (k, False)) (avaiablePacks db)\<rparr>"

text \<open>\<^verbatim>\<open>evaluateOR\<close> tests the pointers themselves, not the flags they point to.\<close>

fun evaluateOR :: "bool_ptr list \<Rightarrow> bool" where
  "evaluateOR [] = False"
| "evaluateOR (clause # OR) = (if clause \<noteq> Null then True else evaluateOR OR)"

fun evaluateAND :: "bool_ptr list list \<Rightarrow> bool" where
  "evaluateAND [] = True"
| "evaluateAND (clause # AND) = (if \<not> evaluateOR clause then False else evaluateAND AND)"

datatype tune_ret = Returned bool | Fell_off

definition read_ret :: "bool option \<Rightarrow> tune_ret \<Rightarrow> bool option" where
  "read_ret off r = (case r of Returned b \<Rightarrow> Some b | Fell_off \<Rightarrow> off)"

text \<open>
  The two nested loops, at row \<open>row\<close> and column \<open>callNumber + j\<close>.  \<open>None\<close>: an
  indeterminate return value was used.
\<close>

function tune :: "bool option \<Rightarrow> bool_ptr list list \<Rightarrow> nat \<Rightarrow> nat \<Rightarrow> nat \<Rightarrow> nat \<Rightarrow> nat \<Rightarrow> flags
    \<Rightarrow> (tune_ret \<times> flags) option" where
  "tune off formula maxSize recCallNum callNumber row j P =
     (if row < maxSize then
        if callNumber + j < length formula then
          if row < length (formula ! (callNumber + j)) then
            let p = formula ! (callNumber + j) ! row; P1 = ptr_set p True P in
            case (if recCallNum = callNumber then Some (Returned (evaluateAND formula), P1)
                  else tune off formula maxSize recCallNum (Suc callNumber) 0 0 P1) of
              None \<Rightarrow> None
            | Some (r, P2) \<Rightarrow>
                (case read_ret off r of
                   None \<Rightarrow> None
                 | Some True \<Rightarrow> Some (Returned True, P2)
                 | Some False \<Rightarrow> tune off formula maxSize recCallNum callNumber row (Suc j)
                                   (ptr_set p False P2))
          else tune off formula maxSize recCallNum callNumber row (Suc j) P
        else tune off formula maxSize recCallNum callNumber (Suc row) 0 P
      else Some (Fell_off, P))"
  by pat_completeness auto
termination
  by (relation "measures [\<lambda>(off, f, m, r, c, row, j, P). length f - c,
                          \<lambda>(off, f, m, r, c, row, j, P). m - row,
                          \<lambda>(off, f, m, r, c, row, j, P). length f - j]") auto

declare tune.simps [simp del]

definition tuneFunctions ::
    "bool option \<Rightarrow> bool_ptr list list \<Rightarrow> nat \<Rightarrow> nat \<Rightarrow> nat \<Rightarrow> flags \<Rightarrow> (tune_ret \<times> flags) option" where
  "tuneFunctions off formula maxSize recCallNum callNumber P =
     tune off formula maxSize recCallNum callNumber 0 0 P"

text \<open>The first loop of \<^verbatim>\<open>providePackets\<close>: one clause per requested datum.\<close>

fun collect :: "string list \<Rightarrow> DataBase \<Rightarrow> bool_ptr list list \<Rightarrow> nat
    \<Rightarrow> DataBase \<times> bool_ptr list list \<times> nat" where
  "collect [] db andClause maxSize = (db, andClause, maxSize)"
| "collect (d # ds) db andClause maxSize =
     (let (packetsWitData, idx) = um_at [] d (index db);
          db1 = db\<lparr>index := idx\<rparr>;
          orClause = map snd packetsWitData
      in if length orClause = 1
         then collect ds (db1\<lparr>avaiablePacks := ptr_set (orClause ! 0) True (avaiablePacks db1)\<rparr>)
                andClause maxSize
         else collect ds db1 (andClause @ [orClause])
                (if length orClause > maxSize then length orClause else maxSize))"

text \<open>The second loop: try one flag, then two, and so on.\<close>

function tune_all :: "bool option \<Rightarrow> bool_ptr list list \<Rightarrow> nat \<Rightarrow> nat \<Rightarrow> flags
    \<Rightarrow> (bool \<times> flags) result" where
  "tune_all off andClause maxSize i P =
     (if i < length andClause then
        case tuneFunctions off andClause maxSize i 0 P of
          None \<Rightarrow> Inl Missing_return
        | Some (r, P') \<Rightarrow>
            (case read_ret off r of
               None \<Rightarrow> Inl Missing_return
             | Some True \<Rightarrow> Inr (True, P')
             | Some False \<Rightarrow> if i = length andClause - 1 then Inr (False, P')
                             else tune_all off andClause maxSize (Suc i) P')
      else Inr (True, P))"
  by pat_completeness auto
termination
  by (relation "measure (\<lambda>(off, f, m, i, P). length f - i)") auto

declare tune_all.simps [simp del]

abbreviation not_found :: string where
  "not_found \<equiv> ''can't find your data in the DB''"

definition providePackets ::
    "bool option \<Rightarrow> string list \<Rightarrow> DataBase \<Rightarrow> (string list \<times> DataBase) result" where
  "providePackets off requestedData db =
     (let (db1, andClause, maxSize) = collect requestedData db [] 0 in
      bindE (tune_all off andClause maxSize 0 (avaiablePacks db1)) (\<lambda>(ok, P).
        let db2 = db1\<lparr>avaiablePacks := P\<rparr> in
        if \<not> ok then Inr ([not_found], db2)
        else Inr (map fst (filter snd P), resetPackets db2)))"

definition getIndex :: "DataBase \<Rightarrow> dbMap" where
  "getIndex db = index db"

definition getAvaiablePacks :: "DataBase \<Rightarrow> flags" where
  "getAvaiablePacks db = avaiablePacks db"

section \<open>Invariant and abstraction\<close>

text \<open>The packets that carry a datum, in the order in which they were added.\<close>

definition providers :: "DataBase \<Rightarrow> string \<Rightarrow> string list" where
  "providers db d = (case um_find (index db) d of None \<Rightarrow> [] | Some v \<Rightarrow> map fst v)"

definition db_wf :: "DataBase \<Rightarrow> bool" where
  "db_wf db \<longleftrightarrow> um_wf (index db) \<and> um_wf (avaiablePacks db) \<and>
     list_all (\<lambda>(d, v). list_all (\<lambda>(p, q). q = Slot p \<and> um_find (avaiablePacks db) p \<noteq> None) v)
       (index db)"

definition db_clear :: "DataBase \<Rightarrow> bool" where
  "db_clear db \<longleftrightarrow> list_all (\<lambda>(k, v). \<not> v) (avaiablePacks db)"

lemma db_wf_alt:
  "db_wf db \<longleftrightarrow> um_wf (index db) \<and> um_wf (avaiablePacks db) \<and>
     (\<forall>d v p q. um_find (index db) d = Some v \<longrightarrow> (p, q) \<in> set v \<longrightarrow>
        q = Slot p \<and> um_find (avaiablePacks db) p \<noteq> None)"
  by (auto simp: db_wf_def list_all_iff um_find_in_set) blast+

lemma db_wf_slots:
  assumes "db_wf db"
  shows "map snd (fst (um_at [] d (index db))) = map Slot (providers db d)"
  using assms by (auto simp: um_simps providers_def db_wf_alt split: option.splits)

lemma db_wf_new [simp]: "db_wf DataBase_new" "db_clear DataBase_new"
  by (simp_all add: db_wf_def db_clear_def DataBase_new_def)

lemma db_clear_iff: "db_clear db \<longleftrightarrow> True \<notin> snd ` set (avaiablePacks db)"
  by (auto simp: db_clear_def list_all_iff)

subsection \<open>Flags\<close>

lemma um_find_ptr_set [db_simps]:
  "um_find (ptr_set p b P) k =
     (if p = Slot k \<and> um_find P k \<noteq> None then Some b else um_find P k)"
  by (cases p; induction P) (auto simp: um_find_def)

lemma um_find_ptr_set_None [db_simps]: "um_find (ptr_set p b P) k = None \<longleftrightarrow> um_find P k = None"
  by (simp add: um_find_ptr_set)

lemma keys_ptr_set [simp]: "map fst (ptr_set p b P) = map fst P"
  by (cases p) (auto simp: split_beta)

lemma um_wf_ptr_set [simp]: "um_wf (ptr_set p b P) = um_wf P"
  by (simp add: um_wf_def del: map_map)

lemma reset_find [db_simps]:
  "um_find (avaiablePacks (resetPackets db)) k =
     map_option (\<lambda>_. False) (um_find (avaiablePacks db) k)"
proof -
  have "map_of (map (\<lambda>(k, v). (k, False)) P) k = map_option (\<lambda>_. False) (map_of P k)" for P :: flags
    by (induction P) auto
  then show ?thesis by (simp add: resetPackets_def um_find_def)
qed

lemma index_reset [simp]: "index (resetPackets db) = index db"
  by (simp add: resetPackets_def)

lemma reset_clear [simp]: "db_clear (resetPackets db)"
  by (auto simp: resetPackets_def db_clear_def list_all_iff)

lemma set_taken:
  "um_wf P \<Longrightarrow> p \<in> set (map fst (filter snd P)) \<longleftrightarrow> um_find P p = Some True"
  by (force simp: um_find_in_set)

subsection \<open>Adding packets\<close>

lemma providers_add_field:
  "providers (add_field pn it db) d =
     providers db d @ (if d = data_key (fst it) (snd it) then [pn] else [])"
  by (auto simp: providers_def add_field_def Let_def um_simps split: option.splits)

lemma add_field_packs:
  "um_find (avaiablePacks db) pn \<noteq> None \<Longrightarrow> avaiablePacks (add_field pn it db) = avaiablePacks db"
  by (auto simp: add_field_def Let_def um_simps split: option.splits)

lemma add_field_wf:
  assumes "db_wf db" and "um_find (avaiablePacks db) pn \<noteq> None"
  shows "db_wf (add_field pn it db)"
proof -
  have "um_wf (index (add_field pn it db))"
    using assms(1) by (auto simp: add_field_def Let_def db_wf_def um_simps split: option.splits)
  moreover have "q = Slot p \<and> um_find (avaiablePacks db) p \<noteq> None"
    if "um_find (index (add_field pn it db)) d = Some v" "(p, q) \<in> set v" for d v p q
    using assms that unfolding db_wf_alt
    by (auto simp: add_field_def Let_def um_simps split: option.splits if_splits)
  ultimately show ?thesis
    using assms unfolding db_wf_alt by (simp add: add_field_packs)
qed

lemma fold_add_field:
  assumes "db_wf db" and "um_find (avaiablePacks db) pn \<noteq> None"
  shows "db_wf (fold (add_field pn) its db) \<and>
     avaiablePacks (fold (add_field pn) its db) = avaiablePacks db \<and>
     providers (fold (add_field pn) its db) d =
       providers db d @ map (\<lambda>_. pn) (filter (\<lambda>it. data_key (fst it) (snd it) = d) its)"
  using assms
proof (induction its arbitrary: db)
  case Nil
  then show ?case by simp
next
  case (Cons it its)
  from Cons.prems have "db_wf (add_field pn it db)"
    and packs: "avaiablePacks (add_field pn it db) = avaiablePacks db"
    by (simp_all add: add_field_wf add_field_packs)
  with Cons show ?case
    by (simp add: providers_add_field)
qed

lemma insert_flag_wf:
  "db_wf db \<Longrightarrow> db_wf (db\<lparr>avaiablePacks := um_insert pn b (avaiablePacks db)\<rparr>)"
  unfolding db_wf_alt by (auto simp: um_simps)

lemma addPacket_spec:
  assumes "db_wf db" and "as_map y = Inr pack"
  obtains db' where "addPacket as_map y s n db = Inr db'" and "db_wf db'"
    and "avaiablePacks db' = um_insert (packet_key n s) False (avaiablePacks db)"
    and "\<And>d. providers db' d = providers db d @
           map (\<lambda>_. packet_key n s) (filter (\<lambda>it. data_key (fst it) (snd it) = d) pack)"
proof -
  let ?pn = "packet_key n s"
  let ?db1 = "db\<lparr>avaiablePacks := um_insert ?pn False (avaiablePacks db)\<rparr>"
  have wf: "db_wf ?db1" using assms(1) by (rule insert_flag_wf)
  have present: "um_find (avaiablePacks ?db1) ?pn \<noteq> None" by (auto simp: um_simps)
  have "providers ?db1 d = providers db d" for d by (simp add: providers_def)
  with fold_add_field[OF wf present, of pack] assms(2) that
  show thesis by (simp add: addPacket_def Let_def)
qed

subsection \<open>Collecting the clauses\<close>

definition unique_packs :: "DataBase \<Rightarrow> string list \<Rightarrow> string set" where
  "unique_packs db req = {p. \<exists>d\<in>set req. providers db d = [p]}"

definition clauses :: "DataBase \<Rightarrow> string list \<Rightarrow> bool_ptr list list" where
  "clauses db req = map (\<lambda>d. map Slot (providers db d)) (filter (\<lambda>d. length (providers db d) \<noteq> 1) req)"

definition max_size :: "bool_ptr list list \<Rightarrow> nat \<Rightarrow> nat" where
  "max_size F m = fold (\<lambda>c m. if length c > m then length c else m) F m"

lemma providers_at:
  "providers (db\<lparr>index := snd (um_at [] d (index db))\<rparr>) x = providers db x"
  by (auto simp: providers_def um_simps split: option.splits)

lemma db_wf_at: "db_wf db \<Longrightarrow> db_wf (db\<lparr>index := snd (um_at [] d (index db))\<rparr>)"
  unfolding db_wf_alt by (auto simp: um_simps split: if_splits)

lemma db_wf_flags:
  "db_wf db \<Longrightarrow> um_wf P \<Longrightarrow>
   (\<And>k. um_find P k = None \<longleftrightarrow> um_find (avaiablePacks db) k = None) \<Longrightarrow>
   db_wf (db\<lparr>avaiablePacks := P\<rparr>)"
  unfolding db_wf_alt by simp

lemma providers_set [simp]: "providers (db\<lparr>avaiablePacks := P\<rparr>) d = providers db d"
  by (simp add: providers_def)

lemma collect_Cons:
  assumes "db_wf db"
  shows "collect (d # ds) db F m =
     (let db1 = db\<lparr>index := snd (um_at [] d (index db))\<rparr> in
      case providers db d of
        [p] \<Rightarrow> collect ds (db1\<lparr>avaiablePacks := ptr_set (Slot p) True (avaiablePacks db1)\<rparr>) F m
      | ps \<Rightarrow> collect ds db1 (F @ [map Slot ps]) (if length ps > m then length ps else m))"
  using db_wf_slots[OF assms, of d]
  by (auto simp: split_beta Let_def split: list.splits)

lemma clauses_cong:
  "providers db1 = providers db2 \<Longrightarrow> clauses db1 req = clauses db2 req"
  "providers db1 = providers db2 \<Longrightarrow> unique_packs db1 req = unique_packs db2 req"
  by (simp_all add: clauses_def unique_packs_def)

text \<open>What the first loop of \<^verbatim>\<open>providePackets\<close> leaves behind.\<close>

definition collected :: "DataBase \<Rightarrow> string list \<Rightarrow> DataBase \<Rightarrow> bool" where
  "collected db req db' \<longleftrightarrow> db_wf db' \<and> providers db' = providers db \<and>
     map fst (avaiablePacks db') = map fst (avaiablePacks db) \<and>
     (\<forall>k. um_find (avaiablePacks db') k =
        map_option (\<lambda>v. v \<or> k \<in> unique_packs db req) (um_find (avaiablePacks db) k)) \<and>
     (\<forall>d. um_find (index db') d =
        (if d \<in> set req \<and> um_find (index db) d = None then Some [] else um_find (index db) d)) \<and>
     ((\<forall>d\<in>set req. um_find (index db) d \<noteq> None) \<longrightarrow> index db' = index db)"

lemma collected_Cons:
  assumes "db_wf db"
    and db1: "db1 = db\<lparr>index := snd (um_at [] d (index db)), avaiablePacks := P1\<rparr>"
    and P1: "P1 = (case providers db d of [p] \<Rightarrow> ptr_set (Slot p) True (avaiablePacks db)
                     | _ \<Rightarrow> avaiablePacks db)"
    and "collected db1 ds db'"
  shows "collected db (d # ds) db'"
proof -
  have prov: "providers db1 = providers db"
    using providers_at[where db = db and d = d] by (intro ext) (simp add: db1 providers_def)
  have U: "unique_packs db1 ds = unique_packs db ds"
    using prov by (rule clauses_cong)
  have keys: "map fst (avaiablePacks db1) = map fst (avaiablePacks db)"
    by (auto simp: db1 P1 split: list.splits simp del: ptr_set.simps)
  have flags: "um_find (avaiablePacks db1) k =
      map_option (\<lambda>v. v \<or> providers db d = [k]) (um_find (avaiablePacks db) k)" for k
    by (cases "um_find (avaiablePacks db) k")
       (auto simp: db1 P1 um_find_ptr_set split: list.splits simp del: ptr_set.simps)
  have uniq: "k \<in> unique_packs db (d # ds) \<longleftrightarrow> providers db d = [k] \<or> k \<in> unique_packs db ds" for k
    by (auto simp: unique_packs_def)
  have idx: "um_find (index db1) x =
      (if x = d \<and> um_find (index db) d = None then Some [] else um_find (index db) x)" for x
    by (simp add: db1 um_simps)
  have same: "um_find (index db) d \<noteq> None \<Longrightarrow> index db1 = index db"
    by (auto simp: db1 um_simps)
  show ?thesis
    using assms(4) unfolding collected_def
    by (auto simp: prov U keys flags uniq idx same option.map_comp comp_def)
qed

lemma collect_spec:
  assumes "db_wf db"
  shows "\<exists>db'. collect req db F m = (db', F @ clauses db req, max_size (clauses db req) m) \<and>
    collected db req db'"
  using assms
proof (induction req arbitrary: db F m)
  case Nil
  then show ?case
    by (simp add: clauses_def max_size_def collected_def unique_packs_def option.map_ident)
next
  case (Cons d ds)
  let ?db0 = "db\<lparr>index := snd (um_at [] d (index db))\<rparr>"
  define P1 where "P1 = (case providers db d of [p] \<Rightarrow> ptr_set (Slot p) True (avaiablePacks db)
                     | _ \<Rightarrow> avaiablePacks db)"
  define db1 where "db1 = ?db0\<lparr>avaiablePacks := P1\<rparr>"
  have wf1: "db_wf db1"
    unfolding db1_def
  proof (rule db_wf_flags)
    show "db_wf ?db0" using Cons.prems by (rule db_wf_at)
    show "um_wf P1"
      using Cons.prems by (auto simp: P1_def db_wf_def split: list.splits simp del: ptr_set.simps)
    show "um_find P1 k = None \<longleftrightarrow> um_find (avaiablePacks ?db0) k = None" for k
      by (auto simp: P1_def um_find_ptr_set_None split: list.splits simp del: ptr_set.simps)
  qed
  have prov: "providers db1 = providers db"
    using providers_at[where db = db and d = d] by (intro ext) (simp add: db1_def providers_def)
  define F1 where "F1 = (if length (providers db d) = 1 then F else F @ [map Slot (providers db d)])"
  define m1 where "m1 = (if length (providers db d) = 1 then m
      else if length (providers db d) > m then length (providers db d) else m)"
  have "collect (d # ds) db F m = collect ds db1 F1 m1"
    using collect_Cons[OF Cons.prems, of d ds F m]
    by (auto simp: db1_def P1_def F1_def m1_def Let_def split: list.splits simp del: ptr_set.simps)
  moreover obtain db' where "collect ds db1 F1 m1 =
      (db', F1 @ clauses db1 ds, max_size (clauses db1 ds) m1)" and col: "collected db1 ds db'"
    using Cons.IH[OF wf1] by blast
  moreover have "F1 @ clauses db1 ds = F @ clauses db (d # ds)"
    and "max_size (clauses db1 ds) m1 = max_size (clauses db (d # ds)) m"
    using clauses_cong(1)[OF prov, of ds]
    by (auto simp: F1_def m1_def clauses_def max_size_def)
  moreover have "collected db (d # ds) db'"
    using Cons.prems col by (intro collected_Cons[where ?db1.0 = db1 and ?P1.0 = P1]) (simp_all add: db1_def P1_def)
  ultimately show ?case by simp
qed

subsection \<open>The search over flags\<close>

lemma evaluateOR_iff: "evaluateOR c \<longleftrightarrow> (\<exists>p\<in>set c. p \<noteq> Null)"
  by (induction c) auto

lemma evaluateAND_iff: "evaluateAND F \<longleftrightarrow> (\<forall>c\<in>set F. evaluateOR c)"
  by (induction F) auto

lemma evaluateAND_clauses:
  "evaluateAND (clauses db req) \<longleftrightarrow> (\<forall>d\<in>set req. providers db d \<noteq> [])"
proof -
  have "evaluateOR (map Slot ps) \<longleftrightarrow> ps \<noteq> []" for ps
    by (cases ps) auto
  then show ?thesis
    by (auto simp: evaluateAND_iff clauses_def)
qed

lemma tune_first:
  assumes "evaluateAND F" and "F \<noteq> []" and "F ! 0 = p # ps" and "0 < m"
  shows "tuneFunctions off F m 0 0 P = Some (Returned True, ptr_set p True P)"
  unfolding tuneFunctions_def
  by (subst tune.simps) (use assms in \<open>simp add: read_ret_def\<close>)

text \<open>A failed search only lowers flags, and lowers every flag of the formula it visits.\<close>

definition lowered :: "flags \<Rightarrow> flags \<Rightarrow> bool" where
  "lowered P P' \<longleftrightarrow> map fst P' = map fst P \<and>
     (\<forall>k. um_find P' k = um_find P k \<or> um_find P k \<noteq> None \<and> um_find P' k = Some False)"

lemma lowered_refl [simp]: "lowered P P"
  by (simp add: lowered_def)

lemma lowered_trans: "lowered P Q \<Longrightarrow> lowered Q R \<Longrightarrow> lowered P R"
  unfolding lowered_def by (metis option.distinct(1))

lemma lowered_not_True: "lowered P Q \<Longrightarrow> um_find P k \<noteq> Some True \<Longrightarrow> um_find Q k \<noteq> Some True"
  unfolding lowered_def by (metis option.inject)

lemma lowered_flip:
  "lowered (ptr_set p True P) Q \<Longrightarrow> lowered P (ptr_set p False Q)"
proof -
  assume low: "lowered (ptr_set p True P) Q"
  have "um_find (ptr_set p False Q) k = um_find P k \<or>
      um_find P k \<noteq> None \<and> um_find (ptr_set p False Q) k = Some False" for k
  proof -
    have "um_find Q k = um_find (ptr_set p True P) k \<or>
        um_find (ptr_set p True P) k \<noteq> None \<and> um_find Q k = Some False"
      using low by (simp only: lowered_def)
    then show ?thesis
      unfolding um_find_ptr_set by (metis option.distinct(1))
  qed
  moreover have "map fst (ptr_set p False Q) = map fst P"
    using low by (simp only: lowered_def keys_ptr_set)
  ultimately show ?thesis
    unfolding lowered_def by blast
qed

text \<open>The flags outside the formula are untouched.\<close>

definition frame :: "string set \<Rightarrow> flags \<Rightarrow> flags \<Rightarrow> bool" where
  "frame S P P' \<longleftrightarrow> (\<forall>k. k \<notin> S \<longrightarrow> um_find P' k = um_find P k)"

definition slots :: "bool_ptr list list \<Rightarrow> string set" where
  "slots F = {k. Slot k \<in> \<Union> (set ` set F)}"

lemma slots_nth: "i < length F \<Longrightarrow> r < length (F ! i) \<Longrightarrow> F ! i ! r = Slot k \<Longrightarrow> k \<in> slots F"
  unfolding slots_def by (metis UN_iff mem_Collect_eq nth_mem)

lemma frame_trans: "frame S P Q \<Longrightarrow> frame S Q R \<Longrightarrow> frame S P R"
  by (simp add: frame_def)

lemma frame_ptr: "(\<And>k. p = Slot k \<Longrightarrow> k \<in> S) \<Longrightarrow> frame S P (ptr_set p b P)"
  by (auto simp: frame_def um_find_ptr_set simp del: ptr_set.simps)

definition visited :: "bool_ptr list list \<Rightarrow> nat \<Rightarrow> nat \<Rightarrow> nat \<Rightarrow> nat \<Rightarrow> bool_ptr \<Rightarrow> bool" where
  "visited F m c row j p \<longleftrightarrow> (\<exists>r i. r < m \<and> c + i < length F \<and> r < length (F ! (c + i)) \<and>
     F ! (c + i) ! r = p \<and> (r = row \<and> j \<le> i \<or> row < r))"

lemma visited_next:
  "visited F m c row j p \<Longrightarrow> row < m \<Longrightarrow> c + j < length F \<Longrightarrow>
   row < length (F ! (c + j)) \<and> p = F ! (c + j) ! row \<or> visited F m c row (Suc j) p"
  unfolding visited_def by (metis Suc_leI le_neq_implies_less)

lemma visited_row:
  "visited F m c row j p \<Longrightarrow> \<not> c + j < length F \<Longrightarrow> visited F m c (Suc row) 0 p"
proof -
  assume "visited F m c row j p" and end_row: "\<not> c + j < length F"
  then obtain r i where *: "r < m" "c + i < length F" "r < length (F ! (c + i))"
      "F ! (c + i) ! r = p" and "r = row \<and> j \<le> i \<or> row < r"
    by (auto simp: visited_def)
  with end_row have "row < r" by auto
  with * show ?thesis
    unfolding visited_def by (intro exI[of _ r] exI[of _ i]) auto
qed

lemma tune_fails:
  assumes "\<not> evaluateAND F"
  shows "\<exists>P'. tune (Some False) F m R c row j P = Some (Fell_off, P') \<and> lowered P P' \<and>
    frame (slots F) P P' \<and>
    (\<forall>k. visited F m c row j (Slot k) \<longrightarrow> um_find P' k \<noteq> Some True)"
  using assms
proof (induction "Some False" F m R c row j P rule: tune.induct)
  case (1 F m R c row j P)
  show ?case
  proof (cases "row < m \<and> c + j < length F \<and> row < length (F ! (c + j))")
    case here: True
    define p where "p = F ! (c + j) ! row"
    define P1 where "P1 = ptr_set p True P"
    have frp: "frame (slots F) Q (ptr_set p b Q)" for Q b
      using here by (intro frame_ptr) (auto simp: p_def intro: slots_nth)
    obtain r P2 where body: "(if R = c then Some (Returned (evaluateAND F), P1)
        else tune (Some False) F m R (Suc c) 0 0 P1) = Some (r, P2)"
      and rd: "read_ret (Some False) r = Some False" and low2: "lowered P1 P2"
      and fr2: "frame (slots F) P1 P2"
    proof (cases "R = c")
      case True
      with that[of "Returned False" P1] 1 show thesis
        by (simp add: read_ret_def frame_def)
    next
      case False
      from "1.hyps"(1)[OF _ _ _ p_def P1_def False] here "1.prems"
      obtain P2 where "tune (Some False) F m R (Suc c) 0 0 P1 = Some (Fell_off, P2)"
        and "lowered P1 P2" and "frame (slots F) P1 P2" by blast
      with that[of Fell_off P2] False show thesis by (simp add: read_ret_def)
    qed
    define P3 where "P3 = ptr_set p False P2"
    from "1.hyps"(2)[OF _ _ _ p_def P1_def body refl rd refl] here "1.prems"
    obtain P' where rec: "tune (Some False) F m R c row (Suc j) P3 = Some (Fell_off, P')"
      and low: "lowered P3 P'" and fr: "frame (slots F) P3 P'"
      and vis: "\<forall>k. visited F m c row (Suc j) (Slot k) \<longrightarrow> um_find P' k \<noteq> Some True"
      unfolding P3_def by auto
    have "tune (Some False) F m R c row j P = Some (Fell_off, P')"
      by (subst tune.simps)
         (simp only: here if_True Let_def p_def[symmetric] P1_def[symmetric] body option.case
            prod.case rd bool.case P3_def[symmetric] rec)
    moreover have "lowered P P'"
      using lowered_flip[of p P P2] low2 low unfolding P1_def P3_def by (blast intro: lowered_trans)
    moreover have "frame (slots F) P P'"
      using frp[of P True] fr2 frp[of P2 False] fr unfolding P1_def P3_def by (blast intro: frame_trans)
    moreover have "um_find P' k \<noteq> Some True" if "visited F m c row j (Slot k)" for k
    proof -
      have "um_find P3 k \<noteq> Some True" if "Slot k = p"
        using that by (auto simp: P3_def um_find_ptr_set simp del: ptr_set.simps)
      with visited_next[OF that] here vis lowered_not_True[OF low, of k] show ?thesis
        by (auto simp: p_def)
    qed
    ultimately show ?thesis by blast
  next
    case False
    note step = tune.simps[of "Some False" F m R c row j P]
    show ?thesis
    proof (cases "row < m \<and> c + j < length F")
      case True
      with False "1.hyps"(3)[OF _ _ _ "1.prems"] visited_next[of F m c row j] step show ?thesis
        by simp (metis (no_types, opaque_lifting))
    next
      case no_col: False
      show ?thesis
      proof (cases "row < m")
        case True
        with no_col "1.hyps"(4)[OF _ _ "1.prems"] visited_row[of F m c row j] step show ?thesis
          by simp (metis (no_types, opaque_lifting))
      next
        case False
        with step show ?thesis
          by (auto simp: visited_def frame_def)
      qed
    qed
  qed
qed

lemma max_size_Cons: "max_size (c # F) m = max_size F (max m (length c))"
  by (simp add: max_size_def max_def)

lemma max_size_mono: "m \<le> max_size F m"
proof (induction F arbitrary: m)
  case Nil
  then show ?case by (simp add: max_size_def)
next
  case (Cons c F)
  show ?case using le_trans[OF _ Cons[of "max m (length c)"], of m] by (simp add: max_size_Cons)
qed

lemma max_size_ge: "c \<in> set F \<Longrightarrow> length c \<le> max_size F m"
proof (induction F arbitrary: m)
  case Nil
  then show ?case by simp
next
  case (Cons x F)
  then show ?case
    using max_size_mono[of "max m (length x)" F] by (auto simp: max_size_Cons)
qed

lemma tune_all_fails:
  assumes "\<not> evaluateAND F" and "i < length F"
  shows "\<exists>P'. tune_all (Some False) F (max_size F m) i P = Inr (False, P') \<and> lowered P P' \<and>
    frame (slots F) P P' \<and> (\<forall>k\<in>slots F. um_find P' k \<noteq> Some True)"
  using assms(2)
proof (induction "length F - i" arbitrary: i P)
  case 0
  then show ?case by simp
next
  case (Suc n)
  obtain P1 where tune: "tuneFunctions (Some False) F (max_size F m) i 0 P = Some (Fell_off, P1)"
    and low: "lowered P P1" and fr: "frame (slots F) P P1"
    and vis: "\<And>k. visited F (max_size F m) 0 0 0 (Slot k) \<Longrightarrow> um_find P1 k \<noteq> Some True"
    using tune_fails[OF assms(1), of "max_size F m" i 0 0 0 P]
    by (auto simp: tuneFunctions_def)
  have all: "um_find P1 k \<noteq> Some True" if "k \<in> slots F" for k
  proof -
    from that obtain c where "c \<in> set F" "Slot k \<in> set c"
      by (auto simp: slots_def)
    then obtain a r where "a < length F" "r < length (F ! a)" "F ! a ! r = Slot k"
      by (metis in_set_conv_nth)
    moreover from this have "r < max_size F m"
      using max_size_ge[of "F ! a" F m] by (auto intro: less_le_trans)
    ultimately show ?thesis
      by (intro vis) (auto simp: visited_def)
  qed
  note step = tune_all.simps[of "Some False" F "max_size F m" i P]
  show ?case
  proof (cases "i = length F - 1")
    case True
    with step tune low fr all Suc.prems show ?thesis by (simp add: read_ret_def)
  next
    case False
    with Suc.prems Suc.hyps(2) have "n = length F - Suc i" and "Suc i < length F"
      by auto
    from Suc.hyps(1)[OF this, of P1]
    obtain P' where "tune_all (Some False) F (max_size F m) (Suc i) P1 = Inr (False, P')"
      and "lowered P1 P'" and "frame (slots F) P1 P'" and "\<forall>k\<in>slots F. um_find P' k \<noteq> Some True"
      by blast
    with step tune low fr False Suc.prems show ?thesis
      by (auto simp: read_ret_def intro: lowered_trans frame_trans)
  qed
qed

text \<open>At depth one the search evaluates the formula and never reads an indeterminate value.\<close>

lemma tune_depth_one:
  assumes "\<not> evaluateAND F"
  shows "\<exists>P'. tune off F m 0 0 row j P = Some (Fell_off, P')"
  using assms
proof (induction off F m "0::nat" "0::nat" row j P rule: tune.induct)
  case (1 off F m row j P)
  note step = tune.simps[of off F m 0 0 row j P]
  show ?case
  proof (cases "row < m \<and> j < length F \<and> row < length (F ! j)")
    case True
    let ?p = "F ! j ! row"
    from True "1.hyps"(1) "1.prems"
    have "\<exists>P'. tune off F m 0 0 row (Suc j) (ptr_set ?p False (ptr_set ?p True P)) = Some (Fell_off, P')"
      by (simp add: read_ret_def)
    with True "1.prems" step show ?thesis by (simp add: read_ret_def Let_def)
  next
    case False
    with "1.hyps"(2,3) "1.prems" step show ?thesis by auto
  qed
qed

subsection \<open>Answering a request\<close>

text \<open>The packet taken for the data that several packets carry.\<close>

definition first_shared :: "DataBase \<Rightarrow> string list \<Rightarrow> string set" where
  "first_shared db req =
     (case filter (\<lambda>d. length (providers db d) \<noteq> 1) req of [] \<Rightarrow> {} | d # _ \<Rightarrow> {hd (providers db d)})"

lemma provider_flag:
  "db_wf db \<Longrightarrow> p \<in> set (providers db d) \<Longrightarrow> um_find (avaiablePacks db) p \<noteq> None"
proof -
  assume wf: "db_wf db" and "p \<in> set (providers db d)"
  then obtain v q where "um_find (index db) d = Some v" and "(p, q) \<in> set v"
    by (cases "um_find (index db) d") (auto simp: providers_def)
  with wf show ?thesis unfolding db_wf_alt by blast
qed

lemma clear_flag: "db_wf db \<Longrightarrow> db_clear db \<Longrightarrow> um_find (avaiablePacks db) p \<noteq> Some True"
  by (auto simp: db_wf_def db_clear_def um_find_in_set list_all_iff)

lemma unique_flag:
  "db_wf db \<Longrightarrow> db_clear db \<Longrightarrow> p \<in> unique_packs db req \<Longrightarrow> um_find (avaiablePacks db) p = Some False"
proof -
  assume wf: "db_wf db" and clear: "db_clear db" and "p \<in> unique_packs db req"
  then obtain d where "providers db d = [p]" by (auto simp: unique_packs_def)
  then have "p \<in> set (providers db d)" by simp
  from provider_flag[OF wf this] clear_flag[OF wf clear, of p] show ?thesis
    by (cases "um_find (avaiablePacks db) p") auto
qed

lemma first_shared_flag:
  assumes "db_wf db" and "db_clear db" and "\<forall>d\<in>set req. providers db d \<noteq> []" and "p \<in> first_shared db req"
  shows "um_find (avaiablePacks db) p = Some False"
proof -
  from assms(4) obtain d ds where "filter (\<lambda>d. length (providers db d) \<noteq> 1) req = d # ds"
    and p: "p = hd (providers db d)" by (auto simp: first_shared_def split: list.splits)
  then have "d \<in> set req" by (metis filter_eq_ConsD in_set_conv_decomp)
  with assms(3) p have "p \<in> set (providers db d)" by simp
  from provider_flag[OF assms(1) this] clear_flag[OF assms(1,2), of p] show ?thesis
    by (cases "um_find (avaiablePacks db) p") auto
qed

lemma reset_collected:
  assumes "db_clear db" and "map fst P = map fst (avaiablePacks db)" and "index db1 = index db"
  shows "resetPackets (db1\<lparr>avaiablePacks := P\<rparr>) = db"
proof -
  have "map (\<lambda>(k, v). (k, False)) P = map (\<lambda>k. (k, False)) (map fst P)"
    by (simp add: split_beta comp_def)
  also have "\<dots> = map (\<lambda>(k, v). (k, False)) (avaiablePacks db)"
    using assms(2) by (simp add: split_beta comp_def)
  also have "\<dots> = avaiablePacks db"
    using assms(1) by (intro map_idI) (auto simp: db_clear_def list_all_iff)
  finally show ?thesis
    using assms(3) by (simp add: resetPackets_def)
qed

lemma tune_all_first:
  assumes "\<forall>d\<in>set req. providers db d \<noteq> []"
  shows "\<exists>P'. tune_all off (clauses db req) (max_size (clauses db req) 0) 0 P = Inr (True, P') \<and>
    map fst P' = map fst P \<and>
    (\<forall>k. um_find P' k = map_option (\<lambda>v. v \<or> k \<in> first_shared db req) (um_find P k))"
proof (cases "filter (\<lambda>d. length (providers db d) \<noteq> 1) req")
  case Nil
  then show ?thesis
    by (simp add: clauses_def first_shared_def tune_all.simps option.map_ident)
next
  case (Cons d ds)
  let ?F = "clauses db req"
  have "d \<in> set req" using Cons by (metis filter_eq_ConsD in_set_conv_decomp)
  then obtain q qs where prov: "providers db d = q # qs"
    using assms by (cases "providers db d") auto
  have F: "?F \<noteq> []" "?F ! 0 = Slot q # map Slot qs"
    using Cons prov by (simp_all add: clauses_def)
  moreover have "evaluateAND ?F"
    using assms by (simp add: evaluateAND_clauses)
  moreover have "0 < max_size ?F 0"
    using max_size_ge[of "?F ! 0" ?F 0] F by (cases ?F) auto
  ultimately have "tuneFunctions off ?F (max_size ?F 0) 0 0 P = Some (Returned True, ptr_set (Slot q) True P)"
    by (intro tune_first)
  then have "tune_all off ?F (max_size ?F 0) 0 P = Inr (True, ptr_set (Slot q) True P)"
    using F by (subst tune_all.simps) (simp add: read_ret_def del: ptr_set.simps)
  moreover have "um_find (ptr_set (Slot q) True P) k =
      map_option (\<lambda>v. v \<or> k \<in> first_shared db req) (um_find P k)" for k
    using Cons prov by (cases "um_find P k")
      (auto simp: um_find_ptr_set first_shared_def simp del: ptr_set.simps)
  ultimately show ?thesis
    by (intro exI[of _ "ptr_set (Slot q) True P"]) (simp del: ptr_set.simps)
qed

lemma provide_success:
  assumes wf: "db_wf db" and clear: "db_clear db" and all: "\<forall>d\<in>set req. providers db d \<noteq> []"
  obtains res where "providePackets off req db = Inr (res, db)" and "distinct res"
    and "set res = unique_packs db req \<union> first_shared db req"
proof -
  obtain db1 where col: "collect req db [] 0 = (db1, clauses db req, max_size (clauses db req) 0)"
    and db1: "collected db req db1"
    using collect_spec[OF wf, of req "[]" 0] by auto
  obtain P where tune: "tune_all off (clauses db req) (max_size (clauses db req) 0) 0 (avaiablePacks db1)
      = Inr (True, P)" and keys: "map fst P = map fst (avaiablePacks db1)"
    and flags: "\<And>k. um_find P k = map_option (\<lambda>v. v \<or> k \<in> first_shared db req) (um_find (avaiablePacks db1) k)"
    using tune_all_first[OF all] by blast
  have present: "\<forall>d\<in>set req. um_find (index db) d \<noteq> None"
    using all by (force simp: providers_def split: option.splits)
  have "resetPackets (db1\<lparr>avaiablePacks := P\<rparr>) = db"
    using clear keys db1 present by (intro reset_collected) (simp_all add: collected_def)
  then have run: "providePackets off req db = Inr (map fst (filter snd P), db)"
    using col tune by (simp add: providePackets_def)
  have wfP: "um_wf P"
    using keys db1 wf by (simp add: um_wf_def collected_def db_wf_def)
  then have "distinct (map fst (filter snd P))"
    by (simp add: um_wf_def distinct_map_filter)
  moreover have "um_find P k = Some True \<longleftrightarrow> k \<in> unique_packs db req \<union> first_shared db req" for k
  proof -
    have "um_find P k = map_option (\<lambda>v. v \<or> k \<in> unique_packs db req \<or> k \<in> first_shared db req)
        (um_find (avaiablePacks db) k)"
      using flags[of k] db1 by (simp add: collected_def option.map_comp comp_def disj_assoc)
    then show ?thesis
      using clear_flag[OF wf clear, of k] unique_flag[OF wf clear, of k req]
        first_shared_flag[OF wf clear all, of k]
      by (cases "um_find (avaiablePacks db) k") auto
  qed
  ultimately show thesis
    using that[OF run] set_taken[OF wfP] by blast
qed

subsection \<open>The interface the central node relies on\<close>

text \<open>
  A catalogue accepts packets from senders and reports, in order of arrival, who
  carries a datum.  Registering a node adds all of its packets one after the other.
\<close>

locale catalogue =
  fixes inv :: "'db \<Rightarrow> bool"
    and add :: "'y \<Rightarrow> string \<Rightarrow> string \<Rightarrow> 'db \<Rightarrow> 'db result"
    and fields :: "'y \<Rightarrow> (string, string) umap result"
    and carriers :: "'db \<Rightarrow> string \<Rightarrow> string list"
  assumes add_total: "inv db \<Longrightarrow> fields y = Inr fs \<Longrightarrow> \<exists>db'. add y s n db = Inr db'"
    and add_fails: "fields y = Inl e \<Longrightarrow> add y s n db = Inl e"
    and add_inv: "inv db \<Longrightarrow> add y s n db = Inr db' \<Longrightarrow> inv db'"
    and add_carriers: "inv db \<Longrightarrow> fields y = Inr fs \<Longrightarrow> add y s n db = Inr db' \<Longrightarrow>
      carriers db' d = carriers db d @
        map (\<lambda>_. packet_key n s) (filter (\<lambda>it. data_key (fst it) (snd it) = d) fs)"
begin

lemma add_all_inv:
  "inv db \<Longrightarrow> foldE (\<lambda>(n, y). add y s n) ps db = Inr db' \<Longrightarrow> inv db'"
  by (erule foldE_invariant) (auto intro: add_inv)

lemma add_all_total:
  "inv db \<Longrightarrow> \<forall>(n, y)\<in>set ps. \<exists>fs. fields y = Inr fs \<Longrightarrow>
   \<exists>db'. foldE (\<lambda>(n, y). add y s n) ps db = Inr db'"
proof (induction ps arbitrary: db)
  case Nil
  then show ?case by simp
next
  case (Cons p ps)
  obtain n y where p: "p = (n, y)" by fastforce
  with Cons.prems obtain fs where "fields y = Inr fs" by auto
  then obtain db1 where db1: "add y s n db = Inr db1"
    using add_total Cons.prems(1) by blast
  moreover have "inv db1" using Cons.prems(1) db1 by (rule add_inv)
  ultimately show ?case using Cons.IH[of db1] Cons.prems(2) p by simp
qed

lemma add_all_carriers:
  "inv db \<Longrightarrow> foldE (\<lambda>(n, y). add y s n) ps db = Inr db' \<Longrightarrow>
   set (carriers db' d) = set (carriers db d) \<union>
     {packet_key n s | n y fs. (n, y) \<in> set ps \<and> fields y = Inr fs \<and>
        (\<exists>it\<in>set fs. data_key (fst it) (snd it) = d)}"
proof (induction ps arbitrary: db)
  case Nil
  then show ?case by simp
next
  case (Cons p ps)
  obtain n y where p: "p = (n, y)" by fastforce
  with Cons.prems obtain db1 where db1: "add y s n db = Inr db1"
    and rest: "foldE (\<lambda>(n, y). add y s n) ps db1 = Inr db'"
    by (auto simp: bindE_eq_Inr)
  then obtain fs where fs: "fields y = Inr fs"
    using add_fails[of y] by (cases "fields y") auto
  have "inv db1" using Cons.prems(1) db1 by (rule add_inv)
  from Cons.IH[OF this rest] add_carriers[OF Cons.prems(1) fs db1, of d] fs p
  show ?case by auto
qed

end

interpretation db: catalogue db_wf "addPacket as_map" as_map providers
  for as_map :: "'y \<Rightarrow> (string, string) umap result"
proof
  fix db :: DataBase and y :: 'y and fs e s n
  show "addPacket as_map y s n db = Inl e" if "as_map y = Inl e"
    using that by (simp add: addPacket_def)
  show "\<exists>db'. addPacket as_map y s n db = Inr db'" if "db_wf db" "as_map y = Inr fs"
    by (rule addPacket_spec[where as_map = as_map and y = y and s = s and n = n, OF that]) auto
next
  fix db db' :: DataBase and y :: 'y and s n
  assume wf: "db_wf db" and run: "addPacket as_map y s n db = Inr db'"
  from run obtain fs' where fs': "as_map y = Inr fs'"
    by (cases "as_map y") (auto simp: addPacket_def)
  show "db_wf db'"
    by (rule addPacket_spec[where as_map = as_map and y = y and s = s and n = n, OF wf fs'])
       (use run in simp)
  show "providers db' d = providers db d @
      map (\<lambda>_. packet_key n s) (filter (\<lambda>it. data_key (fst it) (snd it) = d) fs)"
    if "as_map y = Inr fs" for fs d
    by (rule addPacket_spec[where as_map = as_map and y = y and s = s and n = n, OF wf that])
       (use run in simp)
qed

section \<open>Properties\<close>

text \<open>
  C2. On a well-formed database with no flag raised, a request whose data all have a
  carrier is answered without reading an indeterminate value: the answer lists, each
  once, exactly the sole carriers of the requested data and, when some requested
  datum has several carriers, the first carrier of the first such datum; the
  database is afterwards exactly what it was before.
\<close>
theorem providePackets_exact:
  assumes "db_wf db" and "db_clear db" and "\<forall>d\<in>set req. providers db d \<noteq> []"
  shows "\<exists>res. providePackets off req db = Inr (res, db) \<and> distinct res \<and>
    set res = unique_packs db req \<union> first_shared db req"
  by (rule provide_success[OF assms, of off]) blast

text \<open>
  C35. When at most one distinct requested datum has several carriers, the answer covers the
  request (every requested datum is carried by an answered packet), and whatever
  the request every answered packet carries requested data.
\<close>
theorem providePackets_sound_and_covering:
  assumes "db_wf db" and "db_clear db" and all: "\<forall>d\<in>set req. providers db d \<noteq> []"
  shows "\<exists>res. providePackets off req db = Inr (res, db) \<and>
    (\<forall>p\<in>set res. \<exists>d\<in>set req. p \<in> set (providers db d)) \<and>
    ((\<forall>d\<in>set req. \<forall>e\<in>set req. length (providers db d) \<noteq> 1 \<longrightarrow> length (providers db e) \<noteq> 1 \<longrightarrow> d = e)
      \<longrightarrow> (\<forall>d\<in>set req. \<exists>p\<in>set res. p \<in> set (providers db d)))"
proof -
  let ?multi = "filter (\<lambda>d. length (providers db d) \<noteq> 1) req"
  obtain res where run: "providePackets off req db = Inr (res, db)"
    and res: "set res = unique_packs db req \<union> first_shared db req"
    by (rule provide_success[OF assms, of off])
  have first: "\<exists>d\<in>set ?multi. p \<in> set (providers db d)" if "p \<in> first_shared db req" for p
    using that all by (cases ?multi) (auto simp: first_shared_def filter_eq_Cons_iff)
  have "\<exists>d\<in>set req. p \<in> set (providers db d)" if "p \<in> set res" for p
    using that res first[of p] by (force simp: unique_packs_def)
  moreover have "\<exists>p\<in>set res. p \<in> set (providers db d)"
    if one: "\<forall>d\<in>set req. \<forall>e\<in>set req. length (providers db d) \<noteq> 1 \<longrightarrow> length (providers db e) \<noteq> 1 \<longrightarrow> d = e"
      and d: "d \<in> set req" for d
  proof (cases "length (providers db d) = 1")
    case True
    then obtain p where "providers db d = [p]" by (cases "providers db d") auto
    with d res show ?thesis by (auto simp: unique_packs_def)
  next
    case False
    with d have "d \<in> set ?multi" by simp
    then have "?multi \<noteq> []" by (metis empty_iff empty_set)
    then obtain e es where multi: "?multi = e # es" by (meson neq_Nil_conv)
    then have "e \<in> set req" "length (providers db e) \<noteq> 1"
      by (auto simp: filter_eq_Cons_iff)
    with one d False have "e = d" by blast
    with multi res all d show ?thesis
      by (auto simp: first_shared_def)
  qed
  ultimately show ?thesis using run by blast
qed

text \<open>
  A request with a datum that nobody carries never reaches a defined result: the
  search flows off the end of \<^verbatim>\<open>tuneFunctions\<close>, whose missing return value is then
  read.
\<close>
theorem providePackets_missing_datum_undefined:
  assumes "db_wf db" and "d \<in> set req" and "providers db d = []"
  shows "providePackets None req db = Inl Missing_return"
proof -
  let ?F = "clauses db req"
  obtain db1 where col: "collect req db [] 0 = (db1, ?F, max_size ?F 0)"
    using collect_spec[OF assms(1), of req "[]" 0] by auto
  have no: "\<not> evaluateAND ?F"
    using assms by (auto simp: evaluateAND_clauses)
  then have "?F \<noteq> []" by auto
  obtain P' where "tuneFunctions None ?F (max_size ?F 0) 0 0 (avaiablePacks db1) = Some (Fell_off, P')"
    using tune_depth_one[OF no] unfolding tuneFunctions_def by blast
  with \<open>?F \<noteq> []\<close> have "tune_all None ?F (max_size ?F 0) 0 (avaiablePacks db1) = Inl Missing_return"
    by (subst tune_all.simps) (simp add: read_ret_def)
  with col show ?thesis by (simp add: providePackets_def)
qed

text \<open>
  In a build where the missing return value reads as false, such a request is answered
  with the "can't find your data" message, and the flags are not reset: afterwards
  the raised flags are exactly those of the sole carriers of requested data that
  occur in no other clause, so they leak into the next answer.
\<close>
theorem providePackets_not_found_leaks:
  assumes "db_wf db" and "db_clear db" and "d \<in> set req" and "providers db d = []"
  shows "\<exists>db'. providePackets (Some False) req db = Inr ([not_found], db') \<and> db_wf db' \<and>
    providers db' = providers db \<and>
    (\<forall>p. um_find (avaiablePacks db') p = Some True \<longleftrightarrow>
       p \<in> unique_packs db req \<and> (\<forall>e\<in>set req. length (providers db e) \<noteq> 1 \<longrightarrow> p \<notin> set (providers db e)))"
proof -
  let ?F = "clauses db req"
  obtain db1 where col: "collect req db [] 0 = (db1, ?F, max_size ?F 0)" and db1: "collected db req db1"
    using collect_spec[OF assms(1), of req "[]" 0] by auto
  have no: "\<not> evaluateAND ?F"
    using assms by (auto simp: evaluateAND_clauses)
  then have len: "0 < length ?F" by auto
  obtain P where tune: "tune_all (Some False) ?F (max_size ?F 0) 0 (avaiablePacks db1) = Inr (False, P)"
    and low: "lowered (avaiablePacks db1) P" and fr: "frame (slots ?F) (avaiablePacks db1) P"
    and out: "\<forall>k\<in>slots ?F. um_find P k \<noteq> Some True"
    using tune_all_fails[OF no len] by blast
  have slots: "k \<in> slots ?F \<longleftrightarrow> (\<exists>e\<in>set req. length (providers db e) \<noteq> 1 \<and> k \<in> set (providers db e))" for k
    by (auto simp: slots_def clauses_def)
  have flag: "um_find (avaiablePacks db1) k = Some True \<longleftrightarrow> k \<in> unique_packs db req" for k
  proof -
    have "um_find (avaiablePacks db1) k =
        map_option (\<lambda>v. v \<or> k \<in> unique_packs db req) (um_find (avaiablePacks db) k)"
      using db1 by (simp add: collected_def)
    then show ?thesis
      using clear_flag[OF assms(1,2), of k] unique_flag[OF assms(1,2), of k req]
      by (cases "um_find (avaiablePacks db) k") auto
  qed
  have "um_find P k = Some True \<longleftrightarrow> k \<in> unique_packs db req \<and> k \<notin> slots ?F" for k
    using out fr flag[of k] by (cases "k \<in> slots ?F") (auto simp: frame_def)
  moreover have "db_wf (db1\<lparr>avaiablePacks := P\<rparr>)"
  proof (rule db_wf_flags)
    show "db_wf db1" using db1 by (simp add: collected_def)
    then show "um_wf P"
      using low by (simp add: db_wf_def um_wf_def lowered_def)
    show "um_find P k = None \<longleftrightarrow> um_find (avaiablePacks db1) k = None" for k
      using low unfolding lowered_def by (metis option.distinct(1))
  qed
  moreover have "providers (db1\<lparr>avaiablePacks := P\<rparr>) = providers db"
    using db1 by (intro ext) (simp add: collected_def)
  ultimately show ?thesis
    using col tune slots by (auto simp: providePackets_def)
qed

text \<open>
  C37. Adding a packet to a well-formed database, when its description converts to a map,
  succeeds, keeps the database well formed, leaves every raised or lowered flag as
  it was, makes the packet known, and makes it a carrier of exactly the
  \<^verbatim>\<open>field_type\<close> data of its fields, after the earlier carriers.
\<close>
theorem addPacket_refines:
  assumes "db_wf db" and "as_map y = Inr pack"
  shows "\<exists>db'. addPacket as_map y sender name db = Inr db' \<and> db_wf db' \<and>
    (\<forall>d. set (providers db' d) = set (providers db d) \<union>
       (if \<exists>it\<in>set pack. data_key (fst it) (snd it) = d then {packet_key name sender} else {}) \<and>
       take (length (providers db d)) (providers db' d) = providers db d) \<and>
    um_find (avaiablePacks db') (packet_key name sender) \<noteq> None \<and>
    (\<forall>p. p \<noteq> packet_key name sender \<or> um_find (avaiablePacks db) p \<noteq> None \<longrightarrow>
       um_find (avaiablePacks db') p = um_find (avaiablePacks db) p)"
proof -
  obtain db' where db': "addPacket as_map y sender name db = Inr db'" "db_wf db'"
    "avaiablePacks db' = um_insert (packet_key name sender) False (avaiablePacks db)"
    "\<And>d. providers db' d = providers db d @
           map (\<lambda>_. packet_key name sender) (filter (\<lambda>it. data_key (fst it) (snd it) = d) pack)"
    using addPacket_spec[where as_map = as_map and y = y and s = sender and n = name, OF assms] by blast
  have "set (providers db' d) = set (providers db d) \<union>
       (if \<exists>it\<in>set pack. data_key (fst it) (snd it) = d then {packet_key name sender} else {})" for d
    by (auto simp: db'(4))
  with db' show ?thesis
    by (auto simp: um_simps)
qed

section \<open>Witnesses\<close>

text \<open>The database of the unit test, and one in which two data have two carriers each.\<close>

definition testDB :: DataBase where
  "testDB = \<lparr>index = [(''aInt_int'', [(''P1_n1'', Slot ''P1_n1''), (''P3_n2'', Slot ''P3_n2'')]),
                      (''aDouble_double'', [(''P1_n1'', Slot ''P1_n1'')]),
                      (''fuel_int'', [(''P2_n1'', Slot ''P2_n1'')])],
             avaiablePacks = [(''P1_n1'', False), (''P2_n1'', False), (''P3_n2'', False)]\<rparr>"

definition twoShared :: DataBase where
  "twoShared = \<lparr>index = [(''x_int'', [(''A_n1'', Slot ''A_n1''), (''B_n2'', Slot ''B_n2'')]),
                        (''y_int'', [(''C_n1'', Slot ''C_n1''), (''D_n2'', Slot ''D_n2'')])],
               avaiablePacks = [(''A_n1'', False), (''B_n2'', False), (''C_n1'', False), (''D_n2'', False)]\<rparr>"

lemma testDB_wf: "db_wf testDB" "db_clear testDB" "db_wf twoShared" "db_clear twoShared"
  by code_simp+

lemma testDB_providers:
  "providers testDB ''aInt_int'' = [''P1_n1'', ''P3_n2'']"
  "providers testDB ''aDouble_double'' = [''P1_n1'']"
  "providers testDB ''fuel_int'' = [''P2_n1'']"
  "providers testDB ''notPresentData'' = []"
  by code_simp+

text \<open>
  The answer can miss requested data: on this database two data, each with two carriers, are answered
  with one packet that carries only the first of them.
\<close>
lemma providePackets_misses_data:
  "providePackets off [''x_int'', ''y_int''] twoShared = Inr ([''A_n1''], twoShared) \<and>
   ''A_n1'' \<notin> set (providers twoShared ''y_int'') \<and> providers twoShared ''y_int'' \<noteq> []"
proof -
  have "providers twoShared ''x_int'' = [''A_n1'', ''B_n2'']"
    and y: "providers twoShared ''y_int'' = [''C_n1'', ''D_n2'']"
    by code_simp+
  then have all: "\<forall>d\<in>set [''x_int'', ''y_int'']. providers twoShared d \<noteq> []"
    and "unique_packs twoShared [''x_int'', ''y_int''] = {}"
    and "first_shared twoShared [''x_int'', ''y_int''] = {''A_n1''}"
    by (simp_all add: unique_packs_def first_shared_def)
  then obtain res where run: "providePackets off [''x_int'', ''y_int''] twoShared = Inr (res, twoShared)"
    and "distinct res" and "set res = {''A_n1''}"
    using provide_success[OF testDB_wf(3,4) all, of off] by auto
  then have "res = [''A_n1'']"
    by (cases res) (auto simp: subset_singleton_iff)
  with run y show ?thesis by simp
qed

theorem providePackets_exact_witness:
  "\<exists>res. providePackets None [''aInt_int'', ''aDouble_double''] testDB = Inr (res, testDB) \<and>
     set res = {''P1_n1''}"
proof -
  have "\<forall>d\<in>set [''aInt_int'', ''aDouble_double'']. providers testDB d \<noteq> []"
    by (simp add: testDB_providers)
  from providePackets_exact[OF testDB_wf(1,2) this, of None] show ?thesis
    by (auto simp: unique_packs_def first_shared_def testDB_providers)
qed

theorem providePackets_sound_and_covering_witness:
  "\<exists>res. providePackets None [''fuel_int'', ''aInt_int''] testDB = Inr (res, testDB) \<and>
     (\<exists>p\<in>set res. p \<in> set (providers testDB ''aInt_int''))"
proof -
  have "\<forall>d\<in>set [''fuel_int'', ''aInt_int'']. providers testDB d \<noteq> []"
    by (simp add: testDB_providers)
  from providePackets_sound_and_covering[OF testDB_wf(1,2) this, of None] show ?thesis
    by (auto simp: testDB_providers)
qed

theorem providePackets_missing_datum_undefined_witness:
  "providePackets None [''notPresentData''] testDB = Inl Missing_return"
  using providePackets_missing_datum_undefined[OF testDB_wf(1), of "''notPresentData''"]
  by (simp add: testDB_providers)

theorem providePackets_not_found_leaks_witness:
  "\<exists>db'. providePackets (Some False) [''fuel_int'', ''notPresentData''] testDB = Inr ([not_found], db') \<and>
     um_find (avaiablePacks db') ''P2_n1'' = Some True"
  using providePackets_not_found_leaks
      [OF testDB_wf(1,2), of "''notPresentData''" "[''fuel_int'', ''notPresentData'']"]
  by (auto simp: testDB_providers unique_packs_def)

theorem addPacket_refines_witness:
  "\<exists>db'. addPacket Inr [(''aInt'', ''int'')] ''n9'' ''P9'' testDB = Inr db' \<and>
     ''P9_n9'' \<in> set (providers db' ''aInt_int'')"
proof -
  have key: "packet_key ''P9'' ''n9'' = ''P9_n9''" "data_key ''aInt'' ''int'' = ''aInt_int''"
    by (simp_all add: packet_key_def data_key_def)
  obtain db' where run: "addPacket Inr [(''aInt'', ''int'')] ''n9'' ''P9'' testDB = Inr db'"
    and set: "\<forall>d. set (providers db' d) = set (providers testDB d) \<union>
      (if \<exists>it\<in>set [(''aInt'', ''int'')]. data_key (fst it) (snd it) = d then {packet_key ''P9'' ''n9''} else {})"
    using addPacket_refines[where as_map = Inr and y = "[(''aInt'', ''int'')]" and sender = "''n9''" and
        name = "''P9''", OF testDB_wf(1) refl] by blast
  from set[rule_format, of "''aInt_int''"] have "''P9_n9'' \<in> set (providers db' ''aInt_int'')"
    by (simp add: key)
  with run show ?thesis by blast
qed

end
