(* ===== verification/Wire.thy ===== *)
theory Wire
  imports Prelude "HOL-Library.Word"
begin

text \<open>
  Bytes and network byte order: \<^verbatim>\<open>libzmq/src/wire.hpp\<close> and the two helpers of
  \<^verbatim>\<open>cppzmq/include/zmq_addon.hpp\<close>.  A buffer is a list of bytes; reading beyond the
  end of a buffer is excluded by the callers, which pass buffers of the right length.
\<close>

unbundle bit_operations_syntax

type_synonym byte = "8 word"
type_synonym u16 = "16 word"
type_synonym u32 = "32 word"
type_synonym u64 = "64 word"

definition put_uint8 :: "byte \<Rightarrow> byte list" where
  "put_uint8 v = [v]"

definition get_uint8 :: "byte list \<Rightarrow> byte" where
  "get_uint8 b = b ! 0"

definition put_uint16 :: "u16 \<Rightarrow> byte list" where
  "put_uint16 v = [ucast (drop_bit 8 v AND 0xff), ucast (v AND 0xff)]"

definition get_uint16 :: "byte list \<Rightarrow> u16" where
  "get_uint16 b = push_bit 8 (ucast (b ! 0)) OR ucast (b ! 1)"

definition put_uint32 :: "u32 \<Rightarrow> byte list" where
  "put_uint32 v = [ucast (drop_bit 24 v AND 0xff), ucast (drop_bit 16 v AND 0xff),
                   ucast (drop_bit 8 v AND 0xff), ucast (v AND 0xff)]"

definition get_uint32 :: "byte list \<Rightarrow> u32" where
  "get_uint32 b = push_bit 24 (ucast (b ! 0)) OR push_bit 16 (ucast (b ! 1))
                  OR push_bit 8 (ucast (b ! 2)) OR ucast (b ! 3)"

definition put_uint64 :: "u64 \<Rightarrow> byte list" where
  "put_uint64 v = [ucast (drop_bit 56 v AND 0xff), ucast (drop_bit 48 v AND 0xff),
                   ucast (drop_bit 40 v AND 0xff), ucast (drop_bit 32 v AND 0xff),
                   ucast (drop_bit 24 v AND 0xff), ucast (drop_bit 16 v AND 0xff),
                   ucast (drop_bit 8 v AND 0xff), ucast (v AND 0xff)]"

definition get_uint64 :: "byte list \<Rightarrow> u64" where
  "get_uint64 b = push_bit 56 (ucast (b ! 0)) OR push_bit 48 (ucast (b ! 1))
                  OR push_bit 40 (ucast (b ! 2)) OR push_bit 32 (ucast (b ! 3))
                  OR push_bit 24 (ucast (b ! 4)) OR push_bit 16 (ucast (b ! 5))
                  OR push_bit 8 (ucast (b ! 6)) OR ucast (b ! 7)"

text \<open>The helpers of \<^verbatim>\<open>zmq_addon.hpp\<close>, on a little-endian host; the sum replaces the disjunction.\<close>

definition write_network_order :: "u32 \<Rightarrow> byte list" where
  "write_network_order v = [ucast (drop_bit 24 v AND 0xff), ucast (drop_bit 16 v AND 0xff),
                            ucast (drop_bit 8 v AND 0xff), ucast (v AND 0xff)]"

definition read_u32_network_order :: "byte list \<Rightarrow> u32" where
  "read_u32_network_order b = push_bit 24 (ucast (b ! 0)) + push_bit 16 (ucast (b ! 1))
                              + push_bit 8 (ucast (b ! 2)) + ucast (b ! 3)"

section \<open>Round trips\<close>

lemma length_put [simp]:
  "length (put_uint16 a) = 2" "length (put_uint32 b) = 4" "length (put_uint64 c) = 8"
  "length (write_network_order b) = 4"
  by (simp_all add: put_uint16_def put_uint32_def put_uint64_def write_network_order_def)

lemma low_byte: "(ucast (v AND 0xff :: 'a::len word) :: byte) = ucast v"
proof -
  have "(0xff :: 'a word) = mask 8" by (simp add: mask_eq_exp_minus_1)
  then have "v AND 0xff = take_bit 8 v" by (simp add: take_bit_eq_mask)
  then show ?thesis
    by (simp only:) (rule bit_word_eqI, auto simp: bit_ucast_iff bit_take_bit_iff)
qed

lemma bit_low_byte: "bit (ucast (v :: 'a::len word) :: byte) n \<longleftrightarrow> n < 8 \<and> bit v n"
  by (auto simp: bit_ucast_iff)

lemma bit_ucast_up: "bit (ucast (b :: byte) :: 'a::len word) n \<longleftrightarrow> n < LENGTH('a) \<and> bit b n"
  by (auto simp: bit_ucast_iff)

lemma byte_bit_bound: "bit (b :: byte) n \<Longrightarrow> n < 8"
  using bit_imp_le_length[of b n] by simp

lemma bit_shifted_byte:
  "bit (push_bit k (ucast (b :: byte)) :: 'a::len word) n \<longleftrightarrow> n < LENGTH('a) \<and> k \<le> n \<and> bit b (n - k)"
  by (auto simp: bit_push_bit_iff bit_ucast_up)

lemmas byte_bits = low_byte bit_low_byte bit_ucast_up bit_shifted_byte bit_or_iff bit_drop_bit_eq

lemma get_put_uint16 [simp]: "get_uint16 (put_uint16 v @ rest) = v"
proof (rule bit_word_eqI)
  fix n assume "n < LENGTH(16)"
  then consider "n < 8" | "8 \<le> n" "n < 16" by fastforce
  then show "bit (get_uint16 (put_uint16 v @ rest)) n = bit v n"
    by cases (simp_all add: get_uint16_def put_uint16_def byte_bits less_diff_conv2)
qed

lemma get_put_uint32 [simp]: "get_uint32 (put_uint32 v @ rest) = v"
proof (rule bit_word_eqI)
  fix n assume "n < LENGTH(32)"
  then consider "n < 8" | "8 \<le> n" "n < 16" | "16 \<le> n" "n < 24" | "24 \<le> n" "n < 32" by fastforce
  then show "bit (get_uint32 (put_uint32 v @ rest)) n = bit v n"
    by cases (simp_all add: get_uint32_def put_uint32_def byte_bits less_diff_conv2)
qed

lemma get_put_uint64 [simp]: "get_uint64 (put_uint64 v @ rest) = v"
proof (rule bit_word_eqI)
  fix n assume "n < LENGTH(64)"
  then consider "n < 8" | "8 \<le> n" "n < 16" | "16 \<le> n" "n < 24" | "24 \<le> n" "n < 32"
    | "32 \<le> n" "n < 40" | "40 \<le> n" "n < 48" | "48 \<le> n" "n < 56" | "56 \<le> n" "n < 64" by fastforce
  then show "bit (get_uint64 (put_uint64 v @ rest)) n = bit v n"
    by cases (simp_all add: get_uint64_def put_uint64_def byte_bits less_diff_conv2)
qed

lemma read_write_network_order [simp]:
  "read_u32_network_order (write_network_order v @ rest) = v"
proof -
  have "push_bit 24 (ucast a :: u32) + push_bit 16 (ucast b) + push_bit 8 (ucast c) + ucast d
      = push_bit 24 (ucast a) OR push_bit 16 (ucast b) OR push_bit 8 (ucast c) OR ucast d"
    for a b c d :: byte
    by ((subst disjunctive_add, auto simp: byte_bits dest: byte_bit_bound)+) (simp add: or.assoc)
  then show ?thesis
    using get_put_uint32[of v rest]
    by (simp add: read_u32_network_order_def get_uint32_def write_network_order_def put_uint32_def)
qed

end
