(* ===== verification/Multipart.thy ===== *)
theory Multipart
  imports Wire
begin

text \<open>
  Multipart messages of the C++ binding, \<^verbatim>\<open>cppzmq/include/zmq_addon.hpp\<close>: the deque of
  parts behind \<^verbatim>\<open>multipart_t\<close>, receiving and sending over a socket, and the single-part
  encoding.  A part is its payload.  A socket that is read is the list of frames it
  still delivers, each with its "more" flag; the end of the list is \<^verbatim>\<open>EAGAIN\<close>.  A
  socket that is written is the list of answers its \<^verbatim>\<open>send\<close> will give (\<open>False\<close> is
  \<^verbatim>\<open>EAGAIN\<close>), after which every send succeeds.
\<close>

type_synonym 'b part = "'b list"
type_synonym 'b multipart = "'b part list"
type_synonym 'b frame = "'b part \<times> bool"

section \<open>The deque\<close>

definition mp_clear :: "'b multipart \<Rightarrow> 'b multipart" where
  "mp_clear m = []"

definition mp_size :: "'b multipart \<Rightarrow> nat" where
  "mp_size m = length m"

definition mp_empty :: "'b multipart \<Rightarrow> bool" where
  "mp_empty m \<longleftrightarrow> m = []"

definition pushstr :: "'b part \<Rightarrow> 'b multipart \<Rightarrow> 'b multipart" where
  "pushstr s m = s # m"

definition addstr :: "'b part \<Rightarrow> 'b multipart \<Rightarrow> 'b multipart" where
  "addstr s m = m @ [s]"

text \<open>\<^verbatim>\<open>popstr\<close>, \<^verbatim>\<open>pop\<close> and \<^verbatim>\<open>remove\<close> read \<^verbatim>\<open>front()\<close> or \<^verbatim>\<open>back()\<close> without a check.\<close>

fun popstr :: "'b multipart \<Rightarrow> ('b part \<times> 'b multipart) result" where
  "popstr [] = Inl Empty_pop"
| "popstr (p # m) = Inr (p, m)"

fun mp_pop :: "'b multipart \<Rightarrow> ('b part \<times> 'b multipart) result" where
  "mp_pop [] = Inl Empty_pop"
| "mp_pop (p # m) = Inr (p, m)"

definition mp_remove :: "'b multipart \<Rightarrow> ('b part \<times> 'b multipart) result" where
  "mp_remove m = (if m = [] then Inl Empty_pop else Inr (last m, butlast m))"

definition poptyp :: "nat \<Rightarrow> 'b multipart \<Rightarrow> ('b part \<times> 'b multipart) result" where
  "poptyp sz m = (case m of [] \<Rightarrow> Inl Empty_pop
     | p # m' \<Rightarrow> if sz \<noteq> length p then Inl Runtime_error else Inr (p, m'))"

definition peekstr :: "nat \<Rightarrow> 'b multipart \<Rightarrow> 'b part result" where
  "peekstr i m = (if i < length m then Inr (m ! i) else Inl Bad_index)"

definition multipart_of_string :: "'b part \<Rightarrow> 'b multipart" where
  "multipart_of_string s = addstr s []"

text \<open>\<^verbatim>\<open>append\<close> pops the other message from its front, \<^verbatim>\<open>prepend\<close> from its back.\<close>

fun mp_append :: "'b multipart \<Rightarrow> 'b multipart \<Rightarrow> 'b multipart" where
  "mp_append m [] = m"
| "mp_append m (p # other) = mp_append (m @ [p]) other"

function mp_prepend :: "'b multipart \<Rightarrow> 'b multipart \<Rightarrow> 'b multipart" where
  "mp_prepend m other =
     (if other = [] then m else mp_prepend (last other # m) (butlast other))"
  by pat_completeness auto
termination by (relation "measure (\<lambda>(m, other). length other)") auto

declare mp_prepend.simps [simp del]

fun mp_clone_from :: "'b multipart \<Rightarrow> 'b multipart \<Rightarrow> 'b multipart" where
  "mp_clone_from acc [] = acc"
| "mp_clone_from acc (p # m) = mp_clone_from (acc @ [p]) m"

definition mp_clone :: "'b multipart \<Rightarrow> 'b multipart" where
  "mp_clone m = mp_clone_from [] m"

definition mp_equal :: "'b multipart \<Rightarrow> 'b multipart \<Rightarrow> bool" where
  "mp_equal m other \<longleftrightarrow> length m = length other \<and> (\<forall>i < length m. m ! i = other ! i)"

section \<open>Receiving\<close>

text \<open>The member function: \<open>False\<close> keeps the parts that were already received.\<close>

fun mp_recv_loop :: "'b multipart \<Rightarrow> 'b frame list \<Rightarrow> bool \<times> 'b multipart \<times> 'b frame list" where
  "mp_recv_loop m [] = (False, m, [])"
| "mp_recv_loop m ((p, more) # fs) =
     (if more then mp_recv_loop (m @ [p]) fs else (True, m @ [p], fs))"

definition mp_recv :: "'b multipart \<Rightarrow> 'b frame list \<Rightarrow> bool \<times> 'b multipart \<times> 'b frame list" where
  "mp_recv m fs = mp_recv_loop (mp_clear m) fs"

text \<open>
  The free function, with an optional bound on the number of parts.  The assertion
  that \<^verbatim>\<open>EAGAIN\<close> comes only before the first part is a failure value.
\<close>

fun recv_multipart_n :: "nat option \<Rightarrow> nat \<Rightarrow> 'b multipart \<Rightarrow> 'b frame list
    \<Rightarrow> (nat option \<times> 'b multipart \<times> 'b frame list) result" where
  "recv_multipart_n n cnt out [] =
     (if (case n of Some b \<Rightarrow> cnt \<ge> b | None \<Rightarrow> False) then Inl Runtime_error
      else if cnt = 0 then Inr (None, out, []) else Inl Assertion)"
| "recv_multipart_n n cnt out ((p, more) # fs) =
     (if (case n of Some b \<Rightarrow> cnt \<ge> b | None \<Rightarrow> False) then Inl Runtime_error
      else if more then recv_multipart_n n (Suc cnt) (out @ [p]) fs
      else Inr (Some (Suc cnt), out @ [p], fs))"

definition recv_multipart :: "'b multipart \<Rightarrow> 'b frame list
    \<Rightarrow> (nat option \<times> 'b multipart \<times> 'b frame list) result" where
  "recv_multipart out fs = recv_multipart_n None 0 out fs"

section \<open>Sending\<close>

text \<open>One call of the socket: accepted or not, and the remaining answers.\<close>

definition sock_send :: "bool list \<Rightarrow> bool \<times> bool list" where
  "sock_send os = (case os of [] \<Rightarrow> (True, []) | b # os' \<Rightarrow> (b, os'))"

text \<open>
  \<^verbatim>\<open>multipart_t::send\<close> pops a part before it offers it to the socket: result, parts left,
  frames sent, answers left.
\<close>

fun mp_send :: "bool list \<Rightarrow> 'b multipart \<Rightarrow> bool \<times> 'b multipart \<times> 'b frame list \<times> bool list" where
  "mp_send os [] = (True, [], [], os)"
| "mp_send os (p # m) =
     (let (ok, os') = sock_send os in
      if ok then (let (b, left, out, os'') = mp_send os' m in (b, left, (p, m \<noteq> []) # out, os''))
      else (False, m, [], os'))"

text \<open>\<^verbatim>\<open>send_multipart\<close> walks over the range and keeps it.\<close>

fun send_multipart :: "bool list \<Rightarrow> nat \<Rightarrow> 'b multipart
    \<Rightarrow> (nat option \<times> 'b frame list \<times> bool list) result" where
  "send_multipart os cnt [] = Inr (Some cnt, [], os)"
| "send_multipart os cnt (p # m) =
     (let (ok, os') = sock_send os in
      if ok then bindE (send_multipart os' (Suc cnt) m)
                   (\<lambda>(r, out, os''). Inr (r, (p, m \<noteq> []) # out, os''))
      else if cnt = 0 then Inr (None, [], os') else Inl Assertion)"

section \<open>The single-part encoding\<close>

definition encode_part :: "byte part \<Rightarrow> byte list" where
  "encode_part p =
     (let part_size = of_nat (length p) :: u32 in
      if part_size < 0xff then ucast part_size # p
      else 0xff # write_network_order part_size @ p)"

definition mp_encode :: "byte multipart \<Rightarrow> byte list result" where
  "mp_encode parts =
     (if list_all (\<lambda>p. length p \<le> 0xffffffff) parts
      then Inr (concat (map encode_part parts)) else Inl Range_error)"

function mp_decode :: "byte list \<Rightarrow> byte multipart \<Rightarrow> byte multipart result" where
  "mp_decode [] out = Inr out"
| "mp_decode (b # source) out =
     (if b = 0xff then
        if length source < 4 then Inl Out_of_range
        else let part_size = unat (read_u32_network_order source); source = drop 4 source in
             if length source < part_size then Inl Out_of_range
             else mp_decode (drop part_size source) (out @ [take part_size source])
      else let part_size = unat b in
             if length source < part_size then Inl Out_of_range
             else mp_decode (drop part_size source) (out @ [take part_size source]))"
  by pat_completeness auto
termination by (relation "measure (\<lambda>(s, out). length s)") auto

definition decode_append :: "byte multipart \<Rightarrow> byte list \<Rightarrow> byte multipart result" where
  "decode_append m encoded = mp_decode encoded m"

section \<open>The deque operations are list operations\<close>

lemma mp_append_eq [mp_simps]: "mp_append m other = m @ other"
  by (induction m other rule: mp_append.induct) simp_all

lemma mp_prepend_eq [mp_simps]: "mp_prepend m other = other @ m"
proof (induction m other rule: mp_prepend.induct)
  case (1 m other)
  then show ?case
    by (cases other rule: rev_cases) (simp_all add: mp_prepend.simps[of m])
qed

lemma mp_clone_eq [mp_simps]: "mp_clone m = m"
proof -
  have "mp_clone_from acc m = acc @ m" for acc
    by (induction acc m rule: mp_clone_from.induct) simp_all
  then show ?thesis by (simp add: mp_clone_def)
qed

lemma mp_equal_iff [mp_simps]: "mp_equal m other \<longleftrightarrow> m = other"
  by (auto simp: mp_equal_def list_eq_iff_nth_eq)

section \<open>Frames\<close>

fun frames_of :: "'b multipart \<Rightarrow> 'b frame list" where
  "frames_of [] = []"
| "frames_of (p # m) = (p, m \<noteq> []) # frames_of m"

lemma mp_send_ok [mp_simps]: "mp_send [] m = (True, [], frames_of m, [])"
  by (induction m) (simp_all add: sock_send_def)

lemma send_multipart_ok: "send_multipart [] cnt m = Inr (Some (cnt + length m), frames_of m, [])"
  by (induction m arbitrary: cnt) (simp_all add: sock_send_def)

lemma mp_recv_loop_frames:
  "m \<noteq> [] \<Longrightarrow> mp_recv_loop acc (frames_of m @ fs) = (True, acc @ m, fs)"
proof (induction m arbitrary: acc)
  case Nil
  then show ?case by simp
next
  case (Cons p m)
  then show ?case by (cases m) auto
qed

lemma recv_multipart_frames:
  "m \<noteq> [] \<Longrightarrow> recv_multipart_n None cnt acc (frames_of m @ fs) =
     Inr (Some (cnt + length m), acc @ m, fs)"
proof (induction m arbitrary: acc cnt)
  case Nil
  then show ?case by simp
next
  case (Cons p m)
  then show ?case by (cases m) auto
qed

definition recv_one :: "'b frame list \<Rightarrow> ('b multipart \<times> 'b frame list) option" where
  "recv_one fs = (case mp_recv [] fs of (True, m, r) \<Rightarrow> Some (m, r) | _ \<Rightarrow> None)"

interpretation fr: self_delimiting "\<lambda>m. m \<noteq> []" frames_of recv_one
  by unfold_locales (simp add: recv_one_def mp_recv_def mp_clear_def mp_recv_loop_frames)

section \<open>Encoded parts\<close>

lemma length_of_nat_u32: "n \<le> 0xffffffff \<Longrightarrow> unat (of_nat n :: u32) = n"
  by (simp add: unsigned_of_nat take_bit_nat_eq_self_iff)

lemma mp_decode_part:
  assumes "length p \<le> 0xffffffff"
  shows "mp_decode (encode_part p @ rest) out = mp_decode rest (out @ [p])"
proof (cases "(of_nat (length p) :: u32) < 0xff")
  case True
  let ?n = "of_nat (length p) :: u32"
  have n: "unat ?n = length p" using assms by (rule length_of_nat_u32)
  with True have small: "length p < 255" by (simp add: word_less_nat_alt)
  have b: "unat (ucast ?n :: byte) = length p"
    using small by (simp add: unsigned_ucast_eq n take_bit_nat_eq_self_iff)
  moreover have "unat (0xff :: byte) = 255" by simp
  ultimately have "(ucast ?n :: byte) \<noteq> 0xff"
    using small by (metis less_irrefl)
  with True b show ?thesis
    by (simp add: encode_part_def)
next
  case False
  let ?n = "of_nat (length p) :: u32"
  have "unat ?n = length p" using assms by (rule length_of_nat_u32)
  with False show ?thesis
    by (simp add: encode_part_def)
qed

lemma mp_decode_parts:
  "list_all (\<lambda>p. length p \<le> 0xffffffff) parts \<Longrightarrow>
   mp_decode (concat (map encode_part parts) @ rest) out = mp_decode rest (out @ parts)"
  by (induction parts arbitrary: out) (simp_all add: mp_decode_part)

section \<open>Properties\<close>

text \<open>
  A sequence of non-empty multipart messages sent over a socket that accepts every
  frame is received as the same messages, part by part and in order, and nothing of
  what follows on the socket is consumed.
\<close>
theorem multipart_send_recv:
  assumes "list_all (\<lambda>m. m \<noteq> []) ms"
  shows "read_n recv_one (length ms) (concat (map (\<lambda>m. fst (snd (snd (mp_send [] m)))) ms) @ rest) =
    Some (ms, rest)"
  using fr.read_stream[OF assms, of rest] by (simp add: mp_send_ok)

text \<open>
  C38. Encoding a multipart message whose parts have at most $2^{32}-1$ bytes and decoding
  it into an existing message appends exactly the parts; a longer part is refused
  with a range error.
\<close>
theorem multipart_encode_decode:
  "(list_all (\<lambda>p. length p \<le> 0xffffffff) parts \<longrightarrow>
      bindE (mp_encode parts) (decode_append m) = Inr (m @ parts)) \<and>
   (\<not> list_all (\<lambda>p. length p \<le> 0xffffffff) parts \<longrightarrow> mp_encode parts = Inl Range_error)"
  using mp_decode_parts[of parts "[]" m] by (simp add: mp_encode_def decode_append_def)

text \<open>
  When the socket refuses the first part, \<^verbatim>\<open>multipart_t::send\<close> reports failure with
  nothing sent but has already discarded that part, so a retry with an accepting
  socket delivers the message without its first part; a message of which every part
  was refused is finally reported as sent.
\<close>
theorem multipart_send_retry_truncates:
  "mp_send [False] (p # m) = (False, m, [], []) \<and>
   fst (snd (snd (mp_send [] (fst (snd (mp_send [False] (p # m))))))) = frames_of m \<and>
   mp_send os [] = (True, [], [], os)"
  by (simp add: sock_send_def mp_send_ok)

theorem multipart_send_recv_witness:
  "read_n recv_one 2 (concat (map (\<lambda>m. fst (snd (snd (mp_send [] m)))) [[''id'', ''a''], [''b'']]) @ []) =
    Some ([[''id'', ''a''], [''b'']], [])"
  using multipart_send_recv[of "[[''id'', ''a''], [''b'']]" "[]"] by (simp add: numeral_2_eq_2)

theorem multipart_encode_decode_witness:
  "bindE (mp_encode [[1, 2], []]) (decode_append [[7]]) = Inr [[7], [1, 2], []]"
  using multipart_encode_decode[of "[[1, 2], []]" "[[7]]"] by simp

end
