(* ===== verification/Retry.thy ===== *)
theory Retry
  imports Multipart
begin

text \<open>
  The retry loop of the two \<^verbatim>\<open>sendStrMSG\<close> functions (\<^verbatim>\<open>ComuFrame/Central.cpp\<close> and
  \<^verbatim>\<open>ComuFrame/Node.cpp\<close>), and the inproc channels that \<^verbatim>\<open>ComuFrame/utils.cpp\<close> opens between
  the threads of a node.
\<close>

section \<open>Sending with retries\<close>

text \<open>
  The retry loop: \<open>mp_send\<close> consumes the message, so a retry sends what is left.
  Result, frames sent, answers left.
\<close>

function send_retry :: "bool list \<Rightarrow> nat \<Rightarrow> 'b multipart \<Rightarrow> bool \<times> 'b frame list \<times> bool list" where
  "send_retry os tries m =
     (let (ok, left, out, os') = mp_send os m in
      if ok then (True, out, os')
      else if Suc tries > 4 then (False, out, os')
      else let (b, out', os'') = send_retry os' (Suc tries) left in (b, out @ out', os''))"
  by pat_completeness auto
termination by (relation "measure (\<lambda>(os, tries, m). 5 - tries)") auto

declare send_retry.simps [simp del]

lemma mp_send_shrinks: "mp_send os m = (False, left, out, os') \<Longrightarrow> length left < length m"
  by (induction m arbitrary: os left out os')
     (auto simp: sock_send_def intro: less_SucI split: list.splits prod.splits if_splits)

text \<open>A message of at most four parts is used up before the tries are.\<close>

lemma send_retry_true: "length m + tries \<le> 4 \<Longrightarrow> fst (send_retry os tries m)"
proof (induction os tries m rule: send_retry.induct)
  case (1 os tries m)
  obtain ok left out os' where s: "mp_send os m = (ok, left, out, os')" by (cases "mp_send os m") auto
  show ?case
  proof (cases ok)
    case True
    with s show ?thesis by (simp add: send_retry.simps[of os])
  next
    case False
    with s have less: "length left < length m" by (simp add: mp_send_shrinks)
    with 1 s False have "fst (send_retry os' (Suc tries) left)" by auto
    with s False less 1(2) show ?thesis
      by (auto simp: send_retry.simps[of os] split: prod.splits)
  qed
qed

section \<open>Inproc channels\<close>

text \<open>
  The endpoints of a context: the names that were bound, at most once each, and the
  connections that were made.  A connection may come before its bind.
\<close>

record ctx =
  bound :: "string list"
  connected :: "string list"

definition ctx_new :: ctx where
  "ctx_new = \<lparr>bound = [], connected = []\<rparr>"

definition initInprocSocket :: "string \<times> bool \<Rightarrow> ctx \<Rightarrow> ctx result" where
  "initInprocSocket call c =
     (let (url, isConnect) = call in
      if isConnect then Inr (c\<lparr>connected := url # connected c\<rparr>)
      else if url \<in> set (bound c) then Inl Zmq_error
      else Inr (c\<lparr>bound := url # bound c\<rparr>))"

definition linked :: "ctx \<Rightarrow> string \<Rightarrow> bool" where
  "linked c url \<longleftrightarrow> url \<in> set (bound c) \<and> url \<in> set (connected c)"

lemma inproc_calls:
  assumes "distinct (map fst (filter (\<lambda>call. \<not> snd call) calls) @ bound c)"
  shows "\<exists>c'. foldE initInprocSocket calls c = Inr c' \<and>
    set (bound c') = set (bound c) \<union> {u. (u, False) \<in> set calls} \<and>
    set (connected c') = set (connected c) \<union> {u. (u, True) \<in> set calls}"
  using assms
proof (induction calls arbitrary: c)
  case Nil
  then show ?case by simp
next
  case (Cons call calls)
  obtain u b where call: "call = (u, b)" by fastforce
  let ?c1 = "if b then c\<lparr>connected := u # connected c\<rparr> else c\<lparr>bound := u # bound c\<rparr>"
  have "initInprocSocket call c = Inr ?c1"
    using Cons.prems call by (auto simp: initInprocSocket_def)
  moreover have "distinct ((if b then [] else [u]) @ xs @ bound c) \<Longrightarrow> distinct (xs @ bound ?c1)" for xs
    by auto
  then have "distinct (map fst (filter (\<lambda>call. \<not> snd call) calls) @ bound ?c1)"
    using Cons.prems call by (cases b) simp_all
  ultimately show ?case
    using Cons.IH[of ?c1] call by (cases b) auto
qed

end
