(* ===== verification/Yaml_Api.thy ===== *)
theory Yaml_Api
  imports Prelude
begin

text \<open>
  The calls that the nodes make into yaml-cpp, which is not part of the repository: a
  record of operations over an abstract type of YAML nodes.  The definitions of the
  central and of the other nodes take it as an argument.
\<close>

record 'y yaml =
  y_load :: "string \<Rightarrow> 'y result"                      \<comment> \<open>\<^verbatim>\<open>YAML::Load\<close>\<close>
  y_load_file :: "string \<Rightarrow> 'y result"                 \<comment> \<open>\<^verbatim>\<open>YAML::LoadFile\<close>\<close>
  y_get :: "'y \<Rightarrow> string \<Rightarrow> 'y result"                 \<comment> \<open>\<^verbatim>\<open>operator[]\<close>\<close>
  y_entries :: "'y \<Rightarrow> ('y \<times> 'y) list"                \<comment> \<open>iteration over a map node\<close>
  y_as_string :: "'y \<Rightarrow> string result"                 \<comment> \<open>\<^verbatim>\<open>as<std::string>\<close>\<close>
  y_as_int :: "'y \<Rightarrow> int result"                       \<comment> \<open>\<^verbatim>\<open>as<int>\<close>\<close>
  y_as_map :: "'y \<Rightarrow> (string, string) umap result"    \<comment> \<open>\<^verbatim>\<open>as<unordered_map>\<close>\<close>
  y_emit :: "'y \<Rightarrow> string"                             \<comment> \<open>\<^verbatim>\<open>YAML::Emitter\<close>\<close>
  y_null :: 'y                                         \<comment> \<open>a default-constructed node\<close>

definition y_get_string :: "'y yaml \<Rightarrow> 'y \<Rightarrow> string \<Rightarrow> string result" where
  "y_get_string y n key = bindE (y_get y n key) (y_as_string y)"

section \<open>C strings\<close>

text \<open>\<^verbatim>\<open>strcmp\<close> on \<^verbatim>\<open>c_str()\<close>: the comparison stops at the first null character.\<close>

definition c_str :: "string \<Rightarrow> string" where
  "c_str s = takeWhile (\<lambda>ch. ch \<noteq> CHR 0x00) s"

definition strcmp_eq :: "string \<Rightarrow> string \<Rightarrow> bool" where
  "strcmp_eq a b \<longleftrightarrow> c_str a = c_str b"

text \<open>\<^verbatim>\<open>message_t("...")\<close> copies the literal with its terminating null character.\<close>

definition literal_msg :: "string \<Rightarrow> string" where
  "literal_msg s = s @ [CHR 0x00]"

lemma strcmp_literal [simp]: "strcmp_eq (literal_msg s) s"
proof -
  have "takeWhile (\<lambda>ch. ch \<noteq> CHR 0x00) (s @ [CHR 0x00]) = takeWhile (\<lambda>ch. ch \<noteq> CHR 0x00) s"
    by (induction s) auto
  then show ?thesis by (simp add: strcmp_eq_def c_str_def literal_msg_def)
qed

lemma strcmp_refl [simp]: "strcmp_eq a a"
  by (simp add: strcmp_eq_def)

definition no_null :: "string \<Rightarrow> bool" where
  "no_null s \<longleftrightarrow> CHR 0x00 \<notin> set s"

lemma c_str_no_null: "no_null s \<Longrightarrow> c_str s = s"
  unfolding c_str_def no_null_def by (simp add: takeWhile_eq_all_conv) blast

lemma strcmp_no_null: "no_null a \<Longrightarrow> no_null b \<Longrightarrow> strcmp_eq a b \<longleftrightarrow> a = b"
  by (simp add: strcmp_eq_def c_str_no_null)

lemma no_null_syncronization [simp]: "no_null ''syncronization''"
  by (simp add: no_null_def)

end
