(* ===== verification/Central.thy ===== *)
theory Central
  imports Fsm Data_Base Retry Yaml_Api
begin

text \<open>
  The central node, \<^verbatim>\<open>ComuFrame/Central.cpp\<close>.  The service thread is a function of the
  sequence of events on its ROUTER socket: a received multipart message (identity
  frame first, as a ROUTER delivers it) or an event without a message (a failed
  receive in the first loop, an elapsed poll in the second).  A thread whose input
  is used up is blocked; an exception that leaves the thread, or an undefined
  operation, aborts it.

  Messages that the thread sends are listed with the identity frame first.  The ROUTER
  socket of the thread has the default options, under which a send is always
  accepted; the retry loop of \<^verbatim>\<open>sendStrMSG\<close> is modelled with its refusals in
  \<open>send_retry\<close>.
\<close>

type_synonym message = "char multipart"

datatype event = Msg message | Nothing

datatype 'a run = Finished 'a | Blocked 'a | Aborted cpp_error

record Central =
  c_state :: Fsm
  c_url :: string
  c_expectedClient :: int
  c_connectedClients :: "string list"
  c_db :: DataBase

section \<open>Construction\<close>

definition central_config :: "'y yaml \<Rightarrow> (string \<times> int) result" where
  "central_config y =
     bindE (y_load_file y ''C:/Users/pagliani/source/repos/ComuFrame/Config/Central.yaml'') (\<lambda>config.
     bindE (y_get_string y config ''url'') (\<lambda>u.
     bindE (y_get_string y config ''servicePort'') (\<lambda>p.
     bindE (y_get y config ''expectedClient'') (\<lambda>n.
     bindE (y_as_int y n) (\<lambda>e. Inr (u @ p, e))))))"

definition Central_new :: "'y yaml \<Rightarrow> Central" where
  "Central_new y =
     (case central_config y of
        Inr (u, e) \<Rightarrow> \<lparr>c_state = Fsm_new, c_url = u, c_expectedClient = e,
                       c_connectedClients = [], c_db = DataBase_new\<rparr>
      | Inl _ \<Rightarrow> \<lparr>c_state = Fsm_new, c_url = ''tcp://127.0.0.1:5555'', c_expectedClient = 0,
                   c_connectedClients = [], c_db = DataBase_new\<rparr>)"

definition getUrl :: "Central \<Rightarrow> string" where
  "getUrl c = c_url c"

definition getExpectedClient :: "Central \<Rightarrow> int" where
  "getExpectedClient c = c_expectedClient c"

section \<open>Sending\<close>

definition central_msg :: "Central \<Rightarrow> string \<Rightarrow> string \<Rightarrow> message" where
  "central_msg c msg addressee =
     pushstr addressee (addstr msg (multipart_of_string (toString (c_state c))))"

definition central_sendStrMSG ::
    "Central \<Rightarrow> string \<Rightarrow> string \<Rightarrow> bool list \<Rightarrow> bool \<times> char frame list \<times> bool list" where
  "central_sendStrMSG c msg addressee os = send_retry os 0 (central_msg c msg addressee)"

section \<open>Registration\<close>

text \<open>\<^verbatim>\<open>clients.size() < expectedClient\<close> compares as \<^verbatim>\<open>size_t\<close>: a negative number is huge.\<close>

definition size_less :: "nat \<Rightarrow> int \<Rightarrow> bool" where
  "size_less n e \<longleftrightarrow> int n < e mod 2 ^ 64"

definition add_entry ::
    "'y yaml \<Rightarrow> string \<Rightarrow> 'y \<times> 'y \<Rightarrow> DataBase \<Rightarrow> DataBase result" where
  "add_entry y who i db =
     bindE (y_as_string y (fst i)) (\<lambda>name. addPacket (y_as_map y) (snd i) who name db)"

definition register_body ::
    "'y yaml \<Rightarrow> Central \<Rightarrow> string list \<Rightarrow> message \<Rightarrow> (Central \<times> string list \<times> message) result" where
  "register_body y c clients m =
     bindE (popstr m) (\<lambda>(who, m1).
     let clients1 = clients @ [who] in
     if count_list clients1 who > 1 then Inr (c, butlast clients1, pushstr who (pushstr ''connected'' []))
     else bindE (popstr m1) (\<lambda>(st, m2).
       if st = toString (c_state c) then
         bindE (popstr m2) (\<lambda>(text, m3).
         bindE (y_load y text) (\<lambda>YData.
         bindE (foldE (add_entry y who) (y_entries y YData) (c_db c)) (\<lambda>db'.
         Inr (c\<lparr>c_db := db'\<rparr>, clients1, pushstr who (pushstr ''connected'' [])))))
       else Inr (c, butlast clients1, pushstr who (pushstr (toString (c_state c)) []))))"

fun registerClient :: "'y yaml \<Rightarrow> Central \<Rightarrow> string list \<Rightarrow> event list
    \<Rightarrow> (Central \<times> string list \<times> event list) run \<times> message list" where
  "registerClient y c clients [] =
     ((if size_less (length clients) (c_expectedClient c) then Blocked else Finished) (c, clients, []), [])"
| "registerClient y c clients (ev # inbox) =
     (if size_less (length clients) (c_expectedClient c) then
        case ev of
          Nothing \<Rightarrow> registerClient y c clients inbox
        | Msg m \<Rightarrow>
            (case register_body y c clients m of
               Inl e \<Rightarrow> (Aborted e, [])
             | Inr (c', clients', reply) \<Rightarrow>
                 let (r, outs) = registerClient y c' clients' inbox in (r, reply # outs))
      else (Finished (c, clients, ev # inbox), []))"

section \<open>Data requests\<close>

type_synonym requests = "(string, string list) umap"

definition request_data :: "'y yaml \<Rightarrow> 'y \<Rightarrow> string list result" where
  "request_data y YDataRequested =
     foldE (\<lambda>it acc.
       bindE (y_as_string y (fst it)) (\<lambda>k.
       bindE (y_as_string y (snd it)) (\<lambda>v. Inr (acc @ [data_key k v]))))
       (y_entries y YDataRequested) []"

text \<open>Whether the request was entered, and the map.\<close>

definition request_body ::
    "'y yaml \<Rightarrow> Central \<Rightarrow> requests \<Rightarrow> message \<Rightarrow> (bool \<times> requests) result" where
  "request_body y c requestMap m =
     bindE (popstr m) (\<lambda>(nodeName, m1).
     bindE (popstr m1) (\<lambda>(st, m2).
       if st = toString (c_state c) \<and> um_find requestMap nodeName = None then
         bindE (popstr m2) (\<lambda>(text, m3).
         bindE (y_load y text) (\<lambda>YDataRequested.
         bindE (request_data y YDataRequested) (\<lambda>dataRequested.
         Inr (True, um_assign nodeName dataRequested requestMap))))
       else bindE (popstr m2) (\<lambda>_. Inr (False, requestMap))))"

text \<open>The loop leaves only after a request that was entered.\<close>

fun request_loop :: "'y yaml \<Rightarrow> Central \<Rightarrow> requests \<Rightarrow> event list
    \<Rightarrow> (requests \<times> event list) run" where
  "request_loop y c requestMap [] = Blocked (requestMap, [])"
| "request_loop y c requestMap (ev # inbox) =
     (case ev of
        Nothing \<Rightarrow> request_loop y c requestMap inbox
      | Msg m \<Rightarrow>
          (case request_body y c requestMap m of
             Inl e \<Rightarrow> Aborted e
           | Inr (entered, requestMap') \<Rightarrow>
               if entered \<and> length requestMap' = length (c_connectedClients c)
               then Finished (requestMap', inbox)
               else request_loop y c requestMap' inbox))"

section \<open>Answers\<close>

text \<open>\<^verbatim>\<open>providePackets\<close> per request, and the message with the packets appended.\<close>

definition answer_msg :: "string \<Rightarrow> string list \<Rightarrow> message" where
  "answer_msg name packetNeeded =
     fold (\<lambda>str msg. mp_append msg (multipart_of_string str)) packetNeeded (multipart_of_string name)"

fun answer_all :: "bool option \<Rightarrow> requests \<Rightarrow> DataBase \<Rightarrow> DataBase result \<times> message list" where
  "answer_all off [] db = (Inr db, [])"
| "answer_all off ((name, req) # requestMap) db =
     (case providePackets off req db of
        Inl e \<Rightarrow> (Inl e, [])
      | Inr (packetNeeded, db1) \<Rightarrow>
          let (r, msgs) = answer_all off requestMap db1
          in (r, answer_msg name packetNeeded # msgs))"

section \<open>Subscriptions\<close>

fun erase_first :: "string \<Rightarrow> string list \<Rightarrow> bool \<times> string list" where
  "erase_first sender [] = (False, [])"
| "erase_first sender (it # its) =
     (if strcmp_eq sender it then (True, its)
      else let (b, its') = erase_first sender its in (b, it # its'))"

definition subscribe_body ::
    "Central \<Rightarrow> string list \<Rightarrow> message \<Rightarrow> (string list \<times> message list) result" where
  "subscribe_body c toCheck m =
     bindE (popstr m) (\<lambda>(sender, m1).
     bindE (popstr m1) (\<lambda>(st, m2).
     bindE (popstr m2) (\<lambda>(data, m3).
       if strcmp_eq st ''syncronization'' then
         (let (nodeFound, toCheck') = erase_first sender toCheck in
          Inr (toCheck',
               if nodeFound \<and> toCheck' = []
               then map (\<lambda>n. central_msg c ''AllSubscribed'' n) (c_connectedClients c) else []))
       else Inr (toCheck, []))))"

text \<open>The last loop never returns: it ends blocked, or aborted by an error.\<close>

fun subscribe_loop :: "Central \<Rightarrow> string list \<Rightarrow> event list
    \<Rightarrow> (cpp_error + string list) \<times> message list" where
  "subscribe_loop c toCheck [] = (Inr toCheck, [])"
| "subscribe_loop c toCheck (ev # inbox) =
     (case ev of
        Nothing \<Rightarrow> subscribe_loop c toCheck inbox
      | Msg m \<Rightarrow>
          (case subscribe_body c toCheck m of
             Inl e \<Rightarrow> (Inl e, [])
           | Inr (toCheck', outs) \<Rightarrow>
               let (r, outs') = subscribe_loop c toCheck' inbox in (r, outs @ outs')))"

section \<open>The service thread\<close>

datatype service_status =
    Registering "string list"      \<comment> \<open>the clients so far\<close>
  | Requesting requests            \<comment> \<open>the requests so far\<close>
  | Subscribing "string list"      \<comment> \<open>the clients still to check\<close>
  | Failed cpp_error

record service =
  sv_status :: service_status
  sv_central :: Central
  sv_sent :: "message list"
  sv_toMain :: "string list"

definition after_registration :: "Central \<Rightarrow> string list \<Rightarrow> Central" where
  "after_registration c clients =
     c\<lparr>c_connectedClients := clients, c_state := snd (nextState (c_state c))\<rparr>"

definition phase_messages :: "Central \<Rightarrow> message list" where
  "phase_messages c = map (central_msg c (toString (c_state c))) (c_connectedClients c)"

text \<open>From the answers on.\<close>

definition serve_answers :: "bool option \<Rightarrow> Central \<Rightarrow> requests \<Rightarrow> event list \<Rightarrow> service" where
  "serve_answers off c requestMap inbox =
     (case answer_all off requestMap (c_db c) of
        (Inl e, msgs) \<Rightarrow> \<lparr>sv_status = Failed e, sv_central = c, sv_sent = msgs, sv_toMain = []\<rparr>
      | (Inr db', msgs) \<Rightarrow>
          let c3 = c\<lparr>c_db := db'\<rparr>;
              (r, outs) = subscribe_loop c3 (c_connectedClients c3) inbox
          in \<lparr>sv_status = (case r of Inl e \<Rightarrow> Failed e | Inr left \<Rightarrow> Subscribing left),
              sv_central = c3, sv_sent = msgs @ outs,
              sv_toMain = [literal_msg ''syncronization Completed'']\<rparr>)"

text \<open>From the data requests on.\<close>

definition serve_requests :: "'y yaml \<Rightarrow> bool option \<Rightarrow> Central \<Rightarrow> event list \<Rightarrow> service" where
  "serve_requests y off c inbox =
     (case request_loop y c [] inbox of
        Blocked (requestMap, _) \<Rightarrow>
          \<lparr>sv_status = Requesting requestMap, sv_central = c, sv_sent = [], sv_toMain = []\<rparr>
      | Aborted e \<Rightarrow> \<lparr>sv_status = Failed e, sv_central = c, sv_sent = [], sv_toMain = []\<rparr>
      | Finished (requestMap, rest) \<Rightarrow> serve_answers off c requestMap rest)"

definition sent_before :: "message list \<Rightarrow> service \<Rightarrow> service" where
  "sent_before outs sv = sv\<lparr>sv_sent := outs @ sv_sent sv\<rparr>"

definition initServiceThread :: "'y yaml \<Rightarrow> bool option \<Rightarrow> Central \<Rightarrow> event list \<Rightarrow> service" where
  "initServiceThread y off c inbox =
     (case registerClient y c [] inbox of
        (Blocked (c1, clients, _), outs) \<Rightarrow>
          \<lparr>sv_status = Registering clients, sv_central = c1, sv_sent = outs, sv_toMain = []\<rparr>
      | (Aborted e, outs) \<Rightarrow> \<lparr>sv_status = Failed e, sv_central = c, sv_sent = outs, sv_toMain = []\<rparr>
      | (Finished (c1, clients, rest), outs) \<Rightarrow>
          let c2 = after_registration c1 clients
          in sent_before (outs @ phase_messages c2) (serve_requests y off c2 rest))"

section \<open>The main and timer threads\<close>

text \<open>The main thread waits for the completion message of the service thread.\<close>

fun wait_syncro :: "string list \<Rightarrow> string list run" where
  "wait_syncro [] = Blocked []"
| "wait_syncro (msg # msgs) =
     (if strcmp_eq msg ''syncronization Completed'' then Finished msgs else wait_syncro msgs)"

definition timer_messages :: "string list" where
  "timer_messages = replicate 10 (literal_msg ''message'')"

text \<open>The main loop then receives the messages of the timer thread one after the other.\<close>

definition initCentral :: "'y yaml \<Rightarrow> bool option \<Rightarrow> Central \<Rightarrow> event list \<Rightarrow> string list" where
  "initCentral y off c inbox =
     (case wait_syncro (sv_toMain (initServiceThread y off c inbox)) of
        Finished _ \<Rightarrow> timer_messages | _ \<Rightarrow> [])"

section \<open>Messages\<close>

lemma central_msg_eq [simp]: "central_msg c msg who = [who, toString (c_state c), msg]"
  by (simp add: central_msg_def multipart_of_string_def addstr_def pushstr_def)

section \<open>Registration\<close>

lemma toString_not_connected [simp]: "toString f \<noteq> ''connected''" "''connected'' \<noteq> toString f"
  by (simp_all add: toString_def split: State.splits)

lemma add_entry_eq:
  "y_as_string y (fst i) = Inr n \<Longrightarrow> add_entry y who i = addPacket (y_as_map y) (snd i) who n"
  by (rule ext) (simp add: add_entry_def)

lemma addPacket_clear:
  assumes "addPacket as_map yp s n db = Inr db'" and "db_wf db" and "db_clear db"
  shows "db_clear db'"
proof -
  from assms(1) obtain pack where pack: "as_map yp = Inr pack"
    by (cases "as_map yp") (auto simp: addPacket_def)
  then have "avaiablePacks db' = um_insert (packet_key n s) False (avaiablePacks db)"
    using addPacket_spec[where as_map = as_map and y = yp and s = s and n = n, OF assms(2) pack] assms(1)
    by (metis sum.inject(2))
  with assms(3) show ?thesis by (auto simp: db_clear_def um_insert_def split: option.splits)
qed

definition db_idle :: "DataBase \<Rightarrow> bool" where
  "db_idle db \<longleftrightarrow> db_wf db \<and> db_clear db"

lemma add_entry_idle: "add_entry y who i db = Inr db' \<Longrightarrow> db_idle db \<Longrightarrow> db_idle db'"
  by (auto simp: add_entry_def bindE_eq_Inr db_idle_def intro: db.add_inv addPacket_clear)

lemma register_body_cases:
  assumes "register_body y c clients m = Inr (c', clients', reply)"
  obtains (Repeat) who rest where "m = who # rest" "who \<in> set clients" "c' = c" "clients' = clients"
      "reply = [who, ''connected'']"
  | (New) who body rest n db' where "m = who # toString (c_state c) # body # rest" "who \<notin> set clients"
      "y_load y body = Inr n" "foldE (add_entry y who) (y_entries y n) (c_db c) = Inr db'"
      "c' = c\<lparr>c_db := db'\<rparr>" "clients' = clients @ [who]" "reply = [who, ''connected'']"
  | (Wrong) who st rest where "m = who # st # rest" "who \<notin> set clients" "st \<noteq> toString (c_state c)"
      "c' = c" "clients' = clients" "reply = [who, toString (c_state c)]"
proof -
  from assms obtain who m1 where m: "m = who # m1"
    by (cases m) (auto simp: register_body_def)
  show thesis
  proof (cases "who \<in> set clients")
    case True
    then have "count_list clients who \<noteq> 0" by (simp add: count_list_0_iff)
    with assms m have "c' = c" "clients' = clients" "reply = [who, ''connected'']"
      by (simp_all add: register_body_def pushstr_def Let_def)
    with m True show thesis by (rule Repeat)
  next
    case False
    then have no: "count_list clients who = 0" by (simp add: count_list_0_iff)
    with m assms obtain st m2 where m1: "m1 = st # m2"
      by (cases m1) (simp_all add: register_body_def Let_def)
    show thesis
    proof (cases "st = toString (c_state c)")
      case True
      with m m1 assms no obtain body m3 where m2: "m2 = body # m3"
        by (cases m2) (simp_all add: register_body_def Let_def)
      from assms obtain n db' where "y_load y body = Inr n"
        "foldE (add_entry y who) (y_entries y n) (c_db c) = Inr db'"
        "c' = c\<lparr>c_db := db'\<rparr>" "clients' = clients @ [who]" "reply = [who, ''connected'']"
        by (auto simp: register_body_def Let_def bindE_eq_Inr pushstr_def m m1 m2 True no)
      with m m1 m2 True False show thesis by (intro New) simp_all
    next
      case neq: False
      with assms have "c' = c" "clients' = clients" "reply = [who, toString (c_state c)]"
        by (auto simp: register_body_def Let_def pushstr_def m m1 no)
      with m m1 neq False show thesis by (intro Wrong) simp_all
    qed
  qed
qed

text \<open>What the registration guarantees, whatever arrives.\<close>

definition asked :: "State \<Rightarrow> string \<Rightarrow> event list \<Rightarrow> bool" where
  "asked s who inbox \<longleftrightarrow> list_ex (\<lambda>ev. case ev of Nothing \<Rightarrow> False
     | Msg m \<Rightarrow> length m \<ge> 3 \<and> m ! 0 = who \<and> m ! 1 = toString \<lparr>currState = s\<rparr>) inbox"

definition confirmed :: "message list \<Rightarrow> string set" where
  "confirmed outs = {w. [w, ''connected''] \<in> set outs}"

lemma registerClient_Cons:
  assumes "size_less (length clients) (c_expectedClient c)"
    and "registerClient y c clients (Msg m # inbox) = (Finished res, outs)"
  obtains c1 clients1 reply outs1 where "register_body y c clients m = Inr (c1, clients1, reply)"
    and "registerClient y c1 clients1 inbox = (Finished res, outs1)" and "outs = reply # outs1"
proof -
  from assms obtain c1 clients1 reply where b: "register_body y c clients m = Inr (c1, clients1, reply)"
    by (cases "register_body y c clients m") auto
  moreover obtain r outs1 where r: "registerClient y c1 clients1 inbox = (r, outs1)"
    by (cases "registerClient y c1 clients1 inbox") auto
  ultimately show thesis using assms that by auto
qed

definition registered :: "Central \<Rightarrow> string list \<Rightarrow> event list \<Rightarrow> Central \<Rightarrow> string list \<Rightarrow> message list \<Rightarrow> bool" where
  "registered c clients inbox c' clients' outs \<longleftrightarrow>
     (\<exists>new. clients' = clients @ new \<and> distinct clients' \<and>
        (\<forall>w\<in>set new. asked (currState (c_state c)) w inbox) \<and>
        set new \<subseteq> confirmed outs \<and> confirmed outs \<subseteq> set clients') \<and>
     c' = c\<lparr>c_db := c_db c'\<rparr> \<and> db_idle (c_db c')"

lemma asked_Cons [simp]:
  "asked s w (ev # inbox) \<longleftrightarrow> asked s w inbox \<or>
     (case ev of Nothing \<Rightarrow> False
      | Msg m \<Rightarrow> length m \<ge> 3 \<and> m ! 0 = w \<and> m ! 1 = toString \<lparr>currState = s\<rparr>)"
  by (auto simp: asked_def)

lemma confirmed_simps [simp]:
  "confirmed [] = {}"
  "confirmed ([w, ''connected''] # outs) = insert w (confirmed outs)"
  "confirmed ([w, toString f] # outs) = confirmed outs"
  by (auto simp: confirmed_def)

lemma toString_record: "toString \<lparr>currState = currState f\<rparr> = toString f"
  by (simp add: toString_def)

lemma registered_step:
  assumes "register_body y c clients m = Inr (c1, clients1, reply)"
    and "distinct clients" and "db_idle (c_db c)"
  shows "distinct clients1 \<and> db_idle (c_db c1) \<and> c_expectedClient c1 = c_expectedClient c \<and>
    length clients1 \<le> Suc (length clients) \<and>
    (registered c1 clients1 inbox c' clients' outs \<longrightarrow>
     registered c clients (Msg m # inbox) c' clients' (reply # outs))"
  using assms(1)
proof (cases rule: register_body_cases)
  case (Repeat who rest)
  with assms(2,3) show ?thesis by (auto simp: registered_def)
next
  case (New who body rest n db')
  have "db_idle db'"
    using New(4) assms(3) by (rule foldE_invariant) (rule add_entry_idle)
  with New assms(2) show ?thesis
    by (auto simp: registered_def toString_record)
next
  case (Wrong who st rest)
  with assms(2,3) show ?thesis by (auto simp: registered_def)
qed

lemma registerClient_safe:
  assumes "registerClient y c clients inbox = (Finished (c', clients', rest), outs)"
    and "distinct clients" and "db_idle (c_db c)"
    and "0 \<le> c_expectedClient c" "c_expectedClient c < 2 ^ 31" "int (length clients) \<le> c_expectedClient c"
  shows "registered c clients inbox c' clients' outs \<and> int (length clients') = c_expectedClient c"
  using assms
proof (induction inbox arbitrary: c clients outs)
  case Nil
  then show ?case by (auto simp: registered_def size_less_def split: if_splits)
next
  case (Cons ev inbox)
  show ?case
  proof (cases "size_less (length clients) (c_expectedClient c)")
    case False
    with Cons.prems show ?thesis by (auto simp: registered_def size_less_def)
  next
    case less: True
    show ?thesis
    proof (cases ev)
      case Nothing
      with less Cons.prems have "registerClient y c clients inbox = (Finished (c', clients', rest), outs)" by simp
      from Cons.IH[OF this Cons.prems(2-)] Nothing show ?thesis by (auto simp: registered_def)
    next
      case (Msg m)
      from Cons.prems(1)[unfolded Msg] obtain c1 clients1 reply outs1
        where b: "register_body y c clients m = Inr (c1, clients1, reply)"
          and r: "registerClient y c1 clients1 inbox = (Finished (c', clients', rest), outs1)"
          and o: "outs = reply # outs1"
        by (rule registerClient_Cons[OF less])
      note st = registered_step[OF b Cons.prems(2,3), of inbox c' clients' outs1]
      have "int (length clients1) \<le> c_expectedClient c1"
        using st less Cons.prems(4,5) by (simp add: size_less_def)
      with Cons.IH[OF r] st Cons.prems(4,5) have
        "registered c1 clients1 inbox c' clients' outs1 \<and> int (length clients') = c_expectedClient c1" by simp
      with st Msg o show ?thesis by simp
    qed
  qed
qed

section \<open>A complete handshake\<close>

text \<open>
  The packets that a registration text declares, the data that a request text asks
  for, and the packets that carry a datum after a list of registrations.
\<close>

definition declares :: "'y yaml \<Rightarrow> string \<Rightarrow> (string \<times> (string, string) umap) list \<Rightarrow> bool" where
  "declares y body ps \<longleftrightarrow>
     (case y_load y body of Inl _ \<Rightarrow> False
      | Inr n \<Rightarrow> list_all2 (\<lambda>i p. y_as_string y (fst i) = Inr (fst p) \<and> y_as_map y (snd i) = Inr (snd p))
                  (y_entries y n) ps)"

definition requests_data :: "'y yaml \<Rightarrow> string \<Rightarrow> string list \<Rightarrow> bool" where
  "requests_data y body ds \<longleftrightarrow> bindE (y_load y body) (request_data y) = Inr ds"

type_synonym registration = "string \<times> string \<times> (string \<times> (string, string) umap) list"
type_synonym request = "string \<times> string \<times> string list"

definition declared :: "string \<Rightarrow> (string \<times> (string, string) umap) list \<Rightarrow> string \<Rightarrow> string set" where
  "declared who ps d =
     (\<lambda>p. packet_key (fst p) who) ` {p \<in> set ps. \<exists>it\<in>set (snd p). data_key (fst it) (snd it) = d}"

definition carriers_of :: "registration list \<Rightarrow> string \<Rightarrow> string set" where
  "carriers_of regs d = (\<Union>(w, body, ps)\<in>set regs. declared w ps d)"

abbreviation arrival :: "Fsm \<Rightarrow> string \<times> string \<times> 'x \<Rightarrow> event" where
  "arrival f r \<equiv> Msg [fst r, toString f, fst (snd r)]"

lemma foldE_add_entry:
  "list_all2 (\<lambda>i p. y_as_string y (fst i) = Inr (fst p) \<and> y_as_map y (snd i) = Inr (snd p)) es ps \<Longrightarrow>
   db_wf db \<Longrightarrow> \<exists>db'. foldE (add_entry y who) es db = Inr db' \<and> db_wf db' \<and>
     (\<forall>d. set (providers db' d) = set (providers db d) \<union> declared who ps d)"
proof (induction es ps arbitrary: db rule: list_all2_induct)
  case Nil
  then show ?case by (simp add: declared_def)
next
  case (Cons i es p ps)
  have fs: "y_as_map y (snd i) = Inr (snd p)" using Cons.hyps(1) by simp
  obtain db1 where a: "addPacket (y_as_map y) (snd i) who (fst p) db = Inr db1"
    using db.add_total[where as_map = "y_as_map y", OF Cons.prems fs] by blast
  have wf1: "db_wf db1" using Cons.prems a by (rule db.add_inv)
  have eq: "add_entry y who i db = Inr db1"
    using a Cons.hyps(1) by (simp add: add_entry_eq)
  from Cons.IH[OF wf1] obtain db' where "foldE (add_entry y who) es db1 = Inr db'" "db_wf db'"
    and set: "\<And>d. set (providers db' d) = set (providers db1 d) \<union> declared who ps d" by auto
  moreover have "set (providers db1 d) \<union> declared who ps d = set (providers db d) \<union> declared who (p # ps) d" for d
    using db.add_carriers[OF Cons.prems fs a, of d] by (auto simp: declared_def)
  ultimately show ?case
    using eq by (intro exI[of _ db']) simp
qed

lemma size_less_nat: "0 \<le> e \<Longrightarrow> e < 2 ^ 31 \<Longrightarrow> size_less n e \<longleftrightarrow> int n < e"
  by (simp add: size_less_def)

lemma registerClient_one:
  assumes "size_less (length clients) (c_expectedClient c)" and "w \<notin> set clients"
    and "declares y body ps" and "db_idle (c_db c)"
  shows "\<exists>db'. register_body y c clients [w, toString (c_state c), body] =
      Inr (c\<lparr>c_db := db'\<rparr>, clients @ [w], [w, ''connected'']) \<and> db_idle db' \<and>
    (\<forall>d. set (providers db' d) = set (providers (c_db c) d) \<union> carriers_of [(w, body, ps)] d)"
proof -
  from assms(3) obtain n where n: "y_load y body = Inr n"
    and es: "list_all2 (\<lambda>i p. y_as_string y (fst i) = Inr (fst p) \<and> y_as_map y (snd i) = Inr (snd p)) (y_entries y n) ps"
    by (auto simp: declares_def split: sum.splits)
  from foldE_add_entry[OF es, of "c_db c" w] assms(4) obtain db'
    where f: "foldE (add_entry y w) (y_entries y n) (c_db c) = Inr db'"
      and p: "\<forall>d. set (providers db' d) = set (providers (c_db c) d) \<union> declared w ps d"
    by (auto simp: db_idle_def)
  have "db_idle db'" using f assms(4) by (rule foldE_invariant) (rule add_entry_idle)
  moreover have "count_list clients w = 0" using assms(2) by (simp add: count_list_0_iff)
  ultimately show ?thesis
    using f p n by (auto simp: register_body_def pushstr_def carriers_of_def)
qed

lemma carriers_of_Cons: "carriers_of (r # regs) d = carriers_of [r] d \<union> carriers_of regs d"
  by (auto simp: carriers_of_def)

lemma registerClient_all:
  assumes "distinct (clients @ map fst regs)" and "list_all (\<lambda>(w, body, ps). declares y body ps) regs"
    and "int (length clients + length regs) = c_expectedClient c" and "c_expectedClient c < 2 ^ 31"
    and "db_idle (c_db c)"
  shows "\<exists>db'. registerClient y c clients (map (arrival (c_state c)) regs @ rest) =
      (Finished (c\<lparr>c_db := db'\<rparr>, clients @ map fst regs, rest), map (\<lambda>r. [fst r, ''connected'']) regs) \<and>
    db_idle db' \<and> (\<forall>d. set (providers db' d) = set (providers (c_db c) d) \<union> carriers_of regs d)"
  using assms
proof (induction regs arbitrary: c clients)
  case Nil
  then have "registerClient y c clients rest = (Finished (c, clients, rest), [])"
    by (cases rest) (simp_all add: size_less_nat)
  with Nil show ?case by (intro exI[of _ "c_db c"]) (simp add: carriers_of_def)
next
  case (Cons r regs)
  obtain w body ps where r: "r = (w, body, ps)" by (cases r)
  have less: "size_less (length clients) (c_expectedClient c)"
    using Cons.prems(3,4) by (simp add: size_less_nat)
  from registerClient_one[OF less _ _ Cons.prems(5), of w y body ps] Cons.prems r obtain db1
    where b: "register_body y c clients [w, toString (c_state c), body] =
        Inr (c\<lparr>c_db := db1\<rparr>, clients @ [w], [w, ''connected''])" and i: "db_idle db1"
      and p: "\<And>d. set (providers db1 d) = set (providers (c_db c) d) \<union> carriers_of [r] d" by auto
  have "\<exists>db'. registerClient y (c\<lparr>c_db := db1\<rparr>) (clients @ [w]) (map (arrival (c_state (c\<lparr>c_db := db1\<rparr>))) regs @ rest) =
      (Finished (c\<lparr>c_db := db1\<rparr>\<lparr>c_db := db'\<rparr>, (clients @ [w]) @ map fst regs, rest),
        map (\<lambda>r. [fst r, ''connected'']) regs) \<and>
    db_idle db' \<and> (\<forall>d. set (providers db' d) = set (providers (c_db (c\<lparr>c_db := db1\<rparr>)) d) \<union> carriers_of regs d)"
    using Cons.prems r i by (intro Cons.IH) auto
  with b less p r show ?case
    by (auto simp: carriers_of_Cons[of _ regs])
qed

lemma request_body_new:
  assumes "um_find rm w = None" and "requests_data y body ds"
  shows "request_body y c rm [w, toString (c_state c), body] = Inr (True, um_assign w ds rm)"
  using assms by (auto simp: request_body_def requests_data_def bindE_eq_Inr)

lemma um_assign_new: "w \<notin> fst ` set m \<Longrightarrow> um_assign w v m = m @ [(w, v)]"
  unfolding um_assign_def by (induction m) auto

lemma request_loop_all:
  assumes "distinct (map fst rm @ map fst reqs)" and "list_all (\<lambda>(w, body, ds). requests_data y body ds) reqs"
    and "length rm + length reqs = length (c_connectedClients c)" and "reqs \<noteq> []"
  shows "request_loop y c rm (map (arrival (c_state c)) reqs @ rest) =
    Finished (rm @ map (\<lambda>(w, body, ds). (w, ds)) reqs, rest)"
  using assms
proof (induction reqs arbitrary: rm)
  case Nil
  then show ?case by simp
next
  case (Cons r reqs)
  obtain w body ds where r: "r = (w, body, ds)" by (cases r)
  have new: "w \<notin> fst ` set rm" using Cons.prems(1) r by auto
  then have "um_find rm w = None" by (simp add: um_find_def map_of_eq_None_iff)
  then have b: "request_body y c rm [w, toString (c_state c), body] = Inr (True, rm @ [(w, ds)])"
    using Cons.prems(2) r request_body_new[of rm w y body ds c] by (simp add: um_assign_new[OF new])
  show ?case
  proof (cases "reqs = []")
    case True
    with b Cons.prems(3) r show ?thesis by simp
  next
    case False
    with Cons.prems r have "request_loop y c (rm @ [(w, ds)]) (map (arrival (c_state c)) reqs @ rest) =
        Finished ((rm @ [(w, ds)]) @ map (\<lambda>(w, body, ds). (w, ds)) reqs, rest)"
      by (intro Cons.IH) auto
    moreover have "Suc (length rm) \<noteq> length (c_connectedClients c)"
      using False Cons.prems(3) by (cases reqs) auto
    ultimately show ?thesis using b r by simp
  qed
qed

lemma answer_msg_eq [simp]: "answer_msg name ps = name # ps"
proof -
  have "fold (\<lambda>str msg. mp_append msg (multipart_of_string str)) ps m = m @ ps" for m
    by (induction ps arbitrary: m) (simp_all add: mp_append_eq multipart_of_string_def addstr_def)
  then show ?thesis by (simp add: answer_msg_def multipart_of_string_def addstr_def)
qed

text \<open>The answer to a request, addressed to its node.\<close>

definition answers :: "DataBase \<Rightarrow> string \<times> string list \<Rightarrow> message \<Rightarrow> bool" where
  "answers db r msg \<longleftrightarrow> msg = fst r # tl msg \<and> distinct (tl msg) \<and>
     set (tl msg) = unique_packs db (snd r) \<union> first_shared db (snd r)"

lemma answer_all_ok:
  assumes "db_idle db" and "\<forall>r\<in>set rm. \<forall>d\<in>set (snd r). providers db d \<noteq> []"
  shows "\<exists>msgs. answer_all off rm db = (Inr db, msgs) \<and> list_all2 (answers db) rm msgs"
  using assms(2)
proof (induction rm)
  case Nil
  then show ?case by simp
next
  case (Cons r rm)
  obtain w ds where r: "r = (w, ds)" by (cases r)
  from Cons.prems r assms(1) obtain res where "providePackets off ds db = Inr (res, db)"
    "distinct res" "set res = unique_packs db ds \<union> first_shared db ds"
    using provide_success[of db ds off] by (auto simp: db_idle_def)
  with Cons r show ?case by (auto simp: answers_def)
qed

section \<open>Subscriptions\<close>

abbreviation report :: "string \<times> string \<Rightarrow> event" where
  "report r \<equiv> Msg [fst r, ''syncronization'', snd r]"

abbreviation all_subscribed :: "Central \<Rightarrow> message list" where
  "all_subscribed c \<equiv> map (central_msg c ''AllSubscribed'') (c_connectedClients c)"

definition reported :: "string \<Rightarrow> event list \<Rightarrow> bool" where
  "reported n inbox \<longleftrightarrow> list_ex (\<lambda>ev. case ev of Nothing \<Rightarrow> False
     | Msg m \<Rightarrow> length m \<ge> 3 \<and> strcmp_eq (m ! 0) n \<and> strcmp_eq (m ! 1) ''syncronization'') inbox"

lemma erase_first_eq:
  "no_null s \<Longrightarrow> list_all no_null l \<Longrightarrow> erase_first s l = (s \<in> set l, remove1 s l)"
  by (induction l) (auto simp: strcmp_no_null)

lemma erase_first_elem:
  "erase_first s l = (b, l') \<Longrightarrow> n \<in> set l \<Longrightarrow> n \<in> set l' \<or> b \<and> strcmp_eq s n"
  by (induction l arbitrary: l') (auto split: prod.splits if_splits)

lemma subscribe_loop_all:
  assumes "mset (map fst subs) = mset toCheck" and "list_all no_null toCheck" and "subs \<noteq> []"
  shows "subscribe_loop c toCheck (map report subs) = (Inr [], all_subscribed c)"
  using assms
proof (induction subs arbitrary: toCheck)
  case Nil
  then show ?case by simp
next
  case (Cons x subs)
  have x: "fst x \<in> set toCheck"
    using Cons.prems(1) by (metis list.set_intros(1) list.simps(9) set_mset_mset)
  then have erase: "erase_first (fst x) toCheck = (True, remove1 (fst x) toCheck)"
    using Cons.prems(2) by (subst erase_first_eq) (auto simp: list_all_iff)
  have left: "mset (map fst subs) = mset (remove1 (fst x) toCheck)"
    using Cons.prems(1) by (simp flip: Cons.prems(1))
  show ?case
  proof (cases "subs = []")
    case True
    with left have "remove1 (fst x) toCheck = []" by (metis list.simps(8) mset.simps(1) mset_zero_iff)
    with erase True show ?thesis by (simp add: subscribe_body_def)
  next
    case False
    then have "remove1 (fst x) toCheck \<noteq> []"
      using left by (metis list.map_disc_iff mset.simps(1) mset_zero_iff)
    moreover have "subscribe_loop c (remove1 (fst x) toCheck) (map report subs) = (Inr [], all_subscribed c)"
      using left Cons.prems(2) False
      by (intro Cons.IH) (auto simp: list_all_iff dest: notin_set_remove1[rotated] set_remove1_subset[THEN subsetD])
    ultimately show ?thesis using erase by (simp add: subscribe_body_def)
  qed
qed

lemma subscribe_loop_empty: "snd (subscribe_loop c [] inbox) = []"
proof (induction inbox)
  case (Cons ev inbox)
  have "subscribe_body c [] m = Inr (l, outs) \<Longrightarrow> l = [] \<and> outs = []" for m l outs
    by (auto simp: subscribe_body_def bindE_eq_Inr split: if_splits)
  with Cons show ?case by (fastforce split: event.splits sum.splits prod.splits)
qed simp

lemma subscribe_body_cases:
  assumes "subscribe_body c toCheck m = Inr (l, outs)"
  shows "(outs = [] \<or> outs = all_subscribed c \<and> l = []) \<and>
    (\<forall>n\<in>set toCheck. n \<in> set l \<or> reported n [Msg m])"
proof -
  from assms obtain sender st data m3 where m: "m = sender # st # data # m3"
    by (auto simp: subscribe_body_def bindE_eq_Inr elim!: popstr.elims)
  obtain b l' where e: "erase_first sender toCheck = (b, l')" by fastforce
  show ?thesis
  proof (cases "strcmp_eq st ''syncronization''")
    case True
    with assms m e show ?thesis
      by (auto simp: subscribe_body_def reported_def dest: erase_first_elem[OF e] split: if_splits)
  next
    case False
    with assms m show ?thesis by (simp add: subscribe_body_def)
  qed
qed

lemma subscribe_loop_barrier:
  "snd (subscribe_loop c toCheck inbox) = [] \<or>
   snd (subscribe_loop c toCheck inbox) = all_subscribed c \<and> (\<forall>n\<in>set toCheck. reported n inbox)"
proof (induction inbox arbitrary: toCheck)
  case Nil
  then show ?case by simp
next
  case (Cons ev inbox)
  show ?case
  proof (cases ev)
    case Nothing
    with Cons[of toCheck] show ?thesis by (auto simp: reported_def)
  next
    case (Msg m)
    show ?thesis
    proof (cases "subscribe_body c toCheck m")
      case (Inl e)
      with Msg show ?thesis by simp
    next
      case (Inr p)
      obtain l outs where p: "p = (l, outs)" by fastforce
      note b = subscribe_body_cases[OF Inr[unfolded p]]
      have out: "snd (subscribe_loop c toCheck (ev # inbox)) = outs @ snd (subscribe_loop c l inbox)"
        using Msg Inr p by (auto split: prod.splits)
      have rep: "reported n (ev # inbox)" if "reported n [Msg m] \<or> reported n inbox" for n
        using that Msg by (auto simp: reported_def)
      show ?thesis
      proof (cases "outs = []")
        case True
        with out b rep Cons[of l] show ?thesis by auto
      next
        case False
        with b have "outs = all_subscribed c" "l = []" by auto
        with out b rep show ?thesis by (auto simp: subscribe_loop_empty)
      qed
    qed
  qed
qed

lemma request_loop_no_clients:
  "c_connectedClients c = [] \<Longrightarrow> request_loop y c rm inbox \<noteq> Finished res"
proof (induction inbox arbitrary: rm)
  case (Cons ev inbox)
  have ne: "rm' \<noteq> []" if "request_body y c rm m = Inr (True, rm')" for m rm'
    using that by (auto simp: request_body_def bindE_eq_Inr um_assign_def update_nonempty split: if_splits)
  show ?case
    using Cons.IH[OF Cons.prems] Cons.prems ne
    by (auto split: event.splits sum.splits prod.splits)
qed simp

lemma service_run:
  assumes fresh: "c_state c = Fsm_new" "c_db c = DataBase_new"
    and expected: "int (length regs) = c_expectedClient c" "c_expectedClient c < 2 ^ 31"
    and regs: "regs \<noteq> []" "distinct (map fst regs)" "list_all (\<lambda>(w, body, ps). declares y body ps) regs"
    and reqs: "mset (map fst reqs) = mset (map fst regs)"
      "list_all (\<lambda>(w, body, ds). requests_data y body ds) reqs"
      "\<forall>r\<in>set reqs. \<forall>d\<in>set (snd (snd r)). carriers_of regs d \<noteq> {}"
    and subs: "mset (map fst subs) = mset (map fst regs)" "list_all no_null (map fst regs)"
  shows "\<exists>sv msgs. initServiceThread y off c
        (map (arrival Fsm_new) regs @ map (arrival \<lparr>currState = Syncronization\<rparr>) reqs @ map report subs) = sv \<and>
      sv_status sv = Subscribing [] \<and> currState (c_state (sv_central sv)) = Syncronization \<and>
      c_connectedClients (sv_central sv) = map fst regs \<and>
      (\<forall>d. set (providers (c_db (sv_central sv)) d) = carriers_of regs d) \<and>
      list_all2 (answers (c_db (sv_central sv))) (map (\<lambda>(w, body, ds). (w, ds)) reqs) msgs \<and>
      sv_toMain sv = [literal_msg ''syncronization Completed''] \<and>
      sv_sent sv = map (\<lambda>r. [fst r, ''connected'']) regs @
        map (\<lambda>r. [fst r, ''syncronization'', ''syncronization'']) regs @ msgs @
        map (\<lambda>r. [fst r, ''syncronization'', ''AllSubscribed'']) regs"
proof -
  let ?clients = "map fst regs"
  let ?rm = "map (\<lambda>(w, body, ds). (w, ds)) reqs"
  let ?S = "\<lparr>currState = Syncronization\<rparr>"
  let ?rest = "map (arrival ?S) reqs @ map report subs"
  have new: "db_idle (c_db c)" by (simp add: fresh db_idle_def)
  have none: "providers (c_db c) d = []" for d
    by (simp add: fresh providers_def DataBase_new_def)
  obtain db where reg: "registerClient y c [] (map (arrival Fsm_new) regs @ ?rest) =
      (Finished (c\<lparr>c_db := db\<rparr>, ?clients, ?rest), map (\<lambda>r. [fst r, ''connected'']) regs)"
    and idle: "db_idle db" and prov: "\<And>d. set (providers db d) = carriers_of regs d"
    using registerClient_all[of "[]" regs y c ?rest] regs expected new none fresh by auto
  define c2 where "c2 = after_registration (c\<lparr>c_db := db\<rparr>) ?clients"
  have c2: "c_state c2 = ?S" "c_connectedClients c2 = ?clients" "c_db c2 = db" "toString (c_state c2) = ''syncronization''"
    by (simp_all add: c2_def after_registration_def fresh nextState_def Fsm_new_def toString_def)
  have dist: "distinct (map fst reqs)" using reqs(1) regs(2) by (metis mset_eq_imp_distinct_iff)
  have len: "length reqs = length regs" "length subs = length regs"
    using reqs(1) subs(1) by (metis length_map mset_eq_length)+
  then have "reqs \<noteq> []" using regs(1) by auto
  then have req: "request_loop y c2 [] ?rest = Finished (?rm, map report subs)"
    using request_loop_all[of "[]" reqs y c2 "map report subs"] dist reqs(2) len regs(1) c2 by auto
  have "providers db d \<noteq> []" if "r \<in> set ?rm" "d \<in> set (snd r)" for r d
    using that reqs(3) prov[of d] by fastforce
  then obtain msgs where ans: "answer_all off ?rm db = (Inr db, msgs)" "list_all2 (answers db) ?rm msgs"
    using answer_all_ok[OF idle, of ?rm off] by blast
  have "subs \<noteq> []" using len regs(1) by auto
  then have sub: "subscribe_loop c2 ?clients (map report subs) = (Inr [], all_subscribed c2)"
    using subs by (intro subscribe_loop_all) simp_all
  have same: "c2\<lparr>c_db := db\<rparr> = c2" using c2(3) by simp
  have "serve_answers off c2 ?rm (map report subs) =
      \<lparr>sv_status = Subscribing [], sv_central = c2, sv_sent = msgs @ all_subscribed c2,
       sv_toMain = [literal_msg ''syncronization Completed'']\<rparr>"
    unfolding serve_answers_def c2(3) ans(1) prod.case sum.case Let_def same c2(2) sub
    by simp
  then show ?thesis
    using ans(2) reg req prov c2
    by (simp add: initServiceThread_def serve_requests_def sent_before_def
        phase_messages_def c2_def[symmetric] comp_def)
qed

section \<open>Handshakes under way\<close>

lemma registerClient_part:
  assumes "distinct (clients @ map fst regs)" and "list_all (\<lambda>(w, body, ps). declares y body ps) regs"
    and "int (length clients + length regs) < c_expectedClient c" and "c_expectedClient c < 2 ^ 31"
    and "db_idle (c_db c)"
  shows "\<exists>c'. registerClient y c clients (map (arrival (c_state c)) regs) =
      (Blocked (c', clients @ map fst regs, []), map (\<lambda>r. [fst r, ''connected'']) regs)"
  using assms
proof (induction regs arbitrary: c clients)
  case Nil
  then show ?case by (simp add: size_less_nat)
next
  case (Cons r regs)
  obtain w body ps where r: "r = (w, body, ps)" by (cases r)
  have less: "size_less (length clients) (c_expectedClient c)"
    using Cons.prems(3,4) by (simp add: size_less_nat)
  from registerClient_one[OF less _ _ Cons.prems(5), of w y body ps] Cons.prems r obtain db1
    where b: "register_body y c clients [w, toString (c_state c), body] =
        Inr (c\<lparr>c_db := db1\<rparr>, clients @ [w], [w, ''connected''])" and i: "db_idle db1" by auto
  have "\<exists>c'. registerClient y (c\<lparr>c_db := db1\<rparr>) (clients @ [w]) (map (arrival (c_state (c\<lparr>c_db := db1\<rparr>))) regs) =
      (Blocked (c', (clients @ [w]) @ map fst regs, []), map (\<lambda>r. [fst r, ''connected'']) regs)"
    using Cons.prems r i by (intro Cons.IH) auto
  with b less r show ?case by auto
qed

lemma request_loop_part:
  assumes "distinct (map fst rm @ map fst reqs)" and "list_all (\<lambda>(w, body, ds). requests_data y body ds) reqs"
    and "length rm + length reqs < length (c_connectedClients c)"
  shows "request_loop y c rm (map (arrival (c_state c)) reqs) = Blocked (rm @ map (\<lambda>(w, body, ds). (w, ds)) reqs, [])"
  using assms
proof (induction reqs arbitrary: rm)
  case Nil
  then show ?case by simp
next
  case (Cons r reqs)
  obtain w body ds where r: "r = (w, body, ds)" by (cases r)
  have new: "w \<notin> fst ` set rm" using Cons.prems(1) r by auto
  then have "um_find rm w = None" by (simp add: um_find_def map_of_eq_None_iff)
  then have b: "request_body y c rm [w, toString (c_state c), body] = Inr (True, rm @ [(w, ds)])"
    using Cons.prems(2) r request_body_new[of rm w y body ds c] by (simp add: um_assign_new[OF new])
  have "request_loop y c (rm @ [(w, ds)]) (map (arrival (c_state c)) reqs) =
      Blocked ((rm @ [(w, ds)]) @ map (\<lambda>(w, body, ds). (w, ds)) reqs, [])"
    using Cons.prems r by (intro Cons.IH) auto
  with b r Cons.prems(3) show ?case by simp
qed

lemma subscribe_loop_part:
  assumes "distinct (map fst subs)" "set (map fst subs) \<subset> set toCheck" "distinct toCheck" "list_all no_null toCheck"
  shows "\<exists>l. subscribe_loop c toCheck (map report subs) = (Inr l, [])"
  using assms
proof (induction subs arbitrary: toCheck)
  case Nil
  then show ?case by simp
next
  case (Cons x subs)
  have x: "fst x \<in> set toCheck" using Cons.prems(2) by auto
  then have erase: "erase_first (fst x) toCheck = (True, remove1 (fst x) toCheck)"
    using Cons.prems(4) by (subst erase_first_eq) (auto simp: list_all_iff)
  have left: "set (remove1 (fst x) toCheck) = set toCheck - {fst x}" using Cons.prems(3) by simp
  have sub: "set (map fst subs) \<subset> set (remove1 (fst x) toCheck)"
    using Cons.prems(1,2) x unfolding left by (auto intro: rev_image_eqI)
  then have ne: "remove1 (fst x) toCheck \<noteq> []" by auto
  have "\<exists>l. subscribe_loop c (remove1 (fst x) toCheck) (map report subs) = (Inr l, [])"
    using Cons.prems sub left by (intro Cons.IH) (auto simp: list_all_iff)
  with erase ne show ?case by (auto simp: subscribe_body_def)
qed

lemma registerClient_rest:
  "registerClient y c clients inbox = (Finished (c', clients', []), outs) \<Longrightarrow>
   registerClient y c clients (inbox @ rest) = (Finished (c', clients', rest), outs)"
proof (induction inbox arbitrary: c clients outs)
  case Nil
  then show ?case by (cases rest) (auto split: if_splits)
next
  case (Cons ev inbox)
  show ?case
  proof (cases "size_less (length clients) (c_expectedClient c)")
    case False
    with Cons.prems show ?thesis by simp
  next
    case less: True
    show ?thesis
    proof (cases ev)
      case Nothing
      with less Cons show ?thesis by simp
    next
      case (Msg m)
      from Cons.prems[unfolded Msg] obtain c1 clients1 reply outs1
        where b: "register_body y c clients m = Inr (c1, clients1, reply)"
          and r: "registerClient y c1 clients1 inbox = (Finished (c', clients', []), outs1)" and o: "outs = reply # outs1"
        by (rule registerClient_Cons[OF less])
      from Cons.IH[OF r] b o less Msg show ?thesis by simp
    qed
  qed
qed

lemma service_registering:
  assumes "c_state c = Fsm_new" "c_db c = DataBase_new" "int (length regs) < c_expectedClient c" "c_expectedClient c < 2 ^ 31"
    "distinct (map fst regs)" "list_all (\<lambda>(w, body, ps). declares y body ps) regs"
  shows "sv_sent (initServiceThread y off c (map (arrival Fsm_new) regs)) = map (\<lambda>r. [fst r, ''connected'']) regs"
  using registerClient_part[of "[]" regs y c] assms by (auto simp: initServiceThread_def db_idle_def)

text \<open>From the last registration on: what the thread sends depends on the requests and the reports that have come.\<close>

lemma service_registered:
  assumes fresh: "c_state c = Fsm_new" "c_db c = DataBase_new"
    and expected: "int (length regs) = c_expectedClient c" "c_expectedClient c < 2 ^ 31"
    and regs: "distinct (map fst regs)" "list_all (\<lambda>(w, body, ps). declares y body ps) regs"
  obtains db c2 where "db_idle db" "\<And>d. set (providers db d) = carriers_of regs d"
    "c_state c2 = \<lparr>currState = Syncronization\<rparr>" "c_connectedClients c2 = map fst regs" "c_db c2 = db"
    "\<And>rest. initServiceThread y off c (map (arrival Fsm_new) regs @ rest) =
      sent_before (map (\<lambda>r. [fst r, ''connected'']) regs @ map (\<lambda>r. [fst r, ''syncronization'', ''syncronization'']) regs) (serve_requests y off c2 rest)"
proof -
  let ?clients = "map fst regs"
  have new: "db_idle (c_db c)" by (simp add: fresh db_idle_def)
  have none: "providers (c_db c) d = []" for d by (simp add: fresh providers_def DataBase_new_def)
  have all: "\<exists>db'. registerClient y c [] (map (arrival Fsm_new) regs @ rest) =
      (Finished (c\<lparr>c_db := db'\<rparr>, ?clients, rest), map (\<lambda>r. [fst r, ''connected'']) regs) \<and> db_idle db' \<and>
      (\<forall>d. set (providers db' d) = carriers_of regs d)" for rest
    using registerClient_all[of "[]" regs y c rest] regs expected new none fresh by auto
  from all[of "[]"] obtain db where db: "registerClient y c [] (map (arrival Fsm_new) regs @ []) =
      (Finished (c\<lparr>c_db := db\<rparr>, ?clients, []), map (\<lambda>r. [fst r, ''connected'']) regs)" "db_idle db"
    "\<And>d. set (providers db d) = carriers_of regs d" by blast
  have same: "registerClient y c [] (map (arrival Fsm_new) regs @ rest) =
      (Finished (c\<lparr>c_db := db\<rparr>, ?clients, rest), map (\<lambda>r. [fst r, ''connected'']) regs)" for rest
    using registerClient_rest[of y c "[]" "map (arrival Fsm_new) regs"] db(1) by simp
  define c2 where "c2 = after_registration (c\<lparr>c_db := db\<rparr>) ?clients"
  have c2: "c_state c2 = \<lparr>currState = Syncronization\<rparr>" "c_connectedClients c2 = ?clients" "c_db c2 = db" "toString (c_state c2) = ''syncronization''"
    by (simp_all add: c2_def after_registration_def fresh nextState_def Fsm_new_def toString_def)
  have phase: "phase_messages c2 = map (\<lambda>r. [fst r, ''syncronization'', ''syncronization'']) regs"
    by (simp only: phase_messages_def c2(2,4) central_msg_eq map_map comp_def)
  show thesis
    by (rule that[OF db(2,3) c2(1-3)]) (simp add: initServiceThread_def same c2_def[symmetric] phase)
qed

text \<open>The answers depend on the registrations and requests only, not on the reports that follow.\<close>

lemma service_answered:
  assumes fresh: "c_state c = Fsm_new" "c_db c = DataBase_new"
    and expected: "int (length regs) = c_expectedClient c" "c_expectedClient c < 2 ^ 31"
    and regs: "regs \<noteq> []" "distinct (map fst regs)" "list_all (\<lambda>(w, body, ps). declares y body ps) regs" "list_all no_null (map fst regs)"
    and reqs: "mset (map fst reqs) = mset (map fst regs)" "list_all (\<lambda>(w, body, ds). requests_data y body ds) reqs"
      "\<forall>r\<in>set reqs. \<forall>d\<in>set (snd (snd r)). carriers_of regs d \<noteq> {}"
  obtains db msgs where "\<And>d. set (providers db d) = carriers_of regs d"
    "list_all2 (answers db) (map (\<lambda>(w, body, ds). (w, ds)) reqs) msgs"
    "\<And>subs. distinct (map fst subs) \<Longrightarrow> set (map fst subs) \<subset> set (map fst regs) \<Longrightarrow>
      sv_sent (initServiceThread y off c (map (arrival Fsm_new) regs @ map (arrival \<lparr>currState = Syncronization\<rparr>) reqs @ map report subs)) =
        map (\<lambda>r. [fst r, ''connected'']) regs @ map (\<lambda>r. [fst r, ''syncronization'', ''syncronization'']) regs @ msgs"
    "\<And>subs. mset (map fst subs) = mset (map fst regs) \<Longrightarrow>
      sv_status (initServiceThread y off c (map (arrival Fsm_new) regs @ map (arrival \<lparr>currState = Syncronization\<rparr>) reqs @ map report subs)) = Subscribing [] \<and>
      sv_sent (initServiceThread y off c (map (arrival Fsm_new) regs @ map (arrival \<lparr>currState = Syncronization\<rparr>) reqs @ map report subs)) =
        map (\<lambda>r. [fst r, ''connected'']) regs @ map (\<lambda>r. [fst r, ''syncronization'', ''syncronization'']) regs @ msgs @
        map (\<lambda>r. [fst r, ''syncronization'', ''AllSubscribed'']) regs"
proof -
  let ?rm = "map (\<lambda>(w, body, ds). (w, ds)) reqs" and ?S = "\<lparr>currState = Syncronization\<rparr>"
  obtain db c2 where c2: "db_idle db" "\<And>d. set (providers db d) = carriers_of regs d"
    "c_state c2 = ?S" "c_connectedClients c2 = map fst regs" "c_db c2 = db"
    and run: "\<And>rest. initServiceThread y off c (map (arrival Fsm_new) regs @ rest) =
      sent_before (map (\<lambda>r. [fst r, ''connected'']) regs @ map (\<lambda>r. [fst r, ''syncronization'', ''syncronization'']) regs) (serve_requests y off c2 rest)"
    by (rule service_registered[OF fresh expected regs(2,3), of off]) blast
  have dist: "distinct (map fst reqs)" using reqs(1) regs(2) by (metis mset_eq_imp_distinct_iff)
  have len: "length reqs = length regs" using reqs(1) by (metis length_map mset_eq_length)
  then have "reqs \<noteq> []" using regs(1) by auto
  then have req: "request_loop y c2 [] (map (arrival ?S) reqs @ rest) = Finished (?rm, rest)" for rest
    using request_loop_all[of "[]" reqs y c2 rest] dist reqs(2) len c2 by auto
  have "providers db d \<noteq> []" if "r \<in> set ?rm" "d \<in> set (snd r)" for r d
    using that reqs(3) c2(2)[of d] by fastforce
  then obtain msgs where ans: "answer_all off ?rm db = (Inr db, msgs)" "list_all2 (answers db) ?rm msgs"
    using answer_all_ok[OF c2(1), of ?rm off] by blast
  have same: "c2\<lparr>c_db := db\<rparr> = c2" using c2(5) by simp
  have serve: "serve_answers off c2 ?rm (map report subs) = (let (r, outs) = subscribe_loop c2 (map fst regs) (map report subs) in
      \<lparr>sv_status = (case r of Inl e \<Rightarrow> Failed e | Inr left \<Rightarrow> Subscribing left), sv_central = c2, sv_sent = msgs @ outs,
       sv_toMain = [literal_msg ''syncronization Completed'']\<rparr>)" for subs
    unfolding serve_answers_def c2(5) ans(1) prod.case sum.case Let_def same c2(4) by simp
  note eq = run serve_requests_def req serve sent_before_def
  have S: "toString (c_state c2) = ''syncronization''" using c2(3) by (simp add: toString_def)
  show thesis
  proof (rule that[OF c2(2) ans(2)])
    fix subs :: "(string \<times> string) list"
    assume a: "distinct (map fst subs)" "set (map fst subs) \<subset> set (map fst regs)"
    from subscribe_loop_part[OF a regs(2,4), of c2] obtain l where "subscribe_loop c2 (map fst regs) (map report subs) = (Inr l, [])" by blast
    then show "sv_sent (initServiceThread y off c (map (arrival Fsm_new) regs @ map (arrival ?S) reqs @ map report subs)) =
        map (\<lambda>r. [fst r, ''connected'']) regs @ map (\<lambda>r. [fst r, ''syncronization'', ''syncronization'']) regs @ msgs"
      by (simp add: eq)
  next
    fix subs :: "(string \<times> string) list"
    assume a: "mset (map fst subs) = mset (map fst regs)"
    then have "subs \<noteq> []" using regs(1) by auto
    then have "subscribe_loop c2 (map fst regs) (map report subs) = (Inr [], all_subscribed c2)"
      using a regs(4) by (intro subscribe_loop_all) simp_all
    then show "sv_status (initServiceThread y off c (map (arrival Fsm_new) regs @ map (arrival ?S) reqs @ map report subs)) = Subscribing [] \<and>
      sv_sent (initServiceThread y off c (map (arrival Fsm_new) regs @ map (arrival ?S) reqs @ map report subs)) =
        map (\<lambda>r. [fst r, ''connected'']) regs @ map (\<lambda>r. [fst r, ''syncronization'', ''syncronization'']) regs @ msgs @
        map (\<lambda>r. [fst r, ''syncronization'', ''AllSubscribed'']) regs"
      using c2(4) S by (simp add: eq comp_def)
  qed
qed

lemma service_requesting:
  assumes fresh: "c_state c = Fsm_new" "c_db c = DataBase_new"
    and expected: "int (length regs) = c_expectedClient c" "c_expectedClient c < 2 ^ 31"
    and regs: "distinct (map fst regs)" "list_all (\<lambda>(w, body, ps). declares y body ps) regs"
    and reqs: "distinct (map fst reqs)" "list_all (\<lambda>(w, body, ds). requests_data y body ds) reqs" "length reqs < length regs"
  shows "sv_sent (initServiceThread y off c (map (arrival Fsm_new) regs @ map (arrival \<lparr>currState = Syncronization\<rparr>) reqs)) =
    map (\<lambda>r. [fst r, ''connected'']) regs @ map (\<lambda>r. [fst r, ''syncronization'', ''syncronization'']) regs"
proof -
  let ?S = "\<lparr>currState = Syncronization\<rparr>"
  obtain db c2 where c2: "c_state c2 = ?S" "c_connectedClients c2 = map fst regs"
    and run: "\<And>rest. initServiceThread y off c (map (arrival Fsm_new) regs @ rest) =
      sent_before (map (\<lambda>r. [fst r, ''connected'']) regs @ map (\<lambda>r. [fst r, ''syncronization'', ''syncronization'']) regs) (serve_requests y off c2 rest)"
    by (rule service_registered[OF fresh expected regs, of off]) blast
  show ?thesis using request_loop_part[of "[]" reqs y c2] reqs c2 by (simp add: run serve_requests_def sent_before_def)
qed

section \<open>Properties\<close>

text \<open>
  C5. Whatever arrives on the socket, the registration phase ends with pairwise different
  clients, exactly as many as expected, each of which sent a message in the
  current phase; the nodes that were answered "connected" are exactly these
  clients; and the packet database is well formed with no flag raised.
\<close>
theorem registration_safe:
  assumes "registerClient y c [] inbox = (Finished (c', clients, rest), outs)"
    and "db_idle (c_db c)" and "0 \<le> c_expectedClient c" and "c_expectedClient c < 2 ^ 31"
  shows "distinct clients \<and> int (length clients) = c_expectedClient c \<and>
    (\<forall>w\<in>set clients. asked (currState (c_state c)) w inbox) \<and>
    confirmed outs = set clients \<and> c' = c\<lparr>c_db := c_db c'\<rparr> \<and> db_idle (c_db c')"
  using registerClient_safe[OF assms(1)] assms(2-) by (auto simp: registered_def)

text \<open>
  C3. The handshake completes: when the expected nodes register with readable packet
  descriptions, then each requests data that some registered packet carries, then
  each reports its subscription (each phase in any order of the nodes), the service
  thread confirms every registration, announces the phase to every client, answers
  every request with the packets chosen by the database, whose contents are exactly the
  registered packets, tells the main thread, waits for no client any more and
  finally broadcasts \<^verbatim>\<open>AllSubscribed\<close> to every client.
\<close>
theorem service_thread_completes:
  assumes fresh: "c_state c = Fsm_new" "c_db c = DataBase_new"
    and expected: "int (length regs) = c_expectedClient c" "c_expectedClient c < 2 ^ 31"
    and regs: "regs \<noteq> []" "distinct (map fst regs)" "list_all (\<lambda>(w, body, ps). declares y body ps) regs"
    and reqs: "mset (map fst reqs) = mset (map fst regs)"
      "list_all (\<lambda>(w, body, ds). requests_data y body ds) reqs"
      "\<forall>r\<in>set reqs. \<forall>d\<in>set (snd (snd r)). carriers_of regs d \<noteq> {}"
    and subs: "mset (map fst subs) = mset (map fst regs)" "list_all no_null (map fst regs)"
  shows "\<exists>sv msgs. initServiceThread y off c
        (map (arrival Fsm_new) regs @ map (arrival \<lparr>currState = Syncronization\<rparr>) reqs @ map report subs) = sv \<and>
      sv_status sv = Subscribing [] \<and> currState (c_state (sv_central sv)) = Syncronization \<and>
      c_connectedClients (sv_central sv) = map fst regs \<and>
      (\<forall>d. set (providers (c_db (sv_central sv)) d) = carriers_of regs d) \<and>
      list_all2 (answers (c_db (sv_central sv))) (map (\<lambda>(w, body, ds). (w, ds)) reqs) msgs \<and>
      sv_toMain sv = [literal_msg ''syncronization Completed''] \<and>
      sv_sent sv = map (\<lambda>r. [fst r, ''connected'']) regs @
        map (\<lambda>r. [fst r, ''syncronization'', ''syncronization'']) regs @ msgs @
        map (\<lambda>r. [fst r, ''syncronization'', ''AllSubscribed'']) regs"
  by (rule service_run[OF assms])

text \<open>
  C36. The subscription barrier: whatever arrives, the thread broadcasts \<^verbatim>\<open>AllSubscribed\<close> at most
  once, then to exactly the connected clients, and only when every client had
  reported its subscription in the synchronisation phase.
\<close>
theorem subscription_barrier:
  "snd (subscribe_loop c (c_connectedClients c) inbox) = [] \<or>
   snd (subscribe_loop c (c_connectedClients c) inbox) =
     map (\<lambda>n. [n, toString (c_state c), ''AllSubscribed'']) (c_connectedClients c) \<and>
   list_all (\<lambda>n. reported n inbox) (c_connectedClients c)"
  using subscribe_loop_barrier[of c "c_connectedClients c" inbox] by (auto simp: list_all_iff)

text \<open>
  With no expected client, which is also what a constructor without a readable
  configuration leaves, the service thread registers nobody and never answers, whatever
  arrives: it stays in the request phase or fails, and the main thread never
  gets past its wait.
\<close>
theorem no_expected_client_hangs:
  assumes "c_expectedClient c = 0"
  shows "((\<exists>rm. sv_status (initServiceThread y off c inbox) = Requesting rm) \<or>
     (\<exists>e. sv_status (initServiceThread y off c inbox) = Failed e)) \<and>
    sv_sent (initServiceThread y off c inbox) = [] \<and> initCentral y off c inbox = []"
proof -
  let ?c2 = "after_registration c []"
  have reg: "registerClient y c [] inbox = (Finished (c, [], inbox), [])"
    using assms by (cases inbox) (simp_all add: size_less_def)
  have none: "c_connectedClients ?c2 = []" by (simp add: after_registration_def)
  note run = initCentral_def initServiceThread_def serve_requests_def sent_before_def phase_messages_def
  show ?thesis
  proof (cases "request_loop y ?c2 [] inbox")
    case (Finished res)
    with none show ?thesis using request_loop_no_clients by blast
  next
    case (Blocked res)
    with reg none show ?thesis by (cases res) (simp add: run)
  next
    case (Aborted e)
    with reg none show ?thesis by (simp add: run)
  qed
qed

text \<open>
  \<^verbatim>\<open>Central::sendStrMSG\<close> never reports a failure: its message has three parts and a refused
  part is dropped, so the fifth try is not reached.  An accepting socket gets the
  whole message; a socket that refuses the first part gets it without its addressee; one
  that refuses every part gets nothing.
\<close>
theorem central_sendStrMSG_never_fails:
  "fst (central_sendStrMSG c msg who os) \<and>
   central_sendStrMSG c msg who [] = (True, frames_of [who, toString (c_state c), msg], []) \<and>
   central_sendStrMSG c msg who [False] = (True, frames_of [toString (c_state c), msg], []) \<and>
   central_sendStrMSG c msg who [False, False, False] = (True, [], [])"
proof -
  have "fst (central_sendStrMSG c msg who os)"
    unfolding central_sendStrMSG_def by (rule send_retry_true) simp
  then show ?thesis
    by (simp add: central_sendStrMSG_def send_retry.simps sock_send_def mp_send_ok)
qed

section \<open>Witnesses\<close>

text \<open>
  Two nodes with a fixed set of readable texts: one offers a packet, the other offers
  nothing; both request the datum of that packet.
\<close>

datatype doc = Leaf string | Table "(string \<times> string) list" | Packs "(string \<times> (string \<times> string) list) list"

definition doc_load :: "string \<Rightarrow> doc result" where
  "doc_load body =
     (if body = ''offer'' then Inr (Packs [(''P1'', [(''speed'', ''int'')])])
      else if body = ''none'' then Inr (Packs [])
      else if body = ''want'' then Inr (Table [(''speed'', ''int'')])
      else Inl Yaml_error)"

fun doc_entries :: "doc \<Rightarrow> (doc \<times> doc) list" where
  "doc_entries (Packs ps) = map (\<lambda>p. (Leaf (fst p), Table (snd p))) ps"
| "doc_entries (Table fs) = map (\<lambda>f. (Leaf (fst f), Leaf (snd f))) fs"
| "doc_entries (Leaf _) = []"

fun doc_string :: "doc \<Rightarrow> string result" where
  "doc_string (Leaf t) = Inr t"
| "doc_string _ = Inl Yaml_error"

fun doc_map :: "doc \<Rightarrow> (string, string) umap result" where
  "doc_map (Table fs) = Inr fs"
| "doc_map _ = Inl Yaml_error"

fun doc_emit :: "doc \<Rightarrow> string" where
  "doc_emit (Packs []) = ''none''"
| "doc_emit (Packs _) = ''offer''"
| "doc_emit _ = ''want''"

definition doc_yaml :: "doc yaml" where
  "doc_yaml = \<lparr>y_load = doc_load, y_load_file = (\<lambda>_. Inl Yaml_error), y_get = (\<lambda>_ _. Inl Yaml_error),
     y_entries = doc_entries, y_as_string = doc_string, y_as_int = (\<lambda>_. Inl Yaml_error),
     y_as_map = doc_map, y_emit = doc_emit, y_null = Leaf []\<rparr>"

lemma doc_yaml_simps [simp]:
  "y_load doc_yaml = doc_load" "y_entries doc_yaml = doc_entries"
  "y_as_string doc_yaml = doc_string" "y_as_map doc_yaml = doc_map" "y_emit doc_yaml = doc_emit"
  by (simp_all add: doc_yaml_def)

definition two_clients :: Central where
  "two_clients = (Central_new doc_yaml)\<lparr>c_expectedClient := 2\<rparr>"

lemma two_clients_simps [simp]:
  "c_state two_clients = Fsm_new" "c_db two_clients = DataBase_new" "c_expectedClient two_clients = 2"
  "c_connectedClients two_clients = []"
  by (simp_all add: two_clients_def Central_new_def central_config_def doc_yaml_def)

definition demo_regs :: "registration list" where
  "demo_regs = [(''n1'', ''offer'', [(''P1'', [(''speed'', ''int'')])]), (''n2'', ''none'', [])]"

definition demo_reqs :: "request list" where
  "demo_reqs = [(''n2'', ''want'', [''speed_int'']), (''n1'', ''want'', [''speed_int''])]"

definition demo_subs :: "(string \<times> string) list" where
  "demo_subs = [(''n2'', ''subscribed''), (''n1'', ''subscribed'')]"

lemmas demo_defs = demo_regs_def demo_reqs_def demo_subs_def declares_def requests_data_def
  request_data_def doc_load_def data_key_def carriers_of_def declared_def packet_key_def

theorem registration_safe_witness:
  "\<exists>c' clients rest outs. registerClient doc_yaml two_clients [] (map (arrival Fsm_new) demo_regs) =
     (Finished (c', clients, rest), outs) \<and> distinct clients \<and> length clients = 2 \<and> confirmed outs = set clients"
proof -
  obtain db' where run: "registerClient doc_yaml two_clients [] (map (arrival (c_state two_clients)) demo_regs @ []) =
    (Finished (two_clients\<lparr>c_db := db'\<rparr>, [] @ map fst demo_regs, []), map (\<lambda>r. [fst r, ''connected'']) demo_regs)"
    using registerClient_all[of "[]" demo_regs doc_yaml two_clients "[]"]
    by (auto simp: demo_defs db_idle_def)
  from registration_safe[OF run] run show ?thesis
    by (auto simp: demo_defs db_idle_def)
qed

theorem service_thread_completes_witness:
  "sv_status (initServiceThread doc_yaml None two_clients
     (map (arrival Fsm_new) demo_regs @ map (arrival \<lparr>currState = Syncronization\<rparr>) demo_reqs @
      map report demo_subs)) = Subscribing []"
  using service_thread_completes[of two_clients demo_regs doc_yaml demo_reqs demo_subs None]
  by (simp add: demo_defs no_null_def)

theorem no_expected_client_hangs_witness:
  "c_expectedClient (Central_new doc_yaml) = 0 \<and>
   initCentral doc_yaml None (Central_new doc_yaml) [Msg [''n1'', ''registration'', ''offer'']] = []"
proof -
  have "c_expectedClient (Central_new doc_yaml) = 0"
    by (simp add: Central_new_def central_config_def doc_yaml_def)
  with no_expected_client_hangs[of "Central_new doc_yaml" doc_yaml None] show ?thesis by simp
qed

end
