(* ===== verification/Node.thy ===== *)
theory Node
  imports Fsm Retry Yaml_Api
begin

text \<open>
  A node, \<^verbatim>\<open>ComuFrame/Node.cpp\<close>: the object, the four threads of \<^verbatim>\<open>initNode\<close> and the channels
  between them.  A channel is the queue of multipart messages that were sent and not
  yet received; the sockets of the threads accept every message (the refusals of a
  socket are treated in \<open>Retry\<close>).  Each thread is a step function on the whole
  node, and \<open>node_step\<close> interleaves the threads with the messages of the central
  node and with elapsed timeouts.

  The bytes of a \<^verbatim>\<open>std::string\<close> object, which the subscriber thread passes to the socket, are the
  parameter \<open>obj_bytes\<close>.
\<close>

type_synonym node_msg = "char multipart"

record 'y Node =
  n_state :: Fsm
  n_url :: string
  n_pubPort :: string
  n_servicePort :: string
  n_identity :: string
  n_sendingPackets :: 'y
  n_requestedData :: 'y
  n_subscriptions :: "string list"

section \<open>Construction\<close>

definition node_default :: "string \<Rightarrow> 'y \<Rightarrow> 'y \<Rightarrow> 'y Node" where
  "node_default identity sp rd =
     \<lparr>n_state = Fsm_new, n_url = ''tcp://127.0.0.1'', n_pubPort = ''5556'', n_servicePort = ''5555'',
      n_identity = identity, n_sendingPackets = sp, n_requestedData = rd, n_subscriptions = []\<rparr>"

text \<open>A field that was assigned before the exception keeps its value.\<close>

definition Node_new :: "'y yaml \<Rightarrow> string \<Rightarrow> 'y Node" where
  "Node_new y identity =
     (case bindE (y_load_file y (''C:/Users/pagliani/source/repos/ComuFrame/Config/'' @ identity @ ''.yaml'')) (\<lambda>config.
           bindE (y_get_string y config ''url'') (\<lambda>u.
           bindE (y_get_string y config ''pubPort'') (\<lambda>p.
           bindE (y_get_string y config ''servicePort'') (\<lambda>s. Inr (config, u, p, s))))) of
        Inl _ \<Rightarrow> node_default identity (y_null y) (y_null y)
      | Inr (config, u, p, s) \<Rightarrow>
          (case y_get y config ''sendingPackets'' of
             Inl _ \<Rightarrow> node_default identity (y_null y) (y_null y)
           | Inr sp \<Rightarrow>
               (case y_get y config ''requestedData'' of
                  Inl _ \<Rightarrow> node_default identity sp (y_null y)
                | Inr rd \<Rightarrow>
                    \<lparr>n_state = Fsm_new, n_url = u, n_pubPort = p, n_servicePort = s, n_identity = identity,
                     n_sendingPackets = sp, n_requestedData = rd, n_subscriptions = []\<rparr>)))"

definition node_getUrl :: "'y Node \<Rightarrow> string" where
  "node_getUrl nd = n_url nd"

definition getidentity :: "'y Node \<Rightarrow> string" where
  "getidentity nd = n_identity nd"

definition getrequestedData :: "'y Node \<Rightarrow> 'y" where
  "getrequestedData nd = n_requestedData nd"

definition getSendingPackets :: "'y Node \<Rightarrow> 'y" where
  "getSendingPackets nd = n_sendingPackets nd"

definition service_address :: "'y Node \<Rightarrow> string" where
  "service_address nd = n_url nd @ n_servicePort nd"

definition pub_address :: "'y Node \<Rightarrow> string" where
  "pub_address nd = n_url nd @ n_pubPort nd"

section \<open>Sending\<close>

definition node_msg :: "'y Node \<Rightarrow> string \<Rightarrow> node_msg" where
  "node_msg nd msg = addstr msg (multipart_of_string (toString (n_state nd)))"

definition node_sendStrMSG :: "'y Node \<Rightarrow> string \<Rightarrow> bool list \<Rightarrow> bool \<times> char frame list \<times> bool list" where
  "node_sendStrMSG nd msg os = send_retry os 0 (node_msg nd msg)"

section \<open>Threads and channels\<close>

datatype service_phase = Await_ack | Await_phase | Await_answer | Serving

record 'y node_sys =
  s_node :: "'y Node"
  s_phase :: service_phase
  from_central :: "node_msg list"
  to_central :: "node_msg list"          \<comment> \<open>everything sent so far\<close>
  service_main :: "node_msg list"
  main_service :: "node_msg list"
  main_sub :: "node_msg list"
  sub_main :: "node_msg list"
  main_pub :: "node_msg list"
  sub_ready :: bool                      \<comment> \<open>the subscriber thread set its options\<close>
  topics :: "string list"                \<comment> \<open>the arguments of \<^verbatim>\<open>ZMQ_SUBSCRIBE\<close>\<close>
  published :: "string list"

text \<open>The state after the threads were started and the registration was sent.\<close>

definition node_boot :: "'y yaml \<Rightarrow> 'y Node \<Rightarrow> 'y node_sys" where
  "node_boot y nd =
     \<lparr>s_node = nd, s_phase = Await_ack, from_central = [],
      to_central = [node_msg nd (c_str (y_emit y (n_sendingPackets nd)))],
      service_main = [], main_service = [], main_sub = [], sub_main = [], main_pub = [],
      sub_ready = False, topics = [], published = []\<rparr>"

text \<open>\<^verbatim>\<open>receiveStrMsgTimeout\<close>: an elapsed poll sends the registration again, any message ends the wait.\<close>

definition ack_timeout :: "'y yaml \<Rightarrow> 'y node_sys \<Rightarrow> 'y node_sys" where
  "ack_timeout y s =
     s\<lparr>to_central := to_central s @ [node_msg (s_node s) (c_str (y_emit y (n_sendingPackets (s_node s))))]\<rparr>"

definition ack_received :: "node_msg \<Rightarrow> 'y node_sys \<Rightarrow> 'y node_sys result" where
  "ack_received m s =
     bindE (popstr m) (\<lambda>_.
       Inr (s\<lparr>s_node := (s_node s)\<lparr>n_state := snd (nextState (n_state (s_node s)))\<rparr>, s_phase := Await_phase\<rparr>))"

definition phase_received :: "'y yaml \<Rightarrow> node_msg \<Rightarrow> 'y node_sys \<Rightarrow> 'y node_sys result" where
  "phase_received y m s =
     Inr (s\<lparr>to_central := to_central s @ [node_msg (s_node s) (c_str (y_emit y (n_requestedData (s_node s))))],
            s_phase := Await_answer\<rparr>)"

fun pop_all :: "node_msg \<Rightarrow> string list \<Rightarrow> string list" where
  "pop_all [] subs = subs"
| "pop_all (p # m) subs = pop_all m (subs @ [p])"

definition answer_received :: "node_msg \<Rightarrow> 'y node_sys \<Rightarrow> 'y node_sys result" where
  "answer_received m s =
     Inr (s\<lparr>s_node := (s_node s)\<lparr>n_subscriptions := pop_all m (n_subscriptions (s_node s))\<rparr>,
            service_main := service_main s @ [node_msg (s_node s) ''received subscriptions''],
            s_phase := Serving\<rparr>)"

definition serve_central :: "node_msg \<Rightarrow> 'y node_sys \<Rightarrow> 'y node_sys result" where
  "serve_central m s =
     bindE (popstr m) (\<lambda>(st, m1).
     bindE (popstr m1) (\<lambda>(data, m2).
       if strcmp_eq st ''syncronization'' \<and> strcmp_eq data ''AllSubscribed''
       then Inr (s\<lparr>service_main := service_main s @ [node_msg (s_node s) ''AllSubscribed'']\<rparr>)
       else Inr s))"

definition serve_main :: "node_msg \<Rightarrow> 'y node_sys \<Rightarrow> 'y node_sys result" where
  "serve_main m s =
     bindE (popstr m) (\<lambda>(st, m1).
     bindE (popstr m1) (\<lambda>(data, m2).
       Inr (s\<lparr>to_central := to_central s @ [node_msg (s_node s) data]\<rparr>)))"

text \<open>
  One receive of the service thread; \<open>None\<close>: nothing to receive.  Before \<open>Serving\<close> the thread then waits for a message
  (\<open>ack_timeout\<close> has the elapsed timeout of the first wait); in \<open>Serving\<close> it polls its two sockets with a zero timeout for ever (\<^verbatim>\<open>Node.cpp\<close>, 135 to 162), and a round
  of that loop which finds neither readable changes nothing.  The steps are the rounds that receive.
\<close>

definition service_thread :: "'y yaml \<Rightarrow> 'y node_sys \<Rightarrow> 'y node_sys result option" where
  "service_thread y s =
     (case s_phase s of
        Serving \<Rightarrow>
          (case main_service s of
             m # ms \<Rightarrow> Some (serve_main m (s\<lparr>main_service := ms\<rparr>))
           | [] \<Rightarrow> (case from_central s of
                m # ms \<Rightarrow> Some (serve_central m (s\<lparr>from_central := ms\<rparr>))
              | [] \<Rightarrow> None))
      | ph \<Rightarrow>
          (case from_central s of
             [] \<Rightarrow> None
           | m # ms \<Rightarrow>
               let s' = s\<lparr>from_central := ms\<rparr> in
               Some (case ph of Await_ack \<Rightarrow> ack_received m s' | Await_phase \<Rightarrow> phase_received y m s'
                     | _ \<Rightarrow> answer_received m s')))"

text \<open>
  One round of the main thread: the service channel comes first.  Nobody sends on the timer
  and publisher channels towards the main thread.
\<close>

definition main_from_service :: "node_msg \<Rightarrow> 'y node_sys \<Rightarrow> 'y node_sys result" where
  "main_from_service m s =
     bindE (popstr m) (\<lambda>(st, m1).
     bindE (popstr m1) (\<lambda>(data, m2).
       if strcmp_eq st ''syncronization'' \<and> strcmp_eq data ''received subscriptions''
       then Inr (s\<lparr>main_sub := main_sub s @ [node_msg (s_node s) ''received subscriptions'']\<rparr>)
       else Inr s))"

definition main_from_sub :: "node_msg \<Rightarrow> 'y node_sys \<Rightarrow> 'y node_sys result" where
  "main_from_sub m s =
     bindE (popstr m) (\<lambda>(st, m1).
     bindE (popstr m1) (\<lambda>(data, m2).
       if strcmp_eq st ''syncronization'' \<and> strcmp_eq data ''subscribed''
       then Inr (s\<lparr>main_service := main_service s @ [node_msg (s_node s) ''subscribed'']\<rparr>)
       else Inr s))"

definition main_thread :: "'y node_sys \<Rightarrow> 'y node_sys result option" where
  "main_thread s =
     (case service_main s of
        m # ms \<Rightarrow> Some (main_from_service m (s\<lparr>service_main := ms\<rparr>))
      | [] \<Rightarrow> (case sub_main s of
           m # ms \<Rightarrow> Some (main_from_sub m (s\<lparr>sub_main := ms\<rparr>))
         | [] \<Rightarrow> None))"

text \<open>
  The subscriber thread waits for one message, whatever it says.  \<^verbatim>\<open>setsockopt(ZMQ_SUBSCRIBE, "")\<close>
  passes the one-character array with its null character.
\<close>

definition sub_thread :: "(string \<Rightarrow> string) \<Rightarrow> 'y node_sys \<Rightarrow> 'y node_sys result option" where
  "sub_thread obj_bytes s =
     (if sub_ready s then None else case main_sub s of
        [] \<Rightarrow> None
      | m # ms \<Rightarrow>
          Some (Inr (s\<lparr>main_sub := ms, sub_ready := True,
            topics := topics s @ [CHR 0x00] # map obj_bytes (n_subscriptions (s_node s)),
            sub_main := sub_main s @ [node_msg (s_node s) ''subscribed'']\<rparr>)))"

definition pub_thread :: "'y node_sys \<Rightarrow> 'y node_sys result option" where
  "pub_thread s =
     (if published s \<noteq> [] then None else case main_pub s of
        [] \<Rightarrow> None
      | m # ms \<Rightarrow> Some (Inr (s\<lparr>main_pub := ms, published := [literal_msg ''ciao a tutti'']\<rparr>)))"

text \<open>The channels: bound by the main thread, connected by the others.\<close>

definition node_channels :: "(string \<times> bool) list" where
  "node_channels =
     [(''inproc://serviceChannel'', False), (''inproc://timerChannel'', False),
      (''inproc://pubChannel'', False), (''inproc://subChannel'', False),
      (''inproc://serviceChannel'', True), (''inproc://pubChannel'', True), (''inproc://subChannel'', True)]"

section \<open>Interleaving\<close>

text \<open>A step of one of the threads.\<close>

inductive thread_step :: "'y yaml \<Rightarrow> (string \<Rightarrow> string) \<Rightarrow> 'y node_sys \<Rightarrow> 'y node_sys \<Rightarrow> bool"
  for y ob where
  service: "service_thread y s = Some (Inr s') \<Longrightarrow> thread_step y ob s s'"
| main: "main_thread s = Some (Inr s') \<Longrightarrow> thread_step y ob s s'"
| sub: "sub_thread ob s = Some (Inr s') \<Longrightarrow> thread_step y ob s s'"
| pub: "pub_thread s = Some (Inr s') \<Longrightarrow> thread_step y ob s s'"

text \<open>
  The runs of a node, with the messages that the central node delivered: threads, deliveries and
  timeouts in any order.
\<close>

inductive node_trace :: "'y yaml \<Rightarrow> (string \<Rightarrow> string) \<Rightarrow> 'y node_sys \<Rightarrow> node_msg list \<Rightarrow> 'y node_sys \<Rightarrow> bool"
  for y ob s where
  start: "node_trace y ob s [] s"
| deliver: "node_trace y ob s ms t \<Longrightarrow> node_trace y ob s (ms @ [m]) (t\<lparr>from_central := from_central t @ [m]\<rparr>)"
| timeout: "node_trace y ob s ms t \<Longrightarrow> s_phase t = Await_ack \<Longrightarrow> from_central t = [] \<Longrightarrow>
    node_trace y ob s ms (ack_timeout y t)"
| thread: "node_trace y ob s ms t \<Longrightarrow> thread_step y ob t u \<Longrightarrow> node_trace y ob s ms u"

text \<open>No thread can move: all are blocked on an empty channel.\<close>

definition quiescent :: "'y yaml \<Rightarrow> (string \<Rightarrow> string) \<Rightarrow> 'y node_sys \<Rightarrow> bool" where
  "quiescent y ob s \<longleftrightarrow> service_thread y s = None \<and> main_thread s = None \<and>
     sub_thread ob s = None \<and> pub_thread s = None"

section \<open>Thread steps terminate\<close>

text \<open>Every message is worth more than the message it causes.\<close>

definition pending :: "'y node_sys \<Rightarrow> nat" where
  "pending s = 5 * length (from_central s) + 4 * length (service_main s) + 3 * length (main_sub s) +
     2 * length (sub_main s) + length (main_service s) + length (main_pub s)"

lemmas service_defs = service_thread_def serve_main_def serve_central_def ack_received_def
  phase_received_def answer_received_def
lemmas main_defs = main_thread_def main_from_service_def main_from_sub_def

lemma service_pending: "service_thread y s = Some (Inr s') \<Longrightarrow> pending s' < pending s"
  by (auto simp: service_defs pending_def bindE_eq_Inr Let_def
      split: service_phase.splits list.splits if_splits)

lemma main_pending: "main_thread s = Some (Inr s') \<Longrightarrow> pending s' < pending s"
  by (auto simp: main_defs pending_def bindE_eq_Inr split: list.splits if_splits)

lemma sub_pending: "sub_thread ob s = Some (Inr s') \<Longrightarrow> pending s' < pending s"
  by (auto simp: sub_thread_def pending_def split: list.splits if_splits)

lemma pub_pending: "pub_thread s = Some (Inr s') \<Longrightarrow> pending s' < pending s"
  by (auto simp: pub_thread_def pending_def split: list.splits if_splits)

lemma thread_step_pending: "thread_step y ob s s' \<Longrightarrow> pending s' < pending s"
  by (cases rule: thread_step.cases) (auto dest: service_pending main_pending sub_pending pub_pending)

section \<open>The invariant of a node\<close>

definition node_fresh :: "'y Node \<Rightarrow> bool" where
  "node_fresh nd \<longleftrightarrow> n_state nd = Fsm_new \<and> n_subscriptions nd = []"

abbreviation sync_msg :: "string \<Rightarrow> node_msg" where
  "sync_msg d \<equiv> [''syncronization'', d]"

definition reg_msg :: "'y yaml \<Rightarrow> 'y Node \<Rightarrow> node_msg" where
  "reg_msg y nd = [''registration'', c_str (y_emit y (n_sendingPackets nd))]"

definition req_msg :: "'y yaml \<Rightarrow> 'y Node \<Rightarrow> node_msg" where
  "req_msg y nd = sync_msg (c_str (y_emit y (n_requestedData nd)))"

text \<open>
  The notice that the subscriptions arrived travels as one token from the service thread over the
  main and the subscriber thread back to the central node: \<open>a\<close>, \<open>b\<close>, \<open>d\<close> and \<open>j\<close> count
  it on the channels and in what was sent.
\<close>

definition token :: "nat \<Rightarrow> nat \<Rightarrow> nat \<Rightarrow> nat \<Rightarrow> 'y node_sys \<Rightarrow> bool" where
  "token a b d j s \<longleftrightarrow>
     set (service_main s) \<subseteq> {sync_msg ''received subscriptions'', sync_msg ''AllSubscribed''} \<and>
     main_sub s = replicate a (sync_msg ''received subscriptions'') \<and>
     sub_main s = replicate b (sync_msg ''subscribed'') \<and>
     main_service s = replicate d (sync_msg ''subscribed'') \<and>
     count_list (service_main s) (sync_msg ''received subscriptions'') + a + b + d + j =
       (if s_phase s = Serving then 1 else 0) \<and>
     (sub_ready s \<longleftrightarrow> b + d + j = 1) \<and> (s_phase s \<noteq> Serving \<longrightarrow> service_main s = [])"

fun consumed_ok :: "service_phase \<Rightarrow> node_msg list \<Rightarrow> string list \<Rightarrow> bool" where
  "consumed_ok Await_ack ms subs \<longleftrightarrow> ms = [] \<and> subs = []"
| "consumed_ok Await_phase ms subs \<longleftrightarrow> length ms = 1 \<and> subs = []"
| "consumed_ok Await_answer ms subs \<longleftrightarrow> length ms = 2 \<and> subs = []"
| "consumed_ok Serving ms subs \<longleftrightarrow> length ms \<ge> 3 \<and> subs = ms ! 2"

text \<open>\<open>used\<close> are the messages of the central node that the service thread has received.\<close>

definition node_inv_at :: "'y yaml \<Rightarrow> (string \<Rightarrow> string) \<Rightarrow> 'y Node \<Rightarrow> node_msg list \<Rightarrow> node_msg list
    \<Rightarrow> nat \<Rightarrow> nat \<Rightarrow> nat \<Rightarrow> nat \<Rightarrow> nat \<Rightarrow> 'y node_sys \<Rightarrow> bool" where
  "node_inv_at y ob nd ms used k a b d j s \<longleftrightarrow>
     currState (n_state (s_node s)) = (if s_phase s = Await_ack then Registration else Syncronization) \<and>
     n_sendingPackets (s_node s) = n_sendingPackets nd \<and> n_requestedData (s_node s) = n_requestedData nd \<and>
     n_identity (s_node s) = n_identity nd \<and>
     ms = used @ from_central s \<and> consumed_ok (s_phase s) used (n_subscriptions (s_node s)) \<and>
     token a b d j s \<and>
        to_central s = replicate (Suc k) (reg_msg y nd) @
          (if s_phase s = Await_answer \<or> s_phase s = Serving then [req_msg y nd] else []) @
          replicate j (sync_msg ''subscribed'') \<and>
     topics s = (if sub_ready s then [CHR 0x00] # map ob (n_subscriptions (s_node s)) else []) \<and>
     main_pub s = [] \<and> published s = []"

lemma node_msg_eq: "node_msg nd d = [toString (n_state nd), d]"
  by (simp add: node_msg_def multipart_of_string_def addstr_def)

lemma strcmp_consts [simp]:
  "\<not> strcmp_eq ''AllSubscribed'' ''received subscriptions''"
  by (simp add: strcmp_no_null no_null_def)

lemma pop_all_eq [simp]: "pop_all m subs = subs @ m"
  by (induction m arbitrary: subs) simp_all

lemma node_inv_boot: "node_fresh nd \<Longrightarrow> node_inv_at y ob nd [] [] 0 0 0 0 0 (node_boot y nd)"
  by (simp add: node_inv_at_def node_boot_def token_def node_fresh_def Fsm_new_def node_msg_eq reg_msg_def toString_def)

lemma node_inv_deliver:
  "node_inv_at y ob nd ms used k a b d j s \<Longrightarrow>
   node_inv_at y ob nd (ms @ [m]) used k a b d j (s\<lparr>from_central := from_central s @ [m]\<rparr>)"
  by (simp add: node_inv_at_def token_def)

lemma node_inv_timeout:
  assumes "node_inv_at y ob nd ms used k a b d j s" "s_phase s = Await_ack"
  shows "node_inv_at y ob nd ms used (Suc k) a b d j (ack_timeout y s)"
  using assms unfolding node_inv_at_def token_def ack_timeout_def
  by (simp add: node_msg_eq reg_msg_def replicate_append_same toString_def)

lemma node_inv_ack:
  assumes "node_inv_at y ob nd ms used k a b d j s" "s_phase s = Await_ack" "from_central s = m # ms'"
    "ack_received m (s\<lparr>from_central := ms'\<rparr>) = Inr s'"
  shows "node_inv_at y ob nd ms (used @ [m]) k a b d j s'"
  using assms unfolding node_inv_at_def token_def ack_received_def
  by (auto simp: bindE_eq_Inr nextState_def)

lemma node_inv_phase:
  assumes "node_inv_at y ob nd ms used k a b d j s" "s_phase s = Await_phase" "from_central s = m # ms'"
    "phase_received y m (s\<lparr>from_central := ms'\<rparr>) = Inr s'"
  shows "node_inv_at y ob nd ms (used @ [m]) k a b d j s'"
  using assms unfolding node_inv_at_def token_def phase_received_def
  by (auto simp: node_msg_eq toString_def req_msg_def)

lemma node_inv_answer:
  assumes "node_inv_at y ob nd ms used k a b d j s" "s_phase s = Await_answer" "from_central s = m # ms'"
    "answer_received m (s\<lparr>from_central := ms'\<rparr>) = Inr s'"
  shows "node_inv_at y ob nd ms (used @ [m]) k a b d j s'"
  using assms unfolding node_inv_at_def token_def answer_received_def
  by (auto simp: node_msg_eq toString_def nth_append)

lemma node_inv_serve_central:
  assumes "node_inv_at y ob nd ms used k a b d j s" "s_phase s = Serving" "from_central s = m # ms'"
    "serve_central m (s\<lparr>from_central := ms'\<rparr>) = Inr s'"
  shows "node_inv_at y ob nd ms (used @ [m]) k a b d j s'"
proof -
  have "toString (n_state (s_node s)) = ''syncronization''"
    using assms(1,2) by (simp add: node_inv_at_def toString_def)
  with assms(4) have "s' = s\<lparr>from_central := ms'\<rparr> \<or>
      s' = s\<lparr>from_central := ms', service_main := service_main s @ [sync_msg ''AllSubscribed'']\<rparr>"
    by (auto simp: serve_central_def node_msg_eq bindE_eq_Inr split: if_splits)
  then show ?thesis
    using assms(1-3) by (elim disjE) (simp_all add: node_inv_at_def token_def nth_append)
qed

lemma node_inv_serve_main:
  assumes "node_inv_at y ob nd ms used k a b d j s" "s_phase s = Serving" "main_service s = m # ms'"
    "serve_main m (s\<lparr>main_service := ms'\<rparr>) = Inr s'"
  shows "node_inv_at y ob nd ms used k a b (d - 1) (Suc j) s'"
  using assms unfolding node_inv_at_def token_def serve_main_def
  by (cases d) (auto simp: node_msg_eq toString_def replicate_append_same)

lemma node_inv_main_service:
  assumes "node_inv_at y ob nd ms used k a b d j s" "service_main s = m # ms'"
    "main_from_service m (s\<lparr>service_main := ms'\<rparr>) = Inr s'"
  shows "node_inv_at y ob nd ms used k (if m = sync_msg ''received subscriptions'' then Suc a else a) b d j s'"
proof -
  have m: "m = sync_msg ''received subscriptions'' \<or> m = sync_msg ''AllSubscribed''"
    and serving: "s_phase s = Serving"
    using assms(1,2) by (auto simp: node_inv_at_def token_def)
  then have "toString (n_state (s_node s)) = ''syncronization''"
    using assms(1) by (simp add: node_inv_at_def toString_def)
  with m assms(3) have "s' = (if m = sync_msg ''received subscriptions''
      then s\<lparr>service_main := ms', main_sub := main_sub s @ [m]\<rparr> else s\<lparr>service_main := ms'\<rparr>)"
    by (elim disjE) (simp_all add: main_from_service_def node_msg_eq)
  then show ?thesis
    using assms(1,2) m serving by (elim disjE) (simp_all add: node_inv_at_def token_def replicate_append_same)
qed

lemma node_inv_main_sub:
  assumes "node_inv_at y ob nd ms used k a b d j s" "sub_main s = m # ms'"
    "main_from_sub m (s\<lparr>sub_main := ms'\<rparr>) = Inr s'"
  shows "node_inv_at y ob nd ms used k a (b - 1) (Suc d) j s'"
  using assms unfolding node_inv_at_def token_def main_from_sub_def
  by (cases b) (auto simp: node_msg_eq toString_def replicate_append_same split: if_splits)

lemma node_inv_sub:
  assumes "node_inv_at y ob nd ms used k a b d j s" "sub_thread ob s = Some (Inr s')"
  shows "node_inv_at y ob nd ms used k (a - 1) (Suc b) d j s'"
  using assms unfolding node_inv_at_def token_def sub_thread_def
  by (cases a) (auto simp: node_msg_eq toString_def replicate_append_same split: if_splits)

text \<open>The number \<open>k\<close> of timeouts stays visible.\<close>

definition node_inv :: "'y yaml \<Rightarrow> (string \<Rightarrow> string) \<Rightarrow> 'y Node \<Rightarrow> node_msg list \<Rightarrow> nat \<Rightarrow> 'y node_sys \<Rightarrow> bool" where
  "node_inv y ob nd ms k s \<longleftrightarrow> (\<exists>used a b d j. node_inv_at y ob nd ms used k a b d j s)"

lemma node_invI: "node_inv_at y ob nd ms used k a b d j s \<Longrightarrow> node_inv y ob nd ms k s"
  unfolding node_inv_def by (intro exI)

lemma node_invE:
  assumes "node_inv y ob nd ms k s"
  obtains used a b d j where "node_inv_at y ob nd ms used k a b d j s"
  using assms unfolding node_inv_def by (elim exE)

lemma node_inv_service:
  assumes "node_inv_at y ob nd ms used k a b d j s" and "service_thread y s = Some (Inr s')"
  shows "node_inv y ob nd ms k s'"
proof (cases "s_phase s = Serving \<and> main_service s \<noteq> []")
  case True
  then obtain m ms' where m: "main_service s = m # ms'" by (cases "main_service s") auto
  with True assms(2) have "serve_main m (s\<lparr>main_service := ms'\<rparr>) = Inr s'"
    by (simp add: service_thread_def)
  from node_inv_serve_main[OF assms(1) _ m this] True show ?thesis by (auto intro: node_invI)
next
  case False
  with assms(2) obtain m ms' where m: "from_central s = m # ms'"
    by (auto simp: service_thread_def split: service_phase.splits list.splits)
  let ?s = "s\<lparr>from_central := ms'\<rparr>"
  show ?thesis
  proof (cases "s_phase s")
    case Await_ack
    with assms(2) m have "ack_received m ?s = Inr s'" by (simp add: service_thread_def)
    from node_inv_ack[OF assms(1) Await_ack m this] show ?thesis by (rule node_invI)
  next
    case Await_phase
    with assms(2) m have "phase_received y m ?s = Inr s'" by (simp add: service_thread_def)
    from node_inv_phase[OF assms(1) Await_phase m this] show ?thesis by (rule node_invI)
  next
    case Await_answer
    with assms(2) m have "answer_received m ?s = Inr s'" by (simp add: service_thread_def)
    from node_inv_answer[OF assms(1) Await_answer m this] show ?thesis by (rule node_invI)
  next
    case Serving
    with assms(2) m False have "serve_central m ?s = Inr s'" by (simp add: service_thread_def)
    from node_inv_serve_central[OF assms(1) Serving m this] show ?thesis by (rule node_invI)
  qed
qed

lemma node_inv_main:
  assumes "node_inv_at y ob nd ms used k a b d j s" and "main_thread s = Some (Inr s')"
  shows "node_inv y ob nd ms k s'"
proof (cases "service_main s")
  case (Cons m ms')
  with assms(2) have "main_from_service m (s\<lparr>service_main := ms'\<rparr>) = Inr s'"
    by (simp add: main_thread_def)
  from node_inv_main_service[OF assms(1) Cons this] show ?thesis by (rule node_invI)
next
  case Nil
  with assms(2) obtain m ms' where m: "sub_main s = m # ms'"
    by (auto simp: main_thread_def split: list.splits)
  with Nil assms(2) have "main_from_sub m (s\<lparr>sub_main := ms'\<rparr>) = Inr s'"
    by (simp add: main_thread_def)
  from node_inv_main_sub[OF assms(1) m this] show ?thesis by (rule node_invI)
qed

lemma node_inv_thread:
  assumes "node_inv y ob nd ms k s" and "thread_step y ob s s'"
  shows "node_inv y ob nd ms k s'"
proof -
  from assms(1) obtain used a b d j where inv: "node_inv_at y ob nd ms used k a b d j s"
    by (rule node_invE)
  from assms(2) show ?thesis
  proof cases
    case service
    with inv show ?thesis by (rule node_inv_service)
  next
    case main
    with inv show ?thesis by (rule node_inv_main)
  next
    case sub
    from node_inv_sub[OF inv this] show ?thesis by (rule node_invI)
  next
    case pub
    with inv show ?thesis by (auto simp: pub_thread_def node_inv_at_def)
  qed
qed

lemma node_trace_inv:
  assumes "node_trace y ob (node_boot y nd) ms s" and "node_fresh nd"
  shows "\<exists>k. node_inv y ob nd ms k s"
  using assms(1)
proof (induction rule: node_trace.induct)
  case start
  from node_inv_boot[OF assms(2)] show ?case by (auto intro: node_invI)
next
  case (deliver ms t m)
  then show ?case by (auto elim!: node_invE intro: node_invI[OF node_inv_deliver])
next
  case (timeout ms t)
  then show ?case by (auto elim!: node_invE intro: node_invI[OF node_inv_timeout])
next
  case (thread ms t u)
  then show ?case using node_inv_thread by blast
qed

text \<open>A node in which every thread is blocked has gone through the handshake once three messages were delivered.\<close>

lemma quiescent_used:
  assumes "node_inv_at y ob nd ms used k a b d j s" "quiescent y ob s"
  shows "from_central s = []" "ms = used" "service_main s = []" "sub_main s = []" "sub_ready s \<or> main_sub s = []" "s_phase s = Serving \<Longrightarrow> main_service s = []"
proof -
  show "from_central s = []" "s_phase s = Serving \<Longrightarrow> main_service s = []"
    using assms(2) by (auto simp: quiescent_def service_thread_def split: service_phase.splits list.splits)
  then show "ms = used" using assms(1) by (simp add: node_inv_at_def)
  show "service_main s = []" "sub_main s = []"
    using assms(2) by (auto simp: quiescent_def main_thread_def split: list.splits)
  show "sub_ready s \<or> main_sub s = []"
    using assms(2) by (auto simp: quiescent_def sub_thread_def split: if_splits list.splits)
qed

lemma quiescent_serving:
  assumes "node_inv_at y ob nd ms used k a b d j s" "quiescent y ob s" "length ms \<ge> 3"
  shows "s_phase s = Serving \<and> n_subscriptions (s_node s) = ms ! 2 \<and> topics s = [CHR 0x00] # map ob (ms ! 2) \<and> j = 1 \<and>
    to_central s = replicate (Suc k) (reg_msg y nd) @ [req_msg y nd, sync_msg ''subscribed'']"
proof -
  note q = quiescent_used[OF assms(1,2)]
  have serving: "s_phase s = Serving"
    using assms(1,3) q(2) by (cases "s_phase s") (auto simp: node_inv_at_def)
  with assms(1) q have "j = 1" "sub_ready s" by (auto simp: node_inv_at_def token_def)
  with assms(1) serving q(2) show ?thesis by (auto simp: node_inv_at_def)
qed

section \<open>A scheduler\<close>

text \<open>Runs the threads until none of them can move, the service thread first.\<close>

function drive :: "'y yaml \<Rightarrow> (string \<Rightarrow> string) \<Rightarrow> 'y node_sys \<Rightarrow> 'y node_sys" where
  "drive y ob s =
     (case service_thread y s of
        Some (Inr s') \<Rightarrow> drive y ob s'
      | Some (Inl _) \<Rightarrow> s
      | None \<Rightarrow> (case main_thread s of
          Some (Inr s') \<Rightarrow> drive y ob s'
        | Some (Inl _) \<Rightarrow> s
        | None \<Rightarrow> (case sub_thread ob s of
            Some (Inr s') \<Rightarrow> drive y ob s'
          | _ \<Rightarrow> s)))"
  by pat_completeness auto
termination
  by (relation "measure (\<lambda>(y, ob, s). pending s)") (auto dest: service_pending main_pending sub_pending)

declare drive.simps [simp del]

lemma drive_trace: "node_trace y ob s0 ms s \<Longrightarrow> node_trace y ob s0 ms (drive y ob s)"
proof (induction y ob s rule: drive.induct)
  case (1 y ob s)
  note next_step = node_trace.thread[OF 1(4)]
  from 1(4) show ?case
    by (subst drive.simps)
       (auto split: option.splits sum.splits
         intro: 1(1)[OF _ _ _ _ next_step] 1(2)[OF _ _ _ next_step] 1(3)[OF _ _ next_step] thread_step.intros)
qed

lemma deliver_all:
  "node_trace y ob s0 ms t \<Longrightarrow> node_trace y ob s0 (ms @ qs) (t\<lparr>from_central := from_central t @ qs\<rparr>)"
proof (induction qs rule: rev_induct)
  case (snoc q qs)
  from node_trace.deliver[OF snoc.IH[OF snoc.prems], where m = q] show ?case by simp
qed simp

section \<open>Properties\<close>

text \<open>
  C6. What a node can ever have sent to the central node, under every interleaving of its
  threads, every sequence of deliveries and any number of timeouts: registrations, then
  the data request once the phase was announced, then at most one
  \<^verbatim>\<open>subscribed\<close> report, and that only after the subscriber thread set exactly the answered
  subscriptions; nothing is ever published.
\<close>
theorem node_outbox:
  assumes "node_trace y ob (node_boot y nd) ms s" and "node_fresh nd"
  shows "\<exists>k j. j \<le> 1 \<and> to_central s = replicate (Suc k) (reg_msg y nd) @
      (if s_phase s = Await_answer \<or> s_phase s = Serving then [req_msg y nd] else []) @
      replicate j (sync_msg ''subscribed'') \<and>
    (j = 1 \<longrightarrow> s_phase s = Serving \<and> sub_ready s \<and> length ms \<ge> 3 \<and>
       n_subscriptions (s_node s) = ms ! 2 \<and> topics s = [CHR 0x00] # map ob (ms ! 2)) \<and>
    main_pub s = [] \<and> published s = []"
proof -
  from node_trace_inv[OF assms] obtain used k a b d j where inv: "node_inv_at y ob nd ms used k a b d j s"
    unfolding node_inv_def by blast
  then have "j \<le> 1" by (simp add: node_inv_at_def token_def split: if_splits)
  moreover have "s_phase s = Serving" "sub_ready s" if "j = 1"
    using inv that by (auto simp: node_inv_at_def token_def split: if_splits)
  moreover have "length ms \<ge> 3 \<and> n_subscriptions (s_node s) = ms ! 2" if "s_phase s = Serving"
    using inv that by (auto simp: node_inv_at_def nth_append)
  ultimately show ?thesis
    using inv unfolding node_inv_at_def by (intro exI[of _ k] exI[of _ j]) auto
qed

text \<open>
  C4. The handshake of a node completes: once three messages were delivered and every thread
  is blocked, whatever the interleaving was, the service thread is serving, the third
  message is the list of subscriptions, the subscriber thread has set them, and the
  node has sent its registrations, its request and its report.
\<close>
theorem node_handshake_completes:
  assumes "node_trace y ob (node_boot y nd) ms s" and "node_fresh nd"
    and "quiescent y ob s" and "length ms \<ge> 3"
  shows "s_phase s = Serving \<and> n_subscriptions (s_node s) = ms ! 2 \<and>
    topics s = [CHR 0x00] # map ob (ms ! 2) \<and>
    (\<exists>k. to_central s = replicate (Suc k) (reg_msg y nd) @ [req_msg y nd, sync_msg ''subscribed''])"
proof -
  from node_trace_inv[OF assms(1,2)] obtain used k a b d j where "node_inv_at y ob nd ms used k a b d j s"
    unfolding node_inv_def by blast
  from quiescent_serving[OF this assms(3,4)] show ?thesis by blast
qed

text \<open>
  A node whose registration is confirmed twice, which happens when it timed out once and
  the central node answers both registrations, takes the second confirmation for the
  announcement of the phase and the announcement for its answer: it subscribes
  to the phase name.
\<close>
theorem node_misreads_repeated_confirmation:
  assumes "node_fresh nd"
  shows "\<exists>s. node_trace y ob (node_boot y nd)
      [[''connected''], [''connected''], [''syncronization'', ''syncronization'']] s \<and>
    quiescent y ob s \<and> n_subscriptions (s_node s) = [''syncronization'', ''syncronization''] \<and>
    to_central s = [reg_msg y nd, reg_msg y nd, req_msg y nd, sync_msg ''subscribed'']"
proof -
  let ?t = "ack_timeout y (node_boot y nd)"
  let ?q = "[[''connected''], [''connected''], [''syncronization'', ''syncronization'']]"
  have boot: "node_trace y ob (node_boot y nd) [] ?t"
    by (rule node_trace.timeout[OF node_trace.start]) (simp_all add: node_boot_def)
  have "node_trace y ob (node_boot y nd) ?q (?t\<lparr>from_central := ?q\<rparr>)"
    using deliver_all[OF boot, of ?q] by (simp add: node_boot_def ack_timeout_def)
  note this[THEN drive_trace]
  moreover have st: "toString (n_state nd) = ''registration''" "currState (n_state nd) = Registration"
    using assms by (simp_all add: node_fresh_def Fsm_new_def toString_def)
  define s where "s = drive y ob (?t\<lparr>from_central := ?q\<rparr>)"
  have "n_subscriptions (s_node s) = [''syncronization'', ''syncronization''] \<and>
    to_central s = [reg_msg y nd, reg_msg y nd, req_msg y nd, sync_msg ''subscribed''] \<and> quiescent y ob s"
    using assms st unfolding s_def
    by (simp add: drive.simps service_defs main_defs sub_thread_def node_boot_def ack_timeout_def node_msg_eq
        node_fresh_def nextState_def toString_def reg_msg_def req_msg_def quiescent_def pub_thread_def)
  ultimately show ?thesis unfolding s_def by blast
qed

text \<open>
  \<^verbatim>\<open>Node::sendStrMSG\<close> never reports a failure: its message has two parts and a refused
  part is dropped, so the fifth try is not reached; a socket that refuses the first
  part gets the data without the phase, and one that refuses both gets nothing.
\<close>
lemma node_sendStrMSG_never_fails:
  "fst (node_sendStrMSG nd msg os) \<and>
   node_sendStrMSG nd msg [] = (True, frames_of [toString (n_state nd), msg], []) \<and>
   node_sendStrMSG nd msg [False] = (True, frames_of [msg], []) \<and>
   node_sendStrMSG nd msg [False, False] = (True, [], [])"
proof -
  have "fst (node_sendStrMSG nd msg os)"
    unfolding node_sendStrMSG_def by (rule send_retry_true) (simp add: node_msg_eq)
  then show ?thesis
    by (simp add: node_sendStrMSG_def node_msg_eq send_retry.simps sock_send_def mp_send_ok)
qed

text \<open>
  In whatever order the main thread binds and the other threads connect, no call fails and
  the service, publisher and subscriber channels are linked; the timer channel
  of a node has no peer.
\<close>
theorem node_channels_linked:
  assumes "mset calls = mset node_channels"
  shows "\<exists>c. foldE initInprocSocket calls ctx_new = Inr c \<and>
    linked c ''inproc://serviceChannel'' \<and> linked c ''inproc://pubChannel'' \<and>
    linked c ''inproc://subChannel'' \<and> \<not> linked c ''inproc://timerChannel''"
proof -
  let ?binds = "\<lambda>calls. map fst (filter (\<lambda>call. \<not> snd call) calls)"
  have "mset (?binds calls) = mset (?binds node_channels)" using assms by (metis mset_filter mset_map)
  moreover have "distinct (?binds node_channels)" by (simp add: node_channels_def)
  ultimately have "distinct (?binds calls @ bound ctx_new)"
    by (simp add: ctx_new_def del: mset_map mset_filter) (metis mset_eq_imp_distinct_iff)
  from inproc_calls[OF this] obtain c where "foldE initInprocSocket calls ctx_new = Inr c"
    "set (bound c) = {u. (u, False) \<in> set calls}" "set (connected c) = {u. (u, True) \<in> set calls}"
    by (auto simp: ctx_new_def)
  moreover have "set calls = set node_channels" using assms by (metis set_mset_mset)
  ultimately show ?thesis by (auto simp: linked_def node_channels_def)
qed

section \<open>Witnesses\<close>

theorem node_channels_linked_witness:
  "\<exists>c. foldE initInprocSocket (rev node_channels) ctx_new = Inr c \<and> linked c ''inproc://subChannel''"
  using node_channels_linked[of "rev node_channels"] by auto

text \<open>Texts as YAML nodes, without a configuration file.\<close>

definition text_yaml :: "string yaml" where
  "text_yaml = \<lparr>y_load = Inr, y_load_file = (\<lambda>_. Inl Yaml_error), y_get = (\<lambda>_ _. Inl Yaml_error),
     y_entries = (\<lambda>_. []), y_as_string = Inr, y_as_int = (\<lambda>_. Inl Yaml_error),
     y_as_map = (\<lambda>_. Inl Yaml_error), y_emit = (\<lambda>t. t), y_null = ''~''\<rparr>"

definition demo_node :: "string Node" where
  "demo_node = Node_new text_yaml ''n1''"

lemma demo_node_fresh: "node_fresh demo_node"
  by (simp add: demo_node_def Node_new_def node_default_def text_yaml_def node_fresh_def)

definition demo_sys :: "string node_sys" where
  "demo_sys = drive text_yaml id ((node_boot text_yaml demo_node)\<lparr>from_central :=
     [[''connected''], [''syncronization'', ''syncronization''], [''P1_n2'']]\<rparr>)"

lemma demo_trace: "node_trace text_yaml id (node_boot text_yaml demo_node)
    [[''connected''], [''syncronization'', ''syncronization''], [''P1_n2'']] demo_sys"
proof -
  let ?b = "node_boot text_yaml demo_node"
  let ?q = "[[''connected''], [''syncronization'', ''syncronization''], [''P1_n2'']]"
  have "node_trace text_yaml id ?b ?q (?b\<lparr>from_central := ?q\<rparr>)"
    using deliver_all[OF node_trace.start, of text_yaml id ?b ?q] by (simp add: node_boot_def)
  then show ?thesis unfolding demo_sys_def by (rule drive_trace)
qed

lemma demo_quiescent: "quiescent text_yaml id demo_sys"
  by (simp add: demo_sys_def demo_node_def Node_new_def node_default_def text_yaml_def drive.simps service_defs
      main_defs sub_thread_def node_boot_def node_msg_eq Fsm_new_def nextState_def toString_def quiescent_def
      pub_thread_def)

theorem node_outbox_witness: "node_trace text_yaml id (node_boot text_yaml demo_node)
    [[''connected''], [''syncronization'', ''syncronization''], [''P1_n2'']] demo_sys \<and> published demo_sys = []"
  using node_outbox[OF demo_trace demo_node_fresh] demo_trace by blast

theorem node_handshake_completes_witness:
  "n_subscriptions (s_node demo_sys) = [''P1_n2''] \<and> topics demo_sys = [[CHR 0x00], ''P1_n2'']"
  using node_handshake_completes[OF demo_trace demo_node_fresh demo_quiescent] by simp

theorem node_misreads_repeated_confirmation_witness:
  "\<exists>s :: string node_sys. n_subscriptions (s_node s) = [''syncronization'', ''syncronization''] \<and>
     to_central s = [reg_msg text_yaml demo_node, reg_msg text_yaml demo_node, req_msg text_yaml demo_node,
       sync_msg ''subscribed'']"
  using node_misreads_repeated_confirmation[OF demo_node_fresh, of text_yaml id] by blast

end
