(* ===== verification/System.thy ===== *)
theory System
  imports Central Node "HOL-Library.Sublist"
begin

text \<open>
  The central node and the other nodes together: what the central node sends is what the nodes
  receive, and what they send is what it receives.  A ROUTER socket puts the
  identity of the sender before a received message and takes the identity of the
  addressee from a sent one.
\<close>

text \<open>A node with what its two YAML documents say.\<close>

type_synonym 'y member = "'y Node \<times> (string \<times> (string, string) umap) list \<times> string list"

abbreviation ident :: "'y member \<Rightarrow> string" where
  "ident n \<equiv> n_identity (fst n)"

definition member_ok :: "'y yaml \<Rightarrow> 'y member \<Rightarrow> bool" where
  "member_ok y n \<longleftrightarrow> node_fresh (fst n) \<and> no_null (ident n) \<and>
     declares y (c_str (y_emit y (n_sendingPackets (fst n)))) (fst (snd n)) \<and>
     requests_data y (c_str (y_emit y (n_requestedData (fst n)))) (snd (snd n))"

definition member_reg :: "'y yaml \<Rightarrow> 'y member \<Rightarrow> registration" where
  "member_reg y n = (ident n, c_str (y_emit y (n_sendingPackets (fst n))), fst (snd n))"

definition member_req :: "'y yaml \<Rightarrow> 'y member \<Rightarrow> request" where
  "member_req y n = (ident n, c_str (y_emit y (n_requestedData (fst n))), snd (snd n))"

definition system_inbox :: "'y yaml \<Rightarrow> 'y member list \<Rightarrow> 'y member list \<Rightarrow> 'y member list \<Rightarrow> event list" where
  "system_inbox y N N' N'' =
     map (arrival Fsm_new) (map (member_reg y) N) @
     map (arrival \<lparr>currState = Syncronization\<rparr>) (map (member_req y) N') @
     map report (map (\<lambda>n. (ident n, ''subscribed'')) N'')"

text \<open>The routing of a ROUTER socket.\<close>

definition to_node :: "string \<Rightarrow> message list \<Rightarrow> node_msg list" where
  "to_node w sent = map tl (filter (\<lambda>m. m \<noteq> [] \<and> hd m = w) sent)"

fun from_node :: "string \<Rightarrow> event list \<Rightarrow> node_msg list" where
  "from_node w [] = []"
| "from_node w (Nothing # inbox) = from_node w inbox"
| "from_node w (Msg m # inbox) =
     (if m \<noteq> [] \<and> hd m = w then tl m # from_node w inbox else from_node w inbox)"

lemma to_node_append [simp]: "to_node w (xs @ ys) = to_node w xs @ to_node w ys"
  by (simp add: to_node_def)

lemma from_node_append [simp]: "from_node w (xs @ ys) = from_node w xs @ from_node w ys"
  by (induction w xs rule: from_node.induct) simp_all

lemma to_node_one:
  "distinct (map ident N) \<Longrightarrow> n \<in> set N \<Longrightarrow> to_node (ident n) (map (\<lambda>n. ident n # f n) N) = [f n]"
proof (induction N)
  case (Cons x N)
  have none: "ident n \<notin> ident ` set N \<Longrightarrow> to_node (ident n) (map (\<lambda>n. ident n # f n) N) = []"
    by (induction N) (auto simp: to_node_def)
  show ?case
  proof (cases "n = x")
    case True
    with Cons.prems none show ?thesis by (auto simp: to_node_def)
  next
    case False
    with Cons show ?thesis by (auto simp: to_node_def)
  qed
qed simp

lemma from_node_one:
  "distinct (map ident N) \<Longrightarrow> n \<in> set N \<Longrightarrow> from_node (ident n) (map (\<lambda>n. Msg (ident n # f n)) N) = [f n]"
proof (induction N)
  case (Cons x N)
  have none: "ident n \<notin> ident ` set N \<Longrightarrow> from_node (ident n) (map (\<lambda>n. Msg (ident n # f n)) N) = []"
    by (induction N) auto
  show ?case
  proof (cases "n = x")
    case True
    with Cons.prems none show ?thesis by auto
  next
    case False
    with Cons show ?thesis by auto
  qed
qed simp

lemma to_node_answers:
  assumes "list_all2 (answers db) (map (\<lambda>n. (ident n, snd (snd n))) N) msgs"
    and "distinct (map ident N)" and "n \<in> set N"
  shows "\<exists>ans. to_node (ident n) msgs = [ans] \<and> answers db (ident n, snd (snd n)) (ident n # ans)"
proof -
  have "\<exists>f. msgs = map (\<lambda>n. ident n # f n) N \<and> (\<forall>n\<in>set N. answers db (ident n, snd (snd n)) (ident n # f n))"
    if "list_all2 (answers db) (map (\<lambda>n. (ident n, snd (snd n))) N) msgs" "distinct N" for N :: "'a member list" and msgs
    using that
  proof (induction N arbitrary: msgs)
    case Nil
    then show ?case by simp
  next
    case (Cons x N)
    then obtain m ms where m: "msgs = m # ms" "answers db (ident x, snd (snd x)) m"
      "list_all2 (answers db) (map (\<lambda>n. (ident n, snd (snd n))) N) ms"
      by (auto simp: list_all2_Cons1)
    with Cons obtain f where f: "ms = map (\<lambda>n. ident n # f n) N"
      "\<forall>n\<in>set N. answers db (ident n, snd (snd n)) (ident n # f n)" by auto
    have "m = ident x # tl m" using m(2) by (simp add: answers_def)
    with m f Cons.prems(2) show ?case
      by (intro exI[of _ "f(x := tl m)"]) auto
  qed
  from this[OF assms(1)] assms(2) obtain f where "msgs = map (\<lambda>n. ident n # f n) N"
    "\<forall>n\<in>set N. answers db (ident n, snd (snd n)) (ident n # f n)"
    by (auto simp: distinct_map)
  with to_node_one[OF assms(2,3), of f] assms(3) show ?thesis by auto
qed

lemma answers_sound:
  assumes "answers db (w, ds) msg" and "p \<in> set (tl msg)" and "\<forall>d\<in>set ds. providers db d \<noteq> []"
  shows "\<exists>d\<in>set ds. p \<in> set (providers db d)"
proof -
  let ?multi = "filter (\<lambda>d. length (providers db d) \<noteq> 1) ds"
  have "\<exists>d\<in>set ds. p \<in> set (providers db d)" if "p \<in> first_shared db ds"
    using that assms(3) by (cases ?multi) (auto simp: first_shared_def filter_eq_Cons_iff)
  moreover have "\<exists>d\<in>set ds. p \<in> set (providers db d)" if "p \<in> unique_packs db ds"
    using that by (force simp: unique_packs_def)
  ultimately show ?thesis using assms(1,2) by (auto simp: answers_def)
qed

section \<open>The system\<close>

text \<open>
  The events that the central node has received, the states of the nodes, and what each node has received so far.  A thread of
  a node moves; a node receives the next message that the central node has sent to it; the central node receives the next message
  that a node has sent.  Nothing arrives that was not sent before: what the central node has sent is what its
  service thread sends for the events up to now.  The timeout of a node that waits for its confirmation does not elapse.
\<close>

record 'y system =
  sy_inbox :: "event list"
  sy_nodes :: "string \<Rightarrow> 'y node_sys"
  sy_got :: "string \<Rightarrow> node_msg list"

definition central_out :: "'y yaml \<Rightarrow> bool option \<Rightarrow> Central \<Rightarrow> 'y system \<Rightarrow> message list" where
  "central_out y off c s = sv_sent (initServiceThread y off c (sy_inbox s))"

inductive system_step :: "'y yaml \<Rightarrow> (string \<Rightarrow> string) \<Rightarrow> bool option \<Rightarrow> Central \<Rightarrow> 'y member list \<Rightarrow> 'y system \<Rightarrow> 'y system \<Rightarrow> bool"
  for y ob off c N where
  thread: "n \<in> set N \<Longrightarrow> thread_step y ob (sy_nodes s (ident n)) u \<Longrightarrow>
    system_step y ob off c N s (s\<lparr>sy_nodes := (sy_nodes s)(ident n := u)\<rparr>)"
| to_a_node: "n \<in> set N \<Longrightarrow> to_node (ident n) (central_out y off c s) = sy_got s (ident n) @ m # ms \<Longrightarrow>
    t = sy_nodes s (ident n) \<Longrightarrow>
    system_step y ob off c N s (s\<lparr>sy_nodes := (sy_nodes s)(ident n := t\<lparr>from_central := from_central t @ [m]\<rparr>),
      sy_got := (sy_got s)(ident n := sy_got s (ident n) @ [m])\<rparr>)"
| to_the_centre: "n \<in> set N \<Longrightarrow> to_central (sy_nodes s (ident n)) = from_node (ident n) (sy_inbox s) @ m # ms \<Longrightarrow>
    system_step y ob off c N s (s\<lparr>sy_inbox := sy_inbox s @ [Msg (ident n # m)]\<rparr>)"

definition system_start :: "'y yaml \<Rightarrow> 'y member list \<Rightarrow> 'y system \<Rightarrow> bool" where
  "system_start y N s \<longleftrightarrow> sy_inbox s = [] \<and> (\<forall>n\<in>set N. sy_nodes s (ident n) = node_boot y (fst n) \<and> sy_got s (ident n) = [])"

text \<open>What is assumed of the configuration: as many nodes as are expected, with readable descriptions, and every datum that is requested is offered.\<close>

definition system_ok :: "'y yaml \<Rightarrow> Central \<Rightarrow> 'y member list \<Rightarrow> bool" where
  "system_ok y c N \<longleftrightarrow> c_state c = Fsm_new \<and> c_db c = DataBase_new \<and> int (length N) = c_expectedClient c \<and> c_expectedClient c < 2 ^ 31 \<and>
     N \<noteq> [] \<and> distinct (map ident N) \<and> list_all (member_ok y) N \<and>
     (\<forall>n\<in>set N. \<forall>d\<in>set (snd (snd n)). carriers_of (map (member_reg y) N) d \<noteq> {})"

section \<open>What the central node sends for what has arrived\<close>

text \<open>How far the handshake is: the nodes whose registration, request and report have arrived.\<close>

definition stages :: "'y member list \<Rightarrow> 'y member list \<Rightarrow> 'y member list \<Rightarrow> 'y member list \<Rightarrow> bool" where
  "stages N A B C \<longleftrightarrow> distinct A \<and> distinct B \<and> distinct C \<and> set A \<subseteq> set N \<and> set B \<subseteq> set N \<and> set C \<subseteq> set N \<and>
     (B \<noteq> [] \<longrightarrow> set A = set N) \<and> (C \<noteq> [] \<longrightarrow> set B = set N)"

definition route :: "'y member list \<Rightarrow> 'y member list \<Rightarrow> 'y member list \<Rightarrow> 'y member list \<Rightarrow> ('y member \<Rightarrow> node_msg) \<Rightarrow> 'y member \<Rightarrow> node_msg list" where
  "route N A B C f n = (if n \<in> set A then [[''connected'']] else []) @ (if set A = set N then [sync_msg ''syncronization''] else []) @
     (if set B = set N then [f n] else []) @ (if set C = set N then [sync_msg ''AllSubscribed''] else [])"

lemma to_node_list:
  assumes "distinct (map ident N)" "distinct A" "set A \<subseteq> set N" "n \<in> set N"
  shows "to_node (ident n) (map (\<lambda>n. ident n # f n) A) = (if n \<in> set A then [f n] else [])"
proof (cases "n \<in> set A")
  case True
  have "distinct (map ident A)" using assms by (auto simp: distinct_map inj_on_subset)
  from to_node_one[OF this True] True show ?thesis by simp
next
  case False
  then have "ident n \<notin> ident ` set A" using assms by (auto simp: distinct_map inj_on_def)
  then have "to_node (ident n) (map (\<lambda>n. ident n # f n) A) = []" by (induction A) (auto simp: to_node_def)
  with False show ?thesis by simp
qed

lemma from_node_list:
  assumes "distinct (map ident N)" "distinct A" "set A \<subseteq> set N" "n \<in> set N"
  shows "from_node (ident n) (map (\<lambda>n. Msg (ident n # f n)) A) = (if n \<in> set A then [f n] else [])"
proof (cases "n \<in> set A")
  case True
  have "distinct (map ident A)" using assms by (auto simp: distinct_map inj_on_subset)
  from from_node_one[OF this True] True show ?thesis by simp
next
  case False
  then have "ident n \<notin> ident ` set A" using assms by (auto simp: distinct_map inj_on_def)
  then have "from_node (ident n) (map (\<lambda>n. Msg (ident n # f n)) A) = []" by (induction A) auto
  with False show ?thesis by simp
qed

lemma same_length: "distinct A \<Longrightarrow> distinct N \<Longrightarrow> set A \<subseteq> set N \<Longrightarrow> set A = set N \<longleftrightarrow> length A = length N"
  by (metis card_subset_eq distinct_card finite_set)

lemma less_length: "distinct A \<Longrightarrow> distinct N \<Longrightarrow> set A \<subseteq> set N \<Longrightarrow> set A \<noteq> set N \<Longrightarrow> length A < length N"
  by (metis distinct_card finite_set psubsetI psubset_card_mono)

lemma member_ok_lists:
  assumes "list_all (member_ok y) N" "set A \<subseteq> set N"
  shows "list_all (\<lambda>(w, body, ps). declares y body ps) (map (member_reg y) A)"
    "list_all (\<lambda>(w, body, ds). requests_data y body ds) (map (member_req y) A)" "list_all no_null (map ident A)"
  using assms by (auto simp: list_all_iff member_ok_def member_reg_def member_req_def)

lemma carriers_same: "set A = set N \<Longrightarrow> carriers_of (map (member_reg y) A) d = carriers_of (map (member_reg y) N) d"
  by (simp add: carriers_of_def)

lemma idents: "map fst (map (member_reg y) A) = map ident A" "map fst (map (member_req y) A) = map ident A"
    "map fst (map (\<lambda>n. (ident n, ''subscribed'')) A) = map ident A"
  by (simp_all add: member_reg_def member_req_def)

lemma ident_comp [simp]: "fst \<circ> member_reg y = ident" "fst \<circ> member_req y = ident" "fst \<circ> (\<lambda>n. (ident n, x)) = ident"
  by (simp_all add: member_reg_def member_req_def fun_eq_iff)

lemma same_mset: "distinct A \<Longrightarrow> distinct B \<Longrightarrow> set A = set B \<Longrightarrow> mset (map ident A) = mset (map ident B)"
  by (simp add: set_eq_iff_mset_eq_distinct)

lemma members_sent: "map (\<lambda>r. [fst r, x]) (map (member_reg y) A) = map (\<lambda>n. ident n # [x]) A"
    "map (\<lambda>r. [fst r, u, v]) (map (member_reg y) A) = map (\<lambda>n. ident n # [u, v]) A"
  by (simp_all add: member_reg_def)

lemma route_one:
  assumes "distinct (map ident N)" "distinct A" "set A \<subseteq> set N" "n \<in> set N"
  shows "to_node (ident n) (map (\<lambda>n. [ident n, x]) A) = (if n \<in> set A then [[x]] else [])"
    "to_node (ident n) (map (\<lambda>n. [ident n, u, v]) A) = (if n \<in> set A then [[u, v]] else [])"
  using to_node_list[OF assms, of "\<lambda>_. [x]"] to_node_list[OF assms, of "\<lambda>_. [u, v]"] by simp_all

lemma central_routes:
  assumes ok: "system_ok y c N" and AB: "stages N A B []"
  obtains f where "\<And>n p. n \<in> set N \<Longrightarrow> set B = set N \<Longrightarrow> p \<in> set (f n) \<Longrightarrow> \<exists>d\<in>set (snd (snd n)). p \<in> carriers_of (map (member_reg y) N) d"
    "\<And>C n. stages N A B C \<Longrightarrow> n \<in> set N \<Longrightarrow> to_node (ident n) (sv_sent (initServiceThread y off c (system_inbox y A B C))) = route N A B C f n"
    "\<And>C. stages N A B C \<Longrightarrow> set C = set N \<Longrightarrow> sv_status (initServiceThread y off c (system_inbox y A B C)) = Subscribing []"
proof -
  let ?regs = "map (member_reg y) A" and ?reqs = "map (member_req y) B" and ?subs = "\<lambda>C. map (\<lambda>n. (ident n, ''subscribed'')) C"
  have o: "c_state c = Fsm_new" "c_db c = DataBase_new" "int (length N) = c_expectedClient c" "c_expectedClient c < 2 ^ 31" "N \<noteq> []"
    "distinct (map ident N)" "list_all (member_ok y) N" "\<forall>n\<in>set N. \<forall>d\<in>set (snd (snd n)). carriers_of (map (member_reg y) N) d \<noteq> {}"
    using ok by (simp_all add: system_ok_def)
  have N: "distinct N" "set N \<noteq> {}" using o(5,6) by (simp_all add: distinct_map)
  have s: "distinct A" "distinct B" "set A \<subseteq> set N" "set B \<subseteq> set N" "B \<noteq> [] \<Longrightarrow> set A = set N" using AB by (auto simp: stages_def)
  have inj: "inj_on ident (set N)" using o(6) by (simp add: distinct_map)
  have di: "distinct (map ident X)" if "distinct X" "set X \<subseteq> set N" for X using that inj by (auto simp: distinct_map inj_on_subset)
  note mA = member_ok_lists[OF o(7) s(3)] and mB = member_ok_lists[OF o(7) s(4)]
  consider (reg) "set A \<noteq> set N" | (req) "set A = set N" "set B \<noteq> set N" | (sub) "set A = set N" "set B = set N" by blast
  then show thesis
  proof cases
    case reg
    then have B: "B = []" using s(5) by blast
    have C: "C = []" if "stages N A B C" for C using that B N(2) by (auto simp: stages_def)
    have "length A < length N" using less_length[OF s(1) N(1) s(3) reg] .
    then have "sv_sent (initServiceThread y off c (map (arrival Fsm_new) ?regs)) = map (\<lambda>r. [fst r, ''connected'']) ?regs"
      using o mA di[OF s(1,3)] by (intro service_registering) (simp_all add: idents)
    then have r: "to_node (ident n) (sv_sent (initServiceThread y off c (system_inbox y A B []))) = route N A B [] f n" if "n \<in> set N" for n f
      using that reg N(2) B unfolding members_sent by (simp add: system_inbox_def route_def route_one[OF o(6) s(1,3)])
    show thesis
    proof (rule that[of "\<lambda>_. []"])
      show "to_node (ident n) (sv_sent (initServiceThread y off c (system_inbox y A B C))) = route N A B C (\<lambda>_. []) n" if "stages N A B C" "n \<in> set N" for C n
        using r[OF that(2)] C[OF that(1)] by simp
      show "sv_status (initServiceThread y off c (system_inbox y A B C)) = Subscribing []" if "stages N A B C" "set C = set N" for C
        using C[OF that(1)] that(2) N(2) by simp
    qed simp
  next
    case req
    have C: "C = []" if "stages N A B C" for C using that req(2) by (auto simp: stages_def)
    have len: "length A = length N" "length B < length N"
      using same_length[OF s(1) N(1) s(3)] req(1) less_length[OF s(2) N(1) s(4) req(2)] by simp_all
    have "sv_sent (initServiceThread y off c (map (arrival Fsm_new) ?regs @ map (arrival \<lparr>currState = Syncronization\<rparr>) ?reqs)) =
      map (\<lambda>r. [fst r, ''connected'']) ?regs @ map (\<lambda>r. [fst r, ''syncronization'', ''syncronization'']) ?regs"
    proof (rule service_requesting[OF o(1,2) _ o(4) _ mA(1) _ mB(2)])
      show "int (length ?regs) = c_expectedClient c" using len o(3) by simp
      show "distinct (map fst ?regs)" using di[OF s(1,3)] by simp
      show "distinct (map fst ?reqs)" using di[OF s(2,4)] by simp
      show "length ?reqs < length ?regs" using len by simp
    qed
    then have r: "to_node (ident n) (sv_sent (initServiceThread y off c (system_inbox y A B []))) = route N A B [] f n" if "n \<in> set N" for n f
      using that req N(2) unfolding members_sent by (simp add: system_inbox_def route_def route_one[OF o(6) s(1,3)])
    show thesis
    proof (rule that[of "\<lambda>_. []"])
      show "to_node (ident n) (sv_sent (initServiceThread y off c (system_inbox y A B C))) = route N A B C (\<lambda>_. []) n" if "stages N A B C" "n \<in> set N" for C n
        using r[OF that(2)] C[OF that(1)] by simp
      show "sv_status (initServiceThread y off c (system_inbox y A B C)) = Subscribing []" if "stages N A B C" "set C = set N" for C
        using C[OF that(1)] that(2) N(2) by simp
    qed simp
  next
    case sub
    have len: "length A = length N" "A \<noteq> []" using same_length[OF s(1) N(1) s(3)] sub N(2) by auto
    have ms: "mset (map fst ?reqs) = mset (map fst ?regs)" unfolding idents by (rule same_mset) (use s sub in auto)
    have srv: "\<forall>r\<in>set ?reqs. \<forall>d\<in>set (snd (snd r)). carriers_of ?regs d \<noteq> {}"
      using o(8) s(4) carriers_same[OF sub(1)] by (auto simp: member_req_def)
    have pre: "int (length ?regs) = c_expectedClient c" "?regs \<noteq> []" "distinct (map fst ?regs)" "list_all no_null (map fst ?regs)"
      using len o(3) di[OF s(1,3)] mA(3) by simp_all
    obtain db msgs where db: "\<And>d. set (providers db d) = carriers_of ?regs d"
      and ans: "list_all2 (answers db) (map (\<lambda>(w, body, ds). (w, ds)) ?reqs) msgs"
      and part: "\<And>subs. distinct (map fst subs) \<Longrightarrow> set (map fst subs) \<subset> set (map fst ?regs) \<Longrightarrow>
        sv_sent (initServiceThread y off c (map (arrival Fsm_new) ?regs @ map (arrival \<lparr>currState = Syncronization\<rparr>) ?reqs @ map report subs)) =
          map (\<lambda>r. [fst r, ''connected'']) ?regs @ map (\<lambda>r. [fst r, ''syncronization'', ''syncronization'']) ?regs @ msgs"
      and all: "\<And>subs. mset (map fst subs) = mset (map fst ?regs) \<Longrightarrow>
        sv_status (initServiceThread y off c (map (arrival Fsm_new) ?regs @ map (arrival \<lparr>currState = Syncronization\<rparr>) ?reqs @ map report subs)) = Subscribing [] \<and>
        sv_sent (initServiceThread y off c (map (arrival Fsm_new) ?regs @ map (arrival \<lparr>currState = Syncronization\<rparr>) ?reqs @ map report subs)) =
          map (\<lambda>r. [fst r, ''connected'']) ?regs @ map (\<lambda>r. [fst r, ''syncronization'', ''syncronization'']) ?regs @ msgs @
          map (\<lambda>r. [fst r, ''syncronization'', ''AllSubscribed'']) ?regs"
      proof (rule service_answered[OF o(1,2) pre(1) o(4) pre(2,3) mA(1) pre(4) ms mB(2) srv, of off], goal_cases)
      case 1
      show ?case by (rule 1(1)[OF 1(2-5)])
    qed
    have "map (\<lambda>(w, body, ds). (w, ds)) ?reqs = map (\<lambda>n. (ident n, snd (snd n))) B" by (simp add: member_req_def comp_def)
    with ans have ans': "list_all2 (answers db) (map (\<lambda>n. (ident n, snd (snd n))) B) msgs" by (simp only:)
    have "\<exists>ans. to_node (ident n) msgs = [ans] \<and> answers db (ident n, snd (snd n)) (ident n # ans)" if "n \<in> set N" for n
      using to_node_answers[OF ans' di[OF s(2,4)]] sub(2) that by blast
    then obtain f where f: "\<And>n. n \<in> set N \<Longrightarrow> to_node (ident n) msgs = [f n] \<and> answers db (ident n, snd (snd n)) (ident n # f n)" by metis
    show thesis
    proof (rule that[of f])
      fix n p assume n: "n \<in> set N" "p \<in> set (f n)"
      have "\<forall>d\<in>set (snd (snd n)). providers db d \<noteq> []" using o(8) n(1) db carriers_same[OF sub(1)] by (metis empty_set)
      then show "\<exists>d\<in>set (snd (snd n)). p \<in> carriers_of (map (member_reg y) N) d"
        using answers_sound[of db "ident n" "snd (snd n)" "ident n # f n" p] f[OF n(1)] n(2) db carriers_same[OF sub(1)] by auto
    next
      fix C n assume st: "stages N A B C" and n: "n \<in> set N"
      have c: "distinct C" "set C \<subseteq> set N" using st by (simp_all add: stages_def)
      note r = route_one[OF o(6) s(1,3) n] f[OF n]
      show "to_node (ident n) (sv_sent (initServiceThread y off c (system_inbox y A B C))) = route N A B C f n"
      proof (cases "set C = set N")
        case True
        have "mset (map fst (?subs C)) = mset (map fst ?regs)" unfolding idents by (rule same_mset) (use s sub c True in auto)
        from all[OF this] r n True sub show ?thesis unfolding system_inbox_def members_sent by (simp add: route_def)
      next
        case False
        have "ident ` set C \<subset> ident ` set A" using False c(2) sub(1) inj by (metis inj_on_image_eq_iff image_mono psubsetI order_refl)
        then have "set (map fst (?subs C)) \<subset> set (map fst ?regs)" unfolding idents by simp
        from part[OF _ this] di[OF c] r n False sub show ?thesis unfolding system_inbox_def members_sent idents by (simp add: route_def)
      qed
    next
      fix C assume st: "stages N A B C" and C: "set C = set N"
      have "mset (map fst (?subs C)) = mset (map fst ?regs)" unfolding idents by (rule same_mset) (use s sub st C in \<open>auto simp: stages_def\<close>)
      from all[OF this] show "sv_status (initServiceThread y off c (system_inbox y A B C)) = Subscribing []" unfolding system_inbox_def by simp
    qed
  qed
qed

section \<open>The invariant of the system\<close>

lemma from_inbox:
  assumes N: "distinct (map ident N)" "list_all (member_ok y) N" "n \<in> set N" and st: "stages N A B C"
  shows "from_node (ident n) (system_inbox y A B C) = (if n \<in> set A then [reg_msg y (fst n)] else []) @
    (if n \<in> set B then [req_msg y (fst n)] else []) @ (if n \<in> set C then [sync_msg ''subscribed''] else [])"
proof -
  have s: "distinct A" "set A \<subseteq> set N" "distinct B" "set B \<subseteq> set N" "distinct C" "set C \<subseteq> set N"
    using st by (simp_all add: stages_def)
  show ?thesis
    using from_node_list[OF N(1) s(1,2) N(3), of "\<lambda>n. reg_msg y (fst n)"] from_node_list[OF N(1) s(3,4) N(3), of "\<lambda>n. req_msg y (fst n)"]
      from_node_list[OF N(1) s(5,6) N(3), of "\<lambda>n. sync_msg ''subscribed''"]
    by (simp add: system_inbox_def member_reg_def member_req_def reg_msg_def req_msg_def comp_def toString_def Fsm_new_def)
qed

text \<open>The inbox after one more registration, request or report.\<close>

lemma inbox_snoc:
  "system_inbox y (A @ [n]) [] [] = system_inbox y A [] [] @ [Msg (ident n # reg_msg y (fst n))]"
  "system_inbox y A (B @ [n]) [] = system_inbox y A B [] @ [Msg (ident n # req_msg y (fst n))]"
  "system_inbox y A B (C @ [n]) = system_inbox y A B C @ [Msg (ident n # sync_msg ''subscribed'')]"
  by (simp_all add: system_inbox_def member_reg_def member_req_def reg_msg_def req_msg_def toString_def Fsm_new_def)

lemma length_inbox: "length (system_inbox y A B C) = length A + length B + length C"
  by (simp add: system_inbox_def)

definition routed_to :: "'y yaml \<Rightarrow> bool option \<Rightarrow> Central \<Rightarrow> 'y system \<Rightarrow> 'y member \<Rightarrow> node_msg list" where
  "routed_to y off c s n = to_node (ident n) (central_out y off c s)"

definition node_part :: "'y yaml \<Rightarrow> (string \<Rightarrow> string) \<Rightarrow> bool option \<Rightarrow> Central \<Rightarrow> 'y system \<Rightarrow> 'y member \<Rightarrow> bool" where
  "node_part y ob off c s n \<longleftrightarrow> node_inv y ob (fst n) (sy_got s (ident n)) 0 (sy_nodes s (ident n)) \<and>
     prefix (sy_got s (ident n)) (routed_to y off c s n) \<and>
     prefix (from_node (ident n) (sy_inbox s)) (to_central (sy_nodes s (ident n)))"

definition system_inv :: "'y yaml \<Rightarrow> (string \<Rightarrow> string) \<Rightarrow> bool option \<Rightarrow> Central \<Rightarrow> 'y member list \<Rightarrow> 'y system \<Rightarrow> bool" where
  "system_inv y ob off c N s \<longleftrightarrow> (\<exists>A B C. stages N A B C \<and> sy_inbox s = system_inbox y A B C) \<and> (\<forall>n\<in>set N. node_part y ob off c s n)"

lemma stages_start: "stages N [] [] []"
  by (simp add: stages_def)

lemma stages_drop: "stages N A B C \<Longrightarrow> stages N A B []"
  by (simp add: stages_def)


lemma route_prefix:
  assumes "N \<noteq> []" "stages N A B C" "stages N A' B' C'" "set A \<subseteq> set A'" "set B \<subseteq> set B'" "set C \<subseteq> set C'" "n \<in> set N"
    "set B = set N \<Longrightarrow> f n = f' n"
  shows "prefix (route N A B C f n) (route N A' B' C' f' n)"
proof -
  have ne: "set N \<noteq> {}" using assms(1) by simp
  have AB: "set B = set N \<Longrightarrow> set A = set N" "set C = set N \<Longrightarrow> set B = set N" "set B' = set N \<Longrightarrow> set A' = set N" "set C' = set N \<Longrightarrow> set B' = set N"
    using assms(2,3) ne by (auto simp: stages_def)
  have up: "set A = set N \<Longrightarrow> set A' = set N" "set B = set N \<Longrightarrow> set B' = set N" "set C = set N \<Longrightarrow> set C' = set N"
    using assms(2-6) by (auto simp: stages_def)
  consider "set C = set N" | "set C \<noteq> set N" "set B = set N" | "set B \<noteq> set N" "set A = set N" | "set A \<noteq> set N" by blast
  then show ?thesis
  proof cases
    case 1
    with AB up assms(7,8) show ?thesis by (simp add: route_def)
  next
    case 2
    with AB up assms(7,8) show ?thesis by (simp add: route_def)
  next
    case 3
    with AB up assms(7) have "set C \<noteq> set N" by blast
    with 3 up assms(7) show ?thesis by (simp add: route_def)
  next
    case 4
    with AB have "set B \<noteq> set N" "set C \<noteq> set N" by blast+
    with 4 assms(4) show ?thesis by (auto simp: route_def)
  qed
qed

text \<open>What the central node sends to a node only grows.\<close>

lemma routed_grows:
  assumes ok: "system_ok y c N" and st: "stages N A B C" "stages N A' B' C'" and n: "n \<in> set N"
    and sub: "set A \<subseteq> set A'" "set B \<subseteq> set B'" "set C \<subseteq> set C'" and same: "set B = set N \<Longrightarrow> A' = A \<and> B' = B"
  shows "prefix (to_node (ident n) (sv_sent (initServiceThread y off c (system_inbox y A B C))))
    (to_node (ident n) (sv_sent (initServiceThread y off c (system_inbox y A' B' C'))))"
proof -
  have N: "N \<noteq> []" using ok by (simp add: system_ok_def)
  obtain f where f: "\<And>C n. stages N A B C \<Longrightarrow> n \<in> set N \<Longrightarrow> to_node (ident n) (sv_sent (initServiceThread y off c (system_inbox y A B C))) = route N A B C f n"
    by (rule central_routes[OF ok stages_drop[OF st(1)], of off]) blast
  show ?thesis
  proof (cases "set B = set N")
    case True
    with same have e: "A' = A" "B' = B" by simp_all
    from route_prefix[OF N st sub n, of f f] f[OF st(1) n] f[OF st(2)[unfolded e] n] e show ?thesis by simp
  next
    case False
    obtain f' where f': "\<And>C n. stages N A' B' C \<Longrightarrow> n \<in> set N \<Longrightarrow> to_node (ident n) (sv_sent (initServiceThread y off c (system_inbox y A' B' C))) = route N A' B' C f' n"
      by (rule central_routes[OF ok stages_drop[OF st(2)], of off]) blast
    from route_prefix[OF N st sub n, of f f'] False f[OF st(1) n] f'[OF st(2) n] show ?thesis by simp
  qed
qed

lemma thread_sends: "thread_step y ob s u \<Longrightarrow> prefix (to_central s) (to_central u)"
  by (erule thread_step.cases)
    (auto simp: service_defs main_defs sub_thread_def pub_thread_def bindE_eq_Inr Let_def
      split: service_phase.splits list.splits if_splits)

lemma node_inv_sent:
  assumes "node_inv y ob nd ms 0 s"
  obtains p j where "to_central s = reg_msg y nd # (if p then [req_msg y nd] else []) @ (if j then [sync_msg ''subscribed''] else [])"
    "p \<Longrightarrow> 2 \<le> length ms" "j \<Longrightarrow> p \<and> 3 \<le> length ms"
proof -
  from assms obtain used a b d j where inv: "node_inv_at y ob nd ms used 0 a b d j s" by (rule node_invE)
  show thesis
  proof (rule that[of "s_phase s = Await_answer \<or> s_phase s = Serving" "j = 1"])
    have j: "j \<le> 1" using inv by (simp add: node_inv_at_def token_def split: if_splits)
    then have "j = 0 \<or> j = 1" by linarith
    then show "to_central s = reg_msg y nd # (if s_phase s = Await_answer \<or> s_phase s = Serving then [req_msg y nd] else []) @ (if j = 1 then [sync_msg ''subscribed''] else [])"
      using inv by (elim disjE) (simp_all add: node_inv_at_def)
    show "2 \<le> length ms" if "s_phase s = Await_answer \<or> s_phase s = Serving"
      using that inv by (auto simp: node_inv_at_def)
    show "(s_phase s = Await_answer \<or> s_phase s = Serving) \<and> 3 \<le> length ms" if "j = 1"
      using that inv by (auto simp: node_inv_at_def token_def split: if_splits)
  qed
qed

text \<open>No thread throws while the confirmation has a part and the later announcements have two.\<close>

lemma node_inv_no_error:
  assumes inv: "node_inv y ob nd ms k s" and one: "ms \<noteq> [] \<Longrightarrow> ms ! 0 \<noteq> []"
    and two: "\<And>i. 3 \<le> i \<Longrightarrow> i < length ms \<Longrightarrow> 2 \<le> length (ms ! i)"
  shows "quiescent y ob s \<or> (\<exists>u. thread_step y ob s u)"
proof -
  from inv obtain used a b d j where at: "node_inv_at y ob nd ms used k a b d j s" by (rule node_invE)
  have sv: "\<exists>u. service_thread y s = Some (Inr u)" if "service_thread y s \<noteq> None"
  proof (cases "s_phase s = Serving \<and> main_service s \<noteq> []")
    case True
    then obtain ms' where "main_service s = sync_msg ''subscribed'' # ms'"
      using at by (cases d) (auto simp: node_inv_at_def token_def)
    with True show ?thesis by (simp add: service_thread_def serve_main_def)
  next
    case False
    with that obtain m ms' where m: "from_central s = m # ms'"
      by (auto simp: service_thread_def split: service_phase.splits list.splits)
    with at have ms: "ms = used @ m # ms'" by (simp add: node_inv_at_def)
    show ?thesis
    proof (cases "s_phase s")
      case Await_ack
      with at have "used = []" by (simp add: node_inv_at_def)
      with ms one obtain p m' where "m = p # m'" by (cases m) auto
      with Await_ack m show ?thesis by (simp add: service_thread_def ack_received_def)
    next
      case Serving
      with at have "3 \<le> length used" by (simp add: node_inv_at_def)
      with two[of "length used"] ms have "2 \<le> length m" by simp
      then obtain p q m' where "m = p # q # m'" by (cases m; cases "tl m") auto
      with Serving m False show ?thesis by (simp add: service_thread_def serve_central_def)
    qed (use m in \<open>simp_all add: service_thread_def phase_received_def answer_received_def\<close>)
  qed
  have mt: "\<exists>u. main_thread s = Some (Inr u)" if "main_thread s \<noteq> None"
  proof (cases "service_main s")
    case (Cons m ms')
    with at have "m = sync_msg ''received subscriptions'' \<or> m = sync_msg ''AllSubscribed''" by (auto simp: node_inv_at_def token_def)
    with Cons show ?thesis by (auto simp: main_thread_def main_from_service_def)
  next
    case Nil
    with that obtain m ms' where m: "sub_main s = m # ms'" by (auto simp: main_thread_def split: list.splits)
    with at have "m = sync_msg ''subscribed''" by (cases b) (auto simp: node_inv_at_def token_def)
    with m Nil show ?thesis by (auto simp: main_thread_def main_from_sub_def)
  qed
  have sb: "\<exists>u. sub_thread ob s = Some (Inr u)" if "sub_thread ob s \<noteq> None"
    using that by (auto simp: sub_thread_def split: if_splits list.splits)
  have pb: "\<exists>u. pub_thread s = Some (Inr u)" if "pub_thread s \<noteq> None"
    using that by (auto simp: pub_thread_def split: if_splits list.splits)
  show ?thesis using sv mt sb pb unfolding quiescent_def by (meson thread_step.intros)
qed

lemma route_facts:
  assumes "stages N A B C" "N \<noteq> []" "n \<in> set N"
  shows "length (route N A B C f n) \<le> 4" "2 \<le> length (route N A B C f n) \<Longrightarrow> set A = set N" "3 \<le> length (route N A B C f n) \<Longrightarrow> set B = set N"
    "prefix ms (route N A B C f n) \<Longrightarrow> ms \<noteq> [] \<Longrightarrow> ms ! 0 = [''connected'']"
    "prefix ms (route N A B C f n) \<Longrightarrow> 3 \<le> i \<Longrightarrow> i < length ms \<Longrightarrow> ms ! i = sync_msg ''AllSubscribed''"
proof -
  have ne: "set N \<noteq> {}" using assms(2) by simp
  have AB: "set B = set N \<Longrightarrow> set A = set N" "set C = set N \<Longrightarrow> set B = set N" using assms(1) ne by (auto simp: stages_def)
  show "length (route N A B C f n) \<le> 4" by (simp add: route_def)
  show "2 \<le> length (route N A B C f n) \<Longrightarrow> set A = set N" "3 \<le> length (route N A B C f n) \<Longrightarrow> set B = set N"
    using AB assms(3) by (auto simp: route_def split: if_splits)
  show "ms ! 0 = [''connected'']" if "prefix ms (route N A B C f n)" "ms \<noteq> []"
    using that AB assms(3) by (cases ms) (auto simp: route_def split: if_splits)
  show "ms ! i = sync_msg ''AllSubscribed''" if p: "prefix ms (route N A B C f n)" and i: "3 \<le> i" "i < length ms"
  proof -
    obtain zs where zs: "route N A B C f n = ms @ zs" using p by (auto simp: prefix_def)
    then have "length ms \<le> length (route N A B C f n)" by simp
    then have four: "length (route N A B C f n) = 4" "i = 3" using i \<open>length (route N A B C f n) \<le> 4\<close> by simp_all
    then have "set C = set N" using AB assms(3) by (auto simp: route_def split: if_splits)
    with AB assms(3) have "route N A B C f n ! 3 = sync_msg ''AllSubscribed''" by (simp add: route_def)
    with zs i four(2) show ?thesis by (simp add: nth_append)
  qed
qed

text \<open>Every step uses something up: a message that a node still gets, a message inside a node, or one that the central node still gets.\<close>

definition node_weight :: "'y system \<Rightarrow> 'y member \<Rightarrow> nat" where
  "node_weight s n = 6 * (4 - length (sy_got s (ident n))) + pending (sy_nodes s (ident n))"

definition weight :: "'y member list \<Rightarrow> 'y system \<Rightarrow> nat" where
  "weight N s = (\<Sum>n\<in>set N. node_weight s n) + (3 * length N - length (sy_inbox s))"

lemma weight_node:
  assumes "n \<in> set N" "node_weight s' n < node_weight s n" "\<And>m. m \<in> set N \<Longrightarrow> m \<noteq> n \<Longrightarrow> node_weight s' m = node_weight s m" "sy_inbox s' = sy_inbox s"
  shows "weight N s' < weight N s"
proof -
  have "(\<Sum>n\<in>set N. node_weight s' n) < (\<Sum>n\<in>set N. node_weight s n)"
    using assms(1-3) by (intro sum_strict_mono_ex1) (auto simp: le_less)
  with assms(4) show ?thesis by (simp add: weight_def)
qed

lemma other_ident: "distinct (map ident N) \<Longrightarrow> n \<in> set N \<Longrightarrow> m \<in> set N \<Longrightarrow> m \<noteq> n \<Longrightarrow> ident m \<noteq> ident n"
  by (auto simp: distinct_map inj_on_def)

lemma routed_route:
  assumes "system_ok y c N" "system_inv y ob off c N s"
  obtains A B C f where "stages N A B C" "sy_inbox s = system_inbox y A B C" "\<And>n. n \<in> set N \<Longrightarrow> routed_to y off c s n = route N A B C f n"
    "\<And>n p. n \<in> set N \<Longrightarrow> set B = set N \<Longrightarrow> p \<in> set (f n) \<Longrightarrow> \<exists>d\<in>set (snd (snd n)). p \<in> carriers_of (map (member_reg y) N) d"
    "set C = set N \<Longrightarrow> sv_status (initServiceThread y off c (sy_inbox s)) = Subscribing []"
proof -
  from assms(2) obtain A B C where st: "stages N A B C" "sy_inbox s = system_inbox y A B C" unfolding system_inv_def by blast
  show thesis
    by (rule central_routes[OF assms(1) stages_drop[OF st(1)], of off], rule that[OF st])
      (use st in \<open>auto simp: routed_to_def central_out_def\<close>)
qed

lemma thread_kept:
  assumes ok: "system_ok y c N" and inv: "system_inv y ob off c N s" and n: "n \<in> set N"
    and step: "thread_step y ob (sy_nodes s (ident n)) u" and s': "s' = s\<lparr>sy_nodes := (sy_nodes s)(ident n := u)\<rparr>"
  shows "system_inv y ob off c N s' \<and> weight N s' < weight N s"
proof
  have N: "distinct (map ident N)" using ok by (simp add: system_ok_def)
  have same: "routed_to y off c s' m = routed_to y off c s m" for m by (simp add: routed_to_def central_out_def s')
  have part: "node_part y ob off c s m" if "m \<in> set N" for m using inv that by (simp add: system_inv_def)
  have "node_part y ob off c s' m" if m: "m \<in> set N" for m
  proof (cases "m = n")
    case True
    with part[OF n] show ?thesis
      using node_inv_thread[OF _ step] prefix_order.trans[OF _ thread_sends[OF step]] by (simp add: node_part_def same) (simp add: s')
  next
    case False
    with part[OF m] other_ident[OF N n m] show ?thesis by (simp add: node_part_def same) (simp add: s')
  qed
  then show "system_inv y ob off c N s'" using inv by (simp add: system_inv_def s')
  show "weight N s' < weight N s"
    using other_ident[OF N n] thread_step_pending[OF step] by (intro weight_node[OF n]) (simp_all add: node_weight_def s')
qed

lemma delivery_kept:
  assumes ok: "system_ok y c N" and inv: "system_inv y ob off c N s" and n: "n \<in> set N"
    and new: "routed_to y off c s n = sy_got s (ident n) @ m # ms" and t: "t = sy_nodes s (ident n)"
    and s': "s' = s\<lparr>sy_nodes := (sy_nodes s)(ident n := t\<lparr>from_central := from_central t @ [m]\<rparr>), sy_got := (sy_got s)(ident n := sy_got s (ident n) @ [m])\<rparr>"
  shows "system_inv y ob off c N s' \<and> weight N s' < weight N s"
proof
  have N: "distinct (map ident N)" "N \<noteq> []" using ok by (simp_all add: system_ok_def)
  have same: "routed_to y off c s' x = routed_to y off c s x" for x by (simp add: routed_to_def central_out_def s')
  have part: "node_part y ob off c s x" if "x \<in> set N" for x using inv that by (simp add: system_inv_def)
  have "node_part y ob off c s' x" if x: "x \<in> set N" for x
  proof (cases "x = n")
    case True
    have "node_inv y ob (fst n) (sy_got s (ident n) @ [m]) 0 (t\<lparr>from_central := from_central t @ [m]\<rparr>)"
      using part[OF n] unfolding t by (auto simp: node_part_def elim!: node_invE intro: node_invI[OF node_inv_deliver])
    with True part[OF n] new show ?thesis unfolding node_part_def same by (simp add: s' t)
  next
    case False
    with part[OF x] other_ident[OF N(1) n x] show ?thesis by (simp add: node_part_def same) (simp add: s')
  qed
  then show "system_inv y ob off c N s'" using inv by (simp add: system_inv_def s')
  obtain A B C f where st: "stages N A B C" "routed_to y off c s n = route N A B C f n"
    using routed_route[OF ok inv, of thesis] n by blast
  from route_facts(1)[OF st(1) N(2) n, of f] new st(2) have "length (sy_got s (ident n)) < 4" by simp
  then have "node_weight s' n < node_weight s n" by (simp add: node_weight_def s' t pending_def)
  moreover have "node_weight s' x = node_weight s x" if "x \<in> set N" "x \<noteq> n" for x
    using other_ident[OF N(1) n that] by (simp add: node_weight_def s')
  ultimately show "weight N s' < weight N s" by (intro weight_node[OF n]) (simp_all add: s')
qed

lemma node_msgs_distinct [simp]: "req_msg y nd \<noteq> reg_msg y nd" "reg_msg y nd \<noteq> req_msg y nd"
  by (simp_all add: req_msg_def reg_msg_def)

lemma arrival_kept:
  assumes ok: "system_ok y c N" and inv: "system_inv y ob off c N s" and n: "n \<in> set N"
    and new: "to_central (sy_nodes s (ident n)) = from_node (ident n) (sy_inbox s) @ m # ms"
    and s': "s' = s\<lparr>sy_inbox := sy_inbox s @ [Msg (ident n # m)]\<rparr>"
  shows "system_inv y ob off c N s' \<and> weight N s' < weight N s"
proof -
  have N: "distinct (map ident N)" "N \<noteq> []" "list_all (member_ok y) N" using ok by (simp_all add: system_ok_def)
  have dN: "distinct N" "set N \<noteq> {}" using N by (simp_all add: distinct_map)
  have part: "node_part y ob off c s x" if "x \<in> set N" for x using inv that by (simp add: system_inv_def)
  obtain A B C f where st: "stages N A B C" and box: "sy_inbox s = system_inbox y A B C"
    and r: "\<And>x. x \<in> set N \<Longrightarrow> routed_to y off c s x = route N A B C f x" by (rule routed_route[OF ok inv]) blast
  note s = st[unfolded stages_def]
  have later: "n \<notin> set B \<Longrightarrow> C = []" "n \<notin> set A \<Longrightarrow> B = [] \<and> C = []" using s n dN(2) by auto
  have pre: "prefix (sy_got s (ident n)) (route N A B C f n)" and ninv: "node_inv y ob (fst n) (sy_got s (ident n)) 0 (sy_nodes s (ident n))"
    using part[OF n] r[OF n] by (simp_all add: node_part_def)
  have upto: "length (sy_got s (ident n)) \<le> length (route N A B C f n)" using pre by (rule prefix_length_le)
  from ninv obtain p j where sent: "to_central (sy_nodes s (ident n)) = reg_msg y (fst n) # (if p then [req_msg y (fst n)] else []) @
      (if j then [sync_msg ''subscribed''] else [])" "p \<Longrightarrow> 2 \<le> length (sy_got s (ident n))" "j \<Longrightarrow> p \<and> 3 \<le> length (sy_got s (ident n))"
    by (rule node_inv_sent) blast
  have p: "p \<Longrightarrow> set A = set N" and j: "j \<Longrightarrow> p \<and> set B = set N"
    using sent(2,3) upto route_facts(2,3)[OF st N(2) n, of f] by auto
  note eq = new[unfolded sent(1) box from_inbox[OF N(1,3) n st]]
  have "\<exists>A' B' C'. stages N A' B' C' \<and> sy_inbox s' = system_inbox y A' B' C' \<and> set A \<subseteq> set A' \<and> set B \<subseteq> set B' \<and> set C \<subseteq> set C' \<and>
      (set B = set N \<longrightarrow> A' = A \<and> B' = B)"
  proof -
    consider "n \<notin> set A" | "n \<in> set A" "n \<notin> set B" | "n \<in> set B" by blast
    then show ?thesis
    proof cases
      case 1
      with later have BC: "B = []" "C = []" "n \<notin> set B" "n \<notin> set C" by auto
      with 1 eq have m: "m = reg_msg y (fst n)" by simp
      have "stages N (A @ [n]) B C" using 1 s n BC by (auto simp: stages_def)
      moreover have "sy_inbox s' = system_inbox y (A @ [n]) B C" using BC m by (simp add: s' box inbox_snoc)
      ultimately show ?thesis using BC dN(2) by (intro exI[of _ "A @ [n]"] exI[of _ B] exI[of _ C]) auto
    next
      case 2
      with later have C: "C = []" "n \<notin> set C" by auto
      with 2 eq have m: "p \<and> m = req_msg y (fst n)" by (cases p; cases j) (use j in auto)
      have "stages N A (B @ [n]) C" using 2 s n C m p by (auto simp: stages_def)
      moreover have "sy_inbox s' = system_inbox y A (B @ [n]) C" using C m by (simp add: s' box inbox_snoc)
      ultimately show ?thesis using C 2 n by (intro exI[of _ A] exI[of _ "B @ [n]"] exI[of _ C]) auto
    next
      case 3
      with s have "set A = set N" by auto
      with 3 eq n have c: "n \<notin> set C" "j" "m = sync_msg ''subscribed''" by (cases p; cases j; cases "n \<in> set C"; use j in auto)+
      have "stages N A B (C @ [n])" using 3 s n c j by (auto simp: stages_def)
      moreover have "sy_inbox s' = system_inbox y A B (C @ [n])" using c by (simp add: s' box inbox_snoc)
      ultimately show ?thesis by (intro exI[of _ A] exI[of _ B] exI[of _ "C @ [n]"]) auto
    qed
  qed
  then obtain A' B' C' where st': "stages N A' B' C'" and box': "sy_inbox s' = system_inbox y A' B' C'"
    and sub: "set A \<subseteq> set A'" "set B \<subseteq> set B'" "set C \<subseteq> set C'" "set B = set N \<Longrightarrow> A' = A \<and> B' = B" by blast
  have "prefix (routed_to y off c s x) (routed_to y off c s' x)" if "x \<in> set N" for x
    using routed_grows[OF ok st st' that sub, of off] by (simp add: routed_to_def central_out_def box box')
  note grows = prefix_order.trans[OF _ this]
  have "node_part y ob off c s' x" if x: "x \<in> set N" for x
  proof -
    have "sy_got s' = sy_got s" "sy_nodes s' = sy_nodes s" by (simp_all add: s')
    moreover have "prefix (from_node (ident x) (sy_inbox s')) (to_central (sy_nodes s (ident x)))"
    proof (cases "x = n")
      case True
      with new show ?thesis by (simp add: s')
    next
      case False
      with part[OF x] other_ident[OF N(1) x n] show ?thesis by (auto simp: s' node_part_def)
    qed
    ultimately show ?thesis using part[OF x] grows[OF _ x] by (simp add: node_part_def)
  qed
  then have kept: "system_inv y ob off c N s'" unfolding system_inv_def using st' box' by blast
  have "length A' \<le> length N" "length B' \<le> length N" "length C' \<le> length N"
    using st' dN(1) by (auto simp: stages_def distinct_card[symmetric] intro: card_mono)
  then have "length (sy_inbox s') \<le> 3 * length N" by (simp add: box' length_inbox)
  then have "weight N s' < weight N s" by (simp add: weight_def node_weight_def s')
  with kept show ?thesis ..
qed

lemma system_step_kept:
  assumes "system_ok y c N" "system_inv y ob off c N s" "system_step y ob off c N s s'"
  shows "system_inv y ob off c N s' \<and> weight N s' < weight N s"
  using assms(3)
proof cases
  case thread
  with thread_kept[OF assms(1,2)] show ?thesis by blast
next
  case to_a_node
  with delivery_kept[OF assms(1,2)] show ?thesis by (simp add: routed_to_def)
next
  case to_the_centre
  with arrival_kept[OF assms(1,2)] show ?thesis by blast
qed

lemma system_start_inv:
  assumes "system_ok y c N" "system_start y N s"
  shows "system_inv y ob off c N s \<and> weight N s = 27 * length N"
proof
  have N: "list_all (member_ok y) N" "distinct N" using assms(1) by (simp_all add: system_ok_def distinct_map)
  have "node_inv y ob (fst n) [] 0 (node_boot y (fst n))" if "n \<in> set N" for n
    using N(1) that by (intro node_invI[OF node_inv_boot]) (auto simp: list_all_iff member_ok_def)
  then have "node_part y ob off c s n" if "n \<in> set N" for n using assms(2) that by (simp add: node_part_def system_start_def)
  moreover have "sy_inbox s = system_inbox y [] [] []" using assms(2) by (simp add: system_start_def system_inbox_def)
  ultimately show "system_inv y ob off c N s" unfolding system_inv_def using stages_start by blast
  have "node_weight s n = 24" if "n \<in> set N" for n
    using assms(2) that by (simp add: system_start_def node_weight_def pending_def node_boot_def)
  then have "(\<Sum>n\<in>set N. node_weight s n) = 24 * length N" using N(2) by (simp add: distinct_card)
  then show "weight N s = 27 * length N" using assms(2) by (simp add: weight_def system_start_def)
qed

lemma system_runs:
  assumes "system_ok y c N" "system_start y N s0" "(system_step y ob off c N ^^ k) s0 s"
  shows "system_inv y ob off c N s \<and> weight N s + k \<le> 27 * length N"
  using assms(3)
proof (induction k arbitrary: s)
  case 0
  with system_start_inv[OF assms(1,2), of ob off] show ?case by simp
next
  case (Suc k)
  then obtain u where "(system_step y ob off c N ^^ k) s0 u" "system_step y ob off c N u s" by auto
  with Suc.IH system_step_kept[OF assms(1), of ob off u s] show ?case by fastforce
qed

text \<open>A state in which nothing can happen is the end of the handshake.\<close>

lemma system_stuck:
  assumes ok: "system_ok y c N" and inv: "system_inv y ob off c N s" and stuck: "\<And>t. \<not> system_step y ob off c N s t"
  shows "sv_status (initServiceThread y off c (sy_inbox s)) = Subscribing [] \<and>
    (\<forall>n\<in>set N. \<exists>ans. sy_got s (ident n) = [[''connected''], sync_msg ''syncronization'', ans, sync_msg ''AllSubscribed''] \<and>
       s_phase (sy_nodes s (ident n)) = Serving \<and> quiescent y ob (sy_nodes s (ident n)) \<and>
       to_central (sy_nodes s (ident n)) = [reg_msg y (fst n), req_msg y (fst n), sync_msg ''subscribed''] \<and>
       n_subscriptions (s_node (sy_nodes s (ident n))) = ans \<and> topics (sy_nodes s (ident n)) = [CHR 0x00] # map ob ans \<and>
       (\<forall>p\<in>set ans. \<exists>d\<in>set (snd (snd n)). p \<in> carriers_of (map (member_reg y) N) d))"
proof -
  have N: "distinct (map ident N)" "N \<noteq> []" "list_all (member_ok y) N" using ok by (simp_all add: system_ok_def)
  obtain A B C f where st: "stages N A B C" and box: "sy_inbox s = system_inbox y A B C"
    and r: "\<And>n. n \<in> set N \<Longrightarrow> routed_to y off c s n = route N A B C f n"
    and good: "\<And>n p. n \<in> set N \<Longrightarrow> set B = set N \<Longrightarrow> p \<in> set (f n) \<Longrightarrow> \<exists>d\<in>set (snd (snd n)). p \<in> carriers_of (map (member_reg y) N) d"
    and final: "set C = set N \<Longrightarrow> sv_status (initServiceThread y off c (sy_inbox s)) = Subscribing []"
    by (rule routed_route[OF ok inv]) blast
  note s = st[unfolded stages_def]
  let ?t = "\<lambda>n. sy_nodes s (ident n)" and ?got = "\<lambda>n. sy_got s (ident n)"
  have part: "node_part y ob off c s n" if "n \<in> set N" for n using inv that by (simp add: system_inv_def)
  have got: "?got n = route N A B C f n" if n: "n \<in> set N" for n
  proof -
    obtain zs where zs: "route N A B C f n = ?got n @ zs" using part[OF n] r[OF n] by (auto simp: node_part_def prefix_def)
    have "zs = []"
    proof (rule ccontr)
      assume "zs \<noteq> []"
      then obtain m ms where "zs = m # ms" by (cases zs) auto
      with zs r[OF n] have "to_node (ident n) (central_out y off c s) = ?got n @ m # ms" by (simp add: routed_to_def)
      from system_step.to_a_node[OF n this HOL.refl] stuck show False by blast
    qed
    with zs show ?thesis by simp
  qed
  have sent: "to_central (?t n) = from_node (ident n) (sy_inbox s)" if n: "n \<in> set N" for n
  proof -
    obtain zs where zs: "to_central (?t n) = from_node (ident n) (sy_inbox s) @ zs" using part[OF n] by (auto simp: node_part_def prefix_def)
    have "zs = []"
    proof (rule ccontr)
      assume "zs \<noteq> []"
      then obtain m ms where "zs = m # ms" by (cases zs) auto
      with zs have "to_central (?t n) = from_node (ident n) (sy_inbox s) @ m # ms" by simp
      from system_step.to_the_centre[OF n this] stuck show False by blast
    qed
    with zs show ?thesis by simp
  qed
  have still: "quiescent y ob (?t n)" if n: "n \<in> set N" for n
  proof -
    note rf = route_facts(4,5)[OF st N(2) n, of "?got n" f]
    have "node_inv y ob (fst n) (?got n) 0 (?t n)" using part[OF n] by (simp add: node_part_def)
    then have "quiescent y ob (?t n) \<or> (\<exists>u. thread_step y ob (?t n) u)"
      by (rule node_inv_no_error) (use rf got[OF n] in auto)
    with system_step.thread[OF n] stuck show ?thesis by blast
  qed
  have inv_at: "\<exists>used a b d j. node_inv_at y ob (fst n) (?got n) used 0 a b d j (?t n)" if "n \<in> set N" for n
    using part[OF that] unfolding node_part_def node_inv_def by blast
  have A: "n \<in> set A" if n: "n \<in> set N" for n
  proof -
    have "to_central (?t n) \<noteq> []" using inv_at[OF n] by (auto simp: node_inv_at_def)
    then show ?thesis using sent[OF n] from_inbox[OF N(1,3) n st] box s n by (auto split: if_splits)
  qed
  then have setA: "set A = set N" using s by auto
  have B: "n \<in> set B" if n: "n \<in> set N" for n
  proof -
    obtain used a b d j where at: "node_inv_at y ob (fst n) (?got n) used 0 a b d j (?t n)" using inv_at[OF n] by blast
    have "length (?got n) \<ge> 2" using got[OF n] setA n by (simp add: route_def)
    then have "s_phase (?t n) = Await_answer \<or> s_phase (?t n) = Serving"
      using at quiescent_used(2)[OF at still[OF n]] by (cases "s_phase (?t n)") (auto simp: node_inv_at_def)
    with at have "req_msg y (fst n) \<in> set (to_central (?t n))" by (auto simp: node_inv_at_def)
    moreover have "n \<notin> set B \<Longrightarrow> C = []" using s n by auto
    ultimately show ?thesis using sent[OF n] from_inbox[OF N(1,3) n st] box by (auto simp: req_msg_def reg_msg_def split: if_splits)
  qed
  then have setB: "set B = set N" using s by auto
  have served: "s_phase (?t n) = Serving \<and> n_subscriptions (s_node (?t n)) = f n \<and> topics (?t n) = [CHR 0x00] # map ob (f n) \<and>
      to_central (?t n) = [reg_msg y (fst n), req_msg y (fst n), sync_msg ''subscribed'']" if n: "n \<in> set N" for n
  proof -
    obtain used a b d j where at: "node_inv_at y ob (fst n) (?got n) used 0 a b d j (?t n)" using inv_at[OF n] by blast
    have g: "length (?got n) \<ge> 3" "?got n ! 2 = f n" using got[OF n] setA setB n by (simp_all add: route_def)
    from quiescent_serving[OF at still[OF n] g(1)] g(2) show ?thesis by simp
  qed
  have "n \<in> set C" if n: "n \<in> set N" for n
  proof -
    have "length (to_central (?t n)) = 3" using served[OF n] by simp
    then show ?thesis unfolding sent[OF n] box from_inbox[OF N(1,3) n st] by (auto split: if_splits)
  qed
  then have setC: "set C = set N" using s by auto
  then have "?got n = [[''connected''], sync_msg ''syncronization'', f n, sync_msg ''AllSubscribed'']" if "n \<in> set N" for n
    using got[OF that] setA setB that by (simp add: route_def)
  with final[OF setC] served still good[OF _ setB] show ?thesis by blast
qed

section \<open>Properties\<close>

text \<open>
  C1. The central node and the nodes complete the handshake together.  Given as many nodes as the central node expects,
  with different identities, readable descriptions and every requested datum offered, the joint system (threads of the
  nodes move, messages are received only after they were sent, in any interleaving; no confirmation wait times out) makes
  at most 27 steps for each node, and where it stops the handshake is over: the central node has no client left to check;
  every node has received its confirmation, the phase, its answer and the notice that all subscribed, has sent
  its registration, its request and its report, is serving, and has subscribed to exactly the packets of its answer, each
  of which carries a datum that it requested.  In particular no node and the central node ever wait for each other.
\<close>
theorem system_handshake:
  assumes "system_ok y c N" and "system_start y N s0" and "(system_step y ob off c N ^^ k) s0 s"
  shows "k \<le> 27 * length N \<and>
    ((\<forall>t. \<not> system_step y ob off c N s t) \<longrightarrow>
      sv_status (initServiceThread y off c (sy_inbox s)) = Subscribing [] \<and>
      (\<forall>n\<in>set N. \<exists>ans. sy_got s (ident n) = [[''connected''], sync_msg ''syncronization'', ans, sync_msg ''AllSubscribed''] \<and>
         s_phase (sy_nodes s (ident n)) = Serving \<and> quiescent y ob (sy_nodes s (ident n)) \<and>
         to_central (sy_nodes s (ident n)) = [reg_msg y (fst n), req_msg y (fst n), sync_msg ''subscribed''] \<and>
         n_subscriptions (s_node (sy_nodes s (ident n))) = ans \<and> topics (sy_nodes s (ident n)) = [CHR 0x00] # map ob ans \<and>
         (\<forall>p\<in>set ans. \<exists>d\<in>set (snd (snd n)). p \<in> carriers_of (map (member_reg y) N) d)))"
  using system_runs[OF assms] system_stuck[OF assms(1), of ob off s] by fastforce

text \<open>
  With neither configuration file readable the two sides use different addresses: the
  port of a node lacks its colon, so it connects to a host name that is not the
  address on which the central node listens.
\<close>
theorem default_addresses_differ:
  assumes "\<forall>f. \<exists>e. y_load_file y f = Inl e"
  shows "service_address (Node_new y name) = ''tcp://127.0.0.15555'' \<and>
    getUrl (Central_new y) = ''tcp://127.0.0.1:5555'' \<and>
    service_address (Node_new y name) \<noteq> getUrl (Central_new y)"
proof -
  obtain e where "y_load_file y ''C:/Users/pagliani/source/repos/ComuFrame/Config/Central.yaml'' = Inl e"
    using assms by blast
  moreover obtain e' where "y_load_file y (''C:/Users/pagliani/source/repos/ComuFrame/Config/'' @ name @ ''.yaml'') = Inl e'"
    using assms by blast
  ultimately show ?thesis
    by (simp add: service_address_def Node_new_def node_default_def getUrl_def Central_new_def central_config_def)
qed

theorem default_addresses_differ_witness:
  "service_address (Node_new text_yaml ''n1'') \<noteq> getUrl (Central_new text_yaml)"
  using default_addresses_differ[of text_yaml "''n1''"] by (simp add: text_yaml_def)

definition demo_members :: "doc member list" where
  "demo_members =
     [((node_default ''n1'' (Packs [(''P1'', [(''speed'', ''int'')])]) (Table [(''speed'', ''int'')])),
        [(''P1'', [(''speed'', ''int'')])], [''speed_int'']),
      ((node_default ''n2'' (Packs []) (Table [(''speed'', ''int'')])), [], [''speed_int''])]"

lemma c_str_texts: "c_str ''offer'' = ''offer''" "c_str ''none'' = ''none''" "c_str ''want'' = ''want''"
  by (simp_all add: c_str_def)


definition demo_start :: "doc system" where
  "demo_start = \<lparr>sy_inbox = [], sy_nodes = (\<lambda>w. node_boot doc_yaml (fst (if w = ''n1'' then demo_members ! 0 else demo_members ! 1))), sy_got = (\<lambda>w. [])\<rparr>"

lemma bounded_runs_end:
  assumes "\<And>k s. (R ^^ k) s0 s \<Longrightarrow> k \<le> most"
  obtains k s where "(R ^^ k) s0 s" "\<And>t. \<not> R s t"
proof -
  have "\<exists>k s. (R ^^ k) s0 s \<and> (\<forall>t. \<not> R s t)" if "(R ^^ k) s0 s" for k s
    using that
  proof (induction "Suc most - k" arbitrary: k s)
    case 0
    with assms[OF 0(2)] show ?case by simp
  next
    case (Suc n)
    show ?case
    proof (cases "\<exists>t. R s t")
      case True
      then obtain t where "R s t" ..
      with Suc.prems have t: "(R ^^ Suc k) s0 t" by auto
      from Suc.hyps(2) have "n = Suc most - Suc k" by simp
      from Suc.hyps(1)[OF this t] show ?thesis .
    next
      case False
      with Suc.prems show ?thesis by blast
    qed
  qed
  from this[of 0 s0] that show thesis by auto
qed

text \<open>The two nodes of the example run to the end.\<close>

theorem system_handshake_witness:
  "\<exists>k s. (system_step doc_yaml id None two_clients demo_members ^^ k) demo_start s \<and>
     sv_status (initServiceThread doc_yaml None two_clients (sy_inbox s)) = Subscribing [] \<and>
     s_phase (sy_nodes s ''n1'') = Serving \<and> s_phase (sy_nodes s ''n2'') = Serving"
proof -
  have "list_all (member_ok doc_yaml) demo_members"
    by (simp add: demo_members_def member_ok_def node_fresh_def node_default_def no_null_def c_str_texts demo_defs)
  moreover have "\<forall>n\<in>set demo_members. \<forall>d\<in>set (snd (snd n)).
      carriers_of (map (member_reg doc_yaml) demo_members) d \<noteq> {}"
    by (simp add: demo_members_def member_reg_def carriers_of_def declared_def data_key_def)
  moreover have "distinct (map ident demo_members)" "demo_members \<noteq> []" "length demo_members = 2"
    by (simp_all add: demo_members_def node_default_def)
  ultimately have ok: "system_ok doc_yaml two_clients demo_members" by (simp add: system_ok_def)
  have start: "system_start doc_yaml demo_members demo_start"
    by (simp add: system_start_def demo_start_def demo_members_def node_default_def)
  have ids: "''n1'' \<in> ident ` set demo_members" "''n2'' \<in> ident ` set demo_members"
    by (simp_all add: demo_members_def node_default_def)
  note run = system_handshake[OF ok start, where ob = id and off = None]
  obtain k s where ks: "(system_step doc_yaml id None two_clients demo_members ^^ k) demo_start s"
    and stuck: "\<And>t. \<not> system_step doc_yaml id None two_clients demo_members s t"
    by (rule bounded_runs_end[of "system_step doc_yaml id None two_clients demo_members" demo_start "27 * length demo_members"]) (use run in blast)+
  from run[OF ks] stuck have "sv_status (initServiceThread doc_yaml None two_clients (sy_inbox s)) = Subscribing [] \<and>
    (\<forall>w\<in>ident ` set demo_members. s_phase (sy_nodes s w) = Serving)" by blast
  with ids ks show ?thesis by blast
qed

end
