(* ===== verification/Codec.thy ===== *)
theory Codec
  imports Wire
begin

text \<open>
  The framing of messages on a connection: \<^verbatim>\<open>encoder.hpp\<close>, \<^verbatim>\<open>decoder.hpp\<close>, the three
  encoders (\<^verbatim>\<open>v1_encoder.cpp\<close>, \<^verbatim>\<open>v2_encoder.cpp\<close>, \<^verbatim>\<open>v3_1_encoder.cpp\<close>), the two decoders
  (\<^verbatim>\<open>v1_decoder.cpp\<close>, \<^verbatim>\<open>v2_decoder.cpp\<close>) and the input loop of
  \<^verbatim>\<open>stream_engine_base.cpp\<close>.  The bytes to which \<^verbatim>\<open>_write_pos\<close> points, and those collected behind
  \<^verbatim>\<open>_read_pos\<close>, are lists.  Whether an allocation succeeds is the parameter
  \<open>alloc\<close>.
\<close>

unbundle bit_operations_syntax

section \<open>Messages\<close>

record wmsg =
  w_flags :: byte
  w_data :: "byte list"

definition msg_more :: byte where "msg_more = 1"
definition msg_command :: byte where "msg_command = 2"
definition CMD_TYPE_MASK :: byte where "CMD_TYPE_MASK = 0x1c"

definition is_subscribe :: "wmsg \<Rightarrow> bool" where
  "is_subscribe m \<longleftrightarrow> w_flags m AND CMD_TYPE_MASK = 12"

definition is_cancel :: "wmsg \<Rightarrow> bool" where
  "is_cancel m \<longleftrightarrow> w_flags m AND CMD_TYPE_MASK = 16"

definition sub_cmd_name :: "byte list" where
  "sub_cmd_name = [9, 83, 85, 66, 83, 67, 82, 73, 66, 69]"

definition cancel_cmd_name :: "byte list" where
  "cancel_cmd_name = [6, 67, 65, 78, 67, 69, 76]"

section \<open>Headers\<close>

text \<open>The contents of the temporary buffer after \<^verbatim>\<open>message_ready\<close>.\<close>

definition sub_byte :: "wmsg \<Rightarrow> byte list" where
  "sub_byte m = (if is_subscribe m then [1] else if is_cancel m then [0] else [])"

definition v1_message_ready :: "wmsg \<Rightarrow> byte list" where
  "v1_message_ready m =
     (let size = length (w_data m) + 1 + (if is_subscribe m \<or> is_cancel m then 1 else 0) in
      (if size < 255 then [of_nat size, w_flags m AND msg_more]
       else 255 # put_uint64 (of_nat size) @ [w_flags m AND msg_more]) @ sub_byte m)"

definition v2_message_ready :: "wmsg \<Rightarrow> byte list" where
  "v2_message_ready m =
     (let size = length (w_data m);
          f1 = (if w_flags m AND msg_more \<noteq> 0 then 1 else 0);
          f2 = (if size > 255 then f1 OR 2 else f1);
          protocol_flags = (if w_flags m AND msg_command \<noteq> 0 then f2 OR 4 else f2);
          size = (if is_subscribe m \<or> is_cancel m then size + 1 else size)
      in (if size > 255 then protocol_flags # put_uint64 (of_nat size)
          else [protocol_flags, of_nat size]) @ sub_byte m)"

definition v3_1_message_ready :: "wmsg \<Rightarrow> byte list" where
  "v3_1_message_ready m =
     (let size = length (w_data m);
          f1 = (if w_flags m AND msg_more \<noteq> 0 then 1 else 0);
          f2 = (if size > 255 then f1 OR 2 else f1);
          cmd = (w_flags m AND msg_command \<noteq> 0 \<or> is_subscribe m \<or> is_cancel m);
          protocol_flags = (if cmd then f2 OR 4 else f2);
          size = (if cmd then (if is_subscribe m then size + length sub_cmd_name
                               else if is_cancel m then size + length cancel_cmd_name else size)
                  else size)
      in (if size > 255 then protocol_flags # put_uint64 (of_nat size)
          else [protocol_flags, of_nat size]) @
         (if is_subscribe m then sub_cmd_name else if is_cancel m then cancel_cmd_name else []))"

datatype proto = V1 | V2 | V3_1

fun header :: "proto \<Rightarrow> wmsg \<Rightarrow> byte list" where
  "header V1 m = v1_message_ready m"
| "header V2 m = v2_message_ready m"
| "header V3_1 m = v3_1_message_ready m"

lemma header_nonempty: "header p m \<noteq> []"
  by (cases p) (simp_all add: v1_message_ready_def v2_message_ready_def v3_1_message_ready_def Let_def)

section \<open>The encoder\<close>

datatype estep = E_message_ready | E_size_ready

record encoder =
  e_write :: "byte list"     \<comment> \<open>\<^verbatim>\<open>_write_pos\<close>, \<^verbatim>\<open>_to_write\<close>\<close>
  e_next :: estep
  e_new_msg :: bool
  e_msg :: "wmsg option"     \<comment> \<open>\<^verbatim>\<open>_in_progress\<close>\<close>

definition encoder_new :: encoder where
  "encoder_new = \<lparr>e_write = [], e_next = E_message_ready, e_new_msg = True, e_msg = None\<rparr>"

definition e_next_step :: "byte list \<Rightarrow> estep \<Rightarrow> bool \<Rightarrow> encoder \<Rightarrow> encoder" where
  "e_next_step write nx new_msg_flag e = e\<lparr>e_write := write, e_next := nx, e_new_msg := new_msg_flag\<rparr>"

definition e_run :: "proto \<Rightarrow> wmsg \<Rightarrow> encoder \<Rightarrow> encoder" where
  "e_run p m e = (case e_next e of
      E_message_ready \<Rightarrow> e_next_step (header p m) E_size_ready False e
    | E_size_ready \<Rightarrow> e_next_step (w_data m) E_message_ready True e)"

definition load_msg :: "proto \<Rightarrow> wmsg \<Rightarrow> encoder \<Rightarrow> encoder result" where
  "load_msg p m e = (if e_msg e \<noteq> None then Inl Assertion else Inr (e_run p m (e\<lparr>e_msg := Some m\<rparr>)))"

text \<open>
  The loop of \<^verbatim>\<open>encode\<close>: \<open>own\<close> says that no buffer was supplied, \<open>out\<close> is what is already in
  the buffer.
\<close>

function encode_loop :: "proto \<Rightarrow> wmsg \<Rightarrow> bool \<Rightarrow> nat \<Rightarrow> byte list \<Rightarrow> encoder \<Rightarrow> byte list \<times> encoder" where
  "encode_loop p m own buffersize out e =
     (if length out < buffersize then
        if e_write e = [] \<and> e_new_msg e then (out, e\<lparr>e_msg := None\<rparr>)
        else let e1 = (if e_write e = [] then e_run p m e else e) in
          if out = [] \<and> own \<and> length (e_write e1) \<ge> buffersize then (e_write e1, e1\<lparr>e_write := []\<rparr>)
          else let to_copy = min (length (e_write e1)) (buffersize - length out) in
            encode_loop p m own buffersize (out @ take to_copy (e_write e1))
              (e1\<lparr>e_write := drop to_copy (e_write e1)\<rparr>)
      else (out, e))"
  by pat_completeness auto
termination
proof (relation "measures [\<lambda>(p, m, own, n, out, e). n - length out,
                           \<lambda>(p, m, own, n, out, e). if e_new_msg e then 0 else 1]", goal_cases)
  case 1
  then show ?case by simp
next
  case (2 p m own n out e e1 to_copy)
  show ?case
  proof (cases "e_write e1 = []")
    case False
    with 2(1,5) have "0 < to_copy" "to_copy \<le> length (e_write e1)" by simp_all
    then have "n - length (out @ take to_copy (e_write e1)) < n - length out" using 2(1) by simp
    then show ?thesis by (intro measures_less) simp
  next
    case True
    with 2 have "e_write e = []" "\<not> e_new_msg e" by (auto split: if_splits)
    with True 2 have "e_next e = E_size_ready" "e_new_msg e1"
      using header_nonempty[of p m]
      by (auto simp: e_run_def e_next_step_def split: estep.splits)
    with 2 True \<open>\<not> e_new_msg e\<close> show ?thesis by simp
  qed
qed

declare encode_loop.simps [simp del]

definition encode :: "proto \<Rightarrow> bool \<Rightarrow> nat \<Rightarrow> encoder \<Rightarrow> byte list \<times> encoder" where
  "encode p own buffersize e =
     (case e_msg e of None \<Rightarrow> ([], e) | Some m \<Rightarrow> encode_loop p m own buffersize [] e)"

section \<open>The decoders\<close>

datatype dstep = V1_one_byte_size_ready | V1_eight_byte_size_ready | V1_flags_ready | V1_message_ready
  | V2_flags_ready | V2_one_byte_size_ready | V2_eight_byte_size_ready | V2_message_ready

datatype derror = EPROTO | EMSGSIZE | ENOMEM

datatype drc = Go_on | Complete | Error derror

record decoder =
  d_next :: dstep
  d_read :: "byte list"      \<comment> \<open>the bytes collected for the current step\<close>
  d_to_read :: nat
  d_msg_flags :: byte
  d_size :: nat              \<comment> \<open>the size of the message in progress\<close>
  d_in_flags :: byte         \<comment> \<open>its flags\<close>
  d_body :: "byte list"      \<comment> \<open>its data, once complete\<close>
  d_max :: int               \<comment> \<open>\<^verbatim>\<open>_max_msg_size\<close>\<close>

definition v1_decoder_new :: "int \<Rightarrow> decoder" where
  "v1_decoder_new mx = \<lparr>d_next = V1_one_byte_size_ready, d_read = [], d_to_read = 1, d_msg_flags = 0,
     d_size = 0, d_in_flags = 0, d_body = [], d_max = mx\<rparr>"

definition v2_decoder_new :: "int \<Rightarrow> decoder" where
  "v2_decoder_new mx = \<lparr>d_next = V2_flags_ready, d_read = [], d_to_read = 1, d_msg_flags = 0,
     d_size = 0, d_in_flags = 0, d_body = [], d_max = mx\<rparr>"

definition d_next_step :: "nat \<Rightarrow> dstep \<Rightarrow> decoder \<Rightarrow> decoder" where
  "d_next_step to_read nx d = d\<lparr>d_read := [], d_to_read := to_read, d_next := nx\<rparr>"

definition v1_one_byte_size :: "(nat \<Rightarrow> bool) \<Rightarrow> decoder \<Rightarrow> drc \<times> decoder" where
  "v1_one_byte_size alloc d =
     (let b = hd (d_read d) in
      if b = 255 then (Go_on, d_next_step 8 V1_eight_byte_size_ready d)
      else if b = 0 then (Error EPROTO, d)
      else if d_max d \<ge> 0 \<and> int (unat b - 1) > d_max d then (Error EMSGSIZE, d)
      else if \<not> alloc (unat b - 1) then (Error ENOMEM, d\<lparr>d_size := 0, d_in_flags := 0\<rparr>)
      else (Go_on, d_next_step 1 V1_flags_ready (d\<lparr>d_size := unat b - 1, d_in_flags := 0\<rparr>)))"

definition v1_eight_byte_size :: "(nat \<Rightarrow> bool) \<Rightarrow> decoder \<Rightarrow> drc \<times> decoder" where
  "v1_eight_byte_size alloc d =
     (let payload_length = get_uint64 (d_read d) in
      if payload_length = 0 then (Error EPROTO, d)
      else if d_max d \<ge> 0 \<and> int (unat (payload_length - 1)) > d_max d then (Error EMSGSIZE, d)
      else let msg_size = unat (payload_length - 1) in
        if \<not> alloc msg_size then (Error ENOMEM, d\<lparr>d_size := 0, d_in_flags := 0\<rparr>)
        else (Go_on, d_next_step 1 V1_flags_ready (d\<lparr>d_size := msg_size, d_in_flags := 0\<rparr>)))"

definition v1_flags :: "decoder \<Rightarrow> drc \<times> decoder" where
  "v1_flags d =
     (Go_on, d_next_step (d_size d) V1_message_ready (d\<lparr>d_in_flags := d_in_flags d OR (hd (d_read d) AND msg_more)\<rparr>))"

definition v2_flags :: "decoder \<Rightarrow> drc \<times> decoder" where
  "v2_flags d =
     (let b = hd (d_read d);
          f1 = (if b AND 1 \<noteq> 0 then msg_more else 0);
          f2 = (if b AND 4 \<noteq> 0 then f1 OR msg_command else f1);
          d1 = d\<lparr>d_msg_flags := f2\<rparr>
      in (Go_on, if b AND 2 \<noteq> 0 then d_next_step 8 V2_eight_byte_size_ready d1
                 else d_next_step 1 V2_one_byte_size_ready d1))"

definition v2_size_ready :: "(nat \<Rightarrow> bool) \<Rightarrow> u64 \<Rightarrow> decoder \<Rightarrow> drc \<times> decoder" where
  "v2_size_ready alloc msg_size d =
     (if d_max d \<ge> 0 \<and> int (unat msg_size) > d_max d then (Error EMSGSIZE, d)
      else if \<not> alloc (unat msg_size) then (Error ENOMEM, d\<lparr>d_size := 0, d_in_flags := 0\<rparr>)
      else (Go_on, d_next_step (unat msg_size) V2_message_ready
                     (d\<lparr>d_size := unat msg_size, d_in_flags := d_msg_flags d\<rparr>)))"

text \<open>One call of \<^verbatim>\<open>_next\<close>; a complete message stays readable in \<open>d_msg\<close>.\<close>

definition d_run :: "(nat \<Rightarrow> bool) \<Rightarrow> decoder \<Rightarrow> drc \<times> decoder" where
  "d_run alloc d = (case d_next d of
      V1_one_byte_size_ready \<Rightarrow> v1_one_byte_size alloc d
    | V1_eight_byte_size_ready \<Rightarrow> v1_eight_byte_size alloc d
    | V1_flags_ready \<Rightarrow> v1_flags d
    | V1_message_ready \<Rightarrow> (Complete, d_next_step 1 V1_one_byte_size_ready (d\<lparr>d_body := d_read d\<rparr>))
    | V2_flags_ready \<Rightarrow> v2_flags d
    | V2_one_byte_size_ready \<Rightarrow> v2_size_ready alloc (ucast (hd (d_read d))) d
    | V2_eight_byte_size_ready \<Rightarrow> v2_size_ready alloc (get_uint64 (d_read d)) d
    | V2_message_ready \<Rightarrow> (Complete, d_next_step 1 V2_flags_ready (d\<lparr>d_body := d_read d\<rparr>)))"

definition d_msg :: "decoder \<Rightarrow> wmsg" where
  "d_msg d = \<lparr>w_flags = d_in_flags d, w_data = d_body d\<rparr>"

text \<open>The inner loop of \<^verbatim>\<open>decode\<close>: run steps until data are needed or one of them ends the call.\<close>

definition message_step :: "dstep \<Rightarrow> bool" where
  "message_step s \<longleftrightarrow> s = V1_message_ready \<or> s = V2_message_ready"

lemmas d_step_defs = d_run_def v1_one_byte_size_def v1_eight_byte_size_def v1_flags_def v2_flags_def
  v2_size_ready_def d_next_step_def

lemma d_run_Go_on:
  "d_run alloc d = (Go_on, d') \<Longrightarrow> d_to_read d' = 0 \<Longrightarrow> message_step (d_next d') \<and> \<not> message_step (d_next d)"
  by (auto simp: d_step_defs Let_def message_step_def split: dstep.splits if_splits)

function drain :: "(nat \<Rightarrow> bool) \<Rightarrow> decoder \<Rightarrow> drc \<times> decoder" where
  "drain alloc d =
     (if d_to_read d = 0 then
        (case d_run alloc d of (Go_on, d') \<Rightarrow> drain alloc d' | (rc, d') \<Rightarrow> (rc, d'))
      else (Go_on, d))"
  by pat_completeness auto
termination
proof (relation "measures [\<lambda>(alloc, d). if d_to_read d = 0 then 1 else 0,
                           \<lambda>(alloc, d). if message_step (d_next d) then 0 else 1]", goal_cases)
  case 1
  then show ?case by simp
next
  case (2 alloc d x y)
  then show ?case using d_run_Go_on[of alloc d y] by (cases "d_to_read y = 0") auto
qed

declare drain.simps [simp del]

lemma drain_Go_on: "drain alloc d = (Go_on, d') \<Longrightarrow> d_to_read d' \<noteq> 0"
  by (induction alloc d rule: drain.induct) (auto simp: drain.simps split: if_splits prod.splits drc.splits)

definition absorb :: "byte list \<Rightarrow> decoder \<Rightarrow> decoder" where
  "absorb xs d = d\<lparr>d_read := d_read d @ xs, d_to_read := d_to_read d - length xs\<rparr>"

text \<open>The outer loop, over the data not yet used: result, what is left of the data, decoder.\<close>

function decode_loop :: "(nat \<Rightarrow> bool) \<Rightarrow> byte list \<Rightarrow> decoder \<Rightarrow> drc \<times> byte list \<times> decoder" where
  "decode_loop alloc data d =
     (if data = [] then (Go_on, [], d)
      else let to_copy = min (d_to_read d) (length data) in
        (case drain alloc (absorb (take to_copy data) d) of
           (Go_on, d') \<Rightarrow> decode_loop alloc (drop to_copy data) d'
         | (rc, d') \<Rightarrow> (rc, drop to_copy data, d')))"
  by pat_completeness auto
termination
proof (relation "measures [\<lambda>(alloc, data, d). length data,
                           \<lambda>(alloc, data, d). if d_to_read d = 0 then 1 else 0]", goal_cases)
  case 1
  then show ?case by simp
next
  case (2 alloc data d to_copy x y)
  then have "d_to_read y \<noteq> 0" using drain_Go_on[of alloc] by metis
  with 2 show ?case by (cases "d_to_read d = 0") auto
qed

declare decode_loop.simps [simp del]

text \<open>
  \<open>same\<close> is the zero-copy case, in which the caller filled the buffer behind \<^verbatim>\<open>_read_pos\<close>
  directly.
\<close>

definition decode :: "(nat \<Rightarrow> bool) \<Rightarrow> bool \<Rightarrow> byte list \<Rightarrow> decoder \<Rightarrow> (drc \<times> byte list \<times> decoder) result" where
  "decode alloc same data d =
     (if same then
        if length data > d_to_read d then Inl Assertion
        else Inr (case drain alloc (absorb data d) of (rc, d') \<Rightarrow> (rc, [], d'))
      else Inr (decode_loop alloc data d))"

section \<open>The input loop of the engine\<close>

text \<open>
  What the engine makes of the bytes of one read: the messages, and the decoder or the error
  that ends the connection.  The session accepts every message.
\<close>

lemma d_run_Complete: "d_run alloc d = (Complete, d') \<Longrightarrow> d_to_read d' = 1"
  by (auto simp: d_step_defs Let_def split: dstep.splits if_splits)

lemma drain_Complete: "drain alloc d = (Complete, d') \<Longrightarrow> d_to_read d' = 1"
proof (induction alloc d rule: drain.induct)
  case (1 alloc d)
  from "1.prems"[unfolded drain.simps[of alloc d]] "1.IH" show ?case
    by (auto dest: d_run_Complete split: if_splits prod.splits drc.splits)
qed

lemma decode_loop_Complete:
  "decode_loop alloc data d = (Complete, rest, d') \<Longrightarrow>
   d_to_read d' = 1 \<and> length rest \<le> length data \<and> (d_to_read d \<noteq> 0 \<longrightarrow> length rest < length data)"
proof (induction alloc data d rule: decode_loop.induct)
  case (1 alloc data d)
  let ?n = "min (d_to_read d) (length data)"
  from "1.prems" have ne: "data \<noteq> []" by (auto simp: decode_loop.simps)
  obtain rc d1 where d1: "drain alloc (absorb (take ?n data) d) = (rc, d1)" by fastforce
  show ?case
  proof (cases rc)
    case Go_on
    with d1 ne "1.prems" have "decode_loop alloc (drop ?n data) d1 = (Complete, rest, d')"
      by (subst (asm) decode_loop.simps) (simp add: Let_def)
    from "1.IH"[OF ne refl d1[symmetric] Go_on this] drain_Go_on[OF d1[unfolded Go_on]] show ?thesis by auto
  next
    case Complete
    with d1 ne "1.prems" have "rest = drop ?n data" "d' = d1"
      by (subst (asm) decode_loop.simps, simp add: Let_def)+
    with drain_Complete[OF d1[unfolded Complete]] ne show ?thesis by auto
  next
    case (Error e)
    with d1 ne "1.prems" show ?thesis by (subst (asm) decode_loop.simps) (simp add: Let_def)
  qed
qed

function in_loop :: "(nat \<Rightarrow> bool) \<Rightarrow> byte list \<Rightarrow> decoder \<Rightarrow> wmsg list \<times> (derror + decoder)" where
  "in_loop alloc data d =
     (if data = [] then ([], Inr d)
      else case decode_loop alloc data d of
          (Go_on, rest, d') \<Rightarrow> ([], Inr d')
        | (Error e, rest, d') \<Rightarrow> ([], Inl e)
        | (Complete, rest, d') \<Rightarrow> let (ms, r) = in_loop alloc rest d' in (d_msg d' # ms, r))"
  by pat_completeness auto
termination
proof (relation "measures [\<lambda>(alloc, data, d). length data,
                           \<lambda>(alloc, data, d). if d_to_read d = 0 then 1 else 0]", goal_cases)
  case 1
  then show ?case by simp
next
  case (2 alloc data d x y rest d')
  then have "decode_loop alloc data d = (Complete, rest, d')" by simp
  from decode_loop_Complete[OF this] show ?case by (cases "d_to_read d = 0") auto
qed

declare in_loop.simps [simp del]

section \<open>Streams\<close>

lemma drain_waiting: "d_to_read d \<noteq> 0 \<Longrightarrow> drain alloc d = (Go_on, d)"
  by (simp add: drain.simps)

lemma absorb_absorb: "absorb ys (absorb xs d) = absorb (xs @ ys) d"
  by (simp add: absorb_def)

lemma absorb_to_read [simp]: "d_to_read (absorb xs d) = d_to_read d - length xs"
  by (simp add: absorb_def)

text \<open>What follows after one step's bytes are complete.\<close>

definition after :: "(nat \<Rightarrow> bool) \<Rightarrow> byte list \<Rightarrow> drc \<times> decoder \<Rightarrow> wmsg list \<times> (derror + decoder)" where
  "after alloc rest r = (case r of
      (Go_on, d) \<Rightarrow> in_loop alloc rest d
    | (Complete, d) \<Rightarrow> (d_msg d # fst (in_loop alloc rest d), snd (in_loop alloc rest d))
    | (Error e, d) \<Rightarrow> ([], Inl e))"

lemma in_loop_Nil [simp]: "in_loop alloc [] d = ([], Inr d)"
  by (simp add: in_loop.simps)

lemma in_loop_block:
  assumes "length xs = d_to_read d" "d_to_read d \<noteq> 0"
  shows "in_loop alloc (xs @ ys) d = after alloc ys (drain alloc (absorb xs d))"
proof -
  have ne: "xs @ ys \<noteq> []" using assms by auto
  obtain rc d1 where d1: "drain alloc (absorb xs d) = (rc, d1)" by fastforce
  have dl: "decode_loop alloc (xs @ ys) d =
      (case rc of Go_on \<Rightarrow> decode_loop alloc ys d1 | _ \<Rightarrow> (rc, ys, d1))"
    using assms ne d1 by (subst decode_loop.simps) (auto simp: min_def split: drc.splits)
  show ?thesis
  proof (cases rc)
    case Go_on
    show ?thesis
    proof (cases "ys = []")
      case True
      then show ?thesis using dl Go_on d1 ne by (subst in_loop.simps) (simp add: after_def decode_loop.simps)
    next
      case False
      then show ?thesis using dl Go_on d1 ne
        by (subst in_loop.simps) (simp add: after_def in_loop.simps[of alloc ys])
    qed
  next
    case Complete
    then show ?thesis using dl d1 ne
      by (subst in_loop.simps) (simp add: after_def split: prod.splits)
  next
    case (Error e)
    then show ?thesis using dl d1 ne by (subst in_loop.simps) (simp add: after_def)
  qed
qed

lemma in_loop_partial:
  assumes "length xs < d_to_read d"
  shows "in_loop alloc xs d = ([], Inr (absorb xs d))"
proof (cases "xs = []")
  case True
  then show ?thesis by (simp add: absorb_def)
next
  case False
  have "decode_loop alloc xs d = (Go_on, [], absorb xs d)"
    using assms False by (subst decode_loop.simps) (simp add: drain_waiting min_def decode_loop.simps)
  then show ?thesis using False by (subst in_loop.simps) simp
qed

lemma in_loop_absorb:
  assumes "length xs < d_to_read d"
  shows "in_loop alloc ys (absorb xs d) = in_loop alloc (xs @ ys) d"
proof (cases "length (xs @ ys) < d_to_read d")
  case True
  then show ?thesis using assms by (simp add: in_loop_partial absorb_absorb)
next
  case False
  let ?n = "d_to_read d - length xs"
  let ?a = "take ?n ys" and ?b = "drop ?n ys"
  have len: "length ?a = ?n" using False by simp
  have "in_loop alloc (?a @ ?b) (absorb xs d) = after alloc ?b (drain alloc (absorb ?a (absorb xs d)))"
    using len assms by (intro in_loop_block) simp_all
  moreover have "in_loop alloc ((xs @ ?a) @ ?b) d = after alloc ?b (drain alloc (absorb (xs @ ?a) d))"
    using len assms by (intro in_loop_block) auto
  ultimately show ?thesis by (simp add: absorb_absorb)
qed

definition continue :: "(nat \<Rightarrow> bool) \<Rightarrow> byte list \<Rightarrow> wmsg list \<times> (derror + decoder) \<Rightarrow> wmsg list \<times> (derror + decoder)" where
  "continue alloc ys s = (case s of
      (ms, Inl e) \<Rightarrow> (ms, Inl e)
    | (ms, Inr d) \<Rightarrow> (ms @ fst (in_loop alloc ys d), snd (in_loop alloc ys d)))"

lemma in_loop_append:
  "d_to_read d \<noteq> 0 \<Longrightarrow> in_loop alloc (xs @ ys) d = continue alloc ys (in_loop alloc xs d)"
proof (induction "length xs" arbitrary: xs d rule: less_induct)
  case less
  show ?case
  proof (cases "length xs < d_to_read d")
    case True
    then show ?thesis by (simp add: in_loop_partial continue_def in_loop_absorb)
  next
    case False
    let ?a = "take (d_to_read d) xs" and ?b = "drop (d_to_read d) xs"
    have len: "length ?a = d_to_read d" using False by simp
    have shorter: "length ?b < length xs" using False less.prems by simp
    obtain rc d1 where d1: "drain alloc (absorb ?a d) = (rc, d1)" by fastforce
    have "xs @ ys = ?a @ ?b @ ys" by simp
    then have 1: "in_loop alloc (xs @ ys) d = after alloc (?b @ ys) (rc, d1)"
      using in_loop_block[OF len less.prems, of alloc "?b @ ys"] d1 by metis
    have 2: "in_loop alloc xs d = after alloc ?b (rc, d1)"
      using in_loop_block[of ?a d alloc ?b] len less.prems d1 by simp
    show ?thesis
    proof (cases rc)
      case Go_on
      then have "d_to_read d1 \<noteq> 0" using drain_Go_on d1 by metis
      from less.hyps[OF shorter this] show ?thesis unfolding 1 2 Go_on by (simp add: after_def)
    next
      case Complete
      then have "d_to_read d1 \<noteq> 0" using drain_Complete d1 by fastforce
      from less.hyps[OF shorter this] show ?thesis unfolding 1 2 Complete
        by (auto simp: after_def continue_def split: prod.splits sum.splits)
    next
      case (Error e)
      then show ?thesis unfolding 1 2 by (simp add: after_def continue_def)
    qed
  qed
qed

text \<open>The decoder that a sequence of reads leaves waits for data again.\<close>

lemma in_loop_waiting: "d_to_read d \<noteq> 0 \<Longrightarrow> in_loop alloc xs d = (ms, Inr d') \<Longrightarrow> d_to_read d' \<noteq> 0"
proof (induction "length xs" arbitrary: xs d ms rule: less_induct)
  case less
  show ?case
  proof (cases "length xs < d_to_read d")
    case True
    then show ?thesis using less.prems by (auto simp: in_loop_partial)
  next
    case False
    let ?a = "take (d_to_read d) xs" and ?b = "drop (d_to_read d) xs"
    have len: "length ?a = d_to_read d" using False by simp
    have shorter: "length ?b < length xs" using False less.prems by simp
    obtain rc d1 where d1: "drain alloc (absorb ?a d) = (rc, d1)" by fastforce
    have 2: "in_loop alloc xs d = after alloc ?b (rc, d1)"
      using in_loop_block[of ?a d alloc ?b] len less.prems d1 by simp
    have w: "d_to_read d1 \<noteq> 0" if "rc = Go_on \<or> rc = Complete"
      using that drain_Complete[of alloc _ d1] drain_Go_on[of alloc _ d1] d1 by (metis one_neq_zero)
    show ?thesis
      using less.hyps[OF shorter w] less.prems(2) unfolding 2
      by (cases rc) (auto simp: after_def prod_eq_iff)
  qed
qed

text \<open>The reads of a connection, one after the other.\<close>

fun in_events :: "(nat \<Rightarrow> bool) \<Rightarrow> byte list list \<Rightarrow> decoder \<Rightarrow> wmsg list \<times> (derror + decoder)" where
  "in_events alloc [] d = ([], Inr d)"
| "in_events alloc (chunk # chunks) d =
     (case in_loop alloc chunk d of
        (ms, Inl e) \<Rightarrow> (ms, Inl e)
      | (ms, Inr d') \<Rightarrow> let (ms', r) = in_events alloc chunks d' in (ms @ ms', r))"

lemma in_events_concat:
  "d_to_read d \<noteq> 0 \<Longrightarrow> in_events alloc chunks d = in_loop alloc (concat chunks) d"
proof (induction chunks arbitrary: d)
  case Nil
  then show ?case by simp
next
  case (Cons c cs)
  then show ?case
    using in_loop_append[OF Cons.prems, of alloc c "concat cs"] in_loop_waiting[OF Cons.prems, of alloc c]
    by (auto simp: continue_def split: prod.splits sum.splits)
qed

lemma decode_same:
  assumes "data \<noteq> []" "length data \<le> d_to_read d" "d_to_read d \<noteq> 0"
  shows "decode alloc True data d = decode alloc False data d"
  using assms
  by (auto simp: decode_def decode_loop.simps[of alloc data] decode_loop.simps[of alloc "[]"] min_def Let_def
      split: prod.splits drc.splits)

section \<open>Frames\<close>

definition frame_body :: "wmsg \<Rightarrow> byte list" where
  "frame_body m = sub_byte m @ w_data m"

definition accepts :: "(nat \<Rightarrow> bool) \<Rightarrow> int \<Rightarrow> nat \<Rightarrow> bool" where
  "accepts alloc mx n \<longleftrightarrow> (mx \<ge> 0 \<longrightarrow> int n \<le> mx) \<and> alloc n \<and> n + 1 < 2 ^ 64"

definition restart :: "byte list \<Rightarrow> decoder \<Rightarrow> decoder" where
  "restart B d = d_next_step 1 (if d_next d = V1_message_ready then V1_one_byte_size_ready else V2_flags_ready)
     (d\<lparr>d_body := B\<rparr>)"

lemma body_done:
  assumes "message_step (d_next d)" "d_read d = []" "d_to_read d = length B"
  shows "after alloc (B @ rest) (drain alloc d) =
    (\<lparr>w_flags = d_in_flags d, w_data = B\<rparr> # fst (in_loop alloc rest (restart B d)), snd (in_loop alloc rest (restart B d)))"
proof -
  have fin: "drain alloc (d\<lparr>d_read := B, d_to_read := 0\<rparr>) = (Complete, restart B d)"
    using assms(1) by (auto simp: drain.simps d_run_def message_step_def restart_def d_next_step_def)
  have msg: "d_msg (restart B d) = \<lparr>w_flags = d_in_flags d, w_data = B\<rparr>"
    by (simp add: d_msg_def restart_def d_next_step_def)
  show ?thesis
  proof (cases "B = []")
    case True
    with assms have "d\<lparr>d_read := B, d_to_read := 0\<rparr> = d" by simp
    with fin msg True show ?thesis by (simp add: after_def)
  next
    case False
    then have "after alloc (B @ rest) (drain alloc d) = in_loop alloc (B @ rest) d"
      using assms(3) by (simp add: drain_waiting after_def)
    also have "\<dots> = after alloc rest (drain alloc (absorb B d))"
      using assms(3) False by (intro in_loop_block) simp_all
    also have "absorb B d = d\<lparr>d_read := B, d_to_read := 0\<rparr>" using assms by (simp add: absorb_def)
    finally show ?thesis using fin msg by (simp add: after_def)
  qed
qed

text \<open>Running one step of the machine on its bytes.\<close>

lemma step_block:
  assumes "d_read d = []" "length xs = d_to_read d" "d_to_read d \<noteq> 0"
    and "d_run alloc (d\<lparr>d_read := xs, d_to_read := 0\<rparr>) = (Go_on, d')"
  shows "in_loop alloc (xs @ rest) d = after alloc rest (drain alloc d')"
proof -
  have "absorb xs d = d\<lparr>d_read := xs, d_to_read := 0\<rparr>" using assms by (simp add: absorb_def)
  then have "drain alloc (absorb xs d) = drain alloc d'" using assms(4) by (simp add: drain.simps[of alloc "d\<lparr>d_read := xs, d_to_read := 0\<rparr>"])
  with in_loop_block[OF assms(2,3), of alloc rest] show ?thesis by simp
qed

lemma after_waiting: "d_to_read d \<noteq> 0 \<Longrightarrow> after alloc rest (drain alloc d) = in_loop alloc rest d"
  by (simp add: drain_waiting after_def)

lemma unat_size: "n < 2 ^ 64 \<Longrightarrow> unat (of_nat n :: u64) = n"
  by (simp add: unsigned_of_nat take_bit_nat_eq_self_iff)

lemma unat_byte: "n < 256 \<Longrightarrow> unat (of_nat n :: byte) = n"
  by (simp add: unsigned_of_nat take_bit_nat_eq_self_iff)

lemma unat_255: "unat (255 :: byte) = 255"
  by simp

lemma put_uint64_nonempty [simp]: "put_uint64 v \<noteq> []" "[] \<noteq> put_uint64 v"
  by (simp_all add: put_uint64_def)

lemma get_put_uint64_alone [simp]: "get_uint64 (put_uint64 v) = v"
  using get_put_uint64[of v "[]"] by simp

text \<open>The second version of the protocol.\<close>

definition idle2 :: "int \<Rightarrow> decoder \<Rightarrow> bool" where
  "idle2 mx d \<longleftrightarrow> d_next d = V2_flags_ready \<and> d_read d = [] \<and> d_to_read d = 1 \<and> d_max d = mx"

definition v2_view :: "byte \<Rightarrow> byte list \<Rightarrow> wmsg" where
  "v2_view pf B = \<lparr>w_flags = (if pf AND 1 \<noteq> 0 then msg_more else 0) OR (if pf AND 4 \<noteq> 0 then msg_command else 0), w_data = B\<rparr>"

lemma v2_frame_gen:
  assumes idle: "idle2 mx d" and acc: "accepts alloc mx (length B)"
    and sz: "sz = (if pf AND 2 \<noteq> 0 then put_uint64 (of_nat (length B)) else [of_nat (length B)])"
    and fit: "pf AND 2 \<noteq> 0 \<or> length B < 256"
  shows "\<exists>d'. idle2 mx d' \<and> in_loop alloc (pf # sz @ B @ rest) d =
    (v2_view pf B # fst (in_loop alloc rest d'), snd (in_loop alloc rest d'))"
proof -
  let ?n = "length B"
  define f where "f = (if pf AND 1 \<noteq> 0 then msg_more else 0) OR (if pf AND 4 \<noteq> 0 then msg_command else 0)"
  define d1 where "d1 = d\<lparr>d_read := [], d_to_read := length sz, d_msg_flags := f,
    d_next := (if pf AND 2 \<noteq> 0 then V2_eight_byte_size_ready else V2_one_byte_size_ready)\<rparr>"
  have len: "length sz = (if pf AND 2 \<noteq> 0 then 8 else 1)" by (simp add: sz)
  have "in_loop alloc ([pf] @ sz @ B @ rest) d = after alloc (sz @ B @ rest) (drain alloc d1)"
    using idle by (intro step_block)
      (auto simp: idle2_def d_run_def v2_flags_def d_next_step_def Let_def d1_def f_def len)
  also have "\<dots> = in_loop alloc (sz @ B @ rest) d1" by (intro after_waiting) (simp add: d1_def len)
  finally have s1: "in_loop alloc (pf # sz @ B @ rest) d = in_loop alloc (sz @ B @ rest) d1" by simp
  define d2 where "d2 = d1\<lparr>d_read := [], d_to_read := ?n, d_next := V2_message_ready, d_size := ?n, d_in_flags := f\<rparr>"
  have "unat (of_nat ?n :: u64) = ?n" using acc by (intro unat_size) (simp add: accepts_def)
  moreover have "\<not> pf AND 2 \<noteq> 0 \<Longrightarrow> unat (ucast (of_nat ?n :: byte) :: u64) = ?n"
    using fit by (simp add: unsigned_ucast_eq unat_byte take_bit_nat_eq_self_iff)
  ultimately have "in_loop alloc (sz @ B @ rest) d1 = after alloc (B @ rest) (drain alloc d2)"
    using acc idle
    by (intro step_block)
       (auto simp: d1_def d2_def d_run_def sz v2_size_ready_def d_next_step_def accepts_def idle2_def)
  also have "\<dots> = (\<lparr>w_flags = f, w_data = B\<rparr> # fst (in_loop alloc rest (restart B d2)), snd (in_loop alloc rest (restart B d2)))"
    by (subst body_done) (simp_all add: d2_def message_step_def)
  finally have "in_loop alloc (pf # sz @ B @ rest) d =
     (v2_view pf B # fst (in_loop alloc rest (restart B d2)), snd (in_loop alloc rest (restart B d2)))"
    by (simp add: s1 v2_view_def f_def)
  moreover have "idle2 mx (restart B d2)"
    using idle by (simp add: idle2_def restart_def d_next_step_def d2_def d1_def)
  ultimately show ?thesis by blast
qed

text \<open>The first version.\<close>

definition idle1 :: "int \<Rightarrow> decoder \<Rightarrow> bool" where
  "idle1 mx d \<longleftrightarrow> d_next d = V1_one_byte_size_ready \<and> d_read d = [] \<and> d_to_read d = 1 \<and> d_max d = mx"

lemma v1_frame_gen:
  assumes idle: "idle1 mx d" and acc: "accepts alloc mx (length B)"
    and sz: "sz = (if length B + 1 < 255 then [of_nat (length B + 1)] else 255 # put_uint64 (of_nat (length B + 1)))"
  shows "\<exists>d'. idle1 mx d' \<and> in_loop alloc (sz @ fl # B @ rest) d =
    (\<lparr>w_flags = fl AND msg_more, w_data = B\<rparr> # fst (in_loop alloc rest d'), snd (in_loop alloc rest d'))"
proof -
  let ?n = "length B"
  define d2 where "d2 = d\<lparr>d_read := [], d_to_read := 1, d_next := V1_flags_ready, d_size := ?n, d_in_flags := 0\<rparr>"
  have start: "in_loop alloc (sz @ fl # B @ rest) d = in_loop alloc (fl # B @ rest) d2"
  proof (cases "?n + 1 < 255")
    case True
    have b: "unat (of_nat (?n + 1) :: byte) = ?n + 1" using True by (intro unat_byte) simp
    then have "(of_nat (?n + 1) :: byte) \<noteq> 255" "(of_nat (?n + 1) :: byte) \<noteq> 0"
      using True unat_255 by (metis less_irrefl, metis Suc_eq_plus1 nat.distinct(1) unsigned_0)
    with b have "in_loop alloc ([of_nat (?n + 1)] @ fl # B @ rest) d = after alloc (fl # B @ rest) (drain alloc d2)"
      using idle acc by (intro step_block)
        (auto simp: idle1_def d_run_def v1_one_byte_size_def d_next_step_def Let_def accepts_def d2_def simp del: of_nat_add)
    with True sz show ?thesis by (simp add: after_waiting d2_def)
  next
    case False
    define d1 where "d1 = d\<lparr>d_read := [], d_to_read := 8, d_next := V1_eight_byte_size_ready\<rparr>"
    have "in_loop alloc ([255] @ put_uint64 (of_nat (?n + 1)) @ fl # B @ rest) d =
       after alloc (put_uint64 (of_nat (?n + 1)) @ fl # B @ rest) (drain alloc d1)"
      using idle by (intro step_block)
        (auto simp: idle1_def d_run_def v1_one_byte_size_def d_next_step_def d1_def)
    also have "\<dots> = in_loop alloc (put_uint64 (of_nat (?n + 1)) @ fl # B @ rest) d1"
      by (intro after_waiting) (simp add: d1_def)
    also have "\<dots> = after alloc (fl # B @ rest) (drain alloc d2)"
    proof (rule step_block)
      have b: "unat (of_nat (?n + 1) :: u64) = ?n + 1" using acc by (intro unat_size) (simp add: accepts_def)
      then have nz: "(of_nat (?n + 1) :: u64) \<noteq> 0" by (metis Suc_eq_plus1 nat.distinct(1) unsigned_0)
      have "unat ((of_nat (?n + 1) :: u64) - 1) = ?n" using acc by (simp add: accepts_def unat_size)
      with nz show "d_run alloc (d1\<lparr>d_read := put_uint64 (of_nat (?n + 1)), d_to_read := 0\<rparr>) = (Go_on, d2)"
        using acc idle
        by (auto simp: d1_def d2_def d_run_def v1_eight_byte_size_def d_next_step_def accepts_def idle1_def Let_def simp del: of_nat_add)
    qed (simp_all add: d1_def)
    finally show ?thesis using False sz by (simp add: after_waiting d2_def del: of_nat_add)
  qed
  define d3 where "d3 = d2\<lparr>d_read := [], d_to_read := ?n, d_next := V1_message_ready, d_in_flags := fl AND msg_more\<rparr>"
  have "in_loop alloc ([fl] @ B @ rest) d2 = after alloc (B @ rest) (drain alloc d3)"
    by (intro step_block) (auto simp: d2_def d3_def d_run_def v1_flags_def d_next_step_def)
  also have "\<dots> = (\<lparr>w_flags = fl AND msg_more, w_data = B\<rparr> # fst (in_loop alloc rest (restart B d3)), snd (in_loop alloc rest (restart B d3)))"
    by (subst body_done) (simp_all add: d3_def message_step_def)
  finally have "in_loop alloc (sz @ fl # B @ rest) d =
     (\<lparr>w_flags = fl AND msg_more, w_data = B\<rparr> # fst (in_loop alloc rest (restart B d3)), snd (in_loop alloc rest (restart B d3)))"
    using start by simp
  moreover have "idle1 mx (restart B d3)"
    using idle by (simp add: idle1_def restart_def d_next_step_def d3_def d2_def)
  ultimately show ?thesis by blast
qed

section \<open>Frames of the encoders\<close>

fun wire_body :: "proto \<Rightarrow> wmsg \<Rightarrow> byte list" where
  "wire_body V3_1 m = (if is_subscribe m then sub_cmd_name else if is_cancel m then cancel_cmd_name else []) @ w_data m"
| "wire_body _ m = frame_body m"

fun wire_flags :: "proto \<Rightarrow> wmsg \<Rightarrow> byte" where
  "wire_flags V1 m = w_flags m AND msg_more"
| "wire_flags V2 m = (if w_flags m AND msg_more \<noteq> 0 then msg_more else 0) OR
     (if w_flags m AND msg_command \<noteq> 0 then msg_command else 0)"
| "wire_flags V3_1 m = (if w_flags m AND msg_more \<noteq> 0 then msg_more else 0) OR
     (if w_flags m AND msg_command \<noteq> 0 \<or> is_subscribe m \<or> is_cancel m then msg_command else 0)"

text \<open>What the other side sees, and when the two size fields of a frame agree.\<close>

definition wire_view :: "proto \<Rightarrow> wmsg \<Rightarrow> wmsg" where
  "wire_view p m = \<lparr>w_flags = wire_flags p m, w_data = wire_body p m\<rparr>"

definition framed :: "proto \<Rightarrow> wmsg \<Rightarrow> bool" where
  "framed p m \<longleftrightarrow> p = V1 \<or> (length (w_data m) > 255 \<longleftrightarrow> length (wire_body p m) > 255)"

definition frame_of :: "proto \<Rightarrow> wmsg \<Rightarrow> byte list" where
  "frame_of p m = header p m @ w_data m"

definition decoder_for :: "proto \<Rightarrow> int \<Rightarrow> decoder" where
  "decoder_for p mx = (if p = V1 then v1_decoder_new mx else v2_decoder_new mx)"

definition idle :: "proto \<Rightarrow> int \<Rightarrow> decoder \<Rightarrow> bool" where
  "idle p mx d \<longleftrightarrow> (if p = V1 then idle1 mx d else idle2 mx d)"

lemma idle_new: "idle p mx (decoder_for p mx)"
  by (simp add: idle_def decoder_for_def idle1_def idle2_def v1_decoder_new_def v2_decoder_new_def)

lemma idle_to_read: "idle p mx d \<Longrightarrow> d_to_read d \<noteq> 0"
  by (simp add: idle_def idle1_def idle2_def split: if_splits)

definition pflags :: "bool \<Rightarrow> bool \<Rightarrow> bool \<Rightarrow> byte" where
  "pflags mo large cmd =
     (let f1 = (if mo then 1 else 0); f2 = (if large then f1 OR 2 else f1) in if cmd then f2 OR 4 else f2)"

lemma pflags_bits:
  "pflags a b c AND 1 \<noteq> 0 \<longleftrightarrow> a" "pflags a b c AND 2 \<noteq> 0 \<longleftrightarrow> b" "pflags a b c AND 4 \<noteq> 0 \<longleftrightarrow> c"
  by (cases a; cases b; cases c; simp add: pflags_def)+

lemma length_sub_byte: "length (sub_byte m) = (if is_subscribe m \<or> is_cancel m then 1 else 0)"
  by (simp add: sub_byte_def)

lemma frame_v1:
  "frame_of V1 m = (if length (frame_body m) + 1 < 255 then [of_nat (length (frame_body m) + 1)]
      else 255 # put_uint64 (of_nat (length (frame_body m) + 1))) @ (w_flags m AND msg_more) # frame_body m"
  by (simp add: frame_of_def v1_message_ready_def frame_body_def length_sub_byte Let_def algebra_simps)

definition v2_cmd :: "proto \<Rightarrow> wmsg \<Rightarrow> bool" where
  "v2_cmd p m \<longleftrightarrow> w_flags m AND msg_command \<noteq> 0 \<or> p = V3_1 \<and> (is_subscribe m \<or> is_cancel m)"

lemma frame_v2:
  assumes "p \<noteq> V1" "framed p m"
  defines "pf \<equiv> pflags (w_flags m AND msg_more \<noteq> 0) (length (w_data m) > 255) (v2_cmd p m)"
  shows "frame_of p m = pf # (if pf AND 2 \<noteq> 0 then put_uint64 (of_nat (length (wire_body p m)))
      else [of_nat (length (wire_body p m))]) @ wire_body p m"
    and "pf AND 2 \<noteq> 0 \<or> length (wire_body p m) < 256"
    and "v2_view pf (wire_body p m) = wire_view p m"
proof -
  show "pf AND 2 \<noteq> 0 \<or> length (wire_body p m) < 256"
    using assms(1,2) unfolding pf_def pflags_bits by (auto simp: framed_def)
  show "v2_view pf (wire_body p m) = wire_view p m"
    using assms(1) unfolding pf_def v2_view_def wire_view_def pflags_bits
    by (cases p) (simp_all add: v2_cmd_def)
  have len: "length (wire_body p m) > 255 \<longleftrightarrow> length (w_data m) > 255" using assms(1,2) by (simp add: framed_def)
  have "length (wire_body V2 m) = (if is_subscribe m \<or> is_cancel m then length (w_data m) + 1 else length (w_data m))"
    by (simp add: frame_body_def length_sub_byte)
  moreover have "length (wire_body V3_1 m) = (if is_subscribe m then length (w_data m) + length sub_cmd_name
      else if is_cancel m then length (w_data m) + length cancel_cmd_name else length (w_data m))" by simp
  ultimately show "frame_of p m = pf # (if pf AND 2 \<noteq> 0 then put_uint64 (of_nat (length (wire_body p m)))
      else [of_nat (length (wire_body p m))]) @ wire_body p m"
    using assms(1) len unfolding pf_def pflags_bits
    by (cases p) (simp_all add: frame_of_def v2_message_ready_def v3_1_message_ready_def pflags_def v2_cmd_def frame_body_def Let_def)
qed

lemma frame_decodes:
  assumes "idle p mx d" "framed p m" "accepts alloc mx (length (wire_body p m))"
  shows "\<exists>d'. idle p mx d' \<and> in_loop alloc (frame_of p m @ rest) d =
    (wire_view p m # fst (in_loop alloc rest d'), snd (in_loop alloc rest d'))"
proof (cases "p = V1")
  case True
  with assms have "idle1 mx d" "accepts alloc mx (length (frame_body m))" by (simp_all add: idle_def)
  from v1_frame_gen[OF this refl, of "w_flags m AND msg_more" rest] True show ?thesis
    by (simp add: frame_v1 wire_view_def idle_def and.assoc del: of_nat_add)
next
  case False
  with assms(1) have i: "idle2 mx d" by (simp add: idle_def)
  note f = frame_v2[OF False assms(2)]
  from v2_frame_gen[OF i assms(3) refl f(2), of rest] False show ?thesis
    unfolding f(1,3) idle_def by simp
qed

lemma stream_decodes:
  assumes "idle p mx d" "list_all (\<lambda>m. framed p m \<and> accepts alloc mx (length (wire_body p m))) ms"
  shows "\<exists>d'. idle p mx d' \<and> in_loop alloc (concat (map (frame_of p) ms)) d = (map (wire_view p) ms, Inr d')"
  using assms
proof (induction ms arbitrary: d)
  case Nil
  then show ?case by auto
next
  case (Cons m ms)
  from frame_decodes[OF Cons.prems(1), of m alloc "concat (map (frame_of p) ms)"] Cons.prems(2)
  obtain d1 where "idle p mx d1" "in_loop alloc (frame_of p m @ concat (map (frame_of p) ms)) d =
    (wire_view p m # fst (in_loop alloc (concat (map (frame_of p) ms)) d1), snd (in_loop alloc (concat (map (frame_of p) ms)) d1))"
    by auto
  with Cons.IH[of d1] Cons.prems(2) show ?case by auto
qed

section \<open>The encoder in pieces\<close>

definition left :: "wmsg \<Rightarrow> encoder \<Rightarrow> byte list" where
  "left m e = e_write e @ (if e_new_msg e then [] else w_data m)"

definition busy :: "wmsg \<Rightarrow> encoder \<Rightarrow> bool" where
  "busy m e \<longleftrightarrow> e_msg e = Some m \<and> e_next e = (if e_new_msg e then E_message_ready else E_size_ready)"

lemma encode_loop_ok:
  "busy m e \<Longrightarrow> encode_loop p m own n out e = (out', e') \<Longrightarrow>
   (busy m e' \<and> out' @ left m e' = out @ left m e \<or> e' = encoder_new \<and> out' = out @ left m e) \<and>
   (length out < n \<longrightarrow> length out < length out' \<or> e' = encoder_new)"
proof (induction p m own n out e arbitrary: out' e' rule: encode_loop.induct)
  case (1 p m own n out e)
  show ?case
  proof (cases "length out < n")
    case False
    with "1.prems" show ?thesis by (auto simp: encode_loop.simps)
  next
    case less: True
    show ?thesis
    proof (cases "e_write e = [] \<and> e_new_msg e")
      case True
      with less "1.prems" show ?thesis
        by (auto simp: encode_loop.simps busy_def encoder_new_def left_def)
    next
      case cont: False
      define e1 where "e1 = (if e_write e = [] then e_run p m e else e)"
      have e1: "busy m e1" "left m e1 = left m e"
        using "1.prems"(1) cont by (auto simp: e1_def e_run_def e_next_step_def busy_def left_def)
      have ne: "e_write e1 = [] \<Longrightarrow> e_new_msg e1"
        using "1.prems"(1) cont by (auto simp: e1_def e_run_def e_next_step_def busy_def)
      show ?thesis
      proof (cases "out = [] \<and> own \<and> n \<le> length (e_write e1)")
        case True
        then have "out' = e_write e1" "e' = e1\<lparr>e_write := []\<rparr>"
          using "1.prems"(2) less cont by (auto simp: encode_loop.simps[of p m] Let_def e1_def)
        with True less e1 show ?thesis by (auto simp: busy_def left_def)
      next
        case False
        define k where "k = min (length (e_write e1)) (n - length out)"
        let ?out = "out @ take k (e_write e1)" and ?e = "e1\<lparr>e_write := drop k (e_write e1)\<rparr>"
        have "encode_loop p m own n out e = encode_loop p m own n ?out ?e"
          unfolding encode_loop.simps[of p m own n out e] Let_def e1_def[symmetric] k_def[symmetric]
          using less cont False by auto
        with "1.prems"(2) have rec: "encode_loop p m own n ?out ?e = (out', e')" by simp
        have busy: "busy m ?e" using e1(1) by (simp add: busy_def)
        have "take k (e_write e1) @ left m ?e = left m e1" by (simp add: left_def flip: append_assoc)
        then have eq: "?out @ left m ?e = out @ left m e" using e1(2) by simp
        note IH = "1.IH"[OF less cont e1_def False k_def busy rec]
        have "length out < length out' \<or> e' = encoder_new"
        proof (cases "e_write e1 = []")
          case True
          then have "length ?out < n" using less by simp
          with IH True show ?thesis by auto
        next
          case False
          then have "length out < length ?out" using less by (simp add: k_def)
          then show ?thesis
          proof (cases "length ?out < n")
            case True
            with IH \<open>length out < length ?out\<close> show ?thesis by linarith
          next
            case False
            then have "out' = ?out" using rec by (simp add: encode_loop.simps[of p m own n ?out])
            with \<open>length out < length ?out\<close> show ?thesis by simp
          qed
        qed
        with IH eq show ?thesis by auto
      qed
    qed
  qed
qed

text \<open>Any sequence of calls with non-empty buffers, own or supplied.\<close>

fun encode_calls :: "proto \<Rightarrow> (bool \<times> nat) list \<Rightarrow> encoder \<Rightarrow> byte list \<times> encoder" where
  "encode_calls p [] e = ([], e)"
| "encode_calls p ((own, n) # calls) e =
     (let (out, e1) = encode p own n e; (outs, e2) = encode_calls p calls e1 in (out @ outs, e2))"

lemma encode_calls_idle: "encode_calls p calls encoder_new = ([], encoder_new)"
  by (induction calls) (auto simp: encode_def encoder_new_def)

lemma encode_calls_ok:
  "busy m e \<Longrightarrow> list_all (\<lambda>c. snd c > 0) calls \<Longrightarrow> length calls > length (left m e) \<Longrightarrow>
   encode_calls p calls e = (left m e, encoder_new)"
proof (induction calls arbitrary: e)
  case Nil
  then show ?case by simp
next
  case (Cons c calls)
  obtain own n where c: "c = (own, n)" by fastforce
  obtain out e1 where enc: "encode_loop p m own n [] e = (out, e1)" by fastforce
  have e: "encode p own n e = (out, e1)" using Cons.prems(1) enc by (simp add: encode_def busy_def)
  note ok = encode_loop_ok[OF Cons.prems(1) enc]
  show ?case
  proof (cases "e1 = encoder_new")
    case True
    then have "out = left m e" using ok by (auto simp: busy_def encoder_new_def)
    with True e c show ?thesis by (simp add: encode_calls_idle)
  next
    case False
    with ok Cons.prems(2) c have b: "busy m e1" "out @ left m e1 = left m e" "out \<noteq> []" by auto
    then have "length (left m e1) < length (left m e)" by (metis append_Nil length_append less_add_same_cancel2 length_greater_0_conv)
    with Cons.prems have "encode_calls p calls e1 = (left m e1, encoder_new)"
      by (intro Cons.IH) (auto simp: b)
    with e c b(2) show ?thesis by simp
  qed
qed

lemma load_left:
  "load_msg p m encoder_new = Inr e \<Longrightarrow> busy m e \<and> left m e = frame_of p m"
  by (auto simp: load_msg_def encoder_new_def e_run_def e_next_step_def busy_def left_def frame_of_def)

lemma load_ok: "\<exists>e. load_msg p m encoder_new = Inr e \<and> busy m e \<and> left m e = frame_of p m"
  using load_left by (auto simp: load_msg_def encoder_new_def)

section \<open>Properties\<close>

text \<open>
  C8. Whatever buffers the caller supplies, and whether it lends its own or takes the encoder's,
  enough calls of \<^verbatim>\<open>encode\<close> hand out exactly the frame of the loaded message, and leave the
  encoder ready for the next one.
\<close>
theorem encoder_pieces:
  assumes "load_msg p m encoder_new = Inr e" "list_all (\<lambda>c. snd c > 0) calls"
    and "length calls > length (frame_of p m)"
  shows "encode_calls p calls e = (frame_of p m, encoder_new)"
  using encode_calls_ok[of m e calls p] load_left[OF assms(1)] assms(2,3) by simp

text \<open>
  The decoder is independent of the fragmentation of the stream: two ways to cut the same bytes
  into reads give the same messages and end in the same decoder, or in the same error.
\<close>
theorem decoder_fragmentation:
  assumes "concat chunks = concat chunks'"
  shows "in_events alloc chunks (decoder_for p mx) = in_events alloc chunks' (decoder_for p mx)"
  using assms idle_to_read[OF idle_new] by (simp add: in_events_concat)

text \<open>
  C7. Round trip of the three protocol versions: the decoder gets from the frames of the messages,
  cut into reads at any places, exactly the messages with their bodies and the flags the protocol
  carries, in order, and then waits for the next frame.  The length fields have to agree
  (\<^const>\<open>framed\<close>) and the bodies have to be within the limits of the receiver.
\<close>
theorem codec_roundtrip:
  assumes "list_all (\<lambda>m. framed p m \<and> accepts alloc mx (length (wire_body p m))) ms"
    and "concat chunks = concat (map (frame_of p) ms)"
  shows "\<exists>d. idle p mx d \<and> in_events alloc chunks (decoder_for p mx) = (map (wire_view p) ms, Inr d)"
  using stream_decodes[OF idle_new assms(1)] idle_to_read[OF idle_new, of p mx] assms(2)
  by (simp add: in_events_concat)

text \<open>Witness: a command, a part of a longer message and an empty message, read byte by byte.\<close>
definition sample_msgs :: "wmsg list" where
  "sample_msgs = [\<lparr>w_flags = 12, w_data = [65, 66]\<rparr>, \<lparr>w_flags = 1, w_data = [7]\<rparr>, \<lparr>w_flags = 0, w_data = []\<rparr>]"

theorem codec_roundtrip_witness:
  "\<exists>d. idle V2 100 d \<and> in_events (\<lambda>_. True) (map (\<lambda>b. [b]) (concat (map (frame_of V2) sample_msgs))) (decoder_for V2 100) =
     ([\<lparr>w_flags = 0, w_data = [1, 65, 66]\<rparr>, \<lparr>w_flags = 1, w_data = [7]\<rparr>, \<lparr>w_flags = 0, w_data = []\<rparr>], Inr d)"
proof -
  have "list_all (\<lambda>m. framed V2 m \<and> accepts (\<lambda>_. True) 100 (length (wire_body V2 m))) sample_msgs"
    by (simp add: sample_msgs_def framed_def accepts_def frame_body_def sub_byte_def is_subscribe_def is_cancel_def CMD_TYPE_MASK_def)
  from codec_roundtrip[OF this, of "map (\<lambda>b. [b]) (concat (map (frame_of V2) sample_msgs))"]
  show ?thesis
    by (simp add: sample_msgs_def wire_view_def frame_body_def sub_byte_def is_subscribe_def is_cancel_def CMD_TYPE_MASK_def
        msg_more_def msg_command_def)
qed

theorem encoder_pieces_witness:
  "encode_calls V1 (replicate 6 (False, 1)) (case load_msg V1 \<lparr>w_flags = 12, w_data = [65, 66]\<rparr> encoder_new of Inr e \<Rightarrow> e | Inl _ \<Rightarrow> encoder_new)
    = ([4, 0, 1, 65, 66], encoder_new)"
proof -
  let ?m = "\<lparr>w_flags = 12, w_data = [65, 66]\<rparr>"
  obtain e where e: "load_msg V1 ?m encoder_new = Inr e" using load_ok by blast
  have f: "frame_of V1 ?m = [4, 0, 1, 65, 66]"
    by (simp add: frame_of_def v1_message_ready_def sub_byte_def is_subscribe_def is_cancel_def CMD_TYPE_MASK_def msg_more_def)
  from encoder_pieces[OF e, of "replicate 6 (False, 1)"] show ?thesis unfolding e f by (simp add: list_all_iff)
qed

theorem decoder_fragmentation_witness:
  "in_events (\<lambda>_. True) [[0], [1, 7]] (decoder_for V2 (-1)) = in_events (\<lambda>_. True) [[0, 1], [7]] (decoder_for V2 (-1))"
  by (rule decoder_fragmentation) simp

lemma misframed_header:
  assumes "w_flags m = 12" "length (w_data m) = 255"
  shows "frame_of V2 m = 0 # 0 # 0 # 0 # 0 # 0 # 0 # 1 # 0 # 1 # w_data m"
  using assms by (simp add: frame_of_def v2_message_ready_def Let_def sub_byte_def put_uint64_def
      is_subscribe_def is_cancel_def CMD_TYPE_MASK_def msg_more_def msg_command_def)

lemma v2_small_frame:
  assumes "idle2 mx d" "accepts alloc mx (length B)" "length B < 256"
  shows "\<exists>d'. idle2 mx d' \<and> fst (in_loop alloc (0 # of_nat (length B) # B @ rest) d) =
    \<lparr>w_flags = 0, w_data = B\<rparr> # fst (in_loop alloc rest d')"
  using v2_frame_gen[OF assms(1,2), of "[of_nat (length B)]" 0 rest] assms(3) by (auto simp: v2_view_def)

text \<open>
  The encoder of the second version decides on the long form of the size before it adds the
  subscription byte: a subscription to a topic of exactly 255 bytes gets an eight-byte size without the flag
  that announces it, and the receiver reads three empty messages, a message with the single byte
  0 (for a publisher the cancellation of the empty topic), and then whatever the topic happens to spell.
\<close>
theorem v2_subscription_misframed:
  assumes "w_flags m = 12" "length (w_data m) = 255" "accepts alloc mx 0" "accepts alloc mx 1"
  shows "\<exists>ms. fst (in_events alloc [frame_of V2 m] (decoder_for V2 mx)) =
     [\<lparr>w_flags = 0, w_data = []\<rparr>, \<lparr>w_flags = 0, w_data = []\<rparr>, \<lparr>w_flags = 0, w_data = []\<rparr>, \<lparr>w_flags = 0, w_data = [0]\<rparr>] @ ms"
proof -
  let ?e = "\<lparr>w_flags = 0, w_data = []\<rparr>"
  note empty = v2_small_frame[of mx _ alloc "[]", simplified, OF _ assms(3)]
  note one = v2_small_frame[of mx _ alloc "[0]", simplified, OF _ assms(4)[unfolded One_nat_def]]
  let ?t = "1 # w_data m"
  have "idle2 mx (decoder_for V2 mx)" using idle_new[of V2 mx] by (simp add: idle_def)
  from empty[OF this, of "0 # 0 # 0 # 0 # 0 # 1 # 0 # ?t"] obtain d1 where d1: "idle2 mx d1"
    "fst (in_loop alloc (frame_of V2 m) (decoder_for V2 mx)) = ?e # fst (in_loop alloc (0 # 0 # 0 # 0 # 0 # 1 # 0 # ?t) d1)"
    unfolding misframed_header[OF assms(1,2)] by blast
  from empty[OF d1(1), of "0 # 0 # 0 # 1 # 0 # ?t"] obtain d2 where d2: "idle2 mx d2"
    "fst (in_loop alloc (0 # 0 # 0 # 0 # 0 # 1 # 0 # ?t) d1) = ?e # fst (in_loop alloc (0 # 0 # 0 # 1 # 0 # ?t) d2)" by blast
  from empty[OF d2(1), of "0 # 1 # 0 # ?t"] obtain d3 where d3: "idle2 mx d3"
    "fst (in_loop alloc (0 # 0 # 0 # 1 # 0 # ?t) d2) = ?e # fst (in_loop alloc (0 # 1 # 0 # ?t) d3)" by blast
  from one[OF d3(1), of ?t] d1(2) d2(2) d3(2) show ?thesis
    using idle_to_read[OF idle_new, of V2 mx] by (auto simp: in_events_concat simp del: in_events.simps)
qed

theorem v2_subscription_misframed_witness:
  "\<exists>ms. fst (in_events (\<lambda>_. True) [frame_of V2 \<lparr>w_flags = 12, w_data = replicate 255 65\<rparr>] (decoder_for V2 (-1))) =
     [\<lparr>w_flags = 0, w_data = []\<rparr>, \<lparr>w_flags = 0, w_data = []\<rparr>, \<lparr>w_flags = 0, w_data = []\<rparr>, \<lparr>w_flags = 0, w_data = [0]\<rparr>] @ ms"
  by (rule v2_subscription_misframed) (simp_all add: accepts_def)

end
