(* ===== verification/Message.thy ===== *)
theory Message
  imports Codec
begin

text \<open>
  Message objects, \<^verbatim>\<open>msg.cpp\<close>, with the counters of \<^verbatim>\<open>atomic_counter.hpp\<close> and \<^verbatim>\<open>metadata.cpp\<close>: short messages carry their bytes, long
  ones point to a buffer that copies share and count.  The store has the message objects, the shared buffers, the metadata, the
  long group names, and the calls that were made to the functions that release the buffers of the user.  Every use of a freed object is a failure.  The addresses that
  \<^verbatim>\<open>malloc\<close> returns, and what new memory holds, are arguments.
\<close>

section \<open>The objects\<close>

text \<open>The types of messages, each with its part of the union; a message that was closed has type 0.\<close>

datatype mtype =
    Closed
  | Vsm "byte list"
  | Lmsg "nat option"
  | Delim
  | Cmsg "byte list"
  | Zclmsg nat
  | Join
  | Leave

text \<open>A group name in the message, or a pointer to a shared one; \<open>Wild\<close> is a pointer that was overwritten.\<close>

datatype mgroup = Short "byte list" | Long nat | Wild

record msg_t =
  m_type :: mtype
  m_flags :: byte
  m_metadata :: "nat option"
  m_routing_id :: u32
  m_group :: mgroup

record content_t =
  c_data :: "byte list"
  c_ffn :: "nat option"
  c_hint :: nat
  c_refcnt :: u32

record metadata_t =
  d_dict :: "string \<rightharpoonup> string"
  d_refs :: u32

record mem =
  objs :: "nat \<Rightarrow> msg_t"
  contents :: "nat \<rightharpoonup> content_t"
  metas :: "nat \<rightharpoonup> metadata_t"
  groups :: "nat \<rightharpoonup> byte list \<times> u32"
  released :: "(nat \<times> nat) list"
  held :: "nat set"

text \<open>\<open>held\<close> are the metadata to which an engine has a reference of its own.\<close>

definition max_vsm_size :: nat where "max_vsm_size = 64 - (8 + 3 + 16 + 4)"
definition sizeof_content :: u64 where "sizeof_content = 40"
definition msg_shared :: byte where "msg_shared = 128"
definition ZMQ_GROUP_MAX_LENGTH :: nat where "ZMQ_GROUP_MAX_LENGTH = 255"

text \<open>The counter: subtraction answers whether the counter is not zero.\<close>

definition counter_add :: "u32 \<Rightarrow> u32 \<Rightarrow> u32 \<times> u32" where "counter_add n v = (v, v + n)"
definition counter_sub :: "u32 \<Rightarrow> u32 \<Rightarrow> bool \<times> u32" where "counter_sub n v = (v - n \<noteq> 0, v - n)"

definition put :: "nat \<Rightarrow> msg_t \<Rightarrow> mem \<Rightarrow> mem" where
  "put i m s = s\<lparr>objs := (objs s)(i := m)\<rparr>"

definition set_content :: "nat \<Rightarrow> content_t option \<Rightarrow> mem \<Rightarrow> mem" where
  "set_content a c s = s\<lparr>contents := (contents s)(a := c)\<rparr>"

definition m_check :: "msg_t \<Rightarrow> bool" where "m_check m \<longleftrightarrow> m_type m \<noteq> Closed"

definition is_vsm :: "msg_t \<Rightarrow> bool" where "is_vsm m \<longleftrightarrow> (case m_type m of Vsm _ \<Rightarrow> True | _ \<Rightarrow> False)"

definition is_shared :: "msg_t \<Rightarrow> bool" where "is_shared m \<longleftrightarrow> m_flags m AND msg_shared \<noteq> 0"

text \<open>The pointer to the shared buffer, in messages that have one.\<close>

definition content_ptr :: "msg_t \<Rightarrow> nat option option" where
  "content_ptr m = (case m_type m of Lmsg p \<Rightarrow> Some p | Zclmsg a \<Rightarrow> Some (Some a) | _ \<Rightarrow> None)"

definition content_at :: "nat option \<Rightarrow> mem \<Rightarrow> (nat \<times> content_t) result" where
  "content_at p s = (case p of None \<Rightarrow> Inl Bad_pointer | Some a \<Rightarrow> (case contents s a of None \<Rightarrow> Inl Bad_pointer | Some c \<Rightarrow> Inr (a, c)))"

section \<open>Metadata\<close>

definition metadata_new :: "(string \<rightharpoonup> string) \<Rightarrow> metadata_t" where
  "metadata_new d = \<lparr>d_dict = d, d_refs = 1\<rparr>"

definition metadata_get :: "string \<Rightarrow> metadata_t \<Rightarrow> string option" where
  "metadata_get k d = (case d_dict d k of Some v \<Rightarrow> Some v
     | None \<Rightarrow> if k = ''Identity'' then d_dict d ''Routing-Id'' else None)"

definition metadata_add_ref :: "nat \<Rightarrow> mem \<Rightarrow> mem result" where
  "metadata_add_ref a s = (case metas s a of None \<Rightarrow> Inl Bad_pointer
     | Some d \<Rightarrow> Inr (s\<lparr>metas := (metas s)(a \<mapsto> d\<lparr>d_refs := snd (counter_add 1 (d_refs d))\<rparr>)\<rparr>))"

text \<open>The owner of a reference drops it and deletes the object when it was the last.\<close>

definition metadata_drop :: "nat \<Rightarrow> mem \<Rightarrow> mem result" where
  "metadata_drop a s = (case metas s a of None \<Rightarrow> Inl Bad_pointer
     | Some d \<Rightarrow> (let (more, n) = counter_sub 1 (d_refs d) in
         Inr (s\<lparr>metas := (metas s)(a := if more then Some (d\<lparr>d_refs := n\<rparr>) else None)\<rparr>)))"

section \<open>New messages\<close>

definition blank :: "mtype \<Rightarrow> msg_t" where
  "blank t = \<lparr>m_type = t, m_flags = 0, m_metadata = None, m_routing_id = 0, m_group = Short []\<rparr>"

definition m_init :: "nat \<Rightarrow> mem \<Rightarrow> mem" where "m_init i s = put i (blank (Vsm [])) s"

text \<open>\<open>False\<close> is \<^verbatim>\<open>ENOMEM\<close>: the message then has a null pointer for a buffer.\<close>

definition m_init_size :: "nat option \<Rightarrow> (nat \<Rightarrow> byte) \<Rightarrow> u64 \<Rightarrow> nat \<Rightarrow> mem \<Rightarrow> bool \<times> mem" where
  "m_init_size al junk sz i s =
     (if unat sz \<le> max_vsm_size then (True, put i (blank (Vsm (map junk [0..<unat sz]))) s)
      else case if sizeof_content + sz > sz then al else None of
        None \<Rightarrow> (False, put i (blank (Lmsg None)) s)
      | Some a \<Rightarrow> (True, put i (blank (Lmsg (Some a)))
          (set_content a (Some \<lparr>c_data = map junk [0..<unat sz], c_ffn = None, c_hint = 0, c_refcnt = 0\<rparr>) s)))"

definition m_data :: "nat \<Rightarrow> mem \<Rightarrow> byte list result" where
  "m_data i s = (case m_type (objs s i) of
     Vsm b \<Rightarrow> Inr b
   | Lmsg p \<Rightarrow> bindE (content_at p s) (\<lambda>(a, c). Inr (c_data c))
   | Cmsg b \<Rightarrow> Inr b
   | Zclmsg a \<Rightarrow> bindE (content_at (Some a) s) (\<lambda>(a, c). Inr (c_data c))
   | _ \<Rightarrow> Inl Assertion)"

definition m_size :: "nat \<Rightarrow> mem \<Rightarrow> nat result" where
  "m_size i s = bindE (m_data i s) (\<lambda>b. Inr (length b))"

text \<open>Other bytes, or fewer, in the memory of the message.\<close>

definition set_data :: "(byte list \<Rightarrow> byte list) \<Rightarrow> nat \<Rightarrow> mem \<Rightarrow> mem result" where
  "set_data f i s = (let m = objs s i in case m_type m of
     Vsm b \<Rightarrow> Inr (put i (m\<lparr>m_type := Vsm (f b)\<rparr>) s)
   | Lmsg p \<Rightarrow> bindE (content_at p s) (\<lambda>(a, c). Inr (set_content a (Some (c\<lparr>c_data := f (c_data c)\<rparr>)) s))
   | Cmsg b \<Rightarrow> Inr (put i (m\<lparr>m_type := Cmsg (f b)\<rparr>) s)
   | Zclmsg p \<Rightarrow> bindE (content_at (Some p) s) (\<lambda>(a, c). Inr (set_content a (Some (c\<lparr>c_data := f (c_data c)\<rparr>)) s))
   | _ \<Rightarrow> Inl Assertion)"

definition m_shrink :: "nat \<Rightarrow> nat \<Rightarrow> mem \<Rightarrow> mem result" where
  "m_shrink n i s = bindE (m_size i s) (\<lambda>k. if n > k then Inl Assertion else set_data (take n) i s)"

text \<open>Copying bytes to the memory of the message.\<close>

definition m_fill :: "byte list \<Rightarrow> nat \<Rightarrow> mem \<Rightarrow> mem result" where
  "m_fill bs i s = bindE (m_size i s) (\<lambda>k. if length bs > k then Inl Bad_index else set_data (\<lambda>b. bs @ drop (length bs) b) i s)"

definition m_set_flags :: "byte \<Rightarrow> nat \<Rightarrow> mem \<Rightarrow> mem" where
  "m_set_flags f i s = put i ((objs s i)\<lparr>m_flags := m_flags (objs s i) OR f\<rparr>) s"

definition m_reset_flags :: "byte \<Rightarrow> nat \<Rightarrow> mem \<Rightarrow> mem" where
  "m_reset_flags f i s = put i ((objs s i)\<lparr>m_flags := m_flags (objs s i) AND NOT f\<rparr>) s"

definition m_init_buffer :: "nat option \<Rightarrow> (nat \<Rightarrow> byte) \<Rightarrow> byte list \<Rightarrow> nat \<Rightarrow> mem \<Rightarrow> (bool \<times> mem) result" where
  "m_init_buffer al junk bs i s = (case m_init_size al junk (of_nat (length bs)) i s of
     (False, s1) \<Rightarrow> Inr (False, s1)
   | (True, s1) \<Rightarrow> bindE (m_fill bs i s1) (\<lambda>s2. Inr (True, s2)))"

text \<open>A buffer with its reference counter given by the caller, and one whose counter is allocated.\<close>

definition m_init_external_storage :: "nat \<Rightarrow> byte list \<Rightarrow> nat option \<Rightarrow> nat \<Rightarrow> nat \<Rightarrow> mem \<Rightarrow> mem" where
  "m_init_external_storage a bs ffn hint i s =
     put i (blank (Zclmsg a)) (set_content a (Some \<lparr>c_data = bs, c_ffn = ffn, c_hint = hint, c_refcnt = 0\<rparr>) s)"

definition m_init_data :: "nat option \<Rightarrow> byte list \<Rightarrow> nat option \<Rightarrow> nat \<Rightarrow> nat \<Rightarrow> mem \<Rightarrow> bool \<times> mem" where
  "m_init_data al bs ffn hint i s = (case ffn of
     None \<Rightarrow> (True, put i (blank (Cmsg bs)) s)
   | Some f \<Rightarrow> (case al of
       None \<Rightarrow> (False, put i (blank (Lmsg None)) s)
     | Some a \<Rightarrow> (True, put i (blank (Lmsg (Some a))) (set_content a (Some \<lparr>c_data = bs, c_ffn = Some f, c_hint = hint, c_refcnt = 0\<rparr>) s))))"

definition m_init_any :: "nat option \<Rightarrow> (nat \<Rightarrow> byte) \<Rightarrow> byte list \<Rightarrow> nat option \<Rightarrow> nat \<Rightarrow> nat option \<Rightarrow> nat \<Rightarrow> mem \<Rightarrow> (bool \<times> mem) result" where
  "m_init_any al junk bs ffn hint content i s =
     (if length bs < max_vsm_size then m_init_buffer al junk bs i s
      else case content of
        Some a \<Rightarrow> Inr (True, m_init_external_storage a bs ffn hint i s)
      | None \<Rightarrow> Inr (m_init_data al bs ffn hint i s))"

definition m_init_delimiter :: "nat \<Rightarrow> mem \<Rightarrow> mem" where "m_init_delimiter i s = put i (blank Delim) s"
definition m_init_join :: "nat \<Rightarrow> mem \<Rightarrow> mem" where "m_init_join i s = put i (blank Join) s"
definition m_init_leave :: "nat \<Rightarrow> mem \<Rightarrow> mem" where "m_init_leave i s = put i (blank Leave) s"

text \<open>Subscriptions and cancellations: \<open>f\<close> is the flag.\<close>

definition m_init_topic :: "byte \<Rightarrow> nat option \<Rightarrow> (nat \<Rightarrow> byte) \<Rightarrow> byte list \<Rightarrow> nat \<Rightarrow> mem \<Rightarrow> (bool \<times> mem) result" where
  "m_init_topic f al junk topic i s = (case m_init_size al junk (of_nat (length topic)) i s of
     (False, s1) \<Rightarrow> Inr (False, s1)
   | (True, s1) \<Rightarrow> bindE (m_fill topic i (m_set_flags f i s1)) (\<lambda>s2. Inr (True, s2)))"

definition m_init_subscribe :: "nat option \<Rightarrow> (nat \<Rightarrow> byte) \<Rightarrow> byte list \<Rightarrow> nat \<Rightarrow> mem \<Rightarrow> (bool \<times> mem) result" where
  "m_init_subscribe = m_init_topic 12"

definition m_init_cancel :: "nat option \<Rightarrow> (nat \<Rightarrow> byte) \<Rightarrow> byte list \<Rightarrow> nat \<Rightarrow> mem \<Rightarrow> (bool \<times> mem) result" where
  "m_init_cancel = m_init_topic 16"

section \<open>Closing, moving and copying\<close>

text \<open>The last reference to a buffer goes: the function of the user is called, and the memory is not used again.\<close>

definition free_content :: "nat \<Rightarrow> content_t \<Rightarrow> mem \<Rightarrow> mem" where
  "free_content a c s = (set_content a None s)\<lparr>released := released s @ (case c_ffn c of None \<Rightarrow> [] | Some f \<Rightarrow> [(f, c_hint c)])\<rparr>"

definition drop_content :: "u32 \<Rightarrow> nat \<Rightarrow> content_t \<Rightarrow> mem \<Rightarrow> bool \<times> mem" where
  "drop_content n a c s = (let (more, k) = counter_sub n (c_refcnt c) in
     if more then (True, set_content a (Some (c\<lparr>c_refcnt := k\<rparr>)) s) else (False, free_content a c s))"

definition release_content :: "msg_t \<Rightarrow> mem \<Rightarrow> mem result" where
  "release_content m s = (case m_type m of
     Lmsg p \<Rightarrow> bindE (content_at p s) (\<lambda>(a, c).
       Inr (if \<not> is_shared m then free_content a c s else snd (drop_content 1 a c s)))
   | Zclmsg p \<Rightarrow> bindE (content_at (Some p) s) (\<lambda>(a, c).
       if c_ffn c = None then Inl Assertion
       else Inr (if \<not> is_shared m then free_content a c s else snd (drop_content 1 a c s)))
   | _ \<Rightarrow> Inr s)"

definition drop_group :: "msg_t \<Rightarrow> mem \<Rightarrow> mem result" where
  "drop_group m s = (case m_group m of
     Short _ \<Rightarrow> Inr s
   | Wild \<Rightarrow> Inl Bad_pointer
   | Long a \<Rightarrow> (case groups s a of None \<Rightarrow> Inl Bad_pointer
       | Some (g, n) \<Rightarrow> (let (more, k) = counter_sub 1 n in Inr (s\<lparr>groups := (groups s)(a := if more then Some (g, k) else None)\<rparr>))))"

text \<open>\<open>False\<close> is \<^verbatim>\<open>EFAULT\<close>.\<close>

definition m_close :: "nat \<Rightarrow> mem \<Rightarrow> (bool \<times> mem) result" where
  "m_close i s = (let m = objs s i in
     if \<not> m_check m then Inr (False, s)
     else bindE (release_content m s) (\<lambda>s1.
       bindE (case m_metadata m of None \<Rightarrow> Inr s1 | Some a \<Rightarrow> metadata_drop a s1) (\<lambda>s2.
       bindE (drop_group m s2) (\<lambda>s3. Inr (True, put i (m\<lparr>m_type := Closed, m_metadata := None\<rparr>) s3)))))"

definition m_move :: "nat \<Rightarrow> nat \<Rightarrow> mem \<Rightarrow> (bool \<times> mem) result" where
  "m_move i j s =
     (if \<not> m_check (objs s j) then Inr (False, s)
      else bindE (m_close i s) (\<lambda>(ok, s1).
        if \<not> ok then Inr (False, s1) else Inr (True, m_init j (put i (objs s1 j) s1))))"

text \<open>One more reference to the buffer of a message, which from then on is shared.\<close>

definition share :: "u32 \<Rightarrow> nat \<Rightarrow> mem \<Rightarrow> mem result" where
  "share n i s = (let m = objs s i in case content_ptr m of
     None \<Rightarrow> Inr s
   | Some p \<Rightarrow> bindE (content_at p s) (\<lambda>(a, c).
       if is_shared m then Inr (set_content a (Some (c\<lparr>c_refcnt := snd (counter_add n (c_refcnt c))\<rparr>)) s)
       else Inr (put i (m\<lparr>m_flags := m_flags m OR msg_shared\<rparr>) (set_content a (Some (c\<lparr>c_refcnt := n + 1\<rparr>)) s))))"

definition share_group :: "msg_t \<Rightarrow> mem \<Rightarrow> mem result" where
  "share_group m s = (case m_group m of
     Short _ \<Rightarrow> Inr s
   | Wild \<Rightarrow> Inl Bad_pointer
   | Long a \<Rightarrow> (case groups s a of None \<Rightarrow> Inl Bad_pointer
       | Some (g, n) \<Rightarrow> Inr (s\<lparr>groups := (groups s)(a \<mapsto> (g, snd (counter_add 1 n)))\<rparr>)))"

definition m_copy :: "nat \<Rightarrow> nat \<Rightarrow> mem \<Rightarrow> (bool \<times> mem) result" where
  "m_copy i j s =
     (if \<not> m_check (objs s j) then Inr (False, s)
      else bindE (m_close i s) (\<lambda>(ok, s1).
        if \<not> ok then Inr (False, s1)
        else bindE (share 1 j s1) (\<lambda>s2.
          bindE (case m_metadata (objs s2 j) of None \<Rightarrow> Inr s2 | Some a \<Rightarrow> metadata_add_ref a s2) (\<lambda>s3.
          bindE (share_group (objs s3 j) s3) (\<lambda>s4. Inr (True, put i (objs s4 j) s4))))))"

section \<open>References for plain copies\<close>

definition m_add_refs :: "nat \<Rightarrow> nat \<Rightarrow> mem \<Rightarrow> mem result" where
  "m_add_refs n i s = (if m_metadata (objs s i) \<noteq> None then Inl Assertion
     else if n = 0 then Inr s else share (of_nat n) i s)"

definition m_rm_refs :: "nat \<Rightarrow> nat \<Rightarrow> mem \<Rightarrow> (bool \<times> mem) result" where
  "m_rm_refs n i s = (let m = objs s i in
     if m_metadata m \<noteq> None then Inl Assertion
     else if n = 0 then Inr (True, s)
     else case content_ptr m of
       None \<Rightarrow> bindE (m_close i s) (\<lambda>(_, s1). Inr (False, s1))
     | Some p \<Rightarrow>
         if \<not> is_shared m then bindE (m_close i s) (\<lambda>(_, s1). Inr (False, s1))
         else bindE (content_at p s) (\<lambda>(a, c). Inr (drop_content (of_nat n) a c s)))"

text \<open>
  The use of plain copies, \<^verbatim>\<open>distribute\<close> of \<^verbatim>\<open>dist.cpp\<close>: the message is written to the places that stand for the pipes,
  where some writes may fail, and the original is replaced by an empty message.
\<close>

fun raw_copies :: "nat \<Rightarrow> (nat \<times> bool) list \<Rightarrow> mem \<Rightarrow> mem" where
  "raw_copies i [] s = s"
| "raw_copies i ((j, ok) # ws) s = raw_copies i ws (if ok then put j (objs s i) s else s)"

definition m_distribute :: "nat \<Rightarrow> (nat \<times> bool) list \<Rightarrow> mem \<Rightarrow> mem result" where
  "m_distribute i ws s =
     (if ws = [] then bindE (m_close i s) (\<lambda>(ok, s1). if ok then Inr (m_init i s1) else Inl Assertion)
      else if is_vsm (objs s i) then Inr (m_init i (raw_copies i ws s))
      else bindE (m_add_refs (length ws - 1) i s) (\<lambda>s1.
        let s2 = raw_copies i ws s1; failed = length (filter (\<lambda>w. \<not> snd w) ws) in
        bindE (if failed > 0 then m_rm_refs failed i s2 else Inr (True, s2)) (\<lambda>(_, s3). Inr (m_init i s3))))"

section \<open>Metadata, routing id and group\<close>

definition m_set_metadata :: "nat \<Rightarrow> nat \<Rightarrow> mem \<Rightarrow> mem result" where
  "m_set_metadata a i s = (if m_metadata (objs s i) \<noteq> None then Inl Assertion
     else bindE (metadata_add_ref a s) (\<lambda>s1. Inr (put i ((objs s1 i)\<lparr>m_metadata := Some a\<rparr>) s1)))"

definition m_reset_metadata :: "nat \<Rightarrow> mem \<Rightarrow> mem result" where
  "m_reset_metadata i s = (case m_metadata (objs s i) of None \<Rightarrow> Inr s
     | Some a \<Rightarrow> bindE (metadata_drop a s) (\<lambda>s1. Inr (put i ((objs s1 i)\<lparr>m_metadata := None\<rparr>) s1)))"

definition m_set_routing_id :: "u32 \<Rightarrow> nat \<Rightarrow> mem \<Rightarrow> bool \<times> mem" where
  "m_set_routing_id r i s = (if r \<noteq> 0 then (True, put i ((objs s i)\<lparr>m_routing_id := r\<rparr>) s) else (False, s))"

definition m_reset_routing_id :: "nat \<Rightarrow> mem \<Rightarrow> mem" where
  "m_reset_routing_id i s = put i ((objs s i)\<lparr>m_routing_id := 0\<rparr>) s"

definition c_string :: "byte list \<Rightarrow> byte list" where "c_string bs = takeWhile (\<lambda>b. b \<noteq> 0) bs"

definition m_group_name :: "nat \<Rightarrow> mem \<Rightarrow> byte list result" where
  "m_group_name i s = (case m_group (objs s i) of Short g \<Rightarrow> Inr g | Wild \<Rightarrow> Inl Bad_pointer
     | Long a \<Rightarrow> (case groups s a of None \<Rightarrow> Inl Bad_pointer | Some (g, n) \<Rightarrow> Inr g))"

text \<open>
  A short name does not change the kind of the group: the characters go to the bytes 1 to 15 of the union, of which
  the pointer to a long name has those from byte 8 on.
\<close>

definition m_set_group :: "nat option \<Rightarrow> byte list \<Rightarrow> nat \<Rightarrow> mem \<Rightarrow> (bool \<times> mem) result" where
  "m_set_group al g i s = (let m = objs s i in
     if length g > ZMQ_GROUP_MAX_LENGTH then Inr (False, s)
     else if length g > 14 then (case al of None \<Rightarrow> Inl Assertion
       | Some a \<Rightarrow> Inr (True, put i (m\<lparr>m_group := Long a\<rparr>) (s\<lparr>groups := (groups s)(a \<mapsto> (c_string g, 1))\<rparr>)))
     else Inr (True, put i (m\<lparr>m_group := (case m_group m of Short _ \<Rightarrow> Short (c_string g)
       | Long a \<Rightarrow> if length g < 7 then Long a else Wild | Wild \<Rightarrow> Wild)\<rparr>) s))"

definition m_set_group_str :: "nat option \<Rightarrow> byte list \<Rightarrow> nat \<Rightarrow> mem \<Rightarrow> (bool \<times> mem) result" where
  "m_set_group_str al g = m_set_group al (c_string (take ZMQ_GROUP_MAX_LENGTH g))"

section \<open>Counted references\<close>

definition holders :: "('m \<Rightarrow> nat option) \<Rightarrow> (nat \<Rightarrow> 'm) \<Rightarrow> nat \<Rightarrow> nat set" where
  "holders f w a = {i. f (w i) = Some a}"

text \<open>A table of counters: each entry counts the holders of its object and \<open>x\<close> other references.\<close>

definition tally :: "u32 option \<Rightarrow> nat" where "tally p = (case p of None \<Rightarrow> 0 | Some n \<Rightarrow> unat n)"

definition counted :: "('m \<Rightarrow> nat option) \<Rightarrow> (nat \<Rightarrow> 'm) \<Rightarrow> (nat \<rightharpoonup> u32) \<Rightarrow> (nat \<Rightarrow> nat) \<Rightarrow> bool" where
  "counted f w tab x \<longleftrightarrow> (\<forall>a. finite (holders f w a) \<and> tally (tab a) = card (holders f w a) + x a \<and> tab a \<noteq> Some 0)"

lemma tally_simps [simp]: "tally None = 0" "tally (Some n) = unat n"
  by (simp_all add: tally_def)

lemma holders_upd: "holders f (w(i := m)) a = (if f m = Some a then insert i (holders f w a) else holders f w a - {i})"
  by (auto simp: holders_def)

lemma counted_same: "f m = f (w i) \<Longrightarrow> counted f (w(i := m)) tab x = counted f w tab x"
proof -
  assume "f m = f (w i)"
  then have "holders f (w(i := m)) = holders f w" by (auto simp: holders_def fun_eq_iff)
  then show ?thesis by (simp add: counted_def)
qed

lemma counted_at:
  assumes "counted f w tab x" "f (w i) = Some a"
  shows "\<exists>n. tab a = Some n \<and> n \<noteq> 0 \<and> unat n = card (holders f w a) + x a \<and> i \<in> holders f w a \<and> finite (holders f w a)"
proof -
  have i: "i \<in> holders f w a" using assms(2) by (simp add: holders_def)
  have t: "finite (holders f w a)" "tally (tab a) = card (holders f w a) + x a" "tab a \<noteq> Some 0" using assms(1) by (simp_all add: counted_def)
  with i have "card (holders f w a) > 0" by (auto simp: card_gt_0_iff)
  with i t show ?thesis by (cases "tab a") auto
qed

lemma counted_upd:
  assumes "counted f w tab x" "\<And>b. b \<noteq> a \<Longrightarrow> holders f w' b = holders f w b" "finite (holders f w' a)"
    "tally p = card (holders f w' a) + x' a" "p \<noteq> Some 0" "\<And>b. b \<noteq> a \<Longrightarrow> x' b = x b"
  shows "counted f w' (tab(a := p)) x'"
  unfolding counted_def
proof (intro allI)
  fix b
  show "finite (holders f w' b) \<and> tally ((tab(a := p)) b) = card (holders f w' b) + x' b \<and> (tab(a := p)) b \<noteq> Some 0"
    using assms by (cases "b = a") (simp_all add: counted_def)
qed

text \<open>A holder lets go, and the object goes with the last.\<close>

lemma counted_drop:
  assumes "counted f w tab x" "f (w i) = Some a" "f m = None"
  shows "\<exists>n. tab a = Some n \<and> counted f (w(i := m)) (tab(a := if n - 1 \<noteq> 0 then Some (n - 1) else None)) x \<and>
    (n - 1 = 0 \<longrightarrow> holders f w a = {i} \<and> x a = 0)"
proof -
  from counted_at[OF assms(1,2)] obtain n where n: "tab a = Some n" "n \<noteq> 0" "unat n = card (holders f w a) + x a" "i \<in> holders f w a" "finite (holders f w a)" by blast
  have u: "unat (n - 1) = unat n - 1" using n(2) by (rule unat_minus_one)
  have c: "card (holders f w a - {i}) = card (holders f w a) - 1" "card (holders f w a) > 0" using n(4,5) by (auto simp: card_gt_0_iff)
  have z: "n - 1 = 0 \<longleftrightarrow> unat n - 1 = 0" using u by (metis unat_eq_zero)
  have h: "holders f (w(i := m)) a = holders f w a - {i}" using assms(3) by (simp add: holders_upd)
  have "counted f (w(i := m)) (tab(a := if n - 1 \<noteq> 0 then Some (n - 1) else None)) x"
  proof (rule counted_upd[OF assms(1)])
    show "holders f (w(i := m)) b = holders f w b" if "b \<noteq> a" for b using that assms(2,3) by (auto simp: holders_def)
    show "tally (if n - 1 \<noteq> 0 then Some (n - 1) else None) = card (holders f (w(i := m)) a) + x a"
      using c n(3) u z by (auto simp: h)
  qed (use n(5) h in auto)
  moreover have "holders f w a = {i} \<and> x a = 0" if "n - 1 = 0"
  proof -
    from that z n(2,3) c(2) have e: "card (holders f w a) = 1" "x a = 0" by auto
    from e(1) obtain k where "holders f w a = {k}" by (rule card_1_singletonE)
    with e(2) n(4) show ?thesis by auto
  qed
  ultimately show ?thesis using n(1) by blast
qed

lemma unat_Suc: "unat (n :: u32) + 1 < 2 ^ 32 \<Longrightarrow> unat (n + 1) = unat n + 1"
  by (simp add: unat_word_ariths)

lemma counted_inc:
  assumes "counted f w tab x" "tab a = Some n" "f (w i) = None" "f m = Some a" "card (holders f w a) + x a + 1 < 2 ^ 32"
  shows "counted f (w(i := m)) (tab(a \<mapsto> n + 1)) x"
proof -
  have n: "unat n = card (holders f w a) + x a" "finite (holders f w a)" using assms(1,2) unfolding counted_def by (metis tally_simps(2))+
  have i: "i \<notin> holders f w a" using assms(3) by (simp add: holders_def)
  have u: "unat (n + 1) = unat n + 1" using n(1) assms(5) by (intro unat_Suc) simp
  show ?thesis
  proof (rule counted_upd[OF assms(1)])
    show "holders f (w(i := m)) b = holders f w b" if "b \<noteq> a" for b using that assms(3,4) by (auto simp: holders_def)
    show "Some (n + 1) \<noteq> Some 0" using u by (metis Suc_eq_plus1 nat.simps(3) option.inject unat_0)
  qed (use n i u assms(4) in \<open>auto simp: holders_upd\<close>)
qed

lemma counted_free: "counted f w tab x \<Longrightarrow> tab a = None \<Longrightarrow> holders f w a = {} \<and> x a = 0"
  unfolding counted_def by (metis add_is_0 card_0_eq tally_simps(1))

lemma counted_new:
  assumes "counted f w tab x" "tab a = None" "f (w i) = None" "f m = Some a"
  shows "counted f (w(i := m)) (tab(a \<mapsto> 1)) x"
proof (rule counted_upd[OF assms(1)])
  show "holders f (w(i := m)) b = holders f w b" if "b \<noteq> a" for b using that assms(3,4) by (auto simp: holders_def)
qed (use counted_free[OF assms(1,2)] assms(4) in \<open>auto simp: holders_upd\<close>)

lemma counted_move:
  assumes "counted f w tab x" "f (w i) = None" "f m = None" "i \<noteq> j"
  shows "counted f (w(i := w j, j := m)) tab x"
proof -
  have h: "holders f (w(i := w j, j := m)) b = (if f (w j) = Some b then insert i (holders f w b - {j}) else holders f w b)" for b
    using assms(2-4) by (auto simp: holders_def)
  have "card (holders f (w(i := w j, j := m)) b) = card (holders f w b) \<and> finite (holders f (w(i := w j, j := m)) b)" for b
  proof (cases "f (w j) = Some b")
    case True
    then have "j \<in> holders f w b" "i \<notin> holders f w b" "finite (holders f w b)" using assms(1,2) by (auto simp: holders_def counted_def)
    then show ?thesis using True card_Suc_Diff1[of "holders f w b" j] by (simp add: h)
  next
    case False
    then show ?thesis using assms(1) by (simp add: h counted_def)
  qed
  then show ?thesis using assms(1) by (simp add: counted_def)
qed

section \<open>What the counters count\<close>

definition cref :: "msg_t \<Rightarrow> nat option" where
  "cref m = (case m_type m of Lmsg p \<Rightarrow> p | Zclmsg a \<Rightarrow> Some a | _ \<Rightarrow> None)"

definition dref :: "msg_t \<Rightarrow> nat option" where
  "dref m = (if m_type m = Closed then None else m_metadata m)"

definition gref :: "msg_t \<Rightarrow> nat option" where
  "gref m = (if m_type m = Closed then None else case m_group m of Long a \<Rightarrow> Some a | _ \<Rightarrow> None)"

text \<open>The counter of a buffer counts only when the buffer is shared.\<close>

definition live_refs :: "mem \<Rightarrow> nat \<rightharpoonup> u32" where
  "live_refs s a = map_option (\<lambda>c. if \<exists>i\<in>holders cref (objs s) a. \<not> is_shared (objs s i) then 1 else c_refcnt c) (contents s a)"

definition obj_ok :: "msg_t \<Rightarrow> bool" where
  "obj_ok m \<longleftrightarrow> m_type m = Closed \<or> m_group m \<noteq> Wild \<and> (m_type m = Lmsg None \<longrightarrow> m_metadata m = None \<and> gref m = None)"

definition mem_ok :: "nat set \<Rightarrow> mem \<Rightarrow> bool" where
  "mem_ok H s \<longleftrightarrow> counted cref (objs s) (live_refs s) (\<lambda>_. 0) \<and>
     counted dref (objs s) (\<lambda>a. map_option d_refs (metas s a)) (\<lambda>a. if a \<in> H then 1 else 0) \<and>
     counted gref (objs s) (\<lambda>a. map_option snd (groups s a)) (\<lambda>_. 0) \<and>
     (\<forall>i. obj_ok (objs s i) \<and> (m_type (objs s i) \<noteq> Closed \<longrightarrow> i < 2 ^ 31)) \<and>
     (\<forall>i a c. m_type (objs s i) = Zclmsg a \<longrightarrow> contents s a = Some c \<longrightarrow> c_ffn c \<noteq> None)"

lemma ref_simps [simp]:
  "cref (m\<lparr>m_flags := f\<rparr>) = cref m" "cref (m\<lparr>m_metadata := d\<rparr>) = cref m" "cref (m\<lparr>m_routing_id := r\<rparr>) = cref m" "cref (m\<lparr>m_group := g\<rparr>) = cref m"
  "dref (m\<lparr>m_flags := f\<rparr>) = dref m" "dref (m\<lparr>m_routing_id := r\<rparr>) = dref m" "dref (m\<lparr>m_group := g\<rparr>) = dref m"
  "gref (m\<lparr>m_flags := f\<rparr>) = gref m" "gref (m\<lparr>m_routing_id := r\<rparr>) = gref m" "gref (m\<lparr>m_metadata := d\<rparr>) = gref m"
  "cref (m\<lparr>m_type := Closed\<rparr>) = None" "dref (m\<lparr>m_type := Closed\<rparr>) = None" "gref (m\<lparr>m_type := Closed\<rparr>) = None"
  "dref (blank t) = None" "gref (blank t) = None"
  by (simp_all add: cref_def dref_def gref_def blank_def)

lemma put_simps [simp]: "objs (put i m s) = (objs s)(i := m)" "contents (put i m s) = contents s" "metas (put i m s) = metas s"
  "groups (put i m s) = groups s" "released (put i m s) = released s" "held (put i m s) = held s"
  by (simp_all add: put_def)

lemma set_content_simps [simp]: "objs (set_content a c s) = objs s" "contents (set_content a c s) = (contents s)(a := c)"
  "metas (set_content a c s) = metas s" "groups (set_content a c s) = groups s" "released (set_content a c s) = released s" "held (set_content a c s) = held s"
  by (simp_all add: set_content_def)

lemma live_at:
  assumes "mem_ok H s" "cref (objs s i) = Some a"
  shows "\<exists>c n. contents s a = Some c \<and> live_refs s a = Some n \<and> n \<noteq> 0 \<and> unat n = card (holders cref (objs s) a) \<and> i \<in> holders cref (objs s) a \<and>
    finite (holders cref (objs s) a) \<and> (\<not> is_shared (objs s i) \<longrightarrow> n = 1 \<and> holders cref (objs s) a = {i}) \<and>
    (is_shared (objs s i) \<longrightarrow> n = c_refcnt c \<and> (\<forall>k\<in>holders cref (objs s) a. is_shared (objs s k)))"
proof -
  have "counted cref (objs s) (live_refs s) (\<lambda>_. 0)" using assms(1) by (simp add: mem_ok_def)
  from counted_at[OF this assms(2)] obtain n where n: "live_refs s a = Some n" "n \<noteq> 0" "unat n = card (holders cref (objs s) a)" "i \<in> holders cref (objs s) a"
    "finite (holders cref (objs s) a)" by auto
  from n(1) obtain c where c: "contents s a = Some c" "n = (if \<exists>i\<in>holders cref (objs s) a. \<not> is_shared (objs s i) then 1 else c_refcnt c)"
    by (auto simp: live_refs_def)
  have sole: "holders cref (objs s) a = {i}" if "k \<in> holders cref (objs s) a" "\<not> is_shared (objs s k)" for k
  proof -
    have "n = 1" using that c(2) by auto
    then have "card (holders cref (objs s) a) = 1" using n(3) by simp
    then obtain l where "holders cref (objs s) a = {l}" by (rule card_1_singletonE)
    with n(4) show ?thesis by auto
  qed
  have "n = 1 \<and> holders cref (objs s) a = {i}" if "\<not> is_shared (objs s i)" using sole[OF n(4) that] c(2) n(4) that by auto
  moreover have "n = c_refcnt c \<and> (\<forall>k\<in>holders cref (objs s) a. is_shared (objs s k))" if "is_shared (objs s i)"
  proof -
    have "is_shared (objs s k)" if "k \<in> holders cref (objs s) a" for k using sole[OF that] that \<open>is_shared (objs s i)\<close> by (cases "is_shared (objs s k)") auto
    with c(2) show ?thesis by auto
  qed
  ultimately show ?thesis using n c(1) by auto
qed

text \<open>Without its own references, an object may be replaced.\<close>

lemma live_refs_cong:
  assumes "contents s' b = contents s b" "\<And>k. cref (objs s k) = Some b \<or> cref (objs s' k) = Some b \<Longrightarrow> cref (objs s' k) = cref (objs s k) \<and> is_shared (objs s' k) = is_shared (objs s k)"
  shows "live_refs s' b = live_refs s b"
proof -
  have "cref (objs s' k) = Some b \<longleftrightarrow> cref (objs s k) = Some b" for k using assms(2)[of k] by metis
  then have "holders cref (objs s') b = holders cref (objs s) b" by (simp add: holders_def)
  moreover have "is_shared (objs s' k) = is_shared (objs s k)" if "k \<in> holders cref (objs s) b" for k using assms(2) that by (auto simp: holders_def)
  ultimately have "(\<exists>i\<in>holders cref (objs s') b. \<not> is_shared (objs s' i)) = (\<exists>i\<in>holders cref (objs s) b. \<not> is_shared (objs s i))" by auto
  then show ?thesis by (simp add: live_refs_def assms(1))
qed

definition vacant :: "msg_t \<Rightarrow> bool" where "vacant m \<longleftrightarrow> m_type m = Closed \<or> m_type m = Lmsg None"

lemma vacant_refs: "vacant m \<Longrightarrow> obj_ok m \<Longrightarrow> cref m = None \<and> dref m = None \<and> gref m = None"
  by (auto simp: vacant_def obj_ok_def cref_def dref_def gref_def)

lemma put_ok:
  assumes "mem_ok H s" "cref (objs s i) = None" "dref (objs s i) = None" "gref (objs s i) = None" "i < 2 ^ 31" "obj_ok m" "cref m = None" "dref m = None" "gref m = None"
  shows "mem_ok H (put i m s)"
proof -
  have "live_refs (put i m s) = live_refs s" using assms(2,7) by (intro ext live_refs_cong) (auto split: if_splits)
  moreover have "m_type m \<noteq> Zclmsg a" for a using assms(7) by (auto simp: cref_def)
  ultimately show ?thesis using assms by (simp add: mem_ok_def counted_same)
qed

lemma put_new_ok:
  assumes "mem_ok H s" "cref (objs s i) = None" "dref (objs s i) = None" "gref (objs s i) = None" "i < 2 ^ 31" "contents s a = None" "m = blank t" "cref m = Some a"
    "\<And>b. t = Zclmsg b \<Longrightarrow> c_ffn c \<noteq> None"
  shows "mem_ok H (put i m (set_content a (Some c) s))"
proof -
  let ?s = "put i m (set_content a (Some c) s)"
  have k: "counted cref (objs s) (live_refs s) (\<lambda>_. 0)" using assms(1) by (simp add: mem_ok_def)
  have n: "live_refs s a = None" using assms(6) by (simp add: live_refs_def)
  from counted_free[OF k this] have e: "holders cref (objs s) a = {}" by simp
  have "live_refs ?s = (live_refs s)(a \<mapsto> 1)"
  proof
    fix b
    show "live_refs ?s b = ((live_refs s)(a \<mapsto> 1)) b"
    proof (cases "b = a")
      case True
      have "holders cref ((objs s)(i := m)) a = {i}" using e assms(8) by (simp add: holders_upd)
      moreover have "\<not> is_shared m" using assms(7) by (simp add: is_shared_def blank_def)
      ultimately show ?thesis using True by (simp add: live_refs_def)
    next
      case False
      then show ?thesis using assms(2,8) by (simp, intro live_refs_cong) (auto split: if_splits)
    qed
  qed
  then have "counted cref (objs ?s) (live_refs ?s) (\<lambda>_. 0)" using counted_new[OF k n, of i m] assms(2,8) by simp
  moreover have "m_type m = t" "obj_ok m" using assms(7,8) by (auto simp: obj_ok_def blank_def cref_def)
  moreover have "m_type (objs s k) = Zclmsg a \<Longrightarrow> False" for k using e by (auto simp: holders_def dest!: spec[of _ k] simp: cref_def)
  moreover have "b = a" if "t = Zclmsg b" for b using that assms(7,8) by (simp add: cref_def blank_def)
  ultimately show ?thesis using assms(1,3-5,7,9) by (auto simp: mem_ok_def counted_same)
qed

section \<open>Buffers of the user\<close>

text \<open>The calls that are still owed to the functions of the user.\<close>

definition fns :: "content_t \<Rightarrow> (nat \<times> nat) multiset" where
  "fns c = (case c_ffn c of None \<Rightarrow> {#} | Some f \<Rightarrow> {#(f, c_hint c)#})"

definition owns :: "mem \<Rightarrow> (nat \<times> nat) multiset" where
  "owns s = (\<Sum>a\<in>dom (contents s). fns (the (contents s a)))"

lemma owns_put [simp]: "owns (put i m s) = owns s"
  by (simp add: owns_def)

lemma owns_cong: "contents s' = contents s \<Longrightarrow> owns s' = owns s"
  by (simp add: owns_def)

lemma finite_contents: "mem_ok H s \<Longrightarrow> finite (dom (contents s))"
proof -
  assume m: "mem_ok H s"
  have "dom (contents s) \<subseteq> (\<lambda>i. the (cref (objs s i))) ` {..<2 ^ 31}"
  proof
    fix a
    assume "a \<in> dom (contents s)"
    then obtain n where n: "live_refs s a = Some n" by (auto simp: live_refs_def)
    have c: "counted cref (objs s) (live_refs s) (\<lambda>_. 0)" using m by (simp add: mem_ok_def)
    then have "tally (live_refs s a) = card (holders cref (objs s) a) \<and> live_refs s a \<noteq> Some 0" by (simp add: counted_def)
    then have "card (holders cref (objs s) a) \<noteq> 0" using n by (metis tally_simps(2) unat_eq_zero)
    then obtain i where i: "i \<in> holders cref (objs s) a" by (metis card.empty ex_in_conv)
    then have "m_type (objs s i) \<noteq> Closed" by (auto simp: holders_def cref_def)
    then have "i < 2 ^ 31" using m by (simp add: mem_ok_def)
    then show "a \<in> (\<lambda>i. the (cref (objs s i))) ` {..<2 ^ 31}" using i by (intro image_eqI[of _ _ i]) (auto simp: holders_def)
  qed
  then show ?thesis by (rule finite_subset) simp
qed

lemma owns_new: "finite (dom (contents s)) \<Longrightarrow> contents s a = None \<Longrightarrow> owns (set_content a (Some c) s) = owns s + fns c"
proof -
  assume a: "finite (dom (contents s))" "contents s a = None"
  have "(\<Sum>b\<in>dom (contents s). fns (the (((contents s)(a \<mapsto> c)) b))) = owns s"
    unfolding owns_def using a(2) by (intro sum.cong) (auto simp: domIff)
  then show ?thesis using a by (simp add: owns_def domIff)
qed

lemma owns_free: "finite (dom (contents s)) \<Longrightarrow> contents s a = Some c \<Longrightarrow> owns (set_content a None s) + fns c = owns s"
proof -
  assume a: "finite (dom (contents s))" "contents s a = Some c"
  have d: "dom ((contents s)(a := None)) = dom (contents s) - {a}" by auto
  have "(\<Sum>b\<in>dom (contents s) - {a}. fns (the (((contents s)(a := None)) b))) = (\<Sum>b\<in>dom (contents s) - {a}. fns (the (contents s b)))"
    by (intro sum.cong) auto
  then show ?thesis using a sum.remove[OF a(1), of a "\<lambda>b. fns (the (contents s b))"] by (simp add: owns_def d domI)
qed

lemma owns_upd: "finite (dom (contents s)) \<Longrightarrow> contents s a = Some c \<Longrightarrow> fns c' = fns c \<Longrightarrow> owns (set_content a (Some c') s) = owns s"
proof -
  assume a: "finite (dom (contents s))" "contents s a = Some c" "fns c' = fns c"
  have "owns (set_content a (Some c') (set_content a None s)) = owns (set_content a None s) + fns c'" using a(1) by (intro owns_new) auto
  moreover have "contents (set_content a (Some c') (set_content a None s)) = contents (set_content a (Some c') s)" by simp
  ultimately show ?thesis using owns_free[OF a(1,2)] a(3) by (metis owns_cong)
qed

section \<open>Closing\<close>

definition kin :: "content_t \<Rightarrow> content_t \<Rightarrow> bool" where
  "kin c c' \<longleftrightarrow> c_data c' = c_data c \<and> c_ffn c' = c_ffn c \<and> c_hint c' = c_hint c"

text \<open>Buffers keep all but their counters, and only those without holders other than \<open>i\<close> go.\<close>

definition keeps :: "nat \<Rightarrow> mem \<Rightarrow> mem \<Rightarrow> bool" where
  "keeps i s s' \<longleftrightarrow> (\<forall>a c. contents s' a = Some c \<longrightarrow> (\<exists>c0. contents s a = Some c0 \<and> kin c0 c)) \<and>
     (\<forall>k a. k \<noteq> i \<longrightarrow> cref (objs s k) = Some a \<longrightarrow> contents s' a \<noteq> None) \<and>
     mset (released s') + owns s' = mset (released s) + owns s"

lemma kin_refl [simp]: "kin c c" "kin c (c\<lparr>c_refcnt := n\<rparr>)"
  by (simp_all add: kin_def)

lemma kin_fns: "kin c c' \<Longrightarrow> fns c' = fns c"
  by (simp add: kin_def fns_def split: option.splits)

lemma keeps_refl: "mem_ok H s \<Longrightarrow> keeps i s s"
  using live_at by (fastforce simp: keeps_def)

definition closed :: "msg_t \<Rightarrow> msg_t" where "closed m = m\<lparr>m_type := Closed, m_metadata := None\<rparr>"

lemma closed_refs [simp]: "cref (closed m) = None" "dref (closed m) = None" "gref (closed m) = None" "m_type (closed m) = Closed" "obj_ok (closed m)"
  by (simp_all add: closed_def cref_def dref_def gref_def obj_ok_def)

lemma freed_keeps:
  assumes "mem_ok H s" "contents s a = Some c" "holders cref (objs s) a \<subseteq> {i}"
  shows "keeps i s (free_content a c s)"
proof -
  have "owns (free_content a c s) = owns (set_content a None s)" by (simp add: free_content_def owns_cong)
  then have "mset (released (free_content a c s)) + owns (free_content a c s) = mset (released s) + owns s"
    using owns_free[OF finite_contents[OF assms(1)] assms(2)] by (auto simp: free_content_def fns_def ac_simps split: option.splits)
  moreover have "contents (free_content a c s) b \<noteq> None" if "k \<noteq> i" "cref (objs s k) = Some b" for k b
  proof -
    from that assms(3) have "b \<noteq> a" by (auto simp: holders_def)
    with live_at[OF assms(1) that(2)] show ?thesis by (auto simp: free_content_def)
  qed
  ultimately show ?thesis by (auto simp: keeps_def free_content_def split: if_splits)
qed

lemma recount_keeps:
  assumes "mem_ok H s" "contents s a = Some c"
  shows "keeps i s (set_content a (Some (c\<lparr>c_refcnt := n\<rparr>)) s)"
proof -
  have "owns (set_content a (Some (c\<lparr>c_refcnt := n\<rparr>)) s) = owns s" using assms by (intro owns_upd[OF finite_contents]) (auto simp: fns_def split: option.splits)
  moreover have "contents (set_content a (Some (c\<lparr>c_refcnt := n\<rparr>)) s) b \<noteq> None" if "cref (objs s k) = Some b" for k b
    using live_at[OF assms(1) that] by auto
  ultimately show ?thesis using assms(2) by (auto simp: keeps_def split: if_splits)
qed

lemma release_ok:
  assumes "mem_ok H s" "\<not> vacant (objs s i)"
  shows "\<exists>s1. release_content (objs s i) s = Inr s1 \<and> objs s1 = objs s \<and> metas s1 = metas s \<and> groups s1 = groups s \<and> keeps i s s1 \<and>
    counted cref ((objs s)(i := closed (objs s i))) (live_refs (put i (closed (objs s i)) s1)) (\<lambda>_. 0)"
proof (cases "cref (objs s i)")
  case None
  then have r: "release_content (objs s i) s = Inr s" using assms(2) by (auto simp: release_content_def cref_def vacant_def split: mtype.splits)
  have "live_refs (put i (closed (objs s i)) s) = live_refs s" using None by (intro ext live_refs_cong) (auto split: if_splits)
  moreover have "counted cref (objs s) (live_refs s) (\<lambda>_. 0)" using assms(1) by (simp add: mem_ok_def)
  ultimately show ?thesis using r None keeps_refl[OF assms(1)] by (auto simp: counted_same)
next
  case (Some a)
  from live_at[OF assms(1) Some] obtain c n where c: "contents s a = Some c" "live_refs s a = Some n"
    and u: "\<not> is_shared (objs s i) \<Longrightarrow> n = 1 \<and> holders cref (objs s) a = {i}"
    and sh: "is_shared (objs s i) \<Longrightarrow> n = c_refcnt c \<and> (\<forall>k\<in>holders cref (objs s) a. is_shared (objs s k))" by blast
  let ?last = "n - 1 = 0"
  define s1 where "s1 = (if ?last then free_content a c s else set_content a (Some (c\<lparr>c_refcnt := n - 1\<rparr>)) s)"
  have cnt: "counted cref (objs s) (live_refs s) (\<lambda>_. 0)" using assms(1) by (simp add: mem_ok_def)
  from counted_drop[OF cnt Some, of "closed (objs s i)"] c(2)
  have d: "counted cref ((objs s)(i := closed (objs s i))) ((live_refs s)(a := if n - 1 \<noteq> 0 then Some (n - 1) else None)) (\<lambda>_. 0)"
    "?last \<Longrightarrow> holders cref (objs s) a = {i}" by auto
  have f: "c_ffn c \<noteq> None" if "m_type (objs s i) = Zclmsg p" for p
  proof -
    have "p = a" using that Some by (simp add: cref_def)
    with that c(1) assms(1) show ?thesis by (auto simp: mem_ok_def)
  qed
  have "release_content (objs s i) s = Inr s1"
    using Some c(1) u sh f unfolding s1_def
    by (auto simp: release_content_def cref_def content_at_def drop_content_def counter_sub_def split: mtype.splits)
  moreover have "objs s1 = objs s \<and> metas s1 = metas s \<and> groups s1 = groups s" by (simp add: s1_def free_content_def)
  moreover have "keeps i s s1" unfolding s1_def using freed_keeps[OF assms(1) c(1)] d(2) recount_keeps[OF assms(1) c(1)] by simp
  moreover have "live_refs (put i (closed (objs s i)) s1) = (live_refs s)(a := if n - 1 \<noteq> 0 then Some (n - 1) else None)"
  proof
    fix b
    show "live_refs (put i (closed (objs s i)) s1) b = ((live_refs s)(a := if n - 1 \<noteq> 0 then Some (n - 1) else None)) b"
    proof (cases "b = a")
      case True
      have "\<forall>k\<in>holders cref ((objs s)(i := closed (objs s i))) a. is_shared (((objs s)(i := closed (objs s i))) k)" if "\<not> ?last"
      proof -
        have "is_shared (objs s i)" using that u by fastforce
        then show ?thesis using sh by (simp add: holders_upd)
      qed
      then have "\<not> ?last \<Longrightarrow> live_refs (put i (closed (objs s i)) s1) a = Some (n - 1)" by (simp add: live_refs_def s1_def)
      moreover have "?last \<Longrightarrow> live_refs (put i (closed (objs s i)) s1) a = None" by (simp add: live_refs_def s1_def free_content_def)
      ultimately show ?thesis using True by (simp split: if_splits)
    next
      case False
      then show ?thesis using Some by (simp, intro live_refs_cong) (auto simp: s1_def free_content_def split: if_splits)
    qed
  qed
  ultimately show ?thesis using d(1) by auto
qed

abbreviation meta_refs :: "mem \<Rightarrow> nat \<rightharpoonup> u32" where "meta_refs s \<equiv> \<lambda>a. map_option d_refs (metas s a)"
abbreviation group_refs :: "mem \<Rightarrow> nat \<rightharpoonup> u32" where "group_refs s \<equiv> \<lambda>a. map_option snd (groups s a)"

lemma metadata_drop_ok:
  assumes "counted dref (objs s) (meta_refs s) x" "dref (objs s i) = Some a" "dref m = None"
  shows "\<exists>s'. metadata_drop a s = Inr s' \<and> s' = s\<lparr>metas := metas s'\<rparr> \<and> counted dref ((objs s)(i := m)) (meta_refs s') x"
proof -
  from counted_drop[OF assms] obtain n where n: "meta_refs s a = Some n"
    "counted dref ((objs s)(i := m)) ((meta_refs s)(a := if n - 1 \<noteq> 0 then Some (n - 1) else None)) x" by auto
  then obtain d where d: "metas s a = Some d" "d_refs d = n" by auto
  let ?s = "s\<lparr>metas := (metas s)(a := if n - 1 \<noteq> 0 then Some (d\<lparr>d_refs := n - 1\<rparr>) else None)\<rparr>"
  have "meta_refs ?s = (meta_refs s)(a := if n - 1 \<noteq> 0 then Some (n - 1) else None)" by auto
  then show ?thesis using n(2) d by (intro exI[of _ ?s]) (simp add: metadata_drop_def counter_sub_def)
qed

lemma drop_group_ok:
  assumes "counted gref (objs s) (group_refs s) x" "gref (objs s i) = Some a" "gref m = None"
  shows "\<exists>s'. drop_group (objs s i) s = Inr s' \<and> s' = s\<lparr>groups := groups s'\<rparr> \<and> counted gref ((objs s)(i := m)) (group_refs s') x \<and>
    (\<forall>k b. k \<noteq> i \<longrightarrow> gref (objs s k) = Some b \<longrightarrow> map_option fst (groups s' b) = map_option fst (groups s b))"
proof -
  from counted_drop[OF assms] obtain n where n: "group_refs s a = Some n"
    "counted gref ((objs s)(i := m)) ((group_refs s)(a := if n - 1 \<noteq> 0 then Some (n - 1) else None)) x" "n - 1 = 0 \<longrightarrow> holders gref (objs s) a = {i}" by auto
  then obtain g where g: "groups s a = Some (g, n)" by auto
  let ?s = "s\<lparr>groups := (groups s)(a := if n - 1 \<noteq> 0 then Some (g, n - 1) else None)\<rparr>"
  have "m_group (objs s i) = Long a" using assms(2) by (auto simp: gref_def split: if_splits mgroup.splits)
  then have r: "drop_group (objs s i) s = Inr ?s" using g by (simp add: drop_group_def counter_sub_def)
  have e: "group_refs ?s = (group_refs s)(a := if n - 1 \<noteq> 0 then Some (n - 1) else None)" by auto
  have "map_option fst (groups ?s b) = map_option fst (groups s b)" if "k \<noteq> i" "gref (objs s k) = Some b" for k b
  proof (cases "b = a")
    case True
    with that n(3) have "n - 1 \<noteq> 0" by (auto simp: holders_def)
    with True g show ?thesis by simp
  qed simp
  with r e n(2) show ?thesis by (intro exI[of _ ?s]) simp
qed

section \<open>Messages as values\<close>

datatype mkind = K_data "byte list" | K_delimiter | K_join | K_leave

record mval =
  v_kind :: mkind
  v_flags :: byte
  v_meta :: "nat option"
  v_rid :: u32
  v_name :: "byte list"

datatype mstate = Shut | Broken | Open mval

text \<open>What a message says, without how it is stored.\<close>

definition kind_of :: "mem \<Rightarrow> msg_t \<Rightarrow> mkind" where
  "kind_of s m = (case m_type m of
     Vsm b \<Rightarrow> K_data b | Cmsg b \<Rightarrow> K_data b
   | Lmsg p \<Rightarrow> K_data (c_data (the (contents s (the p)))) | Zclmsg a \<Rightarrow> K_data (c_data (the (contents s a)))
   | Join \<Rightarrow> K_join | Leave \<Rightarrow> K_leave | _ \<Rightarrow> K_delimiter)"

definition name_of :: "mem \<Rightarrow> msg_t \<Rightarrow> byte list" where
  "name_of s m = (case m_group m of Short g \<Rightarrow> g | Long a \<Rightarrow> fst (the (groups s a)) | Wild \<Rightarrow> [])"

definition view :: "mem \<Rightarrow> msg_t \<Rightarrow> mstate" where
  "view s m = (if m_type m = Closed then Shut else if m_type m = Lmsg None then Broken
     else Open \<lparr>v_kind = kind_of s m, v_flags = m_flags m AND NOT msg_shared, v_meta = m_metadata m, v_rid = m_routing_id m, v_name = name_of s m\<rparr>)"

lemma view_cong:
  assumes "\<And>a. cref m = Some a \<Longrightarrow> c_data (the (contents s' a)) = c_data (the (contents s a))"
    "\<And>a. gref m = Some a \<Longrightarrow> fst (the (groups s' a)) = fst (the (groups s a))"
  shows "view s' m = view s m"
proof -
  have "kind_of s' m = kind_of s m" if "m_type m \<noteq> Closed" "m_type m \<noteq> Lmsg None"
    using assms(1) that by (auto simp: kind_of_def cref_def split: mtype.splits)
  moreover have "name_of s' m = name_of s m" if "m_type m \<noteq> Closed"
    using assms(2) that by (auto simp: name_of_def gref_def split: mgroup.splits)
  ultimately show ?thesis by (simp add: view_def)
qed

lemma keeps_view:
  assumes "keeps i s s'" "k \<noteq> i" "mem_ok H s" "\<And>b. gref (objs s k) = Some b \<Longrightarrow> map_option fst (groups s' b) = map_option fst (groups s b)"
  shows "view s' (objs s k) = view s (objs s k)"
proof (rule view_cong)
  fix a
  assume a: "cref (objs s k) = Some a"
  then obtain c' where "contents s' a = Some c'" using assms(1,2) unfolding keeps_def by (metis not_None_eq)
  with assms(1) show "c_data (the (contents s' a)) = c_data (the (contents s a))" by (fastforce simp: keeps_def kin_def)
next
  fix b
  assume b: "gref (objs s k) = Some b"
  have "counted gref (objs s) (group_refs s) (\<lambda>_. 0)" using assms(3) by (simp add: mem_ok_def)
  from counted_at[OF this b] assms(4)[OF b] show "fst (the (groups s' b)) = fst (the (groups s b))" by auto
qed

lemma close_ok:
  assumes "mem_ok H s" "\<not> vacant (objs s i)"
  shows "\<exists>s'. m_close i s = Inr (True, s') \<and> mem_ok H s' \<and> objs s' = (objs s)(i := closed (objs s i)) \<and> keeps i s s' \<and>
    (\<forall>k. k \<noteq> i \<longrightarrow> view s' (objs s k) = view s (objs s k))"
proof -
  let ?m = "objs s i" and ?x = "\<lambda>a. if a \<in> H then 1 else 0 :: nat"
  from release_ok[OF assms] obtain s1 where s1: "release_content ?m s = Inr s1" "objs s1 = objs s" "metas s1 = metas s" "groups s1 = groups s" "keeps i s s1"
    "counted cref ((objs s)(i := closed ?m)) (live_refs (put i (closed ?m) s1)) (\<lambda>_. 0)" by blast
  have op: "m_type ?m \<noteq> Closed" "obj_ok ?m" using assms by (auto simp: vacant_def mem_ok_def)
  have md: "counted dref (objs s1) (meta_refs s1) ?x" using assms(1) s1(2,3) by (simp add: mem_ok_def)
  have "\<exists>s2. (case m_metadata ?m of None \<Rightarrow> Inr s1 | Some a \<Rightarrow> metadata_drop a s1) = Inr s2 \<and> s2 = s1\<lparr>metas := metas s2\<rparr> \<and>
      counted dref ((objs s)(i := closed ?m)) (meta_refs s2) ?x"
  proof (cases "m_metadata ?m")
    case None
    then have "dref (closed ?m) = dref (objs s1 i)" using s1(2) by (simp add: dref_def)
    with md None s1(2) show ?thesis by (intro exI[of _ s1]) (simp add: counted_same)
  next
    case (Some a)
    then have "dref (objs s1 i) = Some a" using op(1) s1(2) by (simp add: dref_def)
    from metadata_drop_ok[OF md this, of "closed ?m"] Some s1(2) show ?thesis by auto
  qed
  then obtain s2 where s2: "(case m_metadata ?m of None \<Rightarrow> Inr s1 | Some a \<Rightarrow> metadata_drop a s1) = Inr s2" "s2 = s1\<lparr>metas := metas s2\<rparr>"
    "counted dref ((objs s)(i := closed ?m)) (meta_refs s2) ?x" by blast
  have o2: "objs s2 = objs s" "groups s2 = groups s" "contents s2 = contents s1" "released s2 = released s1" using s1(2,4) s2(2)
    by (metis mem.select_convs mem.surjective mem.update_convs(3))+
  have gr: "counted gref (objs s2) (group_refs s2) (\<lambda>_. 0)" using assms(1) o2 by (simp add: mem_ok_def)
  have "\<exists>s3. drop_group ?m s2 = Inr s3 \<and> s3 = s2\<lparr>groups := groups s3\<rparr> \<and> counted gref ((objs s)(i := closed ?m)) (group_refs s3) (\<lambda>_. 0) \<and>
    (\<forall>k b. k \<noteq> i \<longrightarrow> gref (objs s k) = Some b \<longrightarrow> map_option fst (groups s3 b) = map_option fst (groups s b))"
  proof (cases "gref ?m")
    case None
    then have "drop_group ?m s2 = Inr s2" using op by (auto simp: gref_def drop_group_def obj_ok_def split: mgroup.splits)
    with gr None o2 show ?thesis by (intro exI[of _ s2]) (simp add: counted_same)
  next
    case (Some a)
    then have "gref (objs s2 i) = Some a" using o2 by simp
    from drop_group_ok[OF gr this, of "closed ?m"] o2 show ?thesis by auto
  qed
  then obtain s3 where s3: "drop_group ?m s2 = Inr s3" "s3 = s2\<lparr>groups := groups s3\<rparr>" "counted gref ((objs s)(i := closed ?m)) (group_refs s3) (\<lambda>_. 0)"
    "\<And>k b. k \<noteq> i \<Longrightarrow> gref (objs s k) = Some b \<Longrightarrow> map_option fst (groups s3 b) = map_option fst (groups s b)" by blast
  have o3: "objs s3 = objs s" "metas s3 = metas s2" "contents s3 = contents s1" "released s3 = released s1" using o2 s3(2)
    by (metis mem.select_convs mem.surjective mem.update_convs(4))+
  let ?s = "put i (closed ?m) s3"
  have r: "m_close i s = Inr (True, ?s)" using op(1) s1(1) s2(1) s3(1) by (simp add: m_close_def m_check_def closed_def)
  have k: "keeps i s ?s" using s1(5) o3 by (simp add: keeps_def owns_cong[of s3 s1])
  have lr: "live_refs ?s = live_refs (put i (closed ?m) s1)" by (simp add: live_refs_def fun_eq_iff o3 s1(2))
  have "m_type (objs ?s j) = Zclmsg a \<Longrightarrow> contents ?s a = Some c \<Longrightarrow> c_ffn c \<noteq> None" for j a c
    using k assms(1) o3 by (fastforce simp: keeps_def kin_def mem_ok_def split: if_splits)
  then have "mem_ok H ?s" using assms(1) s1(6) s2(3) s3(3) lr o3 by (auto simp: mem_ok_def)
  moreover have "view ?s (objs s j) = view s (objs s j)" if "j \<noteq> i" for j
    by (rule keeps_view[OF k that assms(1)]) (use s3(4)[OF that] in simp)
  ultimately show ?thesis using r k o3 by auto
qed

lemma held_close: "m_close i s = Inr (b, s') \<Longrightarrow> held s' = held s"
  by (auto simp: m_close_def Let_def bindE_eq_Inr release_content_def content_at_def free_content_def drop_content_def counter_sub_def
      drop_group_def metadata_drop_def split: if_splits mtype.splits option.splits mgroup.splits)

section \<open>Histories\<close>

datatype mop =
    Op_init nat
  | Op_init_size nat u64 "nat option" "nat \<Rightarrow> byte"
  | Op_init_any nat "byte list" "nat option" nat "nat option" "nat option" "nat \<Rightarrow> byte"
  | Op_init_mark nat mkind
  | Op_init_topic nat bool "byte list" "nat option" "nat \<Rightarrow> byte"
  | Op_close nat
  | Op_move nat nat
  | Op_copy nat nat
  | Op_read nat
  | Op_size nat
  | Op_fill nat "byte list"
  | Op_shrink nat nat
  | Op_set_flags nat byte
  | Op_reset_flags nat byte
  | Op_new_metadata nat "string \<rightharpoonup> string"
  | Op_drop_metadata nat
  | Op_set_metadata nat nat
  | Op_reset_metadata nat
  | Op_set_routing_id nat u32
  | Op_group nat
  | Op_set_group nat "byte list" "nat option"
  | Op_distribute nat "(nat \<times> bool) list"

datatype obs = Rc bool | Got "byte list" | Num nat

definition plain_rc :: "mem result \<Rightarrow> (obs \<times> mem) result" where "plain_rc r = bindE r (\<lambda>s. Inr (Rc True, s))"
definition with_rc :: "(bool \<times> mem) result \<Rightarrow> (obs \<times> mem) result" where "with_rc r = bindE r (\<lambda>(b, s). Inr (Rc b, s))"

fun m_step :: "mop \<Rightarrow> mem \<Rightarrow> (obs \<times> mem) result" where
  "m_step (Op_init i) s = plain_rc (Inr (m_init i s))"
| "m_step (Op_init_size i sz al junk) s = with_rc (Inr (m_init_size al junk sz i s))"
| "m_step (Op_init_any i bs ffn hint content al junk) s = with_rc (m_init_any al junk bs ffn hint content i s)"
| "m_step (Op_init_mark i k) s = plain_rc (Inr (case k of K_join \<Rightarrow> m_init_join i s | K_leave \<Rightarrow> m_init_leave i s | _ \<Rightarrow> m_init_delimiter i s))"
| "m_step (Op_init_topic i sub t al junk) s = with_rc (if sub then m_init_subscribe al junk t i s else m_init_cancel al junk t i s)"
| "m_step (Op_close i) s = with_rc (m_close i s)"
| "m_step (Op_move i j) s = with_rc (m_move i j s)"
| "m_step (Op_copy i j) s = with_rc (m_copy i j s)"
| "m_step (Op_read i) s = bindE (m_data i s) (\<lambda>b. Inr (Got b, s))"
| "m_step (Op_size i) s = bindE (m_size i s) (\<lambda>n. Inr (Num n, s))"
| "m_step (Op_fill i bs) s = plain_rc (m_fill bs i s)"
| "m_step (Op_shrink i n) s = plain_rc (m_shrink n i s)"
| "m_step (Op_set_flags i f) s = plain_rc (Inr (m_set_flags f i s))"
| "m_step (Op_reset_flags i f) s = plain_rc (Inr (m_reset_flags f i s))"
| "m_step (Op_new_metadata a d) s = plain_rc (Inr (s\<lparr>metas := (metas s)(a \<mapsto> metadata_new d), held := insert a (held s)\<rparr>))"
| "m_step (Op_drop_metadata a) s = plain_rc (bindE (metadata_drop a s) (\<lambda>s1. Inr (s1\<lparr>held := held s1 - {a}\<rparr>)))"
| "m_step (Op_set_metadata i a) s = plain_rc (m_set_metadata a i s)"
| "m_step (Op_reset_metadata i) s = plain_rc (m_reset_metadata i s)"
| "m_step (Op_set_routing_id i r) s = (if r = 0 then plain_rc (Inr (m_reset_routing_id i s)) else with_rc (Inr (m_set_routing_id r i s)))"
| "m_step (Op_group i) s = bindE (m_group_name i s) (\<lambda>g. Inr (Got g, s))"
| "m_step (Op_set_group i g al) s = with_rc (m_set_group al g i s)"
| "m_step (Op_distribute i ws) s = plain_rc (m_distribute i ws s)"

text \<open>The specification: messages are values that are copied.\<close>

record mspec =
  vals :: "nat \<Rightarrow> mstate"
  given :: "(nat \<times> nat) multiset"

definition fresh :: "mkind \<Rightarrow> byte \<Rightarrow> mstate" where
  "fresh k f = Open \<lparr>v_kind = k, v_flags = f, v_meta = None, v_rid = 0, v_name = []\<rparr>"

fun upd_val :: "(mval \<Rightarrow> mval) \<Rightarrow> mstate \<Rightarrow> mstate" where
  "upd_val f (Open v) = Open (f v)"
| "upd_val f x = x"

fun bytes_of :: "mstate \<Rightarrow> byte list" where
  "bytes_of (Open v) = (case v_kind v of K_data b \<Rightarrow> b | _ \<Rightarrow> [])"
| "bytes_of x = []"

definition set_val :: "nat \<Rightarrow> mstate \<Rightarrow> mspec \<Rightarrow> mspec" where "set_val i x u = u\<lparr>vals := (vals u)(i := x)\<rparr>"
definition map_val :: "nat \<Rightarrow> (mval \<Rightarrow> mval) \<Rightarrow> mspec \<Rightarrow> mspec" where "map_val i f u = set_val i (upd_val f (vals u i)) u"

definition new_val :: "nat \<Rightarrow> bool \<Rightarrow> mstate \<Rightarrow> mspec \<Rightarrow> obs \<times> mspec" where
  "new_val i ok x u = (Rc ok, set_val i (if ok then x else Broken) u)"

definition fits :: "nat option \<Rightarrow> nat \<Rightarrow> bool" where "fits al n \<longleftrightarrow> n \<le> max_vsm_size \<or> al \<noteq> None"

fun v_step :: "mop \<Rightarrow> mspec \<Rightarrow> obs \<times> mspec" where
  "v_step (Op_init i) u = new_val i True (fresh (K_data []) 0) u"
| "v_step (Op_init_size i sz al junk) u =
     new_val i (unat sz \<le> max_vsm_size \<or> sizeof_content + sz > sz \<and> al \<noteq> None) (fresh (K_data (map junk [0..<unat sz])) 0) u"
| "v_step (Op_init_any i bs ffn hint content al junk) u =
     (let ok = (length bs < max_vsm_size \<or> content \<noteq> None \<or> ffn = None \<or> al \<noteq> None) in
      new_val i ok (fresh (K_data bs) 0)
        (if length bs \<ge> max_vsm_size \<and> ok then u\<lparr>given := given u + (case ffn of None \<Rightarrow> {#} | Some f \<Rightarrow> {#(f, hint)#})\<rparr> else u))"
| "v_step (Op_init_mark i k) u = new_val i True (fresh (case k of K_data _ \<Rightarrow> K_delimiter | _ \<Rightarrow> k) 0) u"
| "v_step (Op_init_topic i sub t al junk) u = new_val i (fits al (length t)) (fresh (K_data t) (if sub then 12 else 16)) u"
| "v_step (Op_close i) u = (Rc (vals u i \<noteq> Shut), set_val i Shut u)"
| "v_step (Op_move i j) u = (if vals u j = Shut \<or> vals u i = Shut then (Rc False, u)
     else (Rc True, set_val j (fresh (K_data []) 0) (set_val i (vals u j) u)))"
| "v_step (Op_copy i j) u = (if vals u j = Shut \<or> vals u i = Shut then (Rc False, u)
     else (Rc True, set_val i (if i = j then Shut else vals u j) u))"
| "v_step (Op_read i) u = (Got (bytes_of (vals u i)), u)"
| "v_step (Op_size i) u = (Num (length (bytes_of (vals u i))), u)"
| "v_step (Op_fill i bs) u = (Rc True, map_val i (\<lambda>v. v\<lparr>v_kind := K_data (bs @ drop (length bs) (bytes_of (vals u i)))\<rparr>) u)"
| "v_step (Op_shrink i n) u = (Rc True, map_val i (\<lambda>v. v\<lparr>v_kind := K_data (take n (bytes_of (vals u i)))\<rparr>) u)"
| "v_step (Op_set_flags i f) u = (Rc True, map_val i (\<lambda>v. v\<lparr>v_flags := v_flags v OR f\<rparr>) u)"
| "v_step (Op_reset_flags i f) u = (Rc True, map_val i (\<lambda>v. v\<lparr>v_flags := v_flags v AND NOT f\<rparr>) u)"
| "v_step (Op_new_metadata a d) u = (Rc True, u)"
| "v_step (Op_drop_metadata a) u = (Rc True, u)"
| "v_step (Op_set_metadata i a) u = (Rc True, map_val i (\<lambda>v. v\<lparr>v_meta := Some a\<rparr>) u)"
| "v_step (Op_reset_metadata i) u = (Rc True, map_val i (\<lambda>v. v\<lparr>v_meta := None\<rparr>) u)"
| "v_step (Op_set_routing_id i r) u = (Rc True, map_val i (\<lambda>v. v\<lparr>v_rid := r\<rparr>) u)"
| "v_step (Op_group i) u = (Got (case vals u i of Open v \<Rightarrow> v_name v | _ \<Rightarrow> []), u)"
| "v_step (Op_set_group i g al) u = (if length g > ZMQ_GROUP_MAX_LENGTH then (Rc False, u) else (Rc True, map_val i (\<lambda>v. v\<lparr>v_name := c_string g\<rparr>) u))"
| "v_step (Op_distribute i ws) u = (Rc True, set_val i (fresh (K_data []) 0)
     (u\<lparr>vals := (\<lambda>k. if (k, True) \<in> set ws then vals u i else vals u k)\<rparr>))"

text \<open>
  What the with_rc relies on: objects are initialised before they are used and not again before they are closed, the bytes of a shared buffer
  are not written, the flag for sharing is not touched, references to metadata are given by their owners, a group is named once, and
  messages with metadata or with long group names are not distributed.
\<close>

definition unshared :: "msg_t \<Rightarrow> bool" where "unshared m \<longleftrightarrow> cref m = None \<or> \<not> is_shared m"

definition has_data :: "msg_t \<Rightarrow> bool" where
  "has_data m \<longleftrightarrow> (case m_type m of Vsm _ \<Rightarrow> True | Cmsg _ \<Rightarrow> True | Lmsg p \<Rightarrow> p \<noteq> None | Zclmsg _ \<Rightarrow> True | _ \<Rightarrow> False)"

definition room_at :: "nat \<Rightarrow> nat option \<Rightarrow> mem \<Rightarrow> bool" where
  "room_at i al s \<longleftrightarrow> i < 2 ^ 31 \<and> vacant (objs s i) \<and> (case al of None \<Rightarrow> True | Some a \<Rightarrow> contents s a = None)"

fun m_may :: "mop \<Rightarrow> mem \<Rightarrow> bool" where
  "m_may (Op_init i) s \<longleftrightarrow> room_at i None s"
| "m_may (Op_init_size i sz al junk) s \<longleftrightarrow> room_at i al s"
| "m_may (Op_init_any i bs ffn hint content al junk) s \<longleftrightarrow> room_at i al s \<and> room_at i content s \<and> (content \<noteq> None \<longrightarrow> ffn \<noteq> None)"
| "m_may (Op_init_mark i k) s \<longleftrightarrow> room_at i None s"
| "m_may (Op_init_topic i sub t al junk) s \<longleftrightarrow> room_at i al s \<and> int (length t) < 2 ^ 63"
| "m_may (Op_close i) s \<longleftrightarrow> m_type (objs s i) \<noteq> Lmsg None"
| "m_may (Op_move i j) s \<longleftrightarrow> m_type (objs s i) \<noteq> Lmsg None \<and> m_type (objs s j) \<noteq> Lmsg None"
| "m_may (Op_copy i j) s \<longleftrightarrow> m_type (objs s i) \<noteq> Lmsg None \<and> m_type (objs s j) \<noteq> Lmsg None \<and> (i = j \<longrightarrow> gref (objs s i) = None)"
| "m_may (Op_read i) s \<longleftrightarrow> has_data (objs s i)"
| "m_may (Op_size i) s \<longleftrightarrow> has_data (objs s i)"
| "m_may (Op_fill i bs) s \<longleftrightarrow> has_data (objs s i) \<and> unshared (objs s i) \<and> (case m_size i s of Inr n \<Rightarrow> length bs \<le> n | _ \<Rightarrow> False)"
| "m_may (Op_shrink i n) s \<longleftrightarrow> has_data (objs s i) \<and> unshared (objs s i) \<and> (case m_size i s of Inr k \<Rightarrow> n \<le> k | _ \<Rightarrow> False)"
| "m_may (Op_set_flags i f) s \<longleftrightarrow> \<not> vacant (objs s i) \<and> f AND msg_shared = 0"
| "m_may (Op_reset_flags i f) s \<longleftrightarrow> \<not> vacant (objs s i) \<and> f AND msg_shared = 0"
| "m_may (Op_new_metadata a d) s \<longleftrightarrow> metas s a = None"
| "m_may (Op_drop_metadata a) s \<longleftrightarrow> a \<in> held s"
| "m_may (Op_set_metadata i a) s \<longleftrightarrow> \<not> vacant (objs s i) \<and> m_metadata (objs s i) = None \<and> a \<in> held s"
| "m_may (Op_reset_metadata i) s \<longleftrightarrow> \<not> vacant (objs s i)"
| "m_may (Op_set_routing_id i r) s \<longleftrightarrow> \<not> vacant (objs s i)"
| "m_may (Op_group i) s \<longleftrightarrow> \<not> vacant (objs s i)"
| "m_may (Op_set_group i g al) s \<longleftrightarrow> \<not> vacant (objs s i) \<and> gref (objs s i) = None \<and> (length g > 14 \<longrightarrow> (case al of None \<Rightarrow> False | Some a \<Rightarrow> groups s a = None))"
| "m_may (Op_distribute i ws) s \<longleftrightarrow> \<not> vacant (objs s i) \<and> m_metadata (objs s i) = None \<and> gref (objs s i) = None \<and>
     distinct (map fst ws) \<and> (\<forall>j\<in>fst ` set ws. j < 2 ^ 31 \<and> j \<noteq> i \<and> vacant (objs s j))"

definition m_rep :: "mem \<Rightarrow> mspec \<Rightarrow> bool" where
  "m_rep s u \<longleftrightarrow> mem_ok (held s) s \<and> vals u = (\<lambda>i. view s (objs s i)) \<and> given u = mset (released s) + owns s"

section \<open>One object changes\<close>

lemma view_put [simp]: "view (put i m s) = view s"
  by (intro ext view_cong) simp_all

lemma name_content [simp]: "name_of (set_content a c s) = name_of s"
  by (simp add: name_of_def fun_eq_iff split: mgroup.splits)

lemma rep_put:
  assumes "m_rep s u" "mem_ok (held s) (put i m s)"
  shows "m_rep (put i m s) (set_val i (view s m) u)"
  using assms by (auto simp: m_rep_def set_val_def)

lemma shared_bit: "is_shared m \<longleftrightarrow> bit (m_flags m) 7" "f AND msg_shared = 0 \<longleftrightarrow> \<not> bit f 7" "bit msg_shared k \<longleftrightarrow> k = 7"
proof -
  have e: "msg_shared = 2 ^ 7" by (simp add: msg_shared_def)
  show "is_shared m \<longleftrightarrow> bit (m_flags m) 7" "f AND msg_shared = 0 \<longleftrightarrow> \<not> bit f 7"
    unfolding is_shared_def e by (simp_all only: and_exp_eq_0_iff_not_bit not_not)
  show "bit msg_shared k \<longleftrightarrow> k = 7" unfolding e bit_exp_iff by auto
qed

lemma flag_views:
  assumes "f AND msg_shared = 0"
  shows "(g OR f) AND NOT msg_shared = (g AND NOT msg_shared) OR f" "(g AND NOT f) AND NOT msg_shared = (g AND NOT msg_shared) AND NOT f"
    "(g OR msg_shared) AND NOT msg_shared = g AND NOT msg_shared"
  using assms unfolding shared_bit(2) by (auto intro!: bit_word_eqI simp: bit_simps shared_bit(3))

lemma put_same:
  assumes "mem_ok H s" "m_type (objs s i) \<noteq> Closed" "cref m = cref (objs s i)" "cref m \<noteq> None \<Longrightarrow> is_shared m = is_shared (objs s i)"
    "dref m = dref (objs s i)" "gref m = gref (objs s i)" "obj_ok m" "\<And>a. m_type m = Zclmsg a \<Longrightarrow> m_type (objs s i) = Zclmsg a"
  shows "mem_ok H (put i m s)"
proof -
  have "live_refs (put i m s) = live_refs s" using assms(3,4) by (intro ext live_refs_cong) (auto split: if_splits)
  moreover have "i < 2 ^ 31" using assms(1,2) by (simp add: mem_ok_def)
  ultimately show ?thesis using assms(1,3,5-8) by (simp add: mem_ok_def counted_same) blast
qed

lemma rep_map:
  assumes "m_rep s u" "\<not> vacant (objs s i)" "mem_ok (held s) (put i m s)" "view s m = upd_val f (view s (objs s i))"
  shows "m_rep (put i m s) (map_val i f u)"
  using rep_put[OF assms(1,3)] assms(1,4) by (simp add: map_val_def m_rep_def)

lemma open_view: "\<not> vacant m \<Longrightarrow> view s m = Open \<lparr>v_kind = kind_of s m, v_flags = m_flags m AND NOT msg_shared, v_meta = m_metadata m, v_rid = m_routing_id m, v_name = name_of s m\<rparr>"
  by (simp add: view_def vacant_def)

lemma upd_kind [simp]: "kind_of s (m\<lparr>m_flags := f\<rparr>) = kind_of s m" "kind_of s (m\<lparr>m_metadata := d\<rparr>) = kind_of s m" "kind_of s (m\<lparr>m_routing_id := r\<rparr>) = kind_of s m"
  "kind_of s (m\<lparr>m_group := g\<rparr>) = kind_of s m" "name_of s (m\<lparr>m_flags := f\<rparr>) = name_of s m" "name_of s (m\<lparr>m_metadata := d\<rparr>) = name_of s m"
  "name_of s (m\<lparr>m_routing_id := r\<rparr>) = name_of s m" "name_of s (m\<lparr>m_type := t\<rparr>) = name_of s m"
  "vacant (m\<lparr>m_flags := f\<rparr>) = vacant m" "vacant (m\<lparr>m_metadata := d\<rparr>) = vacant m" "vacant (m\<lparr>m_routing_id := r\<rparr>) = vacant m" "vacant (m\<lparr>m_group := g\<rparr>) = vacant m"
  by (simp_all add: kind_of_def name_of_def vacant_def)

lemma rep_ok: "m_rep s u \<Longrightarrow> mem_ok (held s) s" "m_rep s u \<Longrightarrow> vals u i = view s (objs s i)" "m_rep s u \<Longrightarrow> given u = mset (released s) + owns s"
  by (simp_all add: m_rep_def)

lemma obj_okD: "mem_ok H s \<Longrightarrow> obj_ok (objs s i)" "mem_ok H s \<Longrightarrow> \<not> vacant (objs s i) \<Longrightarrow> i < 2 ^ 31"
  by (auto simp: mem_ok_def vacant_def)

lemma set_flags_ok:
  assumes "m_rep s u" "\<not> vacant (objs s i)" "f AND msg_shared = 0"
  shows "m_rep (m_set_flags f i s) (map_val i (\<lambda>v. v\<lparr>v_flags := v_flags v OR f\<rparr>) u)"
    "m_rep (m_reset_flags f i s) (map_val i (\<lambda>v. v\<lparr>v_flags := v_flags v AND NOT f\<rparr>) u)"
proof -
  have ok: "mem_ok (held s) (put i ((objs s i)\<lparr>m_flags := g\<rparr>) s)" if "bit g 7 = bit (m_flags (objs s i)) 7" for g
    using rep_ok(1)[OF assms(1)] assms(2) obj_okD(1)[OF rep_ok(1)[OF assms(1)], of i] that
    by (intro put_same) (auto simp: vacant_def shared_bit obj_ok_def)
  show "m_rep (m_set_flags f i s) (map_val i (\<lambda>v. v\<lparr>v_flags := v_flags v OR f\<rparr>) u)"
    unfolding m_set_flags_def using assms by (intro rep_map ok) (simp_all add: open_view flag_views shared_bit(2) bit_simps)
  show "m_rep (m_reset_flags f i s) (map_val i (\<lambda>v. v\<lparr>v_flags := v_flags v AND NOT f\<rparr>) u)"
    unfolding m_reset_flags_def using assms by (intro rep_map ok) (simp_all add: open_view flag_views shared_bit(2) bit_simps)
qed

lemma routing_id_ok:
  assumes "m_rep s u" "\<not> vacant (objs s i)"
  shows "m_rep (put i ((objs s i)\<lparr>m_routing_id := r\<rparr>) s) (map_val i (\<lambda>v. v\<lparr>v_rid := r\<rparr>) u)"
proof (rule rep_map[OF assms])
  show "mem_ok (held s) (put i ((objs s i)\<lparr>m_routing_id := r\<rparr>) s)"
    using rep_ok(1)[OF assms(1)] assms(2) obj_okD(1)[OF rep_ok(1)[OF assms(1)], of i]
    by (intro put_same) (auto simp: vacant_def obj_ok_def is_shared_def)
qed (use assms(2) in \<open>simp add: open_view\<close>)

section \<open>Bytes\<close>

lemma rep_new:
  assumes "m_rep s u" "room_at i (Some a) s" "t = Lmsg (Some a) \<or> t = Zclmsg a \<and> c_ffn c \<noteq> None"
  shows "m_rep (put i (blank t) (set_content a (Some c) s)) (set_val i (fresh (K_data (c_data c)) 0) (u\<lparr>given := given u + fns c\<rparr>))"
proof -
  note ok = rep_ok(1)[OF assms(1)]
  have r: "i < 2 ^ 31" "vacant (objs s i)" "contents s a = None" using assms(2) by (auto simp: room_at_def)
  note e = vacant_refs[OF r(2) obj_okD(1)[OF ok]]
  have t: "cref (blank t) = Some a" using assms(3) by (auto simp: cref_def blank_def)
  have m: "mem_ok (held s) (put i (blank t) (set_content a (Some c) s))"
    by (rule put_new_ok[OF ok]) (use e r t assms(3) in auto)
  have n: "holders cref (objs s) a = {}"
    using counted_free[of cref "objs s" "live_refs s" "\<lambda>_. 0" a] ok r(3) by (auto simp: mem_ok_def live_refs_def)
  have v: "view (set_content a (Some c) s) (objs s k) = view s (objs s k)" for k
    using n by (intro view_cong) (auto simp: holders_def)
  have "view (set_content a (Some c) s) (blank t) = fresh (K_data (c_data c)) 0" using assms(3) by (auto simp: view_def kind_of_def name_of_def blank_def fresh_def)
  then show ?thesis using m v assms(1) owns_new[OF finite_contents[OF ok] r(3), of c] by (auto simp: m_rep_def set_val_def)
qed

lemma rep_blank:
  assumes "m_rep s u" "room_at i None s" "cref (blank t) = None"
  shows "m_rep (put i (blank t) s) (set_val i (view s (blank t)) u)"
proof (rule rep_put[OF assms(1)])
  note ok = rep_ok(1)[OF assms(1)]
  have r: "i < 2 ^ 31" "vacant (objs s i)" using assms(2) by (auto simp: room_at_def)
  have "obj_ok (blank t)" by (simp add: obj_ok_def) (simp add: blank_def)
  then show "mem_ok (held s) (put i (blank t) s)" using vacant_refs[OF r(2) obj_okD(1)[OF ok]] r(1) ok assms(3) by (intro put_ok) auto
qed

lemma data_ok:
  assumes "m_rep s u" "has_data (objs s i)"
  shows "m_data i s = Inr (bytes_of (vals u i))" "\<not> vacant (objs s i)"
proof -
  note ok = rep_ok(1)[OF assms(1)]
  show id: "\<not> vacant (objs s i)" using assms(2) by (auto simp: has_data_def vacant_def)
  have "cref (objs s i) = Some a \<Longrightarrow> \<exists>c. contents s a = Some c" for a using live_at[OF ok, of i a] by auto
  then show "m_data i s = Inr (bytes_of (vals u i))"
    using assms(2) rep_ok(2)[OF assms(1), of i] open_view[OF id, of s]
    by (auto simp: m_data_def has_data_def cref_def kind_of_def content_at_def split: mtype.splits)
qed

lemma set_data_ok:
  assumes "m_rep s u" "has_data (objs s i)" "unshared (objs s i)"
  shows "\<exists>s'. set_data f i s = Inr s' \<and> m_rep s' (map_val i (\<lambda>v. v\<lparr>v_kind := K_data (f (bytes_of (vals u i)))\<rparr>) u) \<and> held s' = held s"
proof -
  note ok = rep_ok(1)[OF assms(1)]
  note d = data_ok[OF assms(1,2)]
  let ?m = "objs s i" and ?u = "map_val i (\<lambda>v. v\<lparr>v_kind := K_data (f (bytes_of (vals u i)))\<rparr>) u"
  show ?thesis
  proof (cases "cref ?m")
    case None
    then obtain b t where b: "m_type ?m = t b" "t = Vsm \<or> t = Cmsg" using assms(2) by (auto simp: cref_def has_data_def split: mtype.splits)
    have "mem_ok (held s) (put i (?m\<lparr>m_type := t (f b)\<rparr>) s)"
      using ok obj_okD(1)[OF ok, of i] None b by (intro put_same) (auto simp: cref_def dref_def gref_def obj_ok_def)
    then have "m_rep (put i (?m\<lparr>m_type := t (f b)\<rparr>) s) ?u"
      using b d(1) by (intro rep_map[OF assms(1) d(2)]) (auto simp: view_def kind_of_def m_data_def)
    moreover have "set_data f i s = Inr (put i (?m\<lparr>m_type := t (f b)\<rparr>) s)" using b by (auto simp: set_data_def Let_def)
    ultimately show ?thesis by auto
  next
    case (Some a)
    from live_at[OF ok Some] assms(3) Some obtain c where c: "contents s a = Some c" "holders cref (objs s) a = {i}" by (auto simp: unshared_def)
    let ?c = "c\<lparr>c_data := f (c_data c)\<rparr>"
    have r: "set_data f i s = Inr (set_content a (Some ?c) s)" using Some c(1) by (auto simp: set_data_def Let_def content_at_def cref_def split: mtype.splits)
    have "live_refs (set_content a (Some ?c) s) = live_refs s" using c(1) by (auto simp: live_refs_def fun_eq_iff)
    then have m: "mem_ok (held s) (set_content a (Some ?c) s)" using ok c(1) by (auto simp: mem_ok_def split: if_splits)
    have w: "owns (set_content a (Some ?c) s) = owns s" using c(1) by (intro owns_upd[OF finite_contents[OF ok]]) (auto simp: fns_def split: option.splits)
    have v: "view (set_content a (Some ?c) s) (objs s k) = view s (objs s k)" if "k \<noteq> i" for k
      using c(2) that by (intro view_cong) (auto simp: holders_def)
    have "view (set_content a (Some ?c) s) ?m = upd_val (\<lambda>v. v\<lparr>v_kind := K_data (f (bytes_of (vals u i)))\<rparr>) (view s ?m)"
      using Some c(1) d rep_ok(2)[OF assms(1), of i] by (auto simp: open_view kind_of_def cref_def m_data_def content_at_def split: mtype.splits)
    then have "m_rep (set_content a (Some ?c) s) ?u" using m v w assms(1) by (auto simp: m_rep_def map_val_def set_val_def)
    with r show ?thesis by auto
  qed
qed

lemma rep_given: "m_rep s u \<Longrightarrow> m_rep s (u\<lparr>given := given u + {#}\<rparr>)"
  by simp

lemma init_size_ok:
  assumes "m_rep s u" "room_at i al s"
  shows "\<exists>ok s'. m_init_size al junk sz i s = (ok, s') \<and> (ok \<longleftrightarrow> unat sz \<le> max_vsm_size \<or> sizeof_content + sz > sz \<and> al \<noteq> None) \<and>
    m_rep s' (snd (new_val i ok (fresh (K_data (map junk [0..<unat sz])) 0) u)) \<and> held s' = held s \<and> (ok \<longrightarrow> has_data (objs s' i) \<and> \<not> is_shared (objs s' i))"
proof -
  have r: "room_at i None s" using assms(2) by (auto simp: room_at_def split: option.splits)
  have c: "cref (blank (Vsm b)) = None" "cref (blank (Lmsg None)) = None" "view s (blank (Vsm b)) = fresh (K_data b) 0" "view s (blank (Lmsg None)) = Broken"
    "\<not> is_shared (blank t)" for b t
    by (simp_all add: cref_def blank_def view_def kind_of_def name_of_def fresh_def is_shared_def)
  consider "unat sz \<le> max_vsm_size" | "\<not> unat sz \<le> max_vsm_size" "\<not> (sizeof_content + sz > sz \<and> al \<noteq> None)"
    | a where "\<not> unat sz \<le> max_vsm_size" "sizeof_content + sz > sz" "al = Some a"
    by (cases al) blast+
  then show ?thesis
  proof cases
    case 1
    then show ?thesis using rep_blank[OF assms(1) r c(1)] c(3,5) by (auto simp: m_init_size_def new_val_def has_data_def blank_def)
  next
    case 2
    then have "m_init_size al junk sz i s = (False, put i (blank (Lmsg None)) s)" by (cases al) (auto simp: m_init_size_def)
    then show ?thesis using rep_blank[OF assms(1) r c(2)] c(4) 2 by (auto simp: new_val_def)
  next
    case 3
    let ?c = "\<lparr>c_data = map junk [0..<unat sz], c_ffn = None, c_hint = 0, c_refcnt = 0\<rparr>"
    have "m_rep (put i (blank (Lmsg (Some a))) (set_content a (Some ?c) s)) (set_val i (fresh (K_data (c_data ?c)) 0) (u\<lparr>given := given u + fns ?c\<rparr>))"
      using assms 3(3) by (intro rep_new) auto
    then show ?thesis using 3 c(5) by (auto simp: m_init_size_def new_val_def fns_def has_data_def blank_def)
  qed
qed

lemma fill_ok:
  assumes "m_rep s u" "has_data (objs s i)" "unshared (objs s i)" "length bs \<le> length (bytes_of (vals u i))"
  shows "\<exists>s'. m_fill bs i s = Inr s' \<and> m_rep s' (map_val i (\<lambda>v. v\<lparr>v_kind := K_data (bs @ drop (length bs) (bytes_of (vals u i)))\<rparr>) u) \<and> held s' = held s"
  using set_data_ok[OF assms(1-3), of "\<lambda>b. bs @ drop (length bs) b"] data_ok(1)[OF assms(1,2)] assms(4) by (auto simp: m_fill_def m_size_def)

lemma shrink_ok:
  assumes "m_rep s u" "has_data (objs s i)" "unshared (objs s i)" "n \<le> length (bytes_of (vals u i))"
  shows "\<exists>s'. m_shrink n i s = Inr s' \<and> m_rep s' (map_val i (\<lambda>v. v\<lparr>v_kind := K_data (take n (bytes_of (vals u i)))\<rparr>) u) \<and> held s' = held s"
  using set_data_ok[OF assms(1-3), of "take n"] data_ok(1)[OF assms(1,2)] assms(4) by (auto simp: m_shrink_def m_size_def)

lemma init_len:
  assumes "m_rep s u" "room_at i al s" "int (length bs) < 2 ^ 63"
  shows "\<exists>ok s'. m_init_size al junk (of_nat (length bs)) i s = (ok, s') \<and> (ok \<longleftrightarrow> fits al (length bs)) \<and>
    m_rep s' (snd (new_val i ok (fresh (K_data (map junk [0..<length bs])) 0) u)) \<and> held s' = held s \<and> (ok \<longrightarrow> has_data (objs s' i) \<and> \<not> is_shared (objs s' i))"
proof -
  have n: "length bs < 2 ^ 63" using assms(3) by simp
  then have u: "unat (of_nat (length bs) :: u64) = length bs" by (simp add: unat_of_nat)
  have "unat (sizeof_content + of_nat (length bs)) = 40 + length bs" using n u by (simp add: unat_word_ariths sizeof_content_def)
  then have "sizeof_content + of_nat (length bs) > of_nat (length bs)" using u by (simp add: word_less_nat_alt)
  then show ?thesis using init_size_ok[OF assms(1,2), of junk "of_nat (length bs)"] u by (simp add: fits_def)
qed

lemma set_val_set [simp]: "set_val i x (set_val i y u) = set_val i x u" "vals (set_val i x u) i = x"
  by (simp_all add: set_val_def)

lemma init_buffer_ok:
  assumes "m_rep s u" "room_at i al s" "int (length bs) < 2 ^ 63"
  shows "\<exists>s'. m_init_buffer al junk bs i s = Inr (fits al (length bs), s') \<and> m_rep s' (snd (new_val i (fits al (length bs)) (fresh (K_data bs) 0) u)) \<and> held s' = held s"
proof -
  from init_len[OF assms, of junk] obtain s' where s': "m_init_size al junk (of_nat (length bs)) i s = (fits al (length bs), s')" "held s' = held s"
    "m_rep s' (snd (new_val i (fits al (length bs)) (fresh (K_data (map junk [0..<length bs])) 0) u))" "fits al (length bs) \<longrightarrow> has_data (objs s' i) \<and> \<not> is_shared (objs s' i)" by auto
  show ?thesis
  proof (cases "fits al (length bs)")
    case True
    then have "m_rep s' (set_val i (fresh (K_data (map junk [0..<length bs])) 0) u)" using s'(3) by (simp add: new_val_def)
    from fill_ok[OF this, of i bs] s' True show ?thesis
      by (auto simp: m_init_buffer_def new_val_def unshared_def map_val_def fresh_def)
  next
    case False
    then show ?thesis using s' by (auto simp: m_init_buffer_def new_val_def)
  qed
qed

lemma init_topic_ok:
  assumes "m_rep s u" "room_at i al s" "int (length t) < 2 ^ 63" "f AND msg_shared = 0"
  shows "\<exists>s'. m_init_topic f al junk t i s = Inr (fits al (length t), s') \<and> m_rep s' (snd (new_val i (fits al (length t)) (fresh (K_data t) f) u)) \<and> held s' = held s"
proof -
  from init_len[OF assms(1-3), of junk] obtain s' where s': "m_init_size al junk (of_nat (length t)) i s = (fits al (length t), s')" "held s' = held s"
    "m_rep s' (snd (new_val i (fits al (length t)) (fresh (K_data (map junk [0..<length t])) 0) u))" "fits al (length t) \<longrightarrow> has_data (objs s' i) \<and> \<not> is_shared (objs s' i)" by auto
  show ?thesis
  proof (cases "fits al (length t)")
    case True
    then have m: "m_rep s' (set_val i (fresh (K_data (map junk [0..<length t])) 0) u)" "has_data (objs s' i)" "\<not> is_shared (objs s' i)" using s' by (simp_all add: new_val_def)
    note f = set_flags_ok(1)[OF m(1) data_ok(2)[OF m(1,2)] assms(4)]
    have o: "has_data (objs (m_set_flags f i s') i)" "\<not> is_shared (objs (m_set_flags f i s') i)"
      using m(2,3) assms(4) by (simp_all add: m_set_flags_def has_data_def shared_bit bit_simps)
    from fill_ok[OF f, of i t] o s' True show ?thesis
      by (auto simp: m_init_topic_def new_val_def unshared_def map_val_def fresh_def m_set_flags_def)
  next
    case False
    then show ?thesis using s' by (auto simp: m_init_topic_def new_val_def)
  qed
qed

lemma init_data_ok:
  assumes "m_rep s u" "room_at i al s"
  shows "\<exists>ok s'. m_init_data al bs ffn hint i s = (ok, s') \<and> (ok \<longleftrightarrow> ffn = None \<or> al \<noteq> None) \<and>
    m_rep s' (snd (new_val i ok (fresh (K_data bs) 0) (if ok then u\<lparr>given := given u + (case ffn of None \<Rightarrow> {#} | Some f \<Rightarrow> {#(f, hint)#})\<rparr> else u))) \<and> held s' = held s"
proof -
  have r: "room_at i None s" using assms(2) by (auto simp: room_at_def split: option.splits)
  have c: "cref (blank (Cmsg bs)) = None" "cref (blank (Lmsg None)) = None" "view s (blank (Cmsg bs)) = fresh (K_data bs) 0" "view s (blank (Lmsg None)) = Broken"
    by (simp_all add: cref_def blank_def view_def kind_of_def name_of_def fresh_def)
  consider "ffn = None" | f where "ffn = Some f" "al = None" | f a where "ffn = Some f" "al = Some a" by (cases ffn; cases al) auto
  then show ?thesis
  proof cases
    case 1
    then show ?thesis using rep_blank[OF assms(1) r c(1)] c(3) by (auto simp: m_init_data_def new_val_def)
  next
    case 2
    then show ?thesis using rep_blank[OF assms(1) r c(2)] c(4) by (auto simp: m_init_data_def new_val_def)
  next
    case 3
    let ?c = "\<lparr>c_data = bs, c_ffn = Some f, c_hint = hint, c_refcnt = 0\<rparr>"
    have "m_rep (put i (blank (Lmsg (Some a))) (set_content a (Some ?c) s)) (set_val i (fresh (K_data (c_data ?c)) 0) (u\<lparr>given := given u + fns ?c\<rparr>))"
      using assms 3 by (intro rep_new) auto
    then show ?thesis using 3 by (auto simp: m_init_data_def new_val_def fns_def)
  qed
qed

lemma init_any_ok:
  assumes "m_rep s u" "m_may (Op_init_any i bs ffn hint content al junk) s"
  shows "\<exists>s'. m_step (Op_init_any i bs ffn hint content al junk) s = Inr (fst (v_step (Op_init_any i bs ffn hint content al junk) u), s') \<and>
    m_rep s' (snd (v_step (Op_init_any i bs ffn hint content al junk) u))"
proof (cases "length bs < max_vsm_size")
  case True
  then have "int (length bs) < 2 ^ 63" "fits al (length bs)" by (simp_all add: max_vsm_size_def fits_def)
  with init_buffer_ok[OF assms(1), of i al bs junk] assms(2) True show ?thesis by (auto simp: m_init_any_def with_rc_def new_val_def)
next
  case False
  show ?thesis
  proof (cases content)
    case None
    with init_data_ok[OF assms(1), of i al bs ffn hint] assms(2) False show ?thesis by (auto simp: m_init_any_def with_rc_def new_val_def Let_def)
  next
    case (Some a)
    then obtain f where f: "ffn = Some f" using assms(2) by auto
    let ?c = "\<lparr>c_data = bs, c_ffn = Some f, c_hint = hint, c_refcnt = 0\<rparr>"
    have "m_rep (put i (blank (Zclmsg a)) (set_content a (Some ?c) s)) (set_val i (fresh (K_data (c_data ?c)) 0) (u\<lparr>given := given u + fns ?c\<rparr>))"
      using assms Some by (intro rep_new) auto
    then show ?thesis using False Some f by (simp add: m_init_any_def m_init_external_storage_def with_rc_def new_val_def Let_def fns_def)
  qed
qed

section \<open>Metadata and groups\<close>

lemma holders_bound:
  assumes "mem_ok H s" "\<And>m. f m \<noteq> None \<Longrightarrow> m_type m \<noteq> Closed"
  shows "card (holders f (objs s) a) \<le> 2 ^ 31"
proof -
  have "holders f (objs s) a \<subseteq> {..<2 ^ 31}"
  proof
    fix i
    assume "i \<in> holders f (objs s) a"
    then have "m_type (objs s i) \<noteq> Closed" using assms(2) by (force simp: holders_def)
    then show "i \<in> {..<2 ^ 31}" using assms(1) by (simp add: mem_ok_def)
  qed
  from card_mono[OF finite_lessThan this] show ?thesis by simp
qed

lemma open_refs: "cref m \<noteq> None \<Longrightarrow> m_type m \<noteq> Closed" "dref m \<noteq> None \<Longrightarrow> m_type m \<noteq> Closed" "gref m \<noteq> None \<Longrightarrow> m_type m \<noteq> Closed"
  by (auto simp: cref_def dref_def gref_def)

lemma live_refs_objs: "objs s' = objs s \<Longrightarrow> contents s' = contents s \<Longrightarrow> live_refs s' = live_refs s"
  by (rule ext) (simp add: live_refs_def)

lemma view_metas [simp]: "view (s\<lparr>metas := t\<rparr>) = view s" "view (s\<lparr>held := h\<rparr>) = view s"
  by (intro ext view_cong; simp)+

lemma owns_metas [simp]: "owns (s\<lparr>metas := t\<rparr>) = owns s" "owns (s\<lparr>held := h\<rparr>) = owns s" "owns (s\<lparr>groups := g\<rparr>) = owns s"
  by (simp_all add: owns_def)

text \<open>The metadata change, and with them the references of one object and of the engines.\<close>

lemma rep_metas:
  assumes "m_rep s u" "\<not> vacant (objs s i)" "counted dref ((objs s)(i := (objs s i)\<lparr>m_metadata := d\<rparr>)) (\<lambda>a. map_option d_refs (t a)) (\<lambda>a. if a \<in> H then 1 else 0)"
  shows "m_rep (put i ((objs s i)\<lparr>m_metadata := d\<rparr>) (s\<lparr>metas := t, held := H\<rparr>)) (map_val i (\<lambda>v. v\<lparr>v_meta := d\<rparr>) u)"
proof -
  let ?m = "(objs s i)\<lparr>m_metadata := d\<rparr>" and ?s = "s\<lparr>metas := t, held := H\<rparr>"
  note ok = rep_ok(1)[OF assms(1)]
  have "live_refs (put i ?m ?s) = live_refs s" by (intro ext live_refs_cong) (auto simp: is_shared_def split: if_splits)
  then have "mem_ok H (put i ?m ?s)" using ok assms(2,3) obj_okD(2)[OF ok assms(2)]
    by (auto simp: mem_ok_def counted_same obj_ok_def vacant_def dest!: spec[of _ i])
  then show ?thesis using assms(1,2) by (auto simp: m_rep_def map_val_def set_val_def open_view fun_eq_iff)
qed

lemma set_metadata_ok:
  assumes "m_rep s u" "\<not> vacant (objs s i)" "m_metadata (objs s i) = None" "a \<in> held s"
  shows "\<exists>s'. m_set_metadata a i s = Inr s' \<and> m_rep s' (map_val i (\<lambda>v. v\<lparr>v_meta := Some a\<rparr>) u)"
proof -
  let ?x = "\<lambda>a. if a \<in> held s then 1 else 0 :: nat" and ?m = "(objs s i)\<lparr>m_metadata := Some a\<rparr>"
  note ok = rep_ok(1)[OF assms(1)]
  have c: "counted dref (objs s) (meta_refs s) ?x" using ok by (simp add: mem_ok_def)
  then have "tally (meta_refs s a) > 0" using assms(4) by (simp add: counted_def)
  then obtain d where d: "metas s a = Some d" by (cases "metas s a") auto
  have f: "dref (objs s i) = None" "dref ?m = Some a" using assms(2,3) by (simp_all add: dref_def vacant_def)
  have "card (holders dref (objs s) a) + ?x a + 1 < 2 ^ 32" using holders_bound[OF ok, of dref a] open_refs(2) by simp
  from counted_inc[OF c _ f this, of "d_refs d"] d
  have "counted dref ((objs s)(i := ?m)) ((meta_refs s)(a \<mapsto> d_refs d + 1)) ?x" by simp
  moreover have "(meta_refs s)(a \<mapsto> d_refs d + 1) = (\<lambda>b. map_option d_refs (((metas s)(a \<mapsto> d\<lparr>d_refs := d_refs d + 1\<rparr>)) b))" by auto
  ultimately have "m_rep (put i ?m (s\<lparr>metas := (metas s)(a \<mapsto> d\<lparr>d_refs := d_refs d + 1\<rparr>), held := held s\<rparr>)) (map_val i (\<lambda>v. v\<lparr>v_meta := Some a\<rparr>) u)"
    by (intro rep_metas[OF assms(1,2)]) simp
  then show ?thesis using d assms(3) by (simp add: m_set_metadata_def metadata_add_ref_def counter_add_def)
qed

lemma reset_metadata_ok:
  assumes "m_rep s u" "\<not> vacant (objs s i)"
  shows "\<exists>s'. m_reset_metadata i s = Inr s' \<and> m_rep s' (map_val i (\<lambda>v. v\<lparr>v_meta := None\<rparr>) u)"
proof (cases "m_metadata (objs s i)")
  case None
  then have "map_val i (\<lambda>v. v\<lparr>v_meta := None\<rparr>) u = u"
    using rep_ok(2)[OF assms(1), of i] assms(2) by (simp add: map_val_def set_val_def open_view fun_upd_idem)
  then show ?thesis using None assms(1) by (simp add: m_reset_metadata_def)
next
  case (Some a)
  let ?m = "(objs s i)\<lparr>m_metadata := None\<rparr>"
  note ok = rep_ok(1)[OF assms(1)]
  have c: "counted dref (objs s) (meta_refs s) (\<lambda>a. if a \<in> held s then 1 else 0)" using ok by (simp add: mem_ok_def)
  have f: "dref (objs s i) = Some a" "dref ?m = None" using assms(2) Some by (simp_all add: dref_def vacant_def)
  from metadata_drop_ok[OF c f] obtain s' where s': "metadata_drop a s = Inr s'" "s' = s\<lparr>metas := metas s'\<rparr>"
    "counted dref ((objs s)(i := ?m)) (meta_refs s') (\<lambda>a. if a \<in> held s then 1 else 0)" by blast
  have "m_rep (put i ?m (s\<lparr>metas := metas s', held := held s\<rparr>)) (map_val i (\<lambda>v. v\<lparr>v_meta := None\<rparr>) u)"
    by (rule rep_metas[OF assms s'(3)])
  moreover have "s\<lparr>metas := metas s', held := held s\<rparr> = s'" "objs s' = objs s" using s'(2) by (metis mem.select_convs(1) mem.surjective mem.update_convs(3,6))+
  ultimately show ?thesis using s'(1) Some by (simp add: m_reset_metadata_def)
qed

text \<open>The engines make metadata and give up their references.\<close>

lemma rep_engine:
  assumes "m_rep s u" "counted dref (objs s) (\<lambda>a. map_option d_refs (t a)) (\<lambda>a. if a \<in> H then 1 else 0)"
  shows "m_rep (s\<lparr>metas := t, held := H\<rparr>) u"
proof -
  have "live_refs (s\<lparr>metas := t, held := H\<rparr>) = live_refs s" by (rule live_refs_objs) simp_all
  then show ?thesis using assms by (simp add: m_rep_def mem_ok_def)
qed

lemma new_metadata_ok:
  assumes "m_rep s u" "metas s a = None"
  shows "m_rep (s\<lparr>metas := (metas s)(a \<mapsto> metadata_new d), held := insert a (held s)\<rparr>) u"
proof (rule rep_engine[OF assms(1)])
  have c: "counted dref (objs s) (meta_refs s) (\<lambda>a. if a \<in> held s then 1 else 0)" using rep_ok(1)[OF assms(1)] by (simp add: mem_ok_def)
  have e: "holders dref (objs s) a = {}" using counted_free[OF c, of a] assms(2) by simp
  have "counted dref (objs s) ((meta_refs s)(a \<mapsto> 1)) (\<lambda>b. if b \<in> insert a (held s) then 1 else 0)"
    by (rule counted_upd[OF c]) (simp_all add: e)
  moreover have "(meta_refs s)(a \<mapsto> 1) = (\<lambda>b. map_option d_refs (((metas s)(a \<mapsto> metadata_new d)) b))" by (auto simp: metadata_new_def)
  ultimately show "counted dref (objs s) (\<lambda>b. map_option d_refs (((metas s)(a \<mapsto> metadata_new d)) b)) (\<lambda>b. if b \<in> insert a (held s) then 1 else 0)" by simp
qed

lemma drop_metadata_ok:
  assumes "m_rep s u" "a \<in> held s"
  shows "\<exists>s'. metadata_drop a s = Inr s' \<and> m_rep (s'\<lparr>held := held s' - {a}\<rparr>) u"
proof -
  let ?x = "\<lambda>a. if a \<in> held s then 1 else 0 :: nat"
  have c: "counted dref (objs s) (meta_refs s) ?x" using rep_ok(1)[OF assms(1)] by (simp add: mem_ok_def)
  then have t: "tally (meta_refs s a) = card (holders dref (objs s) a) + 1" "finite (holders dref (objs s) a)" "meta_refs s a \<noteq> Some 0" using assms(2) by (simp_all add: counted_def)
  then obtain d where d: "metas s a = Some d" by (cases "metas s a") auto
  let ?n = "d_refs d - 1"
  have n: "d_refs d \<noteq> 0" "unat (d_refs d) = card (holders dref (objs s) a) + 1" using t d by auto
  have u: "unat ?n = card (holders dref (objs s) a)" using unat_minus_one[OF n(1)] n(2) by simp
  let ?t = "(metas s)(a := if ?n \<noteq> 0 then Some (d\<lparr>d_refs := ?n\<rparr>) else None)"
  have z: "?n = 0 \<longleftrightarrow> card (holders dref (objs s) a) = 0" using u by (metis unat_eq_zero)
  have "counted dref (objs s) ((meta_refs s)(a := if ?n \<noteq> 0 then Some ?n else None)) (\<lambda>b. if b \<in> held s - {a} then 1 else 0)"
    by (rule counted_upd[OF c]) (use t(2) u z in auto)
  moreover have "(meta_refs s)(a := if ?n \<noteq> 0 then Some ?n else None) = (\<lambda>b. map_option d_refs (?t b))" by auto
  ultimately have "m_rep (s\<lparr>metas := ?t, held := held s - {a}\<rparr>) u" by (intro rep_engine[OF assms(1)]) simp
  then show ?thesis using d by (simp add: metadata_drop_def counter_sub_def)
qed

lemma group_name_ok:
  assumes "m_rep s u" "\<not> vacant (objs s i)"
  shows "m_group_name i s = Inr (case vals u i of Open v \<Rightarrow> v_name v | _ \<Rightarrow> [])"
proof -
  note ok = rep_ok(1)[OF assms(1)]
  have g: "counted gref (objs s) (group_refs s) (\<lambda>_. 0)" using ok by (simp add: mem_ok_def)
  have "m_group (objs s i) = Long a \<Longrightarrow> \<exists>p. groups s a = Some p" for a
    using counted_at[OF g, of i a] assms(2) by (auto simp: gref_def vacant_def)
  then show ?thesis using obj_okD(1)[OF ok, of i] assms rep_ok(2)[OF assms(1), of i]
    by (auto simp: m_group_name_def open_view name_of_def obj_ok_def vacant_def split: mgroup.splits)
qed

lemma set_group_ok:
  assumes "m_rep s u" "m_may (Op_set_group i g al) s"
  shows "\<exists>s'. m_step (Op_set_group i g al) s = Inr (fst (v_step (Op_set_group i g al) u), s') \<and> m_rep s' (snd (v_step (Op_set_group i g al) u))"
proof -
  let ?m = "objs s i"
  note ok = rep_ok(1)[OF assms(1)]
  have a: "\<not> vacant ?m" "gref ?m = None" using assms(2) by auto
  have k: "m_type ?m \<noteq> Closed" "obj_ok ?m" "i < 2 ^ 31" using a(1) obj_okD[OF ok, of i] by (auto simp: vacant_def)
  then obtain h where h: "m_group ?m = Short h" using a(2) by (cases "m_group ?m") (auto simp: gref_def obj_ok_def)
  consider "length g > ZMQ_GROUP_MAX_LENGTH" | "length g \<le> ZMQ_GROUP_MAX_LENGTH" "length g \<le> 14"
    | b where "length g \<le> ZMQ_GROUP_MAX_LENGTH" "length g > 14" "al = Some b" "groups s b = None"
    using assms(2) by (cases al) force+
  then show ?thesis
  proof cases
    case 1
    then show ?thesis using assms(1) by (simp add: m_set_group_def with_rc_def)
  next
    case 2
    let ?n = "?m\<lparr>m_group := Short (c_string g)\<rparr>"
    have "mem_ok (held s) (put i ?n s)" using k a by (intro put_same[OF ok]) (auto simp: gref_def obj_ok_def is_shared_def)
    then have "m_rep (put i ?n s) (map_val i (\<lambda>v. v\<lparr>v_name := c_string g\<rparr>) u)"
      using a(1) by (intro rep_map[OF assms(1)]) (simp_all add: open_view name_of_def)
    then show ?thesis using 2 h by (simp add: m_set_group_def with_rc_def Let_def)
  next
    case 3
    let ?n = "?m\<lparr>m_group := Long b\<rparr>" and ?s = "s\<lparr>groups := (groups s)(b \<mapsto> (c_string g, 1))\<rparr>"
    have c: "counted gref (objs s) (group_refs s) (\<lambda>_. 0)" using ok by (simp add: mem_ok_def)
    have e: "holders gref (objs s) b = {}" using counted_free[OF c, of b] 3(4) by simp
    have r: "group_refs ?s = (group_refs s)(b \<mapsto> 1)" by auto
    have "counted gref ((objs s)(i := ?n)) (group_refs ?s) (\<lambda>_. 0)" unfolding r
      by (rule counted_new[OF c]) (use 3(4) a(2) k(1) in \<open>simp_all add: gref_def\<close>)
    moreover have "live_refs (put i ?n ?s) = live_refs s" by (intro ext live_refs_cong) (auto simp: is_shared_def split: if_splits)
    ultimately have m: "mem_ok (held s) (put i ?n ?s)" using ok k a(1) by (auto simp: mem_ok_def counted_same obj_ok_def vacant_def dest!: spec[of _ i])
    have v: "view ?s (objs s j) = view s (objs s j)" if "j \<noteq> i" for j using e by (intro view_cong) (auto simp: holders_def)
    have "kind_of ?s ?m = kind_of s ?m" by (simp add: kind_of_def split: mtype.splits)
    then have "m_rep (put i ?n ?s) (map_val i (\<lambda>v. v\<lparr>v_name := c_string g\<rparr>) u)"
      using m v a(1) assms(1) by (auto simp: m_rep_def map_val_def set_val_def open_view name_of_def fun_eq_iff)
    then show ?thesis using 3 by (simp add: m_set_group_def with_rc_def Let_def)
  qed
qed

section \<open>Moving and copying\<close>

lemma close_rep:
  assumes "m_rep s u" "\<not> vacant (objs s i)"
  shows "\<exists>s'. m_close i s = Inr (True, s') \<and> m_rep s' (set_val i Shut u) \<and> objs s' = (objs s)(i := closed (objs s i)) \<and> held s' = held s"
proof -
  from close_ok[OF rep_ok(1)[OF assms(1)] assms(2)] obtain s' where s': "m_close i s = Inr (True, s')" "mem_ok (held s) s'"
    "objs s' = (objs s)(i := closed (objs s i))" "keeps i s s'" "\<forall>k. k \<noteq> i \<longrightarrow> view s' (objs s k) = view s (objs s k)" by blast
  have "view s' (closed (objs s i)) = Shut" by (simp add: view_def)
  then have "m_rep s' (set_val i Shut u)" using assms(1) s' held_close[OF s'(1)] by (auto simp: m_rep_def set_val_def keeps_def)
  with s' held_close[OF s'(1)] show ?thesis by blast
qed

lemma move_live:
  assumes "cref (w i) = None" "i \<noteq> j" "cref m = None" "objs s = w"
  shows "live_refs (put j m (put i (w j) s)) = live_refs s"
proof
  fix b
  let ?w = "w(i := w j, j := m)"
  have "holders cref ?w b = (if cref (w j) = Some b then insert i (holders cref w b - {j}) else holders cref w b)" using assms by (auto simp: holders_def)
  moreover have "j \<in> holders cref w b" if "cref (w j) = Some b" using that by (simp add: holders_def)
  moreover have "i \<notin> holders cref w b" using assms(1) by (simp add: holders_def)
  moreover have "j \<notin> holders cref w b" if "cref (w j) \<noteq> Some b" using that by (simp add: holders_def)
  ultimately have "(\<exists>k\<in>holders cref ?w b. \<not> is_shared (?w k)) \<longleftrightarrow> (\<exists>k\<in>holders cref w b. \<not> is_shared (w k))" using assms(2) by (auto split: if_splits)
  then show "live_refs (put j m (put i (w j) s)) b = live_refs s b" using assms(4) by (simp add: live_refs_def)
qed

lemma move_mem:
  assumes "mem_ok H s" "vacant (objs s i)" "i \<noteq> j" "\<not> vacant (objs s j)" "i < 2 ^ 31" "cref m = None" "dref m = None" "gref m = None" "obj_ok m"
  shows "mem_ok H (put j m (put i (objs s j) s))"
proof -
  have e: "cref (objs s i) = None" "dref (objs s i) = None" "gref (objs s i) = None" using vacant_refs[OF assms(2) obj_okD(1)[OF assms(1)]] by auto
  note c = assms(1)[unfolded mem_ok_def]
  have "live_refs (put j m (put i (objs s j) s)) = live_refs s" by (rule move_live) (use e assms in auto)
  moreover have "counted cref ((objs s)(i := objs s j, j := m)) (live_refs s) (\<lambda>_. 0)" by (rule counted_move) (use c e assms in auto)
  moreover have "counted dref ((objs s)(i := objs s j, j := m)) (meta_refs s) (\<lambda>a. if a \<in> H then 1 else 0)" by (rule counted_move) (use c e assms in auto)
  moreover have "counted gref ((objs s)(i := objs s j, j := m)) (group_refs s) (\<lambda>_. 0)" by (rule counted_move) (use c e assms in auto)
  moreover have "j < 2 ^ 31" using obj_okD(2)[OF assms(1,4)] .
  moreover have "m_type m \<noteq> Zclmsg a" for a using assms(6) by (auto simp: cref_def)
  ultimately show ?thesis using c assms(5,9) by (auto simp: mem_ok_def)
qed

lemma blank_vsm [simp]: "cref (blank (Vsm b)) = None" "obj_ok (blank (Vsm b))" "view s (blank (Vsm b)) = fresh (K_data b) 0"
  by (simp_all add: cref_def obj_ok_def blank_def view_def kind_of_def name_of_def fresh_def)

lemma vacant_closed [simp]: "vacant (closed m)"
  by (simp add: vacant_def)

lemma check_open: "m_type m \<noteq> Lmsg None \<Longrightarrow> m_check m \<longleftrightarrow> \<not> vacant m"
  by (auto simp: m_check_def vacant_def)

lemma rep_shut: "m_rep s u \<Longrightarrow> m_type (objs s i) \<noteq> Lmsg None \<Longrightarrow> vals u i = Shut \<longleftrightarrow> vacant (objs s i)"
  by (auto simp: m_rep_def view_def vacant_def)

lemma close_shut: "m_type (objs s i) = Closed \<Longrightarrow> m_close i s = Inr (False, s)"
  by (simp add: m_close_def m_check_def)

lemma move_ok:
  assumes "m_rep s u" "m_may (Op_move i j) s"
  shows "\<exists>s'. m_step (Op_move i j) s = Inr (fst (v_step (Op_move i j) u), s') \<and> m_rep s' (snd (v_step (Op_move i j) u))"
proof (cases "vacant (objs s i) \<or> vacant (objs s j)")
  case True
  have "m_move i j s = Inr (False, s)" using True assms(2) by (auto simp: m_move_def vacant_def m_check_def close_shut)
  then show ?thesis using True assms rep_shut[OF assms(1)] by (auto simp: with_rc_def)
next
  case False
  from close_rep[OF assms(1), of i] False obtain s1 where s1: "m_close i s = Inr (True, s1)" "m_rep s1 (set_val i Shut u)"
    "objs s1 = (objs s)(i := closed (objs s i))" by auto
  let ?s = "put j (blank (Vsm [])) (put i (objs s1 j) s1)"
  have r: "m_move i j s = Inr (True, ?s)" using False s1(1) assms(2) by (simp add: m_move_def m_init_def check_open)
  note ok1 = rep_ok(1)[OF s1(2)]
  have i: "i < 2 ^ 31" using obj_okD(2)[OF rep_ok(1)[OF assms(1)]] False by blast
  have m: "mem_ok (held s1) ?s"
  proof (cases "i = j")
    case True
    then show ?thesis using ok1 s1(3) i put_ok[OF ok1, of i "blank (Vsm [])"] by (simp add: put_def)
  next
    case False
    then show ?thesis using s1(3) i \<open>\<not> (vacant (objs s i) \<or> vacant (objs s j))\<close> by (intro move_mem[OF ok1]) auto
  qed
  have "owns ?s = owns s1" by simp
  then have "m_rep ?s (set_val j (fresh (K_data []) 0) (set_val i (vals u j) u))"
    using m s1(2,3) rep_ok(2)[OF assms(1), of j] by (auto simp: m_rep_def set_val_def fun_eq_iff split: if_splits)
  then show ?thesis using r False assms rep_shut[OF assms(1)] by (simp add: with_rc_def)
qed

text \<open>Sharing marks the message and counts the references that are to come.\<close>

abbreviation marked :: "msg_t \<Rightarrow> msg_t" where "marked m \<equiv> m\<lparr>m_flags := m_flags m OR msg_shared\<rparr>"

lemma marked_shared: "is_shared (marked m)" "is_shared m \<Longrightarrow> marked m = m" "view s (marked m) = view s m"
proof -
  show "is_shared (marked m)" by (simp add: shared_bit bit_simps)
  have "m_flags m OR msg_shared = m_flags m" if "is_shared m" using that by (intro bit_word_eqI) (auto simp: shared_bit bit_simps)
  then show "is_shared m \<Longrightarrow> marked m = m" by simp
  have "(m_flags m OR msg_shared) AND NOT msg_shared = m_flags m AND NOT msg_shared" using flag_views(3)[of 0] by simp
  then show "view s (marked m) = view s m" by (simp add: view_def)
qed

lemma content_ptr_cref: "cref m = Some a \<Longrightarrow> content_ptr m = Some (Some a)" "cref m = None \<Longrightarrow> \<not> vacant m \<Longrightarrow> content_ptr m = None"
  by (auto simp: content_ptr_def cref_def vacant_def split: mtype.splits)

lemma nat_word: "unat (w :: u32) = k \<Longrightarrow> of_nat k = w"
  by (auto simp: of_nat_unat)

lemma share_ok:
  assumes "mem_ok H s" "cref (objs s j) = Some a"
  shows "\<exists>c. contents s a = Some c \<and> share n j s = Inr (put j (marked (objs s j)) (set_content a (Some (c\<lparr>c_refcnt := of_nat (card (holders cref (objs s) a)) + n\<rparr>)) s)) \<and>
    (\<forall>k\<in>holders cref (objs s) a. k \<noteq> j \<longrightarrow> is_shared (objs s k))"
proof -
  from live_at[OF assms] obtain c r where c: "contents s a = Some c" "unat r = card (holders cref (objs s) a)" "j \<in> holders cref (objs s) a"
    "\<not> is_shared (objs s j) \<Longrightarrow> r = 1 \<and> holders cref (objs s) a = {j}"
    "is_shared (objs s j) \<Longrightarrow> r = c_refcnt c \<and> (\<forall>k\<in>holders cref (objs s) a. is_shared (objs s k))" by blast
  have r: "of_nat (card (holders cref (objs s) a)) = r" using nat_word[OF c(2)] .
  have p: "put j (objs s j) t = t" if "objs t = objs s" for t using that by (simp add: put_def fun_upd_idem)
  show ?thesis
  proof (cases "is_shared (objs s j)")
    case True
    then show ?thesis using c(1,5) r content_ptr_cref(1)[OF assms(2)]
      by (simp add: share_def Let_def content_at_def counter_add_def marked_shared(2) p)
  next
    case False
    then show ?thesis using c(1,4) r content_ptr_cref(1)[OF assms(2)] by (auto simp: share_def Let_def content_at_def add.commute)
  qed
qed

lemma meta_inc:
  assumes "mem_ok H s" "dref (objs s j) = Some a" "dref (w i) = None" "dref m = Some a" "\<And>k. dref (w k) = dref (objs s k)" "metas t = metas s"
  shows "\<exists>t'. metadata_add_ref a t = Inr t' \<and> t' = t\<lparr>metas := metas t'\<rparr> \<and> counted dref (w(i := m)) (meta_refs t') (\<lambda>a. if a \<in> H then 1 else 0)"
proof -
  have c: "counted dref (objs s) (meta_refs s) (\<lambda>a. if a \<in> H then 1 else 0)" using assms(1) by (simp add: mem_ok_def)
  from counted_at[OF c assms(2)] obtain d where d: "metas s a = Some d" by auto
  have h: "holders dref w = holders dref (objs s)" using assms(5) by (simp add: holders_def fun_eq_iff)
  then have cw: "counted dref w (meta_refs s) (\<lambda>a. if a \<in> H then 1 else 0)" using c by (simp add: counted_def)
  have "card (holders dref w a) + (if a \<in> H then 1 else 0) + 1 < 2 ^ 32" using holders_bound[OF assms(1), of dref a] open_refs(2) h by simp
  from counted_inc[OF cw _ assms(3,4) this, of "d_refs d"] d
  have n: "counted dref (w(i := m)) ((meta_refs s)(a \<mapsto> d_refs d + 1)) (\<lambda>a. if a \<in> H then 1 else 0)" by simp
  let ?t = "t\<lparr>metas := (metas t)(a \<mapsto> d\<lparr>d_refs := d_refs d + 1\<rparr>)\<rparr>"
  have "meta_refs ?t = (meta_refs s)(a \<mapsto> d_refs d + 1)" using assms(6) by auto
  then show ?thesis using n d assms(6) by (intro exI[of _ ?t]) (simp add: metadata_add_ref_def counter_add_def)
qed

lemma group_inc:
  assumes "mem_ok H s" "gref (objs s j) = Some a" "gref (w i) = None" "gref m = Some a" "\<And>k. gref (w k) = gref (objs s k)" "groups t = groups s" "m_group m = Long a"
  shows "\<exists>t'. share_group m t = Inr t' \<and> t' = t\<lparr>groups := groups t'\<rparr> \<and> counted gref (w(i := m)) (group_refs t') (\<lambda>_. 0) \<and>
    (\<forall>b. map_option fst (groups t' b) = map_option fst (groups s b))"
proof -
  have c: "counted gref (objs s) (group_refs s) (\<lambda>_. 0)" using assms(1) by (simp add: mem_ok_def)
  from counted_at[OF c assms(2)] obtain g n where d: "groups s a = Some (g, n)" by auto
  have h: "holders gref w = holders gref (objs s)" using assms(5) by (simp add: holders_def fun_eq_iff)
  then have cw: "counted gref w (group_refs s) (\<lambda>_. 0)" using c by (simp add: counted_def)
  have "card (holders gref w a) + 0 + 1 < 2 ^ 32" using holders_bound[OF assms(1), of gref a] open_refs(3) h by simp
  from counted_inc[OF cw _ assms(3,4) this, of n] d
  have n: "counted gref (w(i := m)) ((group_refs s)(a \<mapsto> n + 1)) (\<lambda>_. 0)" by simp
  let ?t = "t\<lparr>groups := (groups t)(a \<mapsto> (g, n + 1))\<rparr>"
  have "group_refs ?t = (group_refs s)(a \<mapsto> n + 1)" using assms(6) by auto
  then show ?thesis using n d assms(6,7) by (intro exI[of _ ?t]) (simp add: share_group_def counter_add_def)
qed

text \<open>The references to the buffer after a copy.\<close>

lemma share_copy:
  assumes "mem_ok H s" "vacant (objs s i)" "\<not> vacant (objs s j)" "i \<noteq> j"
  shows "\<exists>s2 m. share 1 j s = Inr s2 \<and> objs s2 = (objs s)(j := m) \<and> (m = objs s j \<or> m = marked (objs s j)) \<and> metas s2 = metas s \<and> groups s2 = groups s \<and> held s2 = held s \<and>
    released s2 = released s \<and> owns s2 = owns s \<and> (\<forall>a. rel_option kin (contents s a) (contents s2 a)) \<and>
    (\<forall>t. objs t = (objs s)(j := m, i := m) \<longrightarrow> contents t = contents s2 \<longrightarrow> counted cref (objs t) (live_refs t) (\<lambda>_. 0))"
proof (cases "cref (objs s j)")
  case None
  have e: "cref (objs s i) = None" using vacant_refs[OF assms(2) obj_okD(1)[OF assms(1)]] by simp
  have "counted cref (objs t) (live_refs t) (\<lambda>_. 0)" if "objs t = (objs s)(i := objs s j)" "contents t = contents s" for t
  proof -
    have "live_refs t = live_refs s" using that e None by (intro ext live_refs_cong) (auto split: if_splits)
    then show ?thesis using assms(1) that(1) None e by (simp add: mem_ok_def counted_same)
  qed
  then show ?thesis using content_ptr_cref(2)[OF None assms(3)]
    by (intro exI[of _ s] exI[of _ "objs s j"]) (simp add: share_def Let_def option.rel_refl)
next
  case (Some a)
  let ?r = "of_nat (card (holders cref (objs s) a)) :: u32" and ?m = "marked (objs s j)"
  from share_ok[OF assms(1) Some, of 1] obtain c where c: "contents s a = Some c"
    "share 1 j s = Inr (put j ?m (set_content a (Some (c\<lparr>c_refcnt := ?r + 1\<rparr>)) s))" "\<forall>k\<in>holders cref (objs s) a. k \<noteq> j \<longrightarrow> is_shared (objs s k)" by blast
  have e: "cref (objs s i) = None" using vacant_refs[OF assms(2) obj_okD(1)[OF assms(1)]] by simp
  have l: "live_refs s a = Some ?r"
  proof -
    from live_at[OF assms(1) Some] obtain n where "live_refs s a = Some n" "unat n = card (holders cref (objs s) a)" by blast
    then show ?thesis using nat_word[of n] by simp
  qed
  have "counted cref (objs t) (live_refs t) (\<lambda>_. 0)" if t: "objs t = (objs s)(j := ?m, i := ?m)" "contents t = (contents s)(a \<mapsto> c\<lparr>c_refcnt := ?r + 1\<rparr>)" for t
  proof -
    have h: "holders cref (objs t) a = insert i (holders cref (objs s) a)" using t(1) e Some assms(4) by (auto simp: holders_def)
    have "\<forall>k\<in>holders cref (objs t) a. is_shared (objs t k)" unfolding h using c(3) t(1) marked_shared(1) by auto
    then have "live_refs t a = Some (?r + 1)" using t(2) by (auto simp: live_refs_def)
    moreover have "live_refs t b = live_refs s b" if "b \<noteq> a" for b
      using that t e Some by (intro live_refs_cong) (auto split: if_splits)
    ultimately have lt: "live_refs t = (live_refs s)(a \<mapsto> ?r + 1)" by auto
    have cj: "counted cref ((objs s)(j := ?m)) (live_refs s) (\<lambda>_. 0)" using assms(1) by (simp add: mem_ok_def counted_same)
    have "holders cref ((objs s)(j := ?m)) a = holders cref (objs s) a" by (auto simp: holders_def)
    then have "card (holders cref ((objs s)(j := ?m)) a) + 0 + 1 < 2 ^ 32" using holders_bound[OF assms(1), of cref a] open_refs(1) by simp
    then show ?thesis unfolding t(1) lt by (intro counted_inc[OF cj l]) (use e Some assms(4) in simp_all)
  qed
  moreover have "owns (set_content a (Some (c\<lparr>c_refcnt := ?r + 1\<rparr>)) s) = owns s"
    using c(1) by (intro owns_upd[OF finite_contents[OF assms(1)]] kin_fns) auto
  moreover have "rel_option kin (contents s b) (contents (set_content a (Some (c\<lparr>c_refcnt := ?r + 1\<rparr>)) s) b)" for b using c(1) by (simp add: option.rel_refl)
  ultimately show ?thesis using c(2) by (intro exI[of _ "put j ?m (set_content a (Some (c\<lparr>c_refcnt := ?r + 1\<rparr>)) s)"] exI[of _ ?m]) simp
qed

lemma copy_mem:
  assumes "mem_ok H s" "vacant (objs s i)" "\<not> vacant (objs s j)" "i \<noteq> j" "i < 2 ^ 31"
    "objs t = (objs s)(j := m, i := m)" "m = objs s j \<or> m = marked (objs s j)" "\<forall>a. rel_option kin (contents s a) (contents t a)"
    "counted cref (objs t) (live_refs t) (\<lambda>_. 0)" "counted dref (objs t) (meta_refs t) (\<lambda>a. if a \<in> H then 1 else 0)" "counted gref (objs t) (group_refs t) (\<lambda>_. 0)"
  shows "mem_ok H t"
proof -
  have o: "obj_ok m" "m_type m = m_type (objs s j)" "j < 2 ^ 31" using assms(7) obj_okD[OF assms(1), of j] assms(3) by (auto simp: obj_ok_def)
  have "c_ffn c \<noteq> None" if c: "m_type (objs t k) = Zclmsg a" "contents t a = Some c" for k a c
  proof -
    obtain k' where k: "m_type (objs s k') = Zclmsg a" using c(1) assms(6) o(2) by (auto split: if_splits)
    have "rel_option kin (contents s a) (Some c)" using assms(8) c(2) by metis
    then obtain c0 where "contents s a = Some c0" "kin c0 c" by (cases "contents s a") auto
    with k assms(1) show ?thesis by (auto simp: mem_ok_def kin_def)
  qed
  then show ?thesis using assms(1,5,6,9-11) o by (auto simp: mem_ok_def)
qed

lemma rel_view:
  assumes "\<forall>a. rel_option kin (contents s a) (contents t a)" "\<forall>b. map_option fst (groups t b) = map_option fst (groups s b)" "mem_ok H s" "gref m = None \<or> (\<exists>k. gref (objs s k) = gref m)"
  shows "view t m = view s m"
proof (rule view_cong)
  fix a
  show "c_data (the (contents t a)) = c_data (the (contents s a))"
    using assms(1)[rule_format, of a] by (cases "contents s a"; cases "contents t a") (auto simp: kin_def)
next
  fix b
  assume "gref m = Some b"
  then obtain k where "gref (objs s k) = Some b" using assms(4) by auto
  moreover have "counted gref (objs s) (group_refs s) (\<lambda>_. 0)" using assms(3) by (simp add: mem_ok_def)
  ultimately have "groups s b \<noteq> None" using counted_at[of gref "objs s" "group_refs s" "\<lambda>_. 0" k b] by auto
  then show "fst (the (groups t b)) = fst (the (groups s b))" using assms(2)[rule_format, of b] by auto
qed

lemma copy_rep:
  assumes "m_rep s u" "vacant (objs s i)" "\<not> vacant (objs s j)" "i \<noteq> j" "i < 2 ^ 31"
  shows "\<exists>s2 s3 s4. share 1 j s = Inr s2 \<and> (case m_metadata (objs s2 j) of None \<Rightarrow> Inr s2 | Some a \<Rightarrow> metadata_add_ref a s2) = Inr s3 \<and>
    share_group (objs s3 j) s3 = Inr s4 \<and> m_rep (put i (objs s4 j) s4) (set_val i (vals u j) u)"
proof -
  let ?x = "\<lambda>a. if a \<in> held s then 1 else 0 :: nat"
  note ok = rep_ok(1)[OF assms(1)]
  from share_copy[OF ok assms(2-4)] obtain s2 m where s2: "share 1 j s = Inr s2" "objs s2 = (objs s)(j := m)" "m = objs s j \<or> m = marked (objs s j)"
    "metas s2 = metas s" "groups s2 = groups s" "held s2 = held s" "released s2 = released s" "owns s2 = owns s" "\<forall>a. rel_option kin (contents s a) (contents s2 a)"
    "\<And>t. objs t = (objs s)(j := m, i := m) \<Longrightarrow> contents t = contents s2 \<Longrightarrow> counted cref (objs t) (live_refs t) (\<lambda>_. 0)" by blast
  have j: "obj_ok (objs s j)" "m_type (objs s j) \<noteq> Closed" using obj_okD(1)[OF ok] assms(3) by (auto simp: vacant_def)
  have m: "cref m = cref (objs s j)" "dref m = dref (objs s j)" "gref m = gref (objs s j)" "m_metadata m = m_metadata (objs s j)" "m_group m = m_group (objs s j)"
    "m_type m = m_type (objs s j)" using s2(3) by auto
  have e: "dref (objs s i) = None" "gref (objs s i) = None" using vacant_refs[OF assms(2) obj_okD(1)[OF ok]] by auto
  let ?w = "(objs s)(j := m)"
  have cd: "counted dref ?w (meta_refs s) ?x" "counted gref ?w (group_refs s) (\<lambda>_. 0)" using ok m by (simp_all add: mem_ok_def counted_same)
  have "\<exists>s3. (case m_metadata m of None \<Rightarrow> Inr s2 | Some a \<Rightarrow> metadata_add_ref a s2) = Inr s3 \<and> s3 = s2\<lparr>metas := metas s3\<rparr> \<and> counted dref (?w(i := m)) (meta_refs s3) ?x"
  proof (cases "m_metadata m")
    case None
    then have "dref m = dref (?w i)" using e(1) assms(4) by (simp add: dref_def)
    from counted_same[of dref m ?w i, OF this] cd(1) s2(4) have "counted dref (?w(i := m)) (meta_refs s2) ?x" by (simp only:)
    then show ?thesis using None by (intro exI[of _ s2]) simp
  next
    case (Some a)
    then have d: "dref (objs s j) = Some a" "dref m = Some a" using j(2) m by (simp_all add: dref_def)
    have "\<exists>t'. metadata_add_ref a s2 = Inr t' \<and> t' = s2\<lparr>metas := metas t'\<rparr> \<and> counted dref (?w(i := m)) (meta_refs t') ?x"
      by (rule meta_inc[OF ok d(1)]) (use e(1) d m(2) assms(4) s2(4) in simp_all)
    then show ?thesis by (simp only: Some option.case)
  qed
  then obtain s3 where s3: "(case m_metadata m of None \<Rightarrow> Inr s2 | Some a \<Rightarrow> metadata_add_ref a s2) = Inr s3" "s3 = s2\<lparr>metas := metas s3\<rparr>"
    "counted dref (?w(i := m)) (meta_refs s3) ?x" by blast
  have o3: "objs s3 = ?w" "groups s3 = groups s" "contents s3 = contents s2" "released s3 = released s" "held s3 = held s"
    using s3(2) s2(2,5-7) by (metis mem.select_convs mem.surjective mem.update_convs(3))+
  have "\<exists>s4. share_group m s3 = Inr s4 \<and> s4 = s3\<lparr>groups := groups s4\<rparr> \<and> counted gref (?w(i := m)) (group_refs s4) (\<lambda>_. 0) \<and>
    (\<forall>b. map_option fst (groups s4 b) = map_option fst (groups s b))"
  proof (cases "gref m")
    case None
    then have "share_group m s3 = Inr s3" using j m by (auto simp: share_group_def gref_def obj_ok_def split: mgroup.splits)
    moreover have "gref m = gref (?w i)" using None e(2) assms(4) by simp
    from counted_same[of gref m ?w i, OF this] cd(2) o3(2) have "counted gref (?w(i := m)) (group_refs s3) (\<lambda>_. 0)" by (simp only:)
    ultimately show ?thesis using o3(2) by (intro exI[of _ s3]) simp
  next
    case (Some a)
    then have "m_group m = Long a" using j(2) m by (auto simp: gref_def split: if_splits mgroup.splits)
    moreover have "gref (objs s j) = Some a" using Some m(3) by simp
    ultimately show ?thesis by (intro group_inc[OF ok]) (use e(2) m(3) assms(4) o3(2) Some in simp_all)
  qed
  then obtain s4 where s4: "share_group m s3 = Inr s4" "s4 = s3\<lparr>groups := groups s4\<rparr>" "counted gref (?w(i := m)) (group_refs s4) (\<lambda>_. 0)"
    "\<forall>b. map_option fst (groups s4 b) = map_option fst (groups s b)" by blast
  have o4: "objs s4 = ?w" "metas s4 = metas s3" "contents s4 = contents s2" "released s4 = released s" "held s4 = held s"
    using s4(2) o3 by (metis mem.select_convs mem.surjective mem.update_convs(4))+
  let ?t = "put i m s4"
  have t: "objs ?t = (objs s)(j := m, i := m)" "contents ?t = contents s2" using o4 by simp_all
  have mem: "mem_ok (held s) ?t"
    by (rule copy_mem[OF ok assms(2-5) t(1) s2(3)]) (use s2(9) s2(10)[OF t] s3(3) s4(3) o4 in simp_all)
  have r: "\<forall>a. rel_option kin (contents s a) (contents ?t a)" "\<forall>b. map_option fst (groups ?t b) = map_option fst (groups s b)" using s2(9) s4(4) o4 by simp_all
  have v: "view ?t m = view s m" "\<And>k. view ?t (objs s k) = view s (objs s k)" by (rule rel_view[OF r ok]; use m(3) in auto)+
  have vm: "view s m = view s (objs s j)" using s2(3) marked_shared(3) by auto
  have "owns ?t = owns s" using s2(8) owns_cong[of s4 s2] o4 by simp
  then have "m_rep ?t (set_val i (vals u j) u)"
    using mem assms(1) v vm t(1) o4 by (auto simp: m_rep_def set_val_def fun_eq_iff)
  then show ?thesis using s2(1,2) s3(1) s4(1) o3(1) o4(1) assms(4) by (intro exI[of _ s2] exI[of _ s3] exI[of _ s4]) simp
qed

lemma copy_ok:
  assumes "m_rep s u" "m_may (Op_copy i j) s"
  shows "\<exists>s'. m_step (Op_copy i j) s = Inr (fst (v_step (Op_copy i j) u), s') \<and> m_rep s' (snd (v_step (Op_copy i j) u))"
proof (cases "vacant (objs s i) \<or> vacant (objs s j)")
  case True
  have "m_copy i j s = Inr (False, s)" using True assms(2) by (auto simp: m_copy_def vacant_def m_check_def close_shut)
  then show ?thesis using True assms rep_shut[OF assms(1)] by (auto simp: with_rc_def)
next
  case False
  from close_rep[OF assms(1), of i] False obtain s1 where s1: "m_close i s = Inr (True, s1)" "m_rep s1 (set_val i Shut u)"
    "objs s1 = (objs s)(i := closed (objs s i))" by auto
  have i: "i < 2 ^ 31" using obj_okD(2)[OF rep_ok(1)[OF assms(1)]] False by blast
  show ?thesis
  proof (cases "i = j")
    case True
    have g: "m_group (objs s i) \<noteq> Wild" "gref (objs s i) = None" "m_type (objs s i) \<noteq> Closed"
      using obj_okD(1)[OF rep_ok(1)[OF assms(1)], of i] assms(2) False True by (auto simp: obj_ok_def vacant_def)
    have "share 1 i s1 = Inr s1" "m_metadata (objs s1 i) = None" "share_group (objs s1 i) s1 = Inr s1"
      using s1(3) g by (auto simp: share_def Let_def content_ptr_def closed_def share_group_def gref_def split: mgroup.splits)
    then have "m_copy i j s = Inr (True, s1)" using True False s1(1,3) assms(2) by (simp add: m_copy_def check_open put_def fun_upd_idem)
    then show ?thesis using True False assms s1(2) rep_shut[OF assms(1)] by (simp add: with_rc_def)
  next
    case ne: False
    have "vacant (objs s1 i)" "\<not> vacant (objs s1 j)" using s1(3) False ne by auto
    from copy_rep[OF s1(2) this ne i] obtain s2 s3 s4 where "share 1 j s1 = Inr s2"
      "(case m_metadata (objs s2 j) of None \<Rightarrow> Inr s2 | Some a \<Rightarrow> metadata_add_ref a s2) = Inr s3" "share_group (objs s3 j) s3 = Inr s4"
      and r: "m_rep (put i (objs s4 j) s4) (set_val i (vals (set_val i Shut u) j) (set_val i Shut u))" by blast
    then have "m_copy i j s = Inr (True, put i (objs s4 j) s4)" using s1(1) False assms(2) by (simp add: m_copy_def check_open)
    moreover have "vals (set_val i Shut u) j = vals u j" using ne by (simp add: set_val_def)
    ultimately show ?thesis using r ne False assms rep_shut[OF assms(1)] by (simp add: with_rc_def)
  qed
qed

section \<open>Plain copies\<close>

definition spread :: "nat set \<Rightarrow> nat \<Rightarrow> msg_t \<Rightarrow> msg_t \<Rightarrow> (nat \<Rightarrow> msg_t) \<Rightarrow> nat \<Rightarrow> msg_t" where
  "spread J i m b w k = (if k \<in> J then m else if k = i then b else w k)"

definition reached :: "(nat \<times> bool) list \<Rightarrow> nat set" where "reached ws = {k. (k, True) \<in> set ws}"

lemma raw_copies_eq: "i \<notin> fst ` set ws \<Longrightarrow> raw_copies i ws s = s\<lparr>objs := spread (reached ws) i (objs s i) (objs s i) (objs s)\<rparr>"
proof (induction i ws s rule: raw_copies.induct)
  case (1 i s)
  have "spread (reached []) i (objs s i) (objs s i) (objs s) = objs s" by (auto simp: spread_def reached_def)
  then show ?case by simp
next
  case (2 i j ok ws s)
  have "spread (reached ws) i (objs s i) (objs s i) ((objs s)(j := objs s i)) = spread (reached ((j, True) # ws)) i (objs s i) (objs s i) (objs s)"
    by (auto simp: spread_def reached_def)
  moreover have "spread (reached ws) i (objs s i) (objs s i) (objs s) = spread (reached ((j, False) # ws)) i (objs s i) (objs s i) (objs s)"
    by (auto simp: spread_def reached_def)
  moreover have "((objs s)(j := objs s i)) i = objs s i" using 2(2) by auto
  ultimately show ?case using 2 by (cases ok) (simp_all add: put_def del: fun_upd_apply)
qed

lemma init_raw:
  assumes "i \<notin> fst ` set ws"
  shows "m_init i (raw_copies i ws s) = s\<lparr>objs := spread (reached ws) i (objs s i) (blank (Vsm [])) (objs s)\<rparr>"
proof -
  have "i \<notin> reached ws" using assms by (force simp: reached_def)
  then have "(spread (reached ws) i (objs s i) (objs s i) (objs s))(i := blank (Vsm [])) = spread (reached ws) i (objs s i) (blank (Vsm [])) (objs s)"
    by (auto simp: spread_def)
  then show ?thesis by (simp add: raw_copies_eq[OF assms] m_init_def put_def)
qed

text \<open>The message \<open>m\<close> replaces what has no references at the places \<open>J\<close>, and the original is emptied.\<close>

lemma spread_none:
  assumes "f m = None" "f b = None" "f (w i) = None" "\<And>j. j \<in> J \<Longrightarrow> f (w j) = None"
  shows "counted f (spread J i m b w) tab x = counted f w tab x"
proof -
  have "holders f (spread J i m b w) = holders f w" using assms by (auto simp: holders_def spread_def fun_eq_iff split: if_splits)
  then show ?thesis by (simp add: counted_def)
qed

definition placed :: "nat set \<Rightarrow> nat \<Rightarrow> msg_t \<Rightarrow> mem \<Rightarrow> mem \<Rightarrow> bool" where
  "placed J i m s t \<longleftrightarrow> objs t = spread J i m (blank (Vsm [])) (objs s) \<and> metas t = metas s \<and> groups t = groups s \<and> held t = held s \<and>
     mset (released t) + owns t = mset (released s) + owns s \<and> (\<forall>a c. contents t a = Some c \<longrightarrow> (\<exists>c0. contents s a = Some c0 \<and> kin c0 c)) \<and>
     (\<forall>k a. k \<notin> J \<longrightarrow> k \<noteq> i \<longrightarrow> cref (objs s k) = Some a \<longrightarrow> contents t a \<noteq> None) \<and> (J \<noteq> {} \<longrightarrow> (\<forall>a. cref m = Some a \<longrightarrow> contents t a \<noteq> None))"

lemma placed_rep:
  assumes "m_rep s u" "\<not> vacant (objs s i)" "m_metadata (objs s i) = None" "gref (objs s i) = None" "\<forall>j\<in>J. j < 2 ^ 31 \<and> vacant (objs s j)"
    "i \<notin> J" "placed J i m s t" "m = objs s i \<or> m = marked (objs s i)" "counted cref (objs t) (live_refs t) (\<lambda>_. 0)"
  shows "m_rep t (set_val i (fresh (K_data []) 0) (u\<lparr>vals := (\<lambda>k. if k \<in> J then vals u i else vals u k)\<rparr>))"
proof -
  note ok = rep_ok(1)[OF assms(1)]
  note p = assms(7)[unfolded placed_def]
  have e: "dref (objs s j) = None \<and> gref (objs s j) = None" if "j \<in> J" for j using vacant_refs[OF _ obj_okD(1)[OF ok]] assms(5) that by blast
  have m: "dref m = None" "gref m = None" "cref m = cref (objs s i)" "m_type m = m_type (objs s i)" "obj_ok m" "i < 2 ^ 31"
    using assms(3,4,8) obj_okD[OF ok, of i] assms(2) by (auto simp: dref_def obj_ok_def)
  have d0: "dref (objs s i) = None" using assms(3) by (simp add: dref_def)
  have "counted dref (objs t) (meta_refs t) (\<lambda>a. if a \<in> held s then 1 else 0)" "counted gref (objs t) (group_refs t) (\<lambda>_. 0)"
    using ok p e m d0 assms(4) by (simp_all add: mem_ok_def spread_none)
  moreover have "obj_ok (objs t k) \<and> (m_type (objs t k) \<noteq> Closed \<longrightarrow> k < 2 ^ 31)" for k
    using p m assms(5) ok by (auto simp: spread_def mem_ok_def)
  moreover have "c_ffn c \<noteq> None" if z: "m_type (objs t k) = Zclmsg a" "contents t a = Some c" for k a c
  proof -
    have "\<exists>k'. m_type (objs s k') = Zclmsg a" using z(1) p m(4) by (auto simp: spread_def blank_def split: if_splits)
    moreover obtain c0 where "contents s a = Some c0" "kin c0 c" using p z(2) by blast
    ultimately show ?thesis using ok by (auto simp: mem_ok_def kin_def)
  qed
  ultimately have mem: "mem_ok (held t) t" using assms(9) p by (simp add: mem_ok_def)
  have data: "c_data (the (contents t a)) = c_data (the (contents s a))" if "contents t a \<noteq> None" for a
  proof -
    from that obtain c where "contents t a = Some c" by blast
    moreover from this p obtain c0 where "contents s a = Some c0" "kin c0 c" by blast
    ultimately show ?thesis by (simp add: kin_def)
  qed
  have v: "view t (objs s k) = view s (objs s k)" if "k \<notin> J" "k \<noteq> i" for k
    using p that by (intro view_cong data) (auto)
  have "view s m = view s (objs s i)" using assms(8) marked_shared(3) by auto
  moreover have "view t m = view s m" if "j \<in> J" for j using p that by (intro view_cong data) (auto)
  ultimately have "view t m = view s (objs s i)" if "j \<in> J" for j using that by metis
  then show ?thesis using mem v p assms(1,6) by (auto simp: m_rep_def set_val_def spread_def fun_eq_iff)
qed

lemma close_plain:
  assumes "cref (objs s i) = None" "\<not> vacant (objs s i)" "m_metadata (objs s i) = None" "gref (objs s i) = None" "obj_ok (objs s i)"
  shows "m_close i s = Inr (True, put i (closed (objs s i)) s)"
proof -
  have "release_content (objs s i) s = Inr s" using assms(1,2) by (auto simp: release_content_def cref_def vacant_def split: mtype.splits)
  moreover have "drop_group (objs s i) s = Inr s" using assms(2,4,5) by (auto simp: drop_group_def gref_def obj_ok_def vacant_def split: mgroup.splits)
  moreover have "m_check (objs s i)" using assms(2) by (auto simp: m_check_def vacant_def)
  ultimately show ?thesis using assms(3) by (simp add: m_close_def Let_def closed_def)
qed

lemma add_refs_ok:
  assumes "mem_ok H s" "cref (objs s i) = Some a" "m_metadata (objs s i) = None" "n > 0 \<or> is_shared (objs s i)"
  shows "\<exists>c. contents s a = Some c \<and> m_add_refs n i s = Inr (put i (marked (objs s i)) (set_content a (Some (c\<lparr>c_refcnt := of_nat (card (holders cref (objs s) a)) + of_nat n\<rparr>)) s)) \<and>
    (\<forall>k\<in>holders cref (objs s) a. k \<noteq> i \<longrightarrow> is_shared (objs s k))"
proof (cases "n = 0")
  case False
  then show ?thesis using share_ok[OF assms(1,2), of "of_nat n"] assms(3) by (simp add: m_add_refs_def)
next
  case True
  from live_at[OF assms(1,2)] True assms(4) obtain c where c: "contents s a = Some c" "unat (c_refcnt c) = card (holders cref (objs s) a)"
    "\<forall>k\<in>holders cref (objs s) a. is_shared (objs s k)" by auto
  have "put i (marked (objs s i)) (set_content a (Some (c\<lparr>c_refcnt := of_nat (card (holders cref (objs s) a)) + of_nat n\<rparr>)) s) = s"
    using c(1) True assms(4) nat_word[OF c(2)] by (simp add: marked_shared(2) put_def set_content_def fun_upd_idem)
  then show ?thesis using c True assms(3) by (auto simp: m_add_refs_def)
qed

lemma reached_card:
  assumes "distinct (map fst ws)"
  shows "finite (reached ws)" "length ws = card (reached ws) + length (filter (\<lambda>w. \<not> snd w) ws)"
proof -
  have e: "reached ws = set (map fst (filter snd ws))" by (force simp: reached_def)
  have "distinct (map fst (filter snd ws))" using assms by (induction ws) auto
  from distinct_card[OF this] have "card (reached ws) = length (filter snd ws)" by (simp add: e)
  then show "length ws = card (reached ws) + length (filter (\<lambda>w. \<not> snd w) ws)" using sum_length_filter_compl[of snd ws] by simp
  show "finite (reached ws)" by (simp add: e)
qed

lemma unat_nat32: "n < 2 ^ 32 \<Longrightarrow> unat (of_nat n :: u32) = n"
  by (simp add: unat_of_nat)

lemma nat32_zero:
  assumes "n < 2 ^ 32"
  shows "(of_nat n :: u32) = 0 \<longleftrightarrow> n = 0"
proof
  assume "(of_nat n :: u32) = 0"
  then have "unat (of_nat n :: u32) = 0" by (simp only: unat_0)
  then show "n = 0" by (simp only: unat_nat32[OF assms])
qed simp

lemma init_drop: "m_init i (snd (drop_content n a c s)) = snd (drop_content n a c (m_init i s))"
  by (rule mem.equality) (simp_all add: drop_content_def counter_sub_def free_content_def m_init_def)

lemma drop_recount:
  "n - f = k \<Longrightarrow> drop_content f a (c\<lparr>c_refcnt := n\<rparr>) s =
    (if k = 0 then (False, free_content a (c\<lparr>c_refcnt := n\<rparr>) s) else (True, set_content a (Some (c\<lparr>c_refcnt := k\<rparr>)) s))"
  by (auto simp: drop_content_def counter_sub_def)

text \<open>All copies of a shared buffer, with the references of the failed ones given back.\<close>

lemma spread_shared:
  assumes "mem_ok H s" "cref (objs s i) = Some a" "contents s a = Some c" "\<forall>k\<in>holders cref (objs s) a. k \<noteq> i \<longrightarrow> is_shared (objs s k)"
    "finite J" "i \<notin> J" "\<forall>j\<in>J. vacant (objs s j)" "r = card (holders cref (objs s) a)" "r + card J \<le> 2 ^ 32"
    "objs t = spread J i (marked (objs s i)) (blank (Vsm [])) (objs s)"
    "contents t = (contents s)(a := if r + card J - 1 = 0 then None else Some (c\<lparr>c_refcnt := of_nat (r + card J - 1)\<rparr>))"
  shows "counted cref (objs t) (live_refs t) (\<lambda>_. 0)" "0 < r" "J = {} \<Longrightarrow> r = 1 \<Longrightarrow> holders cref (objs s) a = {i}"
proof -
  have cnt: "counted cref (objs s) (live_refs s) (\<lambda>_. 0)" using assms(1) by (simp add: mem_ok_def)
  from live_at[OF assms(1,2)] have h: "i \<in> holders cref (objs s) a" "finite (holders cref (objs s) a)" by blast+
  then show r: "0 < r" using assms(8) by (auto simp: card_gt_0_iff)
  show "J = {} \<Longrightarrow> r = 1 \<Longrightarrow> holders cref (objs s) a = {i}" using assms(8) h(1) by (metis card_1_singletonE singletonD)
  have e: "cref (objs s j) = None" if "j \<in> J" for j using vacant_refs[OF _ obj_okD(1)[OF assms(1)]] assms(7) that by blast
  have ha: "holders cref (objs t) a = holders cref (objs s) a - {i} \<union> J" using assms(2,6,10) e by (auto simp: holders_def spread_def split: if_splits)
  have hb: "holders cref (objs t) b = holders cref (objs s) b" if "b \<noteq> a" for b
    using assms(2,6,10) e that by (auto simp: holders_def spread_def split: if_splits)
  have "(holders cref (objs s) a - {i}) \<inter> J = {}" using e by (force simp: holders_def)
  then have c1: "card (holders cref (objs t) a) = r + card J - 1" using h assms(5,8) r unfolding ha by (subst card_Un_disjoint) auto
  have u: "unat (of_nat (r + card J - 1) :: u32) = r + card J - 1" by (rule unat_nat32) (use assms(9) r in linarith)
  have all: "\<forall>k\<in>holders cref (objs t) a. is_shared (objs t k)" unfolding ha using assms(4,6,10) marked_shared(1) by (auto simp: spread_def)
  have "live_refs t a = (if r + card J - 1 = 0 then None else Some (of_nat (r + card J - 1)))" using all assms(11) by (auto simp: live_refs_def)
  moreover have "live_refs t b = live_refs s b" if "b \<noteq> a" for b
    using that assms(2,6,10,11) e by (intro live_refs_cong) (auto simp: spread_def split: if_splits)
  ultimately have lt: "live_refs t = (live_refs s)(a := if r + card J - 1 = 0 then None else Some (of_nat (r + card J - 1)))" by auto
  show "counted cref (objs t) (live_refs t) (\<lambda>_. 0)" unfolding lt
  proof (rule counted_upd[OF cnt hb])
    show "finite (holders cref (objs t) a)" using ha h(2) assms(5) by simp
    show "(if r + card J - 1 = 0 then None else Some (of_nat (r + card J - 1) :: u32)) \<noteq> Some 0" using u by (metis option.distinct(1) option.inject unat_0)
  qed (use c1 u in auto)
qed

lemma empty_rep:
  assumes "m_rep s u" "\<not> vacant (objs s i)"
  shows "\<exists>s1. m_close i s = Inr (True, s1) \<and> m_rep (m_init i s1) (set_val i (fresh (K_data []) 0) u)"
proof -
  from close_rep[OF assms] obtain s1 where s1: "m_close i s = Inr (True, s1)" "m_rep s1 (set_val i Shut u)" "objs s1 = (objs s)(i := closed (objs s i))" by blast
  have "room_at i None s1" using s1(3) obj_okD(2)[OF rep_ok(1)[OF assms(1)] assms(2)] by (simp add: room_at_def)
  from rep_blank[OF s1(2) this, of "Vsm []"] s1(1) show ?thesis by (simp add: m_init_def)
qed

lemma init_put [simp]: "m_init i (put i m s) = m_init i s"
  by (simp add: m_init_def put_def)

text \<open>A message without a buffer is copied as it is.\<close>

lemma distribute_plain:
  assumes "m_rep s u" "m_may (Op_distribute i ws) s" "cref (objs s i) = None" "ws \<noteq> []"
  shows "m_distribute i ws s = Inr (s\<lparr>objs := spread (reached ws) i (objs s i) (blank (Vsm [])) (objs s)\<rparr>)"
proof -
  let ?m = "objs s i" and ?s2 = "raw_copies i ws s"
  have a: "\<not> vacant ?m" "m_metadata ?m = None" "gref ?m = None" "i \<notin> fst ` set ws" using assms(2) by auto
  have o: "obj_ok ?m" by (rule obj_okD(1)[OF rep_ok(1)[OF assms(1)]])
  have p: "content_ptr ?m = None" by (rule content_ptr_cref(2)[OF assms(3) a(1)])
  have "i \<notin> reached ws" using a(4) by (force simp: reached_def)
  then have oi: "objs ?s2 i = ?m" by (simp add: raw_copies_eq[OF a(4)] spread_def)
  have "m_add_refs n i s = Inr s" for n using a(2) p by (simp add: m_add_refs_def share_def)
  moreover have "m_close i ?s2 = Inr (True, put i (closed ?m) ?s2)" using close_plain[of ?s2 i] a o assms(3) by (simp add: oi)
  then have "\<exists>b. m_rm_refs f i ?s2 = Inr (b, ?s2) \<or> m_rm_refs f i ?s2 = Inr (b, put i (closed ?m) ?s2)" for f
    using a(2) p by (cases "f = 0") (auto simp: m_rm_refs_def oi Let_def)
  ultimately have "m_distribute i ws s = Inr (m_init i ?s2)"
    using assms(4) by (auto simp: m_distribute_def Let_def bindE_def split: sum.splits) (metis init_put old.prod.inject sum.inject(2) sum.distinct(1))+
  then show ?thesis by (simp add: init_raw[OF a(4)])
qed

text \<open>A message with a buffer that is shared before or by the copies.\<close>

lemma distribute_shared:
  assumes "m_rep s u" "m_may (Op_distribute i ws) s" "cref (objs s i) = Some a" "ws \<noteq> []" "length ws > 1 \<or> is_shared (objs s i)"
  shows "\<exists>t. m_distribute i ws s = Inr t \<and> placed (reached ws) i (marked (objs s i)) s t \<and> counted cref (objs t) (live_refs t) (\<lambda>_. 0)"
proof -
  let ?m = "objs s i" and ?J = "reached ws" and ?f = "length (filter (\<lambda>w. \<not> snd w) ws)" and ?r = "card (holders cref (objs s) a)"
  note ok = rep_ok(1)[OF assms(1)]
  have b: "\<not> vacant ?m" "m_metadata ?m = None" "distinct (map fst ws)" "i \<notin> fst ` set ws" using assms(2) by auto
  have J: "i \<notin> ?J" "\<And>j. j \<in> ?J \<Longrightarrow> vacant (objs s j) \<and> j < 2 ^ 31" using assms(2) by (force simp: reached_def)+
  note wc = reached_card[OF b(3)]
  from add_refs_ok[OF ok assms(3) b(2), of "length ws - 1"] assms(5) obtain c where c: "contents s a = Some c"
    "m_add_refs (length ws - 1) i s = Inr (put i (marked ?m) (set_content a (Some (c\<lparr>c_refcnt := of_nat ?r + of_nat (length ws - 1)\<rparr>)) s))"
    "\<forall>k\<in>holders cref (objs s) a. k \<noteq> i \<longrightarrow> is_shared (objs s k)" by auto
  let ?c = "c\<lparr>c_refcnt := of_nat ?r + of_nat (length ws - 1)\<rparr>"
  let ?s1 = "put i (marked ?m) (set_content a (Some ?c) s)"
  let ?s2 = "raw_copies i ws ?s1" and ?n = "?r + card ?J - 1"
  have "?r \<le> 2 ^ 31" using holders_bound[OF ok, of cref a] open_refs(1) by simp
  moreover have "card ?J \<le> card {..<2 ^ 31 :: nat}" using J(2) by (intro card_mono) auto
  ultimately have bound: "?r + card ?J \<le> 2 ^ 32" by simp
  let ?c' = "if ?n = 0 then None else Some (c\<lparr>c_refcnt := of_nat ?n\<rparr>)"
  define t where "t = (set_content a ?c' s)\<lparr>objs := spread ?J i (marked ?m) (blank (Vsm [])) (objs s),
    released := released s @ (if ?n = 0 then case c_ffn c of None \<Rightarrow> [] | Some f \<Rightarrow> [(f, c_hint c)] else [])\<rparr>"
  have Jv: "\<forall>j\<in>?J. vacant (objs s j)" using J(2) by blast
  have tf: "objs t = spread ?J i (marked ?m) (blank (Vsm [])) (objs s)" "contents t = (contents s)(a := ?c')" by (simp_all add: t_def)
  note sp = spread_shared[OF ok assms(3) c(1,3) wc(1) J(1) Jv refl bound tf]
  have is2: "m_init i ?s2 = (set_content a (Some ?c) s)\<lparr>objs := spread ?J i (marked ?m) (blank (Vsm [])) (objs s)\<rparr>"
  proof -
    have "spread ?J i (marked ?m) (blank (Vsm [])) ((objs s)(i := marked ?m)) = spread ?J i (marked ?m) (blank (Vsm [])) (objs s)" by (auto simp: spread_def)
    then show ?thesis by (simp add: init_raw[OF b(4)] put_def)
  qed
  have o2: "objs ?s2 i = marked ?m" "contents ?s2 = (contents s)(a \<mapsto> ?c)" using J(1) by (simp_all add: raw_copies_eq[OF b(4)] spread_def)
  have k: "of_nat ?r + of_nat (length ws - 1) - of_nat ?f = (of_nat ?n :: u32)"
  proof -
    have "?r + (length ws - 1) = ?n + ?f" using wc(2) assms(4) sp(2) by (cases ws) auto
    then show ?thesis by (metis add_diff_cancel_right' of_nat_add)
  qed
  have z: "(of_nat ?n :: u32) = 0 \<longleftrightarrow> ?n = 0" by (rule nat32_zero) (use bound sp(2) in linarith)
  have "\<exists>b s3. (if ?f > 0 then m_rm_refs ?f i ?s2 else Inr (True, ?s2)) = Inr (b, s3) \<and> m_init i s3 = t"
  proof (cases "?f > 0")
    case True
    have "m_rm_refs ?f i ?s2 = Inr (drop_content (of_nat ?f) a ?c ?s2)"
      using True b(2) o2 content_ptr_cref(1)[of "marked ?m" a] assms(3) marked_shared(1) by (simp add: m_rm_refs_def content_at_def)
    moreover have "m_init i (snd (drop_content (of_nat ?f) a ?c ?s2)) = t"
      unfolding init_drop is2 unfolding drop_recount[OF k] z t_def by (rule mem.equality) (auto simp: free_content_def split: option.splits)
    ultimately show ?thesis by (metis True prod.collapse)
  next
    case False
    then have "?f = 0" by simp
    then have "card ?J = length ws" using wc(2) by (simp only: add_0_right)
    moreover have "length ws > 0" using assms(4) by simp
    ultimately have "?n \<noteq> 0" using sp(2) by linarith
    moreover have "(of_nat ?n :: u32) = of_nat ?r + of_nat (length ws - 1)" using k \<open>?f = 0\<close> by (simp only: semiring_1_class.of_nat_0 diff_0_right)
    ultimately have "?c' = Some ?c" by (simp only: if_False)
    then have "t = (set_content a (Some ?c) s)\<lparr>objs := spread ?J i (marked ?m) (blank (Vsm [])) (objs s), released := released s\<rparr>"
      unfolding t_def using \<open>?n \<noteq> 0\<close> by (simp only: if_False append_Nil2)
    then have "m_init i ?s2 = t" unfolding is2 by (simp add: set_content_def)
    then show ?thesis using False by auto
  qed
  then obtain bb s3 where s3: "(if ?f > 0 then m_rm_refs ?f i ?s2 else Inr (True, ?s2)) = Inr (bb, s3)" "m_init i s3 = t" by blast
  have nv: "\<not> is_vsm ?m" using assms(3) by (auto simp: is_vsm_def cref_def split: mtype.splits)
  have r: "m_distribute i ws s = Inr t" unfolding m_distribute_def Let_def using assms(4) nv by (simp only: if_False c(2) bindE_simps s3 prod.case)
  have fin: "finite (dom (contents s))" by (rule finite_contents[OF ok])
  have ow: "mset (released t) + owns t = mset (released s) + owns s"
  proof -
    have e: "owns t = owns (set_content a ?c' s)" by (simp add: t_def owns_def)
    show ?thesis
    proof (cases "?n = 0")
      case True
      then show ?thesis using owns_free[OF fin c(1)] e by (auto simp: t_def fns_def ac_simps split: option.splits)
    next
      case False
      then show ?thesis using owns_upd[OF fin c(1) kin_fns[OF kin_refl(2)]] e by (simp add: t_def)
    qed
  qed
  have "contents t b \<noteq> None" if "k \<notin> ?J" "k \<noteq> i" "cref (objs s k) = Some b" for k b
  proof (cases "b = a")
    case True
    have "\<not> ?n = 0"
    proof
      assume "?n = 0"
      then have "?r = 1" "card ?J = 0" using sp(2) by linarith+
      then have "holders cref (objs s) a = {i}" using sp(3) wc(1) by simp
      then show False using True that by (auto simp: holders_def)
    qed
    then show ?thesis using True tf by simp
  next
    case False
    then show ?thesis using live_at[OF ok that(3)] tf by auto
  qed
  moreover have "contents t a \<noteq> None" if "?J \<noteq> {}"
  proof -
    have "card ?J > 0" using that wc(1) by (simp add: card_gt_0_iff)
    then show ?thesis using sp(2) tf by simp
  qed
  ultimately have "placed ?J i (marked ?m) s t" using ow c(1) assms(3) tf by (auto simp: placed_def t_def split: if_splits)
  with r sp(1) show ?thesis by blast
qed

lemma distribute_ok:
  assumes "m_rep s u" "m_may (Op_distribute i ws) s"
  shows "\<exists>s'. m_distribute i ws s = Inr s' \<and> m_rep s' (set_val i (fresh (K_data []) 0) (u\<lparr>vals := (\<lambda>k. if k \<in> reached ws then vals u i else vals u k)\<rparr>))"
proof -
  let ?m = "objs s i" and ?J = "reached ws"
  note ok = rep_ok(1)[OF assms(1)]
  have b: "\<not> vacant ?m" "m_metadata ?m = None" "gref ?m = None" "i \<notin> fst ` set ws" using assms(2) by auto
  have J: "i \<notin> ?J" "\<forall>j\<in>?J. j < 2 ^ 31 \<and> vacant (objs s j)" using assms(2) by (force simp: reached_def)+
  note pr = placed_rep[OF assms(1) b(1-3) J(2,1)]
  consider "ws = []" | "ws \<noteq> []" "cref ?m = None" | a where "ws \<noteq> []" "cref ?m = Some a" "length ws > 1 \<or> is_shared ?m"
    | a j w where "ws = [(j, w)]" "cref ?m = Some a" "\<not> is_shared ?m"
    by (cases ws; cases "tl ws"; cases "cref ?m") auto
  then show ?thesis
  proof cases
    case 1
    from empty_rep[OF assms(1) b(1)] 1 show ?thesis by (auto simp: m_distribute_def reached_def)
  next
    case 2
    let ?t = "s\<lparr>objs := spread ?J i ?m (blank (Vsm [])) (objs s)\<rparr>"
    have e: "cref (objs s j) = None" if "j \<in> ?J" for j using vacant_refs[OF _ obj_okD(1)[OF ok]] J(2) that by blast
    have "live_refs ?t = live_refs s" using 2(2) e by (intro ext live_refs_cong) (auto simp: spread_def split: if_splits)
    then have c: "counted cref (objs ?t) (live_refs ?t) (\<lambda>_. 0)" using ok 2(2) e by (simp add: mem_ok_def spread_none)
    have "owns ?t = owns s" by (simp add: owns_def)
    moreover have "\<exists>c. contents s a = Some c" if "cref (objs s k) = Some a" for k a using live_at[OF ok that] by blast
    ultimately have "placed ?J i ?m s ?t" using 2(2) by (auto simp: placed_def)
    from pr[OF this _ c] distribute_plain[OF assms 2(2,1)] show ?thesis by auto
  next
    case 3
    from distribute_shared[OF assms 3(2,1,3)] pr show ?thesis by blast
  next
    case 4
    have nv: "\<not> is_vsm ?m" using 4(2) by (auto simp: is_vsm_def cref_def split: mtype.splits)
    have add: "m_add_refs 0 i s = Inr s" using b(2) by (simp add: m_add_refs_def)
    show ?thesis
    proof (cases w)
      case True
      then have Jj: "?J = {j}" using 4(1) by (auto simp: reached_def)
      then have jj: "j \<noteq> i" "vacant (objs s j)" "j < 2 ^ 31" using J by auto
      let ?t = "put i (blank (Vsm [])) (put j ?m s)"
      have r: "m_distribute i ws s = Inr ?t" using True 4(1) nv add by (simp add: m_distribute_def Let_def m_init_def)
      have "mem_ok (held s) ?t" by (rule move_mem[OF ok jj(2,1) b(1) jj(3)]) simp_all
      then have "m_rep ?t (set_val i (fresh (K_data []) 0) (u\<lparr>vals := (\<lambda>k. if k \<in> ?J then vals u i else vals u k)\<rparr>))"
        using assms(1) jj(1) unfolding Jj by (auto simp: m_rep_def set_val_def fun_eq_iff)
      with r show ?thesis by blast
    next
      case False
      then have Jj: "?J = {}" using 4(1) by (auto simp: reached_def)
      from empty_rep[OF assms(1) b(1)] obtain s1 where s1: "m_close i s = Inr (True, s1)" "m_rep (m_init i s1) (set_val i (fresh (K_data []) 0) u)" by blast
      have "m_rm_refs 1 i s = Inr (False, s1)" using b(2) 4(2,3) s1(1) content_ptr_cref(1)[OF 4(2)] by (simp add: m_rm_refs_def Let_def)
      then have "m_distribute i ws s = Inr (m_init i s1)" using False 4(1) nv add by (simp add: m_distribute_def Let_def)
      then show ?thesis using s1(2) Jj by auto
    qed
  qed
qed

section \<open>Refinement\<close>

lemma m_step_ok:
  assumes "m_rep s u" "m_may x s"
  shows "\<exists>s'. m_step x s = Inr (fst (v_step x u), s') \<and> m_rep s' (snd (v_step x u))"
proof (cases x)
  case (Op_init i)
  then show ?thesis using rep_blank[OF assms(1), of i "Vsm []"] assms(2) by (simp add: m_init_def plain_rc_def new_val_def)
next
  case (Op_init_size i sz al junk)
  then show ?thesis using init_size_ok[OF assms(1), of i al junk sz] assms(2) by (auto simp: with_rc_def new_val_def)
next
  case (Op_init_any i bs ffn hint content al junk)
  then show ?thesis using init_any_ok[OF assms(1)] assms(2) by simp
next
  case (Op_init_mark i k)
  have "view s (blank Delim) = fresh K_delimiter 0" "view s (blank Join) = fresh K_join 0" "view s (blank Leave) = fresh K_leave 0"
    "cref (blank Delim) = None" "cref (blank Join) = None" "cref (blank Leave) = None"
    by (simp_all add: view_def blank_def kind_of_def name_of_def fresh_def cref_def)
  then show ?thesis using Op_init_mark rep_blank[OF assms(1), of i] assms(2)
    by (cases k) (auto simp: plain_rc_def new_val_def m_init_delimiter_def m_init_join_def m_init_leave_def dest: sym)
next
  case (Op_init_topic i sub t al junk)
  have "(12 :: byte) AND msg_shared = 0" "(16 :: byte) AND msg_shared = 0" by (simp_all add: msg_shared_def)
  with init_topic_ok[OF assms(1), of i al t 12 junk] init_topic_ok[OF assms(1), of i al t 16 junk] Op_init_topic assms(2) show ?thesis
    by (cases sub) (auto simp: with_rc_def new_val_def m_init_subscribe_def m_init_cancel_def)
next
  case (Op_close i)
  show ?thesis
  proof (cases "vacant (objs s i)")
    case True
    then have "m_type (objs s i) = Closed" using assms(2) Op_close by (simp add: vacant_def)
    moreover from this have "set_val i Shut u = u" using rep_ok(2)[OF assms(1), of i] by (simp add: set_val_def view_def fun_upd_idem)
    ultimately show ?thesis using Op_close assms close_shut rep_shut[OF assms(1), of i] True by (simp add: with_rc_def)
  next
    case False
    with close_rep[OF assms(1), of i] rep_shut[OF assms(1), of i] assms(2) Op_close show ?thesis by (auto simp: with_rc_def)
  qed
next
  case (Op_move i j)
  then show ?thesis using move_ok[OF assms(1)] assms(2) by simp
next
  case (Op_copy i j)
  then show ?thesis using copy_ok[OF assms(1)] assms(2) by simp
next
  case (Op_read i)
  then show ?thesis using data_ok(1)[OF assms(1), of i] assms by simp
next
  case (Op_size i)
  then show ?thesis using data_ok(1)[OF assms(1), of i] assms by (simp add: m_size_def)
next
  case (Op_fill i bs)
  then show ?thesis using fill_ok[OF assms(1), of i bs] data_ok(1)[OF assms(1), of i] assms(2) by (auto simp: plain_rc_def m_size_def)
next
  case (Op_shrink i n)
  then show ?thesis using shrink_ok[OF assms(1), of i n] data_ok(1)[OF assms(1), of i] assms(2) by (auto simp: plain_rc_def m_size_def)
next
  case (Op_set_flags i f)
  then show ?thesis using set_flags_ok(1)[OF assms(1), of i f] assms(2) by (simp add: plain_rc_def)
next
  case (Op_reset_flags i f)
  then show ?thesis using set_flags_ok(2)[OF assms(1), of i f] assms(2) by (simp add: plain_rc_def)
next
  case (Op_new_metadata a d)
  then show ?thesis using new_metadata_ok[OF assms(1), of a d] assms(2) by (simp add: plain_rc_def)
next
  case (Op_drop_metadata a)
  then show ?thesis using drop_metadata_ok[OF assms(1), of a] assms(2) by (auto simp: plain_rc_def)
next
  case (Op_set_metadata i a)
  then show ?thesis using set_metadata_ok[OF assms(1), of i a] assms(2) by (auto simp: plain_rc_def)
next
  case (Op_reset_metadata i)
  then show ?thesis using reset_metadata_ok[OF assms(1), of i] assms(2) by (auto simp: plain_rc_def)
next
  case (Op_set_routing_id i r)
  then show ?thesis using routing_id_ok[OF assms(1), of i r] assms(2) by (cases "r = 0") (simp_all add: plain_rc_def with_rc_def m_set_routing_id_def m_reset_routing_id_def)
next
  case (Op_group i)
  then show ?thesis using group_name_ok[OF assms(1), of i] assms by simp
next
  case (Op_set_group i g al)
  then show ?thesis using set_group_ok[OF assms(1)] assms(2) by simp
next
  case (Op_distribute i ws)
  then show ?thesis using distribute_ok[OF assms(1), of i ws] assms(2) by (auto simp: plain_rc_def reached_def)
qed

interpretation ms: simulation m_step v_step m_may m_rep
  by unfold_locales (rule m_step_ok)

text \<open>Before anything is initialised.\<close>

definition m_start :: mem where
  "m_start = \<lparr>objs = (\<lambda>_. blank Closed), contents = Map.empty, metas = Map.empty, groups = Map.empty, released = [], held = {}\<rparr>"

definition v_start :: mspec where "v_start = \<lparr>vals = (\<lambda>_. Shut), given = {#}\<rparr>"

lemma start_rep: "m_rep m_start v_start"
proof -
  have "m_type (blank Closed) = Closed" by (simp add: blank_def)
  then show ?thesis
    by (auto simp: m_rep_def mem_ok_def counted_def holders_def m_start_def v_start_def live_refs_def obj_ok_def view_def owns_def cref_def)
qed

text \<open>Nothing is left when all messages are closed.\<close>

lemma all_closed:
  assumes "m_rep s u" "\<forall>i. m_type (objs s i) = Closed"
  shows "contents s = Map.empty \<and> groups s = Map.empty \<and> mset (released s) = given u"
proof -
  note ok = rep_ok(1)[OF assms(1)]
  have e: "holders cref (objs s) a = {}" "holders gref (objs s) a = {}" for a using assms(2) by (auto simp: holders_def cref_def gref_def)
  have "counted cref (objs s) (live_refs s) (\<lambda>_. 0)" "counted gref (objs s) (group_refs s) (\<lambda>_. 0)" using ok by (simp_all add: mem_ok_def)
  then have "tally (live_refs s a) = 0 \<and> live_refs s a \<noteq> Some 0" "tally (group_refs s a) = 0 \<and> group_refs s a \<noteq> Some 0" for a
    by (simp_all add: counted_def e)
  then have "live_refs s a = None" "group_refs s a = None" for a by (metis option.exhaust tally_simps(2) unat_eq_zero)+
  then have n: "contents s = Map.empty" "groups s = Map.empty" by (auto simp: live_refs_def fun_eq_iff)
  then have "owns s = {#}" by (simp add: owns_def)
  with n rep_ok(3)[OF assms(1)] show ?thesis by simp
qed

lemma live_has_holder:
  assumes "m_rep s u" "contents s a \<noteq> None"
  shows "\<exists>i. cref (objs s i) = Some a"
proof -
  have c: "counted cref (objs s) (live_refs s) (\<lambda>_. 0)" using rep_ok(1)[OF assms(1)] by (simp add: mem_ok_def)
  from assms(2) obtain n where n: "live_refs s a = Some n" by (auto simp: live_refs_def)
  with c have "unat n = card (holders cref (objs s) a)" "n \<noteq> 0" unfolding counted_def by (metis add_0_right tally_simps(2))+
  then have "holders cref (objs s) a \<noteq> {}" by (metis card.empty unat_eq_zero)
  then show ?thesis by (auto simp: holders_def)
qed

lemma room_at_code [code]: "room_at i al s \<longleftrightarrow> int i < 2 ^ 31 \<and> vacant (objs s i) \<and> (case al of None \<Rightarrow> True | Some a \<Rightarrow> contents s a = None)"
  by (auto simp: room_at_def)

section \<open>Properties\<close>

text \<open>
  C17. Messages are values, although copies share their buffers: every history of initialisations, copies, moves, plain copies for several
  pipes, changes and closings that keeps to the rules of the library gives the results that it has when
  each object holds its own bytes, flags, metadata and group, and no freed object is used.
\<close>
theorem message_values:
  assumes "allowed m_step m_may xs m_start"
  shows "\<exists>s. run_ops m_step xs m_start = Inr (fst (spec_run v_step xs v_start), s) \<and> (\<forall>i. view s (objs s i) = vals (snd (spec_run v_step xs v_start)) i)"
proof -
  from ms.run_sim[OF start_rep assms] obtain s where "run_ops m_step xs m_start = Inr (fst (spec_run v_step xs v_start), s)" "m_rep s (snd (spec_run v_step xs v_start))" by blast
  then show ?thesis using rep_ok(2) by metis
qed

theorem message_values_witness:
  "\<exists>s. run_ops m_step [Op_init_any 0 (replicate 40 7) (Some 1) 5 None (Some 3) (\<lambda>_. 0), Op_init 1, Op_copy 1 0, Op_close 0, Op_read 1] m_start =
     Inr ([Rc True, Rc True, Rc True, Rc True, Got (replicate 40 7)], s)"
proof -
  let ?xs = "[Op_init_any 0 (replicate 40 7) (Some 1) 5 None (Some 3) (\<lambda>_. 0), Op_init 1, Op_copy 1 0, Op_close 0, Op_read 1]"
  have "allowed m_step m_may ?xs m_start" by code_simp
  moreover have "fst (spec_run v_step ?xs v_start) = [Rc True, Rc True, Rc True, Rc True, Got (replicate 40 7)]" by code_simp
  ultimately show ?thesis using message_values[of ?xs] by auto
qed

text \<open>
  C18. Every buffer is freed exactly once and not too early: a buffer in the store belongs to a message, the functions of the user are called at most once for each
  buffer that was handed in, and when all messages are closed, no buffer and no group name is left and each of the functions was called.
\<close>
theorem message_buffers:
  assumes "allowed m_step m_may xs m_start" "run_ops m_step xs m_start = Inr (rs, s)"
  shows "(\<forall>a. contents s a \<noteq> None \<longrightarrow> (\<exists>i. cref (objs s i) = Some a)) \<and> (\<forall>i a. cref (objs s i) = Some a \<longrightarrow> contents s a \<noteq> None) \<and>
    mset (released s) \<subseteq># given (snd (spec_run v_step xs v_start)) \<and>
    ((\<forall>i. m_type (objs s i) = Closed) \<longrightarrow> contents s = Map.empty \<and> groups s = Map.empty \<and> mset (released s) = given (snd (spec_run v_step xs v_start)))"
proof -
  from ms.run_sim[OF start_rep assms(1)] assms(2) have r: "m_rep s (snd (spec_run v_step xs v_start))" by auto
  have "\<forall>i a. cref (objs s i) = Some a \<longrightarrow> contents s a \<noteq> None" using live_at[OF rep_ok(1)[OF r]] by blast
  then show ?thesis using live_has_holder[OF r] all_closed[OF r] rep_ok(3)[OF r] by auto
qed

theorem message_buffers_witness:
  "\<exists>rs s. run_ops m_step [Op_init_any 0 (replicate 40 7) (Some 1) 5 None (Some 3) (\<lambda>_. 0), Op_init 1, Op_copy 1 0, Op_close 0] m_start = Inr (rs, s) \<and>
     (\<forall>a. contents s a \<noteq> None \<longrightarrow> (\<exists>i. cref (objs s i) = Some a)) \<and> mset (released s) \<subseteq># {#(1, 5)#}"
proof -
  let ?xs = "[Op_init_any 0 (replicate 40 7) (Some 1) 5 None (Some 3) (\<lambda>_. 0), Op_init 1, Op_copy 1 0, Op_close 0]"
  let ?r = "run_ops m_step ?xs m_start"
  have a: "allowed m_step m_may ?xs m_start" by code_simp
  have "\<not> isl ?r" by code_simp
  then have "?r = Inr (fst (projr ?r), snd (projr ?r))" by (simp add: sum.expand)
  from message_buffers[OF a this] this show ?thesis
    by (intro exI[of _ "fst (projr ?r)"] exI[of _ "snd (projr ?r)"]) (auto simp: v_start_def new_val_def set_val_def max_vsm_size_def fresh_def Let_def)
qed

text \<open>
  Plain copies do not count references to a long group name: the second pipe that closes its copy uses freed memory.
\<close>
theorem group_freed_twice:
  assumes "14 < length g" "length g \<le> 255"
  shows "run_ops m_step [Op_init 0, Op_set_group 0 g (Some a), Op_distribute 0 [(1, True), (2, True)], Op_close 1, Op_close 2] m_start = Inl Bad_pointer"
  using assms by (simp add: m_start_def m_init_def blank_def put_def plain_rc_def with_rc_def m_set_group_def ZMQ_GROUP_MAX_LENGTH_def Let_def m_distribute_def is_vsm_def
      m_close_def m_check_def release_content_def drop_group_def counter_sub_def)

text \<open>A short name for a message with a long one is ignored, or overwrites the pointer.\<close>
theorem group_not_replaced:
  assumes "14 < length g" "length g \<le> 255" "length h \<le> 14"
  shows "bindE (m_set_group (Some a) g i s) (\<lambda>(_, s1). bindE (m_set_group None h i s1) (\<lambda>(_, s2). m_group_name i s2)) =
    (if length h < 7 then Inr (c_string g) else Inl Bad_pointer)"
  using assms by (simp add: m_set_group_def ZMQ_GROUP_MAX_LENGTH_def Let_def m_group_name_def)

end
