(* ===== verification/Yqueue.thy ===== *)
theory Yqueue
  imports Prelude
begin

text \<open>
  The chunked queue of \<^verbatim>\<open>yqueue.hpp\<close>: elements are allocated in chunks of \<open>N\<close>, doubly linked,
  and the most recently emptied chunk is kept as a spare.  The heap of chunks is part of the state;
  the address that \<^verbatim>\<open>malloc\<close> returns is an argument of the operations that allocate, and every
  access to a chunk that is not allocated is a failure.  The two ends are used by two threads;
  they share the spare chunk only, which both exchange atomically.
\<close>

type_synonym addr = nat
type_synonym ptr = "addr \<times> nat"

record 'a chunk =
  elems :: "nat \<Rightarrow> 'a option"   \<comment> \<open>\<^verbatim>\<open>values\<close>; \<open>None\<close> is uninitialised memory\<close>
  prev :: "addr option"
  nxt :: "addr option"

record 'a yqueue =
  chunks :: "addr \<Rightarrow> 'a chunk option"
  begin_chunk :: addr
  begin_pos :: nat
  back_chunk :: "addr option"
  back_pos :: nat
  end_chunk :: addr
  end_pos :: nat
  spare_chunk :: "addr option"

section \<open>Memory\<close>

definition allocate_chunk :: "addr \<Rightarrow> 'a yqueue \<Rightarrow> 'a yqueue" where
  "allocate_chunk a q = q\<lparr>chunks := (chunks q)(a \<mapsto> \<lparr>elems = (\<lambda>_. None), prev = None, nxt = None\<rparr>)\<rparr>"

definition deref :: "addr \<Rightarrow> 'a yqueue \<Rightarrow> 'a chunk result" where
  "deref c q = (case chunks q c of None \<Rightarrow> Inl Bad_pointer | Some k \<Rightarrow> Inr k)"

definition upd_chunk :: "addr \<Rightarrow> ('a chunk \<Rightarrow> 'a chunk) \<Rightarrow> 'a yqueue \<Rightarrow> 'a yqueue result" where
  "upd_chunk c f q = bindE (deref c q) (\<lambda>k. Inr (q\<lparr>chunks := (chunks q)(c \<mapsto> f k)\<rparr>))"

definition free_chunk :: "addr option \<Rightarrow> 'a yqueue \<Rightarrow> 'a yqueue result" where
  "free_chunk p q = (case p of None \<Rightarrow> Inr q
     | Some c \<Rightarrow> bindE (deref c q) (\<lambda>_. Inr (q\<lparr>chunks := (chunks q)(c := None)\<rparr>)))"

definition load :: "ptr \<Rightarrow> 'a yqueue \<Rightarrow> 'a result" where
  "load p q = bindE (deref (fst p) q)
     (\<lambda>k. case elems k (snd p) of None \<Rightarrow> Inl Bad_pointer | Some v \<Rightarrow> Inr v)"

definition store :: "ptr \<Rightarrow> 'a \<Rightarrow> 'a yqueue \<Rightarrow> 'a yqueue result" where
  "store p v q = upd_chunk (fst p) (\<lambda>k. k\<lparr>elems := (elems k)(snd p \<mapsto> v)\<rparr>) q"

section \<open>Operations\<close>

definition yqueue_new :: "addr \<Rightarrow> 'a yqueue" where
  "yqueue_new a = allocate_chunk a \<lparr>chunks = Map.empty, begin_chunk = a, begin_pos = 0, back_chunk = None,
     back_pos = 0, end_chunk = a, end_pos = 0, spare_chunk = None\<rparr>"

definition front :: "'a yqueue \<Rightarrow> ptr" where
  "front q = (begin_chunk q, begin_pos q)"

definition back_of :: "'a yqueue \<Rightarrow> ptr result" where
  "back_of q = (case back_chunk q of None \<Rightarrow> Inl Bad_pointer | Some c \<Rightarrow> Inr (c, back_pos q))"

definition link_end :: "addr \<Rightarrow> 'a yqueue \<Rightarrow> 'a yqueue result" where
  "link_end c q = bindE (upd_chunk (end_chunk q) (\<lambda>k. k\<lparr>nxt := Some c\<rparr>) q) (\<lambda>q1.
     bindE (upd_chunk c (\<lambda>k. k\<lparr>prev := Some (end_chunk q)\<rparr>) q1) (\<lambda>q2.
     Inr (q2\<lparr>end_chunk := c, end_pos := 0\<rparr>)))"

definition push :: "nat \<Rightarrow> addr \<Rightarrow> 'a yqueue \<Rightarrow> 'a yqueue result" where
  "push N a q =
     (let q1 = q\<lparr>back_chunk := Some (end_chunk q), back_pos := end_pos q, end_pos := end_pos q + 1\<rparr> in
      if end_pos q1 \<noteq> N then Inr q1
      else case spare_chunk q1 of
          Some sc \<Rightarrow> link_end sc (q1\<lparr>spare_chunk := None\<rparr>)
        | None \<Rightarrow> link_end a (allocate_chunk a q1))"

definition unpush_back :: "nat \<Rightarrow> 'a yqueue \<Rightarrow> 'a yqueue result" where
  "unpush_back N q =
     (if back_pos q \<noteq> 0 then Inr (q\<lparr>back_pos := back_pos q - 1\<rparr>)
      else case back_chunk q of None \<Rightarrow> Inl Bad_pointer
        | Some c \<Rightarrow> bindE (deref c q) (\<lambda>k. Inr (q\<lparr>back_pos := N - 1, back_chunk := prev k\<rparr>)))"

definition unpush_end :: "nat \<Rightarrow> 'a yqueue \<Rightarrow> 'a yqueue result" where
  "unpush_end N q =
     (if end_pos q \<noteq> 0 then Inr (q\<lparr>end_pos := end_pos q - 1\<rparr>)
      else bindE (deref (end_chunk q) q) (\<lambda>k. case prev k of None \<Rightarrow> Inl Bad_pointer
        | Some p \<Rightarrow> bindE (deref p q) (\<lambda>kp.
            bindE (free_chunk (nxt kp) (q\<lparr>end_pos := N - 1, end_chunk := p\<rparr>)) (\<lambda>q1.
            upd_chunk p (\<lambda>k. k\<lparr>nxt := None\<rparr>) q1))))"

definition unpush :: "nat \<Rightarrow> 'a yqueue \<Rightarrow> 'a yqueue result" where
  "unpush N q = bindE (unpush_back N q) (unpush_end N)"

definition pop :: "nat \<Rightarrow> 'a yqueue \<Rightarrow> 'a yqueue result" where
  "pop N q =
     (let q1 = q\<lparr>begin_pos := begin_pos q + 1\<rparr> in
      if begin_pos q1 \<noteq> N then Inr q1
      else bindE (deref (begin_chunk q) q1) (\<lambda>k. case nxt k of None \<Rightarrow> Inl Bad_pointer
        | Some b \<Rightarrow> bindE (upd_chunk b (\<lambda>k. k\<lparr>prev := None\<rparr>) (q1\<lparr>begin_chunk := b\<rparr>)) (\<lambda>q2.
            free_chunk (spare_chunk q2) (q2\<lparr>begin_pos := 0, spare_chunk := Some (begin_chunk q)\<rparr>))))"

text \<open>The destructor frees the chunks from the front to the end, and the spare.\<close>

fun free_all :: "nat \<Rightarrow> 'a yqueue \<Rightarrow> 'a yqueue result" where
  "free_all 0 q = Inl Bad_pointer"
| "free_all (Suc fuel) q =
     (if begin_chunk q = end_chunk q then free_chunk (Some (begin_chunk q)) q
      else bindE (deref (begin_chunk q) q) (\<lambda>k. case nxt k of None \<Rightarrow> Inl Bad_pointer
        | Some b \<Rightarrow> bindE (free_chunk (Some (begin_chunk q)) (q\<lparr>begin_chunk := b\<rparr>)) (free_all fuel)))"

definition yqueue_delete :: "nat \<Rightarrow> 'a yqueue \<Rightarrow> 'a yqueue result" where
  "yqueue_delete fuel q = bindE (free_all fuel q) (\<lambda>q1. free_chunk (spare_chunk q1) (q1\<lparr>spare_chunk := None\<rparr>))"

section \<open>Representation\<close>

definition cell :: "nat \<Rightarrow> addr list \<Rightarrow> nat \<Rightarrow> ptr" where
  "cell N cs k = (cs ! (k div N), k mod N)"

definition link :: "(addr \<Rightarrow> 'a chunk option) \<Rightarrow> addr \<Rightarrow> addr \<Rightarrow> bool" where
  "link h c d \<longleftrightarrow> map_option nxt (h c) = Some (Some d) \<and> map_option prev (h d) = Some (Some c)"

fun links :: "(addr \<Rightarrow> 'a chunk option) \<Rightarrow> addr list \<Rightarrow> bool" where
  "links h (c # d # cs) \<longleftrightarrow> link h c d \<and> links h (d # cs)"
| "links h cs \<longleftrightarrow> True"

definition e_at :: "nat \<Rightarrow> addr list \<Rightarrow> 'a yqueue \<Rightarrow> nat" where
  "e_at N cs q = (length cs - 1) * N + end_pos q"

definition memory_ok :: "addr list \<Rightarrow> 'a yqueue \<Rightarrow> bool" where
  "memory_ok cs q \<longleftrightarrow> (\<forall>c. chunks q c \<noteq> None \<longleftrightarrow> c \<in> set cs \<or> spare_chunk q = Some c) \<and>
     (\<forall>c. spare_chunk q = Some c \<longrightarrow> c \<notin> set cs)"

definition yq_ok :: "nat \<Rightarrow> addr list \<Rightarrow> 'a yqueue \<Rightarrow> bool" where
  "yq_ok N cs q \<longleftrightarrow> 0 < N \<and> cs \<noteq> [] \<and> distinct cs \<and> hd cs = begin_chunk q \<and> last cs = end_chunk q \<and>
     begin_pos q < N \<and> end_pos q < N \<and> begin_pos q \<le> e_at N cs q \<and> links (chunks q) cs \<and> memory_ok cs q \<and>
     (begin_pos q < e_at N cs q \<longrightarrow> back_of q = Inr (cell N cs (e_at N cs q - 1)))"

definition cells :: "nat \<Rightarrow> addr list \<Rightarrow> 'a yqueue \<Rightarrow> ptr list" where
  "cells N cs q = map (cell N cs) [begin_pos q..<e_at N cs q]"

definition yq :: "nat \<Rightarrow> 'a yqueue \<Rightarrow> ptr list \<Rightarrow> bool" where
  "yq N q ps \<longleftrightarrow> (\<exists>cs. yq_ok N cs q \<and> ps = cells N cs q)"

lemma cell_inject:
  assumes "distinct cs" "0 < N" "i < length cs * N" "j < length cs * N"
  shows "cell N cs i = cell N cs j \<longleftrightarrow> i = j"
proof -
  have "i div N < length cs" "j div N < length cs"
    using assms by (simp_all add: less_mult_imp_div_less)
  then show ?thesis using assms(1) unfolding cell_def
    by (auto simp: nth_eq_iff_index_eq) (metis div_mult_mod_eq)
qed

lemma e_at_less: "yq_ok N cs q \<Longrightarrow> e_at N cs q < length cs * N"
  by (cases cs) (auto simp: yq_ok_def e_at_def)

lemma yq_distinct: "yq N q ps \<Longrightarrow> distinct ps"
proof -
  assume "yq N q ps"
  then obtain cs where cs: "yq_ok N cs q" "ps = cells N cs q" by (auto simp: yq_def)
  have "inj_on (cell N cs) {begin_pos q..<e_at N cs q}"
    using e_at_less[OF cs(1)] cs(1) by (intro inj_onI) (auto simp: cell_inject yq_ok_def)
  then show ?thesis using cs(2) by (simp add: cells_def distinct_map)
qed

lemma links_snoc: "links h (cs @ [c, d]) \<longleftrightarrow> links h (cs @ [c]) \<and> link h c d"
  by (induction h cs rule: links.induct) (auto simp: neq_Nil_conv)

lemma links_upd_nxt:
  assumes "distinct cs" "c \<notin> set (butlast cs)" "h c = Some k" "prev k' = prev k"
  shows "links (h(c \<mapsto> k')) cs \<longleftrightarrow> links h cs"
  using assms by (induction h cs rule: links.induct) (auto simp: link_def)

lemma links_upd_prev:
  assumes "distinct cs" "c \<notin> set (tl cs)" "h c = Some k" "nxt k' = nxt k"
  shows "links (h(c \<mapsto> k')) cs \<longleftrightarrow> links h cs"
  using assms by (induction h cs rule: links.induct) (auto simp: link_def)

lemma links_other:
  assumes "c \<notin> set cs"
  shows "links (h(c := k)) cs \<longleftrightarrow> links h cs"
  using assms by (induction h cs rule: links.induct) (auto simp: link_def)

lemma links_cong: "(\<And>c. c \<in> set cs \<Longrightarrow> h c = h' c) \<Longrightarrow> links h cs \<longleftrightarrow> links h' cs"
  by (induction h cs rule: links.induct) (auto simp: link_def)

definition peek :: "'a yqueue \<Rightarrow> ptr \<Rightarrow> 'a option" where
  "peek q p = (case chunks q (fst p) of None \<Rightarrow> None | Some k \<Rightarrow> elems k (snd p))"

lemma load_peek: "load p q = Inr v \<longleftrightarrow> peek q p = Some v"
  by (auto simp: load_def peek_def deref_def split: option.splits)

lemma cell_snoc: "0 < N \<Longrightarrow> k < length cs * N \<Longrightarrow> cell N (cs @ ds) k = cell N cs k"
  by (simp add: cell_def nth_append less_mult_imp_div_less)

lemma cell_tl: "0 < N \<Longrightarrow> cell N (c # cs) (k + N) = cell N cs k"
  by (simp add: cell_def div_add_self2)

lemma cell_last: "cs \<noteq> [] \<Longrightarrow> j < N \<Longrightarrow> cell N cs ((length cs - 1) * N + j) = (last cs, j)"
  by (simp add: cell_def last_conv_nth)

lemma cell_mem: "yq_ok N cs q \<Longrightarrow> p \<in> set (cells N cs q) \<Longrightarrow> fst p \<in> set cs"
  using e_at_less[of N cs q] by (auto simp: cells_def cell_def yq_ok_def less_mult_imp_div_less)

lemma cells_snoc:
  "yq_ok N cs q \<Longrightarrow> cells N cs q \<noteq> [] \<Longrightarrow>
   cells N cs q = map (cell N cs) [begin_pos q..<e_at N cs q - 1] @ [cell N cs (e_at N cs q - 1)]"
  by (cases "e_at N cs q") (auto simp: cells_def split: if_splits)

lemma yq_back: "yq N q ps \<Longrightarrow> ps \<noteq> [] \<Longrightarrow> back_of q = Inr (last ps)"
  by (auto simp: yq_def cells_snoc) (auto simp: cells_def yq_ok_def)

lemma yq_front: "yq N q (p # ps) \<Longrightarrow> front q = p"
proof -
  assume "yq N q (p # ps)"
  then obtain cs where cs: "yq_ok N cs q" "p # ps = cells N cs q" by (auto simp: yq_def)
  from cs(2) have "begin_pos q < e_at N cs q" "p = cell N cs (begin_pos q)"
    by (auto simp: cells_def upt_conv_Cons elim!: Cons_eq_map_D split: if_splits)
       (metis cs(2) list.distinct(1) map_is_Nil_conv upt_eq_Nil_conv not_le_imp_less cells_def list.inject list.simps(9) upt_conv_Cons)+
  then show ?thesis using cs(1) by (auto simp: yq_ok_def cell_def front_def hd_conv_nth)
qed

lemmas yq_simps = push_def Let_def link_end_def upd_chunk_def deref_def allocate_chunk_def free_chunk_def

lemma chunk_alive: "yq_ok N cs q \<Longrightarrow> c \<in> set cs \<Longrightarrow> \<exists>k. chunks q c = Some k"
  by (auto simp: yq_ok_def memory_ok_def)

lemma link_end_ok:
  assumes "cs \<noteq> []" "distinct cs" "last cs = end_chunk q" "links (chunks q) cs" "c \<notin> set cs"
    and "chunks q (end_chunk q) = Some ke" "chunks q c = Some k"
  shows "link_end c q = Inr (q\<lparr>chunks := (chunks q)(end_chunk q \<mapsto> ke\<lparr>nxt := Some c\<rparr>, c \<mapsto> k\<lparr>prev := Some (end_chunk q)\<rparr>),
      end_chunk := c, end_pos := 0\<rparr>)"
    and "links ((chunks q)(end_chunk q \<mapsto> ke\<lparr>nxt := Some c\<rparr>, c \<mapsto> k\<lparr>prev := Some (end_chunk q)\<rparr>)) (cs @ [c])"
proof -
  have e: "end_chunk q \<in> set cs" using assms(1,3) last_in_set by metis
  then have ne: "c \<noteq> end_chunk q" using assms(5) by auto
  then show "link_end c q = Inr (q\<lparr>chunks := (chunks q)(end_chunk q \<mapsto> ke\<lparr>nxt := Some c\<rparr>, c \<mapsto> k\<lparr>prev := Some (end_chunk q)\<rparr>),
      end_chunk := c, end_pos := 0\<rparr>)"
    using assms(6,7) by (simp add: link_end_def upd_chunk_def deref_def)
  obtain xs where cs: "cs = xs @ [end_chunk q]" using assms(1,3) by (metis append_butlast_last_id)
  have "links ((chunks q)(end_chunk q \<mapsto> ke\<lparr>nxt := Some c\<rparr>)) cs"
    using assms(2,4,6) cs by (subst links_upd_nxt) auto
  then have "links ((chunks q)(end_chunk q \<mapsto> ke\<lparr>nxt := Some c\<rparr>, c \<mapsto> k\<lparr>prev := Some (end_chunk q)\<rparr>)) cs"
    using assms(5) by (subst links_other) auto
  then show "links ((chunks q)(end_chunk q \<mapsto> ke\<lparr>nxt := Some c\<rparr>, c \<mapsto> k\<lparr>prev := Some (end_chunk q)\<rparr>)) (cs @ [c])"
    unfolding cs append_assoc append_Cons append_Nil links_snoc using ne by (simp add: link_def)
qed

lemma push_short:
  assumes "yq_ok N cs q" "end_pos q + 1 \<noteq> N"
  defines "q' \<equiv> q\<lparr>back_chunk := Some (end_chunk q), back_pos := end_pos q, end_pos := end_pos q + 1\<rparr>"
  shows "push N a q = Inr q'" "yq_ok N cs q'" "cells N cs q' = cells N cs q @ [cell N cs (e_at N cs q)]"
proof -
  have "cell N cs (e_at N cs q) = (end_chunk q, end_pos q)"
    using assms(1) cell_last[of cs "end_pos q" N] by (simp add: e_at_def yq_ok_def)
  then show "push N a q = Inr q'" "yq_ok N cs q'" "cells N cs q' = cells N cs q @ [cell N cs (e_at N cs q)]"
    using assms(1,2) by (auto simp: push_def q'_def yq_ok_def e_at_def memory_ok_def back_of_def cells_def)
qed

lemma push_ok:
  assumes "yq N q ps" "chunks q a = None"
  shows "\<exists>q' p. push N a q = Inr q' \<and> yq N q' (ps @ [p]) \<and> (\<forall>x\<in>set ps. peek q' x = peek q x)"
proof -
  from assms(1) obtain cs where cs: "yq_ok N cs q" "ps = cells N cs q" by (auto simp: yq_def)
  show ?thesis
  proof (cases "end_pos q + 1 = N")
    case False
    note s = push_short[OF cs(1) False]
    show ?thesis
      by (rule exI, rule exI[of _ "cell N cs (e_at N cs q)"], intro conjI, rule s(1))
         (use s(2,3) cs(2) in \<open>auto simp: yq_def peek_def\<close>)
  next
    case True
    define q1 where "q1 = q\<lparr>back_chunk := Some (end_chunk q), back_pos := end_pos q, end_pos := end_pos q + 1\<rparr>"
    define c where "c = (case spare_chunk q of Some sc \<Rightarrow> sc | None \<Rightarrow> a)"
    define q2 where "q2 = (case spare_chunk q of Some sc \<Rightarrow> q1\<lparr>spare_chunk := None\<rparr> | None \<Rightarrow> allocate_chunk a q1)"
    have p: "push N a q = link_end c q2"
      using True by (simp add: push_def q1_def q2_def c_def Let_def split: option.splits)
    have m: "memory_ok cs q" using cs(1) by (simp add: yq_ok_def)
    have a: "a \<notin> set cs" using chunk_alive[OF cs(1), of a] assms(2) by auto
    have c: "c \<notin> set cs" "\<exists>k. chunks q2 c = Some k" "spare_chunk q2 = None"
      using m a
      by (auto simp: memory_ok_def c_def q2_def q1_def allocate_chunk_def split: option.splits)
    have same: "chunks q2 x = chunks q x" if "x \<in> set cs" for x
      using that a by (auto simp: q2_def q1_def allocate_chunk_def split: option.splits)
    have other: "chunks q2 x \<noteq> None \<longleftrightarrow> x \<in> set cs \<or> x = c" for x
      using m by (auto simp: memory_ok_def q2_def q1_def c_def allocate_chunk_def split: option.splits)
    have q2: "end_chunk q2 = end_chunk q" "begin_chunk q2 = begin_chunk q" "begin_pos q2 = begin_pos q"
      "back_chunk q2 = Some (end_chunk q)" "back_pos q2 = end_pos q"
      by (simp_all add: q2_def q1_def allocate_chunk_def split: option.splits)
    have y: "cs \<noteq> []" "distinct cs" "last cs = end_chunk q2" "0 < N" "links (chunks q) cs"
      using cs(1) q2 by (simp_all add: yq_ok_def)
    have l: "links (chunks q2) cs" using y(5) links_cong[of cs "chunks q2" "chunks q"] same by blast
    from chunk_alive[OF cs(1), of "end_chunk q"] y q2 obtain ke where ke: "chunks q2 (end_chunk q2) = Some ke"
      by (metis same last_in_set)
    from c obtain k where k: "chunks q2 c = Some k" by blast
    define q3 where "q3 = q2\<lparr>chunks := (chunks q2)(end_chunk q2 \<mapsto> ke\<lparr>nxt := Some c\<rparr>, c \<mapsto> k\<lparr>prev := Some (end_chunk q2)\<rparr>),
      end_chunk := c, end_pos := 0\<rparr>"
    note le = link_end_ok[OF y(1,2,3) l c(1) ke k, folded q3_def]
    have e: "e_at N (cs @ [c]) q3 = Suc (e_at N cs q)"
      using True y(1,4) by (cases cs) (simp_all add: e_at_def q3_def algebra_simps)
    have last: "cell N cs (e_at N cs q) = (end_chunk q, end_pos q)"
      using cs(1) cell_last[of cs "end_pos q" N] by (simp add: e_at_def yq_ok_def)
    have cell: "cell N (cs @ [c]) j = cell N cs j" if "j \<le> e_at N cs q" for j
      using that e_at_less[OF cs(1)] y(4) by (intro cell_snoc) auto
    have q3: "end_chunk q3 = c" "end_pos q3 = 0" "begin_chunk q3 = begin_chunk q" "begin_pos q3 = begin_pos q"
      "back_of q3 = Inr (end_chunk q, end_pos q)" "spare_chunk q3 = None"
      by (simp_all add: q3_def q2 c(3) back_of_def)
    have "memory_ok (cs @ [c]) q3"
      using other ke k q3(6) by (auto simp: memory_ok_def q3_def)
    moreover have "links (chunks q3) (cs @ [c])" using le(2) by (simp add: q3_def)
    ultimately have ok: "yq_ok N (cs @ [c]) q3"
      using cs(1) c(1) by (simp add: yq_ok_def e cell last q3)
    have "cells N (cs @ [c]) q3 = ps @ [(end_chunk q, end_pos q)]"
      using cs(1) by (simp add: cells_def e cs(2) yq_ok_def q3 cell last)
    moreover have "peek q3 x = peek q x" if "x \<in> set ps" for x
      using cell_mem[OF cs(1), of x] that c(1) ke cs(2) same by (auto simp: peek_def q3_def)
    ultimately show ?thesis using p le(1) ok unfolding yq_def by metis
  qed
qed

lemma yq_okI:
  assumes "yq_ok N cs q" "0 < N" "cs' \<noteq> []" "distinct cs'" "hd cs' = begin_chunk q'" "last cs' = end_chunk q'"
    "begin_pos q' < N" "end_pos q' < N" "begin_pos q' \<le> e_at N cs' q'" "links (chunks q') cs'" "memory_ok cs' q'"
    "begin_pos q' < e_at N cs' q' \<Longrightarrow> back_of q' = Inr (cell N cs' (e_at N cs' q' - 1))"
    "map (cell N cs') [begin_pos q'..<e_at N cs' q'] = ps"
    "\<And>x. x \<in> set ps \<Longrightarrow> peek q' x = peek q x"
  shows "yq N q' ps \<and> (\<forall>x\<in>set ps. peek q' x = peek q x)"
  using assms unfolding yq_def yq_ok_def cells_def by blast

lemma yq_ConsD:
  assumes "yq N q (p # ps)"
  obtains cs where "yq_ok N cs q" "begin_pos q < e_at N cs q" "ps = map (cell N cs) [Suc (begin_pos q)..<e_at N cs q]"
proof -
  obtain cs where cs: "yq_ok N cs q" "p # ps = cells N cs q" using assms by (auto simp: yq_def)
  from cs(2) have "begin_pos q < e_at N cs q" by (cases "begin_pos q < e_at N cs q") (auto simp: cells_def)
  with cs that show ?thesis by (simp add: cells_def upt_conv_Cons)
qed

lemma cell_fst: "0 < N \<Longrightarrow> j < length cs * N \<Longrightarrow> fst (cell N cs j) \<in> set cs"
  by (simp add: cell_def less_mult_imp_div_less)

lemma pop_chunk:
  assumes "yq_ok N cs q" "begin_pos q < e_at N cs q" "begin_pos q + 1 = N"
  obtains b cs' k kb where "cs = begin_chunk q # b # cs'" "chunks q (begin_chunk q) = Some k" "nxt k = Some b"
    "chunks q b = Some kb"
proof -
  from assms have len: "length cs \<ge> 2" by (cases cs; cases "tl cs") (auto simp: e_at_def yq_ok_def)
  then obtain o' b cs' where cs: "cs = o' # b # cs'" by (metis One_nat_def Suc_1 Suc_le_length_iff)
  with assms(1) have "o' = begin_chunk q" "link (chunks q) o' b" by (auto simp: yq_ok_def)
  with cs that show ?thesis by (auto simp: link_def)
qed

lemma pop_ok:
  assumes "yq N q (p # ps)"
  shows "\<exists>q'. pop N q = Inr q' \<and> yq N q' ps \<and> (\<forall>x\<in>set ps. peek q' x = peek q x)"
proof -
  from yq_ConsD[OF assms] obtain cs where cs: "yq_ok N cs q" "begin_pos q < e_at N cs q"
    "ps = map (cell N cs) [Suc (begin_pos q)..<e_at N cs q]" .
  have y: "0 < N" "cs \<noteq> []" "distinct cs" "begin_pos q < N" "memory_ok cs q" "links (chunks q) cs"
    using cs(1) by (simp_all add: yq_ok_def)
  show ?thesis
  proof (cases "begin_pos q + 1 = N")
    case False
    let ?q = "q\<lparr>begin_pos := begin_pos q + 1\<rparr>"
    have "pop N q = Inr ?q" using False by (simp add: pop_def)
    moreover have "e_at N cs ?q = e_at N cs q" "back_of ?q = back_of q" "memory_ok cs ?q"
      using y(5) by (simp_all add: e_at_def back_of_def memory_ok_def split: option.splits)
    then have "yq N ?q ps \<and> (\<forall>x\<in>set ps. peek ?q x = peek q x)"
      using cs y False by (intro yq_okI[OF cs(1), of cs]) (auto simp: yq_ok_def peek_def)
    ultimately show ?thesis by blast
  next
    case True
    from pop_chunk[OF cs(1,2) True] obtain b cs' k kb where b: "cs = begin_chunk q # b # cs'"
      "chunks q (begin_chunk q) = Some k" "nxt k = Some b" "chunks q b = Some kb" .
    define h where "h = (chunks q)(b \<mapsto> kb\<lparr>prev := None\<rparr>)"
    define h' where "h' = (case spare_chunk q of None \<Rightarrow> h | Some c \<Rightarrow> h(c := None))"
    define q' where "q' = q\<lparr>chunks := h', begin_chunk := b, begin_pos := 0, spare_chunk := Some (begin_chunk q)\<rparr>"
    have spare: "spare_chunk q = Some c \<Longrightarrow> c \<notin> set cs \<and> chunks q c \<noteq> None" for c
      using y(5) by (auto simp: memory_ok_def)
    have "pop N q = Inr q'"
      using True b spare by (auto simp: pop_def deref_def upd_chunk_def free_chunk_def q'_def h'_def h_def split: option.splits)
    moreover have "yq N q' ps \<and> (\<forall>x\<in>set ps. peek q' x = peek q x)"
    proof (rule yq_okI[OF cs(1), of "b # cs'"])
      have e: "e_at N (b # cs') q' + N = e_at N cs q" by (simp add: b e_at_def q'_def)
      have d: "distinct (b # cs')" "begin_chunk q \<notin> set (b # cs')" using y(3) b(1) by auto
      have "links (chunks q) (b # cs')" using y(6) b(1) by simp
      then have "links h (b # cs')" using d(1) b(4) unfolding h_def by (subst links_upd_prev) auto
      moreover have "links h' (b # cs') \<longleftrightarrow> links h (b # cs')"
        using spare b(1) by (intro links_cong) (auto simp: h'_def split: option.splits)
      ultimately show "links (chunks q') (b # cs')" by (simp add: q'_def)
      show "memory_ok (b # cs') q'"
        using y(5) d b by (auto simp: memory_ok_def q'_def h'_def h_def split: option.splits)
      show "0 < N" "b # cs' \<noteq> []" "hd (b # cs') = begin_chunk q'" "begin_pos q' < N" "begin_pos q' \<le> e_at N (b # cs') q'"
        using y by (simp_all add: q'_def)
      show "distinct (b # cs')" by (rule d(1))
      show "last (b # cs') = end_chunk q'" "end_pos q' < N" using cs(1) b(1) by (simp_all add: yq_ok_def q'_def)
      have ne: "e_at N cs q - 1 = (e_at N (b # cs') q' - 1) + N" if "0 < e_at N (b # cs') q'" using that e by simp
      show "back_of q' = Inr (cell N (b # cs') (e_at N (b # cs') q' - 1))"
        if "begin_pos q' < e_at N (b # cs') q'"
      proof -
        have "back_of q' = back_of q" by (simp add: q'_def back_of_def split: option.splits)
        also have "\<dots> = Inr (cell N cs (e_at N cs q - 1))" using cs(1,2) by (simp add: yq_ok_def)
        also have "\<dots> = Inr (cell N (b # cs') (e_at N (b # cs') q' - 1))"
          using cell_tl[OF y(1), of "begin_chunk q" "b # cs'" "e_at N (b # cs') q' - 1"] ne that
          by (simp only: b(1)[symmetric])
        finally show ?thesis .
      qed
      have "ps = map (cell N cs) [0 + N..<e_at N (b # cs') q' + N]" using cs(3) True e by simp
      also have "\<dots> = map (cell N (b # cs')) [0..<e_at N (b # cs') q']"
        using map_add_upt[of N "e_at N (b # cs') q'", symmetric] y(1) b(1) by (simp add: cell_tl comp_def)
      finally show "map (cell N (b # cs')) [begin_pos q'..<e_at N (b # cs') q'] = ps" by (simp add: q'_def)
      then have ps: "ps = map (cell N (b # cs')) [0..<e_at N (b # cs') q']" by (simp add: q'_def)
      have "e_at N (b # cs') q' < length (b # cs') * N" using e e_at_less[OF cs(1)] b(1) by simp
      then have sub: "fst x \<in> set (b # cs')" if x: "x \<in> set ps" for x
      proof -
        from x obtain j where "x = cell N (b # cs') j" "j < e_at N (b # cs') q'" unfolding ps by auto
        then show ?thesis using cell_fst[OF y(1), of j "b # cs'"] \<open>e_at N (b # cs') q' < _\<close> by simp
      qed
      show "peek q' x = peek q x" if "x \<in> set ps" for x
        using sub[OF that] spare b(1,4) by (auto simp: peek_def q'_def h'_def h_def split: option.splits)
    qed
    ultimately show ?thesis by blast
  qed
qed


lemma links_nth: "links h cs \<Longrightarrow> Suc i < length cs \<Longrightarrow> link h (cs ! i) (cs ! Suc i)"
  by (induction h cs arbitrary: i rule: links.induct) (auto simp: nth_Cons split: nat.splits)

lemma before_multiple: "0 < N \<Longrightarrow> (i * N + (N - 1)) div N = i \<and> (i * N + (N - 1)) mod N = N - (1 :: nat)"
  by (intro conjI div_nat_eqI mod_nat_eqI) (simp_all add: mult.commute[of N])

lemma unpush_back_ok:
  assumes "yq_ok N cs q" "begin_pos q < e_at N cs q"
  shows "\<exists>bc bp. unpush_back N q = Inr (q\<lparr>back_chunk := bc, back_pos := bp\<rparr>) \<and>
    (begin_pos q < e_at N cs q - 1 \<longrightarrow> bc = Some (fst (cell N cs (e_at N cs q - 2))) \<and> bp = snd (cell N cs (e_at N cs q - 2)))"
proof -
  let ?j = "e_at N cs q - 1"
  have j: "?j div N < length cs" using e_at_less[OF assms(1)] assms(2)
    by (intro less_mult_imp_div_less) simp
  have N: "0 < N" using assms(1) by (simp add: yq_ok_def)
  have b: "back_chunk q = Some (cs ! (?j div N))" "back_pos q = ?j mod N"
    using assms by (auto simp: yq_ok_def back_of_def cell_def split: option.splits)
  show ?thesis
  proof (cases "?j mod N = 0")
    case False
    then have "?j - 1 = N * (?j div N) + (?j mod N - 1)"
      using mult_div_mod_eq[of N ?j] by linarith
    moreover have "?j mod N - 1 < N" using N by (meson less_imp_diff_less mod_less_divisor)
    ultimately have "(?j - 1) div N = ?j div N" "(?j - 1) mod N = ?j mod N - 1"
      using N by simp_all
    with False b show ?thesis
      by (intro exI[of _ "back_chunk q"] exI[of _ "?j mod N - 1"]) (auto simp: unpush_back_def cell_def numeral_2_eq_2)
  next
    case True
    obtain k where k: "chunks q (cs ! (?j div N)) = Some k" using chunk_alive[OF assms(1) nth_mem[OF j]] by auto
    have "prev k = Some (fst (cell N cs (?j - 1))) \<and> N - 1 = snd (cell N cs (?j - 1))" if "begin_pos q < ?j"
    proof -
      have "?j = (?j div N) * N" using True by (simp add: mod_0_imp_dvd)
      moreover have "?j \<noteq> 0" using that by simp
      ultimately obtain i where i: "?j = Suc i * N" by (cases "?j div N") auto
      then have "?j - 1 = i * N + (N - 1)" using N by simp
      then have "(?j - 1) div N = i" "(?j - 1) mod N = N - 1" using before_multiple[OF N] by simp_all
      moreover have "?j div N = Suc i" using i N by simp
      ultimately show ?thesis
        using links_nth[of "chunks q" cs i] j k assms(1) by (auto simp: yq_ok_def link_def cell_def)
    qed
    with True b k show ?thesis
      by (intro exI[of _ "prev k"] exI[of _ "N - 1"]) (auto simp: unpush_back_def deref_def numeral_2_eq_2)
  qed
qed

lemma yq_snocD:
  assumes "yq N q (ps @ [p])"
  obtains cs where "yq_ok N cs q" "begin_pos q < e_at N cs q" "ps = map (cell N cs) [begin_pos q..<e_at N cs q - 1]"
proof -
  obtain cs where cs: "yq_ok N cs q" "ps @ [p] = cells N cs q" using assms by (auto simp: yq_def)
  then have "begin_pos q < e_at N cs q" by (cases "begin_pos q < e_at N cs q") (auto simp: cells_def)
  moreover have "ps = map (cell N cs) [begin_pos q..<e_at N cs q - 1]"
    using cs(2) cells_snoc[OF cs(1)] by (metis append_is_Nil_conv butlast_snoc not_Cons_self2)
  ultimately show ?thesis using cs(1) that by blast
qed

lemma unpush_ok:
  assumes "yq N q (ps @ [p])"
  shows "\<exists>q'. unpush N q = Inr q' \<and> yq N q' ps \<and> (\<forall>x\<in>set ps. peek q' x = peek q x)"
proof -
  from yq_snocD[OF assms] obtain cs where cs: "yq_ok N cs q" "begin_pos q < e_at N cs q"
    "ps = map (cell N cs) [begin_pos q..<e_at N cs q - 1]" .
  have y: "0 < N" "cs \<noteq> []" "distinct cs" "begin_pos q < N" "memory_ok cs q" "links (chunks q) cs"
    "hd cs = begin_chunk q" "last cs = end_chunk q" "end_pos q < N"
    using cs(1) by (simp_all add: yq_ok_def)
  from unpush_back_ok[OF cs(1,2)] obtain bc bp where u: "unpush_back N q = Inr (q\<lparr>back_chunk := bc, back_pos := bp\<rparr>)"
    and bk: "begin_pos q < e_at N cs q - 1 \<Longrightarrow> bc = Some (fst (cell N cs (e_at N cs q - 2))) \<and> bp = snd (cell N cs (e_at N cs q - 2))"
    by blast
  show ?thesis
  proof (cases "end_pos q = 0")
    case False
    let ?q = "q\<lparr>back_chunk := bc, back_pos := bp, end_pos := end_pos q - 1\<rparr>"
    have "unpush N q = Inr ?q" using False u by (simp add: unpush_def unpush_end_def)
    moreover have e: "e_at N cs ?q = e_at N cs q - 1" using False by (simp add: e_at_def)
    then have "yq N ?q ps \<and> (\<forall>x\<in>set ps. peek ?q x = peek q x)"
      using cs y bk by (intro yq_okI[OF cs(1), of cs]) (auto simp: memory_ok_def peek_def back_of_def numeral_2_eq_2)
    ultimately show ?thesis by blast
  next
    case True
    then have len: "length cs \<ge> 2" using cs(2) y(2) by (cases cs; cases "tl cs") (auto simp: e_at_def)
    then obtain xs d c where xs: "cs = xs @ [d, c]"
      by (metis One_nat_def Suc_1 Suc_le_length_iff append_Cons append_Nil append_butlast_last_id append_assoc list.distinct(1) y(2) butlast.simps(2))
    have l: "link (chunks q) d c" "links (chunks q) (xs @ [d])" using y(6) by (simp_all add: xs links_snoc)
    then obtain kc kd where k: "chunks q c = Some kc" "prev kc = Some d" "chunks q d = Some kd" "nxt kd = Some c"
      by (auto simp: link_def)
    define h where "h = ((chunks q)(c := None))(d \<mapsto> kd\<lparr>nxt := None\<rparr>)"
    define q' where "q' = q\<lparr>back_chunk := bc, back_pos := bp, end_pos := N - 1, end_chunk := d, chunks := h\<rparr>"
    have dc: "d \<noteq> c" "c \<notin> set (xs @ [d])" "distinct (xs @ [d])" "end_chunk q = c" using y(3,8) xs by auto
    have "unpush N q = Inr q'" using True u k dc
      by (simp add: unpush_def unpush_end_def deref_def free_chunk_def upd_chunk_def q'_def h_def)
    moreover have e: "e_at N (xs @ [d]) q' = e_at N cs q - 1" using True y(1) by (simp add: xs e_at_def q'_def)
    have cell: "cell N cs j = cell N (xs @ [d]) j" if "j < e_at N cs q" for j
      using that True y(1) cell_snoc[of N j "xs @ [d]" "[c]"] by (simp add: xs e_at_def)
    have "yq N q' ps \<and> (\<forall>x\<in>set ps. peek q' x = peek q x)"
    proof (rule yq_okI[OF cs(1), of "xs @ [d]"])
      show "0 < N" "xs @ [d] \<noteq> []" "distinct (xs @ [d])" "last (xs @ [d]) = end_chunk q'" "end_pos q' < N" "begin_pos q' < N"
        "begin_pos q' \<le> e_at N (xs @ [d]) q'"
        using y dc cs(2) unfolding e by (simp_all add: q'_def)
      show "hd (xs @ [d]) = begin_chunk q'" using y(7) by (cases xs) (auto simp: xs q'_def)
      show "links (chunks q') (xs @ [d])"
        using l(2) dc k unfolding q'_def h_def by (simp add: links_upd_nxt links_other)
      show "memory_ok (xs @ [d]) q'" using y(5) dc k by (auto simp: memory_ok_def q'_def h_def xs)
      show "back_of q' = Inr (cell N (xs @ [d]) (e_at N (xs @ [d]) q' - 1))" if "begin_pos q' < e_at N (xs @ [d]) q'"
        using that bk cell[of "e_at N cs q - 2"] unfolding e by (simp add: q'_def back_of_def numeral_2_eq_2)
      show "map (cell N (xs @ [d])) [begin_pos q'..<e_at N (xs @ [d]) q'] = ps"
        unfolding e cs(3) by (auto simp: q'_def cell)
      have "e_at N cs q = length (xs @ [d]) * N" using True by (simp add: xs e_at_def)
      then have sub: "fst x \<in> set (xs @ [d])" if x: "x \<in> set ps" for x
      proof -
        from x obtain j where "x = cell N cs j" "j < e_at N cs q" unfolding cs(3) by auto
        then show ?thesis using cell_fst[OF y(1), of j "xs @ [d]"] \<open>e_at N cs q = _\<close> cell by metis
      qed
      show "peek q' x = peek q x" if "x \<in> set ps" for x
        using sub[OF that] dc(1,2) k by (auto simp: peek_def q'_def h_def)
    qed
    with \<open>unpush N q = Inr q'\<close> show ?thesis by blast
  qed
qed

lemma yq_new: "0 < N \<Longrightarrow> yq N (yqueue_new a) []"
  unfolding yq_def
  by (rule exI[of _ "[a]"])
     (auto simp: yq_ok_def cells_def e_at_def yqueue_new_def allocate_chunk_def memory_ok_def)

lemma yq_mem: "yq N q ps \<Longrightarrow> p \<in> set ps \<Longrightarrow> \<exists>k. chunks q (fst p) = Some k"
  unfolding yq_def using cell_mem[of N _ q p] chunk_alive[of N _ q "fst p"] by auto

lemma back_of_chunks [simp]: "back_of (q\<lparr>chunks := h\<rparr>) = back_of q"
  by (simp add: back_of_def split: option.splits)

lemma store_ok:
  assumes "yq N q ps" "p \<in> set ps"
  shows "\<exists>q'. store p v q = Inr q' \<and> yq N q' ps \<and> peek q' = (peek q)(p \<mapsto> v)"
proof -
  obtain k where k: "chunks q (fst p) = Some k" using yq_mem[OF assms] by blast
  let ?k = "k\<lparr>elems := (elems k)(snd p \<mapsto> v)\<rparr>"
  let ?q = "q\<lparr>chunks := (chunks q)(fst p \<mapsto> ?k)\<rparr>"
  have "store p v q = Inr ?q" using k by (simp add: store_def upd_chunk_def deref_def)
  moreover have "peek ?q = (peek q)(p \<mapsto> v)"
    using k by (cases p) (auto simp: peek_def fun_eq_iff split: option.splits)
  moreover have "yq_ok N cs ?q" if "yq_ok N cs q" for cs
  proof -
    have "links (chunks ?q) cs \<longleftrightarrow> links (chunks q) cs"
      by (induction "chunks q" cs rule: links.induct) (auto simp: link_def k)
    with that k show ?thesis by (auto simp: yq_ok_def memory_ok_def e_at_def)
  qed
  then have "yq N ?q ps" using assms(1) by (auto simp: yq_def cells_def e_at_def)
  ultimately show ?thesis by blast
qed

lemma free_all_ok:
  "links (chunks q) cs \<Longrightarrow> distinct cs \<Longrightarrow> cs \<noteq> [] \<Longrightarrow> hd cs = begin_chunk q \<Longrightarrow> last cs = end_chunk q \<Longrightarrow>
   \<forall>c\<in>set cs. chunks q c \<noteq> None \<Longrightarrow> length cs \<le> fuel \<Longrightarrow>
   \<exists>q'. free_all fuel q = Inr q' \<and> spare_chunk q' = spare_chunk q \<and>
     chunks q' = (\<lambda>c. if c \<in> set cs then None else chunks q c)"
proof (induction fuel arbitrary: q cs)
  case 0
  then show ?case by simp
next
  case (Suc fuel)
  then obtain c cs' where cs: "cs = c # cs'" "c = begin_chunk q" by (cases cs) auto
  show ?case
  proof (cases cs')
    case Nil
    with Suc.prems cs show ?thesis by (auto simp: free_chunk_def deref_def fun_eq_iff)
  next
    case (Cons b ds)
    with Suc.prems cs have ne: "begin_chunk q \<noteq> end_chunk q"
      using last_in_set[of "b # ds"] by auto
    from Suc.prems(1) cs Cons obtain k where k: "chunks q c = Some k" "nxt k = Some b" by (auto simp: link_def)
    let ?q = "q\<lparr>begin_chunk := b, chunks := (chunks q)(c := None)\<rparr>"
    have "free_all (Suc fuel) q = free_all fuel ?q"
      using k cs ne by (simp add: deref_def free_chunk_def)
    have l: "links (chunks ?q) cs'" using Suc.prems(1,2) cs Cons links_other[of c cs' "chunks q"] by auto
    have al: "\<forall>x\<in>set cs'. chunks ?q x \<noteq> None" using Suc.prems(2,6) cs Cons by auto
    have "\<exists>q'. free_all fuel ?q = Inr q' \<and> spare_chunk q' = spare_chunk ?q \<and>
       chunks q' = (\<lambda>x. if x \<in> set cs' then None else chunks ?q x)"
      using Suc.prems cs Cons by (intro Suc.IH[OF l _ _ _ _ al]) simp_all
    with \<open>free_all (Suc fuel) q = _\<close> show ?thesis using cs by (auto simp: fun_eq_iff)
  qed
qed

text \<open>The destructor gives back all memory, and frees nothing twice.\<close>

lemma yqueue_delete_ok:
  assumes "yq N q ps" "length ps + 1 < fuel"
  shows "\<exists>q'. yqueue_delete fuel q = Inr q' \<and> chunks q' = Map.empty"
proof -
  obtain cs where cs: "yq_ok N cs q" "ps = cells N cs q" using assms(1) by (auto simp: yq_def)
  have "length ps = e_at N cs q - begin_pos q" "begin_pos q < N" "0 < N" using cs by (simp_all add: cells_def yq_ok_def)
  then have "(length cs - 1) * N < length ps + N" by (simp add: e_at_def)
  then have "(length cs - 1) * N < (length ps + 1) * N" using \<open>0 < N\<close> by (simp add: less_le_trans)
  then have "length cs - 1 < length ps + 1" using \<open>0 < N\<close> by (metis mult_less_cancel2)
  then have len: "length cs \<le> fuel" using assms(2) by simp
  from cs(1) len have "\<exists>q'. free_all fuel q = Inr q' \<and> spare_chunk q' = spare_chunk q \<and>
     chunks q' = (\<lambda>c. if c \<in> set cs then None else chunks q c)"
    by (intro free_all_ok) (auto simp: yq_ok_def memory_ok_def)
  then obtain q' where q': "free_all fuel q = Inr q'" "spare_chunk q' = spare_chunk q"
    "chunks q' = (\<lambda>c. if c \<in> set cs then None else chunks q c)" by blast
  have m: "chunks q c \<noteq> None \<longleftrightarrow> c \<in> set cs \<or> spare_chunk q = Some c" "spare_chunk q = Some c \<Longrightarrow> c \<notin> set cs" for c
    using cs(1) unfolding yq_ok_def memory_ok_def by blast+
  show ?thesis
  proof (cases "spare_chunk q")
    case None
    then have "chunks q' = Map.empty" using m(1) by (fastforce simp: q'(3))
    with None q' show ?thesis by (simp add: yqueue_delete_def free_chunk_def)
  next
    case (Some c)
    then have "chunks q' c \<noteq> None" "(chunks q')(c := None) = Map.empty"
      using m by (auto simp: q'(3) fun_eq_iff) (metis option.exhaust)
    with Some q' show ?thesis by (auto simp: yqueue_delete_def free_chunk_def deref_def)
  qed
qed

end
