(* ===== verification/Ypipe.thy ===== *)
theory Ypipe
  imports Yqueue
begin

text \<open>
  The lock-free pipe of \<^verbatim>\<open>ypipe.hpp\<close> between a writer and a reader thread.  A pointer to an element
  is the address of a chunk and a position in it.  The two threads share the atomic pointer \<open>yc\<close>; every other
  field belongs to one of them.
\<close>

record 'a ypipe =
  yqu :: "'a yqueue"
  yw :: ptr               \<comment> \<open>first item not flushed, writer\<close>
  yr :: "ptr option"      \<comment> \<open>first item not prefetched, reader\<close>
  yf :: ptr               \<comment> \<open>first item to be flushed in the future, writer\<close>
  yc :: "ptr option"      \<comment> \<open>past the last flushed item; \<open>None\<close>: the reader is asleep\<close>

definition ypipe_new :: "nat \<Rightarrow> addr \<Rightarrow> addr \<Rightarrow> 'a ypipe result" where
  "ypipe_new N a b = bindE (push N b (yqueue_new a)) (\<lambda>q. bindE (back_of q) (\<lambda>p.
     Inr \<lparr>yqu = q, yw = p, yr = Some p, yf = p, yc = Some p\<rparr>))"

definition yp_write :: "nat \<Rightarrow> addr \<Rightarrow> 'a \<Rightarrow> bool \<Rightarrow> 'a ypipe \<Rightarrow> 'a ypipe result" where
  "yp_write N a v incomplete y = bindE (back_of (yqu y)) (\<lambda>p. bindE (store p v (yqu y)) (\<lambda>q1.
     bindE (push N a q1) (\<lambda>q2. bindE (back_of q2) (\<lambda>p2.
     Inr (y\<lparr>yqu := q2, yf := (if incomplete then yf y else p2)\<rparr>)))))"

definition yp_unwrite :: "nat \<Rightarrow> 'a ypipe \<Rightarrow> ('a option \<times> 'a ypipe) result" where
  "yp_unwrite N y = bindE (back_of (yqu y)) (\<lambda>p.
     if yf y = p then Inr (None, y)
     else bindE (unpush N (yqu y)) (\<lambda>q1. bindE (back_of q1) (\<lambda>p1. bindE (load p1 q1) (\<lambda>v.
       Inr (Some v, y\<lparr>yqu := q1\<rparr>)))))"

text \<open>
  A flush: nothing to do, or the compare-and-swap succeeds, or the reader was asleep and the
  new value is set in a second step.
\<close>

datatype cas = Nothing | Swapped | Failed

definition yp_flush_cas :: "'a ypipe \<Rightarrow> cas \<times> 'a ypipe" where
  "yp_flush_cas y =
     (if yw y = yf y then (Nothing, y)
      else if yc y = Some (yw y) then (Swapped, y\<lparr>yc := Some (yf y), yw := yf y\<rparr>)
      else (Failed, y))"

definition yp_flush_set :: "'a ypipe \<Rightarrow> 'a ypipe" where
  "yp_flush_set y = y\<lparr>yc := Some (yf y), yw := yf y\<rparr>"

definition yp_flush :: "'a ypipe \<Rightarrow> bool \<times> 'a ypipe" where
  "yp_flush y = (case yp_flush_cas y of (Failed, y1) \<Rightarrow> (False, yp_flush_set y1) | (_, y1) \<Rightarrow> (True, y1))"

definition prefetched :: "'a ypipe \<Rightarrow> bool" where
  "prefetched y \<longleftrightarrow> yr y \<noteq> None \<and> yr y \<noteq> Some (front (yqu y))"

definition yp_check_read :: "'a ypipe \<Rightarrow> bool \<times> 'a ypipe" where
  "yp_check_read y =
     (if prefetched y then (True, y)
      else let y1 = y\<lparr>yr := yc y, yc := (if yc y = Some (front (yqu y)) then None else yc y)\<rparr>
        in (prefetched y1, y1))"

definition yp_take :: "nat \<Rightarrow> 'a ypipe \<Rightarrow> ('a \<times> 'a ypipe) result" where
  "yp_take N y = bindE (load (front (yqu y)) (yqu y)) (\<lambda>v. bindE (pop N (yqu y)) (\<lambda>q.
     Inr (v, y\<lparr>yqu := q\<rparr>)))"

definition yp_read :: "nat \<Rightarrow> 'a ypipe \<Rightarrow> ('a option \<times> 'a ypipe) result" where
  "yp_read N y = (case yp_check_read y of (False, y1) \<Rightarrow> Inr (None, y1)
     | (True, y1) \<Rightarrow> bindE (yp_take N y1) (\<lambda>(v, y2). Inr (Some v, y2)))"

definition yp_probe :: "('a \<Rightarrow> bool) \<Rightarrow> 'a ypipe \<Rightarrow> (bool \<times> 'a ypipe) result" where
  "yp_probe fn y = (case yp_check_read y of (False, y1) \<Rightarrow> Inl Assertion
     | (True, y1) \<Rightarrow> bindE (load (front (yqu y1)) (yqu y1)) (\<lambda>v. Inr (fn v, y1)))"

section \<open>Specification\<close>

text \<open>
  What the pipe promises: items the reader can get, complete items not yet flushed, the parts of an
  incomplete item, and whether the reader went to sleep.
\<close>

record 'a upipe =
  ready :: "'a list"
  pending :: "'a list"
  partial :: "'a list"
  asleep :: bool

definition upipe_new :: "'a upipe" where
  "upipe_new = \<lparr>ready = [], pending = [], partial = [], asleep = False\<rparr>"

definition u_write :: "'a \<Rightarrow> bool \<Rightarrow> 'a upipe \<Rightarrow> 'a upipe" where
  "u_write v incomplete u =
     (if incomplete then u\<lparr>partial := partial u @ [v]\<rparr>
      else u\<lparr>pending := pending u @ partial u @ [v], partial := []\<rparr>)"

definition u_unwrite :: "'a upipe \<Rightarrow> 'a option \<times> 'a upipe" where
  "u_unwrite u = (if partial u = [] then (None, u) else (Some (last (partial u)), u\<lparr>partial := butlast (partial u)\<rparr>))"

definition u_flush :: "'a upipe \<Rightarrow> bool \<times> 'a upipe" where
  "u_flush u =
     (if pending u = [] then (True, u)
      else (\<not> asleep u, u\<lparr>ready := ready u @ pending u, pending := [], asleep := False\<rparr>))"

definition u_check_read :: "'a upipe \<Rightarrow> bool \<times> 'a upipe" where
  "u_check_read u = (if ready u = [] then (False, u\<lparr>asleep := True\<rparr>) else (True, u))"

definition u_read :: "'a upipe \<Rightarrow> 'a option \<times> 'a upipe" where
  "u_read u = (case ready u of [] \<Rightarrow> (None, u\<lparr>asleep := True\<rparr>) | v # vs \<Rightarrow> (Some v, u\<lparr>ready := vs\<rparr>))"

section \<open>Representation\<close>

definition all_items :: "'a upipe \<Rightarrow> 'a list" where
  "all_items u = ready u @ pending u @ partial u"

definition yp_at :: "nat \<Rightarrow> ptr list \<Rightarrow> ptr \<Rightarrow> 'a ypipe \<Rightarrow> 'a upipe \<Rightarrow> bool" where
  "yp_at N ps t y u \<longleftrightarrow> yq N (yqu y) (ps @ [t]) \<and> map (peek (yqu y)) ps = map Some (all_items u) \<and>
     yw y = (ps @ [t]) ! length (ready u) \<and> yf y = (ps @ [t]) ! length (ready u @ pending u) \<and>
     yc y = (if asleep u then None else Some (yw y)) \<and> (asleep u \<longrightarrow> ready u = []) \<and>
     (\<forall>p. yr y = Some p \<longrightarrow> (\<exists>i\<le>length (ready u). p = (ps @ [t]) ! i))"

definition yp_rep :: "nat \<Rightarrow> 'a ypipe \<Rightarrow> 'a upipe \<Rightarrow> bool" where
  "yp_rep N y u \<longleftrightarrow> (\<exists>ps t. yp_at N ps t y u)"

lemma yp_atD:
  assumes "yp_at N ps t y u"
  shows "yq N (yqu y) (ps @ [t])" "map (peek (yqu y)) ps = map Some (all_items u)"
    "yw y = (ps @ [t]) ! length (ready u)" "yf y = (ps @ [t]) ! length (ready u @ pending u)"
    "yc y = (if asleep u then None else Some (yw y))" "asleep u \<Longrightarrow> ready u = []"
    "yr y = Some p \<Longrightarrow> \<exists>i\<le>length (ready u). p = (ps @ [t]) ! i" "length ps = length (all_items u)"
    "distinct (ps @ [t])" "back_of (yqu y) = Inr t" "front (yqu y) = (ps @ [t]) ! 0"
proof -
  show q: "yq N (yqu y) (ps @ [t])" and m: "map (peek (yqu y)) ps = map Some (all_items u)"
    "yw y = (ps @ [t]) ! length (ready u)" "yf y = (ps @ [t]) ! length (ready u @ pending u)"
    "yc y = (if asleep u then None else Some (yw y))" "asleep u \<Longrightarrow> ready u = []"
    "yr y = Some p \<Longrightarrow> \<exists>i\<le>length (ready u). p = (ps @ [t]) ! i"
    using assms unfolding yp_at_def by blast+
  show "length ps = length (all_items u)" using m(1) by (metis length_map)
  show "distinct (ps @ [t])" "back_of (yqu y) = Inr t" using yq_distinct[OF q] yq_back[OF q] by simp_all
  show "front (yqu y) = (ps @ [t]) ! 0" using q yq_front[of N "yqu y"] by (cases ps) auto
qed

lemma yp_repI: "yp_at N ps t y u \<Longrightarrow> yp_rep N y u"
  unfolding yp_rep_def by blast

lemma yp_front_same:
  "yp_at N ps t y u \<Longrightarrow> yp_at N qs s y' u' \<Longrightarrow> (ps @ [t]) ! 0 = (qs @ [s]) ! 0 \<Longrightarrow> yr y' = yr y \<Longrightarrow>
   prefetched y' \<longleftrightarrow> prefetched y"
  by (simp add: prefetched_def yp_atD(11))

lemma write_sim:
  assumes "yp_rep N y u" "chunks (yqu y) a = None"
  shows "\<exists>y'. yp_write N a v inc y = Inr y' \<and> yp_rep N y' (u_write v inc u) \<and> (prefetched y' \<longleftrightarrow> prefetched y)"
proof -
  from assms(1) obtain ps t where at: "yp_at N ps t y u" by (auto simp: yp_rep_def)
  note p = yp_atD[OF at]
  from store_ok[OF p(1), of t v] obtain q1 where q1: "store t v (yqu y) = Inr q1" "yq N q1 (ps @ [t])"
    "peek q1 = (peek (yqu y))(t \<mapsto> v)" by auto
  have a: "chunks q1 a = None" using q1(1) assms(2) yq_mem[OF p(1), of t]
    by (auto simp: store_def upd_chunk_def deref_def)
  from push_ok[OF q1(2) a] obtain q2 t2 where q2: "push N a q1 = Inr q2" "yq N q2 ((ps @ [t]) @ [t2])"
    "\<forall>x\<in>set (ps @ [t]). peek q2 x = peek q1 x" by blast
  have bk: "back_of q2 = Inr t2" using yq_back[OF q2(2)] by simp
  define y' where "y' = y\<lparr>yqu := q2, yf := (if inc then yf y else t2)\<rparr>"
  have "yp_write N a v inc y = Inr y'" using q1(1) q2(1) bk by (simp add: yp_write_def p(10) y'_def)
  moreover have at': "yp_at N (ps @ [t]) t2 y' (u_write v inc u)"
    unfolding yp_at_def
  proof (intro conjI allI impI)
    have "map (peek q2) ps = map (peek (yqu y)) ps" using q2(3) q1(3) p(9) by auto
    then show "map (peek (yqu y')) (ps @ [t]) = map Some (all_items (u_write v inc u))"
      using q2(3) q1(3) p(2) by (simp add: y'_def all_items_def u_write_def)
    have le: "length (ready u) \<le> length ps" "length (ready u @ pending u) \<le> length ps" using p(8) by (simp_all add: all_items_def)
    show "yw y' = ((ps @ [t]) @ [t2]) ! length (ready (u_write v inc u))"
      using le(1) p(3) by (simp add: y'_def u_write_def nth_append)
    show "yf y' = ((ps @ [t]) @ [t2]) ! length (ready (u_write v inc u) @ pending (u_write v inc u))"
      using le p(4,8) by (auto simp: y'_def u_write_def nth_append all_items_def)
    show "\<exists>i\<le>length (ready (u_write v inc u)). r = ((ps @ [t]) @ [t2]) ! i" if r: "yr y' = Some r" for r
    proof -
      obtain i where i: "i \<le> length (ready u)" "r = (ps @ [t]) ! i" using p(7)[of r] r by (auto simp: y'_def)
      with le(1) have "r = ((ps @ [t]) @ [t2]) ! i" by (simp add: nth_append)
      with i(1) show ?thesis by (auto simp: u_write_def)
    qed
  qed (use q2(2) p(5,6) in \<open>auto simp: y'_def u_write_def split: if_splits\<close>)
  moreover have "prefetched y' \<longleftrightarrow> prefetched y"
    by (rule yp_front_same[OF at at']) (simp_all add: nth_append y'_def)
  ultimately show ?thesis using yp_repI by blast
qed

lemma unwrite_sim:
  assumes "yp_rep N y u"
  shows "\<exists>y'. yp_unwrite N y = Inr (fst (u_unwrite u), y') \<and> yp_rep N y' (snd (u_unwrite u)) \<and>
    (prefetched y' \<longleftrightarrow> prefetched y)"
proof -
  from assms(1) obtain ps t where at: "yp_at N ps t y u" by (auto simp: yp_rep_def)
  note p = yp_atD[OF at]
  show ?thesis
  proof (cases "partial u = []")
    case True
    then have "length (ready u @ pending u) = length ps" using p(8) by (simp add: all_items_def)
    then have "yf y = t" unfolding p(4) by (metis nth_append_length)
    then show ?thesis using True assms by (simp add: yp_unwrite_def p(10) u_unwrite_def)
  next
    case False
    then obtain xs v where v: "partial u = xs @ [v]" by (metis append_butlast_last_id)
    then obtain qs s where qs: "ps = qs @ [s]" using p(8) by (cases ps rule: rev_cases) (auto simp: all_items_def)
    have len: "length qs = length (ready u @ pending u @ xs)" using p(8) v qs by (simp add: all_items_def)
    then have "yf y \<in> set ps" using p(4) qs by (auto simp: nth_append)
    then have f: "yf y \<noteq> t" using p(9) by auto
    from unpush_ok[OF p(1)] obtain q1 where q1: "unpush N (yqu y) = Inr q1" "yq N q1 ps"
      "\<forall>x\<in>set ps. peek q1 x = peek (yqu y) x" by blast
    have bk: "back_of q1 = Inr s" using yq_back[OF q1(2)] qs by simp
    have items: "map (peek (yqu y)) qs = map Some (ready u @ pending u @ xs)" "peek (yqu y) s = Some v"
      using p(2) v qs by (simp_all add: all_items_def)
    then have ld: "load s q1 = Inr v" using q1(3) qs by (simp add: load_peek)
    define y' where "y' = y\<lparr>yqu := q1\<rparr>"
    have "yp_unwrite N y = Inr (Some v, y')" using q1(1) f bk ld by (simp add: yp_unwrite_def p(10) y'_def)
    moreover have at': "yp_at N qs s y' (u\<lparr>partial := xs\<rparr>)"
      unfolding yp_at_def
    proof (intro conjI allI impI)
      show "map (peek (yqu y')) qs = map Some (all_items (u\<lparr>partial := xs\<rparr>))"
        using items(1) q1(3) qs map_cong[OF refl, of qs "peek q1" "peek (yqu y)"] by (simp add: y'_def all_items_def)
      show "\<exists>i\<le>length (ready (u\<lparr>partial := xs\<rparr>)). r = (qs @ [s]) ! i" if r: "yr y' = Some r" for r
      proof -
        obtain i where i: "i \<le> length (ready u)" "r = (ps @ [t]) ! i" using p(7)[of r] r by (auto simp: y'_def)
        with len qs have "r = (qs @ [s]) ! i" by (simp add: nth_append)
        with i(1) show ?thesis by auto
      qed
    qed (use q1(2) qs len p(3-6) in \<open>auto simp: y'_def nth_append\<close>)
    moreover have "u_unwrite u = (Some v, u\<lparr>partial := xs\<rparr>)" using v by (simp add: u_unwrite_def)
    moreover have "prefetched y' \<longleftrightarrow> prefetched y"
      by (rule yp_front_same[OF at at']) (simp_all add: nth_append y'_def qs)
    ultimately show ?thesis using yp_repI by fastforce
  qed
qed

lemma flush_indices:
  assumes "yp_at N ps t y u"
  shows "yw y = yf y \<longleftrightarrow> pending u = []" "yc y = Some (yw y) \<longleftrightarrow> \<not> asleep u"
    "yp_at N ps t (yp_flush_set y) (u\<lparr>ready := ready u @ pending u, pending := [], asleep := False\<rparr>)"
proof -
  note p = yp_atD[OF assms]
  have le: "length (ready u) < length (ps @ [t])" "length (ready u @ pending u) < length (ps @ [t])"
    using p(8) by (simp_all add: all_items_def)
  show "yw y = yf y \<longleftrightarrow> pending u = []"
    using nth_eq_iff_index_eq[OF p(9) le] unfolding p(3,4) by simp
  show "yc y = Some (yw y) \<longleftrightarrow> \<not> asleep u" using p(5) by simp
  have "yr y = Some r \<Longrightarrow> \<exists>i\<le>length (ready u @ pending u). r = (ps @ [t]) ! i" for r
    using p(7)[of r] trans_le_add1 by fastforce
  then show "yp_at N ps t (yp_flush_set y) (u\<lparr>ready := ready u @ pending u, pending := [], asleep := False\<rparr>)"
    using p(1,2,4) unfolding yp_at_def by (simp add: yp_flush_set_def all_items_def)
qed

lemma check_sim:
  assumes "yp_rep N y u"
  shows "fst (yp_check_read y) = fst (u_check_read u)" "yp_rep N (snd (yp_check_read y)) (snd (u_check_read u))"
    "fst (yp_check_read y) \<Longrightarrow> prefetched (snd (yp_check_read y))"
proof -
  from assms(1) obtain ps t where at: "yp_at N ps t y u" by (auto simp: yp_rep_def)
  note p = yp_atD[OF at]
  have le: "length (ready u) < length (ps @ [t])" using p(8) by (simp add: all_items_def)
  have idx: "(ps @ [t]) ! length (ready u) = (ps @ [t]) ! 0 \<longleftrightarrow> ready u = []"
    using nth_eq_iff_index_eq[OF p(9) le, of 0] le by auto
  have pre: "ready u \<noteq> []" if "prefetched y"
  proof
    assume "ready u = []"
    with that p(7,11) show False by (cases "ps @ [t]") (auto simp: prefetched_def)
  qed
  show "fst (yp_check_read y) = fst (u_check_read u)"
    using pre idx p(3,5,6,11) by (auto simp: yp_check_read_def u_check_read_def Let_def prefetched_def)
  show "fst (yp_check_read y) \<Longrightarrow> prefetched (snd (yp_check_read y))"
    by (simp add: yp_check_read_def Let_def split: if_splits)
  have "yp_at N ps t (snd (yp_check_read y)) (snd (u_check_read u))"
  proof (cases "prefetched y")
    case True
    then show ?thesis using pre at by (simp add: yp_check_read_def u_check_read_def)
  next
    case False
    have "\<exists>i\<le>length (ready u). yw y = (ps @ [t]) ! i" using p(3) by blast
    with False idx p show ?thesis unfolding yp_at_def
      by (auto simp: yp_check_read_def u_check_read_def Let_def all_items_def)
  qed
  then show "yp_rep N (snd (yp_check_read y)) (snd (u_check_read u))" unfolding yp_rep_def by blast
qed

lemma take_sim:
  assumes "yp_rep N y u" "prefetched y"
  shows "\<exists>v vs y'. ready u = v # vs \<and> yp_take N y = Inr (v, y') \<and> yp_rep N y' (u\<lparr>ready := vs\<rparr>)"
proof -
  from assms(1) obtain ps t where at: "yp_at N ps t y u" by (auto simp: yp_rep_def)
  note p = yp_atD[OF at]
  have "ready u \<noteq> []"
  proof
    assume "ready u = []"
    with assms(2) p(7,11) show False by (cases "ps @ [t]") (auto simp: prefetched_def)
  qed
  then obtain v vs where v: "ready u = v # vs" by (auto simp: neq_Nil_conv)
  then obtain s qs where qs: "ps = s # qs" using p(8) by (cases ps) (auto simp: all_items_def)
  from pop_ok[of N "yqu y" s "qs @ [t]"] p(1) qs obtain q1 where q1: "pop N (yqu y) = Inr q1" "yq N q1 (qs @ [t])"
    "\<forall>x\<in>set (qs @ [t]). peek q1 x = peek (yqu y) x" by auto
  have items: "peek (yqu y) s = Some v" "map (peek (yqu y)) qs = map Some (vs @ pending u @ partial u)"
    using p(2) v qs by (simp_all add: all_items_def)
  define y' where "y' = y\<lparr>yqu := q1\<rparr>"
  have "yp_take N y = Inr (v, y')" using items(1) q1(1) qs p(11) by (simp add: yp_take_def y'_def iffD2[OF load_peek])
  moreover have "yp_at N qs t y' (u\<lparr>ready := vs\<rparr>)"
    unfolding yp_at_def
  proof (intro conjI allI impI)
    show "map (peek (yqu y')) qs = map Some (all_items (u\<lparr>ready := vs\<rparr>))"
      using items(2) q1(3) map_cong[OF refl, of qs "peek q1" "peek (yqu y)"] by (simp add: y'_def all_items_def)
    show "\<exists>i\<le>length (ready (u\<lparr>ready := vs\<rparr>)). r = (qs @ [t]) ! i" if r: "yr y' = Some r" for r
    proof -
      obtain i where i: "i \<le> length (ready u)" "r = (ps @ [t]) ! i" using p(7)[of r] r by (auto simp: y'_def)
      moreover have "i \<noteq> 0" using i r assms(2) p(11) by (cases i) (auto simp: y'_def prefetched_def)
      ultimately show ?thesis using v qs by (intro exI[of _ "i - 1"]) auto
    qed
  qed (use q1(2) qs v p(3-6) in \<open>auto simp: y'_def\<close>)
  ultimately show ?thesis using v unfolding yp_rep_def by blast
qed


lemma yp_new:
  assumes "0 < N" "a \<noteq> b"
  shows "\<exists>y :: 'a ypipe. ypipe_new N a b = Inr y \<and> yp_rep N y upipe_new"
proof -
  have "chunks (yqueue_new a :: 'a yqueue) b = None" using assms(2) by (simp add: yqueue_new_def allocate_chunk_def)
  from push_ok[OF yq_new[OF assms(1)] this] obtain q :: "'a yqueue" and p
    where q: "push N b (yqueue_new a) = Inr q" "yq N q [p]" by auto
  define y where "y = \<lparr>yqu = q, yw = p, yr = Some p, yf = p, yc = Some p\<rparr>"
  have "ypipe_new N a b = Inr y" using q yq_back[OF q(2)] by (simp add: ypipe_new_def y_def)
  moreover have "yp_at N [] p y upipe_new" using q(2) by (simp add: yp_at_def y_def upipe_new_def all_items_def)
  ultimately show ?thesis using yp_repI by blast
qed

lemma yp_new_rep: "0 < N \<Longrightarrow> a \<noteq> b \<Longrightarrow> ypipe_new N a b = Inr (y :: 'a ypipe) \<Longrightarrow> yp_rep N y upipe_new"
  using yp_new[where ?'a = 'a, of N a b] by auto

section \<open>Two threads\<close>

text \<open>
  The writer calls \<open>Write\<close>, \<open>Unwrite\<close> and \<open>Flush\<close>, and after a failed compare-and-swap \<open>Set\<close>; the
  reader calls \<open>Check\<close> and, after a successful one, \<open>Take\<close>.  The operations of the two interleave in
  any order.
\<close>

record 'a ysys =
  ypp :: "'a ypipe"
  setting :: bool
  may_take :: bool

datatype 'a yop = Write 'a bool addr | Unwrite | Flush | Set_c | Check | Take

datatype 'a yout = Written | Unwritten "'a option" | Flushed cas | Was_asleep | Checked bool | Taken "'a option"

definition ysys_new :: "'a ypipe \<Rightarrow> 'a ysys" where
  "ysys_new y = \<lparr>ypp = y, setting = False, may_take = False\<rparr>"

fun ystep :: "nat \<Rightarrow> 'a yop \<Rightarrow> 'a ysys \<Rightarrow> ('a yout \<times> 'a ysys) result" where
  "ystep N (Write v inc a) s = bindE (yp_write N a v inc (ypp s)) (\<lambda>y. Inr (Written, s\<lparr>ypp := y\<rparr>))"
| "ystep N Unwrite s = bindE (yp_unwrite N (ypp s)) (\<lambda>(v, y). Inr (Unwritten v, s\<lparr>ypp := y\<rparr>))"
| "ystep N Flush s = (let (r, y) = yp_flush_cas (ypp s) in Inr (Flushed r, s\<lparr>ypp := y, setting := (r = Failed)\<rparr>))"
| "ystep N Set_c s = Inr (Was_asleep, s\<lparr>ypp := yp_flush_set (ypp s), setting := False\<rparr>)"
| "ystep N Check s = (let (b, y) = yp_check_read (ypp s) in Inr (Checked b, s\<lparr>ypp := y, may_take := b\<rparr>))"
| "ystep N Take s = bindE (yp_take N (ypp s)) (\<lambda>(v, y). Inr (Taken (Some v), s\<lparr>ypp := y, may_take := False\<rparr>))"

fun yok :: "'a yop \<Rightarrow> 'a ysys \<Rightarrow> bool" where
  "yok (Write v inc a) s \<longleftrightarrow> \<not> setting s \<and> chunks (yqu (ypp s)) a = None"
| "yok Unwrite s \<longleftrightarrow> \<not> setting s"
| "yok Flush s \<longleftrightarrow> \<not> setting s"
| "yok Set_c s \<longleftrightarrow> setting s"
| "yok Check s \<longleftrightarrow> True"
| "yok Take s \<longleftrightarrow> may_take s"

definition u_publish :: "'a upipe \<Rightarrow> 'a upipe" where
  "u_publish u = u\<lparr>ready := ready u @ pending u, pending := [], asleep := False\<rparr>"

fun ustep :: "'a yop \<Rightarrow> 'a upipe \<Rightarrow> 'a yout \<times> 'a upipe" where
  "ustep (Write v inc a) u = (Written, u_write v inc u)"
| "ustep Unwrite u = (let (v, u') = u_unwrite u in (Unwritten v, u'))"
| "ustep Flush u = (if pending u = [] then (Flushed Nothing, u) else if asleep u then (Flushed Failed, u) else (Flushed Swapped, u_publish u))"
| "ustep Set_c u = (Was_asleep, u_publish u)"
| "ustep Check u = (let (b, u') = u_check_read u in (Checked b, u'))"
| "ustep Take u = (let (v, u') = u_read u in (Taken v, u'))"

definition ysys_rep :: "nat \<Rightarrow> 'a ysys \<Rightarrow> 'a upipe \<Rightarrow> bool" where
  "ysys_rep N s u \<longleftrightarrow> yp_rep N (ypp s) u \<and> (setting s \<longrightarrow> asleep u) \<and> (may_take s \<longrightarrow> prefetched (ypp s))"

lemma flush_sim:
  assumes "yp_rep N y u"
  shows "yp_flush_cas y = (if pending u = [] then (Nothing, y) else if asleep u then (Failed, y) else (Swapped, yp_flush_set y))"
    "yp_rep N (yp_flush_set y) (u_publish u)"
proof -
  from assms obtain ps t where at: "yp_at N ps t y u" by (auto simp: yp_rep_def)
  show "yp_flush_cas y = (if pending u = [] then (Nothing, y) else if asleep u then (Failed, y) else (Swapped, yp_flush_set y))"
    using flush_indices(1,2)[OF at] by (auto simp: yp_flush_cas_def yp_flush_set_def)
  show "yp_rep N (yp_flush_set y) (u_publish u)"
    unfolding u_publish_def by (rule yp_repI[OF flush_indices(3)[OF at]])
qed

lemma prefetched_set [simp]: "prefetched (yp_flush_set y) = prefetched y"
  by (simp add: prefetched_def yp_flush_set_def)

lemma ystep_sim:
  assumes "ysys_rep N s u" "yok x s"
  shows "\<exists>s'. ystep N x s = Inr (fst (ustep x u), s') \<and> ysys_rep N s' (snd (ustep x u))"
proof -
  from assms(1) have r: "yp_rep N (ypp s) u" and st: "setting s \<Longrightarrow> asleep u" and mt: "may_take s \<Longrightarrow> prefetched (ypp s)"
    by (simp_all add: ysys_rep_def)
  show ?thesis
  proof (cases x)
    case (Write v inc a)
    with assms(2) write_sim[OF r, of a v inc] mt show ?thesis by (auto simp: ysys_rep_def)
  next
    case Unwrite
    with assms(2) unwrite_sim[OF r] mt show ?thesis by (auto simp: ysys_rep_def case_prod_beta)
  next
    case Flush
    with assms(2) flush_sim[OF r] r mt show ?thesis by (auto simp: ysys_rep_def)
  next
    case Set_c
    with assms(2) flush_sim(2)[OF r] mt show ?thesis by (auto simp: ysys_rep_def)
  next
    case Check
    then show ?thesis using check_sim[OF r] st by (auto simp: ysys_rep_def case_prod_beta u_check_read_def split: if_splits)
  next
    case Take
    with assms(2) mt have "prefetched (ypp s)" by simp
    from take_sim[OF r this] Take st show ?thesis by (auto simp: ysys_rep_def u_read_def)
  qed
qed

interpretation yps: simulation "ystep N" ustep yok "ysys_rep N" for N
  by unfold_locales (rule ystep_sim)

section \<open>First in, first out\<close>

fun taken :: "'a yout list \<Rightarrow> 'a list" where
  "taken [] = []"
| "taken (Taken (Some v) # rs) = v # taken rs"
| "taken (_ # rs) = taken rs"

text \<open>What the writer has put in and not withdrawn.\<close>

fun written :: "'a yop list \<Rightarrow> 'a yout list \<Rightarrow> 'a list \<Rightarrow> 'a list" where
  "written (Write v inc a # xs) (r # rs) acc = written xs rs (acc @ [v])"
| "written (x # xs) (Unwritten (Some v) # rs) acc = written xs rs (butlast acc)"
| "written (x # xs) (r # rs) acc = written xs rs acc"
| "written xs rs acc = acc"

lemma spec_fifo:
  "spec_run ustep xs u = (rs, u') \<Longrightarrow> got @ taken rs @ all_items u' = written xs rs (got @ all_items u)"
proof (induction xs arbitrary: u rs got)
  case Nil
  then show ?case by simp
next
  case (Cons x xs)
  obtain r u1 where s: "ustep x u = (r, u1)" by fastforce
  obtain rs1 where rs: "spec_run ustep xs u1 = (rs1, u')" "rs = r # rs1"
    using Cons.prems s by (auto simp: Let_def split: prod.splits)
  note IH = Cons.IH[OF rs(1)]
  show ?case
  proof (cases x)
    case (Write v inc a)
    with s IH[of got] rs(2) show ?thesis by (auto simp: u_write_def all_items_def)
  next
    case Unwrite
    with s IH[of got] rs(2) show ?thesis
      by (cases "partial u" rule: rev_cases) (auto simp: u_unwrite_def all_items_def butlast_append Let_def)
  next
    case Flush
    with s IH[of got] rs(2) show ?thesis by (auto simp: u_publish_def all_items_def split: if_splits)
  next
    case Set_c
    with s IH[of got] rs(2) show ?thesis by (auto simp: u_publish_def all_items_def)
  next
    case Check
    with s IH[of got] rs(2) show ?thesis by (auto simp: u_check_read_def all_items_def Let_def split: if_splits)
  next
    case Take
    show ?thesis
    proof (cases "ready u")
      case Nil
      with Take s IH[of got] rs(2) show ?thesis by (auto simp: u_read_def all_items_def)
    next
      case (Cons v vs)
      with Take s IH[of "got @ [v]"] rs(2) show ?thesis by (auto simp: u_read_def all_items_def)
    qed
  qed
qed

lemma rep_asleep: "yp_rep N y u \<Longrightarrow> yc y = None \<Longrightarrow> ready u = []"
  unfolding yp_rep_def using yp_atD(5,6) by fastforce

lemma ysys_rep_new: "yp_rep N y upipe_new \<Longrightarrow> ysys_rep N (ysys_new y) upipe_new"
  by (simp add: ysys_rep_def ysys_new_def)


section \<open>Properties\<close>

text \<open>
  C10. The lock-free pipe is linearizable: whatever the interleaving of writer and reader, and wherever
  the allocator puts the chunks (addresses are reused), no access leaves the allocated memory,
  and every operation returns what the sequential specification returns; in particular a flush
  finds the reader asleep exactly when the reader has been told so and not been woken since.
\<close>
theorem ypipe_linearizable:
  assumes "0 < N" "a \<noteq> b" "ypipe_new N a b = Inr y" "allowed (ystep N) yok ops (ysys_new y)"
  shows "\<exists>s. run_ops (ystep N) ops (ysys_new y) = Inr (fst (spec_run ustep ops upipe_new), s) \<and>
    ysys_rep N s (snd (spec_run ustep ops upipe_new))"
  by (rule yps.run_sim[OF ysys_rep_new[OF yp_new_rep[OF assms(1-3)]] assms(4)])

text \<open>
  C11. First in, first out under every interleaving: what the reader has taken, followed by what is still in
  the pipe, is exactly what the writer has written and not withdrawn; and when the reader
  is marked asleep, nothing that was flushed is waiting for it.
\<close>
theorem ypipe_fifo:
  assumes "0 < N" "a \<noteq> b" "ypipe_new N a b = Inr y" "allowed (ystep N) yok ops (ysys_new y)"
  shows "\<exists>rs s u. run_ops (ystep N) ops (ysys_new y) = Inr (rs, s) \<and> yp_rep N (ypp s) u \<and>
    taken rs @ ready u @ pending u @ partial u = written ops rs [] \<and> (yc (ypp s) = None \<longrightarrow> ready u = [])"
proof -
  obtain rs u where sp: "spec_run ustep ops upipe_new = (rs, u)" by fastforce
  from yps.run_sim[OF ysys_rep_new[OF yp_new_rep[OF assms(1-3)]] assms(4)] sp
  obtain s where s: "run_ops (ystep N) ops (ysys_new y) = Inr (rs, s)" "yp_rep N (ypp s) u"
    by (auto simp: ysys_rep_def)
  have "taken rs @ ready u @ pending u @ partial u = written ops rs []"
    using spec_fifo[OF sp, of "[]"] by (simp add: all_items_def upipe_new_def)
  with s rep_asleep[OF s(2)] show ?thesis by auto
qed

section \<open>Witnesses\<close>

text \<open>
  A run with chunks of one element: the reader goes to sleep between the two writes and the freed
  chunk is used again.
\<close>

definition sample_ops :: "nat yop list" where
  "sample_ops = [Check, Write 7 True 2, Write 8 False 3, Flush, Check, Set_c, Check, Take, Check, Take, Write 9 False 4]"

definition sample_outs :: "nat yout list" where
  "sample_outs = [Checked False, Written, Written, Flushed Failed, Checked False, Was_asleep, Checked True,
     Taken (Some 7), Checked True, Taken (Some 8), Written]"

lemma sample_run:
  "case ypipe_new 1 0 1 of Inl _ \<Rightarrow> False | Inr y \<Rightarrow> allowed (ystep 1) yok sample_ops (ysys_new y)"
  "fst (spec_run ustep sample_ops upipe_new) = sample_outs"
  "written sample_ops sample_outs [] = [7, 8, 9]" "taken sample_outs = [7, 8]"
  by code_simp+

lemma sample_start:
  obtains y where "ypipe_new 1 0 1 = Inr y" "allowed (ystep 1) yok sample_ops (ysys_new y)"
  using sample_run(1) by (auto split: sum.splits)

theorem ypipe_linearizable_witness:
  "\<exists>y s. ypipe_new 1 0 1 = Inr y \<and> run_ops (ystep 1) sample_ops (ysys_new y) = Inr (sample_outs, s)"
proof -
  obtain y where y: "ypipe_new 1 0 1 = Inr y" "allowed (ystep 1) yok sample_ops (ysys_new y)" by (rule sample_start)
  from ypipe_linearizable[OF _ _ y] y(1) sample_run(2) show ?thesis by auto
qed

theorem ypipe_fifo_witness:
  "\<exists>y rs s (u :: nat upipe). ypipe_new 1 0 1 = Inr y \<and> run_ops (ystep 1) sample_ops (ysys_new y) = Inr (rs, s) \<and>
     taken rs @ ready u @ pending u @ partial u = written sample_ops rs []"
proof -
  obtain y where y: "ypipe_new 1 0 1 = Inr y" "allowed (ystep 1) yok sample_ops (ysys_new y)" by (rule sample_start)
  obtain rs s u where r: "run_ops (ystep 1) sample_ops (ysys_new y) = Inr (rs, s)"
    "taken rs @ ready u @ pending u @ partial u = written sample_ops rs []" "yp_rep 1 (ypp s) u"
    using ypipe_fifo[OF zero_less_one zero_neq_one y] by blast
  show ?thesis by (rule exI[of _ y], rule exI[of _ rs], rule exI[of _ s], rule exI[of _ u]) (use y(1) r in simp)
qed

end
