(* ===== verification/Pipe.thy ===== *)
theory Pipe
  imports Ypipe Codec "HOL-Library.Signed_Division"
begin

text \<open>
  The pipe between two sockets, or a socket and a session: \<^verbatim>\<open>pipe.cpp\<close>.  A pipe has two ends; each
  end reads from one queue and writes to the other, and the ends send commands to each other through
  the mailboxes of their threads.  An operation works on its own end and on the two queues
  (record \<open>endp\<close>) and collects the commands and the notifications of the sink; the section on worlds runs it
  on the store of pipes and queues, where every use of a deleted object is a failure.
  Conflating queues are left out.
\<close>

section \<open>Messages and commands\<close>

datatype pmsg = Msg wmsg | Delimiter

fun pm_flags :: "pmsg \<Rightarrow> byte" where
  "pm_flags (Msg m) = w_flags m"
| "pm_flags Delimiter = 0"

definition has_more :: "pmsg \<Rightarrow> bool" where "has_more m \<longleftrightarrow> pm_flags m AND msg_more \<noteq> 0"

definition is_routing_id :: "pmsg \<Rightarrow> bool" where "is_routing_id m \<longleftrightarrow> pm_flags m AND 64 = 64"

definition is_credential :: "pmsg \<Rightarrow> bool" where "is_credential m \<longleftrightarrow> pm_flags m AND 32 = 32"

type_synonym pid = nat
type_synonym uid = nat

datatype command = Activate_read | Activate_write u64 | Hiccup uid | Pipe_term | Pipe_term_ack
  | Pipe_hwm int int | Pipe_peer_stats u64

datatype pipe_event = Read_activated | Write_activated | Hiccuped | Pipe_terminated | Stats_publish u64 u64

datatype pstate = Active | Delimiter_received | Waiting_for_delimiter | Term_ack_sent | Term_req_sent1
  | Term_req_sent2

record pipe_t =
  in_pipe :: uid
  out_pipe :: "uid option"
  in_active :: bool
  out_active :: bool
  hwm :: int
  lwm :: int
  in_hwm_boost :: int
  out_hwm_boost :: int
  msgs_read :: u64
  msgs_written :: u64
  peers_msgs_read :: u64
  peer :: pid
  state :: pstate
  delay :: bool
  disconnect_msg :: "byte list"
  server_routing_id :: u32
  router_routing_id :: "byte list"
  endpoint_pair :: "string \<times> string"

record endp =
  me :: pipe_t
  inq :: "pmsg upipe"
  outq :: "pmsg upipe"
  cmds :: "command list"
  evs :: "pipe_event list"

section \<open>Construction\<close>

definition compute_lwm :: "int \<Rightarrow> int" where
  "compute_lwm h = (h + 1) sdiv 2"

definition pipe_new :: "uid \<Rightarrow> uid \<Rightarrow> int \<Rightarrow> int \<Rightarrow> pid \<Rightarrow> pipe_t" where
  "pipe_new inp outp inhwm outhwm pr =
     \<lparr>in_pipe = inp, out_pipe = Some outp, in_active = True, out_active = True, hwm = outhwm,
      lwm = compute_lwm inhwm, in_hwm_boost = -1, out_hwm_boost = -1, msgs_read = 0, msgs_written = 0,
      peers_msgs_read = 0, peer = pr, state = Active, delay = True, disconnect_msg = [], server_routing_id = 0,
      router_routing_id = [], endpoint_pair = ([], [])\<rparr>"

section \<open>Operations on one end\<close>

definition send_cmd :: "command \<Rightarrow> endp \<Rightarrow> endp" where
  "send_cmd c e = e\<lparr>cmds := cmds e @ [c]\<rparr>"

definition notify :: "pipe_event \<Rightarrow> endp \<Rightarrow> endp" where
  "notify v e = e\<lparr>evs := evs e @ [v]\<rparr>"

definition upd_me :: "(pipe_t \<Rightarrow> pipe_t) \<Rightarrow> endp \<Rightarrow> endp" where
  "upd_me f e = e\<lparr>me := f (me e)\<rparr>"

function rollback_loop :: "pmsg upipe \<Rightarrow> pmsg upipe result" where
  "rollback_loop u = (case u_unwrite u of (None, u1) \<Rightarrow> Inr u1
     | (Some m, u1) \<Rightarrow> if has_more m then rollback_loop u1 else Inl Assertion)"
  by pat_completeness auto
termination
  by (relation "measure (\<lambda>u. length (partial u))") (auto simp: u_unwrite_def split: if_splits)

definition rollback :: "endp \<Rightarrow> endp result" where
  "rollback e = (case out_pipe (me e) of None \<Rightarrow> Inr e
     | Some _ \<Rightarrow> bindE (rollback_loop (outq e)) (\<lambda>u. Inr (e\<lparr>outq := u\<rparr>)))"

definition flush :: "endp \<Rightarrow> endp" where
  "flush e =
     (if state (me e) = Term_ack_sent \<or> out_pipe (me e) = None then e
      else let (alive, u) = u_flush (outq e); e1 = e\<lparr>outq := u\<rparr> in
        if alive then e1 else send_cmd Activate_read e1)"

definition drop_out :: "endp \<Rightarrow> endp" where
  "drop_out e = upd_me (\<lambda>p. p\<lparr>out_pipe := None\<rparr>) e"

definition ack_to :: "pstate \<Rightarrow> endp \<Rightarrow> endp" where
  "ack_to s e = upd_me (\<lambda>p. p\<lparr>state := s\<rparr>) (send_cmd Pipe_term_ack (drop_out e))"

definition process_delimiter :: "endp \<Rightarrow> endp result" where
  "process_delimiter e = (case state (me e) of
      Active \<Rightarrow> Inr (upd_me (\<lambda>p. p\<lparr>state := Delimiter_received\<rparr>) e)
    | Waiting_for_delimiter \<Rightarrow> bindE (rollback e) (\<lambda>e1. Inr (ack_to Term_ack_sent e1))
    | _ \<Rightarrow> Inl Assertion)"

definition may_read :: "endp \<Rightarrow> bool" where
  "may_read e \<longleftrightarrow> in_active (me e) \<and> (state (me e) = Active \<or> state (me e) = Waiting_for_delimiter)"

definition check_read :: "endp \<Rightarrow> (bool \<times> endp) result" where
  "check_read e =
     (if \<not> may_read e then Inr (False, e)
      else case u_check_read (inq e) of
          (False, u) \<Rightarrow> Inr (False, upd_me (\<lambda>p. p\<lparr>in_active := False\<rparr>) (e\<lparr>inq := u\<rparr>))
        | (True, u) \<Rightarrow>
            if hd (ready u) = Delimiter
            then bindE (process_delimiter (e\<lparr>inq := snd (u_read u)\<rparr>)) (\<lambda>e1. Inr (False, e1))
            else Inr (True, e\<lparr>inq := u\<rparr>))"

function read_loop :: "pmsg upipe \<Rightarrow> pmsg option \<times> pmsg upipe" where
  "read_loop u = (case u_read u of (None, u1) \<Rightarrow> (None, u1)
     | (Some m, u1) \<Rightarrow> if is_credential m then read_loop u1 else (Some m, u1))"
  by pat_completeness auto
termination
  by (relation "measure (\<lambda>u. length (ready u))") (auto simp: u_read_def split: list.splits)

definition pipe_read :: "endp \<Rightarrow> (wmsg option \<times> endp) result" where
  "pipe_read e =
     (if \<not> may_read e then Inr (None, e)
      else case read_loop (inq e) of
          (None, u) \<Rightarrow> Inr (None, upd_me (\<lambda>p. p\<lparr>in_active := False\<rparr>) (e\<lparr>inq := u\<rparr>))
        | (Some Delimiter, u) \<Rightarrow> bindE (process_delimiter (e\<lparr>inq := u\<rparr>)) (\<lambda>e1. Inr (None, e1))
        | (Some (Msg m), u) \<Rightarrow>
            let e1 = e\<lparr>inq := u\<rparr>;
                e2 = (if \<not> has_more (Msg m) \<and> \<not> is_routing_id (Msg m)
                      then upd_me (\<lambda>p. p\<lparr>msgs_read := msgs_read p + 1\<rparr>) e1 else e1);
                e3 = (if lwm (me e2) > 0 \<and> msgs_read (me e2) mod of_int (lwm (me e2)) = 0
                      then send_cmd (Activate_write (msgs_read (me e2))) e2 else e2)
            in Inr (Some m, e3))"

definition check_hwm :: "endp \<Rightarrow> bool" where
  "check_hwm e \<longleftrightarrow> \<not> (hwm (me e) > 0 \<and> msgs_written (me e) - peers_msgs_read (me e) \<ge> of_int (hwm (me e)))"

definition check_write :: "endp \<Rightarrow> bool \<times> endp" where
  "check_write e =
     (if \<not> out_active (me e) \<or> state (me e) \<noteq> Active then (False, e)
      else if \<not> check_hwm e then (False, upd_me (\<lambda>p. p\<lparr>out_active := False\<rparr>) e)
      else (True, e))"

definition pipe_write :: "wmsg \<Rightarrow> endp \<Rightarrow> (bool \<times> endp) result" where
  "pipe_write m e = (case check_write e of
      (False, e1) \<Rightarrow> Inr (False, e1)
    | (True, e1) \<Rightarrow> (case out_pipe (me e1) of None \<Rightarrow> Inl Bad_pointer
        | Some _ \<Rightarrow>
          let more = has_more (Msg m); e2 = e1\<lparr>outq := u_write (Msg m) more (outq e1)\<rparr> in
          Inr (True, if \<not> more \<and> \<not> is_routing_id (Msg m)
                     then upd_me (\<lambda>p. p\<lparr>msgs_written := msgs_written p + 1\<rparr>) e2 else e2)))"

definition put_raw :: "pmsg \<Rightarrow> endp \<Rightarrow> endp" where
  "put_raw m e = flush (e\<lparr>outq := u_write m False (outq e)\<rparr>)"

definition terminate :: "bool \<Rightarrow> endp \<Rightarrow> endp result" where
  "terminate dl e0 =
     (let e = upd_me (\<lambda>p. p\<lparr>delay := dl\<rparr>) e0; s = state (me e) in
      if s = Term_req_sent1 \<or> s = Term_req_sent2 \<or> s = Term_ack_sent then Inr e
      else bindE (case s of
            Waiting_for_delimiter \<Rightarrow> if \<not> dl then bindE (rollback e) (\<lambda>e1. Inr (ack_to Term_ack_sent e1)) else Inr e
          | _ \<Rightarrow> Inr (upd_me (\<lambda>p. p\<lparr>state := Term_req_sent1\<rparr>) (send_cmd Pipe_term e)))
        (\<lambda>e1. let e2 = upd_me (\<lambda>p. p\<lparr>out_active := False\<rparr>) e1 in
          if out_pipe (me e2) = None then Inr e2 else bindE (rollback e2) (\<lambda>e3. Inr (put_raw Delimiter e3))))"

definition set_nodelay :: "endp \<Rightarrow> endp" where
  "set_nodelay e = upd_me (\<lambda>p. p\<lparr>delay := False\<rparr>) e"

definition set_hwms :: "int \<Rightarrow> int \<Rightarrow> endp \<Rightarrow> endp" where
  "set_hwms inhwm outhwm e =
     (let p = me e;
          i = (if inhwm \<le> 0 \<or> in_hwm_boost p = 0 then 0 else inhwm + max (in_hwm_boost p) 0);
          k = (if outhwm \<le> 0 \<or> out_hwm_boost p = 0 then 0 else outhwm + max (out_hwm_boost p) 0)
      in upd_me (\<lambda>p. p\<lparr>lwm := compute_lwm i, hwm := k\<rparr>) e)"

definition set_hwms_boost :: "int \<Rightarrow> int \<Rightarrow> endp \<Rightarrow> endp" where
  "set_hwms_boost i k e = upd_me (\<lambda>p. p\<lparr>in_hwm_boost := i, out_hwm_boost := k\<rparr>) e"

definition send_hwms_to_peer :: "int \<Rightarrow> int \<Rightarrow> endp \<Rightarrow> endp" where
  "send_hwms_to_peer i k e = send_cmd (Pipe_hwm i k) e"

definition send_stats_to_peer :: "endp \<Rightarrow> endp" where
  "send_stats_to_peer e = send_cmd (Pipe_peer_stats (msgs_written (me e) - peers_msgs_read (me e))) e"

definition set_server_socket_routing_id :: "u32 \<Rightarrow> endp \<Rightarrow> endp" where
  "set_server_socket_routing_id rid e = upd_me (\<lambda>p. p\<lparr>server_routing_id := rid\<rparr>) e"

definition set_router_socket_routing_id :: "byte list \<Rightarrow> endp \<Rightarrow> endp" where
  "set_router_socket_routing_id rid e = upd_me (\<lambda>p. p\<lparr>router_routing_id := rid\<rparr>) e"

definition set_endpoint_pair :: "string \<times> string \<Rightarrow> endp \<Rightarrow> endp" where
  "set_endpoint_pair ep e = upd_me (\<lambda>p. p\<lparr>endpoint_pair := ep\<rparr>) e"

definition set_disconnect_msg :: "byte list \<Rightarrow> endp \<Rightarrow> endp" where
  "set_disconnect_msg d e = upd_me (\<lambda>p. p\<lparr>disconnect_msg := d\<rparr>) e"

definition send_disconnect_msg :: "endp \<Rightarrow> endp result" where
  "send_disconnect_msg e =
     (if disconnect_msg (me e) \<noteq> [] \<and> out_pipe (me e) \<noteq> None
      then bindE (rollback e) (\<lambda>e1.
        Inr (upd_me (\<lambda>p. p\<lparr>disconnect_msg := []\<rparr>) (put_raw (Msg \<lparr>w_flags = 0, w_data = disconnect_msg (me e)\<rparr>) e1)))
      else Inr e)"

definition send_hiccup_msg :: "byte list \<Rightarrow> endp \<Rightarrow> endp" where
  "send_hiccup_msg h e =
     (if h \<noteq> [] \<and> out_pipe (me e) \<noteq> None then put_raw (Msg \<lparr>w_flags = 0, w_data = h\<rparr>) e else e)"

definition send_routing_id :: "byte list \<Rightarrow> endp \<Rightarrow> endp result" where
  "send_routing_id rid e = bindE (pipe_write \<lparr>w_flags = 64, w_data = rid\<rparr> e)
     (\<lambda>(written, e1). if written then Inr (flush e1) else Inl Assertion)"

definition send_hello_msg :: "byte list \<Rightarrow> endp \<Rightarrow> endp result" where
  "send_hello_msg h e = bindE (pipe_write \<lparr>w_flags = 0, w_data = h\<rparr> e)
     (\<lambda>(written, e1). if written then Inr (flush e1) else Inl Assertion)"

section \<open>Command handlers\<close>

definition process_activate_read :: "endp \<Rightarrow> endp" where
  "process_activate_read e =
     (if \<not> in_active (me e) \<and> (state (me e) = Active \<or> state (me e) = Waiting_for_delimiter)
      then notify Read_activated (upd_me (\<lambda>p. p\<lparr>in_active := True\<rparr>) e) else e)"

definition process_activate_write :: "u64 \<Rightarrow> endp \<Rightarrow> endp" where
  "process_activate_write n e =
     (let e1 = upd_me (\<lambda>p. p\<lparr>peers_msgs_read := n\<rparr>) e in
      if \<not> out_active (me e1) \<and> state (me e1) = Active
      then notify Write_activated (upd_me (\<lambda>p. p\<lparr>out_active := True\<rparr>) e1) else e1)"

fun discarded :: "pmsg list \<Rightarrow> nat" where
  "discarded [] = 0"
| "discarded (m # ms) = (if has_more m then 0 else 1) + discarded ms"

text \<open>The old outbound queue is flushed, emptied and deleted, the new one takes its place.\<close>

definition process_hiccup :: "uid \<Rightarrow> endp \<Rightarrow> endp result" where
  "process_hiccup new e =
     (if out_pipe (me e) = None then Inl Assertion
      else let u = snd (u_flush (outq e));
               e1 = upd_me (\<lambda>p. p\<lparr>msgs_written := msgs_written p - of_nat (discarded (ready u)),
                                  out_pipe := Some new, out_active := True\<rparr>) e
        in Inr (if state (me e1) = Active then notify Hiccuped e1 else e1))"

definition process_pipe_term :: "endp \<Rightarrow> endp result" where
  "process_pipe_term e = (case state (me e) of
      Active \<Rightarrow> if delay (me e) then Inr (upd_me (\<lambda>p. p\<lparr>state := Waiting_for_delimiter\<rparr>) e)
                else Inr (ack_to Term_ack_sent e)
    | Delimiter_received \<Rightarrow> Inr (ack_to Term_ack_sent e)
    | Term_req_sent1 \<Rightarrow> Inr (ack_to Term_req_sent2 e)
    | _ \<Rightarrow> Inl Assertion)"

definition process_pipe_term_ack :: "endp \<Rightarrow> endp result" where
  "process_pipe_term_ack e =
     (let e1 = notify Pipe_terminated e in
      if state (me e1) = Term_req_sent1 then Inr (send_cmd Pipe_term_ack (drop_out e1))
      else if state (me e1) = Term_ack_sent \<or> state (me e1) = Term_req_sent2 then Inr e1
      else Inl Assertion)"

definition process_pipe_hwm :: "int \<Rightarrow> int \<Rightarrow> endp \<Rightarrow> endp" where
  "process_pipe_hwm i k e = set_hwms i k e"

definition process_pipe_peer_stats :: "u64 \<Rightarrow> endp \<Rightarrow> endp" where
  "process_pipe_peer_stats n e = notify (Stats_publish n (msgs_written (me e) - peers_msgs_read (me e))) e"


section \<open>Worlds\<close>

record world =
  pipes :: "pid \<Rightarrow> pipe_t option"
  queues :: "uid \<Rightarrow> pmsg upipe option"
  mail :: "pid \<Rightarrow> command list"
  events :: "(pid \<times> pipe_event) list"

definition pipepair :: "int \<Rightarrow> int \<Rightarrow> world" where
  "pipepair hwm0 hwm1 =
     \<lparr>pipes = [0 \<mapsto> pipe_new 0 1 hwm1 hwm0 1, 1 \<mapsto> pipe_new 1 0 hwm0 hwm1 0],
      queues = [0 \<mapsto> upipe_new, 1 \<mapsto> upipe_new], mail = (\<lambda>_. []), events = []\<rparr>"

definition load_end :: "pid \<Rightarrow> world \<Rightarrow> endp result" where
  "load_end i w = (case pipes w i of None \<Rightarrow> Inl Bad_pointer
     | Some p \<Rightarrow> (case queues w (in_pipe p) of None \<Rightarrow> Inl Bad_pointer
       | Some qi \<Rightarrow> (case out_pipe p of
           None \<Rightarrow> Inr \<lparr>me = p, inq = qi, outq = upipe_new, cmds = [], evs = []\<rparr>
         | Some k \<Rightarrow> (case queues w k of None \<Rightarrow> Inl Bad_pointer
             | Some qo \<Rightarrow> Inr \<lparr>me = p, inq = qi, outq = qo, cmds = [], evs = []\<rparr>))))"

text \<open>Sending a command looks up the thread of the destination, which therefore has to exist.\<close>

definition store_end :: "pid \<Rightarrow> endp \<Rightarrow> endp \<Rightarrow> world \<Rightarrow> world result" where
  "store_end i e e' w =
     (if cmds e' \<noteq> [] \<and> pipes w (peer (me e)) = None then Inl Bad_pointer
      else Inr (w\<lparr>pipes := (pipes w)(i \<mapsto> me e'),
        queues := (case out_pipe (me e) of None \<Rightarrow> queues w | Some k \<Rightarrow> (queues w)(k \<mapsto> outq e'))(in_pipe (me e) \<mapsto> inq e'),
        mail := (mail w)(peer (me e) := mail w (peer (me e)) @ cmds e'),
        events := events w @ map (Pair i) (evs e')\<rparr>))"

definition call :: "pid \<Rightarrow> (endp \<Rightarrow> endp result) \<Rightarrow> world \<Rightarrow> world result" where
  "call i f w = bindE (load_end i w) (\<lambda>e. bindE (f e) (\<lambda>e'. store_end i e e' w))"

fun handle :: "command \<Rightarrow> endp \<Rightarrow> endp result" where
  "handle Activate_read e = Inr (process_activate_read e)"
| "handle (Activate_write n) e = Inr (process_activate_write n e)"
| "handle (Hiccup u) e = process_hiccup u e"
| "handle Pipe_term e = process_pipe_term e"
| "handle Pipe_term_ack e = process_pipe_term_ack e"
| "handle (Pipe_hwm i k) e = Inr (process_pipe_hwm i k e)"
| "handle (Pipe_peer_stats n) e = Inr (process_pipe_peer_stats n e)"

text \<open>What a handler deletes: the pipe with its inbound queue, or the outbound queue replaced by a hiccup.\<close>

fun clean_up :: "command \<Rightarrow> pid \<Rightarrow> endp \<Rightarrow> world \<Rightarrow> world" where
  "clean_up Pipe_term_ack i e w = w\<lparr>pipes := (pipes w)(i := None), queues := (queues w)(in_pipe (me e) := None)\<rparr>"
| "clean_up (Hiccup u) i e w = w\<lparr>queues := (case out_pipe (me e) of None \<Rightarrow> queues w | Some k \<Rightarrow> (queues w)(k := None))\<rparr>"
| "clean_up _ i e w = w"

definition deliver :: "pid \<Rightarrow> world \<Rightarrow> world result" where
  "deliver i w = (case mail w i of [] \<Rightarrow> Inr w
     | c # cs \<Rightarrow> let w1 = w\<lparr>mail := (mail w)(i := cs)\<rparr> in
         bindE (load_end i w1) (\<lambda>e. bindE (handle c e) (\<lambda>e'.
         bindE (store_end i e e' w1) (\<lambda>w2. Inr (clean_up c i e w2)))))"

definition hiccup :: "pid \<Rightarrow> uid \<Rightarrow> world \<Rightarrow> world result" where
  "hiccup i new w = bindE (load_end i w) (\<lambda>e.
     if state (me e) \<noteq> Active then Inr w
     else bindE (store_end i e (send_cmd (Hiccup new) (upd_me (\<lambda>p. p\<lparr>in_pipe := new, in_active := True\<rparr>) e)) w)
       (\<lambda>w1. Inr (w1\<lparr>queues := (queues w1)(new \<mapsto> upipe_new)\<rparr>)))"

datatype uop = Check_read | Read | Check_write | Write_msg wmsg | Flush_out | Rollback | Terminate bool
  | Set_nodelay | Set_hwms int int | Set_hwms_boost int int | Send_hwms int int | Send_stats
  | Set_server_id u32 | Set_router_id "byte list" | Set_endpoint "string \<times> string"
  | Set_disconnect "byte list" | Send_disconnect | Send_hiccup_msg "byte list"

fun user_op :: "uop \<Rightarrow> endp \<Rightarrow> endp result" where
  "user_op Check_read e = bindE (check_read e) (\<lambda>(_, e1). Inr e1)"
| "user_op Read e = bindE (pipe_read e) (\<lambda>(_, e1). Inr e1)"
| "user_op Check_write e = Inr (snd (check_write e))"
| "user_op (Write_msg m) e = bindE (pipe_write m e) (\<lambda>(_, e1). Inr e1)"
| "user_op Flush_out e = Inr (flush e)"
| "user_op Rollback e = rollback e"
| "user_op (Terminate d) e = terminate d e"
| "user_op Set_nodelay e = Inr (set_nodelay e)"
| "user_op (Set_hwms i k) e = Inr (set_hwms i k e)"
| "user_op (Set_hwms_boost i k) e = Inr (set_hwms_boost i k e)"
| "user_op (Send_hwms i k) e = Inr (send_hwms_to_peer i k e)"
| "user_op Send_stats e = Inr (send_stats_to_peer e)"
| "user_op (Set_server_id rid) e = Inr (set_server_socket_routing_id rid e)"
| "user_op (Set_router_id rid) e = Inr (set_router_socket_routing_id rid e)"
| "user_op (Set_endpoint ep) e = Inr (set_endpoint_pair ep e)"
| "user_op (Set_disconnect d) e = Inr (set_disconnect_msg d e)"
| "user_op Send_disconnect e = send_disconnect_msg e"
| "user_op (Send_hiccup_msg h) e = Inr (send_hiccup_msg h e)"

text \<open>The two calls that send whatever the state of the pipe are left to pipes that have not acknowledged.\<close>

definition acked :: "pstate \<Rightarrow> bool" where
  "acked s \<longleftrightarrow> s = Term_ack_sent \<or> s = Term_req_sent2"

fun permitted :: "uop \<Rightarrow> pipe_t \<Rightarrow> bool" where
  "permitted (Send_hwms i k) p \<longleftrightarrow> \<not> acked (state p)"
| "permitted Send_stats p \<longleftrightarrow> \<not> acked (state p)"
| "permitted _ p \<longleftrightarrow> True"

inductive pstep :: "world \<Rightarrow> world \<Rightarrow> bool" where
  user: "pipes w i = Some p \<Longrightarrow> permitted u p \<Longrightarrow> call i (user_op u) w = Inr w' \<Longrightarrow> pstep w w'"
| mail: "mail w i \<noteq> [] \<Longrightarrow> deliver i w = Inr w' \<Longrightarrow> pstep w w'"

section \<open>Effects on one end\<close>

abbreviation dq :: "pmsg upipe \<Rightarrow> bool" where "dq u \<equiv> Delimiter \<in> set (ready u)"
abbreviation da :: "pmsg upipe \<Rightarrow> bool" where "da u \<equiv> Delimiter \<in> set (all_items u)"

definition terms :: "command list \<Rightarrow> command list" where
  "terms cs = filter (\<lambda>c. c = Pipe_term \<or> c = Pipe_term_ack) cs"

definition no_hiccup :: "command list \<Rightarrow> bool" where
  "no_hiccup cs \<longleftrightarrow> (\<forall>n. Hiccup n \<notin> set cs)"

lemma terms_append [simp]: "terms (xs @ ys) = terms xs @ terms ys"
  by (simp add: terms_def)

lemma terms_simps [simp]: "terms [] = []" "terms (Pipe_term # cs) = Pipe_term # terms cs"
  "terms (Pipe_term_ack # cs) = Pipe_term_ack # terms cs" "terms (Activate_read # cs) = terms cs"
  "terms (Activate_write n # cs) = terms cs" "terms (Pipe_hwm i k # cs) = terms cs" "terms (Pipe_peer_stats n # cs) = terms cs"
  "terms (Hiccup u # cs) = terms cs"
  by (simp_all add: terms_def)

lemma no_hiccup_simps [simp]: "no_hiccup []" "no_hiccup (xs @ ys) \<longleftrightarrow> no_hiccup xs \<and> no_hiccup ys"
  "no_hiccup (Pipe_term # cs) = no_hiccup cs" "no_hiccup (Pipe_term_ack # cs) = no_hiccup cs"
  "no_hiccup (Activate_read # cs) = no_hiccup cs" "no_hiccup (Activate_write n # cs) = no_hiccup cs"
  "no_hiccup (Pipe_hwm i k # cs) = no_hiccup cs" "no_hiccup (Pipe_peer_stats n # cs) = no_hiccup cs"
  "\<not> no_hiccup (Hiccup u # cs)"
  by (auto simp: no_hiccup_def)

text \<open>A reader that is marked asleep has nothing to read.\<close>

definition uq :: "pmsg upipe \<Rightarrow> bool" where
  "uq u \<longleftrightarrow> (asleep u \<longrightarrow> ready u = [])"

definition end_wf :: "endp \<Rightarrow> bool" where
  "end_wf e \<longleftrightarrow> (out_pipe (me e) = None \<longleftrightarrow> acked (state (me e))) \<and> list_all has_more (partial (outq e)) \<and>
     uq (inq e) \<and> uq (outq e)"

text \<open>An end turns inactive only with its reader asleep, and waking a sleeping reader takes a command.\<close>

definition wakes :: "endp \<Rightarrow> endp \<Rightarrow> bool" where
  "wakes e e' \<longleftrightarrow> (\<not> in_active (me e') \<longrightarrow> asleep (inq e') \<or> \<not> in_active (me e) \<and> asleep (inq e') = asleep (inq e)) \<and>
     (asleep (outq e) \<longrightarrow> asleep (outq e') \<or> Activate_read \<in> set (cmds e'))"

definition common :: "endp \<Rightarrow> endp \<Rightarrow> bool" where
  "common e e' \<longleftrightarrow> in_pipe (me e') = in_pipe (me e) \<and> peer (me e') = peer (me e) \<and> end_wf e' \<and>
     (\<not> acked (state (me e')) \<longrightarrow> out_pipe (me e') = out_pipe (me e)) \<and> no_hiccup (cmds e') \<and>
     partial (inq e') = partial (inq e) \<and> (acked (state (me e)) \<longrightarrow> cmds e' = []) \<and> (dq (outq e) \<longrightarrow> dq (outq e')) \<and> wakes e e'"

inductive effect :: "endp \<Rightarrow> endp \<Rightarrow> bool" where
  stay: "common e e' \<Longrightarrow> state (me e') = state (me e) \<Longrightarrow> terms (cmds e') = [] \<Longrightarrow>
    dq (inq e') = dq (inq e) \<Longrightarrow> (da (inq e') \<Longrightarrow> da (inq e)) \<Longrightarrow>
    (state (me e) = Active \<Longrightarrow> da (outq e') \<Longrightarrow> da (outq e)) \<Longrightarrow> effect e e'"
| delimiter: "common e e' \<Longrightarrow> state (me e) = Active \<Longrightarrow> dq (inq e) \<Longrightarrow> state (me e') = Delimiter_received \<Longrightarrow>
    terms (cmds e') = [] \<Longrightarrow> effect e e'"
| acknowledge: "common e e' \<Longrightarrow> state (me e) = Waiting_for_delimiter \<Longrightarrow> state (me e') = Term_ack_sent \<Longrightarrow>
    cmds e' = [Pipe_term_ack] \<Longrightarrow> effect e e'"
| request: "common e e' \<Longrightarrow> state (me e) = Active \<or> state (me e) = Delimiter_received \<Longrightarrow> state (me e') = Term_req_sent1 \<Longrightarrow>
    terms (cmds e') = [Pipe_term] \<Longrightarrow> dq (outq e') \<Longrightarrow> effect e e'"

lemma rollback_loop_ok:
  "list_all has_more (partial u) \<Longrightarrow> rollback_loop u = Inr (u\<lparr>partial := []\<rparr>)"
proof (induction u rule: rollback_loop.induct)
  case (1 u)
  show ?case
  proof (cases "partial u" rule: rev_cases)
    case Nil
    then show ?thesis by (simp add: u_unwrite_def)
  next
    case (snoc xs m)
    with "1.prems" have "u_unwrite u = (Some m, u\<lparr>partial := xs\<rparr>)" "has_more m" "list_all has_more xs"
      by (simp_all add: u_unwrite_def)
    then show ?thesis using "1.IH" by simp
  qed
qed

declare rollback_loop.simps [simp del] read_loop.simps [simp del]

lemma rollback_ok:
  "end_wf e \<Longrightarrow> rollback e = Inr (if out_pipe (me e) = None then e else e\<lparr>outq := (outq e)\<lparr>partial := []\<rparr>\<rparr>)"
  by (auto simp: rollback_def end_wf_def rollback_loop_ok split: option.splits)

lemma read_loop_ok:
  "read_loop u = (r, u') \<Longrightarrow> partial u' = partial u \<and> pending u' = pending u \<and>
   (r \<noteq> Some Delimiter \<longrightarrow> dq u' = dq u) \<and> set (ready u') \<subseteq> set (ready u) \<and>
   (r = None \<longrightarrow> asleep u') \<and> (r \<noteq> None \<longrightarrow> asleep u' = asleep u) \<and> (uq u \<longrightarrow> uq u') \<and> (r = Some Delimiter \<longrightarrow> dq u)"
proof (induction u arbitrary: r u' rule: read_loop.induct)
  case (1 u)
  show ?case
  proof (cases "ready u")
    case Nil
    with "1.prems" show ?thesis by (auto simp: read_loop.simps[of u] u_read_def uq_def)
  next
    case (Cons m ms)
    then have r: "u_read u = (Some m, u\<lparr>ready := ms\<rparr>)" by (simp add: u_read_def)
    show ?thesis
    proof (cases "is_credential m")
      case True
      then have "m \<noteq> Delimiter" by (auto simp: is_credential_def)
      have "read_loop (u\<lparr>ready := ms\<rparr>) = (r, u')"
        using "1.prems" \<open>u_read u = _\<close> True by (simp add: read_loop.simps[of u])
      from "1.IH"[OF \<open>u_read u = _\<close>[symmetric] refl True this] Cons \<open>m \<noteq> Delimiter\<close> show ?thesis
        by (simp add: uq_def) blast
    next
      case False
      with "1.prems" r Cons show ?thesis by (auto simp: read_loop.simps[of u] uq_def)
    qed
  qed
qed

lemmas end_defs = upd_me_def send_cmd_def notify_def drop_out_def ack_to_def

lemma commonI:
  assumes "end_wf e" "in_pipe (me e') = in_pipe (me e)" "peer (me e') = peer (me e)"
    "out_pipe (me e') = (if acked (state (me e')) then None else out_pipe (me e))"
    "acked (state (me e)) \<Longrightarrow> acked (state (me e')) \<and> cmds e' = []"
    "list_all has_more (partial (outq e'))" "no_hiccup (cmds e')" "partial (inq e') = partial (inq e)"
    "dq (outq e) \<Longrightarrow> dq (outq e')" "uq (inq e')" "uq (outq e')" "wakes e e'"
  shows "common e e'"
  using assms by (auto simp: common_def end_wf_def split: if_splits)

text \<open>An operation that touches neither the state nor the queues.\<close>

lemma stay_local:
  assumes "end_wf e" "in_pipe (me e') = in_pipe (me e)" "peer (me e') = peer (me e)" "out_pipe (me e') = out_pipe (me e)"
    "state (me e') = state (me e)" "inq e' = inq e" "outq e' = outq e" "terms (cmds e') = []" "no_hiccup (cmds e')"
    "acked (state (me e)) \<Longrightarrow> cmds e' = []" "\<not> in_active (me e') \<Longrightarrow> \<not> in_active (me e)"
  shows "effect e e'"
  using assms by (intro stay commonI) (auto simp: end_wf_def wakes_def)

lemma u_flush_sleep: "asleep (snd (u_flush u)) \<longleftrightarrow> asleep u \<and> pending u = []" "fst (u_flush u) \<longleftrightarrow> \<not> asleep u \<or> pending u = []"
  "uq u \<Longrightarrow> uq (snd (u_flush u))"
  by (auto simp: u_flush_def uq_def)

lemma u_write_sleep [simp]: "asleep (u_write m b u) = asleep u" "uq (u_write m b u) = uq u" "uq (u\<lparr>partial := xs\<rparr>) = uq u"
  by (simp_all add: u_write_def uq_def)

lemma u_flush_fields [simp]: "ready (snd (u_flush u)) = ready u @ pending u" "pending (snd (u_flush u)) = []"
  "partial (snd (u_flush u)) = partial u" "all_items (snd (u_flush u)) = all_items u"
  by (auto simp: u_flush_def all_items_def)

lemma flush_fields: "me (flush e) = me e" "inq (flush e) = inq e"
  "outq (flush e) = (if state (me e) = Term_ack_sent \<or> out_pipe (me e) = None then outq e else snd (u_flush (outq e)))"
  "cmds (flush e) = cmds e @ (if state (me e) = Term_ack_sent \<or> out_pipe (me e) = None \<or> fst (u_flush (outq e)) then [] else [Activate_read])"
  by (simp_all add: flush_def Let_def end_defs split: prod.splits)

lemma u_write_fields [simp]: "ready (u_write m b u) = ready u"
  "pending (u_write m b u) = (if b then pending u else pending u @ partial u @ [m])"
  "partial (u_write m b u) = (if b then partial u @ [m] else [])"
  "all_items (u_write m b u) = all_items u @ [m]"
  by (simp_all add: u_write_def all_items_def)

lemma put_raw_fields: "me (put_raw m e) = me e" "inq (put_raw m e) = inq e" "terms (cmds (put_raw m e)) = terms (cmds e)"
  "no_hiccup (cmds (put_raw m e)) = no_hiccup (cmds e)"
  "\<not> acked (state (me e)) \<Longrightarrow> out_pipe (me e) \<noteq> None \<Longrightarrow> ready (outq (put_raw m e)) = ready (outq e) @ pending (outq e) @ partial (outq e) @ [m]"
  "\<not> acked (state (me e)) \<Longrightarrow> out_pipe (me e) \<noteq> None \<Longrightarrow> pending (outq (put_raw m e)) = []"
  "uq (outq e) \<Longrightarrow> uq (outq (put_raw m e))" "asleep (outq e) \<Longrightarrow> asleep (outq (put_raw m e)) \<or> Activate_read \<in> set (cmds (put_raw m e))"
  "set (all_items (outq (put_raw m e))) = insert m (set (all_items (outq e)))" "partial (outq (put_raw m e)) = []"
  by (auto simp: put_raw_def flush_fields acked_def u_flush_sleep)

lemma flush_effect:
  assumes "end_wf e" "cmds e = []"
  shows "effect e (flush e)" "state (me (flush e)) = state (me e)"
proof -
  show "state (me (flush e)) = state (me e)" by (simp add: flush_fields)
  show "effect e (flush e)"
  proof (cases "acked (state (me e))")
    case True
    with assms have "flush e = e" by (simp add: flush_def end_wf_def)
    with assms show ?thesis by (intro stay_local) auto
  next
    case False
    with assms show ?thesis
      by (intro stay commonI) (auto simp: flush_fields end_wf_def wakes_def u_flush_sleep)
  qed
qed

lemma rollback_effect:
  assumes "end_wf e" "cmds e = []"
  shows "\<exists>e'. rollback e = Inr e' \<and> effect e e'"
proof -
  have "effect e (if out_pipe (me e) = None then e else e\<lparr>outq := (outq e)\<lparr>partial := []\<rparr>\<rparr>)"
    using assms by (intro stay commonI) (auto simp: end_wf_def all_items_def wakes_def)
  then show ?thesis using rollback_ok[OF assms(1)] by blast
qed

lemma process_delimiter_effect:
  assumes "end_wf e" "cmds e = []" "state (me e) = Active \<or> state (me e) = Waiting_for_delimiter" "dq (inq e)"
    "partial u = partial (inq e)" "uq u" "asleep u = asleep (inq e)"
  shows "\<exists>e'. process_delimiter (e\<lparr>inq := u\<rparr>) = Inr e' \<and> effect e e'"
proof (cases "state (me e) = Active")
  case True
  with assms show ?thesis
    by (auto intro!: delimiter commonI simp: process_delimiter_def end_defs end_wf_def acked_def wakes_def)
next
  case False
  with assms(3) have w: "state (me e) = Waiting_for_delimiter" by simp
  have "end_wf (e\<lparr>inq := u\<rparr>)" using assms(1,6) by (simp add: end_wf_def)
  then have "process_delimiter (e\<lparr>inq := u\<rparr>) =
      Inr (ack_to Term_ack_sent (if out_pipe (me e) = None then e\<lparr>inq := u\<rparr> else e\<lparr>inq := u, outq := (outq e)\<lparr>partial := []\<rparr>\<rparr>))"
    using w by (simp add: process_delimiter_def rollback_ok)
  with assms w show ?thesis
    by (auto intro!: acknowledge commonI simp: end_defs end_wf_def acked_def wakes_def)
qed

lemma check_read_effect:
  assumes "end_wf e" "cmds e = []"
  shows "\<exists>r e'. check_read e = Inr (r, e') \<and> effect e e'"
proof (cases "may_read e")
  case False
  with assms show ?thesis by (auto simp: check_read_def intro!: stay_local)
next
  case m: True
  show ?thesis
  proof (cases "ready (inq e)")
    case Nil
    with m assms show ?thesis
      by (auto simp: check_read_def u_check_read_def end_defs may_read_def all_items_def end_wf_def wakes_def uq_def intro!: stay commonI)
  next
    case (Cons x xs)
    show ?thesis
    proof (cases "x = Delimiter")
      case True
      with Cons m assms(1) process_delimiter_effect[OF assms, of "(inq e)\<lparr>ready := xs\<rparr>"] show ?thesis
        by (auto simp: check_read_def u_check_read_def u_read_def may_read_def end_wf_def uq_def)
    next
      case False
      with Cons m assms show ?thesis
        by (auto simp: check_read_def u_check_read_def intro!: stay_local)
    qed
  qed
qed

lemma pipe_read_effect:
  assumes "end_wf e" "cmds e = []"
  shows "\<exists>r e'. pipe_read e = Inr (r, e') \<and> effect e e'"
proof (cases "may_read e")
  case False
  with assms show ?thesis by (auto simp: pipe_read_def intro!: stay_local)
next
  case m: True
  obtain r u where l: "read_loop (inq e) = (r, u)" by fastforce
  note lo = read_loop_ok[OF l]
  have na: "\<not> acked (state (me e))" using m by (auto simp: may_read_def acked_def)
  consider (none) "r = None" | (delim) "r = Some Delimiter" | (msg) n where "r = Some (Msg n)"
    by (cases r) (auto intro: pmsg.exhaust)
  then show ?thesis
  proof cases
    case none
    with m l lo assms na show ?thesis
      by (auto simp: pipe_read_def end_defs all_items_def end_wf_def wakes_def intro!: stay commonI)
  next
    case delim
    with m l lo assms(1) process_delimiter_effect[OF assms, of u] show ?thesis
      by (auto simp: pipe_read_def may_read_def end_wf_def)
  next
    case msg
    with m l lo assms na show ?thesis
      by (auto simp: pipe_read_def end_defs all_items_def end_wf_def wakes_def Let_def intro!: stay commonI)
  qed
qed

lemma check_write_effect:
  assumes "end_wf e" "cmds e = []"
  shows "effect e (snd (check_write e))"
  using assms by (auto simp: check_write_def end_defs intro!: stay_local)

lemma pipe_write_effect:
  assumes "end_wf e" "cmds e = []"
  shows "\<exists>r e'. pipe_write m e = Inr (r, e') \<and> effect e e'"
proof (cases "fst (check_write e)")
  case False
  then show ?thesis using check_write_effect[OF assms] by (cases "check_write e") (auto simp: pipe_write_def)
next
  case True
  then have c: "check_write e = (True, e)" "state (me e) = Active" by (auto simp: check_write_def split: if_splits)
  with assms obtain k where "out_pipe (me e) = Some k" by (auto simp: end_wf_def acked_def)
  with c assms show ?thesis
    by (auto simp: pipe_write_def Let_def end_defs end_wf_def acked_def wakes_def intro!: stay commonI)
qed

lemma put_raw_effect:
  assumes "end_wf e" "cmds e = []" "\<not> acked (state (me e))" "m = Delimiter \<Longrightarrow> state (me e) \<noteq> Active"
  shows "effect e (put_raw m e)"
  using assms
  by (intro stay commonI) (auto simp: put_raw_fields end_defs end_wf_def acked_def all_items_def wakes_def)

lemma common_me:
  assumes "common e e'" "in_pipe p = in_pipe (me e')" "out_pipe p = out_pipe (me e')" "peer p = peer (me e')" "state p = state (me e')" "in_active p = in_active (me e')"
  shows "common e (e'\<lparr>me := p\<rparr>)"
  using assms by (simp add: common_def end_wf_def wakes_def)

lemma effect_me:
  assumes "effect e e'" "in_pipe p = in_pipe (me e')" "out_pipe p = out_pipe (me e')" "peer p = peer (me e')" "state p = state (me e')" "in_active p = in_active (me e')"
  shows "effect e (e'\<lparr>me := p\<rparr>)"
  using assms(1)
proof cases
  case stay
  show ?thesis by (rule effect.stay[OF common_me[OF stay(1) assms(2-)]]) (simp_all add: stay assms)
next
  case delimiter
  show ?thesis by (rule effect.delimiter[OF common_me[OF delimiter(1) assms(2-)]]) (simp_all add: delimiter assms)
next
  case acknowledge
  show ?thesis by (rule effect.acknowledge[OF common_me[OF acknowledge(1) assms(2-)]]) (simp_all add: acknowledge assms)
next
  case request
  show ?thesis by (rule effect.request[OF common_me[OF request(1) assms(2-)]]) (simp_all add: request assms)
qed

lemma disconnect_effect:
  assumes "end_wf e" "cmds e = []"
  shows "\<exists>e'. send_disconnect_msg e = Inr e' \<and> effect e e'"
proof (cases "disconnect_msg (me e) \<noteq> [] \<and> out_pipe (me e) \<noteq> None")
  case False
  with assms show ?thesis by (auto simp: send_disconnect_msg_def intro!: stay_local)
next
  case True
  let ?e = "e\<lparr>outq := (outq e)\<lparr>partial := []\<rparr>\<rparr>"
  have na: "\<not> acked (state (me e))" using True assms by (auto simp: end_wf_def)
  have "effect e (put_raw (Msg m) ?e)" for m
    using assms na by (intro stay commonI) (auto simp: put_raw_fields end_defs end_wf_def acked_def all_items_def wakes_def)
  from effect_me[OF this] True assms show ?thesis
    by (auto simp: send_disconnect_msg_def rollback_ok upd_me_def)
qed

lemma terminate_effect:
  assumes "end_wf e" "cmds e = []"
  shows "\<exists>e'. terminate d e = Inr e' \<and> effect e e'"
proof -
  let ?e = "upd_me (\<lambda>p. p\<lparr>delay := d\<rparr>) e"
  have wf: "end_wf ?e" using assms by (simp add: end_wf_def end_defs)
  consider (ended) "state (me e) = Term_req_sent1 \<or> acked (state (me e))" | (w) "state (me e) = Waiting_for_delimiter"
    | (a) "state (me e) = Active \<or> state (me e) = Delimiter_received"
    by (cases "state (me e)") (auto simp: acked_def)
  then show ?thesis
  proof cases
    case ended
    then have "terminate d e = Inr ?e" by (auto simp: terminate_def acked_def end_defs)
    with assms show ?thesis by (auto simp: end_defs intro!: stay_local)
  next
    case w
    then obtain k where k: "out_pipe (me e) = Some k" using assms by (auto simp: end_wf_def acked_def)
    show ?thesis
    proof (cases d)
      case True
      let ?e2 = "?e\<lparr>me := (me ?e)\<lparr>out_active := False\<rparr>, outq := (outq e)\<lparr>partial := []\<rparr>\<rparr>"
      have "terminate d e = Inr (put_raw Delimiter ?e2)"
        using w k True assms rollback_ok[of "upd_me (\<lambda>p. p\<lparr>out_active := False\<rparr>) ?e"]
        by (simp add: terminate_def end_defs end_wf_def)
      moreover have "effect e (put_raw Delimiter ?e2)"
        using assms w k by (intro stay commonI)
          (auto simp: put_raw_fields end_defs end_wf_def acked_def all_items_def wakes_def)
      ultimately show ?thesis by blast
    next
      case False
      with w k assms rollback_ok[OF wf] have "terminate d e =
          Inr (upd_me (\<lambda>p. p\<lparr>out_active := False\<rparr>) (ack_to Term_ack_sent (?e\<lparr>outq := (outq e)\<lparr>partial := []\<rparr>\<rparr>)))"
        by (simp add: terminate_def end_defs)
      with assms w k show ?thesis
        by (auto intro!: acknowledge commonI simp: end_defs end_wf_def acked_def wakes_def)
    qed
  next
    case a
    then obtain k where k: "out_pipe (me e) = Some k" using assms by (auto simp: end_wf_def acked_def)
    let ?e1 = "upd_me (\<lambda>p. p\<lparr>state := Term_req_sent1, out_active := False\<rparr>) (send_cmd Pipe_term ?e)"
    let ?e2 = "?e1\<lparr>outq := (outq e)\<lparr>partial := []\<rparr>\<rparr>"
    have "terminate d e = Inr (put_raw Delimiter ?e2)"
      using a k assms rollback_ok[of ?e1] by (auto simp: terminate_def end_defs end_wf_def acked_def)
    moreover have "effect e (put_raw Delimiter ?e2)"
      using assms a k by (intro request commonI)
        (auto simp: put_raw_fields end_defs end_wf_def acked_def all_items_def wakes_def)
    ultimately show ?thesis by blast
  qed
qed

lemma user_effect:
  assumes "end_wf e" "cmds e = []" "permitted u (me e)"
  shows "\<exists>e'. user_op u e = Inr e' \<and> effect e e'"
proof (cases u)
  case Check_read
  then show ?thesis using check_read_effect[OF assms(1,2)] by auto
next
  case Read
  then show ?thesis using pipe_read_effect[OF assms(1,2)] by auto
next
  case (Write_msg m)
  then show ?thesis using pipe_write_effect[OF assms(1,2), of m] by auto
next
  case (Send_hiccup_msg h)
  then show ?thesis using put_raw_effect[OF assms(1,2)] assms stay_local[of e e]
    by (auto simp: send_hiccup_msg_def end_wf_def)
next
  case (Send_hwms i k)
  then show ?thesis using assms by (auto simp: send_hwms_to_peer_def end_defs intro!: stay_local)
next
  case Send_stats
  then show ?thesis using assms by (auto simp: send_stats_to_peer_def end_defs intro!: stay_local)
qed (use assms flush_effect[OF assms(1,2)] check_write_effect[OF assms(1,2)] rollback_effect[OF assms(1,2)]
      terminate_effect[OF assms(1,2)] disconnect_effect[OF assms(1,2)] in
    \<open>auto simp: set_nodelay_def set_hwms_def set_hwms_boost_def set_disconnect_msg_def
      set_server_socket_routing_id_def set_router_socket_routing_id_def set_endpoint_pair_def end_defs Let_def intro!: stay_local\<close>)

end
