(* ===== verification/Pipe_Term.thy ===== *)
theory Pipe_Term
  imports Pipe
begin

text \<open>
  The protocol by which the two ends of a pipe wake each other and terminate: the configurations that
  the ends and their mailboxes can be in, the invariant of the store and that every
  call and every processed command keeps it.  Hiccups, which replace a queue under way, are left out of
  the invariant; the last section shows the race that they lose.
\<close>

section \<open>The termination protocol\<close>

definition phase :: "world \<Rightarrow> pid \<Rightarrow> pstate option" where
  "phase w i = map_option state (pipes w i)"

text \<open>
  The configurations of the two ends: their states (\<open>None\<close>: deleted) and the terminations and
  acknowledgements in their mailboxes.
\<close>

definition configurations :: "(pstate option \<times> pstate option \<times> command list \<times> command list) list" where
  "configurations =
    [(Some Active, Some Active, [], []),
     (Some Term_req_sent1, Some Active, [], [Pipe_term]),
     (Some Term_req_sent1, Some Delimiter_received, [], [Pipe_term]),
     (Some Term_req_sent1, Some Waiting_for_delimiter, [], []),
     (Some Term_req_sent1, Some Term_ack_sent, [Pipe_term_ack], []),
     (None, Some Term_ack_sent, [], [Pipe_term_ack]),
     (None, None, [], []),
     (Some Term_req_sent1, Some Term_req_sent1, [Pipe_term], [Pipe_term]),
     (Some Term_req_sent2, Some Term_req_sent1, [], [Pipe_term, Pipe_term_ack]),
     (Some Term_req_sent2, Some Term_req_sent2, [Pipe_term_ack], [Pipe_term_ack]),
     (Some Term_req_sent2, None, [Pipe_term_ack], [])]"

definition conf :: "pstate option \<Rightarrow> pstate option \<Rightarrow> command list \<Rightarrow> command list \<Rightarrow> bool" where
  "conf a b x y \<longleftrightarrow> (a, b, x, y) \<in> set configurations \<or> (b, a, y, x) \<in> set configurations"

text \<open>Nothing is sent to an end after its acknowledgement.\<close>

definition ack_last :: "command list \<Rightarrow> bool" where
  "ack_last cs \<longleftrightarrow> Pipe_term_ack \<notin> set (butlast cs)"

definition side :: "pid \<Rightarrow> pid \<Rightarrow> world \<Rightarrow> bool" where
  "side i j w \<longleftrightarrow> no_hiccup (mail w i) \<and> ack_last (mail w i) \<and> (case pipes w i of None \<Rightarrow> queues w i = None \<and> mail w i = []
    | Some p \<Rightarrow> in_pipe p = i \<and> peer p = j \<and> out_pipe p = (if acked (state p) then None else Some j) \<and>
       (\<exists>u. queues w i = Some u \<and> list_all has_more (partial u) \<and> uq u \<and>
         (state p = Active \<or> state p = Waiting_for_delimiter \<longrightarrow>
           (da u \<longrightarrow> dq u) \<and> (dq u \<longleftrightarrow> phase w j = Some Term_req_sent1))))"

definition pair_inv :: "pid \<Rightarrow> pid \<Rightarrow> world \<Rightarrow> bool" where
  "pair_inv i j w \<longleftrightarrow> i \<noteq> j \<and> side i j w \<and> side j i w \<and> conf (phase w i) (phase w j) (terms (mail w i)) (terms (mail w j)) \<and>
     (\<forall>k. k \<noteq> i \<longrightarrow> k \<noteq> j \<longrightarrow> mail w k = [] \<and> pipes w k = None)"

lemma conf_sym: "conf a b x y \<longleftrightarrow> conf b a y x"
  by (auto simp: conf_def)

lemma pair_inv_sym: "pair_inv i j w \<longleftrightarrow> pair_inv j i w"
  unfolding pair_inv_def using conf_sym by auto

lemma pair_inv_new: "pair_inv 0 1 (pipepair h0 h1)"
  by (auto simp: pair_inv_def side_def conf_def configurations_def phase_def pipepair_def pipe_new_def upipe_new_def
      acked_def all_items_def ack_last_def uq_def)

text \<open>An end that has not acknowledged has a living peer.\<close>

lemma conf_alive: "conf (Some s) b x y \<Longrightarrow> \<not> acked s \<Longrightarrow> b \<noteq> None"
  by (auto simp: conf_def configurations_def acked_def)

lemma conf_dead: "conf (Some s) None x y \<Longrightarrow> acked s"
  by (auto simp: conf_def configurations_def acked_def)

lemma conf_active: "conf (Some s) (Some Active) x y \<Longrightarrow> s = Active \<or> s = Term_req_sent1"
  by (auto simp: conf_def configurations_def)

lemma conf_waiting: "conf (Some s) (Some Waiting_for_delimiter) x y \<Longrightarrow> s = Term_req_sent1"
  by (auto simp: conf_def configurations_def)

lemma conf_no_ack: "conf (Some s) b x y \<Longrightarrow> \<not> acked s \<Longrightarrow> Pipe_term_ack \<notin> set y"
  by (auto simp: conf_def configurations_def acked_def)

lemma ack_last_append: "ack_last (xs @ ys) \<longleftrightarrow> (if ys = [] then ack_last xs else Pipe_term_ack \<notin> set xs \<and> ack_last ys)"
  by (auto simp: ack_last_def butlast_append)

lemma ack_last_Nil [simp]: "ack_last []"
  by (simp add: ack_last_def)

lemma ack_in_terms: "Pipe_term_ack \<in> set cs \<longleftrightarrow> Pipe_term_ack \<in> set (terms cs)"
  by (auto simp: terms_def)

lemma ack_last_none: "Pipe_term_ack \<notin> set (terms cs) \<Longrightarrow> ack_last cs"
  by (auto simp: ack_last_def terms_def dest: in_set_butlastD)

text \<open>The part of the invariant that an end needs to work on its queues.\<close>

definition joined :: "pid \<Rightarrow> pid \<Rightarrow> pipe_t \<Rightarrow> world \<Rightarrow> bool" where
  "joined i j p w \<longleftrightarrow> i \<noteq> j \<and> side i j w \<and> side j i w \<and> pipes w i = Some p \<and> (\<not> acked (state p) \<longrightarrow> pipes w j \<noteq> None)"

lemma pair_inv_joined: "pair_inv i j w \<Longrightarrow> pipes w i = Some p \<Longrightarrow> joined i j p w"
  using conf_alive[of "state p" "phase w j"] by (auto simp: pair_inv_def joined_def phase_def)

lemma load_end_ok:
  assumes "joined i j p w"
  obtains e where "load_end i w = Inr e" "me e = p" "queues w i = Some (inq e)" "cmds e = []" "evs e = []" "end_wf e"
    "\<not> acked (state p) \<Longrightarrow> queues w j = Some (outq e)"
proof -
  from assms obtain u where i: "in_pipe p = i" "peer p = j" "out_pipe p = (if acked (state p) then None else Some j)"
    "queues w i = Some u" "pipes w i = Some p" "uq u" by (auto simp: joined_def side_def)
  show ?thesis
  proof (cases "acked (state p)")
    case True
    with i show ?thesis
      by (intro that[of "\<lparr>me = p, inq = u, outq = upipe_new, cmds = [], evs = []\<rparr>"])
         (simp_all add: load_end_def end_wf_def upipe_new_def uq_def)
  next
    case False
    with assms obtain v where "queues w j = Some v" "list_all has_more (partial v)" "uq v"
      by (auto simp: joined_def side_def)
    with i False show ?thesis
      by (intro that[of "\<lparr>me = p, inq = u, outq = v, cmds = [], evs = []\<rparr>"]) (simp_all add: load_end_def end_wf_def)
  qed
qed

text \<open>The world after an operation on one end.\<close>

definition after_op :: "pid \<Rightarrow> pid \<Rightarrow> endp \<Rightarrow> endp \<Rightarrow> world \<Rightarrow> world \<Rightarrow> bool" where
  "after_op i j e e' w w' \<longleftrightarrow> pipes w' = (pipes w)(i \<mapsto> me e') \<and> queues w' i = Some (inq e') \<and>
     queues w' j = (if acked (state (me e)) then queues w j else Some (outq e')) \<and>
     mail w' = (mail w)(j := mail w j @ cmds e')"

lemma store_end_ok:
  assumes "joined i j p w" "me e = p" "acked (state p) \<longrightarrow> cmds e' = []"
  shows "\<exists>w'. store_end i e e' w = Inr w' \<and> after_op i j e e' w w'"
proof -
  from assms have i: "in_pipe p = i" "peer p = j" "out_pipe p = (if acked (state p) then None else Some j)" "i \<noteq> j"
    "cmds e' \<noteq> [] \<Longrightarrow> pipes w j \<noteq> None"
    by (auto simp: joined_def side_def)
  with assms show ?thesis by (auto simp: store_end_def after_op_def)
qed

lemma sent_ack_last:
  assumes "conf (Some s) b x (terms cs)" "acked s \<Longrightarrow> new = []" "ack_last cs" "ack_last new"
  shows "ack_last (cs @ new)"
  using assms conf_no_ack[OF assms(1)] by (auto simp: ack_last_append ack_in_terms[of cs])

lemma stay_inv:
  assumes inv: "pair_inv i j w" and p: "pipes w i = Some (me e)" "queues w i = Some (inq e)" "cmds e = []"
    "\<not> acked (state (me e)) \<Longrightarrow> queues w j = Some (outq e)"
    and w': "after_op i j e e' w w'" and c: "common e e'"
    and st: "state (me e') = state (me e)" "terms (cmds e') = []" "dq (inq e') = dq (inq e)" "da (inq e') \<Longrightarrow> da (inq e)"
    "state (me e) = Active \<Longrightarrow> da (outq e') \<Longrightarrow> da (outq e)"
  shows "pair_inv i j w'"
proof -
  from inv have ij: "i \<noteq> j" and si: "side i j w" and sj: "side j i w"
    and cf: "conf (Some (state (me e))) (phase w j) (terms (mail w i)) (terms (mail w j))"
    using p(1) by (auto simp: pair_inv_def phase_def)
  have ph: "phase w' i = phase w i" "phase w' j = phase w j" "pipes w' i = Some (me e')" "pipes w' j = pipes w j"
    using w' ij st(1) p(1) by (auto simp: after_op_def phase_def)
  have q: "queues w' i = Some (inq e')" "queues w' j = (if acked (state (me e)) then queues w j else Some (outq e'))"
    "mail w' i = mail w i" "mail w' j = mail w j @ cmds e'" using w' ij by (auto simp: after_op_def)
  have al: "ack_last (mail w j @ cmds e')"
    using sent_ack_last[OF cf] sj c st(2) ack_last_none[of "cmds e'"] by (auto simp: side_def common_def)
  have "side i j w'"
    using si p st(1,3,4) c unfolding side_def by (auto simp: ph q common_def end_wf_def)
  moreover have "side j i w'"
  proof (cases "pipes w j")
    case None
    then have "acked (state (me e))" using cf conf_dead by (auto simp: phase_def)
    with None sj c show ?thesis by (auto simp: side_def ph q common_def)
  next
    case (Some pj)
    show ?thesis
    proof (cases "acked (state (me e))")
      case True
      with Some sj c show ?thesis by (auto simp: side_def ph q common_def)
    next
      case False
      note qj = p(4)[OF False]
      have cj: "state pj = Active \<Longrightarrow> state (me e) = Active \<or> state (me e) = Term_req_sent1"
        "state pj = Waiting_for_delimiter \<Longrightarrow> state (me e) = Term_req_sent1"
        using cf Some conf_active conf_waiting by (auto simp: phase_def)
      have pi: "phase w i = Some (state (me e))" using p(1) by (simp add: phase_def)
      have sj': "in_pipe pj = j" "peer pj = i" "out_pipe pj = (if acked (state pj) then None else Some i)" "no_hiccup (mail w j)"
        "state pj = Active \<or> state pj = Waiting_for_delimiter \<Longrightarrow> (da (outq e) \<longrightarrow> dq (outq e)) \<and> (dq (outq e) \<longleftrightarrow> state (me e) = Term_req_sent1)"
        using sj Some qj pi by (auto simp: side_def)
      have d: "(da (outq e') \<longrightarrow> dq (outq e')) \<and> (dq (outq e') \<longleftrightarrow> state (me e) = Term_req_sent1)"
        if "state pj = Active \<or> state pj = Waiting_for_delimiter"
      proof -
        have "dq (outq e') \<Longrightarrow> da (outq e')" by (simp add: all_items_def)
        then show ?thesis using sj'(5)[OF that] cj that c st(5) by (auto simp: common_def)
      qed
      with sj' Some False c al show ?thesis by (auto simp: side_def ph q pi common_def end_wf_def)
    qed
  qed
  moreover have "conf (phase w' i) (phase w' j) (terms (mail w' i)) (terms (mail w' j))"
    using inv st(2) by (simp add: pair_inv_def ph q)
  ultimately show ?thesis using inv w' by (auto simp: pair_inv_def after_op_def)
qed

text \<open>Operations that leave the states in which messages are read.\<close>

lemma change_inv:
  assumes l: "joined i j (me e) w" "\<not> acked (state (me e))"
    and w': "after_op i j e e' w w'"
    and e': "in_pipe (me e') = i" "peer (me e') = j" "out_pipe (me e') = (if acked (state (me e')) then None else Some j)"
      "list_all has_more (partial (outq e'))" "list_all has_more (partial (inq e'))" "no_hiccup (cmds e')" "uq (inq e')" "uq (outq e')"
    and al: "ack_last (mail w j @ cmds e')"
    and s': "state (me e') = Active \<or> state (me e') = Waiting_for_delimiter \<Longrightarrow>
       (da (inq e') \<longrightarrow> dq (inq e')) \<and> (dq (inq e') \<longleftrightarrow> phase w j = Some Term_req_sent1)"
    and j: "phase w j = Some Active \<or> phase w j = Some Waiting_for_delimiter \<Longrightarrow> state (me e') = Term_req_sent1 \<and> dq (outq e')"
    and cf: "conf (Some (state (me e'))) (phase w j) (terms (mail w i)) (terms (mail w j @ cmds e'))"
    and others: "\<forall>k. k \<noteq> i \<longrightarrow> k \<noteq> j \<longrightarrow> mail w k = [] \<and> pipes w k = None"
  shows "pair_inv i j w'"
proof -
  have ij: "i \<noteq> j" and si: "side i j w" and sj: "side j i w" using l by (auto simp: joined_def)
  obtain pj where pj: "pipes w j = Some pj" using l by (auto simp: joined_def)
  have ph: "phase w' i = Some (state (me e'))" "phase w' j = phase w j" "pipes w' i = Some (me e')" "pipes w' j = Some pj"
    using w' ij pj by (auto simp: after_op_def phase_def)
  have q: "queues w' i = Some (inq e')" "queues w' j = Some (outq e')"
    "mail w' i = mail w i" "mail w' j = mail w j @ cmds e'" using w' ij l(2) by (auto simp: after_op_def)
  have "side i j w'" using si e' s' unfolding side_def by (auto simp: ph q)
  moreover have "side j i w'"
    using sj pj e'(4,6,8) al j unfolding side_def by (auto simp: ph q phase_def)
  ultimately show ?thesis using cf ij others w' by (auto simp: pair_inv_def ph q after_op_def)
qed

lemma conf_delimiter: "conf (Some Active) (Some Term_req_sent1) x y \<Longrightarrow> conf (Some Delimiter_received) (Some Term_req_sent1) x y"
  by (auto simp: conf_def configurations_def)

lemma conf_acknowledge:
  assumes "conf (Some Waiting_for_delimiter) b x y"
  shows "b = Some Term_req_sent1" "conf (Some Term_ack_sent) b x (y @ [Pipe_term_ack])"
  using assms by (auto simp: conf_def configurations_def)

lemma conf_request:
  "conf (Some s) b x y \<Longrightarrow> s = Active \<or> s = Delimiter_received \<Longrightarrow>
   conf (Some Term_req_sent1) b x (y @ [Pipe_term])"
  by (auto simp: conf_def configurations_def)

lemma common_joined:
  assumes "joined i j (me e) w" "common e e'" "\<not> acked (state (me e))" "queues w i = Some (inq e)"
  shows "in_pipe (me e') = i" "peer (me e') = j" "out_pipe (me e') = (if acked (state (me e')) then None else Some j)"
    "list_all has_more (partial (outq e'))" "list_all has_more (partial (inq e'))" "no_hiccup (cmds e')" "uq (inq e')" "uq (outq e')"
  using assms by (auto simp: joined_def side_def common_def end_wf_def)

lemma effect_inv:
  assumes inv: "pair_inv i j w" and e: "pipes w i = Some (me e)" "queues w i = Some (inq e)" "cmds e = []" "end_wf e"
    "\<not> acked (state (me e)) \<Longrightarrow> queues w j = Some (outq e)"
    and w': "after_op i j e e' w w'" and eff: "effect e e'"
  shows "pair_inv i j w'"
  using eff
proof cases
  case stay
  then show ?thesis using stay_inv[OF inv e(1-3,5) w'] by blast
next
  case delimiter
  note c = delimiter
  have k: "\<not> acked (state (me e))" "conf (Some Active) (phase w j) (terms (mail w i)) (terms (mail w j))"
    "side i j w" "ack_last (mail w j)" "\<forall>k. k \<noteq> i \<longrightarrow> k \<noteq> j \<longrightarrow> mail w k = [] \<and> pipes w k = None"
    using inv e(1) c(2) by (auto simp: pair_inv_def phase_def acked_def side_def)
  then have r: "phase w j = Some Term_req_sent1" using e c(2,3) by (auto simp: side_def)
  have al: "ack_last (mail w j @ cmds e')"
    using c(2,5) k(1) by (intro sent_ack_last[OF k(2)] k(4) ack_last_none) simp_all
  note l = pair_inv_joined[OF inv e(1)]
  show ?thesis
    by (rule change_inv[OF l k(1) w' common_joined[OF l c(1) k(1) e(2)] al])
       (use conf_delimiter k(2,5) r c in simp_all)
next
  case acknowledge
  note c = acknowledge
  have k: "\<not> acked (state (me e))" "conf (Some Waiting_for_delimiter) (phase w j) (terms (mail w i)) (terms (mail w j))"
    "ack_last (mail w j)" "\<forall>k. k \<noteq> i \<longrightarrow> k \<noteq> j \<longrightarrow> mail w k = [] \<and> pipes w k = None"
    using inv e(1) c(2) by (auto simp: pair_inv_def phase_def acked_def side_def)
  have al: "ack_last (mail w j @ cmds e')"
    using c(2,4) k(1) by (intro sent_ack_last[OF k(2)] k(3)) (simp_all add: ack_last_def)
  note l = pair_inv_joined[OF inv e(1)]
  show ?thesis
    by (rule change_inv[OF l k(1) w' common_joined[OF l c(1) k(1) e(2)] al])
       (use conf_acknowledge[OF k(2)] k(4) c in simp_all)
next
  case request
  note c = request
  have k: "\<not> acked (state (me e))" "conf (Some (state (me e))) (phase w j) (terms (mail w i)) (terms (mail w j))"
    "ack_last (mail w j)" "\<forall>k. k \<noteq> i \<longrightarrow> k \<noteq> j \<longrightarrow> mail w k = [] \<and> pipes w k = None"
    using inv e(1) c(2) by (auto simp: pair_inv_def phase_def acked_def side_def)
  have al: "ack_last (mail w j @ cmds e')"
    using c(4) k(1) by (intro sent_ack_last[OF k(2)] k(3) ack_last_none) simp_all
  note l = pair_inv_joined[OF inv e(1)]
  show ?thesis
    by (rule change_inv[OF l k(1) w' common_joined[OF l c(1) k(1) e(2)] al])
       (use conf_request[OF k(2) c(2)] k(4) c in simp_all)
qed

text \<open>No wake-up is lost: an end that stopped reading has an empty queue or a command under way.\<close>

definition reading :: "pstate \<Rightarrow> bool" where
  "reading s \<longleftrightarrow> s = Active \<or> s = Waiting_for_delimiter"

definition awake :: "pid \<Rightarrow> world \<Rightarrow> bool" where
  "awake i w \<longleftrightarrow> (\<forall>p. pipes w i = Some p \<longrightarrow> reading (state p) \<longrightarrow> \<not> in_active p \<longrightarrow>
     (\<exists>u. queues w i = Some u \<and> asleep u) \<or> Activate_read \<in> set (mail w i))"

definition both_awake :: "pid \<Rightarrow> pid \<Rightarrow> world \<Rightarrow> bool" where
  "both_awake i j w \<longleftrightarrow> awake i w \<and> awake j w"

lemma effect_wakes: "effect e e' \<Longrightarrow> wakes e e' \<and> (reading (state (me e')) \<longrightarrow> reading (state (me e)))"
  by (cases rule: effect.cases) (auto simp: common_def reading_def)

lemma awake_after:
  assumes "after_op i j e e' w w'" "i \<noteq> j" "pipes w i = Some (me e)" "queues w i = Some (inq e)"
    "\<not> acked (state (me e)) \<Longrightarrow> queues w j = Some (outq e)" "wakes e e'"
    "reading (state (me e')) \<Longrightarrow> reading (state (me e))" "both_awake i j w"
  shows "both_awake i j w'"
proof -
  have "awake i w'" using assms by (auto simp: both_awake_def awake_def after_op_def wakes_def)
  moreover have "awake j w'"
    using assms by (cases "acked (state (me e))") (auto simp: both_awake_def awake_def after_op_def wakes_def)
  ultimately show ?thesis by (simp add: both_awake_def)
qed

lemma user_step:
  assumes "pair_inv i j w" "pipes w i = Some p" "permitted u p"
  shows "\<exists>w'. call i (user_op u) w = Inr w' \<and> pair_inv i j w' \<and> (both_awake i j w \<longrightarrow> both_awake i j w')"
proof -
  note l = pair_inv_joined[OF assms(1,2)]
  from load_end_ok[OF l] obtain e where e: "load_end i w = Inr e" "me e = p" "queues w i = Some (inq e)" "cmds e = []" "evs e = []" "end_wf e"
    "\<not> acked (state p) \<Longrightarrow> queues w j = Some (outq e)" by blast
  from user_effect[OF e(6,4)] assms(3) e(2) obtain e' where e': "user_op u e = Inr e'" "effect e e'" by blast
  from e'(2) have "acked (state p) \<longrightarrow> cmds e' = []"
    using e(2) by (cases rule: effect.cases) (auto simp: common_def)
  from store_end_ok[OF l e(2) this] obtain w' where w': "store_end i e e' w = Inr w'" "after_op i j e e' w w'" by blast
  have "pair_inv i j w'"
    using effect_inv[OF assms(1) _ e(3,4,6) _ w'(2) e'(2)] assms(2) e(2,7) by simp
  moreover have "both_awake i j w \<Longrightarrow> both_awake i j w'"
    using awake_after[OF w'(2)] l e effect_wakes[OF e'(2)] by (auto simp: joined_def)
  ultimately show ?thesis using e(1) e'(1) w'(1) by (simp add: call_def)
qed

subsection \<open>Delivery\<close>

lemma phase_mail [simp]: "phase (w\<lparr>mail := x\<rparr>) k = phase w k"
  by (simp add: phase_def)

lemma tl_mail: "ack_last (c # cs) \<Longrightarrow> ack_last cs" "no_hiccup (c # cs) \<Longrightarrow> no_hiccup cs"
  by (auto simp: ack_last_def no_hiccup_def split: if_splits)

lemma side_pop:
  assumes "side i j w" "mail w i = c # cs"
  shows "side i j (w\<lparr>mail := (mail w)(i := cs)\<rparr>)"
proof -
  have "pipes w i \<noteq> None" using assms by (auto simp: side_def split: option.splits)
  then show ?thesis using assms tl_mail[of c cs] by (auto simp: side_def)
qed

lemma side_other: "side j i w \<Longrightarrow> i \<noteq> j \<Longrightarrow> side j i (w\<lparr>mail := (mail w)(i := cs)\<rparr>)"
  by (cases "pipes w j") (simp_all add: side_def)

lemma joined_pop:
  assumes "pair_inv i j w" "pipes w i = Some p" "mail w i = c # cs"
  shows "joined i j p (w\<lparr>mail := (mail w)(i := cs)\<rparr>)"
  using pair_inv_joined[OF assms(1,2)] assms(3) side_pop side_other by (simp add: joined_def)

lemma alive_mail: "pair_inv i j w \<Longrightarrow> mail w i \<noteq> [] \<Longrightarrow> pipes w i \<noteq> None"
  by (auto simp: pair_inv_def side_def split: option.splits)

lemma quiet_handlers:
  assumes "end_wf e" "cmds e = []"
  shows "effect e (process_activate_read e)" "effect e (process_activate_write n e)" "effect e (process_pipe_hwm a b e)"
    "effect e (process_pipe_peer_stats n e)"
  using assms by (auto intro!: stay_local simp: process_activate_read_def process_activate_write_def process_pipe_hwm_def
      process_pipe_peer_stats_def set_hwms_def end_defs Let_def)

lemma pop_quiet:
  assumes "pair_inv i j w" "mail w i = c # cs" "c \<noteq> Pipe_term" "c \<noteq> Pipe_term_ack"
  shows "pair_inv i j (w\<lparr>mail := (mail w)(i := cs)\<rparr>)"
proof -
  have "pipes w i \<noteq> None" using alive_mail assms by (metis list.distinct(1))
  then obtain p where p: "pipes w i = Some p" by blast
  have "terms cs = terms (mail w i)" using assms by (simp add: terms_def)
  with joined_pop[OF assms(1) p assms(2)] assms(1) show ?thesis
    by (auto simp: pair_inv_def joined_def phase_def)
qed

lemma deliver_quiet:
  assumes "pair_inv i j w" "mail w i = c # cs" "c \<noteq> Pipe_term" "c \<noteq> Pipe_term_ack"
  shows "\<exists>w'. deliver i w = Inr w' \<and> pair_inv i j w' \<and> (both_awake i j w \<longrightarrow> both_awake i j w')"
proof -
  let ?w = "w\<lparr>mail := (mail w)(i := cs)\<rparr>"
  note inv = pop_quiet[OF assms]
  have "pipes w i \<noteq> None" using alive_mail assms by (metis list.distinct(1))
  then obtain p where p: "pipes ?w i = Some p" by auto
  note l = pair_inv_joined[OF inv p]
  from load_end_ok[OF l] obtain e where e: "load_end i ?w = Inr e" "me e = p" "queues ?w i = Some (inq e)" "cmds e = []" "evs e = []" "end_wf e"
    "\<not> acked (state p) \<Longrightarrow> queues ?w j = Some (outq e)" by blast
  have nh: "\<forall>n. c \<noteq> Hiccup n" using assms by (auto simp: pair_inv_def side_def no_hiccup_def)
  with quiet_handlers[OF e(6,4)] assms(3,4) obtain e' where e': "handle c e = Inr e'" "effect e e'" by (cases c) auto
  from e'(2) have "acked (state p) \<longrightarrow> cmds e' = []"
    using e(2) by (cases rule: effect.cases) (auto simp: common_def)
  from store_end_ok[OF l e(2) this] obtain w' where w': "store_end i e e' ?w = Inr w'" "after_op i j e e' ?w w'" by blast
  have "pair_inv i j w'"
    using effect_inv[OF inv _ e(3,4,6) _ w'(2) e'(2)] p e(2,7) by simp
  moreover have "both_awake i j w'" if ba: "both_awake i j w"
  proof (cases "c = Activate_read")
    case False
    with ba assms(2) l have "both_awake i j ?w" by (auto simp: both_awake_def awake_def joined_def)
    with awake_after[OF w'(2)] l e effect_wakes[OF e'(2)] show ?thesis by (auto simp: joined_def)
  next
    case True
    then have "e' = process_activate_read e" using e'(1) by simp
    then have "awake i w'" using w'(2)
      by (auto simp: awake_def after_op_def process_activate_read_def end_defs reading_def split: if_splits)
    moreover have "awake j w'"
      using \<open>e' = _\<close> w'(2) ba l e(2,4,7)
      by (auto simp: both_awake_def awake_def after_op_def process_activate_read_def end_defs joined_def split: if_splits)
    ultimately show ?thesis by (simp add: both_awake_def)
  qed
  moreover have "clean_up c i e w' = w'" using nh assms(3,4) by (cases c) auto
  ultimately show ?thesis using e(1) e'(1) w'(1) assms(2) by (simp add: deliver_def Let_def)
qed

lemma conf_term:
  assumes "conf (Some s) b (Pipe_term # x) y"
  shows "s = Active \<Longrightarrow> b = Some Term_req_sent1 \<and> conf (Some Waiting_for_delimiter) b x y \<and> conf (Some Term_ack_sent) b x (y @ [Pipe_term_ack])"
    "s = Delimiter_received \<Longrightarrow> b = Some Term_req_sent1 \<and> conf (Some Term_ack_sent) b x (y @ [Pipe_term_ack])"
    "s = Term_req_sent1 \<Longrightarrow> b \<noteq> Some Active \<and> b \<noteq> Some Waiting_for_delimiter \<and> conf (Some Term_req_sent2) b x (y @ [Pipe_term_ack])"
    "s = Active \<or> s = Delimiter_received \<or> s = Term_req_sent1" "Pipe_term_ack \<notin> set y"
  using assms by (auto simp: conf_def configurations_def)

lemma deliver_term:
  assumes inv: "pair_inv i j w" and m: "mail w i = Pipe_term # cs"
  shows "\<exists>w'. deliver i w = Inr w' \<and> pair_inv i j w' \<and> (both_awake i j w \<longrightarrow> both_awake i j w')"
proof -
  let ?w = "w\<lparr>mail := (mail w)(i := cs)\<rparr>"
  have "pipes w i \<noteq> None" using alive_mail inv m by (metis list.distinct(1))
  then obtain p where p: "pipes w i = Some p" by blast
  note l = joined_pop[OF inv p m]
  from load_end_ok[OF l] obtain e where e: "load_end i ?w = Inr e" "me e = p" "queues ?w i = Some (inq e)" "cmds e = []" "evs e = []" "end_wf e"
    "\<not> acked (state p) \<Longrightarrow> queues ?w j = Some (outq e)" by blast
  have ij: "i \<noteq> j" and cf: "conf (Some (state p)) (phase w j) (Pipe_term # terms cs) (terms (mail w j))"
    and si: "side i j w" and sj: "side j i w" and o: "\<forall>k. k \<noteq> i \<longrightarrow> k \<noteq> j \<longrightarrow> mail ?w k = [] \<and> pipes ?w k = None"
    using inv p m by (auto simp: pair_inv_def phase_def)
  note ct = conf_term[OF cf]
  have na: "\<not> acked (state (me e))" using ct(4) e(2) by (auto simp: acked_def)
  have nack: "Pipe_term_ack \<notin> set (mail w j)" using ct(5) ack_in_terms by blast
  have ip: "in_pipe p = i" "peer p = j" "out_pipe p = Some j" "list_all has_more (partial (inq e))" "list_all has_more (partial (outq e))"
    "uq (inq e)" "uq (outq e)"
    using si p na e by (auto simp: side_def end_wf_def)
  have dd: "state p = Active \<Longrightarrow> (da (inq e) \<longrightarrow> dq (inq e)) \<and> (dq (inq e) \<longleftrightarrow> phase w j = Some Term_req_sent1)"
    using si p e(3) by (auto simp: side_def)
  obtain e' where e': "process_pipe_term e = Inr e'" "state p = Active \<and> delay p \<and> e' = upd_me (\<lambda>p. p\<lparr>state := Waiting_for_delimiter\<rparr>) e \<or>
      (state p = Active \<or> state p = Delimiter_received) \<and> e' = ack_to Term_ack_sent e \<or> state p = Term_req_sent1 \<and> e' = ack_to Term_req_sent2 e"
    using ct(4) e(2) by (cases "delay p") (auto simp: process_pipe_term_def)
  have "acked (state p) \<longrightarrow> cmds e' = []" using na e(2) by simp
  from store_end_ok[OF l e(2) this] obtain w' where w': "store_end i e e' ?w = Inr w'" "after_op i j e e' ?w w'" by blast
  have al: "ack_last (mail ?w j @ cmds e')"
    using nack ij e'(2) e(4) sj by (auto simp: ack_last_append end_defs ack_last_def side_def)
  have cf': "conf (Some (state (me e'))) (phase ?w j) (terms (mail ?w i)) (terms (mail ?w j @ cmds e'))"
    using e'(2) ct ij e(4) by (auto simp: end_defs phase_def)
  have "pair_inv i j w'"
    by (rule change_inv[OF _ na w'(2) _ _ _ _ _ _ _ _ al _ _ cf' o])
       (use l e e'(2) ip dd ct in \<open>auto simp: end_defs acked_def phase_def\<close>)
  moreover have "both_awake i j w'" if ba: "both_awake i j w"
  proof -
    have "both_awake i j ?w" using ba m l by (auto simp: both_awake_def awake_def joined_def)
    moreover have "wakes e e'" "reading (state (me e')) \<Longrightarrow> reading (state (me e))"
      using e'(2) e(2) by (auto simp: wakes_def end_defs reading_def)
    ultimately show ?thesis using awake_after[OF w'(2)] l e by (auto simp: joined_def)
  qed
  ultimately show ?thesis using e(1) e'(1) w'(1) m by (simp add: deliver_def Let_def)
qed

lemma conf_term_ack:
  assumes "conf (Some s) b (Pipe_term_ack # x) y"
  shows "x = []" "s = Term_req_sent1 \<Longrightarrow> b = Some Term_ack_sent \<and> y = []"
    "s = Term_req_sent1 \<or> acked s" "acked s \<Longrightarrow> b \<noteq> Some Active \<and> b \<noteq> Some Waiting_for_delimiter \<and> conf None b [] y"
  using assms by (auto simp: conf_def configurations_def acked_def)

lemma deliver_term_ack:
  assumes inv: "pair_inv i j w" and m: "mail w i = Pipe_term_ack # cs"
  shows "\<exists>w'. deliver i w = Inr w' \<and> pair_inv i j w' \<and> (both_awake i j w \<longrightarrow> both_awake i j w')"
proof -
  let ?w = "w\<lparr>mail := (mail w)(i := cs)\<rparr>"
  have "pipes w i \<noteq> None" using alive_mail inv m by (metis list.distinct(1))
  then obtain p where p: "pipes w i = Some p" by blast
  note l = joined_pop[OF inv p m]
  from load_end_ok[OF l] obtain e where e: "load_end i ?w = Inr e" "me e = p" "queues ?w i = Some (inq e)" "cmds e = []" "evs e = []" "end_wf e"
    "\<not> acked (state p) \<Longrightarrow> queues ?w j = Some (outq e)" by blast
  have ij: "i \<noteq> j" and cf: "conf (Some (state p)) (phase w j) (Pipe_term_ack # terms cs) (terms (mail w j))"
    and si: "side i j w" and sj: "side j i w" and o: "\<forall>k. k \<noteq> i \<longrightarrow> k \<noteq> j \<longrightarrow> mail w k = [] \<and> pipes w k = None"
    using inv p m by (auto simp: pair_inv_def phase_def)
  note ct = conf_term_ack[OF cf]
  have "ack_last (mail w i)" using si by (simp add: side_def)
  then have cs: "cs = []" unfolding m by (simp add: ack_last_def split: if_splits)
  obtain e' where e': "process_pipe_term_ack e = Inr e'" "inq e' = inq e" "outq e' = outq e"
    "cmds e' = (if state p = Term_req_sent1 then [Pipe_term_ack] else [])"
    using ct(3) e(2,4) by (auto simp: process_pipe_term_ack_def end_defs acked_def)
  have "acked (state p) \<longrightarrow> cmds e' = []" using e'(4) by (auto simp: acked_def)
  from store_end_ok[OF l e(2) this] obtain w' where w': "store_end i e e' ?w = Inr w'" "after_op i j e e' ?w w'" by blast
  define w2 where "w2 = w'\<lparr>pipes := (pipes w')(i := None), queues := (queues w')(i := None)\<rparr>"
  have ip: "in_pipe (me e) = i" using si p e(2) by (auto simp: side_def)
  have ph: "pipes w2 i = None" "pipes w2 j = pipes w j" "phase w2 i = None" "phase w2 j = phase w j" "queues w2 i = None"
    "queues w2 j = queues w j" "mail w2 i = []" "mail w2 j = mail w j @ cmds e'" "\<And>k. k \<noteq> i \<Longrightarrow> k \<noteq> j \<Longrightarrow> mail w2 k = mail w k \<and> pipes w2 k = pipes w k"
    using w'(2) ij cs e(2,7) e'(3) by (auto simp: after_op_def w2_def phase_def)
  have "side i j w2" by (simp add: side_def ph ack_last_def)
  moreover have "side j i w2"
  proof (cases "state p = Term_req_sent1")
    case True
    with ct(2) have "phase w j = Some Term_ack_sent" "terms (mail w j) = []" by auto
    moreover from this(2) have "Pipe_term_ack \<notin> set (mail w j)" using ack_in_terms[of "mail w j"] by simp
    ultimately show ?thesis using sj e'(4) True
      by (auto simp: side_def ph ack_last_append phase_def ack_last_def)
  next
    case False
    then have "acked (state p)" using ct(3) by blast
    from ct(4)[OF this] sj e'(4) False show ?thesis
      by (cases "pipes w j") (auto simp: side_def ph phase_def)
  qed
  moreover have "conf None (phase w j) [] (terms (mail w j) @ terms (cmds e'))"
    using ct e'(4) by (cases "state p = Term_req_sent1") (auto simp: conf_def configurations_def)
  ultimately have "pair_inv i j w2" using ij o by (simp add: pair_inv_def ph)
  moreover have "both_awake i j w \<longrightarrow> both_awake i j w2" by (auto simp: both_awake_def awake_def ph)
  moreover have "deliver i w = Inr w2" using e(1) e'(1) w'(1) m ip by (simp add: deliver_def Let_def w2_def)
  ultimately show ?thesis by blast
qed

lemma both_awake_sym: "both_awake i j w \<longleftrightarrow> both_awake j i w"
  by (auto simp: both_awake_def)

definition pipe_inv :: "world \<Rightarrow> bool" where
  "pipe_inv w \<longleftrightarrow> pair_inv 0 1 w \<and> both_awake 0 1 w"

lemma pipe_inv_side: "pipe_inv w \<Longrightarrow> k = 0 \<or> k = 1 \<Longrightarrow> pair_inv k (1 - k) w \<and> both_awake k (1 - k) w"
  using pair_inv_sym both_awake_sym by (auto simp: pipe_inv_def)

lemma pipe_inv_sideI: "pair_inv k (1 - k) w \<Longrightarrow> both_awake k (1 - k) w \<Longrightarrow> k = 0 \<or> k = 1 \<Longrightarrow> pipe_inv w"
  using pair_inv_sym both_awake_sym by (auto simp: pipe_inv_def)

lemma deliver_step:
  assumes "pipe_inv w" "mail w k \<noteq> []"
  shows "\<exists>w'. deliver k w = Inr w' \<and> pipe_inv w'"
proof -
  obtain c cs where m: "mail w k = c # cs" using assms(2) by (auto simp: neq_Nil_conv)
  have k: "k = 0 \<or> k = 1" using assms by (auto simp: pipe_inv_def pair_inv_def)
  note inv = pipe_inv_side[OF assms(1) k]
  have "\<exists>w'. deliver k w = Inr w' \<and> pair_inv k (1 - k) w' \<and> (both_awake k (1 - k) w \<longrightarrow> both_awake k (1 - k) w')"
    using deliver_quiet[OF conjunct1[OF inv] m] deliver_term[OF conjunct1[OF inv]] deliver_term_ack[OF conjunct1[OF inv]] m by metis
  with inv pipe_inv_sideI[OF _ _ k] show ?thesis by blast
qed

lemma user_step_any:
  assumes "pipe_inv w" "pipes w k = Some p" "permitted u p"
  shows "\<exists>w'. call k (user_op u) w = Inr w' \<and> pipe_inv w'"
proof -
  have k: "k = 0 \<or> k = 1" using assms by (auto simp: pipe_inv_def pair_inv_def)
  note inv = pipe_inv_side[OF assms(1) k]
  from user_step[OF conjunct1[OF inv] assms(2,3)] inv pipe_inv_sideI[OF _ _ k] show ?thesis by blast
qed

lemma reachable_inv: "pstep\<^sup>*\<^sup>* (pipepair h0 h1) w \<Longrightarrow> pipe_inv w"
proof (induction rule: rtranclp_induct)
  case base
  have "both_awake 0 1 (pipepair h0 h1)" by (auto simp: both_awake_def awake_def pipepair_def pipe_new_def)
  then show ?case using pair_inv_new by (simp add: pipe_inv_def)
next
  case (step w w')
  from step(2) show ?case
  proof cases
    case (user i p u)
    then show ?thesis using user_step_any[OF step.IH] by fastforce
  next
    case (mail i)
    then show ?thesis using deliver_step[OF step.IH] by fastforce
  qed
qed

section \<open>Properties\<close>

text \<open>An end that has acknowledged may send nothing more: its peer is deleted or about to be.\<close>

lemma conf_acked: "conf (Some s) b x y \<Longrightarrow> acked s \<Longrightarrow> b \<noteq> None \<Longrightarrow> Pipe_term_ack \<in> set y"
  by (auto simp: conf_def configurations_def acked_def)

lemma late_call:
  assumes "pair_inv i j w" "pipes w i = Some p" "\<not> permitted u p"
  shows "(\<exists>w'. call i (user_op u) w = Inr w') \<longleftrightarrow> pipes w j \<noteq> None"
proof -
  note l = pair_inv_joined[OF assms(1,2)]
  from load_end_ok[OF l] obtain e where e: "load_end i w = Inr e" "me e = p" "cmds e = []" by blast
  from assms(3) obtain c where c: "user_op u e = Inr (send_cmd c e)"
    by (cases u) (auto simp: send_hwms_to_peer_def send_stats_to_peer_def)
  have "peer p = j" using l by (auto simp: joined_def side_def)
  with e c show ?thesis by (auto simp: call_def store_end_def send_cmd_def)
qed

text \<open>
  C12. Safety of the termination protocol: in every state that two connected pipe ends can reach without hiccups and without
  watermarks or statistics sent by an end after its acknowledgement (\<open>permitted\<close>), whatever their owners call and whenever
  their threads process commands, no assertion fails, no deleted pipe or queue is
  touched and no command goes to a deleted pipe.  The two calls that are left out are exactly the ones that can fail: they fail if the peer is
  deleted (\<open>hwm_to_deleted_peer\<close> reaches such a state), and otherwise their command comes behind the acknowledgement at which the peer deletes itself.
\<close>
theorem pipe_never_faults:
  assumes "pstep\<^sup>*\<^sup>* (pipepair h0 h1) w"
  shows "(\<forall>i p u. pipes w i = Some p \<longrightarrow> ((\<exists>w'. call i (user_op u) w = Inr w') \<longleftrightarrow> permitted u p \<or> pipes w (1 - i) \<noteq> None)) \<and>
    (\<forall>i p u. pipes w i = Some p \<longrightarrow> \<not> permitted u p \<longrightarrow> pipes w (1 - i) \<noteq> None \<longrightarrow> Pipe_term_ack \<in> set (mail w (1 - i))) \<and>
    (\<forall>i. \<exists>w'. deliver i w = Inr w')"
proof -
  note inv = reachable_inv[OF assms]
  have side: "pair_inv i (1 - i) w" if "pipes w i = Some p" for i p
  proof -
    have "\<forall>k. k \<noteq> 0 \<longrightarrow> k \<noteq> 1 \<longrightarrow> pipes w k = None" using inv by (simp add: pipe_inv_def pair_inv_def)
    then have "i = 0 \<or> i = 1" using that by fastforce
    from pipe_inv_side[OF inv this] show ?thesis ..
  qed
  have "\<exists>w'. deliver i w = Inr w'" for i
    using deliver_step[OF inv, of i] by (cases "mail w i = []") (auto simp: deliver_def)
  moreover have "(\<exists>w'. call i (user_op u) w = Inr w') \<longleftrightarrow> permitted u p \<or> pipes w (1 - i) \<noteq> None" if p: "pipes w i = Some p" for i p u
  proof (cases "permitted u p")
    case True
    from user_step_any[OF inv p this] True show ?thesis by auto
  next
    case False
    from late_call[OF side[OF p] p this] False show ?thesis by simp
  qed
  moreover have "Pipe_term_ack \<in> set (mail w (1 - i))" if p: "pipes w i = Some p" "\<not> permitted u p" "pipes w (1 - i) \<noteq> None" for i p u
  proof -
    have a: "acked (state p)" using p(2) by (cases u) auto
    have "conf (Some (state p)) (phase w (1 - i)) (terms (mail w i)) (terms (mail w (1 - i)))"
      using side[OF p(1)] p(1) by (simp add: pair_inv_def phase_def)
    from conf_acked[OF this a] p(3) show ?thesis by (simp add: phase_def ack_in_terms[symmetric])
  qed
  ultimately show ?thesis by simp
qed

text \<open>
  C13. Termination of a pipe completes.  In a run without hiccups, and without watermarks or statistics sent by an end after its
  acknowledgement, once all commands are processed, either both ends work, or both are deleted, or one end has asked for termination
  and the other is still reading; then the delimiter is in the queue of the reader and the reader is active.  With a hiccup under way
  this fails (\<open>hiccup_loses_delimiter\<close>).
\<close>
theorem pipe_quiescent:
  assumes "pstep\<^sup>*\<^sup>* (pipepair h0 h1) w" "\<forall>i. mail w i = []"
  shows "phase w 0 = Some Active \<and> phase w 1 = Some Active \<or> phase w 0 = None \<and> phase w 1 = None \<or>
    (\<exists>i\<in>{0, 1}. \<exists>p u. phase w (1 - i) = Some Term_req_sent1 \<and> pipes w i = Some p \<and> state p = Waiting_for_delimiter \<and>
       in_active p \<and> queues w i = Some u \<and> Delimiter \<in> set (ready u))"
proof -
  note inv = reachable_inv[OF assms(1)]
  have "conf (phase w 0) (phase w 1) [] []" using inv assms(2) by (auto simp: pipe_inv_def pair_inv_def)
  then consider "phase w 0 = Some Active" "phase w 1 = Some Active" | "phase w 0 = None" "phase w 1 = None"
    | "phase w 0 = Some Waiting_for_delimiter" "phase w 1 = Some Term_req_sent1"
    | "phase w 1 = Some Waiting_for_delimiter" "phase w 0 = Some Term_req_sent1"
    by (auto simp: conf_def configurations_def)
  then consider "phase w 0 = Some Active" "phase w 1 = Some Active" | "phase w 0 = None" "phase w 1 = None"
    | i where "i \<in> {0, 1}" "phase w (1 - i) = Some Term_req_sent1" "phase w i = Some Waiting_for_delimiter"
    by (metis diff_self_eq_0 diff_zero insertCI)
  then show ?thesis
  proof cases
    case 3
    then obtain p where p: "pipes w i = Some p" "state p = Waiting_for_delimiter" by (auto simp: phase_def)
    have "pair_inv i (1 - i) w" "both_awake i (1 - i) w" using pipe_inv_side[OF inv, of i] 3(1) by auto
    with p 3(2) assms(2) obtain u where "queues w i = Some u" "dq u" "uq u" "in_active p \<or> asleep u"
      by (auto simp: pair_inv_def side_def both_awake_def awake_def reading_def)
    with p 3 show ?thesis by (auto simp: uq_def)
  qed auto
qed

section \<open>Witnesses\<close>

text \<open>One end writes a message and terminates; the other reads the message and then the delimiter.\<close>

datatype move = Do pid uop | Deliver pid

fun moves :: "move list \<Rightarrow> world \<Rightarrow> world result" where
  "moves [] w = Inr w"
| "moves (Do i u # ms) w = (case pipes w i of None \<Rightarrow> Inl Bad_pointer
     | Some p \<Rightarrow> if permitted u p then bindE (call i (user_op u) w) (moves ms) else Inl Assertion)"
| "moves (Deliver i # ms) w = (if mail w i = [] then Inl Assertion else bindE (deliver i w) (moves ms))"

lemma moves_reach: "moves ms w = Inr w' \<Longrightarrow> pstep\<^sup>*\<^sup>* w w'"
proof (induction ms w rule: moves.induct)
  case (2 i u ms w)
  then obtain p w1 where "pipes w i = Some p" "permitted u p" "call i (user_op u) w = Inr w1" "moves ms w1 = Inr w'"
    by (auto simp: bindE_eq_Inr split: option.splits if_splits)
  with 2 pstep.user show ?case by (metis converse_rtranclp_into_rtranclp)
next
  case (3 i ms w)
  then obtain w1 where "mail w i \<noteq> []" "deliver i w = Inr w1" "moves ms w1 = Inr w'"
    by (auto simp: bindE_eq_Inr split: if_splits)
  with 3 pstep.mail show ?case by (metis converse_rtranclp_into_rtranclp)
qed simp

definition sample_moves :: "move list" where
  "sample_moves = [Do 1 Read, Do 0 (Write_msg \<lparr>w_flags = 0, w_data = [5]\<rparr>), Do 0 Flush_out, Do 0 (Terminate False),
     Deliver 1, Deliver 1, Do 1 Read]"

lemma sample_moves_run:
  "case moves sample_moves (pipepair 10 10) of Inl _ \<Rightarrow> False
   | Inr w \<Rightarrow> mail w 0 = [] \<and> mail w 1 = [] \<and> map_option state (pipes w 1) = Some Waiting_for_delimiter"
  by code_simp


lemma sample_state:
  obtains w where "pstep\<^sup>*\<^sup>* (pipepair 10 10) w" "\<forall>i. mail w i = []"
proof -
  obtain w where w: "moves sample_moves (pipepair 10 10) = Inr w" "mail w 0 = []" "mail w 1 = []"
    using sample_moves_run by (auto split: sum.splits)
  note r = moves_reach[OF w(1)]
  have "mail w i = []" for i
    using reachable_inv[OF r] w(2,3) by (cases "i = 0 \<or> i = 1") (auto simp: pipe_inv_def pair_inv_def)
  with r that show ?thesis by blast
qed

theorem pipe_never_faults_witness: "\<exists>w. pstep\<^sup>*\<^sup>* (pipepair 10 10) w \<and> (\<forall>i. \<exists>w'. deliver i w = Inr w')"
proof -
  obtain w where "pstep\<^sup>*\<^sup>* (pipepair 10 10) w" by (rule sample_state)
  with pipe_never_faults show ?thesis by blast
qed

theorem pipe_quiescent_witness:
  "\<exists>w. (\<forall>i. mail w i = []) \<and> (phase w 0 = Some Active \<and> phase w 1 = Some Active \<or> phase w 0 = None \<and> phase w 1 = None \<or>
    (\<exists>i p u. phase w (1 - i) = Some Term_req_sent1 \<and> pipes w i = Some p \<and> state p = Waiting_for_delimiter \<and>
       in_active p \<and> queues w i = Some u \<and> Delimiter \<in> set (ready u)))"
proof -
  obtain w where w: "pstep\<^sup>*\<^sup>* (pipepair 10 10) w" "\<forall>i. mail w i = []" by (rule sample_state)
  from pipe_quiescent[OF w] w(2) show ?thesis by blast
qed

section \<open>Two races\<close>

text \<open>
  A socket that changes its high watermark sends a command to the peer of each of its pipes without looking
  at their states: after both acknowledgements crossed, the peer no longer exists.
\<close>

lemma hwm_to_deleted_peer:
  "case moves [Do 1 Set_nodelay, Do 0 (Terminate False), Deliver 1, Deliver 0] (pipepair 10 10) of Inl _ \<Rightarrow> False
   | Inr w \<Rightarrow> map_option state (pipes w 1) = Some Term_ack_sent \<and> pipes w 0 = None \<and>
       (case call 1 (user_op (Send_hwms 5 5)) w of Inl x \<Rightarrow> x = Bad_pointer | Inr _ \<Rightarrow> False)"
  by code_simp

text \<open>
  A hiccup that crosses a termination request: the delimiter goes into the queue that the hiccup
  discards, and the end that waits for it gets neither the delimiter nor another command.
\<close>

lemma hiccup_loses_delimiter:
  "case bindE (hiccup 1 2 (pipepair 10 10)) (\<lambda>w. moves [Do 0 (Terminate False), Deliver 0, Deliver 1] w) of Inl _ \<Rightarrow> False
   | Inr w \<Rightarrow> map_option state (pipes w 0) = Some Term_req_sent1 \<and> map_option state (pipes w 1) = Some Waiting_for_delimiter \<and>
       mail w 0 = [] \<and> mail w 1 = [] \<and> map_option in_pipe (pipes w 1) = Some 2 \<and> map_option all_items (queues w 2) = Some []"
  by code_simp

end
