(* ===== verification/Pair.thy ===== *)
theory Pair
  imports Pipe_Term "HOL-Library.Sublist"
begin

text \<open>
  The PAIR socket, \<^verbatim>\<open>pair.cpp\<close>, and two of them connected by a pipe, as the internal channels of a node are
  (\<^verbatim>\<open>utils.cpp\<close>).  The channel is run on the store of \<open>Pipe\<close>: the calls of the two users and the commands that the
  ends send each other interleave in any order.
\<close>

section \<open>The socket\<close>

record pair =
  pr_pipe :: "pid option"

definition pair_new :: pair where "pair_new = \<lparr>pr_pipe = None\<rparr>"

definition pair_delete :: "pair \<Rightarrow> unit result" where
  "pair_delete p = (if pr_pipe p \<noteq> None then Inl Assertion else Inr ())"

text \<open>The calls on pipes are arguments: terminating, writing, flushing, reading and checking.\<close>

definition pair_attach_pipe :: "(pid \<Rightarrow> 's \<Rightarrow> 's result) \<Rightarrow> pid \<Rightarrow> pair \<Rightarrow> 's \<Rightarrow> (pair \<times> 's) result" where
  "pair_attach_pipe tm x p s = (case pr_pipe p of None \<Rightarrow> Inr (p\<lparr>pr_pipe := Some x\<rparr>, s)
     | Some _ \<Rightarrow> bindE (tm x s) (\<lambda>s1. Inr (p, s1)))"

definition pair_pipe_terminated :: "pid \<Rightarrow> pair \<Rightarrow> pair" where
  "pair_pipe_terminated x p = (if pr_pipe p = Some x then p\<lparr>pr_pipe := None\<rparr> else p)"

definition pair_read_activated :: "pid \<Rightarrow> pair \<Rightarrow> pair" where "pair_read_activated x p = p"

definition pair_write_activated :: "pid \<Rightarrow> pair \<Rightarrow> pair" where "pair_write_activated x p = p"

text \<open>\<open>False\<close> and \<open>None\<close> are \<^verbatim>\<open>EAGAIN\<close>.\<close>

definition pair_send :: "(pid \<Rightarrow> wmsg \<Rightarrow> 's \<Rightarrow> (bool \<times> 's) result) \<Rightarrow> (pid \<Rightarrow> 's \<Rightarrow> 's result) \<Rightarrow> wmsg \<Rightarrow> pair \<Rightarrow> 's \<Rightarrow> (bool \<times> 's) result" where
  "pair_send wr fl m p s = (case pr_pipe p of None \<Rightarrow> Inr (False, s)
     | Some x \<Rightarrow> bindE (wr x m s) (\<lambda>(ok, s1).
         if \<not> ok then Inr (False, s1)
         else if \<not> has_more (Msg m) then bindE (fl x s1) (\<lambda>s2. Inr (True, s2)) else Inr (True, s1)))"

definition pair_recv :: "(pid \<Rightarrow> 's \<Rightarrow> (wmsg option \<times> 's) result) \<Rightarrow> pair \<Rightarrow> 's \<Rightarrow> (wmsg option \<times> 's) result" where
  "pair_recv rd p s = (case pr_pipe p of None \<Rightarrow> Inr (None, s) | Some x \<Rightarrow> rd x s)"

definition pair_has_in :: "(pid \<Rightarrow> 's \<Rightarrow> (bool \<times> 's) result) \<Rightarrow> pair \<Rightarrow> 's \<Rightarrow> (bool \<times> 's) result" where
  "pair_has_in cr p s = (case pr_pipe p of None \<Rightarrow> Inr (False, s) | Some x \<Rightarrow> cr x s)"

definition pair_has_out :: "(pid \<Rightarrow> 's \<Rightarrow> (bool \<times> 's) result) \<Rightarrow> pair \<Rightarrow> 's \<Rightarrow> (bool \<times> 's) result" where
  "pair_has_out cw p s = (case pr_pipe p of None \<Rightarrow> Inr (False, s) | Some x \<Rightarrow> cw x s)"

section \<open>Two sockets and a pipe\<close>

definition call_val :: "(endp \<Rightarrow> ('r \<times> endp) result) \<Rightarrow> pid \<Rightarrow> world \<Rightarrow> ('r \<times> world) result" where
  "call_val f i w = bindE (load_end i w) (\<lambda>e. bindE (f e) (\<lambda>(r, e'). bindE (store_end i e e' w) (\<lambda>w'. Inr (r, w'))))"

definition w_write :: "pid \<Rightarrow> wmsg \<Rightarrow> world \<Rightarrow> (bool \<times> world) result" where
  "w_write i m = call_val (pipe_write m) i"

definition w_flush :: "pid \<Rightarrow> world \<Rightarrow> world result" where
  "w_flush i = call i (\<lambda>e. Inr (flush e))"

definition w_read :: "pid \<Rightarrow> world \<Rightarrow> (wmsg option \<times> world) result" where
  "w_read = call_val pipe_read"

definition w_check_read :: "pid \<Rightarrow> world \<Rightarrow> (bool \<times> world) result" where
  "w_check_read = call_val check_read"

definition w_check_write :: "pid \<Rightarrow> world \<Rightarrow> (bool \<times> world) result" where
  "w_check_write = call_val (\<lambda>e. Inr (check_write e))"

definition w_terminate :: "pid \<Rightarrow> world \<Rightarrow> world result" where
  "w_terminate i = call i (terminate False)"

text \<open>The channel, with what each side has sent and received so far.\<close>

record chan =
  socks :: "pid \<Rightarrow> pair"
  net :: world
  sent :: "pid \<Rightarrow> wmsg list"
  got :: "pid \<Rightarrow> wmsg list"

datatype chan_op = Send pid wmsg | Recv pid | Poll_in pid | Poll_out pid | Command pid

fun chan_step :: "chan_op \<Rightarrow> chan \<Rightarrow> (unit \<times> chan) result" where
  "chan_step (Send k m) c = bindE (pair_send w_write w_flush m (socks c k) (net c)) (\<lambda>(ok, w).
     Inr ((), c\<lparr>net := w, sent := (if ok then (sent c)(k := sent c k @ [m]) else sent c)\<rparr>))"
| "chan_step (Recv k) c = bindE (pair_recv w_read (socks c k) (net c)) (\<lambda>(r, w).
     Inr ((), c\<lparr>net := w, got := (case r of None \<Rightarrow> got c | Some m \<Rightarrow> (got c)(k := got c k @ [m]))\<rparr>))"
| "chan_step (Poll_in k) c = bindE (pair_has_in w_check_read (socks c k) (net c)) (\<lambda>(_, w). Inr ((), c\<lparr>net := w\<rparr>))"
| "chan_step (Poll_out k) c = bindE (pair_has_out w_check_write (socks c k) (net c)) (\<lambda>(_, w). Inr ((), c\<lparr>net := w\<rparr>))"
| "chan_step (Command k) c = bindE (deliver k (net c)) (\<lambda>w. Inr ((), c\<lparr>net := w\<rparr>))"

definition chan_new :: "int \<Rightarrow> int \<Rightarrow> chan result" where
  "chan_new h0 h1 = (let w = pipepair h0 h1 in
     bindE (pair_attach_pipe w_terminate 0 pair_new w) (\<lambda>(p0, w1).
     bindE (pair_attach_pipe w_terminate 1 pair_new w1) (\<lambda>(p1, w2).
       Inr \<lparr>socks = (\<lambda>k. if k = 0 then p0 else p1), net = w2, sent = (\<lambda>_. []), got = (\<lambda>_. [])\<rparr>)))"

text \<open>What the users keep to: messages have no flags but the one for more parts, and there are fewer than $2^{64}$ of them.\<close>

fun chan_may :: "chan_op \<Rightarrow> chan \<Rightarrow> bool" where
  "chan_may (Send k m) c \<longleftrightarrow> k \<in> {0, 1} \<and> w_flags m \<in> {0, 1} \<and> length (sent c k) + 1 < 2 ^ 64"
| "chan_may (Recv k) c \<longleftrightarrow> k \<in> {0, 1}"
| "chan_may (Poll_in k) c \<longleftrightarrow> k \<in> {0, 1}"
| "chan_may (Poll_out k) c \<longleftrightarrow> k \<in> {0, 1}"
| "chan_may (Command k) c \<longleftrightarrow> True"

section \<open>One direction\<close>

definition whole :: "wmsg list \<Rightarrow> nat" where
  "whole ms = length (filter (\<lambda>m. \<not> has_more (Msg m)) ms)"

text \<open>The reports of the reader that are under way or have arrived, oldest first.\<close>

fun told :: "command list \<Rightarrow> u64 list" where
  "told [] = []"
| "told (Activate_write n # cs) = n # told cs"
| "told (_ # cs) = told cs"

definition reports :: "pipe_t \<Rightarrow> command list \<Rightarrow> u64 list" where
  "reports p cs = peers_msgs_read p # told cs"

text \<open>
  The writer \<open>pw\<close> with its mailbox \<open>mw\<close>, the reader \<open>pr\<close> with its mailbox \<open>mr\<close>, the queue between them, what was
  sent and what was received.
\<close>

definition flow :: "int \<Rightarrow> pipe_t \<Rightarrow> command list \<Rightarrow> pipe_t \<Rightarrow> command list \<Rightarrow> pmsg upipe \<Rightarrow> wmsg list \<Rightarrow> wmsg list \<Rightarrow> bool" where
  "flow h pw mw pr mr u S G \<longleftrightarrow>
     map Msg S = map Msg G @ all_items u \<and> list_all (\<lambda>m. w_flags m \<in> {0, 1}) S \<and> length S < 2 ^ 64 \<and> list_all has_more (partial u) \<and> uq u \<and>
     msgs_written pw = of_nat (whole S) \<and> msgs_read pr = of_nat (whole G) \<and> hwm pw = h \<and> lwm pr = compute_lwm h \<and>
     (h > 0 \<longrightarrow> sorted (map unat (reports pw mw)) \<and> unat (last (reports pw mw)) = whole G - whole G mod nat (compute_lwm h) \<and>
       whole S \<le> unat (peers_msgs_read pw) + nat h) \<and>
     (\<not> out_active pw \<longrightarrow> h > 0 \<and> whole S \<ge> unat (peers_msgs_read pw) + nat h) \<and>
     (\<not> in_active pr \<longrightarrow> asleep u \<or> Activate_read \<in> set mr)"

definition quiet :: "command \<Rightarrow> bool" where
  "quiet c \<longleftrightarrow> c = Activate_read \<or> (\<exists>n. c = Activate_write n)"

text \<open>The two ends, and the channel as a whole.\<close>

definition ends_joined :: "pid \<Rightarrow> pipe_t \<Rightarrow> bool" where
  "ends_joined k p \<longleftrightarrow> in_pipe p = k \<and> out_pipe p = Some (1 - k) \<and> peer p = 1 - k \<and> state p = Active"

definition chan_ok :: "(pid \<Rightarrow> int) \<Rightarrow> chan \<Rightarrow> bool" where
  "chan_ok h c \<longleftrightarrow> (\<exists>p u. (\<forall>k\<in>{0, 1}. socks c k = \<lparr>pr_pipe = Some k\<rparr> \<and> pipes (net c) k = Some (p k) \<and> queues (net c) k = Some (u k) \<and> ends_joined k (p k) \<and>
       list_all quiet (mail (net c) k) \<and>
       flow (h k) (p k) (mail (net c) k) (p (1 - k)) (mail (net c) (1 - k)) (u (1 - k)) (sent c k) (got c (1 - k))) \<and>
     (\<forall>k. k \<notin> {0, 1} \<longrightarrow> mail (net c) k = []))"

text \<open>One end with its two directions: \<open>q\<close> is the peer, \<open>mi\<close> and \<open>mo\<close> are the own mailbox and that of the peer.\<close>

definition sides :: "int \<Rightarrow> int \<Rightarrow> pid \<Rightarrow> pipe_t \<Rightarrow> command list \<Rightarrow> command list \<Rightarrow> wmsg list \<times> wmsg list \<Rightarrow> wmsg list \<times> wmsg list \<Rightarrow> endp \<Rightarrow> bool" where
  "sides h h' k q mi mo out inn e \<longleftrightarrow> ends_joined k (me e) \<and> list_all quiet (cmds e) \<and>
     flow h (me e) mi q (mo @ cmds e) (outq e) (fst out) (snd out) \<and> flow h' q (mo @ cmds e) (me e) mi (inq e) (fst inn) (snd inn)"

lemma plain_flags:
  assumes "w_flags m \<in> {0, 1}"
  shows "has_more (Msg m) \<longleftrightarrow> w_flags m = 1" "\<not> is_routing_id (Msg m)" "\<not> is_credential (Msg m)"
  using assms by (auto simp: has_more_def is_routing_id_def is_credential_def msg_more_def)

lemma whole_simps [simp]: "whole [] = 0" "whole (ms @ ns) = whole ms + whole ns" "whole [m] = (if has_more (Msg m) then 0 else 1)"
  by (simp_all add: whole_def)

lemma whole_le: "whole ms \<le> length ms" by (simp add: whole_def)

lemma lwm_bounds: "0 < h \<Longrightarrow> 0 < compute_lwm h \<and> compute_lwm h \<le> h"
  by (auto simp: compute_lwm_def signed_divide_int_def)

lemma lwm_zero: "h = 0 \<Longrightarrow> compute_lwm h = 0"
  by (simp add: compute_lwm_def signed_divide_int_def)

lemma told_append [simp]: "told (cs @ ds) = told cs @ told ds"
  by (induction cs rule: told.induct) simp_all

lemma sorted_last: "sorted (x # xs) \<Longrightarrow> x \<le> last (x # xs)"
  by (cases xs rule: rev_cases) auto

lemma reports_quiet: "reports p (cs @ [Activate_read]) = reports p cs" "reports p [] = [peers_msgs_read p]"
  "reports p (cs @ [Activate_write n]) = reports p cs @ [n]"
  by (simp_all add: reports_def)

lemma flow_counts:
  assumes "flow h pw mw pr mr u S G"
  shows "whole G \<le> whole S" "whole S < 2 ^ 64" "length G \<le> length S"
proof -
  have e: "map Msg S = map Msg G @ all_items u" "length S < 2 ^ 64" using assms by (simp_all add: flow_def)
  have "G = take (length G) S" using arg_cong[OF e(1), of "take (length G)"] by (simp add: take_map inj_map_eq_map inj_def)
  then have t: "S = G @ drop (length G) S" by (metis append_take_drop_id)
  then show "whole G \<le> whole S" by (metis le_add1 whole_simps(2))
  from t show "length G \<le> length S" by (metis le_add1 length_append)
  show "whole S < 2 ^ 64" using whole_le[of S] e(2) by simp
qed

text \<open>The test for room, in natural numbers.\<close>

lemma check_hwm_nat:
  assumes "flow h pw mw pr mr u S G" "h < 2 ^ 31" "me e = pw"
  shows "check_hwm e \<longleftrightarrow> \<not> (h > 0 \<and> whole S \<ge> unat (peers_msgs_read pw) + nat h)"
proof (cases "h > 0")
  case True
  note c = flow_counts[OF assms(1)]
  let ?r = "peers_msgs_read pw"
  have f: "msgs_written pw = of_nat (whole S)" "hwm pw = h" "unat (last (reports pw mw)) = whole G - whole G mod nat (compute_lwm h)"
    "sorted (map unat (reports pw mw))" using assms(1) True by (simp_all add: flow_def)
  have "unat ?r \<le> unat (last (reports pw mw))"
    using sorted_last[of "unat ?r" "map unat (told mw)"] f(4) by (simp add: reports_def last_map split: if_splits)
  then have le: "unat ?r \<le> whole S" using f(3) c(1) by linarith
  have uw: "unat (of_nat (whole S) :: u64) = whole S" using c(2) by (simp add: unat_of_nat)
  then have "?r \<le> of_nat (whole S)" using le by (simp add: word_le_nat_alt)
  then have d: "unat (of_nat (whole S) - ?r) = whole S - unat ?r" using uw by (simp add: unat_sub)
  have "unat (of_int h :: u64) = nat h" using True assms(2) by (simp add: unsigned_of_int take_bit_int_eq_self)
  then have "of_int h \<le> of_nat (whole S) - ?r \<longleftrightarrow> nat h \<le> whole S - unat ?r" by (simp add: word_le_nat_alt d)
  then show ?thesis using True le assms(3) f(1,2) by (auto simp: check_hwm_def)
next
  case False
  then show ?thesis using assms by (simp add: check_hwm_def flow_def)
qed

lemma check_write_sides:
  assumes "sides h h' k q mi mo out inn e" "h < 2 ^ 31"
  shows "\<exists>b e'. check_write e = (b, e') \<and> sides h h' k q mi mo out inn e' \<and> inq e' = inq e \<and> outq e' = outq e \<and> cmds e' = cmds e \<and>
    (b \<longleftrightarrow> check_hwm e) \<and> (b \<longrightarrow> e' = e \<and> out_active (me e))"
proof -
  have fl: "flow h (me e) mi q (mo @ cmds e) (outq e) (fst out) (snd out)" "state (me e) = Active" using assms(1) by (simp_all add: sides_def ends_joined_def)
  note hw = check_hwm_nat[OF fl(1) assms(2) refl]
  have "out_active (me e)" if "check_hwm e" using that hw fl(1) by (auto simp: flow_def)
  moreover have "sides h h' k q mi mo out inn (upd_me (\<lambda>p. p\<lparr>out_active := False\<rparr>) e)" if "\<not> check_hwm e"
    using that hw assms(1) by (simp add: sides_def flow_def ends_joined_def upd_me_def reports_def)
  moreover have "check_hwm (upd_me (\<lambda>p. p\<lparr>out_active := False\<rparr>) e) = check_hwm e" by (simp add: check_hwm_def upd_me_def)
  ultimately show ?thesis using fl(2) assms(1) by (cases "check_hwm e") (auto simp: check_write_def upd_me_def)
qed

lemma write_sides:
  assumes "sides h h' k q mi mo out inn e" "h < 2 ^ 31" "w_flags m \<in> {0, 1}" "length (fst out) + 1 < 2 ^ 64"
  shows "\<exists>b e'. pipe_write m e = Inr (b, e') \<and> sides h h' k q mi mo (if b then (fst out @ [m], snd out) else out) inn e' \<and> inq e' = inq e \<and>
    (\<not> b \<or> has_more (Msg m) \<longrightarrow> pending (outq e') = pending (outq e)) \<and> (b \<longleftrightarrow> check_hwm e)"
proof -
  from check_write_sides[OF assms(1,2)] obtain b e1 where w: "check_write e = (b, e1)" "sides h h' k q mi mo out inn e1" "inq e1 = inq e" "outq e1 = outq e"
    "b \<longleftrightarrow> check_hwm e" "b \<longrightarrow> e1 = e \<and> out_active (me e)" by blast
  show ?thesis
  proof (cases b)
    case False
    with w show ?thesis by (intro exI[of _ False] exI[of _ e1]) (simp add: pipe_write_def)
  next
    case True
    let ?e = "e\<lparr>outq := u_write (Msg m) (has_more (Msg m)) (outq e)\<rparr>"
    let ?e' = "if \<not> has_more (Msg m) \<and> \<not> is_routing_id (Msg m) then upd_me (\<lambda>p. p\<lparr>msgs_written := msgs_written p + 1\<rparr>) ?e else ?e"
    have o: "out_pipe (me e) \<noteq> None" "out_active (me e)" "flow h (me e) mi q (mo @ cmds e) (outq e) (fst out) (snd out)"
      using assms(1) w(6) True by (auto simp: sides_def ends_joined_def)
    have r: "pipe_write m e = Inr (True, ?e')" using w(1,6) True o(1) by (auto simp: pipe_write_def Let_def split: option.splits)
    have nf: "h > 0 \<longrightarrow> whole (fst out) < unat (peers_msgs_read (me e)) + nat h" using check_hwm_nat[OF o(3) assms(2) refl] w(5) True by auto
    have al: "all_items (u_write (Msg m) (has_more (Msg m)) (outq e)) = all_items (outq e) @ [Msg m]" by (simp add: all_items_def u_write_def)
    have "flow h (me ?e') mi q (mo @ cmds e) (outq ?e') (fst out @ [m]) (snd out)"
      using o(2,3) assms(3,4) nf plain_flags[OF assms(3)] al
      by (cases "has_more (Msg m)") (auto simp: flow_def upd_me_def reports_def u_write_def uq_def)
    moreover have "flow h' q (mo @ cmds e) (me ?e') mi (inq e) (fst inn) (snd inn)"
      using assms(1) by (auto simp: sides_def flow_def upd_me_def)
    ultimately have "sides h h' k q mi mo (fst out @ [m], snd out) inn ?e'"
      using assms(1) by (auto simp: sides_def ends_joined_def upd_me_def)
    moreover have "pending (outq ?e') = pending (outq e)" if "has_more (Msg m)" using that by (simp add: u_write_def)
    ultimately show ?thesis using r w(5) True by (intro exI[of _ True] exI[of _ ?e']) (auto simp: upd_me_def)
  qed
qed

lemma flow_queue:
  assumes "flow h pw mw pr mr u S G" "all_items v = all_items u" "partial v = partial u" "uq v" "\<not> in_active pr \<longrightarrow> asleep v \<or> Activate_read \<in> set mr'"
  shows "flow h pw mw pr mr' v S G"
  using assms unfolding flow_def by simp

lemma flow_reports: "flow h pw mw pr mr u S G \<Longrightarrow> told mw' = told mw \<Longrightarrow> flow h pw mw' pr mr u S G"
  by (simp add: flow_def reports_def)

lemma flush_sides:
  assumes "sides h h' k q mi mo out inn e"
  shows "sides h h' k q mi mo out inn (flush e) \<and> pending (outq (flush e)) = [] \<and> inq (flush e) = inq e"
proof -
  have l: "state (me e) = Active" "out_pipe (me e) \<noteq> None" using assms by (auto simp: sides_def ends_joined_def)
  show ?thesis
  proof (cases "pending (outq e) = []")
    case True
    with assms l show ?thesis by (simp add: flush_def u_flush_def)
  next
    case False
    define v where "v = (outq e)\<lparr>ready := ready (outq e) @ pending (outq e), pending := [], asleep := False\<rparr>"
    let ?cs = "if asleep (outq e) then cmds e @ [Activate_read] else cmds e"
    have e': "flush e = e\<lparr>outq := v, cmds := ?cs\<rparr>" using False l by (auto simp: flush_def u_flush_def send_cmd_def v_def)
    have s: "flow h (me e) mi q (mo @ cmds e) (outq e) (fst out) (snd out)" "flow h' q (mo @ cmds e) (me e) mi (inq e) (fst inn) (snd inn)"
      "list_all quiet (cmds e)" "ends_joined k (me e)" using assms by (simp_all add: sides_def)
    have "\<not> in_active q \<longrightarrow> asleep (outq e) \<or> Activate_read \<in> set (mo @ cmds e)" using s(1) by (simp add: flow_def)
    then have "flow h (me e) mi q (mo @ ?cs) v (fst out) (snd out)"
      by (intro flow_queue[OF s(1)]) (auto simp: v_def all_items_def uq_def)
    moreover have "flow h' q (mo @ ?cs) (me e) mi (inq e) (fst inn) (snd inn)" by (rule flow_reports[OF s(2)]) simp
    ultimately show ?thesis using s(3,4) by (simp add: e' sides_def v_def quiet_def)
  qed
qed

text \<open>When the reader reports, in natural numbers.\<close>

lemma report_due:
  assumes "n < 2 ^ 64" "0 < l" "l < 2 ^ 31"
  shows "(of_nat n :: u64) mod of_int l = 0 \<longleftrightarrow> n mod nat l = 0"
proof -
  have "unat (of_int l :: u64) = nat l" using assms(2,3) by (simp add: unsigned_of_int take_bit_int_eq_self)
  moreover have "unat (of_nat n :: u64) = n" using assms(1) by (simp add: unat_of_nat)
  ultimately show ?thesis using unat_mod_distrib[of "of_nat n :: u64" "of_int l"] by (metis unat_0 unat_eq_zero)
qed

lemma lwm_pos: "compute_lwm h > 0 \<longleftrightarrow> h > 0"
  by (auto simp: compute_lwm_def signed_divide_int_def sgn_if)

lemma multiple_Suc: "Suc g mod l \<noteq> 0 \<Longrightarrow> Suc g - Suc g mod l = g - g mod (l :: nat)"
  by (simp add: mod_Suc split: if_splits)

lemma read_msg:
  assumes "ready u = Msg m # xs" "w_flags m \<in> {0, 1}"
  shows "read_loop u = (Some (Msg m), u\<lparr>ready := xs\<rparr>)"
  using assms(1) plain_flags(3)[OF assms(2)] by (simp add: read_loop.simps[of u] u_read_def)

text \<open>A message leaves the queue, and the reader reports when it has read another multiple of its low water mark.\<close>

lemma flow_read:
  assumes "flow h pw mw pr mr u S G" "h < 2 ^ 31" "ready u = x # xs"
  shows "\<exists>m. x = Msg m \<and> w_flags m \<in> {0, 1} \<and> (let n = whole (G @ [m]); pr' = (if has_more (Msg m) then pr else pr\<lparr>msgs_read := msgs_read pr + 1\<rparr>) in
    flow h pw (if lwm pr > 0 \<and> msgs_read pr' mod of_int (lwm pr) = 0 then mw @ [Activate_write (msgs_read pr')] else mw) pr' mr (u\<lparr>ready := xs\<rparr>) S (G @ [m]))"
proof -
  have f: "map Msg S = map Msg G @ all_items u" "list_all (\<lambda>m. w_flags m \<in> {0, 1}) S" "msgs_read pr = of_nat (whole G)" "lwm pr = compute_lwm h"
    using assms(1) by (simp_all add: flow_def)
  have "x \<in> set (map Msg S)" unfolding f(1) using assms(3) by (simp add: all_items_def)
  then obtain m where m: "x = Msg m" "m \<in> set S" by auto
  then have fm: "w_flags m \<in> {0, 1}" using f(2) by (auto simp: list_all_iff)
  let ?pr = "if has_more (Msg m) then pr else pr\<lparr>msgs_read := msgs_read pr + 1\<rparr>" and ?n = "whole (G @ [m])" and ?v = "u\<lparr>ready := xs\<rparr>"
  have r: "msgs_read ?pr = of_nat ?n" using f(3) by simp
  have al: "map Msg S = map Msg (G @ [m]) @ all_items ?v" using f(1) assms(3) m(1) by (simp add: all_items_def)
  have "?n \<le> whole S" using arg_cong[OF al, of "\<lambda>xs. length (filter (\<lambda>x. \<not> has_more x) xs)"] by (simp add: whole_def filter_map o_def split: if_splits)
  then have n: "?n < 2 ^ 64" using flow_counts(2)[OF assms(1)] by simp
  define mw' where "mw' = (if lwm pr > 0 \<and> msgs_read ?pr mod of_int (lwm pr) = 0 then mw @ [Activate_write (msgs_read ?pr)] else mw)"
  have rep: "sorted (map unat (reports pw mw')) \<and> unat (last (reports pw mw')) = ?n - ?n mod nat (compute_lwm h)" if h: "h > 0"
  proof -
    let ?l = "nat (compute_lwm h)"
    have l: "0 < compute_lwm h" "compute_lwm h < 2 ^ 31" using lwm_bounds[OF h] assms(2) by auto
    have old: "sorted (map unat (reports pw mw))" "unat (last (reports pw mw)) = whole G - whole G mod ?l" using assms(1) h by (simp_all add: flow_def)
    have due: "msgs_read ?pr mod of_int (lwm pr) = 0 \<longleftrightarrow> ?n mod ?l = 0" unfolding r f(4) by (rule report_due[OF n l])
    show ?thesis
    proof (cases "?n mod ?l = 0")
      case True
      then have mw': "mw' = mw @ [Activate_write (of_nat ?n)]" using due l(1) f(4) r by (simp add: mw'_def)
      have u: "unat (of_nat ?n :: u64) = ?n" using n by (subst unat_of_nat) (simp del: whole_simps)
      have "\<forall>x\<in>set (map unat (reports pw mw)). x \<le> ?n"
      proof
        fix x assume "x \<in> set (map unat (reports pw mw))"
        moreover have "reports pw mw \<noteq> []" by (simp add: reports_def)
        ultimately have "x \<le> last (map unat (reports pw mw))" using old(1) sorted_last
          by (metis append.right_neutral in_set_conv_decomp last_appendR list.distinct(1) sorted_append)
        then show "x \<le> ?n" using old(2) \<open>reports pw mw \<noteq> []\<close> by (simp add: last_map)
      qed
      then show ?thesis using old(1) True u by (simp add: mw' reports_def sorted_append del: whole_simps)
    next
      case False
      then have "mw' = mw" using due by (simp add: mw'_def)
      moreover have "?n - ?n mod ?l = whole G - whole G mod ?l" using False multiple_Suc[of "whole G" ?l] by auto
      ultimately show ?thesis using old by simp
    qed
  qed
  have "flow h pw mw' ?pr mr ?v S (G @ [m])"
    using assms(1,3) al rep r unfolding flow_def by (auto simp: uq_def)
  with m(1) fm show ?thesis by (auto simp: Let_def mw'_def)
qed

lemma flow_writer_reads: "flow h p mi q mo u S G \<Longrightarrow> flow h (p\<lparr>msgs_read := x\<rparr>) mi q mo u S G" "flow h p mi q mo u S G \<Longrightarrow> flow h (p\<lparr>in_active := b\<rparr>) mi q mo u S G"
  by (simp_all add: flow_def reports_def)

lemma read_sides:
  assumes "sides h h' k q mi mo out inn e" "h' < 2 ^ 31"
  shows "\<exists>r e'. pipe_read e = Inr (r, e') \<and> outq e' = outq e \<and> pending (inq e') = pending (inq e) \<and>
    sides h h' k q mi mo out (case r of None \<Rightarrow> inn | Some m \<Rightarrow> (fst inn, snd inn @ [m])) e' \<and>
    (r \<noteq> None \<longleftrightarrow> in_active (me e) \<and> ready (inq e) \<noteq> []) \<and> (\<forall>m. r = Some m \<longrightarrow> hd (ready (inq e)) = Msg m)"
proof -
  have s: "flow h (me e) mi q (mo @ cmds e) (outq e) (fst out) (snd out)" "flow h' q (mo @ cmds e) (me e) mi (inq e) (fst inn) (snd inn)"
    "list_all quiet (cmds e)" "ends_joined k (me e)" using assms(1) by (simp_all add: sides_def)
  have st: "state (me e) = Active" using s(4) by (simp add: ends_joined_def)
  consider "\<not> in_active (me e)" | "in_active (me e)" "ready (inq e) = []" | x xs where "in_active (me e)" "ready (inq e) = x # xs" by (cases "ready (inq e)") auto
  then show ?thesis
  proof cases
    case 1
    then show ?thesis using assms(1) by (auto simp: pipe_read_def may_read_def)
  next
    case 2
    let ?e = "e\<lparr>me := (me e)\<lparr>in_active := False\<rparr>, inq := (inq e)\<lparr>asleep := True\<rparr>\<rparr>"
    have "read_loop (inq e) = (None, (inq e)\<lparr>asleep := True\<rparr>)" using 2 by (simp add: read_loop.simps[of "inq e"] u_read_def)
    then have r: "pipe_read e = Inr (None, ?e)" using 2 st by (simp add: pipe_read_def may_read_def upd_me_def)
    have "flow h' q (mo @ cmds e) ((me e)\<lparr>in_active := False\<rparr>) mi ((inq e)\<lparr>asleep := True\<rparr>) (fst inn) (snd inn)"
      using s(2) 2 by (simp add: flow_def all_items_def uq_def)
    then have "sides h h' k q mi mo out inn ?e" using s flow_writer_reads(2)[OF s(1)] by (simp add: sides_def ends_joined_def)
    with r 2 show ?thesis by (intro exI[of _ None] exI[of _ ?e]) simp
  next
    case 3
    from flow_read[OF s(2) assms(2) 3(2)] obtain m where m: "x = Msg m" "w_flags m \<in> {0, 1}" and
      fr: "let pr' = (if has_more (Msg m) then me e else (me e)\<lparr>msgs_read := msgs_read (me e) + 1\<rparr>) in
        flow h' q (if lwm (me e) > 0 \<and> msgs_read pr' mod of_int (lwm (me e)) = 0 then (mo @ cmds e) @ [Activate_write (msgs_read pr')] else mo @ cmds e) pr' mi
          ((inq e)\<lparr>ready := xs\<rparr>) (fst inn) (snd inn @ [m])" by (auto simp: Let_def)
    define p where "p = (if has_more (Msg m) then me e else (me e)\<lparr>msgs_read := msgs_read (me e) + 1\<rparr>)"
    define cs where "cs = (if lwm (me e) > 0 \<and> msgs_read p mod of_int (lwm (me e)) = 0 then [Activate_write (msgs_read p)] else [])"
    let ?e = "e\<lparr>me := p, inq := (inq e)\<lparr>ready := xs\<rparr>, cmds := cmds e @ cs\<rparr>"
    have rl: "read_loop (inq e) = (Some (Msg m), (inq e)\<lparr>ready := xs\<rparr>)" using read_msg[of "inq e" m xs] 3(2) m by simp
    have r: "pipe_read e = Inr (Some m, ?e)"
      unfolding pipe_read_def rl using 3(1) st plain_flags(2)[OF m(2)] by (auto simp: may_read_def p_def cs_def upd_me_def send_cmd_def Let_def)
    have "lwm p = lwm (me e)" by (simp add: p_def)
    then have "flow h' q (mo @ cmds e @ cs) p mi ((inq e)\<lparr>ready := xs\<rparr>) (fst inn) (snd inn @ [m])"
      using fr by (cases "lwm (me e) > 0 \<and> msgs_read p mod of_int (lwm (me e)) = 0")
        (simp_all only: cs_def if_True if_False Let_def p_def[symmetric] append_assoc append_Nil2 simp_thms)
    moreover have "flow h p mi q (mo @ cmds e @ cs) (outq e) (fst out) (snd out)"
    proof -
      have "flow h p mi q (mo @ cmds e) (outq e) (fst out) (snd out)" using flow_writer_reads(1)[OF s(1)] s(1) by (simp add: p_def)
      then show ?thesis by (auto simp: flow_def)
    qed
    ultimately have "sides h h' k q mi mo out (fst inn, snd inn @ [m]) ?e"
      using s(3,4) by (auto simp: sides_def ends_joined_def p_def cs_def quiet_def)
    with r 3 m(1) show ?thesis by (intro exI[of _ "Some m"] exI[of _ ?e]) simp
  qed
qed

lemma check_read_sides:
  assumes "sides h h' k q mi mo out inn e"
  shows "\<exists>b e'. check_read e = Inr (b, e') \<and> outq e' = outq e \<and> pending (inq e') = pending (inq e) \<and> sides h h' k q mi mo out inn e'"
proof -
  have s: "flow h (me e) mi q (mo @ cmds e) (outq e) (fst out) (snd out)" "flow h' q (mo @ cmds e) (me e) mi (inq e) (fst inn) (snd inn)"
    "list_all quiet (cmds e)" "ends_joined k (me e)" using assms(1) by (simp_all add: sides_def)
  have st: "state (me e) = Active" using s(4) by (simp add: ends_joined_def)
  consider "\<not> in_active (me e)" | "in_active (me e)" "ready (inq e) = []" | x xs where "in_active (me e)" "ready (inq e) = x # xs" by (cases "ready (inq e)") auto
  then show ?thesis
  proof cases
    case 1
    then show ?thesis using assms(1) by (auto simp: check_read_def may_read_def)
  next
    case 2
    let ?e = "e\<lparr>me := (me e)\<lparr>in_active := False\<rparr>, inq := (inq e)\<lparr>asleep := True\<rparr>\<rparr>"
    have r: "check_read e = Inr (False, ?e)" using 2 st by (simp add: check_read_def may_read_def upd_me_def u_check_read_def)
    have "flow h' q (mo @ cmds e) ((me e)\<lparr>in_active := False\<rparr>) mi ((inq e)\<lparr>asleep := True\<rparr>) (fst inn) (snd inn)"
      using s(2) 2 by (simp add: flow_def all_items_def uq_def)
    then have "sides h h' k q mi mo out inn ?e" using s flow_writer_reads(2)[OF s(1)] by (simp add: sides_def ends_joined_def)
    with r show ?thesis by (intro exI[of _ False] exI[of _ ?e]) simp
  next
    case 3
    have "map Msg (fst inn) = map Msg (snd inn) @ all_items (inq e)" using s(2) by (simp add: flow_def)
    then have "x \<in> set (map Msg (fst inn))" using 3 by (simp add: all_items_def)
    then have "x \<noteq> Delimiter" by auto
    then have "check_read e = Inr (True, e)" using 3 st by (simp add: check_read_def may_read_def u_check_read_def)
    with assms show ?thesis by auto
  qed
qed

text \<open>Commands.\<close>

lemma handle_sides:
  assumes "sides h h' k q (c # mi) mo out inn e" "quiet c"
  shows "\<exists>e'. handle c e = Inr e' \<and> outq e' = outq e \<and> inq e' = inq e \<and> cmds e' = cmds e \<and> sides h h' k q mi mo out inn e'"
proof -
  have s: "flow h (me e) (c # mi) q (mo @ cmds e) (outq e) (fst out) (snd out)" "flow h' q (mo @ cmds e) (me e) (c # mi) (inq e) (fst inn) (snd inn)"
    "list_all quiet (cmds e)" "ends_joined k (me e)" using assms(1) by (simp_all add: sides_def)
  have st: "state (me e) = Active" using s(4) by (simp add: ends_joined_def)
  from assms(2) consider "c = Activate_read" | n where "c = Activate_write n" by (auto simp: quiet_def)
  then show ?thesis
  proof cases
    case 1
    let ?e = "process_activate_read e"
    have m: "me ?e = (me e)\<lparr>in_active := True\<rparr>" "outq ?e = outq e" "inq ?e = inq e" "cmds ?e = cmds e"
      using st by (auto simp: process_activate_read_def upd_me_def notify_def)
    have "flow h (me ?e) mi q (mo @ cmds e) (outq e) (fst out) (snd out)"
      unfolding m(1) by (rule flow_writer_reads(2), rule flow_reports[OF s(1)]) (simp add: 1)
    moreover have "flow h' q (mo @ cmds e) (me ?e) mi (inq e) (fst inn) (snd inn)" using s(2) by (simp add: m(1) flow_def)
    ultimately show ?thesis using 1 m s(3,4) by (intro exI[of _ ?e]) (simp add: sides_def ends_joined_def)
  next
    case 2
    let ?e = "process_activate_write n e"
    have m: "me ?e = (me e)\<lparr>peers_msgs_read := n, out_active := True\<rparr>" "outq ?e = outq e" "inq ?e = inq e" "cmds ?e = cmds e"
      using st by (auto simp: process_activate_write_def upd_me_def notify_def Let_def)
    have "flow h (me ?e) mi q (mo @ cmds e) (outq e) (fst out) (snd out)"
      using s(1) by (auto simp: m(1) flow_def reports_def 2)
    moreover have "flow h' q (mo @ cmds e) (me ?e) mi (inq e) (fst inn) (snd inn)" using s(2) by (simp add: m(1) flow_def 2)
    ultimately show ?thesis using 2 m s(3,4) by (intro exI[of _ ?e]) (simp add: sides_def ends_joined_def)
  qed
qed

section \<open>The channel\<close>

text \<open>The store around one end that is being worked on.\<close>

definition around :: "(pid \<Rightarrow> int) \<Rightarrow> chan \<Rightarrow> world \<Rightarrow> pid \<Rightarrow> pipe_t \<Rightarrow> bool" where
  "around h c w k q \<longleftrightarrow> k \<in> {0, 1} \<and> (\<forall>i\<in>{0, 1}. socks c i = \<lparr>pr_pipe = Some i\<rparr>) \<and> pipes w (1 - k) = Some q \<and> ends_joined (1 - k) q \<and>
     list_all quiet (mail w 0) \<and> list_all quiet (mail w 1) \<and> (\<forall>i. i \<notin> {0, 1} \<longrightarrow> mail w i = [])"

abbreviation chan_sides :: "(pid \<Rightarrow> int) \<Rightarrow> pid \<Rightarrow> pipe_t \<Rightarrow> world \<Rightarrow> chan \<Rightarrow> endp \<Rightarrow> bool" where
  "chan_sides h k q w c \<equiv> sides (h k) (h (1 - k)) k q (mail w k) (mail w (1 - k)) (sent c k, got c (1 - k)) (sent c (1 - k), got c k)"

lemma chan_load:
  assumes "chan_ok h c" "k \<in> {0, 1}"
  obtains e q where "load_end k (net c) = Inr e" "cmds e = []" "around h c (net c) k q" "chan_sides h k q (net c) c e"
    "queues (net c) k = Some (inq e)" "queues (net c) (1 - k) = Some (outq e)"
proof -
  from assms(1) obtain p u where o: "\<forall>k\<in>{0, 1}. socks c k = \<lparr>pr_pipe = Some k\<rparr> \<and> pipes (net c) k = Some (p k) \<and> queues (net c) k = Some (u k) \<and> ends_joined k (p k) \<and>
       list_all quiet (mail (net c) k) \<and>
       flow (h k) (p k) (mail (net c) k) (p (1 - k)) (mail (net c) (1 - k)) (u (1 - k)) (sent c k) (got c (1 - k))"
    "\<forall>k. k \<notin> {0, 1} \<longrightarrow> mail (net c) k = []" unfolding chan_ok_def by blast
  let ?e = "\<lparr>me = p k, inq = u k, outq = u (1 - k), cmds = [], evs = []\<rparr>"
  have k: "1 - k \<in> {0, 1}" "1 - (1 - k) = k" using assms(2) by auto
  note a = bspec[OF o(1) assms(2)] and b = bspec[OF o(1) k(1), unfolded k(2)]
  have "load_end k (net c) = Inr ?e" using a b by (simp add: load_end_def ends_joined_def)
  moreover have "around h c (net c) k (p (1 - k))" using o assms(2) b by (simp add: around_def)
  moreover have "chan_sides h k (p (1 - k)) (net c) c ?e" using a b by (simp add: sides_def)
  ultimately show thesis using a b by (intro that[of ?e "p (1 - k)"]) simp_all
qed

lemma chan_store:
  assumes "load_end k w = Inr e" "around h c w k q" "ends_joined k (me e)"
    "sides (h k) (h (1 - k)) k q (mail w k) (mail w (1 - k)) (S, got c (1 - k)) (sent c (1 - k), G) e'"
  shows "\<exists>w'. store_end k e e' w = Inr w' \<and> chan_ok h (c\<lparr>net := w', sent := (sent c)(k := S), got := (got c)(k := G)\<rparr>) \<and>
    queues w' k = Some (inq e') \<and> queues w' (1 - k) = Some (outq e')"
proof -
  have k: "k \<in> {0, 1}" "1 - (1 - k) = k" "k \<noteq> 1 - k" using assms(2) by (auto simp: around_def)
  let ?w = "w\<lparr>pipes := (pipes w)(k \<mapsto> me e'), queues := (queues w)(1 - k \<mapsto> outq e', k \<mapsto> inq e'),
    mail := (mail w)(1 - k := mail w (1 - k) @ cmds e'), events := events w @ map (Pair k) (evs e')\<rparr>"
  have st: "store_end k e e' w = Inr ?w" using assms(2,3) by (simp add: store_end_def ends_joined_def around_def)
  let ?c = "c\<lparr>net := ?w, sent := (sent c)(k := S), got := (got c)(k := G)\<rparr>"
  let ?p = "\<lambda>i. if i = k then me e' else q" and ?u = "\<lambda>i. if i = k then inq e' else outq e'"
  have "socks ?c i = \<lparr>pr_pipe = Some i\<rparr> \<and> pipes (net ?c) i = Some (?p i) \<and> queues (net ?c) i = Some (?u i) \<and> ends_joined i (?p i) \<and>
       list_all quiet (mail (net ?c) i) \<and>
       flow (h i) (?p i) (mail (net ?c) i) (?p (1 - i)) (mail (net ?c) (1 - i)) (?u (1 - i)) (sent ?c i) (got ?c (1 - i))" if "i \<in> {0, 1}" for i
  proof -
    have "i = k \<or> i = 1 - k" using that k(1) by auto
    then show ?thesis using assms(2,4) k(2,3) that k(1) by (auto simp: around_def sides_def)
  qed
  moreover have "\<forall>i. i \<notin> {0, 1} \<longrightarrow> mail ?w i = []" using assms(2) k(1) by (auto simp: around_def)
  ultimately have "chan_ok h ?c" unfolding chan_ok_def by (intro exI[of _ ?p] exI[of _ ?u]) auto
  with st k(3) show ?thesis by simp
qed

text \<open>Between the calls of the users nothing waits to be flushed.\<close>

definition settled :: "chan \<Rightarrow> bool" where
  "settled c \<longleftrightarrow> (\<forall>k\<in>{0, 1}. \<forall>u. queues (net c) k = Some u \<longrightarrow> pending u = [])"

lemma settledI: "k \<in> {0, 1} \<Longrightarrow> queues (net c) k = Some u \<Longrightarrow> queues (net c) (1 - k) = Some v \<Longrightarrow> pending u = [] \<Longrightarrow> pending v = [] \<Longrightarrow> settled c"
  by (auto simp: settled_def)

lemma settledD: "settled c \<Longrightarrow> k \<in> {0, 1} \<Longrightarrow> queues (net c) k = Some u \<Longrightarrow> pending u = []"
  by (auto simp: settled_def)

lemma chan_same: "c\<lparr>net := w, sent := (sent c)(k := sent c k), got := (got c)(k := got c k)\<rparr> = c\<lparr>net := w\<rparr>"
  by simp

lemma sides_linked: "sides h h' k q mi mo out inn e \<Longrightarrow> ends_joined k (me e)" by (simp add: sides_def)

lemma sock_of: "chan_ok h c \<Longrightarrow> k \<in> {0, 1} \<Longrightarrow> pr_pipe (socks c k) = Some k"
  by (auto simp: chan_ok_def)

lemma flush_chan:
  assumes "chan_ok h c" "k \<in> {0, 1}" "queues (net c) k = Some u" "pending u = []"
  shows "\<exists>w. w_flush k (net c) = Inr w \<and> chan_ok h (c\<lparr>net := w\<rparr>) \<and> settled (c\<lparr>net := w\<rparr>)"
proof -
  obtain e q where l: "load_end k (net c) = Inr e" "around h c (net c) k q" "chan_sides h k q (net c) c e" "queues (net c) k = Some (inq e)"
    by (rule chan_load[OF assms(1,2)]) (rule that)
  note f = flush_sides[OF l(3)]
  from chan_store[OF l(1,2) sides_linked[OF l(3)] conjunct1[OF f]] obtain w where w: "store_end k e (flush e) (net c) = Inr w"
    "chan_ok h (c\<lparr>net := w, sent := (sent c)(k := sent c k), got := (got c)(k := got c k)\<rparr>)" "queues w k = Some (inq (flush e))" "queues w (1 - k) = Some (outq (flush e))" by blast
  have "settled (c\<lparr>net := w\<rparr>)" using f w(3,4) l(4) assms(3,4) by (intro settledI[OF assms(2), of _ "inq (flush e)" "outq (flush e)"]) simp_all
  with w(1,2) l(1) show ?thesis by (simp add: w_flush_def call_def)
qed

lemma send_chan:
  assumes "chan_ok h c" "settled c" "k \<in> {0, 1}" "h k < 2 ^ 31" "w_flags m \<in> {0, 1}" "length (sent c k) + 1 < 2 ^ 64"
  shows "\<exists>ok w. pair_send w_write w_flush m (socks c k) (net c) = Inr (ok, w) \<and>
    (let c' = c\<lparr>net := w, sent := (if ok then (sent c)(k := sent c k @ [m]) else sent c)\<rparr> in chan_ok h c' \<and> settled c') \<and>
    (\<forall>e. load_end k (net c) = Inr e \<longrightarrow> ok = check_hwm e)"
proof -
  obtain e q where l: "load_end k (net c) = Inr e" "around h c (net c) k q" "chan_sides h k q (net c) c e" "queues (net c) k = Some (inq e)"
    "queues (net c) (1 - k) = Some (outq e)" by (rule chan_load[OF assms(1,3)]) (rule that)
  have k: "1 - k \<in> {0, 1}" using assms(3) by auto
  have pe: "pending (inq e) = []" "pending (outq e) = []" using settledD[OF assms(2,3) l(4)] settledD[OF assms(2) k l(5)] .
  from write_sides[OF l(3) assms(4,5)] assms(6) obtain ok e' where w: "pipe_write m e = Inr (ok, e')"
    "sides (h k) (h (1 - k)) k q (mail (net c) k) (mail (net c) (1 - k)) (if ok then sent c k @ [m] else sent c k, got c (1 - k)) (sent c (1 - k), got c k) e'"
    "inq e' = inq e" "\<not> ok \<or> has_more (Msg m) \<longrightarrow> pending (outq e') = pending (outq e)" "ok = check_hwm e" by (auto split: if_splits)
  from chan_store[OF l(1,2) sides_linked[OF l(3)] w(2)] obtain w1 where w1: "store_end k e e' (net c) = Inr w1"
    "chan_ok h (c\<lparr>net := w1, sent := (sent c)(k := (if ok then sent c k @ [m] else sent c k)), got := (got c)(k := got c k)\<rparr>)"
    "queues w1 k = Some (inq e')" "queues w1 (1 - k) = Some (outq e')" by blast
  let ?c = "\<lambda>w. c\<lparr>net := w, sent := (if ok then (sent c)(k := sent c k @ [m]) else sent c)\<rparr>"
  have c1: "chan_ok h (?c w1)" using w1(2) by (cases ok) simp_all
  have wr: "w_write k m (net c) = Inr (ok, w1)" using l(1) w(1) w1(1) by (simp add: w_write_def call_val_def)
  note pr = sock_of[OF assms(1,3)]
  show ?thesis
  proof (cases "ok \<and> \<not> has_more (Msg m)")
    case True
    have "(?c w1)\<lparr>net := w\<rparr> = ?c w" for w by (cases c) simp
    with flush_chan[OF c1 assms(3), of "inq e'"] w1(3) w(3) pe(1) obtain w2 where w2: "w_flush k w1 = Inr w2" "chan_ok h (?c w2)" "settled (?c w2)" by auto
    with True wr pr l(1) w(5) show ?thesis by (intro exI[of _ True] exI[of _ w2]) (simp add: pair_send_def)
  next
    case False
    have "settled (?c w1)" using w1(3,4) w(3,4) pe False by (intro settledI[OF assms(3), of _ "inq e'" "outq e'"]) auto
    with False wr pr c1 l(1) w(5) show ?thesis by (intro exI[of _ ok] exI[of _ w1]) (auto simp: pair_send_def)
  qed
qed

lemma recv_chan:
  assumes "chan_ok h c" "settled c" "k \<in> {0, 1}" "h (1 - k) < 2 ^ 31"
  shows "\<exists>r w. pair_recv w_read (socks c k) (net c) = Inr (r, w) \<and>
    (let c' = c\<lparr>net := w, got := (case r of None \<Rightarrow> got c | Some m \<Rightarrow> (got c)(k := got c k @ [m]))\<rparr> in chan_ok h c' \<and> settled c') \<and>
    (\<forall>e. load_end k (net c) = Inr e \<longrightarrow> (r \<noteq> None \<longleftrightarrow> in_active (me e) \<and> ready (inq e) \<noteq> []))"
proof -
  obtain e q where l: "load_end k (net c) = Inr e" "around h c (net c) k q" "chan_sides h k q (net c) c e" "queues (net c) k = Some (inq e)"
    "queues (net c) (1 - k) = Some (outq e)" by (rule chan_load[OF assms(1,3)]) (rule that)
  have k: "1 - k \<in> {0, 1}" using assms(3) by auto
  have pe: "pending (inq e) = []" "pending (outq e) = []" using settledD[OF assms(2,3) l(4)] settledD[OF assms(2) k l(5)] .
  from read_sides[OF l(3) assms(4)] obtain r e' where r: "pipe_read e = Inr (r, e')" "outq e' = outq e" "pending (inq e') = pending (inq e)"
    "sides (h k) (h (1 - k)) k q (mail (net c) k) (mail (net c) (1 - k)) (sent c k, got c (1 - k)) (sent c (1 - k), case r of None \<Rightarrow> got c k | Some m \<Rightarrow> got c k @ [m]) e'"
    "r \<noteq> None \<longleftrightarrow> in_active (me e) \<and> ready (inq e) \<noteq> []" by (auto split: option.splits)
  from chan_store[OF l(1,2) sides_linked[OF l(3)] r(4)] obtain w where w: "store_end k e e' (net c) = Inr w"
    "chan_ok h (c\<lparr>net := w, sent := (sent c)(k := sent c k), got := (got c)(k := case r of None \<Rightarrow> got c k | Some m \<Rightarrow> got c k @ [m])\<rparr>)"
    "queues w k = Some (inq e')" "queues w (1 - k) = Some (outq e')" by blast
  let ?c = "c\<lparr>net := w, got := (case r of None \<Rightarrow> got c | Some m \<Rightarrow> (got c)(k := got c k @ [m]))\<rparr>"
  have "chan_ok h ?c" using w(2) by (cases r) simp_all
  moreover have "settled ?c" using w(3,4) r(2,3) pe by (intro settledI[OF assms(3), of _ "inq e'" "outq e'"]) simp_all
  moreover have "pair_recv w_read (socks c k) (net c) = Inr (r, w)" using sock_of[OF assms(1,3)] l(1) r(1) w(1) by (simp add: pair_recv_def w_read_def call_val_def)
  ultimately show ?thesis using l(1) r(5) by (intro exI[of _ r] exI[of _ w]) simp
qed

text \<open>A call that leaves both directions as they are.\<close>

lemma poll_chan:
  assumes "chan_ok h c" "settled c" "k \<in> {0, 1}"
    and f: "\<And>q e. chan_sides h k q (net c) c e \<Longrightarrow> \<exists>b e'. f e = Inr (b, e') \<and> chan_sides h k q (net c) c e' \<and> pending (inq e') = pending (inq e) \<and> pending (outq e') = pending (outq e)"
  shows "\<exists>b w. call_val f k (net c) = Inr (b, w) \<and> chan_ok h (c\<lparr>net := w\<rparr>) \<and> settled (c\<lparr>net := w\<rparr>)"
proof -
  obtain e q where l: "load_end k (net c) = Inr e" "around h c (net c) k q" "chan_sides h k q (net c) c e" "queues (net c) k = Some (inq e)"
    "queues (net c) (1 - k) = Some (outq e)" by (rule chan_load[OF assms(1,3)]) (rule that)
  have k: "1 - k \<in> {0, 1}" using assms(3) by auto
  have pe: "pending (inq e) = []" "pending (outq e) = []" using settledD[OF assms(2,3) l(4)] settledD[OF assms(2) k l(5)] .
  from f[OF l(3)] obtain b e' where e': "f e = Inr (b, e')" "chan_sides h k q (net c) c e'" "pending (inq e') = pending (inq e)" "pending (outq e') = pending (outq e)" by blast
  from chan_store[OF l(1,2) sides_linked[OF l(3)] e'(2)] obtain w where w: "store_end k e e' (net c) = Inr w"
    "chan_ok h (c\<lparr>net := w, sent := (sent c)(k := sent c k), got := (got c)(k := got c k)\<rparr>)" "queues w k = Some (inq e')" "queues w (1 - k) = Some (outq e')" by blast
  have "settled (c\<lparr>net := w\<rparr>)" using w(3,4) e'(3,4) pe by (intro settledI[OF assms(3), of _ "inq e'" "outq e'"]) simp_all
  with w(1,2) l(1) e'(1) show ?thesis by (simp add: call_val_def)
qed

lemma deliver_chan:
  assumes "chan_ok h c" "settled c"
  shows "\<exists>w. deliver k (net c) = Inr w \<and> chan_ok h (c\<lparr>net := w\<rparr>) \<and> settled (c\<lparr>net := w\<rparr>)"
proof (cases "mail (net c) k")
  case Nil
  have "c\<lparr>net := net c\<rparr> = c" by simp
  with Nil assms show ?thesis by (simp add: deliver_def)
next
  case (Cons x cs)
  have k: "k \<in> {0, 1}" using assms(1) Cons by (auto simp: chan_ok_def)
  then have k1: "1 - k \<in> {0, 1}" "k \<noteq> 1 - k" by auto
  obtain e q where l: "load_end k (net c) = Inr e" "cmds e = []" "around h c (net c) k q" "chan_sides h k q (net c) c e" "queues (net c) k = Some (inq e)"
    "queues (net c) (1 - k) = Some (outq e)" by (rule chan_load[OF assms(1) k]) (rule that)
  have pe: "pending (inq e) = []" "pending (outq e) = []" using settledD[OF assms(2) k l(5)] settledD[OF assms(2) k1(1) l(6)] .
  have q: "quiet x" "list_all quiet cs" using l(3) k Cons by (auto simp: around_def)
  let ?w = "(net c)\<lparr>mail := (mail (net c))(k := cs)\<rparr>"
  from handle_sides[OF l(4)[unfolded Cons] q(1)] obtain e' where e': "handle x e = Inr e'" "outq e' = outq e" "inq e' = inq e"
    "sides (h k) (h (1 - k)) k q cs (mail (net c) (1 - k)) (sent c k, got c (1 - k)) (sent c (1 - k), got c k) e'" by blast
  have a: "around h c ?w k q" using l(3) q(2) k by (auto simp: around_def)
  have l1: "load_end k ?w = Inr e" using l(1) by (simp add: load_end_def cong: option.case_cong)
  from chan_store[OF l1 a sides_linked[OF l(4)], of "sent c k" "got c k" e'] e'(4) k1(2) obtain w where w: "store_end k e e' ?w = Inr w"
    "chan_ok h (c\<lparr>net := w\<rparr>)" "queues w k = Some (inq e')" "queues w (1 - k) = Some (outq e')" by auto
  have "clean_up x k e w = w" using q(1) by (auto simp: quiet_def)
  then have "deliver k (net c) = Inr w" using Cons l1 e'(1) w(1) by (simp add: deliver_def Let_def)
  moreover have "settled (c\<lparr>net := w\<rparr>)" using w(3,4) e'(2,3) pe by (intro settledI[OF k, of _ "inq e'" "outq e'"]) simp_all
  ultimately show ?thesis using w(2) by blast
qed

definition chan_inv :: "(pid \<Rightarrow> int) \<Rightarrow> chan \<Rightarrow> bool" where
  "chan_inv h c \<longleftrightarrow> chan_ok h c \<and> settled c \<and> (\<forall>k\<in>{0, 1}. h k < 2 ^ 31)"

lemma chan_step_ok:
  assumes "chan_inv h c" "chan_may x c"
  shows "\<exists>c'. chan_step x c = Inr ((), c') \<and> chan_inv h c'"
proof -
  have o: "chan_ok h c" "settled c" and hb: "\<forall>k\<in>{0, 1}. h k < 2 ^ 31" using assms(1) by (simp_all add: chan_inv_def)
  have hk: "h k < 2 ^ 31" "h (1 - k) < 2 ^ 31" if "k \<in> {0, 1}" for k using hb that by auto
  show ?thesis
  proof (cases x)
    case (Send k m)
    with assms(2) have m: "k \<in> {0, 1}" "w_flags m \<in> {0, 1}" "length (sent c k) + 1 < 2 ^ 64" by simp_all
    from send_chan[OF o m(1) hk(1)[OF m(1)] m(2,3)] hb Send show ?thesis by (auto simp: chan_inv_def Let_def)
  next
    case (Recv k)
    with assms(2) have k: "k \<in> {0, 1}" by simp
    from recv_chan[OF o k hk(2)[OF k]] hb Recv show ?thesis by (auto simp: chan_inv_def Let_def)
  next
    case (Poll_in k)
    with assms(2) have k: "k \<in> {0, 1}" by simp
    have "\<exists>b w. call_val check_read k (net c) = Inr (b, w) \<and> chan_ok h (c\<lparr>net := w\<rparr>) \<and> settled (c\<lparr>net := w\<rparr>)"
      by (rule poll_chan[OF o k]) (use check_read_sides in fastforce)
    with Poll_in hb sock_of[OF o(1) k] show ?thesis by (auto simp: chan_inv_def pair_has_in_def w_check_read_def)
  next
    case (Poll_out k)
    with assms(2) have k: "k \<in> {0, 1}" by simp
    have "\<exists>b w. call_val (\<lambda>e. Inr (check_write e)) k (net c) = Inr (b, w) \<and> chan_ok h (c\<lparr>net := w\<rparr>) \<and> settled (c\<lparr>net := w\<rparr>)"
      by (rule poll_chan[OF o k]) (use check_write_sides hk(1)[OF k] in fastforce)
    with Poll_out hb sock_of[OF o(1) k] show ?thesis by (auto simp: chan_inv_def pair_has_out_def w_check_write_def)
  next
    case (Command k)
    with deliver_chan[OF o, of k] hb show ?thesis by (auto simp: chan_inv_def)
  qed
qed

text \<open>The contract of the channel: no call fails, whatever the order of calls and commands.\<close>

interpretation ch: simulation chan_step "\<lambda>_ h. ((), h)" chan_may "\<lambda>c h. chan_inv h c"
  using chan_step_ok by unfold_locales auto

lemma chan_new_inv:
  assumes "h0 < 2 ^ 31" "h1 < 2 ^ 31" "chan_new h0 h1 = Inr c"
  shows "chan_inv (\<lambda>k. if k = 0 then h0 else h1) c"
proof -
  let ?p = "\<lambda>k. if k = 0 then pipe_new 0 1 h1 h0 1 else pipe_new 1 0 h0 h1 0"
  have c: "c = \<lparr>socks = (\<lambda>k. if k = 0 then \<lparr>pr_pipe = Some 0\<rparr> else \<lparr>pr_pipe = Some 1\<rparr>), net = pipepair h0 h1, sent = (\<lambda>_. []), got = (\<lambda>_. [])\<rparr>"
    using assms(3) by (auto simp: chan_new_def pair_attach_pipe_def pair_new_def)
  have "settled c" by (simp add: c settled_def pipepair_def upipe_new_def)
  moreover have "chan_ok (\<lambda>k. if k = 0 then h0 else h1) c"
    unfolding chan_ok_def by (intro exI[of _ ?p] exI[of _ "\<lambda>_. upipe_new"])
      (auto simp: c pipepair_def pipe_new_def ends_joined_def flow_def all_items_def upipe_new_def reports_def uq_def)
  ultimately show ?thesis using assms(1,2) by (simp add: chan_inv_def)
qed

text \<open>What the directions of a channel promise.\<close>

lemma flow_prefix:
  assumes "flow h pw mw pr mr u S G"
  shows "prefix G S" "h > 0 \<Longrightarrow> whole S \<le> whole G + nat h"
proof -
  have "prefix (map Msg G) (map Msg S)" using assms by (simp add: flow_def)
  then show "prefix G S" by (metis (no_types, lifting) append_eq_map_conv inj_map_eq_map injI pmsg.inject prefix_def)
  assume h: "h > 0"
  have "unat (peers_msgs_read pw) \<le> unat (last (reports pw mw))"
    using sorted_last[of "unat (peers_msgs_read pw)" "map unat (told mw)"] assms h by (simp add: flow_def reports_def last_map split: if_splits)
  then show "whole S \<le> whole G + nat h" using assms h by (auto simp: flow_def)
qed

lemma waiting_ready:
  assumes "flow h pw mw pr [] u S G" "pending u = []" "whole G < whole S"
  shows "in_active pr" "ready u \<noteq> []"
proof -
  show r: "ready u \<noteq> []"
  proof
    assume e: "ready u = []"
    have "map Msg S = map Msg G @ partial u" "list_all has_more (partial u)" using assms(1,2) e by (simp_all add: flow_def all_items_def)
    then have "length (filter (\<lambda>x. \<not> has_more x) (map Msg S)) = length (filter (\<lambda>x. \<not> has_more x) (map Msg G))" by (auto simp: list_all_iff filter_empty_conv)
    then show False using assms(3) by (simp add: whole_def filter_map o_def)
  qed
  then show "in_active pr" using assms(1) by (auto simp: flow_def uq_def)
qed

lemma drained_room:
  assumes "flow h pw [] pr mr u S S" "h < 2 ^ 31" "me e = pw"
  shows "check_hwm e"
proof (cases "h > 0")
  case True
  let ?l = "nat (compute_lwm h)"
  have "unat (peers_msgs_read pw) = whole S - whole S mod ?l" using assms(1) True by (simp add: flow_def reports_def)
  moreover have "0 < ?l" "?l \<le> nat h" using lwm_bounds[OF True] by auto
  moreover have "whole S mod ?l < ?l" using \<open>0 < ?l\<close> by simp
  ultimately have "whole S < unat (peers_msgs_read pw) + nat h"
    using mod_less_eq_dividend[of "whole S" ?l] by linarith
  then show ?thesis using check_hwm_nat[OF assms] by auto
next
  case False
  with assms show ?thesis by (simp add: check_hwm_def flow_def)
qed

lemma chan_flow:
  assumes "chan_ok h c" "k \<in> {0, 1}"
  obtains e where "load_end k (net c) = Inr e" "\<exists>pw. flow (h (1 - k)) pw (mail (net c) (1 - k)) (me e) (mail (net c) k) (inq e) (sent c (1 - k)) (got c k)"
    "\<exists>pr. flow (h k) (me e) (mail (net c) k) pr (mail (net c) (1 - k)) (outq e) (sent c k) (got c (1 - k))" "queues (net c) k = Some (inq e)"
proof -
  obtain e q where l: "load_end k (net c) = Inr e" "cmds e = []" "chan_sides h k q (net c) c e" "queues (net c) k = Some (inq e)"
    by (rule chan_load[OF assms]) (rule that)
  then show thesis by (intro that[of e]) (auto simp: sides_def)
qed

lemma chan_prefix:
  assumes "chan_ok h c" "k \<in> {0, 1}"
  shows "prefix (got c k) (sent c (1 - k))" "h (1 - k) > 0 \<Longrightarrow> whole (sent c (1 - k)) \<le> whole (got c k) + nat (h (1 - k))"
proof -
  obtain pw mw pr mr u where "flow (h (1 - k)) pw mw pr mr u (sent c (1 - k)) (got c k)" by (rule chan_flow[OF assms]) blast
  note f = flow_prefix[OF this]
  show "prefix (got c k) (sent c (1 - k))" by (rule f)
  show "h (1 - k) > 0 \<Longrightarrow> whole (sent c (1 - k)) \<le> whole (got c k) + nat (h (1 - k))" by (rule f)
qed

lemma chan_run_inv:
  assumes "h0 < 2 ^ 31" "h1 < 2 ^ 31" "chan_new h0 h1 = Inr c0" "allowed chan_step chan_may xs c0" "run_ops chan_step xs c0 = Inr (rs, c)"
  shows "\<exists>h. chan_inv h c \<and> h 0 = h0 \<and> h 1 = h1"
proof -
  have "snd (spec_run (\<lambda>_ h. ((), h)) xs u) = u" for xs :: "chan_op list" and u :: "pid \<Rightarrow> int" by (induction xs) (simp_all add: case_prod_beta Let_def)
  then show ?thesis using ch.run_sim[OF chan_new_inv[OF assms(1-3)] assms(4)] assms(5)
    by (intro exI[of _ "\<lambda>k. if k = 0 then h0 else h1"]) auto
qed

text \<open>The bound on the number of messages, as the code generator can compare it.\<close>

lemma chan_may_code [code]:
  "chan_may (Send k m) c \<longleftrightarrow> k \<in> {0, 1} \<and> w_flags m \<in> {0, 1} \<and> int (length (sent c k)) + 1 < 2 ^ 64"
  "chan_may (Recv k) c \<longleftrightarrow> k \<in> {0, 1}"
  "chan_may (Poll_in k) c \<longleftrightarrow> k \<in> {0, 1}"
  "chan_may (Poll_out k) c \<longleftrightarrow> k \<in> {0, 1}"
  "chan_may (Command k) c \<longleftrightarrow> True"
  by auto

section \<open>Properties\<close>

text \<open>
  C19. Two PAIR sockets are a reliable and bounded channel: whatever their users send, receive and poll and however the commands between
  the ends are delayed, no assertion fails, what one side has received is a prefix, part by part, of what the other has
  sent, and at most as many whole messages are in the pipe as the high water mark of the sender says.
\<close>
theorem pair_channel_fifo:
  assumes "h0 < 2 ^ 31" "h1 < 2 ^ 31" "chan_new h0 h1 = Inr c0" "allowed chan_step chan_may xs c0"
  shows "\<exists>rs c. run_ops chan_step xs c0 = Inr (rs, c) \<and> prefix (got c 1) (sent c 0) \<and> prefix (got c 0) (sent c 1) \<and>
    (h0 > 0 \<longrightarrow> whole (sent c 0) \<le> whole (got c 1) + nat h0) \<and> (h1 > 0 \<longrightarrow> whole (sent c 1) \<le> whole (got c 0) + nat h1)"
proof -
  from ch.run_never_fails[OF chan_new_inv[OF assms(1-3)] assms(4)] obtain rs c where r: "run_ops chan_step xs c0 = Inr (rs, c)" by auto
  from chan_run_inv[OF assms r] obtain h where h: "chan_ok h c" "h 0 = h0" "h 1 = h1" by (auto simp: chan_inv_def)
  show ?thesis using r chan_prefix[OF h(1), of 0] chan_prefix[OF h(1), of 1] h(2,3) by (simp del: One_nat_def)
qed

theorem pair_channel_fifo_witness:
  "\<exists>rs c. run_ops chan_step [Send 0 \<lparr>w_flags = 0, w_data = [7]\<rparr>, Command 1, Recv 1] (projr (chan_new 1 1)) = Inr (rs, c) \<and>
     prefix (got c 1) (sent c 0) \<and> whole (sent c 0) \<le> whole (got c 1) + 1"
proof -
  have "chan_new 1 1 = Inr (projr (chan_new 1 1))" by (simp add: chan_new_def pair_attach_pipe_def pair_new_def)
  moreover have "allowed chan_step chan_may [Send 0 \<lparr>w_flags = 0, w_data = [7]\<rparr>, Command 1, Recv 1] (projr (chan_new 1 1))"
    by code_simp
  ultimately show ?thesis using pair_channel_fifo[of 1 1] by fastforce
qed

text \<open>
  C20. The channel never gets stuck: when no command is under way, a receive call returns the next part whenever a whole message was sent and
  not yet received, and when everything was received, a send call is accepted. So wake-ups are not lost and the
  flow control, which counts modulo $2^{64}$ and reports only at multiples of the low water mark, does not deadlock.
\<close>
theorem pair_channel_live:
  assumes "h0 < 2 ^ 31" "h1 < 2 ^ 31" "chan_new h0 h1 = Inr c0" "allowed chan_step chan_may xs c0" "run_ops chan_step xs c0 = Inr (rs, c)"
    "mail (net c) 0 = []" "mail (net c) 1 = []" "k \<in> {0, 1}"
  shows "(whole (got c k) < whole (sent c (1 - k)) \<longrightarrow>
      (\<exists>m w. pair_recv w_read (socks c k) (net c) = Inr (Some m, w) \<and> prefix (got c k @ [m]) (sent c (1 - k)))) \<and>
    (got c (1 - k) = sent c k \<and> w_flags m \<in> {0, 1} \<and> length (sent c k) + 1 < 2 ^ 64 \<longrightarrow>
      (\<exists>w. pair_send w_write w_flush m (socks c k) (net c) = Inr (True, w)))"
proof -
  from chan_run_inv[OF assms(1-5)] obtain h where h: "chan_ok h c" "settled c" "\<forall>k\<in>{0, 1}. h k < 2 ^ 31" by (auto simp: chan_inv_def)
  have hk: "h k < 2 ^ 31" "h (1 - k) < 2 ^ 31" "mail (net c) k = []" "mail (net c) (1 - k) = []" using h(3) assms(6-8) by auto
  obtain e where e: "load_end k (net c) = Inr e" "\<exists>pw. flow (h (1 - k)) pw (mail (net c) (1 - k)) (me e) (mail (net c) k) (inq e) (sent c (1 - k)) (got c k)"
    "\<exists>pr. flow (h k) (me e) (mail (net c) k) pr (mail (net c) (1 - k)) (outq e) (sent c k) (got c (1 - k))" "queues (net c) k = Some (inq e)"
    by (rule chan_flow[OF h(1) assms(8)]) (rule that)
  note pe = settledD[OF h(2) assms(8) e(4)]
  have "\<exists>m w. pair_recv w_read (socks c k) (net c) = Inr (Some m, w) \<and> prefix (got c k @ [m]) (sent c (1 - k))"
    if wt: "whole (got c k) < whole (sent c (1 - k))"
  proof -
    from e(2) obtain pw where "flow (h (1 - k)) pw (mail (net c) (1 - k)) (me e) [] (inq e) (sent c (1 - k)) (got c k)" using hk(3) by auto
    from waiting_ready[OF this pe wt] recv_chan[OF h(1,2) assms(8) hk(2)] e(1) obtain m w where
      r: "pair_recv w_read (socks c k) (net c) = Inr (Some m, w)" and c': "chan_ok h (c\<lparr>net := w, got := (got c)(k := got c k @ [m])\<rparr>)" by (fastforce simp: Let_def)
    then show ?thesis using chan_prefix(1)[OF c' assms(8)] by auto
  qed
  moreover have "\<exists>w. pair_send w_write w_flush m (socks c k) (net c) = Inr (True, w)"
    if g: "got c (1 - k) = sent c k \<and> w_flags m \<in> {0, 1} \<and> length (sent c k) + 1 < 2 ^ 64"
  proof -
    from e(3) g obtain pr where "flow (h k) (me e) [] pr (mail (net c) (1 - k)) (outq e) (sent c k) (sent c k)" using hk(3) by auto
    from drained_room[OF this hk(1) refl] have "check_hwm e" .
    with send_chan[OF h(1,2) assms(8) hk(1)] g e(1) show ?thesis by metis
  qed
  ultimately show ?thesis by blast
qed

theorem pair_channel_live_witness:
  "let c = snd (projr (run_ops chan_step [Send 0 \<lparr>w_flags = 0, w_data = [7]\<rparr>, Command 1] (projr (chan_new 1 1)))) in
     \<exists>m w. pair_recv w_read (socks c 1) (net c) = Inr (Some m, w) \<and> prefix (got c 1 @ [m]) (sent c 0)"
proof -
  let ?xs = "[Send 0 \<lparr>w_flags = 0, w_data = [7]\<rparr>, Command 1]" and ?c0 = "projr (chan_new 1 1)"
  let ?r = "run_ops chan_step ?xs ?c0"
  have "chan_new 1 1 = Inr ?c0" by (simp add: chan_new_def pair_attach_pipe_def pair_new_def)
  moreover have "allowed chan_step chan_may ?xs ?c0" by code_simp
  moreover have "isl ?r = False \<and> mail (net (snd (projr ?r))) 0 = [] \<and> mail (net (snd (projr ?r))) 1 = [] \<and> whole (got (snd (projr ?r)) 1) < whole (sent (snd (projr ?r)) 0)"
    by code_simp
  ultimately show ?thesis using pair_channel_live[of 1 1 ?c0 ?xs "fst (projr ?r)" "snd (projr ?r)" 1] by (auto simp: Let_def)
qed

end
