(* ===== verification/Pipe_Array.thy ===== *)
theory Pipe_Array
  imports Prelude
begin

text \<open>
  The array of \<^verbatim>\<open>array.hpp\<close>: a vector of items, each of which stores its own position, so that an item
  is found and removed in constant time.  The positions are part of the items; here they are a
  function beside the vector, with the stale value of an item that was removed.
\<close>

record 'a parray =
  items :: "'a list"
  pos :: "'a \<Rightarrow> int"

definition array_new :: "'a parray" where
  "array_new = \<lparr>items = [], pos = (\<lambda>_. -1)\<rparr>"

definition a_at :: "nat \<Rightarrow> 'a parray \<Rightarrow> 'a result" where
  "a_at k a = (if k < length (items a) then Inr (items a ! k) else Inl Bad_index)"

definition push_back :: "'a \<Rightarrow> 'a parray \<Rightarrow> 'a parray" where
  "push_back x a = a\<lparr>items := items a @ [x], pos := (pos a)(x := int (length (items a)))\<rparr>"

definition index_of :: "'a \<Rightarrow> 'a parray \<Rightarrow> int" where
  "index_of x a = pos a x"

text \<open>Indices are unsigned in the code: a negative position converts to a huge one.\<close>

definition erase_at :: "int \<Rightarrow> 'a parray \<Rightarrow> 'a parray result" where
  "erase_at k a =
     (if items a = [] then Inr a
      else if 0 \<le> k \<and> nat k < length (items a)
      then Inr (a\<lparr>items := butlast ((items a)[nat k := last (items a)]), pos := (pos a)(last (items a) := k)\<rparr>)
      else Inl Bad_index)"

definition erase :: "'a \<Rightarrow> 'a parray \<Rightarrow> 'a parray result" where
  "erase x a = erase_at (pos a x) a"

definition swap :: "int \<Rightarrow> int \<Rightarrow> 'a parray \<Rightarrow> 'a parray result" where
  "swap i j a =
     (if 0 \<le> i \<and> nat i < length (items a) \<and> 0 \<le> j \<and> nat j < length (items a)
      then let x = items a ! nat i; y = items a ! nat j in
        Inr (a\<lparr>items := (items a)[nat i := y, nat j := x], pos := (pos a)(x := j, y := i)\<rparr>)
      else Inl Bad_index)"

definition clear :: "'a parray \<Rightarrow> 'a parray" where
  "clear a = a\<lparr>items := []\<rparr>"

section \<open>Invariant\<close>

definition arr_ok :: "'a parray \<Rightarrow> bool" where
  "arr_ok a \<longleftrightarrow> distinct (items a) \<and> (\<forall>k < length (items a). pos a (items a ! k) = int k)"

lemma arr_ok_new: "arr_ok array_new"
  by (simp add: arr_ok_def array_new_def)

lemma index_of_nth: "arr_ok a \<Longrightarrow> k < length (items a) \<Longrightarrow> index_of (items a ! k) a = int k"
  by (simp add: arr_ok_def index_of_def)

lemma index_of_mem:
  assumes "arr_ok a" "x \<in> set (items a)"
  obtains k where "k < length (items a)" "items a ! k = x" "index_of x a = int k"
  using assms index_of_nth by (metis in_set_conv_nth)

lemma push_back_ok: "arr_ok a \<Longrightarrow> x \<notin> set (items a) \<Longrightarrow> arr_ok (push_back x a)"
  by (auto simp: arr_ok_def push_back_def nth_append)

definition swap_list :: "nat \<Rightarrow> nat \<Rightarrow> 'a list \<Rightarrow> 'a list" where
  "swap_list i j xs = xs[i := xs ! j, j := xs ! i]"

lemma swap_list_simps [simp]: "length (swap_list i j xs) = length xs"
  "i < length xs \<Longrightarrow> j < length xs \<Longrightarrow> distinct (swap_list i j xs) \<longleftrightarrow> distinct xs"
  "i < length xs \<Longrightarrow> j < length xs \<Longrightarrow> set (swap_list i j xs) = set xs"
  by (simp_all add: swap_list_def set_swap)

lemma swap_list_nth:
  "i < length xs \<Longrightarrow> j < length xs \<Longrightarrow> k < length xs \<Longrightarrow>
   swap_list i j xs ! k = (if k = j then xs ! i else if k = i then xs ! j else xs ! k)"
  by (auto simp: swap_list_def nth_list_update)

lemma swap_list_same [simp]: "i < length xs \<Longrightarrow> swap_list i i xs = xs"
  by (simp add: swap_list_def)

lemma swap_ok:
  assumes "arr_ok a" "i < length (items a)" "j < length (items a)"
  shows "\<exists>a'. swap (int i) (int j) a = Inr a' \<and> arr_ok a' \<and> items a' = swap_list i j (items a)"
proof -
  let ?x = "items a ! i" and ?y = "items a ! j"
  let ?a = "a\<lparr>items := (items a)[i := ?y, j := ?x], pos := (pos a)(?x := int j, ?y := int i)\<rparr>"
  have s: "swap (int i) (int j) a = Inr ?a" using assms by (simp add: swap_def Let_def)
  have "pos ?a (swap_list i j (items a) ! k) = int k" if "k < length (items a)" for k
    using that assms by (auto simp: arr_ok_def swap_list_nth nth_eq_iff_index_eq)
  then have "arr_ok ?a" using assms by (simp add: arr_ok_def swap_list_def)
  with s show ?thesis by (auto simp: swap_list_def)
qed

lemma swap_self: "arr_ok a \<Longrightarrow> i < length (items a) \<Longrightarrow> swap (int i) (int i) a = Inr a"
  by (simp add: swap_def Let_def arr_ok_def fun_upd_idem)

text \<open>Removal puts the last item into the gap.\<close>

lemma erase_ok:
  assumes "arr_ok a" "k < length (items a)" "items a ! k = x"
  shows "\<exists>a'. erase x a = Inr a' \<and> arr_ok a' \<and> items a' = butlast ((items a)[k := last (items a)])"
proof -
  have ne: "items a \<noteq> []" using assms(2) by auto
  have p: "pos a x = int k" using assms by (auto simp: arr_ok_def)
  let ?ys = "butlast ((items a)[k := last (items a)])"
  let ?a = "a\<lparr>items := ?ys, pos := (pos a)(last (items a) := int k)\<rparr>"
  have e: "erase x a = Inr ?a" using p ne assms(2) by (simp add: erase_def erase_at_def)
  have l: "last (items a) = items a ! (length (items a) - 1)" using ne by (simp add: last_conv_nth)
  define g where "g i = (if i = k then length (items a) - 1 else i)" for i
  have n: "?ys ! i = items a ! g i" "g i < length (items a)" if "i < length (items a) - 1" for i
    using that l assms(2) by (auto simp: nth_butlast nth_list_update g_def)
  have inj: "g i = g j \<Longrightarrow> i = j" if "i < length (items a) - 1" "j < length (items a) - 1" for i j
    using that by (auto simp: g_def split: if_splits)
  have d: "distinct ?ys"
    unfolding distinct_conv_nth
    using n inj assms(1) by (auto simp: arr_ok_def nth_eq_iff_index_eq)
  have "pos ?a (?ys ! i) = int i" if "i < length (items a) - 1" for i
  proof (cases "i = k")
    case True
    with n(1)[OF that] l show ?thesis by (simp add: g_def)
  next
    case False
    then have "?ys ! i = items a ! i" "items a ! i \<noteq> last (items a)"
      using n[OF that] that assms(1) l by (auto simp: g_def arr_ok_def nth_eq_iff_index_eq)
    with assms(1) that show ?thesis by (simp add: arr_ok_def)
  qed
  with d e show ?thesis by (auto simp: arr_ok_def)
qed

lemma erase_last_ok:
  assumes "arr_ok a" "items a = xs @ [x]"
  shows "\<exists>a'. erase x a = Inr a' \<and> arr_ok a' \<and> items a' = xs"
  using erase_ok[OF assms(1), of "length xs" x] assms(2) by simp

lemma set_erase:
  assumes "distinct xs" "k < length xs"
  shows "set (butlast (xs[k := last xs])) = set xs - {xs ! k}"
proof -
  obtain ys y where xs: "xs = ys @ [y]" using assms(2) by (cases xs rule: rev_cases) auto
  show ?thesis
  proof (cases "k = length ys")
    case True
    with assms(1) xs show ?thesis by auto
  next
    case False
    then have k: "k < length ys" using assms(2) xs by simp
    then have "butlast (xs[k := last xs]) = ys[k := y]" by (simp add: xs list_update_append)
    moreover have "set (ys[k := y]) = insert y (set ys - {ys ! k})"
      using k assms(1) xs by (intro set_update_distinct) simp_all
    ultimately show ?thesis using k assms(1) by (auto simp: xs nth_append)
  qed
qed

lemma take_erase: "n \<le> k \<Longrightarrow> k < length xs \<Longrightarrow> take n (butlast (xs[k := last xs])) = take n xs"
  by (intro nth_equalityI) (auto simp: nth_butlast)

lemma set_take_minus:
  assumes "distinct xs" "n < length xs"
  shows "set (take n xs) = set (take (Suc n) xs) - {xs ! n}"
proof -
  have "distinct (take (Suc n) xs)" using assms(1) by simp
  then show ?thesis using assms(2) by (auto simp: take_Suc_conv_app_nth)
qed

lemma mem_take_nth: "k < n \<Longrightarrow> n \<le> length xs \<Longrightarrow> xs ! k \<in> set (take n xs)"
  by (metis in_set_conv_nth length_take min.absorb2 nth_take)

lemma push_swap_ok:
  assumes "arr_ok a" "x \<notin> set (items a)" "k \<le> length (items a)"
  shows "\<exists>a'. swap (int k) (int (length (items a))) (push_back x a) = Inr a' \<and> arr_ok a' \<and>
    items a' = swap_list k (length (items a)) (items a @ [x])"
  using swap_ok[OF push_back_ok[OF assms(1,2)], of k "length (items a)"] assms(3) by (simp add: push_back_def)

end
