(* ===== verification/Fair_Queue.thy ===== *)
theory Fair_Queue
  imports Pipe Pipe_Array
begin

text \<open>
  Fair queueing over the inbound pipes of a socket: \<^verbatim>\<open>fq.cpp\<close>.  The pipes are an argument of the
  operations, by their read functions; the locale \<open>message_source\<close> is what the queue relies on, and the last section
  interprets it with the pipes of the theory \<open>Pipe\<close>.
\<close>

record fq =
  f_pipes :: "pid parray"
  f_active :: nat
  f_current :: nat
  f_more :: bool

definition fq_new :: fq where
  "fq_new = \<lparr>f_pipes = array_new, f_active = 0, f_current = 0, f_more = False\<rparr>"

definition fq_attach :: "pid \<Rightarrow> fq \<Rightarrow> fq result" where
  "fq_attach x f = (let a = push_back x (f_pipes f) in
     bindE (swap (int (f_active f)) (int (length (items a) - 1)) a)
       (\<lambda>a1. Inr (f\<lparr>f_pipes := a1, f_active := f_active f + 1\<rparr>)))"

definition fq_pipe_terminated :: "pid \<Rightarrow> fq \<Rightarrow> fq result" where
  "fq_pipe_terminated x f = (let k = index_of x (f_pipes f) in
     bindE (if 0 \<le> k \<and> k < int (f_active f)
            then bindE (swap k (int (f_active f - 1)) (f_pipes f)) (\<lambda>a1.
              Inr (f\<lparr>f_pipes := a1, f_active := f_active f - 1,
                     f_current := (if f_current f = f_active f - 1 then 0 else f_current f)\<rparr>))
            else Inr f)
       (\<lambda>f1. bindE (erase x (f_pipes f1)) (\<lambda>a2. Inr (f1\<lparr>f_pipes := a2\<rparr>))))"

definition fq_activated :: "pid \<Rightarrow> fq \<Rightarrow> fq result" where
  "fq_activated x f = bindE (swap (index_of x (f_pipes f)) (int (f_active f)) (f_pipes f))
     (\<lambda>a1. Inr (f\<lparr>f_pipes := a1, f_active := f_active f + 1\<rparr>))"

text \<open>A pipe without messages changes places with the last active one.\<close>

definition deactivate :: "fq \<Rightarrow> fq result" where
  "deactivate f = bindE (swap (int (f_current f)) (int (f_active f - 1)) (f_pipes f)) (\<lambda>a1.
     Inr (f\<lparr>f_pipes := a1, f_active := f_active f - 1,
            f_current := (if f_current f = f_active f - 1 then 0 else f_current f)\<rparr>))"

lemma deactivate_active: "deactivate f = Inr f' \<Longrightarrow> f_active f' = f_active f - 1"
  by (auto simp: deactivate_def bindE_eq_Inr)

function recvpipe :: "(pid \<Rightarrow> 's \<Rightarrow> (wmsg option \<times> 's) result) \<Rightarrow> fq \<Rightarrow> 's \<Rightarrow> ((wmsg \<times> pid) option \<times> fq \<times> 's) result" where
  "recvpipe rd f s =
     (if f_active f = 0 then Inr (None, f, s)
      else bindE (a_at (f_current f) (f_pipes f)) (\<lambda>i. bindE (rd i s) (\<lambda>(r, s1).
        case r of
          Some m \<Rightarrow> let more = has_more (Msg m) in
            Inr (Some (m, i), f\<lparr>f_more := more, f_current := (if more then f_current f else (f_current f + 1) mod f_active f)\<rparr>, s1)
        | None \<Rightarrow> if f_more f then Inl Assertion else bindE (deactivate f) (\<lambda>f1. recvpipe rd f1 s1))))"
  by pat_completeness auto
termination
  by (relation "measure (\<lambda>(rd, f, s). f_active f)") (auto dest: deactivate_active)

declare recvpipe.simps [simp del]

definition fq_recv :: "(pid \<Rightarrow> 's \<Rightarrow> (wmsg option \<times> 's) result) \<Rightarrow> fq \<Rightarrow> 's \<Rightarrow> (wmsg option \<times> fq \<times> 's) result" where
  "fq_recv rd f s = bindE (recvpipe rd f s) (\<lambda>(r, f1, s1). Inr (map_option fst r, f1, s1))"

function fq_has_in_loop :: "(pid \<Rightarrow> 's \<Rightarrow> (bool \<times> 's) result) \<Rightarrow> fq \<Rightarrow> 's \<Rightarrow> (bool \<times> fq \<times> 's) result" where
  "fq_has_in_loop chk f s =
     (if f_active f = 0 then Inr (False, f, s)
      else bindE (a_at (f_current f) (f_pipes f)) (\<lambda>i. bindE (chk i s) (\<lambda>(b, s1).
        if b then Inr (True, f, s1) else bindE (deactivate f) (\<lambda>f1. fq_has_in_loop chk f1 s1))))"
  by pat_completeness auto
termination
  by (relation "measure (\<lambda>(chk, f, s). f_active f)") (auto dest: deactivate_active)

declare fq_has_in_loop.simps [simp del]

definition has_in :: "(pid \<Rightarrow> 's \<Rightarrow> (bool \<times> 's) result) \<Rightarrow> fq \<Rightarrow> 's \<Rightarrow> (bool \<times> fq \<times> 's) result" where
  "has_in chk f s = (if f_more f then Inr (True, f, s) else fq_has_in_loop chk f s)"

section \<open>Invariant\<close>

definition fq_ok :: "fq \<Rightarrow> bool" where
  "fq_ok f \<longleftrightarrow> arr_ok (f_pipes f) \<and> f_active f \<le> length (items (f_pipes f)) \<and>
     (if f_active f = 0 then f_current f = 0 else f_current f < f_active f)"

definition active_pipes :: "fq \<Rightarrow> pid list" where
  "active_pipes f = take (f_active f) (items (f_pipes f))"

definition cur :: "fq \<Rightarrow> pid" where
  "cur f = items (f_pipes f) ! f_current f"

lemma fq_ok_new: "fq_ok fq_new"
  using arr_ok_new by (simp add: fq_ok_def fq_new_def)

lemma set_take_swap:
  "i < n \<Longrightarrow> j < n \<Longrightarrow> n \<le> length xs \<Longrightarrow> set (take n (swap_list i j xs)) = set (take n xs)"
proof -
  assume a: "i < n" "j < n" "n \<le> length xs"
  have "take n (swap_list i j xs) = swap_list i j (take n xs)"
    using a by (intro nth_equalityI) (auto simp: swap_list_nth)
  with a show ?thesis by simp
qed

lemma fq_attach_ok:
  assumes "fq_ok f" "x \<notin> set (items (f_pipes f))"
  shows "\<exists>f'. fq_attach x f = Inr f' \<and> fq_ok f' \<and> set (active_pipes f') = insert x (set (active_pipes f)) \<and>
    set (items (f_pipes f')) = insert x (set (items (f_pipes f)))"
proof -
  let ?xs = "items (f_pipes f)" and ?n = "f_active f"
  have n: "?n \<le> length ?xs" and ok: "arr_ok (f_pipes f)" using assms by (simp_all add: fq_ok_def)
  from push_swap_ok[OF ok assms(2) n] obtain a where a: "swap (int ?n) (int (length ?xs)) (push_back x (f_pipes f)) = Inr a"
    "arr_ok a" "items a = swap_list ?n (length ?xs) (?xs @ [x])" by blast
  have "take (Suc ?n) (items a) = take ?n ?xs @ [x]"
    using n unfolding a(3) by (intro nth_equalityI) (auto simp: swap_list_nth nth_append)
  moreover have "length (items (push_back x (f_pipes f))) - 1 = length ?xs" by (simp add: push_back_def)
  ultimately show ?thesis using a assms n
    by (auto simp: fq_attach_def fq_ok_def active_pipes_def split: if_splits)
qed

lemma fq_activated_ok:
  assumes "fq_ok f" "x \<in> set (items (f_pipes f)) - set (active_pipes f)"
  shows "\<exists>f'. fq_activated x f = Inr f' \<and> fq_ok f' \<and> set (active_pipes f') = insert x (set (active_pipes f)) \<and>
    set (items (f_pipes f')) = set (items (f_pipes f))"
proof -
  let ?xs = "items (f_pipes f)" and ?n = "f_active f"
  have n: "?n \<le> length ?xs" and ok: "arr_ok (f_pipes f)" using assms by (simp_all add: fq_ok_def)
  from index_of_mem[OF ok, of x] assms(2) obtain k where k: "k < length ?xs" "?xs ! k = x" "index_of x (f_pipes f) = int k" by blast
  have "k \<ge> ?n"
  proof (rule ccontr)
    assume "\<not> ?thesis"
    then have "x \<in> set (active_pipes f)" using mem_take_nth[of k ?n ?xs] k n by (simp add: active_pipes_def)
    with assms(2) show False by simp
  qed
  then have lt: "?n < length ?xs" using k by simp
  from swap_ok[OF ok k(1) lt] obtain a where a: "swap (int k) (int ?n) (f_pipes f) = Inr a" "arr_ok a" "items a = swap_list k ?n ?xs" by blast
  have "take (Suc ?n) (items a) = take ?n ?xs @ [x]"
    using lt k \<open>k \<ge> ?n\<close> unfolding a(3) by (intro nth_equalityI) (auto simp: swap_list_nth nth_append)
  with a k lt assms(1) show ?thesis
    by (auto simp: fq_activated_def fq_ok_def active_pipes_def split: if_splits)
qed

lemma deactivate_ok:
  assumes "fq_ok f" "f_active f > 0"
  shows "\<exists>f'. deactivate f = Inr f' \<and> fq_ok f' \<and> f_active f' = f_active f - 1 \<and> f_more f' = f_more f \<and>
    items (f_pipes f') = swap_list (f_current f) (f_active f - 1) (items (f_pipes f)) \<and>
    f_current f' = (if f_current f = f_active f - 1 then 0 else f_current f)"
proof -
  have b: "f_current f < length (items (f_pipes f))" "f_active f - 1 < length (items (f_pipes f))" "arr_ok (f_pipes f)"
    using assms by (auto simp: fq_ok_def)
  from swap_ok[OF b(3,1,2)] show ?thesis using assms b
    by (auto simp: deactivate_def fq_ok_def)
qed

lemma fq_terminated_ok:
  assumes "fq_ok f" "x \<in> set (items (f_pipes f))"
  shows "\<exists>f'. fq_pipe_terminated x f = Inr f' \<and> fq_ok f' \<and> set (active_pipes f') = set (active_pipes f) - {x} \<and>
    set (items (f_pipes f')) = set (items (f_pipes f)) - {x}"
proof -
  let ?xs = "items (f_pipes f)" and ?n = "f_active f"
  have n: "?n \<le> length ?xs" and ok: "arr_ok (f_pipes f)" and d: "distinct ?xs" using assms by (simp_all add: fq_ok_def arr_ok_def)
  from index_of_mem[OF ok assms(2)] obtain k where k: "k < length ?xs" "?xs ! k = x" "index_of x (f_pipes f) = int k" by blast
  show ?thesis
  proof (cases "k < ?n")
    case True
    then have m: "?n - 1 < length ?xs" "Suc (?n - 1) = ?n" using n by simp_all
    from swap_ok[OF ok k(1) m(1)] obtain a where a: "swap (int k) (int (?n - 1)) (f_pipes f) = Inr a" "arr_ok a"
      "items a = swap_list k (?n - 1) ?xs" by blast
    let ?ys = "items a"
    have y: "length ?ys = length ?xs" "?ys ! (?n - 1) = x" "distinct ?ys" "set ?ys = set ?xs" "set (take ?n ?ys) = set (take ?n ?xs)"
      using a k m d n True by (simp_all add: swap_list_nth set_take_swap)
    from erase_ok[OF a(2), of "?n - 1" x] y m obtain b where b: "erase x a = Inr b" "arr_ok b"
      "items b = butlast (?ys[?n - 1 := last ?ys])" by auto
    have "set (items b) = set ?xs - {x}" using set_erase[OF y(3), of "?n - 1"] y m b(3) by simp
    moreover have "set (take (?n - 1) (items b)) = set (take ?n ?xs) - {x}"
      using take_erase[of "?n - 1" "?n - 1" ?ys] set_take_minus[OF y(3), of "?n - 1"] y m b(3) by simp
    ultimately show ?thesis using a b k True assms(1) y
      by (auto simp: fq_pipe_terminated_def Let_def fq_ok_def active_pipes_def split: if_splits)
  next
    case False
    from erase_ok[OF ok k(1,2)] obtain b where b: "erase x (f_pipes f) = Inr b" "arr_ok b" "items b = butlast (?xs[k := last ?xs])" by blast
    have "set (items b) = set ?xs - {x}" using set_erase[OF d k(1)] k(2) b(3) by simp
    moreover have t: "take ?n (items b) = take ?n ?xs" using take_erase[of ?n k ?xs] False k b(3) by simp
    moreover have "x \<notin> set (take ?n ?xs)"
      using False k d n by (auto simp: in_set_conv_nth nth_eq_iff_index_eq)
    ultimately show ?thesis using b k False assms(1) n
      by (auto simp: fq_pipe_terminated_def Let_def fq_ok_def active_pipes_def split: if_splits)
  qed
qed

section \<open>What the queue relies on, and what it gives\<close>

text \<open>
  How many other pipes are served before the pipe at position \<open>q\<close>, with \<open>a\<close> active pipes and the
  next turn at position \<open>c\<close>.
\<close>

definition lag :: "nat \<Rightarrow> nat \<Rightarrow> nat \<Rightarrow> nat" where
  "lag a c q = (if c \<le> q then q - c else q + a - c)"

definition turns :: "fq \<Rightarrow> pid \<Rightarrow> nat" where
  "turns f k = lag (f_active f) (f_current f) (nat (index_of k (f_pipes f)))"

lemma active_nth:
  assumes "fq_ok f" "k \<in> set (active_pipes f)"
  obtains q where "q < f_active f" "items (f_pipes f) ! q = k" "turns f k = lag (f_active f) (f_current f) q"
proof -
  from assms obtain q where q: "q < f_active f" "items (f_pipes f) ! q = k" "q < length (items (f_pipes f))"
    by (auto simp: active_pipes_def in_set_conv_nth fq_ok_def)
  with assms(1) index_of_nth[of "f_pipes f" q] that show ?thesis by (auto simp: turns_def fq_ok_def)
qed

lemma active_nthI:
  "fq_ok f \<Longrightarrow> q < f_active f \<Longrightarrow> items (f_pipes f) ! q \<in> set (active_pipes f) \<and>
   turns f (items (f_pipes f) ! q) = lag (f_active f) (f_current f) q"
  using mem_take_nth index_of_nth[of "f_pipes f" q] by (auto simp: active_pipes_def turns_def fq_ok_def)

lemma turns_less: "fq_ok f \<Longrightarrow> k \<in> set (active_pipes f) \<Longrightarrow> turns f k < f_active f"
  by (erule (1) active_nth) (auto simp: lag_def fq_ok_def split: if_splits)

text \<open>Setting a pipe aside does not delay any other.\<close>

lemma deactivate_turns:
  assumes "fq_ok f" "deactivate f = Inr f'" "k \<in> set (active_pipes f)" "k \<noteq> cur f"
  shows "k \<in> set (active_pipes f') \<and> turns f' k \<le> turns f k"
proof -
  from active_nth[OF assms(1,3)] obtain q where q: "q < f_active f" "items (f_pipes f) ! q = k" "turns f k = lag (f_active f) (f_current f) q" .
  let ?a = "f_active f" and ?c = "f_current f"
  have c: "?c < ?a" "?a \<le> length (items (f_pipes f))" using assms(1) q(1) by (auto simp: fq_ok_def)
  from deactivate_ok[OF assms(1)] q(1) assms(2) have f': "fq_ok f'" "f_active f' = ?a - 1"
    "items (f_pipes f') = swap_list ?c (?a - 1) (items (f_pipes f))" "f_current f' = (if ?c = ?a - 1 then 0 else ?c)" by auto
  have qc: "q \<noteq> ?c" using q(2) assms(4) by (auto simp: cur_def)
  define q' where "q' = (if q = ?a - 1 then ?c else q)"
  have "q' < f_active f'" unfolding f'(2) q'_def using q(1) c(1) qc by (cases "q = ?a - 1"; simp; linarith)
  moreover have "items (f_pipes f') ! q' = k" "lag (f_active f') (f_current f') q' \<le> lag ?a ?c q"
    using q c qc f' by (auto simp: q'_def swap_list_nth lag_def)
  ultimately show ?thesis using active_nthI[OF f'(1), of q'] q(3) by auto
qed

lemma deactivate_sub:
  assumes "fq_ok f" "deactivate f = Inr f'"
  shows "set (active_pipes f') \<subseteq> set (active_pipes f)"
proof (cases "f_active f = 0")
  case True
  then show ?thesis using deactivate_active[OF assms(2)] by (simp add: active_pipes_def)
next
  case False
  from deactivate_ok[OF assms(1)] False assms(2) have f': "f_active f' = f_active f - 1"
    "items (f_pipes f') = swap_list (f_current f) (f_active f - 1) (items (f_pipes f))" by auto
  have "set (active_pipes f') \<subseteq> set (take (f_active f) (items (f_pipes f')))"
    using f'(1) by (simp add: active_pipes_def set_take_subset_set_take)
  also have "\<dots> = set (active_pipes f)"
    using f'(2) assms(1) False by (simp add: active_pipes_def set_take_swap fq_ok_def)
  finally show ?thesis .
qed

text \<open>
  One message handed out: it is the first of the pipe it came from, nothing else is touched, a message in
  several parts keeps its pipe, and every other pipe with messages keeps its turn or moves up.
\<close>

definition served :: "(pid \<Rightarrow> wmsg list) \<Rightarrow> (pid \<Rightarrow> wmsg list) \<Rightarrow> fq \<Rightarrow> fq \<Rightarrow> wmsg \<Rightarrow> pid \<Rightarrow> bool" where
  "served av av' f f' m i \<longleftrightarrow> i \<in> set (active_pipes f) \<and> av i = m # av' i \<and> (\<forall>j. j \<noteq> i \<longrightarrow> av' j = av j) \<and>
     f_more f' = has_more (Msg m) \<and> i \<in> set (active_pipes f') \<and> (has_more (Msg m) \<longrightarrow> cur f' = i) \<and>
     (f_more f \<longrightarrow> i = cur f) \<and> set (items (f_pipes f')) = set (items (f_pipes f)) \<and>
     (\<forall>j\<in>set (active_pipes f). av j \<noteq> [] \<longrightarrow> j \<noteq> i \<longrightarrow>
        j \<in> set (active_pipes f') \<and> turns f' j + (if has_more (Msg m) then 0 else 1) \<le> turns f j)"

lemma served_deactivate:
  assumes "fq_ok f" "deactivate f = Inr f1" "av (cur f) = []" "\<not> f_more f" "served av av' f1 f' m i"
    "set (items (f_pipes f1)) = set (items (f_pipes f))"
  shows "served av av' f f' m i"
proof -
  note t = deactivate_turns[OF assms(1,2)] and sub = deactivate_sub[OF assms(1,2)]
  have "j \<in> set (active_pipes f') \<and> turns f' j + (if has_more (Msg m) then 0 else 1) \<le> turns f j"
    if j: "j \<in> set (active_pipes f)" "av j \<noteq> []" "j \<noteq> i" for j
  proof -
    have "j \<noteq> cur f" using j(2) assms(3) by auto
    from t[OF j(1) this] have a: "j \<in> set (active_pipes f1)" "turns f1 j \<le> turns f j" by auto
    with assms(5) j show ?thesis unfolding served_def by (meson order_trans)
  qed
  with assms sub show ?thesis unfolding served_def by auto
qed

lemma next_turn:
  assumes "fq_ok f" "k \<in> set (active_pipes f)" "k \<noteq> cur f"
  shows "turns (f\<lparr>f_more := b, f_current := (f_current f + 1) mod f_active f\<rparr>) k + 1 \<le> turns f k"
proof -
  from active_nth[OF assms(1,2)] obtain q where q: "q < f_active f" "items (f_pipes f) ! q = k" "turns f k = lag (f_active f) (f_current f) q" .
  have c: "f_current f < f_active f" "f_active f \<le> length (items (f_pipes f))" using assms(1) q(1) by (auto simp: fq_ok_def)
  have qc: "q \<noteq> f_current f" using q(2) assms(3) by (auto simp: cur_def)
  have i: "index_of k (f_pipes f) = int q" using q c assms(1) index_of_nth[of "f_pipes f" q] by (auto simp: fq_ok_def)
  show ?thesis
  proof (cases "f_current f + 1 = f_active f")
    case True
    with q c qc i show ?thesis by (auto simp: turns_def lag_def)
  next
    case False
    then have "(f_current f + 1) mod f_active f = f_current f + 1" using c by simp
    with q c qc i show ?thesis by (auto simp: turns_def lag_def)
  qed
qed


locale message_source =
  fixes rd :: "pid \<Rightarrow> 's \<Rightarrow> (wmsg option \<times> 's) result"
    and chk :: "pid \<Rightarrow> 's \<Rightarrow> (bool \<times> 's) result"
    and avail :: "'s \<Rightarrow> pid \<Rightarrow> wmsg list"
    and good :: "'s \<Rightarrow> bool"
  assumes rd_empty: "good s \<Longrightarrow> avail s i = [] \<Longrightarrow> \<exists>s'. rd i s = Inr (None, s') \<and> good s' \<and> avail s' = avail s"
    and rd_some: "good s \<Longrightarrow> avail s i = m # ms \<Longrightarrow> \<exists>s'. rd i s = Inr (Some m, s') \<and> good s' \<and> avail s' = (avail s)(i := ms)"
    and chk: "good s \<Longrightarrow> \<exists>s'. chk i s = Inr (avail s i \<noteq> [], s') \<and> good s' \<and> avail s' = avail s"
begin

lemma recv_none:
  assumes "fq_ok f" "good s" "\<forall>i\<in>set (active_pipes f). avail s i = []" "\<not> f_more f"
  shows "\<exists>f' s'. recvpipe rd f s = Inr (None, f', s') \<and> fq_ok f' \<and> good s' \<and> avail s' = avail s \<and> active_pipes f' = [] \<and>
    set (items (f_pipes f')) = set (items (f_pipes f))"
  using assms
proof (induction "f_active f" arbitrary: f s)
  case 0
  then show ?case by (auto simp: recvpipe.simps[of rd f] active_pipes_def)
next
  case (Suc n)
  have c: "f_current f < f_active f" "f_active f \<le> length (items (f_pipes f))" using Suc(2,3) by (auto simp: fq_ok_def)
  have at: "a_at (f_current f) (f_pipes f) = Inr (cur f)" using c by (simp add: a_at_def cur_def)
  have "avail s (cur f) = []" using active_nthI[OF Suc.prems(1) c(1)] Suc.prems(3) by (simp add: cur_def)
  from rd_empty[OF Suc.prems(2) this] obtain s1 where s1: "rd (cur f) s = Inr (None, s1)" "good s1" "avail s1 = avail s" by blast
  from deactivate_ok[OF Suc.prems(1)] Suc(2) obtain f1 where f1: "deactivate f = Inr f1" "fq_ok f1" "f_active f1 = f_active f - 1"
    "f_more f1 = f_more f" "items (f_pipes f1) = swap_list (f_current f) (f_active f - 1) (items (f_pipes f))" by auto
  have st: "set (items (f_pipes f1)) = set (items (f_pipes f))" using f1(5) c by simp
  have sub: "set (active_pipes f1) \<subseteq> set (active_pipes f)" by (rule deactivate_sub[OF Suc.prems(1) f1(1)])
  have "recvpipe rd f s = recvpipe rd f1 s1"
    using Suc(2) at s1(1) f1(1) Suc.prems(4) by (simp add: recvpipe.simps[of rd f s])
  moreover have "\<exists>f' s'. recvpipe rd f1 s1 = Inr (None, f', s') \<and> fq_ok f' \<and> good s' \<and> avail s' = avail s1 \<and> active_pipes f' = [] \<and>
      set (items (f_pipes f')) = set (items (f_pipes f1))"
    using Suc.prems Suc(2) f1 s1 sub by (intro Suc.hyps(1)) auto
  ultimately show ?case using s1(3) st by simp
qed

lemma recv_some:
  assumes "fq_ok f" "good s" "k \<in> set (active_pipes f)" "avail s k \<noteq> []" "f_more f \<Longrightarrow> avail s (cur f) \<noteq> []"
  shows "\<exists>m i f' s'. recvpipe rd f s = Inr (Some (m, i), f', s') \<and> fq_ok f' \<and> good s' \<and>
    served (avail s) (avail s') f f' m i"
  using assms
proof (induction "f_active f" arbitrary: f s)
  case 0
  then show ?case by (simp add: active_pipes_def)
next
  case (Suc n)
  have c: "f_current f < f_active f" "f_active f \<le> length (items (f_pipes f))" using Suc(2,3) by (auto simp: fq_ok_def)
  have at: "a_at (f_current f) (f_pipes f) = Inr (cur f)" using c by (simp add: a_at_def cur_def)
  have ca: "cur f \<in> set (active_pipes f)" using active_nthI[OF Suc.prems(1) c(1)] by (simp add: cur_def)
  show ?case
  proof (cases "avail s (cur f)")
    case (Cons m ms)
    from rd_some[OF Suc.prems(2) Cons] obtain s1 where s1: "rd (cur f) s = Inr (Some m, s1)" "good s1" "avail s1 = (avail s)(cur f := ms)" by blast
    define f1 where "f1 = f\<lparr>f_more := has_more (Msg m),
      f_current := (if has_more (Msg m) then f_current f else (f_current f + 1) mod f_active f)\<rparr>"
    have r: "recvpipe rd f s = Inr (Some (m, cur f), f1, s1)"
      using Suc(2) at s1(1) by (simp add: recvpipe.simps[of rd f s] f1_def Let_def)
    have f1: "fq_ok f1" "active_pipes f1 = active_pipes f" "has_more (Msg m) \<Longrightarrow> cur f1 = cur f" "f_more f1 = has_more (Msg m)"
      "f_pipes f1 = f_pipes f"
      using Suc.prems(1) Suc(2) c by (auto simp: f1_def fq_ok_def active_pipes_def cur_def)
    have "turns f1 j + (if has_more (Msg m) then 0 else 1) \<le> turns f j" if "j \<in> set (active_pipes f)" "j \<noteq> cur f" for j
      using next_turn[OF Suc.prems(1) that] by (auto simp: f1_def turns_def)
    then have "served (avail s) (avail s1) f f1 m (cur f)" using f1 s1(3) Cons ca by (auto simp: served_def)
    with r f1(1) s1(2) show ?thesis by blast
  next
    case Nil
    have nm: "\<not> f_more f" using Nil Suc.prems(5) by blast
    have kc: "k \<noteq> cur f" using Nil Suc.prems(4) by auto
    from rd_empty[OF Suc.prems(2) Nil] obtain s1 where s1: "rd (cur f) s = Inr (None, s1)" "good s1" "avail s1 = avail s" by blast
    from deactivate_ok[OF Suc.prems(1)] Suc(2) obtain f1 where f1: "deactivate f = Inr f1" "fq_ok f1" "f_active f1 = f_active f - 1"
      "f_more f1 = f_more f" "items (f_pipes f1) = swap_list (f_current f) (f_active f - 1) (items (f_pipes f))" by auto
    have st: "set (items (f_pipes f1)) = set (items (f_pipes f))" using f1(5) c by simp
    have r: "recvpipe rd f s = recvpipe rd f1 s1"
      using Suc(2) at s1(1) f1(1) nm by (simp add: recvpipe.simps[of rd f s])
    have n: "n = f_active f1" using Suc(2) f1(3) by simp
    have "k \<in> set (active_pipes f1)" using deactivate_turns[OF Suc.prems(1) f1(1) Suc.prems(3) kc] by blast
    with Suc.hyps(1)[OF n f1(2) s1(2)] s1(3) Suc.prems(4) nm f1(4)
    obtain m i f' s' where ih: "recvpipe rd f1 s1 = Inr (Some (m, i), f', s')" "fq_ok f'" "good s'" "served (avail s) (avail s') f1 f' m i"
      by metis
    from served_deactivate[OF Suc.prems(1) f1(1) Nil nm ih(4) st] ih r show ?thesis by auto
  qed
qed

lemma has_in_exact:
  assumes "fq_ok f" "good s" "\<not> f_more f"
  shows "\<exists>f' s'. has_in chk f s = Inr (\<exists>i\<in>set (active_pipes f). avail s i \<noteq> [], f', s') \<and> fq_ok f' \<and> good s' \<and> avail s' = avail s"
  using assms unfolding has_in_def
proof (induction "f_active f" arbitrary: f s)
  case 0
  then show ?case by (auto simp: fq_has_in_loop.simps[of chk f] active_pipes_def)
next
  case (Suc n)
  have c: "f_current f < f_active f" "f_active f \<le> length (items (f_pipes f))" using Suc(2,3) by (auto simp: fq_ok_def)
  have at: "a_at (f_current f) (f_pipes f) = Inr (cur f)" using c by (simp add: a_at_def cur_def)
  have ca: "cur f \<in> set (active_pipes f)" using active_nthI[OF Suc.prems(1) c(1)] by (simp add: cur_def)
  from chk[OF Suc.prems(2)] obtain s1 where s1: "chk (cur f) s = Inr (avail s (cur f) \<noteq> [], s1)" "good s1" "avail s1 = avail s" by blast
  show ?case
  proof (cases "avail s (cur f) = []")
    case False
    then have "fq_has_in_loop chk f s = Inr (True, f, s1)" using Suc(2) at s1(1) by (simp add: fq_has_in_loop.simps[of chk f s])
    with False ca s1 Suc.prems show ?thesis by auto
  next
    case True
    from deactivate_ok[OF Suc.prems(1)] Suc(2) obtain f1 where f1: "deactivate f = Inr f1" "fq_ok f1" "f_active f1 = f_active f - 1"
      "f_more f1 = f_more f" "items (f_pipes f1) = swap_list (f_current f) (f_active f - 1) (items (f_pipes f))" by auto
    have sub: "set (active_pipes f1) \<subseteq> set (active_pipes f)" by (rule deactivate_sub[OF Suc.prems(1) f1(1)])
    have "(\<exists>i\<in>set (active_pipes f1). avail s1 i \<noteq> []) \<longleftrightarrow> (\<exists>i\<in>set (active_pipes f). avail s i \<noteq> [])"
      using sub deactivate_turns[OF Suc.prems(1) f1(1)] True s1(3) by (metis subsetD)
    moreover have "fq_has_in_loop chk f s = fq_has_in_loop chk f1 s1"
      using Suc(2) at s1(1) f1(1) True by (simp add: fq_has_in_loop.simps[of chk f s])
    moreover have n: "n = f_active f1" using Suc(2) f1(3) by simp
    ultimately show ?thesis using Suc.hyps(1)[OF n f1(2) s1(2)] Suc.prems(3) f1(4) s1(3) by simp
  qed
qed

end

section \<open>The pipes of a socket\<close>

text \<open>The ends that a socket owns, and the commands it has sent to their peers.\<close>

record sockenv =
  ends :: "pid \<Rightarrow> endp"
  outbox :: "(pid \<times> command) list"

definition on_end :: "pid \<Rightarrow> (endp \<Rightarrow> ('r \<times> endp) result) \<Rightarrow> sockenv \<Rightarrow> ('r \<times> sockenv) result" where
  "on_end i g s = bindE (g ((ends s i)\<lparr>cmds := []\<rparr>)) (\<lambda>(r, e).
     Inr (r, s\<lparr>ends := (ends s)(i := e), outbox := outbox s @ map (Pair i) (cmds e)\<rparr>))"

definition sock_read :: "pid \<Rightarrow> sockenv \<Rightarrow> (wmsg option \<times> sockenv) result" where
  "sock_read i = on_end i pipe_read"

definition sock_check_read :: "pid \<Rightarrow> sockenv \<Rightarrow> (bool \<times> sockenv) result" where
  "sock_check_read i = on_end i check_read"

fun upto_delimiter :: "pmsg list \<Rightarrow> wmsg list" where
  "upto_delimiter (Msg m # ms) = m # upto_delimiter ms"
| "upto_delimiter _ = []"

definition avail_of :: "endp \<Rightarrow> wmsg list" where
  "avail_of e = (if may_read e then upto_delimiter (ready (inq e)) else [])"

text \<open>Credentials, which \<^verbatim>\<open>check_read\<close> counts and \<^verbatim>\<open>read\<close> skips, do not occur.\<close>

definition plain :: "endp \<Rightarrow> bool" where
  "plain e \<longleftrightarrow> end_wf e \<and> list_all (\<lambda>m. \<not> is_credential m) (ready (inq e))"

lemma plain_cmds [simp]: "plain (e\<lparr>cmds := c\<rparr>) = plain e" "avail_of (e\<lparr>cmds := c\<rparr>) = avail_of e"
  by (auto simp: plain_def end_wf_def avail_of_def may_read_def)

lemma effect_wf: "effect e e' \<Longrightarrow> end_wf e'"
  by (cases rule: effect.cases) (auto simp: common_def)

lemma read_loop_plain:
  "list_all (\<lambda>m. \<not> is_credential m) (ready u) \<Longrightarrow> read_loop u = u_read u"
  by (cases "ready u") (auto simp: read_loop.simps[of u] u_read_def)

lemma process_delimiter_closed:
  "process_delimiter e = Inr e' \<Longrightarrow> \<not> may_read e' \<and> inq e' = inq e"
  by (auto simp: process_delimiter_def rollback_def end_defs may_read_def bindE_eq_Inr split: pstate.splits option.splits)

lemma pipe_read_empty:
  assumes "plain e" "cmds e = []" "avail_of e = []"
  shows "\<exists>e'. pipe_read e = Inr (None, e') \<and> plain e' \<and> avail_of e' = []"
proof -
  from pipe_read_effect[of e] assms obtain r e' where e': "pipe_read e = Inr (r, e')" "effect e e'" by (auto simp: plain_def)
  have c: "list_all (\<lambda>m. \<not> is_credential m) (ready (inq e))" using assms(1) by (simp add: plain_def)
  consider "\<not> may_read e" | "may_read e" "ready (inq e) = []" | ms where "may_read e" "ready (inq e) = Delimiter # ms"
    using assms(3) by (cases "ready (inq e)") (auto simp: avail_of_def split: if_splits elim: pmsg.exhaust upto_delimiter.elims)
  then have "r = None \<and> avail_of e' = [] \<and> set (ready (inq e')) \<subseteq> set (ready (inq e))"
  proof cases
    case 1
    with e'(1) show ?thesis by (auto simp: pipe_read_def avail_of_def)
  next
    case 2
    with e'(1) c show ?thesis by (auto simp: pipe_read_def read_loop_plain u_read_def avail_of_def may_read_def end_defs)
  next
    case 3
    with e'(1) c show ?thesis
      by (auto simp: pipe_read_def read_loop_plain u_read_def avail_of_def bindE_eq_Inr dest!: process_delimiter_closed)
  qed
  with e' effect_wf[OF e'(2)] c show ?thesis by (auto simp: plain_def list_all_iff)
qed

lemma pipe_read_some:
  assumes "plain e" "cmds e = []" "avail_of e = m # ms"
  shows "\<exists>e'. pipe_read e = Inr (Some m, e') \<and> plain e' \<and> avail_of e' = ms"
proof -
  from pipe_read_effect[of e] assms obtain r e' where e': "pipe_read e = Inr (r, e')" "effect e e'" by (auto simp: plain_def)
  have c: "list_all (\<lambda>m. \<not> is_credential m) (ready (inq e))" using assms(1) by (simp add: plain_def)
  from assms(3) obtain xs where x: "may_read e" "ready (inq e) = Msg m # xs" "ms = upto_delimiter xs"
    by (cases "ready (inq e)" rule: upto_delimiter.cases) (auto simp: avail_of_def split: if_splits)
  with e'(1) c have "r = Some m \<and> avail_of e' = ms \<and> ready (inq e') = xs"
    by (auto simp: pipe_read_def read_loop_plain u_read_def avail_of_def may_read_def end_defs Let_def split: if_splits)
  with e' effect_wf[OF e'(2)] c x(2) show ?thesis by (auto simp: plain_def)
qed

lemma check_read_exact:
  assumes "plain e" "cmds e = []"
  shows "\<exists>e'. check_read e = Inr (avail_of e \<noteq> [], e') \<and> plain e' \<and> avail_of e' = avail_of e"
proof -
  from check_read_effect[of e] assms obtain r e' where e': "check_read e = Inr (r, e')" "effect e e'" by (auto simp: plain_def)
  consider "\<not> may_read e" | "may_read e" "ready (inq e) = []" | ms where "may_read e" "ready (inq e) = Delimiter # ms"
    | m ms where "may_read e" "ready (inq e) = Msg m # ms"
    by (cases "may_read e"; cases "ready (inq e)" rule: upto_delimiter.cases) auto
  then have "r = (avail_of e \<noteq> []) \<and> avail_of e' = avail_of e \<and> set (ready (inq e')) \<subseteq> set (ready (inq e))"
  proof cases
    case 3
    with e'(1) show ?thesis
      by (auto simp: check_read_def u_check_read_def u_read_def avail_of_def bindE_eq_Inr dest!: process_delimiter_closed)
  qed (use e'(1) in \<open>auto simp: check_read_def u_check_read_def avail_of_def may_read_def end_defs\<close>)
  with e' effect_wf[OF e'(2)] assms(1) show ?thesis by (auto simp: plain_def list_all_iff)
qed

definition sock_avail :: "sockenv \<Rightarrow> pid \<Rightarrow> wmsg list" where
  "sock_avail s i = avail_of (ends s i)"

definition sock_good :: "sockenv \<Rightarrow> bool" where
  "sock_good s \<longleftrightarrow> (\<forall>i. plain (ends s i))"

lemma on_end_ok:
  assumes "\<exists>e'. g ((ends s i)\<lparr>cmds := []\<rparr>) = Inr (r, e') \<and> plain e' \<and> avail_of e' = ms" "sock_good s"
  shows "\<exists>s'. on_end i g s = Inr (r, s') \<and> sock_good s' \<and> sock_avail s' = (sock_avail s)(i := ms)"
  using assms by (auto simp: on_end_def sock_good_def sock_avail_def fun_eq_iff)

interpretation sq: message_source sock_read sock_check_read sock_avail sock_good
proof
  fix s i assume g: "sock_good s" and a: "sock_avail s i = []"
  have "\<exists>e'. pipe_read ((ends s i)\<lparr>cmds := []\<rparr>) = Inr (None, e') \<and> plain e' \<and> avail_of e' = []"
    using g a by (intro pipe_read_empty) (simp_all add: sock_good_def sock_avail_def)
  from on_end_ok[of pipe_read s i None "[]", OF this g] a show "\<exists>s'. sock_read i s = Inr (None, s') \<and> sock_good s' \<and> sock_avail s' = sock_avail s"
    unfolding sock_read_def by (metis fun_upd_triv)
next
  fix s i m ms assume g: "sock_good s" and a: "sock_avail s i = m # ms"
  have "\<exists>e'. pipe_read ((ends s i)\<lparr>cmds := []\<rparr>) = Inr (Some m, e') \<and> plain e' \<and> avail_of e' = ms"
    using g a by (intro pipe_read_some) (simp_all add: sock_good_def sock_avail_def)
  from on_end_ok[of pipe_read s i "Some m" ms, OF this g] show "\<exists>s'. sock_read i s = Inr (Some m, s') \<and> sock_good s' \<and> sock_avail s' = (sock_avail s)(i := ms)"
    unfolding sock_read_def .
next
  fix s i assume g: "sock_good s"
  have "\<exists>e'. check_read ((ends s i)\<lparr>cmds := []\<rparr>) = Inr (sock_avail s i \<noteq> [], e') \<and> plain e' \<and> avail_of e' = sock_avail s i"
    using g check_read_exact[of "(ends s i)\<lparr>cmds := []\<rparr>"] by (simp add: sock_good_def sock_avail_def)
  from on_end_ok[of check_read s i "sock_avail s i \<noteq> []" "sock_avail s i", OF this g] show "\<exists>s'. sock_check_read i s = Inr (sock_avail s i \<noteq> [], s') \<and> sock_good s' \<and> sock_avail s' = sock_avail s"
    unfolding sock_check_read_def by (metis fun_upd_triv)
qed

section \<open>Properties\<close>

text \<open>
  C14. Fair queueing is exact and fair: while some active pipe has a message, a receive call hands out the next
  message of one pipe and touches no other; the parts of a message come from one pipe without interruption; and
  every other pipe with messages comes closer to its turn with each complete message, so
  that it is served after fewer messages than there are active pipes.
\<close>
theorem fq_recv_fair:
  assumes "fq_ok f" "sock_good s" "k \<in> set (active_pipes f)" "sock_avail s k \<noteq> []"
    and "f_more f \<Longrightarrow> sock_avail s (cur f) \<noteq> []"
  shows "turns f k < f_active f \<and> (\<exists>m i f' s'. recvpipe sock_read f s = Inr (Some (m, i), f', s') \<and> fq_ok f' \<and> sock_good s' \<and>
    served (sock_avail s) (sock_avail s') f f' m i)"
  using sq.recv_some[OF assms] turns_less[OF assms(1,3)] by simp

lemma fq_recv_again:
  assumes "fq_ok f" "sock_good s" "\<forall>i\<in>set (active_pipes f). sock_avail s i = []" "\<not> f_more f"
  shows "\<exists>f' s'. recvpipe sock_read f s = Inr (None, f', s') \<and> fq_ok f' \<and> sock_good s' \<and> sock_avail s' = sock_avail s \<and> active_pipes f' = []"
  using sq.recv_none[OF assms] by blast

section \<open>Witness\<close>

definition sample_end :: "byte list list \<Rightarrow> endp" where
  "sample_end ds = \<lparr>me = pipe_new 0 1 10 10 1, inq = upipe_new\<lparr>ready := map (\<lambda>d. Msg \<lparr>w_flags = 0, w_data = d\<rparr>) ds\<rparr>,
     outq = upipe_new, cmds = [], evs = []\<rparr>"

definition sample_env :: sockenv where
  "sample_env = \<lparr>ends = (\<lambda>i. if i = 7 then sample_end [[1], [2]] else if i = 8 then sample_end [[3]] else sample_end []), outbox = []\<rparr>"

definition sample_fq :: fq where
  "sample_fq = \<lparr>f_pipes = \<lparr>items = [7, 8], pos = (\<lambda>i. int i - 7)\<rparr>, f_active = 2, f_current = 0, f_more = False\<rparr>"

lemma sample_fq_ok: "fq_ok sample_fq" "sock_good sample_env" "8 \<in> set (active_pipes sample_fq)" "sock_avail sample_env 8 \<noteq> []"
proof -
  show "fq_ok sample_fq" by (auto simp: fq_ok_def sample_fq_def arr_ok_def less_Suc_eq)
  show "sock_good sample_env"
    by (auto simp: sock_good_def sample_env_def sample_end_def plain_def end_wf_def pipe_new_def upipe_new_def acked_def uq_def is_credential_def)
  show "8 \<in> set (active_pipes sample_fq)" by (simp add: active_pipes_def sample_fq_def)
  show "sock_avail sample_env 8 \<noteq> []"
    by (simp add: sock_avail_def sample_env_def sample_end_def avail_of_def may_read_def pipe_new_def upipe_new_def)
qed

theorem fq_recv_fair_witness:
  "turns sample_fq 8 < 2 \<and> (\<exists>m i f' s'. recvpipe sock_read sample_fq sample_env = Inr (Some (m, i), f', s') \<and>
     served (sock_avail sample_env) (sock_avail s') sample_fq f' m i)"
  using fq_recv_fair[OF sample_fq_ok] by (auto simp: sample_fq_def)

end
