(* ===== verification/Load_Balance.thy ===== *)
theory Load_Balance
  imports Fair_Queue
begin

text \<open>
  Load balancing over the outbound pipes of a socket: \<^verbatim>\<open>lb.cpp\<close>.  The locale \<open>message_sink\<close> is what the
  distribution of messages relies on; it is interpreted with the pipes of a socket.
\<close>

record lb =
  l_pipes :: "pid parray"
  l_active :: nat
  l_current :: nat
  l_more :: bool
  l_dropping :: bool

datatype lbrc = Sent pid | Dropped | Again | Rolled_back

definition lb_new :: lb where
  "lb_new = \<lparr>l_pipes = array_new, l_active = 0, l_current = 0, l_more = False, l_dropping = False\<rparr>"

definition lb_activated :: "pid \<Rightarrow> lb \<Rightarrow> lb result" where
  "lb_activated x l = bindE (swap (index_of x (l_pipes l)) (int (l_active l)) (l_pipes l))
     (\<lambda>a1. Inr (l\<lparr>l_pipes := a1, l_active := l_active l + 1\<rparr>))"

definition lb_attach :: "pid \<Rightarrow> lb \<Rightarrow> lb result" where
  "lb_attach x l = lb_activated x (l\<lparr>l_pipes := push_back x (l_pipes l)\<rparr>)"

definition lb_pipe_terminated :: "pid \<Rightarrow> lb \<Rightarrow> lb result" where
  "lb_pipe_terminated x l0 = (let k = index_of x (l_pipes l0);
       l = (if k = int (l_current l0) \<and> l_more l0 then l0\<lparr>l_dropping := True\<rparr> else l0) in
     bindE (if 0 \<le> k \<and> k < int (l_active l)
            then bindE (swap k (int (l_active l - 1)) (l_pipes l)) (\<lambda>a1.
              Inr (l\<lparr>l_pipes := a1, l_active := l_active l - 1,
                     l_current := (if l_current l = l_active l - 1 then 0 else l_current l)\<rparr>))
            else Inr l)
       (\<lambda>l1. bindE (erase x (l_pipes l1)) (\<lambda>a2. Inr (l1\<lparr>l_pipes := a2\<rparr>))))"

text \<open>After a failed write the pipe leaves the active ones.\<close>

definition lb_set_aside :: "lb \<Rightarrow> lb result" where
  "lb_set_aside l = (let l1 = l\<lparr>l_active := l_active l - 1\<rparr> in
     if l_current l1 < l_active l1
     then bindE (swap (int (l_current l1)) (int (l_active l1)) (l_pipes l1)) (\<lambda>a. Inr (l1\<lparr>l_pipes := a\<rparr>))
     else Inr (l1\<lparr>l_current := 0\<rparr>))"

lemma lb_set_aside_active: "lb_set_aside l = Inr l' \<Longrightarrow> l_active l' = l_active l - 1"
  by (auto simp: lb_set_aside_def Let_def bindE_eq_Inr split: if_splits)

text \<open>The loop: the pipe that took the message, none, or the end of a message that broke off.\<close>

function lb_write_loop :: "(pid \<Rightarrow> wmsg \<Rightarrow> 's \<Rightarrow> (bool \<times> 's) result) \<Rightarrow> (pid \<Rightarrow> 's \<Rightarrow> 's result) \<Rightarrow> wmsg \<Rightarrow> lb \<Rightarrow> 's \<Rightarrow>
    (lbrc \<times> lb \<times> 's) result" where
  "lb_write_loop wr rb m l s =
     (if l_active l = 0 then Inr (Again, l, s)
      else bindE (a_at (l_current l) (l_pipes l)) (\<lambda>i. bindE (wr i m s) (\<lambda>(b, s1).
        if b then Inr (Sent i, l, s1)
        else if l_more l then bindE (rb i s1) (\<lambda>s2.
          Inr (Rolled_back, l\<lparr>l_dropping := has_more (Msg m), l_more := False\<rparr>, s2))
        else bindE (lb_set_aside l) (\<lambda>l1. lb_write_loop wr rb m l1 s1))))"
  by pat_completeness auto
termination
  by (relation "measure (\<lambda>(wr, rb, m, l, s). l_active l)") (auto dest: lb_set_aside_active)

declare lb_write_loop.simps [simp del]

definition sendpipe :: "(pid \<Rightarrow> wmsg \<Rightarrow> 's \<Rightarrow> (bool \<times> 's) result) \<Rightarrow> (pid \<Rightarrow> 's \<Rightarrow> 's result) \<Rightarrow> (pid \<Rightarrow> 's \<Rightarrow> 's result) \<Rightarrow>
    wmsg \<Rightarrow> lb \<Rightarrow> 's \<Rightarrow> (lbrc \<times> lb \<times> 's) result" where
  "sendpipe wr rb fl m l s =
     (let more = has_more (Msg m) in
      if l_dropping l then Inr (Dropped, l\<lparr>l_more := more, l_dropping := more\<rparr>, s)
      else bindE (lb_write_loop wr rb m l s) (\<lambda>(rc, l1, s1). case rc of
          Sent i \<Rightarrow>
            if more then Inr (Sent i, l1\<lparr>l_more := True\<rparr>, s1)
            else bindE (fl i s1) (\<lambda>s2. Inr (Sent i, l1\<lparr>l_more := False,
                l_current := (if l_current l1 + 1 \<ge> l_active l1 then 0 else l_current l1 + 1)\<rparr>, s2))
        | _ \<Rightarrow> Inr (rc, l1, s1)))"

fun lb_code :: "lbrc \<Rightarrow> int" where
  "lb_code (Sent _) = 0"
| "lb_code Dropped = 0"
| "lb_code Again = -1"
| "lb_code Rolled_back = -2"

definition lb_send :: "(pid \<Rightarrow> wmsg \<Rightarrow> 's \<Rightarrow> (bool \<times> 's) result) \<Rightarrow> (pid \<Rightarrow> 's \<Rightarrow> 's result) \<Rightarrow> (pid \<Rightarrow> 's \<Rightarrow> 's result) \<Rightarrow>
    wmsg \<Rightarrow> lb \<Rightarrow> 's \<Rightarrow> (int \<times> lb \<times> 's) result" where
  "lb_send wr rb fl m l s = bindE (sendpipe wr rb fl m l s) (\<lambda>(rc, l1, s1). Inr (lb_code rc, l1, s1))"

function has_out_loop :: "(pid \<Rightarrow> 's \<Rightarrow> (bool \<times> 's) result) \<Rightarrow> lb \<Rightarrow> 's \<Rightarrow> (bool \<times> lb \<times> 's) result" where
  "has_out_loop cw l s =
     (if l_active l = 0 then Inr (False, l, s)
      else bindE (a_at (l_current l) (l_pipes l)) (\<lambda>i. bindE (cw i s) (\<lambda>(b, s1).
        if b then Inr (True, l, s1)
        else bindE (swap (int (l_current l)) (int (l_active l - 1)) (l_pipes l)) (\<lambda>a.
          has_out_loop cw (l\<lparr>l_pipes := a, l_active := l_active l - 1,
            l_current := (if l_current l = l_active l - 1 then 0 else l_current l)\<rparr>) s1))))"
  by pat_completeness auto
termination
  by (relation "measure (\<lambda>(cw, l, s). l_active l)") auto

declare has_out_loop.simps [simp del]

definition has_out :: "(pid \<Rightarrow> 's \<Rightarrow> (bool \<times> 's) result) \<Rightarrow> lb \<Rightarrow> 's \<Rightarrow> (bool \<times> lb \<times> 's) result" where
  "has_out cw l s = (if l_more l then Inr (True, l, s) else has_out_loop cw l s)"

text \<open>The parts of one message: all but the last have the flag set.\<close>

fun one_message :: "wmsg list \<Rightarrow> bool" where
  "one_message [] = False"
| "one_message [m] = (\<not> has_more (Msg m))"
| "one_message (m # ms) = (has_more (Msg m) \<and> one_message ms)"

section \<open>Invariant\<close>

definition lb_ok :: "lb \<Rightarrow> bool" where
  "lb_ok l \<longleftrightarrow> arr_ok (l_pipes l) \<and> l_active l \<le> length (items (l_pipes l)) \<and>
     (if l_active l = 0 then l_current l = 0 else l_current l < l_active l)"

definition lb_pipes :: "lb \<Rightarrow> pid list" where
  "lb_pipes l = take (l_active l) (items (l_pipes l))"

definition lb_cur :: "lb \<Rightarrow> pid" where
  "lb_cur l = items (l_pipes l) ! l_current l"

text \<open>The bookkeeping is that of the fair queue, and its lemmas carry over.\<close>

definition as_fq :: "lb \<Rightarrow> fq" where
  "as_fq l = \<lparr>f_pipes = l_pipes l, f_active = l_active l, f_current = l_current l, f_more = l_more l\<rparr>"

lemma as_fq_simps [simp]: "fq_ok (as_fq l) = lb_ok l" "active_pipes (as_fq l) = lb_pipes l" "cur (as_fq l) = lb_cur l"
  "f_active (as_fq l) = l_active l" "f_current (as_fq l) = l_current l" "f_pipes (as_fq l) = l_pipes l"
  by (simp_all add: fq_ok_def lb_ok_def as_fq_def active_pipes_def lb_pipes_def cur_def lb_cur_def)

lemma lb_ok_new: "lb_ok lb_new"
  using arr_ok_new by (simp add: lb_ok_def lb_new_def)

lemma lb_activated_fq: "lb_activated x l = bindE (fq_activated x (as_fq l)) (\<lambda>f. Inr (l\<lparr>l_pipes := f_pipes f, l_active := f_active f\<rparr>))"
  by (cases "swap (index_of x (l_pipes l)) (int (l_active l)) (l_pipes l)") (simp_all add: lb_activated_def fq_activated_def as_fq_def)

lemma lb_activated_ok:
  assumes "lb_ok l" "x \<in> set (items (l_pipes l)) - set (lb_pipes l)"
  shows "\<exists>l'. lb_activated x l = Inr l' \<and> lb_ok l' \<and> set (lb_pipes l') = insert x (set (lb_pipes l)) \<and>
    set (items (l_pipes l')) = set (items (l_pipes l))"
proof -
  from fq_activated_ok[of "as_fq l" x] assms obtain f where f: "fq_activated x (as_fq l) = Inr f" "fq_ok f"
    "set (active_pipes f) = insert x (set (lb_pipes l))" "set (items (f_pipes f)) = set (items (l_pipes l))" by auto
  moreover have "f_current f = l_current l" using f(1) by (auto simp: fq_activated_def bindE_eq_Inr as_fq_def)
  ultimately show ?thesis
    by (auto simp: lb_activated_fq lb_ok_def fq_ok_def lb_pipes_def active_pipes_def)
qed

lemma lb_attach_ok:
  assumes "lb_ok l" "x \<notin> set (items (l_pipes l))"
  shows "\<exists>l'. lb_attach x l = Inr l' \<and> lb_ok l' \<and> set (lb_pipes l') = insert x (set (lb_pipes l)) \<and>
    set (items (l_pipes l')) = insert x (set (items (l_pipes l)))"
proof -
  let ?l = "l\<lparr>l_pipes := push_back x (l_pipes l)\<rparr>"
  have "lb_ok ?l" "lb_pipes ?l = lb_pipes l" "items (l_pipes ?l) = items (l_pipes l) @ [x]"
    using assms push_back_ok[of "l_pipes l" x] by (auto simp: lb_ok_def lb_pipes_def push_back_def)
  moreover have "x \<notin> set (lb_pipes l)" using assms(2) by (auto simp: lb_pipes_def dest: in_set_takeD)
  ultimately show ?thesis using lb_activated_ok[of ?l x] by (auto simp: lb_attach_def)
qed

lemma lb_terminated_ok:
  assumes "lb_ok l" "x \<in> set (items (l_pipes l))"
  shows "\<exists>l'. lb_pipe_terminated x l = Inr l' \<and> lb_ok l' \<and> set (lb_pipes l') = set (lb_pipes l) - {x} \<and>
    set (items (l_pipes l')) = set (items (l_pipes l)) - {x} \<and>
    (l_dropping l' \<longleftrightarrow> l_dropping l \<or> l_more l \<and> index_of x (l_pipes l) = int (l_current l))"
proof -
  from fq_terminated_ok[of "as_fq l" x] assms obtain f where f: "fq_pipe_terminated x (as_fq l) = Inr f" "fq_ok f"
    "set (active_pipes f) = set (lb_pipes l) - {x}" "set (items (f_pipes f)) = set (items (l_pipes l)) - {x}" by auto
  let ?d = "l_dropping l \<or> l_more l \<and> index_of x (l_pipes l) = int (l_current l)"
  have "lb_pipe_terminated x l = Inr (l\<lparr>l_pipes := f_pipes f, l_active := f_active f, l_current := f_current f, l_dropping := ?d\<rparr>)"
    using f(1) by (auto simp: lb_pipe_terminated_def fq_pipe_terminated_def as_fq_def Let_def bindE_eq_Inr split: if_splits)
  with f show ?thesis by (auto simp: lb_ok_def fq_ok_def lb_pipes_def active_pipes_def)
qed

lemma lb_set_aside_ok:
  assumes "lb_ok l" "l_active l > 0"
  shows "\<exists>l'. lb_set_aside l = Inr l' \<and> deactivate (as_fq l) = Inr (as_fq l') \<and> l_more l' = l_more l \<and> l_dropping l' = l_dropping l"
proof -
  from assms have c: "l_current l < l_active l" "l_active l \<le> length (items (l_pipes l))" "arr_ok (l_pipes l)" by (auto simp: lb_ok_def)
  have b: "l_current l < length (items (l_pipes l))" "l_active l - 1 < length (items (l_pipes l))" using c by simp_all
  from swap_ok[OF c(3) b] obtain a where
    a: "swap (int (l_current l)) (int (l_active l - 1)) (l_pipes l) = Inr a" by blast
  show ?thesis
  proof (cases "l_current l < l_active l - 1")
    case True
    with a show ?thesis by (auto simp: lb_set_aside_def deactivate_def as_fq_def)
  next
    case False
    then have e: "l_current l = l_active l - 1" using c(1) by simp
    have "a = l_pipes l" using a swap_self[OF c(3) b(2)] unfolding e by simp
    with a e show ?thesis by (auto simp: lb_set_aside_def deactivate_def as_fq_def)
  qed
qed


section \<open>What the balancer relies on, and what it gives\<close>

text \<open>
  One part handed to the pipe \<open>i\<close>: that pipe has it as its last part and no other pipe has changed, the parts of one
  message go to one pipe, and every other pipe with room keeps its turn or moves up.
\<close>

definition balanced :: "(pid \<Rightarrow> pmsg list) \<Rightarrow> (pid \<Rightarrow> pmsg list) \<Rightarrow> (pid \<Rightarrow> bool) \<Rightarrow> lb \<Rightarrow> lb \<Rightarrow> wmsg \<Rightarrow> pid \<Rightarrow> bool" where
  "balanced st st' rm l l' m i \<longleftrightarrow> i \<in> set (lb_pipes l) \<and> rm i \<and> st' = st(i := st i @ [Msg m]) \<and>
     l_more l' = has_more (Msg m) \<and> \<not> l_dropping l' \<and> (has_more (Msg m) \<longrightarrow> lb_cur l' = i) \<and> (l_more l \<longrightarrow> i = lb_cur l) \<and>
     set (items (l_pipes l')) = set (items (l_pipes l)) \<and>
     (\<forall>j\<in>set (lb_pipes l). rm j \<longrightarrow> j \<in> set (lb_pipes l') \<and>
        (j \<noteq> i \<longrightarrow> turns (as_fq l') j + (if has_more (Msg m) then 0 else 1) \<le> turns (as_fq l) j))"

locale message_sink =
  fixes wr :: "pid \<Rightarrow> wmsg \<Rightarrow> 's \<Rightarrow> (bool \<times> 's) result"
    and rb :: "pid \<Rightarrow> 's \<Rightarrow> 's result"
    and fl :: "pid \<Rightarrow> 's \<Rightarrow> 's result"
    and cw :: "pid \<Rightarrow> 's \<Rightarrow> (bool \<times> 's) result"
    and room :: "'s \<Rightarrow> pid \<Rightarrow> bool"
    and sent :: "'s \<Rightarrow> pid \<Rightarrow> pmsg list"
    and whole :: "'s \<Rightarrow> pid \<Rightarrow> pmsg list"
    and good :: "'s \<Rightarrow> bool"
  assumes wr_room: "good s \<Longrightarrow> room s i \<Longrightarrow> \<exists>s'. wr i m s = Inr (True, s') \<and> good s' \<and>
      sent s' = (sent s)(i := sent s i @ [Msg m]) \<and> (\<forall>j. j \<noteq> i \<or> has_more (Msg m) \<longrightarrow> room s' j = room s j)"
    and wr_full: "good s \<Longrightarrow> \<not> room s i \<Longrightarrow> \<exists>s'. wr i m s = Inr (False, s') \<and> good s' \<and>
      sent s' = sent s \<and> whole s' = whole s \<and> room s' = room s"
    and fl: "good s \<Longrightarrow> \<exists>s'. fl i s = Inr s' \<and> good s' \<and> sent s' = sent s \<and> room s' = room s"
    and rb: "good s \<Longrightarrow> \<exists>s'. rb i s = Inr s' \<and> good s' \<and> sent s' = (sent s)(i := whole s i) \<and> room s' = room s"
    and cw: "good s \<Longrightarrow> \<exists>s'. cw i s = Inr (room s i, s') \<and> good s' \<and> sent s' = sent s \<and> room s' = room s"
begin

lemma skip_full:
  assumes "lb_ok l" "good s" "l_active l > 0" "\<not> room s (lb_cur l)" "\<not> l_more l"
  shows "\<exists>l1 s1. lb_write_loop wr rb m l s = lb_write_loop wr rb m l1 s1 \<and> good s1 \<and> sent s1 = sent s \<and> room s1 = room s \<and>
    lb_ok l1 \<and> deactivate (as_fq l) = Inr (as_fq l1) \<and> l_more l1 = l_more l \<and> l_dropping l1 = l_dropping l \<and>
    l_active l1 = l_active l - 1 \<and> set (items (l_pipes l1)) = set (items (l_pipes l))"
proof -
  have c: "l_current l < l_active l" "l_active l \<le> length (items (l_pipes l))" using assms by (auto simp: lb_ok_def)
  have at: "a_at (l_current l) (l_pipes l) = Inr (lb_cur l)" using c by (simp add: a_at_def lb_cur_def)
  from wr_full[OF assms(2,4)] obtain s1 where s1: "wr (lb_cur l) m s = Inr (False, s1)" "good s1" "sent s1 = sent s" "room s1 = room s" by blast
  from lb_set_aside_ok[OF assms(1,3)] obtain l1 where l1: "lb_set_aside l = Inr l1" "deactivate (as_fq l) = Inr (as_fq l1)"
    "l_more l1 = l_more l" "l_dropping l1 = l_dropping l" by blast
  from deactivate_ok[of "as_fq l"] assms(1,3) l1(2) have "fq_ok (as_fq l1)"
    "items (f_pipes (as_fq l1)) = swap_list (l_current l) (l_active l - 1) (items (l_pipes l))" by auto
  then have "lb_ok l1" "set (items (l_pipes l1)) = set (items (l_pipes l))" using c by simp_all
  moreover have "lb_write_loop wr rb m l s = lb_write_loop wr rb m l1 s1"
    using assms(3,5) at s1(1) l1(1) by (simp add: lb_write_loop.simps[of wr rb m l s])
  ultimately show ?thesis using s1 l1 lb_set_aside_active[OF l1(1)] by blast
qed

lemma loop_none:
  assumes "lb_ok l" "good s" "\<forall>i\<in>set (lb_pipes l). \<not> room s i" "\<not> l_more l \<or> l_active l = 0"
  shows "\<exists>l' s'. lb_write_loop wr rb m l s = Inr (Again, l', s') \<and> lb_ok l' \<and> good s' \<and> sent s' = sent s \<and> lb_pipes l' = [] \<and>
    set (items (l_pipes l')) = set (items (l_pipes l))"
  using assms
proof (induction "l_active l" arbitrary: l s)
  case 0
  then show ?case by (auto simp: lb_write_loop.simps[of wr rb m l] lb_pipes_def)
next
  case (Suc n)
  have a: "l_active l > 0" "\<not> l_more l" using Suc(2,6) by auto
  then have "lb_cur l \<in> set (lb_pipes l)"
    using Suc.prems(1) mem_take_nth[of "l_current l"] by (auto simp: lb_cur_def lb_pipes_def lb_ok_def)
  with Suc.prems(3) have "\<not> room s (lb_cur l)" by blast
  from skip_full[OF Suc.prems(1,2) a(1) this a(2), of m] obtain l1 s1 where 1: "lb_write_loop wr rb m l s = lb_write_loop wr rb m l1 s1"
    "good s1" "sent s1 = sent s" "room s1 = room s" "lb_ok l1" "deactivate (as_fq l) = Inr (as_fq l1)" "l_more l1 = l_more l"
    "l_active l1 = l_active l - 1" "set (items (l_pipes l1)) = set (items (l_pipes l))" by blast
  have "set (lb_pipes l1) \<subseteq> set (lb_pipes l)" using deactivate_sub[OF _ 1(6)] Suc.prems(1) by simp
  then have none: "\<forall>i\<in>set (lb_pipes l1). \<not> room s1 i" using Suc.prems(3) 1(4) by auto
  have n: "n = l_active l1" and nm: "\<not> l_more l1 \<or> l_active l1 = 0" using Suc(2) 1 a by auto
  from Suc.hyps(1)[OF n 1(5,2) none nm] 1(1,3,9) show ?case by simp
qed

lemma loop_some:
  assumes "lb_ok l" "good s" "k \<in> set (lb_pipes l)" "room s k" "l_more l \<Longrightarrow> room s (lb_cur l)"
  shows "\<exists>l' s'. lb_write_loop wr rb m l s = Inr (Sent (lb_cur l'), l', s') \<and> lb_ok l' \<and> good s' \<and> l_active l' > 0 \<and>
    lb_cur l' \<in> set (lb_pipes l) \<and> room s (lb_cur l') \<and> sent s' = (sent s)(lb_cur l' := sent s (lb_cur l') @ [Msg m]) \<and>
    (l_more l \<longrightarrow> l' = l) \<and> l_dropping l' = l_dropping l \<and> set (items (l_pipes l')) = set (items (l_pipes l)) \<and>
    (\<forall>j\<in>set (lb_pipes l). room s j \<longrightarrow> j \<in> set (lb_pipes l') \<and> turns (as_fq l') j \<le> turns (as_fq l) j)"
  using assms
proof (induction "l_active l" arbitrary: l s)
  case 0
  then show ?case by (simp add: lb_pipes_def)
next
  case (Suc n)
  have c: "l_current l < l_active l" "l_active l \<le> length (items (l_pipes l))" using Suc(2,3) by (auto simp: lb_ok_def)
  have at: "a_at (l_current l) (l_pipes l) = Inr (lb_cur l)" using c by (simp add: a_at_def lb_cur_def)
  have ca: "lb_cur l \<in> set (lb_pipes l)" using c mem_take_nth[of "l_current l"] by (simp add: lb_cur_def lb_pipes_def)
  show ?case
  proof (cases "room s (lb_cur l)")
    case True
    from wr_room[OF Suc.prems(2) True, of m] obtain s1 where s1: "wr (lb_cur l) m s = Inr (True, s1)" "good s1"
      "sent s1 = (sent s)(lb_cur l := sent s (lb_cur l) @ [Msg m])" by blast
    have "lb_write_loop wr rb m l s = Inr (Sent (lb_cur l), l, s1)"
      using Suc(2) at s1(1) by (simp add: lb_write_loop.simps[of wr rb m l s])
    with s1 ca True Suc(2) Suc.prems(1) show ?thesis by auto
  next
    case False
    then have nm: "\<not> l_more l" and kc: "k \<noteq> lb_cur l" using Suc.prems(4,5) by auto
    have a: "l_active l > 0" using Suc(2) by simp
    from skip_full[OF Suc.prems(1,2) a False nm, of m] obtain l1 s1 where 1: "lb_write_loop wr rb m l s = lb_write_loop wr rb m l1 s1"
      "good s1" "sent s1 = sent s" "room s1 = room s" "lb_ok l1" "deactivate (as_fq l) = Inr (as_fq l1)" "l_more l1 = l_more l"
      "l_active l1 = l_active l - 1" "set (items (l_pipes l1)) = set (items (l_pipes l))" "l_dropping l1 = l_dropping l" by blast
    have t: "j \<in> set (lb_pipes l1) \<and> turns (as_fq l1) j \<le> turns (as_fq l) j" if "j \<in> set (lb_pipes l)" "room s j" for j
      using deactivate_turns[OF _ 1(6), of j] that False Suc.prems(1) by auto
    have sub: "set (lb_pipes l1) \<subseteq> set (lb_pipes l)" using deactivate_sub[OF _ 1(6)] Suc.prems(1) by simp
    have h: "n = l_active l1" "k \<in> set (lb_pipes l1)" "room s1 k" "\<not> l_more l1" using Suc(2) t[OF Suc.prems(3,4)] Suc.prems(4) 1 nm by auto
    from Suc.hyps(1)[OF h(1) 1(5,2) h(2,3)] h(4) obtain l' s' where ih: "lb_write_loop wr rb m l1 s1 = Inr (Sent (lb_cur l'), l', s')"
      "lb_ok l'" "good s'" "l_active l' > 0" "lb_cur l' \<in> set (lb_pipes l1)" "room s (lb_cur l')"
      "sent s' = (sent s)(lb_cur l' := sent s (lb_cur l') @ [Msg m])" "l_dropping l' = l_dropping l"
      "set (items (l_pipes l')) = set (items (l_pipes l))"
      "\<And>j. j \<in> set (lb_pipes l1) \<Longrightarrow> room s j \<Longrightarrow> j \<in> set (lb_pipes l') \<and> turns (as_fq l') j \<le> turns (as_fq l1) j"
      unfolding 1(3,4,9,10) by blast
    have "j \<in> set (lb_pipes l') \<and> turns (as_fq l') j \<le> turns (as_fq l) j" if "j \<in> set (lb_pipes l)" "room s j" for j
      using t[OF that] ih(10)[of j] that(2) by fastforce
    with ih(1-9) 1(1) sub nm show ?thesis by auto
  qed
qed

lemma send_some:
  assumes "lb_ok l" "good s" "\<not> l_dropping l" "k \<in> set (lb_pipes l)" "room s k" "l_more l \<Longrightarrow> room s (lb_cur l)"
  shows "\<exists>i l' s'. sendpipe wr rb fl m l s = Inr (Sent i, l', s') \<and> lb_ok l' \<and> good s' \<and> balanced (sent s) (sent s') (room s) l l' m i"
proof -
  from loop_some[OF assms(1,2,4,5,6), of m] obtain l1 s1 where 1: "lb_write_loop wr rb m l s = Inr (Sent (lb_cur l1), l1, s1)" "lb_ok l1" "good s1"
    "l_active l1 > 0" "lb_cur l1 \<in> set (lb_pipes l)" "room s (lb_cur l1)" "sent s1 = (sent s)(lb_cur l1 := sent s (lb_cur l1) @ [Msg m])"
    "l_more l \<longrightarrow> l1 = l" "l_dropping l1 = l_dropping l" "set (items (l_pipes l1)) = set (items (l_pipes l))"
    and t: "\<And>j. j \<in> set (lb_pipes l) \<Longrightarrow> room s j \<Longrightarrow> j \<in> set (lb_pipes l1) \<and> turns (as_fq l1) j \<le> turns (as_fq l) j" by blast
  have c: "l_current l1 < l_active l1" using 1(2,4) by (auto simp: lb_ok_def)
  show ?thesis
  proof (cases "has_more (Msg m)")
    case True
    let ?l = "l1\<lparr>l_more := True\<rparr>"
    have "lb_ok ?l" "lb_pipes ?l = lb_pipes l1" "lb_cur ?l = lb_cur l1" "\<And>j. turns (as_fq ?l) j = turns (as_fq l1) j"
      using 1(2) by (simp_all add: lb_ok_def lb_pipes_def lb_cur_def as_fq_def turns_def)
    moreover have "sendpipe wr rb fl m l s = Inr (Sent (lb_cur l1), ?l, s1)" using 1(1) True assms(3) by (simp add: sendpipe_def)
    ultimately show ?thesis using 1 t True assms(3) by (auto simp: balanced_def)
  next
    case False
    from fl[OF 1(3), of "lb_cur l1"] obtain s2 where s2: "fl (lb_cur l1) s1 = Inr s2" "good s2" "sent s2 = sent s1" by blast
    let ?c = "if l_current l1 + 1 \<ge> l_active l1 then 0 else l_current l1 + 1"
    let ?l = "l1\<lparr>l_more := False, l_current := ?c\<rparr>"
    have cm: "?c = (l_current l1 + 1) mod l_active l1" using c by (cases "l_current l1 + 1 = l_active l1") auto
    have "as_fq ?l = (as_fq l1)\<lparr>f_more := False, f_current := (f_current (as_fq l1) + 1) mod f_active (as_fq l1)\<rparr>"
      unfolding cm by (simp add: as_fq_def)
    then have n: "turns (as_fq ?l) j + 1 \<le> turns (as_fq l1) j" if "j \<in> set (lb_pipes l1)" "j \<noteq> lb_cur l1" for j
      using next_turn[of "as_fq l1" j False] that 1(2) by simp
    have l: "lb_ok ?l" "lb_pipes ?l = lb_pipes l1" using 1(2,4) by (auto simp: lb_ok_def lb_pipes_def)
    have "turns (as_fq ?l) j + 1 \<le> turns (as_fq l) j" if "j \<in> set (lb_pipes l)" "room s j" "j \<noteq> lb_cur l1" for j
      using n[of j] t[OF that(1,2)] that(3) by linarith
    moreover have "sendpipe wr rb fl m l s = Inr (Sent (lb_cur l1), ?l, s2)" using 1(1) False s2(1) assms(3) by (simp add: sendpipe_def)
    ultimately show ?thesis using 1 t l s2 False assms(3) by (auto simp: balanced_def)
  qed
qed

lemma send_broken:
  assumes "lb_ok l" "good s" "\<not> l_dropping l" "l_more l" "l_active l > 0" "\<not> room s (lb_cur l)"
  shows "\<exists>s'. sendpipe wr rb fl m l s = Inr (Rolled_back, l\<lparr>l_dropping := has_more (Msg m), l_more := False\<rparr>, s') \<and> good s' \<and>
    sent s' = (sent s)(lb_cur l := whole s (lb_cur l))"
proof -
  have c: "l_current l < length (items (l_pipes l))" using assms by (auto simp: lb_ok_def)
  have at: "a_at (l_current l) (l_pipes l) = Inr (lb_cur l)" using c by (simp add: a_at_def lb_cur_def)
  from wr_full[OF assms(2,6), of m] obtain s1 where s1: "wr (lb_cur l) m s = Inr (False, s1)" "good s1" "sent s1 = sent s" "whole s1 = whole s" by blast
  from rb[OF s1(2)] obtain s2 where s2: "rb (lb_cur l) s1 = Inr s2" "good s2" "sent s2 = (sent s1)(lb_cur l := whole s1 (lb_cur l))" by blast
  show ?thesis using assms(3-5) at s1 s2 by (simp add: sendpipe_def lb_write_loop.simps[of wr rb m l s])
qed

lemma has_out_exact:
  assumes "lb_ok l" "good s" "\<not> l_more l"
  shows "\<exists>l' s'. has_out cw l s = Inr (\<exists>i\<in>set (lb_pipes l). room s i, l', s') \<and> lb_ok l' \<and> good s' \<and> sent s' = sent s"
  using assms unfolding has_out_def
proof (induction "l_active l" arbitrary: l s)
  case 0
  then show ?case by (auto simp: has_out_loop.simps[of cw l] lb_pipes_def)
next
  case (Suc n)
  have c: "l_current l < l_active l" "l_active l \<le> length (items (l_pipes l))" using Suc(2,3) by (auto simp: lb_ok_def)
  have at: "a_at (l_current l) (l_pipes l) = Inr (lb_cur l)" using c by (simp add: a_at_def lb_cur_def)
  have ca: "lb_cur l \<in> set (lb_pipes l)" using c mem_take_nth[of "l_current l"] by (simp add: lb_cur_def lb_pipes_def)
  from cw[OF Suc.prems(2)] obtain s1 where s1: "cw (lb_cur l) s = Inr (room s (lb_cur l), s1)" "good s1" "sent s1 = sent s" "room s1 = room s" by blast
  show ?case
  proof (cases "room s (lb_cur l)")
    case True
    then have "has_out_loop cw l s = Inr (True, l, s1)" using Suc(2) at s1(1) by (simp add: has_out_loop.simps[of cw l s])
    with True ca s1 Suc.prems show ?thesis by auto
  next
    case False
    from deactivate_ok[of "as_fq l"] Suc(2,3) obtain f1 where f1: "deactivate (as_fq l) = Inr f1" "fq_ok f1" "f_active f1 = l_active l - 1" by auto
    define l1 where "l1 = l\<lparr>l_pipes := f_pipes f1, l_active := f_active f1, l_current := f_current f1\<rparr>"
    have l1: "as_fq l1 = f1" "\<not> l_more l1"
      using f1(1) Suc.prems(3) by (auto simp: l1_def as_fq_def deactivate_def bindE_eq_Inr)
    have ok: "lb_ok l1" "l_active l1 = l_active l - 1" using f1 l1 as_fq_simps(1,4)[of l1] by simp_all
    have "has_out_loop cw l s = has_out_loop cw l1 s1"
      using Suc(2) at s1(1) f1(1) False
      by (auto simp: has_out_loop.simps[of cw l s] deactivate_def as_fq_def bindE_eq_Inr l1_def)
    moreover have "set (lb_pipes l1) \<subseteq> set (lb_pipes l)"
      using deactivate_sub[of "as_fq l" f1] f1(1) Suc.prems(1) l1(1) as_fq_simps(2)[of l1] by simp
    moreover have "j \<in> set (lb_pipes l1)" if "j \<in> set (lb_pipes l)" "room s j" for j
      using deactivate_turns[of "as_fq l" f1 j] f1(1) Suc.prems(1) that False l1(1) as_fq_simps(2)[of l1] by auto
    ultimately have "has_out_loop cw l s = has_out_loop cw l1 s1" "(\<exists>i\<in>set (lb_pipes l1). room s1 i) = (\<exists>i\<in>set (lb_pipes l). room s i)"
      using s1(4) by auto
    with Suc.hyps(1)[OF _ ok(1) s1(2) l1(2)] Suc(2) ok(2) s1(3) Suc.prems(3) l1(2) show ?thesis by simp
  qed
qed

end

section \<open>The outbound pipes of a socket\<close>

definition sock_write :: "pid \<Rightarrow> wmsg \<Rightarrow> sockenv \<Rightarrow> (bool \<times> sockenv) result" where
  "sock_write i m = on_end i (pipe_write m)"

definition sock_rollback :: "pid \<Rightarrow> sockenv \<Rightarrow> sockenv result" where
  "sock_rollback i s = bindE (on_end i (\<lambda>e. bindE (rollback e) (\<lambda>e1. Inr ((), e1))) s) (\<lambda>(_, s1). Inr s1)"

definition sock_flush :: "pid \<Rightarrow> sockenv \<Rightarrow> sockenv result" where
  "sock_flush i s = bindE (on_end i (\<lambda>e. Inr ((), flush e)) s) (\<lambda>(_, s1). Inr s1)"

definition sock_check_write :: "pid \<Rightarrow> sockenv \<Rightarrow> (bool \<times> sockenv) result" where
  "sock_check_write i = on_end i (\<lambda>e. Inr (check_write e))"

definition room_of :: "endp \<Rightarrow> bool" where
  "room_of e \<longleftrightarrow> out_active (me e) \<and> state (me e) = Active \<and> check_hwm e"

definition sock_room :: "sockenv \<Rightarrow> pid \<Rightarrow> bool" where
  "sock_room s i = room_of (ends s i)"

definition sock_sent :: "sockenv \<Rightarrow> pid \<Rightarrow> pmsg list" where
  "sock_sent s i = all_items (outq (ends s i))"

text \<open>What a rollback leaves: the complete messages.\<close>

definition whole_of :: "endp \<Rightarrow> pmsg list" where
  "whole_of e = (if out_pipe (me e) = None then all_items (outq e) else ready (outq e) @ pending (outq e))"

definition sock_whole :: "sockenv \<Rightarrow> pid \<Rightarrow> pmsg list" where
  "sock_whole s i = whole_of (ends s i)"

lemma room_cmds [simp]: "room_of (e\<lparr>cmds := c\<rparr>) = room_of e" "whole_of (e\<lparr>cmds := c\<rparr>) = whole_of e"
  by (simp_all add: room_of_def check_hwm_def whole_of_def)

lemma check_write_room: "check_write e = (room_of e, if out_active (me e) \<and> state (me e) = Active \<and> \<not> check_hwm e
    then upd_me (\<lambda>p. p\<lparr>out_active := False\<rparr>) e else e)"
  by (auto simp: check_write_def room_of_def)

lemma plain_effect: "plain e \<Longrightarrow> effect e e' \<Longrightarrow> inq e' = inq e \<Longrightarrow> plain e'"
  using effect_wf by (simp add: plain_def)

lemma check_write_keeps:
  "out_pipe (me (snd (check_write e))) = out_pipe (me e)" "outq (snd (check_write e)) = outq e" "inq (snd (check_write e)) = inq e"
  "room_of (snd (check_write e)) = room_of e" "whole_of (snd (check_write e)) = whole_of e"
  by (auto simp: check_write_room end_defs room_of_def check_hwm_def whole_of_def)

lemma write_room:
  assumes "plain e" "cmds e = []" "room_of e"
  shows "\<exists>e'. pipe_write m e = Inr (True, e') \<and> plain e' \<and> all_items (outq e') = all_items (outq e) @ [Msg m] \<and>
    (has_more (Msg m) \<longrightarrow> room_of e')"
proof -
  from pipe_write_effect[of e m] assms obtain r e' where e': "pipe_write m e = Inr (r, e')" "effect e e'" by (auto simp: plain_def)
  have c: "check_write e = (True, e)" using assms(3) by (auto simp: check_write_room room_of_def)
  obtain k where "out_pipe (me e) = Some k" using assms by (auto simp: room_of_def plain_def end_wf_def acked_def)
  with e'(1) c have "r = True \<and> inq e' = inq e \<and> all_items (outq e') = all_items (outq e) @ [Msg m] \<and> (has_more (Msg m) \<longrightarrow> room_of e')"
    using assms(3) by (auto simp: pipe_write_def Let_def end_defs all_items_def u_write_def room_of_def check_hwm_def)
  with e' plain_effect[OF assms(1)] show ?thesis by auto
qed

lemma write_full:
  assumes "plain e" "cmds e = []" "\<not> room_of e"
  shows "\<exists>e'. pipe_write m e = Inr (False, e') \<and> plain e' \<and> all_items (outq e') = all_items (outq e) \<and> whole_of e' = whole_of e \<and>
    \<not> room_of e'"
proof -
  have "fst (check_write e) = False" using assms(3) by (simp add: check_write_room)
  then have "pipe_write m e = Inr (False, snd (check_write e))" by (cases "check_write e") (simp add: pipe_write_def)
  moreover have "plain (snd (check_write e))"
    using plain_effect[OF assms(1) check_write_effect] assms by (simp add: plain_def check_write_keeps)
  ultimately show ?thesis using assms(3) by (simp add: check_write_keeps)
qed

lemma on_end_sink:
  assumes "g ((ends s i)\<lparr>cmds := []\<rparr>) = Inr (r, e')" "plain e'" "sock_good s"
  shows "\<exists>s'. on_end i g s = Inr (r, s') \<and> sock_good s' \<and> sock_sent s' = (sock_sent s)(i := all_items (outq e')) \<and>
    sock_whole s' = (sock_whole s)(i := whole_of e') \<and> sock_room s' = (sock_room s)(i := room_of e')"
  using assms by (auto simp: on_end_def sock_good_def sock_sent_def sock_whole_def sock_room_def fun_eq_iff)

interpretation sk: message_sink sock_write sock_rollback sock_flush sock_check_write sock_room sock_sent sock_whole sock_good
proof
  fix s i m assume g: "sock_good s" and r: "sock_room s i"
  let ?e = "(ends s i)\<lparr>cmds := []\<rparr>"
  have e: "plain ?e" "cmds ?e = []" "room_of ?e" using g r by (simp_all add: sock_good_def sock_room_def)
  from write_room[OF e, of m] obtain e' where e': "pipe_write m ?e = Inr (True, e')" "plain e'"
    "all_items (outq e') = sock_sent s i @ [Msg m]" "has_more (Msg m) \<longrightarrow> room_of e'" by (auto simp: sock_sent_def)
  from on_end_sink[of "pipe_write m" s i, OF e'(1,2) g] e'(3,4) r show "\<exists>s'. sock_write i m s = Inr (True, s') \<and> sock_good s' \<and>
      sock_sent s' = (sock_sent s)(i := sock_sent s i @ [Msg m]) \<and> (\<forall>j. j \<noteq> i \<or> has_more (Msg m) \<longrightarrow> sock_room s' j = sock_room s j)"
    unfolding sock_write_def by auto
next
  fix s i m assume g: "sock_good s" and r: "\<not> sock_room s i"
  let ?e = "(ends s i)\<lparr>cmds := []\<rparr>"
  have e: "plain ?e" "cmds ?e = []" "\<not> room_of ?e" using g r by (simp_all add: sock_good_def sock_room_def)
  from write_full[OF e, of m] obtain e' where e': "pipe_write m ?e = Inr (False, e')" "plain e'"
    "all_items (outq e') = sock_sent s i" "whole_of e' = sock_whole s i" "room_of e' = sock_room s i"
    using r by (auto simp: sock_sent_def sock_whole_def)
  from on_end_sink[of "pipe_write m" s i, OF e'(1,2) g] e'(3-5) show "\<exists>s'. sock_write i m s = Inr (False, s') \<and> sock_good s' \<and>
      sock_sent s' = sock_sent s \<and> sock_whole s' = sock_whole s \<and> sock_room s' = sock_room s"
    unfolding sock_write_def by auto
next
  fix s i assume g: "sock_good s"
  let ?e = "(ends s i)\<lparr>cmds := []\<rparr>"
  have p: "plain ?e" using g by (simp add: sock_good_def)
  then have "effect ?e (flush ?e)" by (intro flush_effect(1)) (simp_all add: plain_def)
  from plain_effect[OF p this] have "plain (flush ?e)" by (simp add: flush_fields)
  moreover have "all_items (outq (flush ?e)) = sock_sent s i" "room_of (flush ?e) = sock_room s i"
    by (auto simp: flush_def sock_sent_def sock_room_def Let_def u_flush_def all_items_def end_defs room_of_def check_hwm_def)
  ultimately show "\<exists>s'. sock_flush i s = Inr s' \<and> sock_good s' \<and> sock_sent s' = sock_sent s \<and> sock_room s' = sock_room s"
    using on_end_sink[of "\<lambda>e. Inr ((), flush e)" s i "()" "flush ?e"] g by (auto simp: sock_flush_def)
next
  fix s i assume g: "sock_good s"
  let ?e = "(ends s i)\<lparr>cmds := []\<rparr>"
  have p: "plain ?e" "end_wf ?e" using g by (simp_all only: sock_good_def plain_cmds, simp add: plain_def end_wf_def)
  then obtain e' where e': "rollback ?e = Inr e'" "effect ?e e'" using rollback_effect[of ?e] by auto
  have k: "inq e' = inq ?e \<and> all_items (outq e') = sock_whole s i \<and> room_of e' = sock_room s i"
    using rollback_ok[OF p(2)] e'(1)
    by (auto simp: sock_whole_def whole_of_def all_items_def sock_room_def room_of_def check_hwm_def end_wf_def)
  then have "plain e'" using plain_effect[OF p(1) e'(2)] by simp
  with on_end_sink[of "\<lambda>e. bindE (rollback e) (\<lambda>e1. Inr ((), e1))" s i "()" e'] g e'(1) k
  show "\<exists>s'. sock_rollback i s = Inr s' \<and> sock_good s' \<and> sock_sent s' = (sock_sent s)(i := sock_whole s i) \<and> sock_room s' = sock_room s"
    by (auto simp: sock_rollback_def)
next
  fix s i assume g: "sock_good s"
  let ?e = "(ends s i)\<lparr>cmds := []\<rparr>"
  have p: "plain ?e" using g by (simp add: sock_good_def)
  then have "effect ?e (snd (check_write ?e))" by (intro check_write_effect) (simp_all add: plain_def)
  from plain_effect[OF p this] have "plain (snd (check_write ?e))" by (simp add: check_write_keeps)
  moreover have "Inr (check_write ?e) = Inr (sock_room s i, snd (check_write ?e))" by (simp add: check_write_room sock_room_def)
  ultimately show "\<exists>s'. sock_check_write i s = Inr (sock_room s i, s') \<and> sock_good s' \<and> sock_sent s' = sock_sent s \<and> sock_room s' = sock_room s"
    using on_end_sink[of "\<lambda>e. Inr (check_write e)" s i "sock_room s i" "snd (check_write ?e)"] g
    by (auto simp: sock_check_write_def check_write_keeps sock_sent_def sock_room_def fun_eq_iff)
qed

section \<open>Properties\<close>

definition lb_outcome :: "lb \<Rightarrow> sockenv \<Rightarrow> wmsg \<Rightarrow> lbrc \<Rightarrow> lb \<Rightarrow> sockenv \<Rightarrow> bool" where
  "lb_outcome l s m rc l' s' \<longleftrightarrow>
     (if l_dropping l then rc = Dropped \<and> s' = s \<and> l_dropping l' = has_more (Msg m) \<and> l_more l' = has_more (Msg m)
      else if l_more l \<and> l_active l > 0 \<and> \<not> sock_room s (lb_cur l)
      then rc = Rolled_back \<and> l_dropping l' = has_more (Msg m) \<and> \<not> l_more l' \<and>
        sock_sent s' = (sock_sent s)(lb_cur l := sock_whole s (lb_cur l))
      else if \<exists>k\<in>set (lb_pipes l). sock_room s k
      then (\<exists>i. rc = Sent i \<and> balanced (sock_sent s) (sock_sent s') (sock_room s) l l' m i)
      else rc = Again \<and> sock_sent s' = sock_sent s \<and> lb_pipes l' = [] \<and> set (items (l_pipes l')) = set (items (l_pipes l)))"

lemma sendpipe_outcome:
  assumes "lb_ok l" "sock_good s"
  shows "\<exists>rc l' s'. sendpipe sock_write sock_rollback sock_flush m l s = Inr (rc, l', s') \<and> lb_ok l' \<and> sock_good s' \<and>
    lb_outcome l s m rc l' s'"
proof (cases "l_dropping l")
  case True
  let ?l = "l\<lparr>l_more := has_more (Msg m), l_dropping := has_more (Msg m)\<rparr>"
  have "sendpipe sock_write sock_rollback sock_flush m l s = Inr (Dropped, ?l, s)" "lb_ok ?l" "lb_outcome l s m Dropped ?l s"
    using True assms(1) by (simp_all add: sendpipe_def lb_outcome_def lb_ok_def Let_def)
  with assms(2) show ?thesis by blast
next
  case nd: False
  show ?thesis
  proof (cases "l_more l \<and> l_active l > 0 \<and> \<not> sock_room s (lb_cur l)")
    case True
    let ?l = "l\<lparr>l_dropping := has_more (Msg m), l_more := False\<rparr>"
    from True have b: "l_more l" "l_active l > 0" "\<not> sock_room s (lb_cur l)" by auto
    from sk.send_broken[OF assms nd b, of m] obtain s' where s': "sendpipe sock_write sock_rollback sock_flush m l s = Inr (Rolled_back, ?l, s')"
      "sock_good s'" "sock_sent s' = (sock_sent s)(lb_cur l := sock_whole s (lb_cur l))" by blast
    have "lb_ok ?l" "lb_outcome l s m Rolled_back ?l s'" using True s'(3) assms(1) nd by (simp_all add: lb_outcome_def lb_ok_def)
    with s' show ?thesis by blast
  next
    case nb: False
    show ?thesis
    proof (cases "\<exists>k\<in>set (lb_pipes l). sock_room s k")
      case True
      then obtain k where k: "k \<in> set (lb_pipes l)" "sock_room s k" by blast
      then have "l_active l > 0" by (cases "l_active l") (auto simp: lb_pipes_def)
      with nb have "l_more l \<Longrightarrow> sock_room s (lb_cur l)" by blast
      from sk.send_some[OF assms nd k this, of m] obtain i l' s' where r: "sendpipe sock_write sock_rollback sock_flush m l s = Inr (Sent i, l', s')"
        "lb_ok l'" "sock_good s'" "balanced (sock_sent s) (sock_sent s') (sock_room s) l l' m i" by blast
      have "lb_outcome l s m (Sent i) l' s'" unfolding lb_outcome_def if_not_P[OF nd] if_not_P[OF nb] if_P[OF True] using r(4) by blast
      with r(1-3) show ?thesis by blast
    next
      case False
      have "\<not> l_more l \<or> l_active l = 0"
        using False nb assms(1) mem_take_nth[of "l_current l" "l_active l" "items (l_pipes l)"]
        by (cases "l_active l = 0") (auto simp: lb_cur_def lb_pipes_def lb_ok_def)
      with sk.loop_none[OF assms _ this, of m] False nd nb show ?thesis by (auto simp: sendpipe_def lb_outcome_def)
    qed
  qed
qed

text \<open>
  C15. Load balancing on every branch: a send never fails an assertion and keeps the invariant of the array. The rest
  of a message whose pipe has gone is dropped; when the pipe of a message in the making has no room,
  the parts already written are taken back and nothing else changes; otherwise, while some active
  pipe has room, exactly one pipe with room gets the part, at its end and after the parts of the same message,
  and every other pipe with room comes nearer to its turn with each complete message; when none has
  room the call reports so and writes nothing.
\<close>
theorem lb_send_exact:
  assumes "lb_ok l" "sock_good s"
  shows "\<exists>rc l' s'. sendpipe sock_write sock_rollback sock_flush m l s = Inr (rc, l', s') \<and> lb_ok l' \<and> sock_good s' \<and>
    lb_outcome l s m rc l' s'"
  by (rule sendpipe_outcome[OF assms])

definition sample_lb :: lb where
  "sample_lb = \<lparr>l_pipes = \<lparr>items = [7, 8], pos = (\<lambda>i. int i - 7)\<rparr>, l_active = 2, l_current = 1, l_more = False, l_dropping = False\<rparr>"

lemma sample_lb_ok: "lb_ok sample_lb" "7 \<in> set (lb_pipes sample_lb)" "sock_room sample_env 7" "\<not> l_dropping sample_lb" "\<not> l_more sample_lb"
  by (auto simp: lb_ok_def sample_lb_def arr_ok_def less_Suc_eq lb_pipes_def sock_room_def sample_env_def sample_end_def room_of_def
    check_hwm_def pipe_new_def)

theorem lb_send_exact_witness:
  "\<exists>i l' s'. sendpipe sock_write sock_rollback sock_flush \<lparr>w_flags = 1, w_data = [5]\<rparr> sample_lb sample_env = Inr (Sent i, l', s') \<and>
    balanced (sock_sent sample_env) (sock_sent s') (sock_room sample_env) sample_lb l' \<lparr>w_flags = 1, w_data = [5]\<rparr> i"
proof -
  from lb_send_exact[OF sample_lb_ok(1) sample_fq_ok(2), of "\<lparr>w_flags = 1, w_data = [5]\<rparr>"]
  obtain rc l' s' where "sendpipe sock_write sock_rollback sock_flush \<lparr>w_flags = 1, w_data = [5]\<rparr> sample_lb sample_env = Inr (rc, l', s')"
    "lb_outcome sample_lb sample_env \<lparr>w_flags = 1, w_data = [5]\<rparr> rc l' s'" by blast
  moreover have "\<exists>k\<in>set (lb_pipes sample_lb). sock_room sample_env k" using sample_lb_ok(2,3) by blast
  ultimately show ?thesis using sample_lb_ok(4,5) by (auto simp: lb_outcome_def)
qed

text \<open>
  A pipe that goes away can redirect a message: when the last active pipe is in the middle of a multipart message and another active
  pipe, not the first, terminates, the rest of the message is neither dropped nor sent to its
  pipe, which is still active, but to the first pipe.
\<close>
theorem lb_termination_misroutes:
  assumes "lb_ok l" "l_more l" "\<not> l_dropping l" "l_current l = l_active l - 1" "x \<in> set (lb_pipes l)" "x \<noteq> lb_cur l" "x \<noteq> items (l_pipes l) ! 0"
  shows "\<exists>l'. lb_pipe_terminated x l = Inr l' \<and> l_more l' \<and> \<not> l_dropping l' \<and> lb_cur l \<in> set (lb_pipes l') \<and>
    lb_cur l' = items (l_pipes l) ! 0 \<and> lb_cur l' \<noteq> lb_cur l"
proof -
  let ?xs = "items (l_pipes l)" and ?n = "l_active l"
  from assms(5) obtain k where k: "k < ?n" "k < length ?xs" "?xs ! k = x" by (auto simp: lb_pipes_def in_set_conv_nth)
  have o: "arr_ok (l_pipes l)" "?n \<le> length ?xs" "?n - 1 < length ?xs" "distinct ?xs" "lb_cur l = ?xs ! (?n - 1)"
    using assms(1,4) k by (auto simp: lb_ok_def arr_ok_def lb_cur_def)
  have ik: "index_of x (l_pipes l) = int k" using index_of_nth[OF o(1) k(2)] k(3) by simp
  have k0: "k \<noteq> ?n - 1" "k \<noteq> 0" using k assms(6,7) o(5) by (metis, metis)
  then have ne: "k \<noteq> ?n - 1" "k \<noteq> 0" "0 < ?n - 1" using k(1) by simp_all
  from swap_ok[OF o(1) k(2) o(3)] obtain a where a: "swap (int k) (int (?n - 1)) (l_pipes l) = Inr a" "arr_ok a"
    "items a = swap_list k (?n - 1) ?xs" by blast
  have z: "0 < length ?xs" using k(2) by linarith
  have y: "?n - 1 < length (items a)" "items a ! (?n - 1) = x" "items a ! 0 = ?xs ! 0" "items a ! k = lb_cur l"
    using a(3) o k ne swap_list_nth[OF k(2) o(3)] swap_list_nth[OF k(2) o(3) z] by simp_all
  from erase_ok[OF a(2) y(1,2)] obtain b where b: "erase x a = Inr b" "items b = butlast ((items a)[?n - 1 := last (items a)])" by blast
  have t: "take (?n - 1) (items b) = take (?n - 1) (items a)" using take_erase[of "?n - 1" "?n - 1" "items a"] y(1) b(2) by simp
  then have i: "items b ! j = items a ! j" if "j < ?n - 1" for j using that by (metis nth_take)
  let ?l = "l\<lparr>l_pipes := b, l_active := ?n - 1, l_current := 0\<rparr>"
  have "lb_pipe_terminated x l = Inr ?l"
    using a(1) b(1) ik k(1) ne(1) assms(4) by (auto simp: lb_pipe_terminated_def Let_def)
  moreover have "lb_cur ?l = ?xs ! 0" using i[OF ne(3)] y(3) by (simp add: lb_cur_def)
  moreover have "lb_cur l \<in> set (lb_pipes ?l)"
    using mem_take_nth[of k "?n - 1" "items a"] y t k(1) ne(1) by (simp add: lb_pipes_def)
  moreover have "?xs ! 0 \<noteq> lb_cur l" using o(2-5) ne(3) nth_eq_iff_index_eq[OF o(4) z o(3)] by simp
  ultimately show ?thesis using assms(2,3) by auto
qed

definition midway_lb :: lb where
  "midway_lb = \<lparr>l_pipes = \<lparr>items = [7, 8, 9], pos = (\<lambda>i. int i - 7)\<rparr>, l_active = 3, l_current = 2, l_more = True, l_dropping = False\<rparr>"

theorem lb_termination_misroutes_witness:
  "\<exists>l'. lb_pipe_terminated 8 midway_lb = Inr l' \<and> l_more l' \<and> \<not> l_dropping l' \<and> 9 \<in> set (lb_pipes l') \<and> lb_cur midway_lb = 9 \<and> lb_cur l' = 7"
  using lb_termination_misroutes[of midway_lb 8]
  by (auto simp: midway_lb_def lb_ok_def arr_ok_def less_Suc_eq lb_pipes_def lb_cur_def numeral_3_eq_3)

end
