(* ===== verification/Socket_Pipes.thy ===== *)
theory Socket_Pipes
  imports Load_Balance "HOL-Library.Multiset"
begin

text \<open>
  The pipes of a socket as its fair queue and its balancer see them together: what calls in one direction keep of
  the other, what the loops of \<^verbatim>\<open>fq.cpp\<close> and \<^verbatim>\<open>lb.cpp\<close> keep of all pipes, and what a command does to an end.
\<close>

text \<open>A call on one pipe of the socket that gives no value.\<close>

definition sock_do :: "pid \<Rightarrow> (endp \<Rightarrow> endp result) \<Rightarrow> sockenv \<Rightarrow> sockenv result" where
  "sock_do i g s = bindE (on_end i (\<lambda>e. bindE (g e) (\<lambda>e1. Inr ((), e1))) s) (\<lambda>(_, s1). Inr s1)"

text \<open>An initialised message, and the options that several sockets have (\<^verbatim>\<open>zmq.h\<close>).\<close>

definition msg_init :: wmsg where
  "msg_init = \<lparr>w_flags = 0, w_data = []\<rparr>"

definition ZMQ_SUBSCRIBE :: int where "ZMQ_SUBSCRIBE = 6"
definition ZMQ_UNSUBSCRIBE :: int where "ZMQ_UNSUBSCRIBE = 7"
definition ZMQ_PROBE_ROUTER :: int where "ZMQ_PROBE_ROUTER = 51"
definition ZMQ_ONLY_FIRST_SUBSCRIBE :: int where "ZMQ_ONLY_FIRST_SUBSCRIBE = 108"

text \<open>The empty message that greets a ROUTER; a pipe that does not take it is no error.\<close>

definition send_probe :: "bool \<Rightarrow> pid \<Rightarrow> sockenv \<Rightarrow> sockenv result" where
  "send_probe on x s = (if on then bindE (sock_write x msg_init s) (\<lambda>(_, s1). sock_flush x s1) else Inr s)"

text \<open>An option: its number, and its value when it has the size of an integer.  \<open>False\<close> is \<^verbatim>\<open>EINVAL\<close>.\<close>

definition int_option :: "int option \<Rightarrow> bool" where
  "int_option v = (case v of None \<Rightarrow> False | Some k \<Rightarrow> k \<ge> 0)"

text \<open>
  A command for a pipe of the socket.  A hiccup leaves the end with the new, empty outbound queue; after the acknowledgement of its
  termination the pipe is deleted, and what the environment keeps in its place can be neither read nor written.
\<close>

fun end_after :: "command \<Rightarrow> endp \<Rightarrow> endp" where
  "end_after (Hiccup u) e = e\<lparr>outq := upipe_new\<rparr>"
| "end_after Pipe_term_ack e = upd_me (\<lambda>p. p\<lparr>state := Term_ack_sent, out_pipe := None\<rparr>) e"
| "end_after _ e = e"

definition sock_command :: "pid \<Rightarrow> command \<Rightarrow> sockenv \<Rightarrow> (pipe_event list \<times> sockenv) result" where
  "sock_command x c = on_end x (\<lambda>e. bindE (handle c (e\<lparr>evs := []\<rparr>)) (\<lambda>e1. Inr (evs e1, end_after c e1)))"

definition arrive :: "pmsg list \<Rightarrow> endp \<Rightarrow> endp" where
  "arrive ms e = e\<lparr>inq := (inq e)\<lparr>ready := ready (inq e) @ ms, asleep := False\<rparr>\<rparr>"

text \<open>What the peers keep to: they flush complete messages and a delimiter at most at the end.\<close>

fun whole_q :: "pmsg list \<Rightarrow> bool" where
  "whole_q [] \<longleftrightarrow> True"
| "whole_q (Delimiter # ms) \<longleftrightarrow> whole_q ms"
| "whole_q (Msg m # ms) \<longleftrightarrow> (has_more (Msg m) \<longrightarrow> upto_delimiter ms \<noteq> []) \<and> whole_q ms"

definition flushable :: "pmsg list \<Rightarrow> bool" where
  "flushable ms \<longleftrightarrow> list_all (\<lambda>m. \<not> is_credential m) ms \<and> whole_q ms"

text \<open>
  The commands that the termination handshake can bring (all other states fail an assertion in \<^verbatim>\<open>pipe.cpp\<close>), and reports of what was read that only grow.
\<close>

fun command_ok :: "command \<Rightarrow> pipe_t \<Rightarrow> bool" where
  "command_ok Pipe_term p \<longleftrightarrow> state p = Active \<or> state p = Delimiter_received \<or> state p = Term_req_sent1"
| "command_ok Pipe_term_ack p \<longleftrightarrow> state p = Term_ack_sent \<or> state p = Term_req_sent1 \<or> state p = Term_req_sent2"
| "command_ok (Hiccup u) p \<longleftrightarrow> out_pipe p \<noteq> None"
| "command_ok (Activate_write n) p \<longleftrightarrow> msgs_written p - n \<le> msgs_written p - peers_msgs_read p"
| "command_ok _ p \<longleftrightarrow> True"

fun is_hwm :: "command \<Rightarrow> bool" where
  "is_hwm (Pipe_hwm i k) \<longleftrightarrow> True"
| "is_hwm _ \<longleftrightarrow> False"

text \<open>
  What holds of the ends: an active inbound pipe may be read or is closed for reading, an active outbound pipe is writable or on its way
  out, and a message whose first parts were received has its rest in the pipe.
\<close>

definition out_ok :: "endp \<Rightarrow> bool" where
  "out_ok e \<longleftrightarrow> out_active (me e) \<or> state (me e) \<noteq> Active"

definition in_ok :: "endp \<Rightarrow> bool" where
  "in_ok e \<longleftrightarrow> in_active (me e) \<or> state (me e) \<noteq> Active \<and> state (me e) \<noteq> Waiting_for_delimiter"

lemma may_read_in_ok: "may_read e \<Longrightarrow> in_ok e"
  by (simp add: may_read_def in_ok_def)

definition outs_ok :: "pid set \<Rightarrow> sockenv \<Rightarrow> bool" where
  "outs_ok X s \<longleftrightarrow> (\<forall>x\<in>X. out_ok (ends s x))"

definition ins_ok :: "pid set \<Rightarrow> sockenv \<Rightarrow> bool" where
  "ins_ok X s \<longleftrightarrow> (\<forall>x\<in>X. in_ok (ends s x))"

definition queues_ok :: "sockenv \<Rightarrow> bool" where
  "queues_ok s \<longleftrightarrow> sock_good s \<and> (\<forall>x. whole_q (ready (inq (ends s x))))"

definition fq_midway :: "fq \<Rightarrow> sockenv \<Rightarrow> bool" where
  "fq_midway f s \<longleftrightarrow> (f_more f \<longrightarrow> f_active f > 0 \<and> sock_avail s (cur f) \<noteq> [])"

definition lb_midway :: "lb \<Rightarrow> sockenv \<Rightarrow> bool" where
  "lb_midway l s \<longleftrightarrow> (l_more l \<and> \<not> l_dropping l \<longrightarrow> l_active l > 0 \<and>
     (sock_room s (lb_cur l) \<or> state (me (ends s (lb_cur l))) \<noteq> Active))"

section \<open>What reading and writing keep\<close>

lemma whole_q_append: "whole_q xs \<Longrightarrow> whole_q ys \<Longrightarrow> whole_q (xs @ ys)"
proof (induction xs rule: whole_q.induct)
  case (3 m ms)
  then have "upto_delimiter ms \<noteq> [] \<Longrightarrow> upto_delimiter (ms @ ys) \<noteq> []" by (cases ms rule: upto_delimiter.cases) simp_all
  with 3 show ?case by simp
qed simp_all

lemma whole_q_tl: "whole_q (m # ms) \<Longrightarrow> whole_q ms" by (cases m) simp_all

lemma upto_delimiter_grows: "upto_delimiter ms \<noteq> [] \<Longrightarrow> upto_delimiter (ms @ ns) \<noteq> []"
  by (cases ms rule: upto_delimiter.cases) simp_all

text \<open>What a call on one end keeps of the other direction, of the queue and of its own direction.\<close>

definition keeps_out :: "endp \<Rightarrow> endp \<Rightarrow> bool" where
  "keeps_out e e' \<longleftrightarrow> out_active (me e') = out_active (me e) \<and> (state (me e') = Active \<longrightarrow> state (me e) = Active) \<and>
     check_hwm e' = check_hwm e \<and> router_routing_id (me e') = router_routing_id (me e)"

definition keeps_in :: "endp \<Rightarrow> endp \<Rightarrow> bool" where
  "keeps_in e e' \<longleftrightarrow> may_read e' = may_read e \<and> in_ok e' = in_ok e \<and> inq e' = inq e \<and> router_routing_id (me e') = router_routing_id (me e)"

lemma keeps_out_ok: "keeps_out e e' \<Longrightarrow> out_ok e \<Longrightarrow> out_ok e'"
  "keeps_out e e' \<Longrightarrow> room_of e \<or> state (me e) \<noteq> Active \<Longrightarrow> room_of e' \<or> state (me e') \<noteq> Active"
  by (auto simp: keeps_out_def out_ok_def room_of_def)

lemma keeps_in_avail: "keeps_in e e' \<Longrightarrow> avail_of e' = avail_of e"
  by (simp add: keeps_in_def avail_of_def)

lemma process_delimiter_out: "process_delimiter e = Inr e' \<Longrightarrow> keeps_out e e' \<and> inq e' = inq e"
  by (auto simp: process_delimiter_def rollback_def end_defs keeps_out_def check_hwm_def bindE_eq_Inr split: pstate.splits option.splits)

lemma pipe_read_keeps:
  assumes "plain e" "pipe_read e = Inr (r, e')" "whole_q (ready (inq e))"
  shows "keeps_out e e'" "whole_q (ready (inq e'))" "r \<noteq> None \<Longrightarrow> may_read e'"
proof -
  have c: "list_all (\<lambda>m. \<not> is_credential m) (ready (inq e))" using assms(1) by (simp add: plain_def)
  consider "\<not> may_read e" | "may_read e" "ready (inq e) = []" | ms where "may_read e" "ready (inq e) = Delimiter # ms"
    | m ms where "may_read e" "ready (inq e) = Msg m # ms"
    by (cases "may_read e"; cases "ready (inq e)" rule: upto_delimiter.cases) auto
  then have "keeps_out e e' \<and> whole_q (ready (inq e')) \<and> (r \<noteq> None \<longrightarrow> may_read e')"
  proof cases
    case 1
    with assms show ?thesis by (auto simp: pipe_read_def keeps_out_def)
  next
    case 2
    with assms(2) c show ?thesis by (auto simp: pipe_read_def read_loop_plain u_read_def keeps_out_def check_hwm_def end_defs)
  next
    case 3
    with assms(2,3) c show ?thesis
      by (auto simp: pipe_read_def read_loop_plain u_read_def bindE_eq_Inr keeps_out_def check_hwm_def dest!: process_delimiter_out)
  next
    case 4
    with assms(2,3) c show ?thesis
      by (auto simp: pipe_read_def read_loop_plain u_read_def Let_def keeps_out_def check_hwm_def end_defs may_read_def split: if_splits)
  qed
  then show "keeps_out e e'" "whole_q (ready (inq e'))" "r \<noteq> None \<Longrightarrow> may_read e'" by auto
qed

lemma check_read_keeps:
  assumes "check_read e = Inr (r, e')" "whole_q (ready (inq e))"
  shows "keeps_out e e'" "whole_q (ready (inq e'))" "r \<Longrightarrow> may_read e'"
proof -
  consider "\<not> may_read e" | "may_read e" "ready (inq e) = []" | ms where "may_read e" "ready (inq e) = Delimiter # ms"
    | m ms where "may_read e" "ready (inq e) = Msg m # ms"
    by (cases "may_read e"; cases "ready (inq e)" rule: upto_delimiter.cases) auto
  then have "keeps_out e e' \<and> whole_q (ready (inq e')) \<and> (r \<longrightarrow> may_read e')"
  proof cases
    case 3
    with assms show ?thesis
      by (auto simp: check_read_def u_check_read_def u_read_def bindE_eq_Inr keeps_out_def check_hwm_def dest!: process_delimiter_out)
  qed (use assms in \<open>auto simp: check_read_def u_check_read_def keeps_out_def check_hwm_def end_defs may_read_def\<close>)
  then show "keeps_out e e'" "whole_q (ready (inq e'))" "r \<Longrightarrow> may_read e'" by auto
qed

lemma check_write_out:
  "keeps_in e (snd (check_write e))" "fst (check_write e) \<Longrightarrow> snd (check_write e) = e"
  by (auto simp: check_write_def keeps_in_def end_defs may_read_def in_ok_def split: if_splits)

lemma pipe_write_keeps:
  assumes "pipe_write m e = Inr (b, e')"
  shows "keeps_in e e'" "b \<or> state (me e) \<noteq> Active \<Longrightarrow> out_ok e'" "b \<Longrightarrow> has_more (Msg m) \<Longrightarrow> room_of e'"
  using assms
  by (auto simp: pipe_write_def check_write_def keeps_in_def out_ok_def end_defs may_read_def in_ok_def Let_def room_of_def check_hwm_def
    split: if_splits option.splits prod.splits)

lemma flush_keeps: "keeps_in e (flush e)" "out_ok e \<Longrightarrow> out_ok (flush e)"
  by (auto simp: flush_def keeps_in_def out_ok_def end_defs may_read_def in_ok_def Let_def split: prod.splits)

lemma rollback_keeps: "rollback e = Inr e' \<Longrightarrow> keeps_in e e' \<and> me e' = me e"
  by (auto simp: rollback_def keeps_in_def may_read_def in_ok_def bindE_eq_Inr split: option.splits)

lemma on_end_cases:
  assumes "on_end i g s = Inr (r, s')"
  obtains e' where "g ((ends s i)\<lparr>cmds := []\<rparr>) = Inr (r, e')" "ends s' = (ends s)(i := e')"
  using assms by (auto simp: on_end_def bindE_eq_Inr)

lemma end_cmds [simp]: "may_read (e\<lparr>cmds := c\<rparr>) = may_read e" "in_ok (e\<lparr>cmds := c\<rparr>) = in_ok e"
  by (simp_all add: may_read_def in_ok_def)

section \<open>The loops\<close>

lemma deactivate_set:
  assumes "fq_ok f" "f_active f > 0" "deactivate f = Inr f'"
  shows "set (active_pipes f') = set (active_pipes f) - {cur f}"
proof -
  have o: "distinct (items (f_pipes f))" "f_current f < f_active f" "f_active f \<le> length (items (f_pipes f))"
    using assms(1,2) by (auto simp: fq_ok_def arr_ok_def)
  let ?ys = "swap_list (f_current f) (f_active f - 1) (items (f_pipes f))"
  have f': "f_active f' = f_active f - 1" "items (f_pipes f') = ?ys" using deactivate_ok[OF assms(1,2)] assms(3) by auto
  have "set (take (f_active f) ?ys) = set (active_pipes f)" "distinct ?ys" "f_active f - 1 < length ?ys" "Suc (f_active f - 1) = f_active f"
    "?ys ! (f_active f - 1) = cur f"
    using o assms(2) by (simp_all add: set_take_swap swap_list_nth active_pipes_def cur_def)
  then show ?thesis using set_take_minus[of ?ys "f_active f - 1"] f' by (simp add: active_pipes_def)
qed

lemma recvpipe_frame:
  assumes rd: "\<And>i s r s1. Q s \<Longrightarrow> rd i s = Inr (r, s1) \<Longrightarrow> Q s1 \<and> (\<forall>j. j \<noteq> i \<or> r \<noteq> None \<longrightarrow> P s j \<longrightarrow> P s1 j)"
    and "fq_ok f" "Q s" "\<forall>x\<in>set (active_pipes f). P s x" "recvpipe rd f s = Inr (r, f', s')"
  shows "Q s' \<and> (\<forall>x\<in>set (active_pipes f'). P s' x) \<and> (r = None \<longrightarrow> f_more f' = f_more f)"
  using assms(2-)
proof (induction "f_active f" arbitrary: f s)
  case 0
  then show ?case by (simp add: recvpipe.simps[of rd f])
next
  case (Suc n)
  have c: "f_current f < length (items (f_pipes f))" using Suc(2,3) by (auto simp: fq_ok_def)
  from Suc.prems(4) Suc(2) c obtain r1 s1 where r1: "rd (cur f) s = Inr (r1, s1)"
    by (auto simp: recvpipe.simps[of rd f s] a_at_def cur_def bindE_eq_Inr)
  note q = rd[OF Suc.prems(2) r1]
  show ?case
  proof (cases r1)
    case (Some m)
    with Suc.prems(4) Suc(2) c r1 have "s' = s1" "active_pipes f' = active_pipes f" "r \<noteq> None"
      by (auto simp: recvpipe.simps[of rd f s] a_at_def cur_def Let_def active_pipes_def)
    with q Suc.prems(3) Some show ?thesis by auto
  next
    case None
    with Suc.prems(4) Suc(2) c r1 obtain f1 where f1: "deactivate f = Inr f1" "recvpipe rd f1 s1 = Inr (r, f', s')"
      by (auto simp: recvpipe.simps[of rd f s] a_at_def cur_def bindE_eq_Inr split: if_splits)
    have a: "set (active_pipes f1) = set (active_pipes f) - {cur f}" "fq_ok f1" "n = f_active f1" "f_more f1 = f_more f"
      using deactivate_set[OF Suc.prems(1) _ f1(1)] deactivate_ok[OF Suc.prems(1)] Suc(2) f1(1) by auto
    have "\<forall>x\<in>set (active_pipes f1). P s1 x" using a(1) q Suc.prems(3) None by auto
    from Suc.hyps(1)[OF a(3,2) conjunct1[OF q] this f1(2)] a(4) show ?thesis by simp
  qed
qed

lemma has_in_frame:
  assumes chk: "\<And>i s b s1. Q s \<Longrightarrow> chk i s = Inr (b, s1) \<Longrightarrow> Q s1 \<and> (\<forall>j. j \<noteq> i \<or> b \<longrightarrow> P s j \<longrightarrow> P s1 j)"
    and "fq_ok f" "Q s" "\<forall>x\<in>set (active_pipes f). P s x" "fq_has_in_loop chk f s = Inr (r, f', s')"
  shows "Q s' \<and> (\<forall>x\<in>set (active_pipes f'). P s' x) \<and> fq_ok f' \<and> f_more f' = f_more f \<and> set (items (f_pipes f')) = set (items (f_pipes f))"
  using assms(2-)
proof (induction "f_active f" arbitrary: f s)
  case 0
  then show ?case by (simp add: fq_has_in_loop.simps[of chk f])
next
  case (Suc n)
  have c: "f_current f < length (items (f_pipes f))" "f_active f - 1 < length (items (f_pipes f))" using Suc(2,3) by (auto simp: fq_ok_def)
  from Suc.prems(4) Suc(2) c obtain b s1 where r1: "chk (cur f) s = Inr (b, s1)"
    by (auto simp: fq_has_in_loop.simps[of chk f s] a_at_def cur_def bindE_eq_Inr)
  note q = chk[OF Suc.prems(2) r1]
  show ?case
  proof (cases b)
    case True
    with Suc.prems(4) Suc(2) c r1 have "s' = s1" "f' = f" by (auto simp: fq_has_in_loop.simps[of chk f s] a_at_def cur_def)
    with q Suc.prems(1,3) True show ?thesis by auto
  next
    case False
    with Suc.prems(4) Suc(2) c r1 obtain f1 where f1: "deactivate f = Inr f1" "fq_has_in_loop chk f1 s1 = Inr (r, f', s')"
      by (auto simp: fq_has_in_loop.simps[of chk f s] a_at_def cur_def bindE_eq_Inr)
    have a: "set (active_pipes f1) = set (active_pipes f) - {cur f}" "fq_ok f1" "n = f_active f1" "f_more f1 = f_more f"
      "set (items (f_pipes f1)) = set (items (f_pipes f))"
      using deactivate_set[OF Suc.prems(1) _ f1(1)] deactivate_ok[OF Suc.prems(1)] Suc(2) f1(1) c by auto
    have "\<forall>x\<in>set (active_pipes f1). P s1 x" using a(1) q Suc.prems(3) False by auto
    from Suc.hyps(1)[OF a(3,2) conjunct1[OF q] this f1(2)] a(4,5) show ?thesis by simp
  qed
qed

text \<open>The loop of the balancer: a pipe whose write fails is set aside, unless a message is in the making.\<close>

lemma set_aside_frame:
  assumes "lb_ok l" "l_active l > 0" "deactivate (as_fq l) = Inr (as_fq l1)"
  shows "set (lb_pipes l1) = set (lb_pipes l) - {lb_cur l}" "lb_ok l1" "l_active l1 = l_active l - 1"
    "set (items (l_pipes l1)) = set (items (l_pipes l))"
proof -
  have c: "l_current l < length (items (l_pipes l))" "l_active l - 1 < length (items (l_pipes l))" using assms(1,2) by (auto simp: lb_ok_def)
  show "set (lb_pipes l1) = set (lb_pipes l) - {lb_cur l}" using deactivate_set[of "as_fq l" "as_fq l1"] assms by simp
  from deactivate_ok[of "as_fq l"] assms show "lb_ok l1" "l_active l1 = l_active l - 1" by auto
  from deactivate_ok[of "as_fq l"] assms have "items (f_pipes (as_fq l1)) = swap_list (l_current l) (l_active l - 1) (items (l_pipes l))" by auto
  with c show "set (items (l_pipes l1)) = set (items (l_pipes l))" by simp
qed

lemma write_loop_frame:
  assumes wr: "\<And>i s b s1. Q s \<Longrightarrow> wr i m s = Inr (b, s1) \<Longrightarrow> Q s1 \<and> (\<forall>j. j \<noteq> i \<or> b \<longrightarrow> P s j \<longrightarrow> P s1 j)"
    and rb: "\<And>i s s1. Q s \<Longrightarrow> rb i s = Inr s1 \<Longrightarrow> Q s1 \<and> (\<forall>j. P s j \<longrightarrow> P s1 j)"
    and "lb_ok l" "Q s" "\<forall>x\<in>set (lb_pipes l). P s x"
      "\<And>s1. l_more l \<Longrightarrow> wr (lb_cur l) m s = Inr (False, s1) \<Longrightarrow> P s1 (lb_cur l)" "lb_write_loop wr rb m l s = Inr (rc, l', s')"
  shows "Q s' \<and> (\<forall>x\<in>set (lb_pipes l'). P s' x) \<and> set (items (l_pipes l')) = set (items (l_pipes l)) \<and>
    l_dropping l' = (if rc = Rolled_back then has_more (Msg m) else l_dropping l) \<and>
    l_more l' = (if rc = Rolled_back then False else l_more l) \<and>
    (\<forall>i. rc = Sent i \<longrightarrow> l_active l' > 0 \<and> i = lb_cur l' \<and> (\<exists>s0. Q s0 \<and> wr i m s0 = Inr (True, s'))) \<and>
    (rc = Again \<longrightarrow> l_more l \<longrightarrow> l_active l = 0) \<and> rc \<noteq> Dropped"
  using assms(3-)
proof (induction "l_active l" arbitrary: l s)
  case 0
  then show ?case by (auto simp: lb_write_loop.simps[of wr rb m l])
next
  case (Suc n)
  have a: "l_active l > 0" and c: "l_current l < length (items (l_pipes l))" using Suc(2,3) by (auto simp: lb_ok_def)
  then have at: "a_at (l_current l) (l_pipes l) = Inr (lb_cur l)" by (simp add: a_at_def lb_cur_def)
  from Suc.prems(5) a at obtain b s1 where w: "wr (lb_cur l) m s = Inr (b, s1)"
    by (auto simp: lb_write_loop.simps[of wr rb m l s] bindE_eq_Inr)
  note q = wr[OF Suc.prems(2) w]
  consider (t) b | (m) "\<not> b" "l_more l" | (f) "\<not> b" "\<not> l_more l" by blast
  then show ?case
  proof cases
    case t
    with Suc.prems(5) a at w have "s' = s1" "l' = l" "rc = Sent (lb_cur l)" by (auto simp: lb_write_loop.simps[of wr rb m l s])
    with q Suc.prems(2,3) t w a show ?thesis by auto
  next
    case m
    with Suc.prems(5) a at w obtain r: "rb (lb_cur l) s1 = Inr s'" "rc = Rolled_back" "l' = l\<lparr>l_dropping := has_more (Msg m), l_more := False\<rparr>"
      by (auto simp: lb_write_loop.simps[of wr rb m l s] bindE_eq_Inr)
    have "\<forall>x\<in>set (lb_pipes l). P s1 x" using q Suc.prems(3) Suc.prems(4)[OF m(2)] w m(1) by (metis (full_types))
    with rb[OF conjunct1[OF q] r(1)] r(2,3) show ?thesis by (simp add: lb_pipes_def)
  next
    case f
    from lb_set_aside_ok[OF Suc.prems(1) a] obtain l1 where l1: "lb_set_aside l = Inr l1" "deactivate (as_fq l) = Inr (as_fq l1)"
      "l_more l1 = l_more l" "l_dropping l1 = l_dropping l" by blast
    note k = set_aside_frame[OF Suc.prems(1) a l1(2)]
    from f Suc.prems(5) a at w l1(1) have e: "lb_write_loop wr rb m l1 s1 = Inr (rc, l', s')"
      by (auto simp: lb_write_loop.simps[of wr rb m l s])
    have p: "\<forall>x\<in>set (lb_pipes l1). P s1 x" using k(1) q Suc.prems(3) by auto
    have n: "n = l_active l1" using Suc(2) k(3) by simp
    have nm: "\<not> l_more l1" using f(2) l1(3) by simp
    from Suc.hyps(1)[OF n k(2) conjunct1[OF q] p _ e] nm k(4) l1(3,4) show ?thesis by auto
  qed
qed

lemma has_out_frame:
  assumes cw: "\<And>i s b s1. Q s \<Longrightarrow> cw i s = Inr (b, s1) \<Longrightarrow> Q s1 \<and> (\<forall>j. j \<noteq> i \<or> b \<longrightarrow> P s j \<longrightarrow> P s1 j)"
    and "lb_ok l" "Q s" "\<forall>x\<in>set (lb_pipes l). P s x" "has_out_loop cw l s = Inr (r, l', s')"
  shows "Q s' \<and> (\<forall>x\<in>set (lb_pipes l'). P s' x) \<and> lb_ok l' \<and> l_more l' = l_more l \<and> set (items (l_pipes l')) = set (items (l_pipes l))"
  using assms(2-)
proof (induction "l_active l" arbitrary: l s)
  case 0
  then show ?case by (simp add: has_out_loop.simps[of cw l])
next
  case (Suc n)
  have a: "l_active l > 0" and c: "l_current l < length (items (l_pipes l))" using Suc(2,3) by (auto simp: lb_ok_def)
  then have at: "a_at (l_current l) (l_pipes l) = Inr (lb_cur l)" by (simp add: a_at_def lb_cur_def)
  from Suc.prems(4) a at obtain b s1 where w: "cw (lb_cur l) s = Inr (b, s1)"
    by (auto simp: has_out_loop.simps[of cw l s] bindE_eq_Inr)
  note q = cw[OF Suc.prems(2) w]
  show ?case
  proof (cases b)
    case True
    with Suc.prems(4) a at w have "s' = s1" "l' = l" by (auto simp: has_out_loop.simps[of cw l s])
    with q Suc.prems(1,3) True show ?thesis by auto
  next
    case False
    with Suc.prems(4) a at w obtain x where x: "swap (int (l_current l)) (int (l_active l - 1)) (l_pipes l) = Inr x"
      "has_out_loop cw (l\<lparr>l_pipes := x, l_active := l_active l - 1,
            l_current := (if l_current l = l_active l - 1 then 0 else l_current l)\<rparr>) s1 = Inr (r, l', s')"
      by (auto simp: has_out_loop.simps[of cw l s] bindE_eq_Inr)
    let ?l = "l\<lparr>l_pipes := x, l_active := l_active l - 1, l_current := (if l_current l = l_active l - 1 then 0 else l_current l)\<rparr>"
    have "deactivate (as_fq l) = Inr (as_fq ?l)" using x(1) by (simp add: deactivate_def as_fq_def)
    note k = set_aside_frame[OF Suc.prems(1) a this]
    have p: "\<forall>x\<in>set (lb_pipes ?l). P s1 x" using k(1) q Suc.prems(3) by auto
    have n: "n = l_active ?l" using Suc(2) k(3) by simp
    from Suc.hyps(1)[OF n k(2) conjunct1[OF q] p x(2)] k(4) show ?thesis by simp
  qed
qed

section \<open>Receiving\<close>

definition in_frame :: "sockenv \<Rightarrow> sockenv \<Rightarrow> bool" where
  "in_frame s0 s \<longleftrightarrow> queues_ok s \<and> (\<forall>j. keeps_out (ends s0 j) (ends s j))"

lemma keeps_out_cmds [simp]: "keeps_out (e\<lparr>cmds := c\<rparr>) e' = keeps_out e e'"
  by (simp add: keeps_out_def check_hwm_def)

lemma keeps_out_trans: "keeps_out e e1 \<Longrightarrow> keeps_out e1 e2 \<Longrightarrow> keeps_out e e2"
  by (simp add: keeps_out_def)

lemma in_frame_refl: "queues_ok s \<Longrightarrow> in_frame s s"
  by (simp add: in_frame_def keeps_out_def)

lemma in_frame_step:
  assumes "in_frame s0 s" "ends s1 = (ends s)(i := e')" "keeps_out (ends s i) e'" "whole_q (ready (inq e'))" "sock_good s1"
  shows "in_frame s0 s1"
  using assms keeps_out_trans[of "ends s0 i" "ends s i" e'] by (auto simp: in_frame_def queues_ok_def)

lemma read_frame:
  assumes "in_frame s0 s" "sock_read i s = Inr (r, s1)"
  shows "in_frame s0 s1 \<and> (\<forall>j. j \<noteq> i \<or> r \<noteq> None \<longrightarrow> in_ok (ends s j) \<longrightarrow> in_ok (ends s1 j))"
proof -
  have q: "sock_good s" "whole_q (ready (inq (ends s i)))" "plain (ends s i)"
    using assms(1) by (auto simp: in_frame_def queues_ok_def sock_good_def)
  from assms(2) obtain e' where e': "pipe_read ((ends s i)\<lparr>cmds := []\<rparr>) = Inr (r, e')" "ends s1 = (ends s)(i := e')"
    unfolding sock_read_def by (rule on_end_cases)
  have k: "keeps_out (ends s i) e'" "whole_q (ready (inq e'))" "r \<noteq> None \<Longrightarrow> may_read e'"
    using pipe_read_keeps[OF _ e'(1)] q by simp_all
  have "sock_good s1" using sq.rd_empty[OF q(1), of i] sq.rd_some[OF q(1), of i] assms(2) by (cases "sock_avail s i") auto
  from in_frame_step[OF assms(1) e'(2) k(1,2) this] k(3)[THEN may_read_in_ok] e'(2) show ?thesis by auto
qed

lemma check_read_frame:
  assumes "in_frame s0 s" "sock_check_read i s = Inr (b, s1)"
  shows "in_frame s0 s1 \<and> (\<forall>j. j \<noteq> i \<or> b \<longrightarrow> in_ok (ends s j) \<longrightarrow> in_ok (ends s1 j))"
proof -
  have q: "sock_good s" "whole_q (ready (inq (ends s i)))" using assms(1) by (auto simp: in_frame_def queues_ok_def)
  from assms(2) obtain e' where e': "check_read ((ends s i)\<lparr>cmds := []\<rparr>) = Inr (b, e')" "ends s1 = (ends s)(i := e')"
    unfolding sock_check_read_def by (rule on_end_cases)
  have k: "keeps_out (ends s i) e'" "whole_q (ready (inq e'))" "b \<Longrightarrow> may_read e'" using check_read_keeps[OF e'(1)] q by simp_all
  have "sock_good s1" using sq.chk[OF q(1), of i] assms(2) by auto
  from in_frame_step[OF assms(1) e'(2) k(1,2) this] k(3)[THEN may_read_in_ok] e'(2) show ?thesis by auto
qed

text \<open>The outbound half of the invariant does not notice reading.\<close>

lemma in_frame_out:
  assumes "in_frame s s'"
  shows "outs_ok X s \<Longrightarrow> outs_ok X s'" "lb_midway l s \<Longrightarrow> lb_midway l s'" "queues_ok s'"
  using assms keeps_out_ok by (auto simp: in_frame_def outs_ok_def lb_midway_def sock_room_def) blast+

lemma rest_follows:
  assumes "queues_ok s" "sock_avail s i = m # ms" "has_more (Msg m)"
  shows "ms \<noteq> []"
proof -
  from assms(2) obtain xs where "ready (inq (ends s i)) = Msg m # xs" "ms = upto_delimiter xs"
    by (cases "ready (inq (ends s i))" rule: upto_delimiter.cases) (auto simp: sock_avail_def avail_of_def split: if_splits)
  moreover have "whole_q (ready (inq (ends s i)))" using assms(1) by (simp add: queues_ok_def)
  ultimately show ?thesis using assms(3) by simp
qed

lemma active_nonempty: "fq_ok f \<Longrightarrow> f_active f > 0 \<Longrightarrow> cur f \<in> set (active_pipes f)"
  using active_nthI[of f "f_current f"] by (simp add: cur_def fq_ok_def split: if_splits)

text \<open>
  A receive call with the rest of every message behind its first parts: either nothing is there, or the first message of one
  pipe, and the promise holds for the rest of it.
\<close>

definition fetched :: "(wmsg \<times> pid) option \<Rightarrow> fq \<Rightarrow> sockenv \<Rightarrow> fq \<Rightarrow> sockenv \<Rightarrow> bool" where
  "fetched r f s f' s' \<longleftrightarrow> (case r of
     None \<Rightarrow> \<not> f_more f \<and> \<not> f_more f' \<and> sock_avail s' = sock_avail s \<and> (\<forall>i\<in>set (active_pipes f). sock_avail s i = []) \<and> active_pipes f' = []
   | Some (m, i) \<Rightarrow> i \<in> set (active_pipes f) \<and> i \<in> set (active_pipes f') \<and> sock_avail s = (sock_avail s')(i := m # sock_avail s' i) \<and>
       f_more f' = has_more (Msg m) \<and> (has_more (Msg m) \<longrightarrow> cur f' = i \<and> sock_avail s' i \<noteq> []) \<and> (f_more f \<longrightarrow> i = cur f) \<and> (\<forall>j\<in>set (active_pipes f). sock_avail s j \<noteq> [] \<longrightarrow> j \<in> set (active_pipes f')))"

lemma recv_result:
  assumes "fq_ok f" "queues_ok s" "fq_midway f s"
  shows "\<exists>r f' s'. recvpipe sock_read f s = Inr (r, f', s') \<and> fq_ok f' \<and> set (items (f_pipes f')) = set (items (f_pipes f)) \<and>
    fq_midway f' s' \<and> in_frame s s' \<and> fetched r f s f' s' \<and>
    (ins_ok (set (active_pipes f)) s \<longrightarrow> ins_ok (set (active_pipes f')) s')"
proof -
  have fr: "in_frame s s' \<and> (r = None \<longrightarrow> f_more f' = f_more f) \<and> (ins_ok (set (active_pipes f)) s \<longrightarrow> ins_ok (set (active_pipes f')) s')"
    if "recvpipe sock_read f s = Inr (r, f', s')" for r f' s'
  proof -
    have "in_frame s s' \<and> (\<forall>x\<in>set (active_pipes f'). True) \<and> (r = None \<longrightarrow> f_more f' = f_more f)"
      by (rule recvpipe_frame[of "in_frame s" sock_read "\<lambda>_ _. True", OF _ assms(1) in_frame_refl[OF assms(2)] _ that])
        (use read_frame in auto)
    moreover have "\<forall>x\<in>set (active_pipes f'). in_ok (ends s' x)" if a: "\<forall>x\<in>set (active_pipes f). in_ok (ends s x)"
    proof -
      have "in_frame s s' \<and> (\<forall>x\<in>set (active_pipes f'). in_ok (ends s' x)) \<and> (r = None \<longrightarrow> f_more f' = f_more f)"
        by (rule recvpipe_frame[of "in_frame s" sock_read "\<lambda>s x. in_ok (ends s x)", OF read_frame assms(1) in_frame_refl[OF assms(2)] a
            \<open>recvpipe sock_read f s = Inr (r, f', s')\<close>])
      then show ?thesis by blast
    qed
    ultimately show ?thesis by (auto simp: ins_ok_def)
  qed
  show ?thesis
  proof (cases "\<exists>k\<in>set (active_pipes f). sock_avail s k \<noteq> []")
    case True
    then obtain k where k: "k \<in> set (active_pipes f)" "sock_avail s k \<noteq> []" by blast
    have g: "sock_good s" and m: "f_more f \<Longrightarrow> sock_avail s (cur f) \<noteq> []" using assms(2,3) by (simp_all add: queues_ok_def fq_midway_def)
    from sq.recv_some[OF assms(1) g k m] obtain m i f' s' where r: "recvpipe sock_read f s = Inr (Some (m, i), f', s')" "fq_ok f'"
      "served (sock_avail s) (sock_avail s') f f' m i" by blast
    then have v: "i \<in> set (active_pipes f')" "sock_avail s i = m # sock_avail s' i" "f_more f' = has_more (Msg m)" "has_more (Msg m) \<longrightarrow> cur f' = i"
      "set (items (f_pipes f')) = set (items (f_pipes f))" "i \<in> set (active_pipes f)" "\<And>j. j \<noteq> i \<Longrightarrow> sock_avail s' j = sock_avail s j"
      "f_more f \<longrightarrow> i = cur f" by (simp_all add: served_def)
    have w: "\<forall>j\<in>set (active_pipes f). sock_avail s j \<noteq> [] \<longrightarrow> j \<in> set (active_pipes f')" using r(3) v(1) by (auto simp: served_def)
    have "f_active f' > 0" using v(1) by (cases "f_active f'") (auto simp: active_pipes_def)
    moreover have e: "sock_avail s = (sock_avail s')(i := m # sock_avail s' i)" using v(2,7) by auto
    moreover have n: "has_more (Msg m) \<Longrightarrow> sock_avail s' i \<noteq> []" using rest_follows[OF assms(2) v(2)] .
    ultimately have "fq_midway f' s'" using v(3,4) by (simp add: fq_midway_def)
    moreover have "fetched (Some (m, i)) f s f' s'" using v(1,3,4,6,8) e n w unfolding fetched_def by simp
    ultimately show ?thesis using r(1,2) v(5) fr[OF r(1)] by blast
  next
    case False
    have nm: "\<not> f_more f" using False assms(1,3) active_nonempty by (auto simp: fq_midway_def)
    have g: "sock_good s" "\<forall>i\<in>set (active_pipes f). sock_avail s i = []" using False assms(2) by (auto simp: queues_ok_def)
    from sq.recv_none[OF assms(1) g nm] obtain f' s' where r: "recvpipe sock_read f s = Inr (None, f', s')" "fq_ok f'"
      "sock_avail s' = sock_avail s" "active_pipes f' = []" "set (items (f_pipes f')) = set (items (f_pipes f))" by blast
    with fr[OF r(1)] nm False show ?thesis by (auto simp: fetched_def fq_midway_def)
  qed
qed

section \<open>Sending\<close>

definition out_frame :: "sockenv \<Rightarrow> sockenv \<Rightarrow> bool" where
  "out_frame s0 s \<longleftrightarrow> sock_good s \<and> (\<forall>j. keeps_in (ends s0 j) (ends s j))"

lemma keeps_in_cmds [simp]: "keeps_in (e\<lparr>cmds := c\<rparr>) e' = keeps_in e e'"
  by (simp add: keeps_in_def)

lemma out_cmds [simp]: "out_ok (e\<lparr>cmds := c\<rparr>) = out_ok e"
  by (simp add: out_ok_def)

lemma out_frame_refl: "queues_ok s \<Longrightarrow> out_frame s s"
  by (simp add: out_frame_def keeps_in_def queues_ok_def)

lemma out_frame_step:
  assumes "out_frame s0 s" "ends s1 = (ends s)(i := e')" "keeps_in (ends s i) e'" "sock_good s1"
  shows "out_frame s0 s1"
proof -
  have "keeps_in (ends s0 i) (ends s i)" using assms(1) by (simp add: out_frame_def)
  then have "keeps_in (ends s0 i) e'" using assms(3) by (simp add: keeps_in_def)
  with assms show ?thesis by (simp add: out_frame_def)
qed

text \<open>The inbound half of the invariant does not notice writing.\<close>

lemma out_frame_in:
  assumes "out_frame s s'"
  shows "ins_ok X s \<Longrightarrow> ins_ok X s'" "fq_midway f s \<Longrightarrow> fq_midway f s'" "queues_ok s \<Longrightarrow> queues_ok s'"
proof -
  have k: "keeps_in (ends s x) (ends s' x)" for x using assms by (simp add: out_frame_def)
  show "ins_ok X s \<Longrightarrow> ins_ok X s'" "fq_midway f s \<Longrightarrow> fq_midway f s'" "queues_ok s \<Longrightarrow> queues_ok s'"
    using k keeps_in_avail[OF k] assms by (simp_all add: ins_ok_def fq_midway_def sock_avail_def queues_ok_def keeps_in_def out_frame_def)
qed

lemma write_frame:
  assumes "out_frame s0 s" "sock_write i m s = Inr (b, s1)"
  shows "out_frame s0 s1 \<and> (\<forall>j. j \<noteq> i \<or> b \<longrightarrow> out_ok (ends s j) \<longrightarrow> out_ok (ends s1 j))"
    "state (me (ends s i)) \<noteq> Active \<Longrightarrow> out_ok (ends s1 i)"
    "b \<Longrightarrow> has_more (Msg m) \<Longrightarrow> sock_room s1 i" "b \<Longrightarrow> out_ok (ends s1 i)"
proof -
  have q: "sock_good s" using assms(1) by (auto simp: out_frame_def)
  from assms(2) obtain e' where e': "pipe_write m ((ends s i)\<lparr>cmds := []\<rparr>) = Inr (b, e')" "ends s1 = (ends s)(i := e')"
    unfolding sock_write_def by (rule on_end_cases)
  note k = pipe_write_keeps[OF e'(1), simplified]
  have "sock_good s1" using sk.wr_room[OF q, of i m] sk.wr_full[OF q, of i m] assms(2) by (cases "sock_room s i") auto
  from out_frame_step[OF assms(1) e'(2) k(1) this] k(2,3) e'(2)
  show "out_frame s0 s1 \<and> (\<forall>j. j \<noteq> i \<or> b \<longrightarrow> out_ok (ends s j) \<longrightarrow> out_ok (ends s1 j))"
    "state (me (ends s i)) \<noteq> Active \<Longrightarrow> out_ok (ends s1 i)"
    "b \<Longrightarrow> has_more (Msg m) \<Longrightarrow> sock_room s1 i" "b \<Longrightarrow> out_ok (ends s1 i)" by (auto simp: sock_room_def)
qed

lemma sock_flush_frame:
  assumes "out_frame s0 s" "sock_flush i s = Inr s1"
  shows "out_frame s0 s1 \<and> (\<forall>j. out_ok (ends s j) \<longrightarrow> out_ok (ends s1 j))"
proof -
  have q: "sock_good s" using assms(1) by (auto simp: out_frame_def)
  from assms(2) have e': "ends s1 = (ends s)(i := flush ((ends s i)\<lparr>cmds := []\<rparr>))" by (auto simp: sock_flush_def on_end_def)
  have "sock_good s1" using sk.fl[OF q, of i] assms(2) by auto
  from out_frame_step[OF assms(1) e' _ this] flush_keeps[of "(ends s i)\<lparr>cmds := []\<rparr>"] e' show ?thesis by auto
qed

lemma sock_rollback_frame:
  assumes "out_frame s0 s" "sock_rollback i s = Inr s1"
  shows "out_frame s0 s1 \<and> (\<forall>j. out_ok (ends s j) \<longrightarrow> out_ok (ends s1 j))"
proof -
  have q: "sock_good s" using assms(1) by (auto simp: out_frame_def)
  from assms(2) obtain e' where e': "rollback ((ends s i)\<lparr>cmds := []\<rparr>) = Inr e'" "ends s1 = (ends s)(i := e')"
    by (auto simp: sock_rollback_def on_end_def bindE_eq_Inr)
  have "sock_good s1" using sk.rb[OF q, of i] assms(2) by auto
  from out_frame_step[OF assms(1) e'(2) _ this] rollback_keeps[OF e'(1)] e'(2) show ?thesis by (auto simp: out_ok_def)
qed

lemma check_write_frame:
  assumes "out_frame s0 s" "sock_check_write i s = Inr (b, s1)"
  shows "out_frame s0 s1 \<and> (\<forall>j. j \<noteq> i \<or> b \<longrightarrow> out_ok (ends s j) \<longrightarrow> out_ok (ends s1 j))"
proof -
  have q: "sock_good s" using assms(1) by (auto simp: out_frame_def)
  from assms(2) obtain e' where e': "check_write ((ends s i)\<lparr>cmds := []\<rparr>) = (b, e')" "ends s1 = (ends s)(i := e')"
    unfolding sock_check_write_def by (rule on_end_cases) simp
  have "sock_good s1" using sk.cw[OF q, of i] assms(2) by auto
  from out_frame_step[OF assms(1) e'(2) _ this] check_write_out[of "(ends s i)\<lparr>cmds := []\<rparr>"] e' show ?thesis by auto
qed

lemma sendpipe_frame:
  assumes "lb_ok l" "queues_ok s" "outs_ok (set (lb_pipes l)) s" "lb_midway l s"
    and r: "sendpipe sock_write sock_rollback sock_flush m l s = Inr (rc, l', s')"
  shows "out_frame s s' \<and> outs_ok (set (lb_pipes l')) s' \<and> set (items (l_pipes l')) = set (items (l_pipes l)) \<and> lb_midway l' s'"
proof (cases "l_dropping l")
  case True
  with assms out_frame_refl show ?thesis by (auto simp: sendpipe_def lb_midway_def Let_def lb_pipes_def)
next
  case False
  with r obtain rc1 l1 s1 where w1: "lb_write_loop sock_write sock_rollback m l s = Inr (rc1, l1, s1)"
    by (auto simp: sendpipe_def Let_def bindE_eq_Inr)
  with r False have "rc1 = rc" by (cases rc1) (auto simp: sendpipe_def Let_def bindE_eq_Inr split: if_splits)
  with w1 have w: "lb_write_loop sock_write sock_rollback m l s = Inr (rc, l1, s1)" by simp
  have mid: "out_ok (ends s1 (lb_cur l))" if "l_more l" "sock_write (lb_cur l) m s = Inr (False, s1)" for s1
  proof -
    have "\<not> sock_room s (lb_cur l)" using sk.wr_room[of s "lb_cur l" m] that(2) assms(2) by (auto simp: queues_ok_def)
    with that assms(4) False have "state (me (ends s (lb_cur l))) \<noteq> Active" by (auto simp: lb_midway_def)
    from write_frame(2)[OF out_frame_refl[OF assms(2)] that(2) this] show ?thesis .
  qed
  have outs: "\<forall>x\<in>set (lb_pipes l). out_ok (ends s x)" using assms(3) by (simp add: outs_ok_def)
  have fr0: "out_frame s s1 \<and> (\<forall>x\<in>set (lb_pipes l1). out_ok (ends s1 x)) \<and> set (items (l_pipes l1)) = set (items (l_pipes l)) \<and>
    l_dropping l1 = (if rc = Rolled_back then has_more (Msg m) else l_dropping l) \<and>
    l_more l1 = (if rc = Rolled_back then False else l_more l) \<and>
    (\<forall>i. rc = Sent i \<longrightarrow> l_active l1 > 0 \<and> i = lb_cur l1 \<and> (\<exists>s0. out_frame s s0 \<and> sock_write i m s0 = Inr (True, s1))) \<and>
    (rc = Again \<longrightarrow> l_more l \<longrightarrow> l_active l = 0) \<and> rc \<noteq> Dropped"
  proof (rule write_loop_frame[of "out_frame s" sock_write m "\<lambda>s x. out_ok (ends s x)" sock_rollback l s rc l1 s1])
  qed (fact write_frame(1) sock_rollback_frame assms(1) out_frame_refl[OF assms(2)] outs mid w)+
  have fr: "out_frame s s1" "\<forall>x\<in>set (lb_pipes l1). out_ok (ends s1 x)" "set (items (l_pipes l1)) = set (items (l_pipes l))"
    "l_dropping l1 = (if rc = Rolled_back then has_more (Msg m) else l_dropping l)" "l_more l1 = (if rc = Rolled_back then False else l_more l)"
    "\<And>i. rc = Sent i \<Longrightarrow> l_active l1 > 0 \<and> i = lb_cur l1 \<and> (\<exists>s0. out_frame s s0 \<and> sock_write i m s0 = Inr (True, s1))"
    "rc = Again \<Longrightarrow> l_more l \<Longrightarrow> l_active l = 0" "rc \<noteq> Dropped"
    using fr0 by blast+
  show ?thesis
  proof (cases "\<exists>i. rc = Sent i")
    case True
    then obtain i s0 where i: "rc = Sent i" "i = lb_cur l1" "l_active l1 > 0" "out_frame s s0" "sock_write i m s0 = Inr (True, s1)"
      using fr(6) by blast
    show ?thesis
    proof (cases "has_more (Msg m)")
      case True
      with r w i False have "l' = l1\<lparr>l_more := True\<rparr>" "s' = s1" by (auto simp: sendpipe_def)
      with fr(1-5) i write_frame(3)[OF i(4,5) _ True] show ?thesis by (auto simp: outs_ok_def lb_midway_def lb_cur_def lb_pipes_def)
    next
      case nm: False
      with r w i False obtain "sock_flush i s1 = Inr s'" "l_pipes l' = l_pipes l1" "l_active l' = l_active l1" "\<not> l_more l'"
        by (auto simp: sendpipe_def bindE_eq_Inr)
      with fr(1-5) sock_flush_frame[of s s1 i s'] show ?thesis by (auto simp: outs_ok_def lb_midway_def lb_pipes_def)
    qed
  next
    case nsent: False
    with r w False have e: "l' = l1" "s' = s1" by (cases rc; auto simp: sendpipe_def)+
    have "lb_midway l1 s1" using nsent fr(4,5,7,8) assms(4) False by (cases rc) (auto simp: lb_midway_def)
    with e fr(1-3) show ?thesis by (simp add: outs_ok_def)
  qed
qed

section \<open>Pipes that come, wake up and go\<close>

text \<open>The pipe whose turn it is stays the same.\<close>

lemma fq_attach_cur:
  assumes "fq_ok f" "x \<notin> set (items (f_pipes f))" "fq_attach x f = Inr f'"
  shows "f_more f' = f_more f" "f_active f' = f_active f + 1" "f_active f > 0 \<Longrightarrow> cur f' = cur f"
proof -
  let ?xs = "items (f_pipes f)" and ?n = "f_active f"
  have n: "?n \<le> length ?xs" and ok: "arr_ok (f_pipes f)" using assms by (simp_all add: fq_ok_def)
  from push_swap_ok[OF ok assms(2) n] obtain a where a: "swap (int ?n) (int (length ?xs)) (push_back x (f_pipes f)) = Inr a"
    "items a = swap_list ?n (length ?xs) (?xs @ [x])" by blast
  have "length (items (push_back x (f_pipes f))) - 1 = length ?xs" by (simp add: push_back_def)
  with a(1) assms(3) have f': "f' = f\<lparr>f_pipes := a, f_active := ?n + 1\<rparr>" by (simp add: fq_attach_def Let_def)
  show "f_more f' = f_more f" "f_active f' = f_active f + 1" by (simp_all add: f')
  show "cur f' = cur f" if "f_active f > 0"
    using that assms(1) n by (auto simp: f' cur_def a(2) swap_list_nth nth_append fq_ok_def)
qed

lemma fq_activated_cur:
  assumes "fq_ok f" "x \<in> set (items (f_pipes f)) - set (active_pipes f)" "fq_activated x f = Inr f'"
  shows "f_more f' = f_more f" "f_active f' = f_active f + 1" "f_current f' = f_current f" "f_active f > 0 \<Longrightarrow> cur f' = cur f"
proof -
  let ?xs = "items (f_pipes f)" and ?n = "f_active f"
  have n: "?n \<le> length ?xs" and ok: "arr_ok (f_pipes f)" using assms by (simp_all add: fq_ok_def)
  from index_of_mem[OF ok, of x] assms(2) obtain k where k: "k < length ?xs" "?xs ! k = x" "index_of x (f_pipes f) = int k" by blast
  have kn: "k \<ge> ?n" using mem_take_nth[of k ?n ?xs] k n assms(2) by (auto simp: active_pipes_def not_less[symmetric])
  then have lt: "?n < length ?xs" using k by simp
  from swap_ok[OF ok k(1) lt] obtain a where a: "swap (int k) (int ?n) (f_pipes f) = Inr a" "items a = swap_list k ?n ?xs" by blast
  from a(1) k(3) assms(3) have f': "f' = f\<lparr>f_pipes := a, f_active := ?n + 1\<rparr>" by (simp add: fq_activated_def)
  show "f_more f' = f_more f" "f_active f' = f_active f + 1" "f_current f' = f_current f" by (simp_all add: f')
  show "cur f' = cur f" if "f_active f > 0"
    using that assms(1) lt k(1) kn by (auto simp: f' cur_def a(2) swap_list_nth fq_ok_def)
qed

lemma fq_terminated_cur:
  assumes "fq_ok f" "x \<in> set (items (f_pipes f)) - set (active_pipes f)" "fq_pipe_terminated x f = Inr f'"
  shows "f_more f' = f_more f" "f_active f' = f_active f" "f_active f > 0 \<Longrightarrow> cur f' = cur f"
proof -
  let ?xs = "items (f_pipes f)" and ?n = "f_active f"
  have n: "?n \<le> length ?xs" and ok: "arr_ok (f_pipes f)" using assms by (simp_all add: fq_ok_def)
  from index_of_mem[OF ok, of x] assms(2) obtain k where k: "k < length ?xs" "?xs ! k = x" "index_of x (f_pipes f) = int k" by blast
  have kn: "k \<ge> ?n" using mem_take_nth[of k ?n ?xs] k n assms(2) by (auto simp: active_pipes_def not_less[symmetric])
  from erase_ok[OF ok k(1,2)] obtain b where b: "erase x (f_pipes f) = Inr b" "items b = butlast (?xs[k := last ?xs])" by blast
  from b(1) k(3) kn assms(3) have f': "f' = f\<lparr>f_pipes := b\<rparr>" by (simp add: fq_pipe_terminated_def)
  show "f_more f' = f_more f" "f_active f' = f_active f" by (simp_all add: f')
  show "cur f' = cur f" if "f_active f > 0"
  proof -
    have "f_current f < ?n" using that assms(1) by (simp add: fq_ok_def)
    then have "take ?n (items b) ! f_current f = take ?n ?xs ! f_current f" using take_erase[of ?n k ?xs] kn k(1) b(2) by simp
    with \<open>f_current f < ?n\<close> show ?thesis by (simp add: f' cur_def)
  qed
qed

lemma lb_activated_cur:
  assumes "lb_ok l" "x \<in> set (items (l_pipes l)) - set (lb_pipes l)" "lb_activated x l = Inr l'"
  shows "l_more l' = l_more l" "l_dropping l' = l_dropping l" "l_active l' = l_active l + 1" "l_active l > 0 \<Longrightarrow> lb_cur l' = lb_cur l"
proof -
  from assms(3) obtain f where f: "fq_activated x (as_fq l) = Inr f" "l' = l\<lparr>l_pipes := f_pipes f, l_active := f_active f\<rparr>"
    by (auto simp: lb_activated_fq bindE_eq_Inr)
  note c = fq_activated_cur[OF _ _ f(1)]
  show "l_more l' = l_more l" "l_dropping l' = l_dropping l" "l_active l' = l_active l + 1"
    using c(2) assms(1,2) by (simp_all add: f(2))
  show "l_active l > 0 \<Longrightarrow> lb_cur l' = lb_cur l" using c(3,4) assms(1,2) by (simp add: f(2) lb_cur_def cur_def)
qed

lemma lb_attach_cur:
  assumes "lb_ok l" "x \<notin> set (items (l_pipes l))" "lb_attach x l = Inr l'"
  shows "l_more l' = l_more l" "l_dropping l' = l_dropping l" "l_active l' = l_active l + 1" "l_active l > 0 \<Longrightarrow> lb_cur l' = lb_cur l"
proof -
  let ?l = "l\<lparr>l_pipes := push_back x (l_pipes l)\<rparr>"
  have o: "lb_ok ?l" "lb_pipes ?l = lb_pipes l" "x \<in> set (items (l_pipes ?l)) - set (lb_pipes ?l)" "l_active l > 0 \<Longrightarrow> lb_cur ?l = lb_cur l"
    using assms push_back_ok[of "l_pipes l" x] by (auto simp: lb_ok_def lb_pipes_def push_back_def lb_cur_def nth_append dest: in_set_takeD)
  from assms(3) have "lb_activated x ?l = Inr l'" by (simp add: lb_attach_def)
  from lb_activated_cur[OF o(1,3) this] o(4) show "l_more l' = l_more l" "l_dropping l' = l_dropping l" "l_active l' = l_active l + 1"
    "l_active l > 0 \<Longrightarrow> lb_cur l' = lb_cur l" by simp_all
qed

lemma lb_terminated_more: "lb_pipe_terminated x l = Inr l' \<Longrightarrow> l_more l' = l_more l"
  by (auto simp: lb_pipe_terminated_def Let_def bindE_eq_Inr split: if_splits)

text \<open>A command wakes a direction, closes the pipe, or leaves both directions as they are.\<close>

definition handled :: "command \<Rightarrow> endp \<Rightarrow> endp \<Rightarrow> pipe_event list \<Rightarrow> bool" where
  "handled c e e' vs \<longleftrightarrow> plain e' \<and> inq e' = inq e \<and> (in_ok e \<longrightarrow> in_ok e') \<and> (out_ok e \<longrightarrow> out_ok e') \<and>
    (c \<noteq> Pipe_term_ack \<and> (c = Pipe_term \<longrightarrow> delay (me e)) \<longrightarrow> may_read e \<longrightarrow> may_read e') \<and>
    (\<not> is_hwm c \<longrightarrow> room_of e \<or> state (me e) \<noteq> Active \<longrightarrow> room_of e' \<or> state (me e') \<noteq> Active) \<and>
    (vs = [] \<or> (\<exists>n k. vs = [Stats_publish n k]) \<or> vs = [Read_activated] \<and> \<not> in_ok e \<and> in_ok e' \<or>
     vs = [Write_activated] \<and> \<not> out_ok e \<and> out_ok e' \<or> vs = [Pipe_terminated] \<and> c = Pipe_term_ack)"

lemma handle_effect:
  assumes "plain e" "evs e = []" "command_ok c (me e)" "\<And>u. c \<noteq> Hiccup u"
  shows "\<exists>e'. handle c e = Inr e' \<and> handled c e (end_after c e') (evs e')"
proof (cases c)
  case Activate_read
  with assms show ?thesis
    by (auto simp: handled_def process_activate_read_def end_defs plain_def end_wf_def may_read_def in_ok_def out_ok_def room_of_def check_hwm_def)
next
  case (Activate_write n)
  with assms show ?thesis
    by (auto simp: handled_def process_activate_write_def Let_def end_defs plain_def end_wf_def may_read_def in_ok_def out_ok_def room_of_def check_hwm_def)
next
  case Pipe_term
  with assms show ?thesis
    by (auto simp: handled_def process_pipe_term_def end_defs plain_def end_wf_def may_read_def in_ok_def out_ok_def acked_def split: pstate.splits)
next
  case Pipe_term_ack
  with assms show ?thesis
    by (auto simp: handled_def process_pipe_term_ack_def end_defs plain_def end_wf_def in_ok_def out_ok_def acked_def)
next
  case (Pipe_hwm i k)
  with assms show ?thesis
    by (auto simp: handled_def process_pipe_hwm_def set_hwms_def Let_def end_defs plain_def end_wf_def may_read_def in_ok_def out_ok_def)
next
  case (Pipe_peer_stats n)
  with assms show ?thesis
    by (auto simp: handled_def process_pipe_peer_stats_def end_defs plain_def end_wf_def may_read_def in_ok_def out_ok_def room_of_def check_hwm_def)
next
  case (Hiccup u)
  with assms(4)[of u] show ?thesis by simp
qed

text \<open>A hiccup gives the end a new queue to write to, and tells the socket while the pipe is active.\<close>

lemma hiccup_effect:
  assumes "plain e" "evs e = []" "out_pipe (me e) \<noteq> None"
  shows "\<exists>e'. handle (Hiccup u) e = Inr e' \<and> plain (end_after (Hiccup u) e') \<and> inq (end_after (Hiccup u) e') = inq e \<and>
    state (me (end_after (Hiccup u) e')) = state (me e) \<and> in_active (me (end_after (Hiccup u) e')) = in_active (me e) \<and>
    out_ok (end_after (Hiccup u) e') \<and>
    evs e' = (if state (me e) = Active then [Hiccuped] else [])"
  using assms by (auto simp: process_hiccup_def Let_def end_defs plain_def end_wf_def out_ok_def upipe_new_def uq_def)

lemma end_evs [simp]: "plain (e\<lparr>evs := v\<rparr>) = plain e" "may_read (e\<lparr>evs := v\<rparr>) = may_read e" "in_ok (e\<lparr>evs := v\<rparr>) = in_ok e" "out_ok (e\<lparr>evs := v\<rparr>) = out_ok e"
  "room_of (e\<lparr>evs := v\<rparr>) = room_of e"
  by (auto simp: plain_def end_wf_def may_read_def in_ok_def out_ok_def room_of_def check_hwm_def)

section \<open>Terminating a pipe\<close>

lemma terminate_keeps:
  assumes "end_wf e" "cmds e = []"
  shows "\<exists>e'. terminate b e = Inr e' \<and> end_wf e' \<and> inq e' = inq e \<and> router_routing_id (me e') = router_routing_id (me e)"
proof -
  from terminate_effect[OF assms] obtain e' where e': "terminate b e = Inr e'" "effect e e'" by blast
  from e'(1) have "inq e' = inq e \<and> router_routing_id (me e') = router_routing_id (me e)"
    by (auto simp: terminate_def Let_def end_defs put_raw_fields bindE_eq_Inr rollback_def split: if_splits pstate.splits option.splits)
  with e' effect_wf[OF e'(2)] show ?thesis by blast
qed

lemma sock_terminate_ok:
  assumes "queues_ok s"
  shows "\<exists>s'. sock_do x (terminate b) s = Inr s' \<and> queues_ok s' \<and> (\<forall>j. router_routing_id (me (ends s' j)) = router_routing_id (me (ends s j))) \<and>
    (\<forall>j. j \<noteq> x \<longrightarrow> ends s' j = ends s j)"
proof -
  let ?e = "(ends s x)\<lparr>cmds := []\<rparr>"
  have p: "end_wf ?e" "cmds ?e = []" "plain (ends s x)" using assms by (auto simp: queues_ok_def sock_good_def plain_def end_wf_def)
  from terminate_keeps[OF p(1,2), of b] obtain e' where e': "terminate b ?e = Inr e'" "end_wf e'" "inq e' = inq (ends s x)"
    "router_routing_id (me e') = router_routing_id (me (ends s x))" by auto
  then show ?thesis using assms p(3) by (auto simp: sock_do_def on_end_def queues_ok_def sock_good_def plain_def)
qed

text \<open>A pipe that is terminated without delay is closed: nothing more is read from it or written to it.\<close>

definition shut :: "endp \<Rightarrow> bool" where
  "shut e \<longleftrightarrow> state (me e) \<noteq> Active \<and> state (me e) \<noteq> Waiting_for_delimiter"

lemma closed_end: "shut e \<Longrightarrow> \<not> may_read e" "shut e \<Longrightarrow> in_ok e" "shut e \<Longrightarrow> out_ok e"
  by (auto simp: shut_def may_read_def in_ok_def out_ok_def)

lemma terminate_closes:
  assumes "end_wf e" "terminate False e = Inr e'"
  shows "shut e'"
  using assms
  by (auto simp: terminate_def Let_def shut_def end_defs put_raw_fields rollback_ok[OF assms(1)] bindE_eq_Inr rollback_def
     split: if_splits pstate.splits option.splits)

lemma sock_close_ok:
  assumes "queues_ok s"
  shows "\<exists>s'. sock_do x (terminate False) s = Inr s' \<and> queues_ok s' \<and> (\<forall>j. j \<noteq> x \<longrightarrow> ends s' j = ends s j) \<and> shut (ends s' x)"
proof -
  from sock_terminate_ok[OF assms, of x False] obtain s' where s': "sock_do x (terminate False) s = Inr s'" "queues_ok s'"
    "\<forall>j. j \<noteq> x \<longrightarrow> ends s' j = ends s j" by blast
  have wf: "end_wf ((ends s x)\<lparr>cmds := []\<rparr>)" using assms by (auto simp: queues_ok_def sock_good_def plain_def end_wf_def)
  from s'(1) have "shut (ends s' x)"
    using terminate_closes[OF wf] by (auto simp: sock_do_def on_end_def bindE_eq_Inr)
  with s' show ?thesis by blast
qed

lemma sample_queues: "queues_ok sample_env"
  using sample_fq_ok(2) by (auto simp: queues_ok_def sample_env_def sample_end_def upipe_new_def has_more_def)

section \<open>The messages behind a fair queue\<close>

text \<open>Each message handed out is one message less in the pipes, so loops over receive calls come to an end.\<close>

definition waiting :: "sockenv \<Rightarrow> pid \<Rightarrow> nat" where
  "waiting s x = length (ready (inq (ends s x)))"

definition backlog :: "fq \<Rightarrow> sockenv \<Rightarrow> nat" where
  "backlog f s = sum_list (map (waiting s) (items (f_pipes f)))"

lemma backlog_mset: "mset (items (f_pipes f')) = mset (items (f_pipes f)) \<Longrightarrow> backlog f' s = backlog f s"
  unfolding backlog_def by (metis mset_map sum_mset_sum_list)

lemma sum_list_less:
  "(\<And>x. g x \<le> h x) \<Longrightarrow> i \<in> set xs \<Longrightarrow> g i < h i \<Longrightarrow> sum_list (map g xs) < (sum_list (map h xs) :: nat)"
proof (induction xs)
  case (Cons x xs)
  have "sum_list (map g xs) \<le> sum_list (map h xs)" by (rule sum_list_mono) (rule Cons.prems(1))
  with Cons show ?case by (cases "x = i") (auto intro: add_less_le_mono add_le_less_mono)
qed simp

lemma read_loop_shrinks:
  "read_loop u = (r, u') \<Longrightarrow> length (ready u') \<le> length (ready u) \<and> (r \<noteq> None \<longrightarrow> length (ready u') < length (ready u))"
proof (induction u arbitrary: r u' rule: read_loop.induct)
  case (1 u)
  show ?case
  proof (cases "ready u")
    case Nil
    with 1(2) show ?thesis by (auto simp: read_loop.simps[of u] u_read_def)
  next
    case (Cons m ms)
    let ?u = "u\<lparr>ready := ms\<rparr>"
    have e: "u_read u = (Some m, ?u)" using Cons by (simp add: u_read_def)
    show ?thesis
    proof (cases "is_credential m")
      case True
      then have "read_loop ?u = (r, u')" using 1(2) e by (simp add: read_loop.simps[of u])
      from 1(1)[OF e[symmetric] refl True this] Cons show ?thesis by auto
    next
      case False
      with 1(2) e Cons show ?thesis by (auto simp: read_loop.simps[of u])
    qed
  qed
qed

lemma pipe_read_shrinks:
  assumes "pipe_read e = Inr (r, e')"
  shows "length (ready (inq e')) \<le> length (ready (inq e)) \<and> (r \<noteq> None \<longrightarrow> length (ready (inq e')) < length (ready (inq e)))"
proof (cases "may_read e")
  case False
  with assms show ?thesis by (simp add: pipe_read_def)
next
  case True
  obtain r1 u where l: "read_loop (inq e) = (r1, u)" by fastforce
  note k = read_loop_shrinks[OF l]
  consider "r1 = None" | "r1 = Some Delimiter" | m where "r1 = Some (Msg m)" by (metis option.exhaust pmsg.exhaust)
  then show ?thesis
  proof cases
    case 2
    with assms True l k show ?thesis by (auto simp: pipe_read_def bindE_eq_Inr dest!: process_delimiter_out)
  qed (use assms True l k in \<open>auto simp: pipe_read_def Let_def end_defs split: if_splits\<close>)
qed

lemma sock_read_waiting:
  assumes "sock_read i s = Inr (r, s1)"
  shows "waiting s1 j \<le> waiting s j" "r \<noteq> None \<Longrightarrow> waiting s1 i < waiting s i"
proof -
  from assms obtain e' where e': "pipe_read ((ends s i)\<lparr>cmds := []\<rparr>) = Inr (r, e')" "ends s1 = (ends s)(i := e')"
    unfolding sock_read_def by (rule on_end_cases)
  from pipe_read_shrinks[OF e'(1)] e'(2) show "waiting s1 j \<le> waiting s j" "r \<noteq> None \<Longrightarrow> waiting s1 i < waiting s i"
    by (auto simp: waiting_def)
qed

lemma deactivate_mset: "deactivate f = Inr f' \<Longrightarrow> mset (items (f_pipes f')) = mset (items (f_pipes f))"
  by (auto simp: deactivate_def swap_def Let_def bindE_eq_Inr mset_swap split: if_splits)

lemma recvpipe_backlog:
  "recvpipe sock_read f s = Inr (Some p, f', s') \<Longrightarrow> backlog f' s' < backlog f s"
proof (induction "f_active f" arbitrary: f s)
  case 0
  then show ?case by (simp add: recvpipe.simps[of sock_read f])
next
  case (Suc n)
  from Suc.prems Suc(2) obtain i r s1 where i: "a_at (f_current f) (f_pipes f) = Inr i" "sock_read i s = Inr (r, s1)"
    by (auto simp: recvpipe.simps[of sock_read f s] bindE_eq_Inr)
  have mem: "i \<in> set (items (f_pipes f))" using i(1) by (auto simp: a_at_def split: if_splits)
  note w = sock_read_waiting[OF i(2)]
  show ?case
  proof (cases r)
    case (Some m)
    with Suc.prems Suc(2) i have e: "items (f_pipes f') = items (f_pipes f)" "s' = s1"
      by (auto simp: recvpipe.simps[of sock_read f s] Let_def)
    have "backlog f s1 < backlog f s" unfolding backlog_def using w(2) Some by (intro sum_list_less[OF w(1) mem]) simp
    with e backlog_mset[of f' f s'] show ?thesis by simp
  next
    case None
    with Suc.prems Suc(2) i obtain f1 where f1: "deactivate f = Inr f1" "recvpipe sock_read f1 s1 = Inr (Some p, f', s')"
      by (auto simp: recvpipe.simps[of sock_read f s] bindE_eq_Inr split: if_splits)
    have "n = f_active f1" using deactivate_active[OF f1(1)] Suc(2) by simp
    from Suc.hyps(1)[OF this f1(2)] have "backlog f' s' < backlog f1 s1" .
    also have "\<dots> = backlog f s1" by (rule backlog_mset[OF deactivate_mset[OF f1(1)]])
    also have "\<dots> \<le> backlog f s" unfolding backlog_def by (rule sum_list_mono) (rule w(1))
    finally show ?thesis .
  qed
qed

end
