(* ===== verification/Dealer.thy ===== *)
theory Dealer
  imports Socket_Pipes
begin

text \<open>
  The DEALER socket, \<^verbatim>\<open>dealer.cpp\<close>: inbound pipes fair-queued, outbound pipes load-balanced, both over the same pipes.
\<close>

record dealer =
  de_fq :: fq
  de_lb :: lb
  probe_router :: bool
  de_immediate :: bool

definition dealer_new :: dealer where
  "dealer_new = \<lparr>de_fq = fq_new, de_lb = lb_new, probe_router = False, de_immediate = False\<rparr>"

definition dealer_attach_pipe :: "pid \<Rightarrow> dealer \<Rightarrow> sockenv \<Rightarrow> (dealer \<times> sockenv) result" where
  "dealer_attach_pipe x d s = bindE (send_probe (probe_router d) x s) (\<lambda>s1.
     bindE (fq_attach x (de_fq d)) (\<lambda>f. bindE (lb_attach x (de_lb d)) (\<lambda>l. Inr (d\<lparr>de_fq := f, de_lb := l\<rparr>, s1))))"

definition dealer_setsockopt :: "int \<Rightarrow> int option \<Rightarrow> dealer \<Rightarrow> bool \<times> dealer" where
  "dealer_setsockopt opt v d =
     (if opt = ZMQ_PROBE_ROUTER \<and> int_option v then (True, d\<lparr>probe_router := (v \<noteq> Some 0)\<rparr>) else (False, d))"

text \<open>The option of every socket (\<^verbatim>\<open>options.cpp\<close>) that keeps its pipes from outliving a connection.\<close>

definition ZMQ_IMMEDIATE :: int where "ZMQ_IMMEDIATE = 39"

definition set_immediate :: "int \<Rightarrow> int option \<Rightarrow> dealer \<Rightarrow> bool \<times> dealer" where
  "set_immediate opt v d =
     (if opt = ZMQ_IMMEDIATE \<and> (v = Some 0 \<or> v = Some 1) then (True, d\<lparr>de_immediate := (v = Some 1)\<rparr>) else (False, d))"

definition dealer_send :: "wmsg \<Rightarrow> dealer \<Rightarrow> sockenv \<Rightarrow> (lbrc \<times> dealer \<times> sockenv) result" where
  "dealer_send m d s = bindE (sendpipe sock_write sock_rollback sock_flush m (de_lb d) s)
     (\<lambda>(rc, l, s1). Inr (rc, d\<lparr>de_lb := l\<rparr>, s1))"

definition dealer_recv :: "dealer \<Rightarrow> sockenv \<Rightarrow> ((wmsg \<times> pid) option \<times> dealer \<times> sockenv) result" where
  "dealer_recv d s = bindE (recvpipe sock_read (de_fq d) s) (\<lambda>(r, f, s1). Inr (r, d\<lparr>de_fq := f\<rparr>, s1))"

definition dealer_has_in :: "dealer \<Rightarrow> sockenv \<Rightarrow> (bool \<times> dealer \<times> sockenv) result" where
  "dealer_has_in d s = bindE (has_in sock_check_read (de_fq d) s) (\<lambda>(b, f, s1). Inr (b, d\<lparr>de_fq := f\<rparr>, s1))"

definition dealer_has_out :: "dealer \<Rightarrow> sockenv \<Rightarrow> (bool \<times> dealer \<times> sockenv) result" where
  "dealer_has_out d s = bindE (has_out sock_check_write (de_lb d) s) (\<lambda>(b, l, s1). Inr (b, d\<lparr>de_lb := l\<rparr>, s1))"

definition dealer_read_activated :: "pid \<Rightarrow> dealer \<Rightarrow> dealer result" where
  "dealer_read_activated x d = bindE (fq_activated x (de_fq d)) (\<lambda>f. Inr (d\<lparr>de_fq := f\<rparr>))"

definition dealer_write_activated :: "pid \<Rightarrow> dealer \<Rightarrow> dealer result" where
  "dealer_write_activated x d = bindE (lb_activated x (de_lb d)) (\<lambda>l. Inr (d\<lparr>de_lb := l\<rparr>))"

definition dealer_pipe_terminated :: "pid \<Rightarrow> dealer \<Rightarrow> dealer result" where
  "dealer_pipe_terminated x d = bindE (fq_pipe_terminated x (de_fq d)) (\<lambda>f.
     bindE (lb_pipe_terminated x (de_lb d)) (\<lambda>l. Inr (d\<lparr>de_fq := f, de_lb := l\<rparr>)))"


section \<open>Commands\<close>

text \<open>
  A command for a pipe of the socket, and the notifications of the pipe that follow (\<^verbatim>\<open>socket_base.cpp\<close>, the event
  sink).  On a hiccup the socket terminates the pipe if \<^verbatim>\<open>ZMQ_IMMEDIATE\<close> is set; otherwise it calls \<^verbatim>\<open>xhiccuped\<close>, which a DEALER has only as the
  failing assertion of the base class.
\<close>

definition dealer_hiccuped :: "pid \<Rightarrow> dealer \<Rightarrow> sockenv \<Rightarrow> sockenv result" where
  "dealer_hiccuped x d s = (if de_immediate d then sock_do x (terminate False) s else Inl Assertion)"

fun dealer_notify :: "pid \<Rightarrow> pipe_event list \<Rightarrow> dealer \<times> sockenv \<Rightarrow> (dealer \<times> sockenv) result" where
  "dealer_notify x [] z = Inr z"
| "dealer_notify x (Read_activated # vs) (d, s) = bindE (dealer_read_activated x d) (\<lambda>d1. dealer_notify x vs (d1, s))"
| "dealer_notify x (Write_activated # vs) (d, s) = bindE (dealer_write_activated x d) (\<lambda>d1. dealer_notify x vs (d1, s))"
| "dealer_notify x (Pipe_terminated # vs) (d, s) = bindE (dealer_pipe_terminated x d) (\<lambda>d1. dealer_notify x vs (d1, s))"
| "dealer_notify x (Stats_publish n k # vs) z = dealer_notify x vs z"
| "dealer_notify x (Hiccuped # vs) (d, s) = bindE (dealer_hiccuped x d s) (\<lambda>s1. dealer_notify x vs (d, s1))"

definition dealer_command :: "pid \<Rightarrow> command \<Rightarrow> dealer \<Rightarrow> sockenv \<Rightarrow> (dealer \<times> sockenv) result" where
  "dealer_command x c d s = bindE (sock_command x c s) (\<lambda>(vs, s1). dealer_notify x vs (d, s1))"

text \<open>\<^verbatim>\<open>term_endpoint\<close> terminates the pipe of an endpoint without delay (inproc endpoints, which have no session, are left out).\<close>

definition dealer_disconnect :: "pid \<Rightarrow> dealer \<Rightarrow> sockenv \<Rightarrow> (dealer \<times> sockenv) result" where
  "dealer_disconnect x d s = bindE (sock_do x (terminate False) s) (\<lambda>s1. Inr (d, s1))"

text \<open>
  What can happen to the socket: the calls of its user, disconnections among them, new pipes, commands, and messages that the peer
  of a pipe flushes.
\<close>

datatype dealer_op = Do_send wmsg | Do_recv | Do_has_in | Do_has_out | Do_immediate int | Do_disconnect pid | Do_attach pid
  | Do_command pid command | Peer_flush pid "pmsg list"

fun dealer_step :: "dealer_op \<Rightarrow> dealer \<times> sockenv \<Rightarrow> (unit \<times> dealer \<times> sockenv) result" where
  "dealer_step (Do_send m) (d, s) = bindE (dealer_send m d s) (\<lambda>(_, d1, s1). Inr ((), d1, s1))"
| "dealer_step Do_recv (d, s) = bindE (dealer_recv d s) (\<lambda>(_, d1, s1). Inr ((), d1, s1))"
| "dealer_step Do_has_in (d, s) = bindE (dealer_has_in d s) (\<lambda>(_, d1, s1). Inr ((), d1, s1))"
| "dealer_step Do_has_out (d, s) = bindE (dealer_has_out d s) (\<lambda>(_, d1, s1). Inr ((), d1, s1))"
| "dealer_step (Do_immediate v) (d, s) = Inr ((), snd (set_immediate ZMQ_IMMEDIATE (Some v) d), s)"
| "dealer_step (Do_disconnect x) (d, s) = bindE (dealer_disconnect x d s) (\<lambda>(d1, s1). Inr ((), d1, s1))"
| "dealer_step (Do_attach x) (d, s) = bindE (dealer_attach_pipe x d s) (\<lambda>(d1, s1). Inr ((), d1, s1))"
| "dealer_step (Do_command x c) (d, s) = bindE (dealer_command x c d s) (\<lambda>(d1, s1). Inr ((), d1, s1))"
| "dealer_step (Peer_flush x ms) (d, s) = Inr ((), d, s\<lparr>ends := (ends s)(x := arrive ms (ends s x))\<rparr>)"

text \<open>
  What the environment keeps to: pipes are attached once and fresh, messages and commands are as the theory
  \<open>Socket_Pipes\<close> says, and a session hiccups an active pipe of a DEALER only with \<^verbatim>\<open>ZMQ_IMMEDIATE\<close> (\<^verbatim>\<open>session_base.cpp\<close>, \<^verbatim>\<open>reconnect\<close>).
  Left out are the situations in which the code itself fails.  While a message is half sent: a pipe of the socket is deleted
  (\<open>lb_termination_misroutes\<close>) or gets another high water mark (\<open>dealer_resize_faults\<close>).  While a message is half received: its
  pipe is closed by a disconnection, a hiccup or a termination without delay (\<open>dealer_disconnect_aborts\<close>), or a pipe is deleted that the fair queue
  still has among the active ones (\<open>dealer_deletion_misreads\<close>).
\<close>

fun is_hiccup :: "command \<Rightarrow> bool" where
  "is_hiccup (Hiccup u) \<longleftrightarrow> True"
| "is_hiccup _ \<longleftrightarrow> False"

fun dealer_may :: "dealer_op \<Rightarrow> dealer \<times> sockenv \<Rightarrow> bool" where
  "dealer_may (Do_attach x) (d, s) \<longleftrightarrow> x \<notin> set (items (f_pipes (de_fq d))) \<and> may_read (ends s x) \<and> room_of (ends s x)"
| "dealer_may (Do_disconnect x) (d, s) \<longleftrightarrow> x \<in> set (items (f_pipes (de_fq d))) \<and> (f_more (de_fq d) \<longrightarrow> x \<noteq> cur (de_fq d))"
| "dealer_may (Do_command x c) (d, s) \<longleftrightarrow> x \<in> set (items (f_pipes (de_fq d))) \<and> command_ok c (me (ends s x)) \<and>
     (is_hiccup c \<longrightarrow> de_immediate d \<or> state (me (ends s x)) \<noteq> Active) \<and>
     (l_more (de_lb d) \<longrightarrow> c \<noteq> Pipe_term_ack \<and> \<not> is_hwm c) \<and>
     (f_more (de_fq d) \<and> c = Pipe_term_ack \<longrightarrow> x \<notin> set (active_pipes (de_fq d))) \<and>
     (f_more (de_fq d) \<and> x = cur (de_fq d) \<longrightarrow> \<not> is_hiccup c \<and> (c = Pipe_term \<longrightarrow> delay (me (ends s x))))"
| "dealer_may (Peer_flush x ms) (d, s) \<longleftrightarrow> flushable ms"
| "dealer_may _ _ \<longleftrightarrow> True"

definition dealer_ok :: "dealer \<times> sockenv \<Rightarrow> bool" where
  "dealer_ok z \<longleftrightarrow> (case z of (d, s) \<Rightarrow> fq_ok (de_fq d) \<and> lb_ok (de_lb d) \<and> queues_ok s \<and>
     set (items (f_pipes (de_fq d))) = set (items (l_pipes (de_lb d))) \<and>
     ins_ok (set (active_pipes (de_fq d))) s \<and> outs_ok (set (lb_pipes (de_lb d))) s \<and>
     fq_midway (de_fq d) s \<and> lb_midway (de_lb d) s)"

lemma dealer_recv_keeps:
  assumes "dealer_ok (d, s)"
  shows "\<exists>r d' s'. dealer_recv d s = Inr (r, d', s') \<and> dealer_ok (d', s')"
proof -
  from assms have o: "fq_ok (de_fq d)" "queues_ok s" "fq_midway (de_fq d) s" by (simp_all add: dealer_ok_def)
  from recv_result[OF o] obtain r f' s' where r: "recvpipe sock_read (de_fq d) s = Inr (r, f', s')" "fq_ok f'"
    "set (items (f_pipes f')) = set (items (f_pipes (de_fq d)))" "fq_midway f' s'" "in_frame s s'"
    "ins_ok (set (active_pipes (de_fq d))) s \<longrightarrow> ins_ok (set (active_pipes f')) s'" by blast
  with in_frame_out[OF r(5)] assms show ?thesis by (auto simp: dealer_recv_def dealer_ok_def)
qed

lemma dealer_has_in_keeps:
  assumes "dealer_ok (d, s)"
  shows "\<exists>b d' s'. dealer_has_in d s = Inr (b, d', s') \<and> dealer_ok (d', s')"
proof (cases "f_more (de_fq d)")
  case True
  with assms show ?thesis by (auto simp: dealer_has_in_def has_in_def)
next
  case False
  from assms have o: "fq_ok (de_fq d)" "queues_ok s" "ins_ok (set (active_pipes (de_fq d))) s" by (simp_all add: dealer_ok_def)
  have g: "sock_good s" using o(2) by (simp add: queues_ok_def)
  from sq.has_in_exact[OF o(1) g False] obtain b f' s' where r: "has_in sock_check_read (de_fq d) s = Inr (b, f', s')" by blast
  have a: "\<forall>x\<in>set (active_pipes (de_fq d)). in_ok (ends s x)" using o(3) by (simp add: ins_ok_def)
  have fr: "in_frame s s' \<and> (\<forall>x\<in>set (active_pipes f'). in_ok (ends s' x)) \<and> fq_ok f' \<and> f_more f' = f_more (de_fq d) \<and>
      set (items (f_pipes f')) = set (items (f_pipes (de_fq d)))"
    by (rule has_in_frame[where Q = "in_frame s" and P = "\<lambda>s x. in_ok (ends s x)" and chk = sock_check_read])
      (use check_read_frame o(1) in_frame_refl[OF o(2)] a r False in \<open>auto simp: has_in_def\<close>)
  moreover have "outs_ok (set (lb_pipes (de_lb d))) s'" "lb_midway (de_lb d) s'" "queues_ok s'"
    using fr assms in_frame_out[of s s'] by (auto simp: dealer_ok_def)
  ultimately show ?thesis using r False assms by (auto simp: dealer_has_in_def dealer_ok_def ins_ok_def fq_midway_def)
qed

lemma dealer_send_keeps:
  assumes "dealer_ok (d, s)"
  shows "\<exists>rc d' s'. dealer_send m d s = Inr (rc, d', s') \<and> dealer_ok (d', s')"
proof -
  from assms have o: "lb_ok (de_lb d)" "queues_ok s" "outs_ok (set (lb_pipes (de_lb d))) s" "lb_midway (de_lb d) s" "sock_good s"
    by (simp_all add: dealer_ok_def queues_ok_def)
  from sendpipe_outcome[OF o(1,5), of m] obtain rc l' s' where r: "sendpipe sock_write sock_rollback sock_flush m (de_lb d) s = Inr (rc, l', s')" "lb_ok l'"
    by blast
  from sendpipe_frame[OF o(1-4) r(1)] out_frame_in[of s s'] r assms show ?thesis by (auto simp: dealer_send_def dealer_ok_def)
qed

lemma dealer_has_out_keeps:
  assumes "dealer_ok (d, s)"
  shows "\<exists>b d' s'. dealer_has_out d s = Inr (b, d', s') \<and> dealer_ok (d', s')"
proof (cases "l_more (de_lb d)")
  case True
  with assms show ?thesis by (auto simp: dealer_has_out_def has_out_def)
next
  case False
  from assms have o: "lb_ok (de_lb d)" "queues_ok s" "outs_ok (set (lb_pipes (de_lb d))) s" "sock_good s"
    by (simp_all add: dealer_ok_def queues_ok_def)
  from sk.has_out_exact[OF o(1,4) False] obtain b l' s' where r: "has_out sock_check_write (de_lb d) s = Inr (b, l', s')" by blast
  have fr: "out_frame s s' \<and> (\<forall>x\<in>set (lb_pipes l'). out_ok (ends s' x)) \<and> lb_ok l' \<and> l_more l' = l_more (de_lb d) \<and>
      set (items (l_pipes l')) = set (items (l_pipes (de_lb d)))"
    by (rule has_out_frame[where Q = "out_frame s" and P = "\<lambda>s x. out_ok (ends s x)" and cw = sock_check_write])
      (use check_write_frame o(1,3) out_frame_refl[OF o(2)] r False in \<open>auto simp: has_out_def outs_ok_def\<close>)
  with out_frame_in[of s s'] r False assms show ?thesis by (auto simp: dealer_has_out_def dealer_ok_def outs_ok_def lb_midway_def)
qed

lemma dealer_attach_keeps:
  assumes "dealer_ok (d, s)" "x \<notin> set (items (f_pipes (de_fq d)))" "may_read (ends s x)" "room_of (ends s x)"
  shows "\<exists>d' s'. dealer_attach_pipe x d s = Inr (d', s') \<and> dealer_ok (d', s')"
proof -
  from assms(1) have o: "fq_ok (de_fq d)" "lb_ok (de_lb d)" "queues_ok s" "x \<notin> set (items (l_pipes (de_lb d)))" "sock_good s"
    using assms(2) by (simp_all add: dealer_ok_def queues_ok_def)
  have out: "out_ok (ends s x)" using assms(4) by (simp add: out_ok_def room_of_def)
  have fresh: "x \<notin> set (lb_pipes (de_lb d))" using o(4) by (auto simp: lb_pipes_def dest: in_set_takeD)
  obtain s1 where s1: "send_probe (probe_router d) x s = Inr s1" "out_frame s s1" "\<And>j. out_ok (ends s j) \<Longrightarrow> out_ok (ends s1 j)"
    "\<And>j. j \<noteq> x \<Longrightarrow> ends s1 j = ends s j"
  proof (cases "probe_router d")
    case True
    from sk.wr_room[OF o(5), of x msg_init] assms(4) obtain s2 where w: "sock_write x msg_init s = Inr (True, s2)" "sock_good s2"
      by (auto simp: sock_room_def)
    from sk.fl[OF w(2), of x] obtain s3 where f: "sock_flush x s2 = Inr s3" by blast
    have k: "out_frame s s2" "\<And>j. out_ok (ends s j) \<Longrightarrow> out_ok (ends s2 j)" using write_frame(1)[OF out_frame_refl[OF o(3)] w(1)] by auto
    have "ends s3 j = ends s j" if "j \<noteq> x" for j
      using w(1) f that by (auto simp: sock_write_def sock_flush_def on_end_def bindE_eq_Inr)
    with k sock_flush_frame[OF k(1) f] w(1) f True that show ?thesis by (simp add: send_probe_def)
  qed (use that out_frame_refl[OF o(3)] in \<open>simp add: send_probe_def\<close>)
  from fq_attach_ok[OF o(1) assms(2)] obtain f' where f': "fq_attach x (de_fq d) = Inr f'" "fq_ok f'"
    "set (active_pipes f') = insert x (set (active_pipes (de_fq d)))" "set (items (f_pipes f')) = insert x (set (items (f_pipes (de_fq d))))" by blast
  from lb_attach_ok[OF o(2,4)] obtain l' where l': "lb_attach x (de_lb d) = Inr l'" "lb_ok l'"
    "set (lb_pipes l') = insert x (set (lb_pipes (de_lb d)))" "set (items (l_pipes l')) = insert x (set (items (l_pipes (de_lb d))))" by blast
  have i: "fq_midway f' s1" "ins_ok (set (active_pipes f')) s1" "queues_ok s1"
    using out_frame_in[OF s1(2)] fq_attach_cur[OF o(1) assms(2) f'(1)] f'(3) assms(1) may_read_in_ok[OF assms(3)]
    by (auto simp: dealer_ok_def fq_midway_def ins_ok_def)
  have "ends s1 (lb_cur (de_lb d)) = ends s (lb_cur (de_lb d))" if "l_active (de_lb d) > 0"
  proof -
    have "lb_cur (de_lb d) \<in> set (lb_pipes (de_lb d))" using active_nonempty[of "as_fq (de_lb d)"] o(2) that by simp
    then show ?thesis using s1(4)[of "lb_cur (de_lb d)"] fresh by (metis)
  qed
  then have "lb_midway l' s1"
    using lb_attach_cur[OF o(2,4) l'(1)] assms(1) by (auto simp: dealer_ok_def lb_midway_def sock_room_def)
  moreover have "outs_ok (set (lb_pipes l')) s1" using s1(3) out l'(3) assms(1) by (auto simp: dealer_ok_def outs_ok_def)
  ultimately show ?thesis using s1(1) f' l' i assms(1) by (auto simp: dealer_attach_pipe_def dealer_ok_def)
qed

section \<open>Commands\<close>

lemma dealer_env_mono:
  assumes "dealer_ok (d, s)" "queues_ok s'"
    and "\<And>j. in_ok (ends s j) \<Longrightarrow> in_ok (ends s' j)"
    and "f_more (de_fq d) \<Longrightarrow> sock_avail s (cur (de_fq d)) \<noteq> [] \<Longrightarrow> sock_avail s' (cur (de_fq d)) \<noteq> []"
    and "\<And>j. out_ok (ends s j) \<Longrightarrow> out_ok (ends s' j)"
    and "\<And>j. l_more (de_lb d) \<Longrightarrow> sock_room s j \<or> state (me (ends s j)) \<noteq> Active \<Longrightarrow> sock_room s' j \<or> state (me (ends s' j)) \<noteq> Active"
  shows "dealer_ok (d, s')"
  using assms by (simp add: dealer_ok_def ins_ok_def outs_ok_def fq_midway_def lb_midway_def)

text \<open>Closing a pipe that no message is being read from.\<close>

lemma dealer_closed:
  assumes "dealer_ok (d, s)" "queues_ok s'" "\<And>j. j \<noteq> x \<Longrightarrow> ends s' j = ends s j" "shut (ends s' x)"
    "f_more (de_fq d) \<Longrightarrow> x \<noteq> cur (de_fq d)"
  shows "dealer_ok (d, s')"
proof (rule dealer_env_mono[OF assms(1,2)])
  show "in_ok (ends s j) \<Longrightarrow> in_ok (ends s' j)" "out_ok (ends s j) \<Longrightarrow> out_ok (ends s' j)" for j
    using assms(3)[of j] closed_end[OF assms(4)] by (cases "j = x"; simp)+
  show "sock_room s j \<or> state (me (ends s j)) \<noteq> Active \<Longrightarrow> sock_room s' j \<or> state (me (ends s' j)) \<noteq> Active" for j
    using assms(3)[of j] assms(4) by (cases "j = x") (auto simp: sock_room_def shut_def)
  show "f_more (de_fq d) \<Longrightarrow> sock_avail s (cur (de_fq d)) \<noteq> [] \<Longrightarrow> sock_avail s' (cur (de_fq d)) \<noteq> []"
    using assms(3)[of "cur (de_fq d)"] assms(5) by (auto simp: sock_avail_def)
qed

lemma dealer_disconnect_keeps:
  assumes "dealer_ok (d, s)" "f_more (de_fq d) \<Longrightarrow> x \<noteq> cur (de_fq d)"
  shows "\<exists>s'. sock_do x (terminate False) s = Inr s' \<and> dealer_ok (d, s')"
proof -
  have "queues_ok s" using assms(1) by (simp add: dealer_ok_def)
  from sock_close_ok[OF this, of x] obtain s' where s': "sock_do x (terminate False) s = Inr s'" "queues_ok s'"
    "\<And>j. j \<noteq> x \<Longrightarrow> ends s' j = ends s j" "shut (ends s' x)" by blast
  from dealer_closed[OF assms(1) s'(2-4) assms(2)] s'(1) show ?thesis by blast
qed

lemma read_activated_keeps:
  assumes "dealer_ok (d, s)" "x \<in> set (items (f_pipes (de_fq d))) - set (active_pipes (de_fq d))" "in_ok (ends s x)"
  shows "\<exists>d'. dealer_read_activated x d = Inr d' \<and> dealer_ok (d', s)"
proof -
  have o: "fq_ok (de_fq d)" using assms(1) by (simp add: dealer_ok_def)
  from fq_activated_ok[OF o assms(2)] obtain f' where f': "fq_activated x (de_fq d) = Inr f'" "fq_ok f'"
    "set (active_pipes f') = insert x (set (active_pipes (de_fq d)))" "set (items (f_pipes f')) = set (items (f_pipes (de_fq d)))" by blast
  have "fq_midway f' s" using fq_activated_cur[OF o assms(2) f'(1)] assms(1) by (auto simp: dealer_ok_def fq_midway_def)
  with f' assms(1,3) show ?thesis by (auto simp: dealer_read_activated_def dealer_ok_def ins_ok_def)
qed

lemma write_activated_keeps:
  assumes "dealer_ok (d, s)" "x \<in> set (items (l_pipes (de_lb d))) - set (lb_pipes (de_lb d))" "out_ok (ends s x)"
  shows "\<exists>d'. dealer_write_activated x d = Inr d' \<and> dealer_ok (d', s)"
proof -
  have o: "lb_ok (de_lb d)" using assms(1) by (simp add: dealer_ok_def)
  from lb_activated_ok[OF o assms(2)] obtain l' where l': "lb_activated x (de_lb d) = Inr l'" "lb_ok l'"
    "set (lb_pipes l') = insert x (set (lb_pipes (de_lb d)))" "set (items (l_pipes l')) = set (items (l_pipes (de_lb d)))" by blast
  have "lb_midway l' s" using lb_activated_cur[OF o assms(2) l'(1)] assms(1) by (auto simp: dealer_ok_def lb_midway_def)
  with l' assms(1,3) show ?thesis by (auto simp: dealer_write_activated_def dealer_ok_def outs_ok_def)
qed

lemma fq_terminated_more: "fq_pipe_terminated x f = Inr f' \<Longrightarrow> f_more f' = f_more f"
  by (auto simp: fq_pipe_terminated_def Let_def bindE_eq_Inr split: if_splits)

lemma pipe_terminated_keeps:
  assumes "dealer_ok (d, s)" "x \<in> set (items (f_pipes (de_fq d)))" "\<not> l_more (de_lb d)"
    "f_more (de_fq d) \<Longrightarrow> x \<notin> set (active_pipes (de_fq d))"
  shows "\<exists>d'. dealer_pipe_terminated x d = Inr d' \<and> dealer_ok (d', s)"
proof -
  have o: "fq_ok (de_fq d)" "lb_ok (de_lb d)" "x \<in> set (items (l_pipes (de_lb d)))"
    using assms(1,2) by (auto simp: dealer_ok_def)
  from fq_terminated_ok[OF o(1) assms(2)] obtain f' where f': "fq_pipe_terminated x (de_fq d) = Inr f'" "fq_ok f'"
    "set (active_pipes f') = set (active_pipes (de_fq d)) - {x}" "set (items (f_pipes f')) = set (items (f_pipes (de_fq d))) - {x}" by blast
  from lb_terminated_ok[OF o(2,3)] obtain l' where l': "lb_pipe_terminated x (de_lb d) = Inr l'" "lb_ok l'"
    "set (lb_pipes l') = set (lb_pipes (de_lb d)) - {x}" "set (items (l_pipes l')) = set (items (l_pipes (de_lb d))) - {x}" by blast
  have "lb_midway l' s" using lb_terminated_more[OF l'(1)] assms(3) by (simp add: lb_midway_def)
  moreover have "fq_midway f' s"
  proof (cases "f_more (de_fq d)")
    case True
    with assms(2,4) have "x \<in> set (items (f_pipes (de_fq d))) - set (active_pipes (de_fq d))" by blast
    from fq_terminated_cur[OF o(1) this f'(1)] assms(1) show ?thesis by (auto simp: dealer_ok_def fq_midway_def)
  next
    case False
    with fq_terminated_more[OF f'(1)] show ?thesis by (simp add: fq_midway_def)
  qed
  ultimately show ?thesis using f' l' assms(1) by (auto simp: dealer_pipe_terminated_def dealer_ok_def ins_ok_def outs_ok_def)
qed

lemma dealer_command_keeps:
  assumes ok: "dealer_ok (d, s)" and may: "dealer_may (Do_command x c) (d, s)"
  shows "\<exists>d' s'. dealer_command x c d s = Inr (d', s') \<and> dealer_ok (d', s')"
proof -
  let ?e = "(ends s x)\<lparr>cmds := [], evs := []\<rparr>"
  have q: "queues_ok s" "sock_good s" "plain ?e" using ok by (simp_all add: dealer_ok_def queues_ok_def sock_good_def)
  have x: "x \<in> set (items (f_pipes (de_fq d)))" and c: "command_ok c (me ?e)" using may by simp_all
  show ?thesis
  proof (cases "is_hiccup c")
    case True
    then obtain u where u: "c = Hiccup u" by (cases c) simp_all
    from hiccup_effect[OF q(3), of u] c u obtain e' where e': "handle c ?e = Inr e'" "plain (end_after c e')" "inq (end_after c e') = inq (ends s x)"
      "state (me (end_after c e')) = state (me (ends s x))" "in_active (me (end_after c e')) = in_active (me (ends s x))" "out_ok (end_after c e')"
      "evs e' = (if state (me (ends s x)) = Active then [Hiccuped] else [])" by auto
    let ?e' = "end_after c e'"
    let ?s = "s\<lparr>ends := (ends s)(x := ?e'), outbox := outbox s @ map (Pair x) (cmds ?e')\<rparr>"
    have sc: "sock_command x c s = Inr (evs e', ?s)" using e'(1) by (simp add: sock_command_def on_end_def)
    have qs: "queues_ok ?s" using q(1) e'(2,3) by (simp add: queues_ok_def sock_good_def)
    show ?thesis
    proof (cases "state (me (ends s x)) = Active")
      case True
      then have im: "de_immediate d" using may u by simp
      have nc: "f_more (de_fq d) \<Longrightarrow> x \<noteq> cur (de_fq d)" using may u by auto
      from sock_close_ok[OF qs, of x] obtain s' where s': "sock_do x (terminate False) ?s = Inr s'" "queues_ok s'"
        "\<And>j. j \<noteq> x \<Longrightarrow> ends s' j = ends ?s j" "shut (ends s' x)" by blast
      have "dealer_ok (d, s')" by (rule dealer_closed[OF ok s'(2) _ s'(4) nc]) (use s'(3) in simp)
      with sc True im s'(1) e'(7) show ?thesis by (simp add: dealer_command_def dealer_hiccuped_def)
    next
      case False
      have "dealer_ok (d, ?s)"
        by (rule dealer_env_mono[OF ok qs]) (use e'(3-6) False in \<open>auto simp: sock_avail_def avail_of_def may_read_def in_ok_def sock_room_def split: if_splits\<close>)
      with sc False e'(7) show ?thesis by (simp add: dealer_command_def)
    qed
  next
    case False
    then have nh: "\<And>u. c \<noteq> Hiccup u" by auto
    from handle_effect[OF q(3) _ c nh] obtain e' where e': "handle c ?e = Inr e'" and h: "handled c ?e (end_after c e') (evs e')" by auto
    let ?e' = "end_after c e'"
    let ?s = "s\<lparr>ends := (ends s)(x := ?e'), outbox := outbox s @ map (Pair x) (cmds ?e')\<rparr>"
    have h': "plain ?e'" "inq ?e' = inq (ends s x)" "in_ok (ends s x) \<longrightarrow> in_ok ?e'" "out_ok (ends s x) \<longrightarrow> out_ok ?e'"
      "c \<noteq> Pipe_term_ack \<and> (c = Pipe_term \<longrightarrow> delay (me (ends s x))) \<longrightarrow> may_read (ends s x) \<longrightarrow> may_read ?e'"
      "\<not> is_hwm c \<longrightarrow> room_of (ends s x) \<or> state (me (ends s x)) \<noteq> Active \<longrightarrow> room_of ?e' \<or> state (me ?e') \<noteq> Active"
      using h by (simp_all add: handled_def)
    have ev: "evs e' = [] \<or> (\<exists>n k. evs e' = [Stats_publish n k]) \<or> evs e' = [Read_activated] \<and> \<not> in_ok (ends s x) \<and> in_ok ?e' \<or>
       evs e' = [Write_activated] \<and> \<not> out_ok (ends s x) \<and> out_ok ?e' \<or> evs e' = [Pipe_terminated] \<and> c = Pipe_term_ack"
      using h by (simp add: handled_def)
    have sc: "sock_command x c s = Inr (evs e', ?s)" using e' by (simp add: sock_command_def on_end_def)
    have qs: "queues_ok ?s" using q(1) h'(1,2) by (simp add: queues_ok_def sock_good_def)
    have cur: "may_read (ends s x) \<longrightarrow> may_read ?e'" if "f_more (de_fq d)" "x = cur (de_fq d)"
    proof -
      have "x \<in> set (active_pipes (de_fq d))" using ok that active_nonempty by (auto simp: dealer_ok_def fq_midway_def)
      with may that h'(5) show ?thesis by auto
    qed
    have ok1: "dealer_ok (d, ?s)"
    proof (rule dealer_env_mono[OF ok qs])
      show "sock_avail ?s (cur (de_fq d)) \<noteq> []" if "f_more (de_fq d)" "sock_avail s (cur (de_fq d)) \<noteq> []"
        using that cur h'(2) by (cases "x = cur (de_fq d)") (auto simp: sock_avail_def avail_of_def split: if_splits)
    qed (use h' may in \<open>auto simp: sock_room_def split: if_splits\<close>)
    have na: "\<not> in_ok (ends s x) \<Longrightarrow> x \<notin> set (active_pipes (de_fq d))" "\<not> out_ok (ends s x) \<Longrightarrow> x \<notin> set (lb_pipes (de_lb d))"
      "x \<in> set (items (l_pipes (de_lb d)))" using ok x by (auto simp: dealer_ok_def ins_ok_def outs_ok_def)
    have "\<exists>d'. dealer_notify x (evs e') (d, ?s) = Inr (d', ?s) \<and> dealer_ok (d', ?s)"
      using ev
    proof (elim disjE conjE exE)
      assume "evs e' = [Read_activated]" "\<not> in_ok (ends s x)" "in_ok ?e'"
      then show ?thesis using read_activated_keeps[OF ok1, of x] na x by auto
    next
      assume "evs e' = [Write_activated]" "\<not> out_ok (ends s x)" "out_ok ?e'"
      then show ?thesis using write_activated_keeps[OF ok1, of x] na by auto
    next
      assume "evs e' = [Pipe_terminated]" "c = Pipe_term_ack"
      moreover from this have "\<not> l_more (de_lb d)" "f_more (de_fq d) \<Longrightarrow> x \<notin> set (active_pipes (de_fq d))" using may by auto
      ultimately show ?thesis using pipe_terminated_keeps[OF ok1, of x] x by auto
    qed (use ok1 in auto)
    then show ?thesis using sc by (auto simp: dealer_command_def)
  qed
qed

section \<open>Histories\<close>

lemma dealer_flush_keeps:
  assumes "dealer_ok (d, s)" "flushable ms"
  shows "dealer_ok (d, s\<lparr>ends := (ends s)(x := arrive ms (ends s x))\<rparr>)"
proof (rule dealer_env_mono[OF assms(1)])
  let ?s = "s\<lparr>ends := (ends s)(x := arrive ms (ends s x))\<rparr>"
  show "queues_ok ?s" using assms
    by (auto simp: dealer_ok_def queues_ok_def sock_good_def plain_def end_wf_def uq_def arrive_def flushable_def intro: whole_q_append)
  show "sock_avail s (cur (de_fq d)) \<noteq> [] \<Longrightarrow> sock_avail ?s (cur (de_fq d)) \<noteq> []"
    using upto_delimiter_grows by (auto simp: sock_avail_def avail_of_def arrive_def may_read_def split: if_splits)
qed (auto simp: arrive_def in_ok_def out_ok_def sock_room_def room_of_def check_hwm_def split: if_splits)

lemma dealer_step_keeps:
  assumes "dealer_ok z" "dealer_may x z"
  shows "\<exists>z'. dealer_step x z = Inr ((), z') \<and> dealer_ok z'"
proof -
  obtain d s where z: "z = (d, s)" by (cases z)
  have ok: "dealer_ok (d, s)" using assms(1) z by simp
  show ?thesis
  proof (cases x)
    case (Do_send m)
    then show ?thesis using dealer_send_keeps[OF ok, of m] z by auto
  next
    case (Do_immediate v)
    then show ?thesis using ok z by (auto simp: set_immediate_def dealer_ok_def)
  next
    case (Do_disconnect i)
    then show ?thesis using dealer_disconnect_keeps[OF ok, of i] assms(2) z by (auto simp: dealer_disconnect_def)
  next
    case (Do_attach i)
    then show ?thesis using dealer_attach_keeps[OF ok, of i] assms(2) z by auto
  next
    case (Do_command i c)
    then show ?thesis using dealer_command_keeps[OF ok, of i c] assms(2) z by auto
  next
    case (Peer_flush i ms)
    then show ?thesis using dealer_flush_keeps[OF ok, of ms i] assms(2) z by auto
  qed (use dealer_recv_keeps[OF ok] dealer_has_in_keeps[OF ok] dealer_has_out_keeps[OF ok] z in auto)
qed

interpretation dl: simulation dealer_step "\<lambda>_ _. ((), ())" dealer_may "\<lambda>z _. dealer_ok z"
  using dealer_step_keeps by unfold_locales auto

lemma dealer_ok_new: "queues_ok s \<Longrightarrow> dealer_ok (dealer_new, s)"
  using fq_ok_new lb_ok_new
  by (simp add: dealer_ok_def dealer_new_def ins_ok_def outs_ok_def fq_midway_def lb_midway_def active_pipes_def lb_pipes_def
    fq_new_def lb_new_def array_new_def)

section \<open>Properties\<close>

text \<open>
  C29. A DEALER socket does not fail: whatever its user sends, receives, polls and disconnects, in whatever order pipes are attached, hiccup
  (with \<^verbatim>\<open>ZMQ_IMMEDIATE\<close>), terminate, and their commands and messages arrive, no assertion of the socket, the balancer, the fair queue or a pipe fails and the invariant of the socket
  holds at every moment, in every history that \<open>dealer_may\<close> allows.  That leaves out what the code does not survive: while a message is half sent, the deletion of a pipe and
  a new high water mark; while a message is half received, closing its pipe and deleting a pipe that still counts as readable; and a hiccup after the
  option was switched off (\<open>dealer_hiccup_aborts\<close>).
\<close>
theorem dealer_never_faults:
  assumes "queues_ok s" "allowed dealer_step dealer_may xs (dealer_new, s)"
  shows "\<exists>rs d' s'. run_ops dealer_step xs (dealer_new, s) = Inr (rs, d', s') \<and> dealer_ok (d', s')"
  using dl.run_sim[OF dealer_ok_new[OF assms(1)] assms(2)] by fastforce

definition sample_history :: "dealer_op list" where
  "sample_history = [Do_attach 7, Do_attach 8, Do_send \<lparr>w_flags = 1, w_data = [1]\<rparr>, Do_recv, Do_recv,
     Peer_flush 8 [Msg \<lparr>w_flags = 1, w_data = [4]\<rparr>, Msg \<lparr>w_flags = 0, w_data = [5]\<rparr>, Delimiter], Do_command 8 Pipe_term,
     Do_send \<lparr>w_flags = 0, w_data = [2]\<rparr>, Do_recv, Do_recv, Do_has_in, Do_recv, Do_recv, Do_has_out, Do_command 8 Pipe_term_ack,
     Do_command 7 Activate_read, Do_send \<lparr>w_flags = 0, w_data = [3]\<rparr>, Do_immediate 1, Do_attach 9, Do_command 9 (Hiccup 5), Do_recv,
     Do_command 9 Pipe_term_ack, Do_disconnect 7, Do_recv, Do_send \<lparr>w_flags = 0, w_data = [4]\<rparr>, Do_command 7 Pipe_term, Do_command 7 Pipe_term_ack]"

lemma sample_history_allowed: "allowed dealer_step dealer_may sample_history (dealer_new, sample_env)"
  by code_simp

theorem dealer_never_faults_witness:
  "\<exists>rs d' s'. run_ops dealer_step sample_history (dealer_new, sample_env) = Inr (rs, d', s') \<and> dealer_ok (d', s')"
  by (rule dealer_never_faults[OF sample_queues sample_history_allowed])

text \<open>
  Disconnecting in the middle of a message aborts the process: when a DEALER has received the first parts of a message and its user
  disconnects the pipe it came from, the next receive call finds the pipe closed and the assertion of the fair
  queue that a message is never interrupted fails.
\<close>
theorem dealer_disconnect_aborts:
  assumes "dealer_ok (d, s)" "f_more (de_fq d)"
  shows "bindE (sock_do (cur (de_fq d)) (terminate False) s) (dealer_recv d) = Inl Assertion"
proof -
  let ?f = "de_fq d"
  let ?e = "(ends s (cur ?f))\<lparr>cmds := []\<rparr>"
  have o: "fq_ok ?f" "f_active ?f > 0" "sock_good s" using assms by (simp_all add: dealer_ok_def fq_midway_def queues_ok_def)
  have wf: "end_wf ?e" "cmds ?e = []" using o(3) by (auto simp: sock_good_def plain_def end_wf_def)
  from terminate_effect[OF wf] obtain e' where e': "terminate False ?e = Inr e'" by blast
  then have r: "\<not> may_read e'" using terminate_closes[OF wf(1)] closed_end(1) by blast
  let ?s = "s\<lparr>ends := (ends s)(cur ?f := e'), outbox := outbox s @ map (Pair (cur ?f)) (cmds e')\<rparr>"
  have "sock_read (cur ?f) ?s = Inr (None, ?s\<lparr>ends := (ends ?s)(cur ?f := e'\<lparr>cmds := []\<rparr>)\<rparr>)"
    using r by (simp add: sock_read_def on_end_def pipe_read_def)
  moreover have "a_at (f_current ?f) (f_pipes ?f) = Inr (cur ?f)" using o(1,2) by (auto simp: a_at_def cur_def fq_ok_def)
  ultimately have "recvpipe sock_read ?f ?s = Inl Assertion" using o(2) assms(2) by (simp add: recvpipe.simps[of sock_read ?f])
  with e' show ?thesis by (simp add: sock_do_def on_end_def dealer_recv_def)
qed

definition midway_dealer :: dealer where
  "midway_dealer = \<lparr>de_fq = \<lparr>f_pipes = \<lparr>items = [7], pos = (\<lambda>i. int i - 7)\<rparr>, f_active = 1, f_current = 0, f_more = True\<rparr>,
     de_lb = \<lparr>l_pipes = \<lparr>items = [7], pos = (\<lambda>i. int i - 7)\<rparr>, l_active = 1, l_current = 0, l_more = False, l_dropping = False\<rparr>,
     probe_router = False, de_immediate = False\<rparr>"

theorem dealer_disconnect_aborts_witness:
  "dealer_ok (midway_dealer, sample_env) \<and> bindE (sock_do 7 (terminate False) sample_env) (dealer_recv midway_dealer) = Inl Assertion"
proof -
  have "dealer_ok (midway_dealer, sample_env)" using sample_queues
    by (simp add: dealer_ok_def midway_dealer_def fq_ok_def lb_ok_def arr_ok_def ins_ok_def outs_ok_def fq_midway_def lb_midway_def
      active_pipes_def lb_pipes_def cur_def sock_avail_def avail_of_def may_read_def in_ok_def out_ok_def sample_env_def sample_end_def pipe_new_def upipe_new_def)
  moreover have "f_more (de_fq midway_dealer)" "cur (de_fq midway_dealer) = 7" by (simp_all add: midway_dealer_def cur_def)
  ultimately show ?thesis using dealer_disconnect_aborts[of midway_dealer sample_env] by simp
qed

text \<open>
  Lowering the high water mark while a message is half written: the pipe stays among the active ones although it
  no longer takes messages, and the report that wakes it up again activates it a second time, which swaps past
  the end of the array.
\<close>

lemma dealer_resize_faults:
  "(case run_ops dealer_step [Do_attach 7, Do_send \<lparr>w_flags = 0, w_data = [1]\<rparr>, Do_send \<lparr>w_flags = 1, w_data = [1]\<rparr>,
      Do_command 7 (Pipe_hwm 1 1), Do_send \<lparr>w_flags = 1, w_data = [2]\<rparr>, Do_command 7 (Activate_write 1)] (dealer_new, sample_env) of
    Inl e \<Rightarrow> e = Bad_index | Inr _ \<Rightarrow> False)"
  by code_simp

text \<open>
  The hiccup of an active pipe: without the option it is the failing assertion of the base class.  A session keeps the options that the socket had when it
  connected, so switching \<^verbatim>\<open>ZMQ_IMMEDIATE\<close> off after a connection was made lets the next reconnection abort the process.
\<close>

lemma dealer_hiccup_aborts:
  assumes "out_pipe (me (ends s x)) \<noteq> None" "state (me (ends s x)) = Active" "\<not> de_immediate d"
  shows "dealer_command x (Hiccup u) d s = Inl Assertion"
  using assms by (auto simp: dealer_command_def sock_command_def on_end_def process_hiccup_def Let_def end_defs dealer_hiccuped_def)

text \<open>
  A pipe that was disconnected and is deleted while another pipe is being read: the fair queue swaps the last active pipe into its place and,
  when that is the one being read, goes on with the first pipe of the array, here an empty one, in the middle of the message.
\<close>

lemma dealer_deletion_misreads:
  "(case run_ops dealer_step [Do_attach 9, Do_attach 8, Do_attach 10, Peer_flush 9 [Msg \<lparr>w_flags = 0, w_data = [1]\<rparr>],
      Peer_flush 10 [Msg \<lparr>w_flags = 1, w_data = [2]\<rparr>, Msg \<lparr>w_flags = 0, w_data = [3]\<rparr>], Do_recv, Do_recv, Do_recv,
      Do_disconnect 8, Do_command 8 Pipe_term_ack] (dealer_new, sample_env) of
    Inl e \<Rightarrow> False
  | Inr (_, d, s) \<Rightarrow> f_more (de_fq d) \<and> cur (de_fq d) = 9 \<and> (case dealer_recv d s of Inl e \<Rightarrow> e = Assertion | Inr _ \<Rightarrow> False))"
  by code_simp

end
