(* ===== verification/Router.thy ===== *)
theory Router
  imports Socket_Pipes
begin

text \<open>
  The ROUTER socket, \<^verbatim>\<open>router.cpp\<close>, with the table of outbound pipes of \<^verbatim>\<open>routing_socket_base_t\<close> in \<^verbatim>\<open>socket_base.cpp\<close>:
  every peer has a routing id, messages received are prefixed with the id of the peer they come from, and the first part of a
  message to send names the peer it goes to.
\<close>

type_synonym rid = "byte list"

record out_pipe_t =
  oe_pipe :: pid
  oe_active :: bool

record router =
  r_fq :: fq
  prefetched :: bool
  routing_id_sent :: bool
  prefetched_id :: wmsg
  prefetched_msg :: wmsg
  current_in :: "pid option"
  terminate_current_in :: bool
  more_in :: bool
  anonymous_pipes :: "pid list"
  current_out :: "pid option"
  more_out :: bool
  next_integral_routing_id :: u32
  mandatory :: bool
  raw_socket :: bool
  r_probe_router :: bool
  handover :: bool
  opt_raw_socket :: bool
  opt_recv_routing_id :: bool
  out_pipes :: "(rid \<times> out_pipe_t) list"
  connect_routing_id :: rid

text \<open>The first generated id is random, an argument here.\<close>

definition router_new :: "u32 \<Rightarrow> router" where
  "router_new rnd = \<lparr>r_fq = fq_new, prefetched = False, routing_id_sent = False, prefetched_id = msg_init, prefetched_msg = msg_init,
     current_in = None, terminate_current_in = False, more_in = False, anonymous_pipes = [], current_out = None, more_out = False,
     next_integral_routing_id = rnd, mandatory = False, raw_socket = False, r_probe_router = False, handover = False,
     opt_raw_socket = False, opt_recv_routing_id = True, out_pipes = [], connect_routing_id = []\<rparr>"

section \<open>The table of outbound pipes\<close>

definition has_out_pipe :: "rid \<Rightarrow> router \<Rightarrow> bool" where
  "has_out_pipe k r \<longleftrightarrow> k \<in> fst ` set (out_pipes r)"

definition lookup_out_pipe :: "rid \<Rightarrow> router \<Rightarrow> out_pipe_t option" where
  "lookup_out_pipe k r = map_of (out_pipes r) k"

definition add_out_pipe :: "rid \<Rightarrow> pid \<Rightarrow> router \<Rightarrow> router result" where
  "add_out_pipe k x r = (if has_out_pipe k r then Inl Assertion
     else Inr (r\<lparr>out_pipes := (k, \<lparr>oe_pipe = x, oe_active = True\<rparr>) # out_pipes r\<rparr>))"

definition erase_key :: "rid \<Rightarrow> router \<Rightarrow> router" where
  "erase_key k r = r\<lparr>out_pipes := filter (\<lambda>(k', e). k' \<noteq> k) (out_pipes r)\<rparr>"

definition erase_out_pipe :: "pid \<Rightarrow> sockenv \<Rightarrow> router \<Rightarrow> router result" where
  "erase_out_pipe x s r = (let k = router_routing_id (me (ends s x)) in
     if has_out_pipe k r then Inr (erase_key k r) else Inl Assertion)"

definition try_erase_out_pipe :: "rid \<Rightarrow> router \<Rightarrow> out_pipe_t option \<times> router" where
  "try_erase_out_pipe k r = (case lookup_out_pipe k r of None \<Rightarrow> (None, r) | Some e \<Rightarrow> (Some e, erase_key k r))"

definition any_of_out_pipes :: "(pid \<Rightarrow> bool) \<Rightarrow> router \<Rightarrow> bool" where
  "any_of_out_pipes P r = list_ex (\<lambda>(k, e). P (oe_pipe e)) (out_pipes r)"

definition set_active :: "rid \<Rightarrow> bool \<Rightarrow> router \<Rightarrow> router" where
  "set_active k b r = r\<lparr>out_pipes := map (\<lambda>(k', e). (k', if k' = k then e\<lparr>oe_active := b\<rparr> else e)) (out_pipes r)\<rparr>"

definition router_write_activated :: "pid \<Rightarrow> router \<Rightarrow> router result" where
  "router_write_activated x r = (case filter (\<lambda>(k, e). oe_pipe e = x) (out_pipes r) of
      [] \<Rightarrow> Inl Assertion
    | (k, e) # _ \<Rightarrow> if oe_active e then Inl Assertion else Inr (set_active k True r))"

section \<open>Identification of peers\<close>

text \<open>Generated ids are five bytes, a zero and a counter that wraps around.\<close>

definition integral_id :: "u32 \<Rightarrow> rid" where
  "integral_id n = 0 # put_uint32 n"

definition next_id :: "router \<Rightarrow> rid \<times> router" where
  "next_id r = (integral_id (next_integral_routing_id r), r\<lparr>next_integral_routing_id := next_integral_routing_id r + 1\<rparr>)"

definition sock_set_id :: "pid \<Rightarrow> rid \<Rightarrow> sockenv \<Rightarrow> sockenv result" where
  "sock_set_id x k = sock_do x (\<lambda>e. Inr (set_router_socket_routing_id k e))"

text \<open>The pipe that has the id so far gets a generated one and is terminated, after the message that is being read from it.\<close>

definition displace :: "pid \<Rightarrow> router \<Rightarrow> sockenv \<Rightarrow> (router \<times> sockenv) result" where
  "displace old r s = (let (k, r1) = next_id r in
     bindE (erase_out_pipe old s r1) (\<lambda>r2. bindE (sock_set_id old k s) (\<lambda>s1. bindE (add_out_pipe k old r2) (\<lambda>r3.
       if current_in r3 = Some old then Inr (r3\<lparr>terminate_current_in := True\<rparr>, s1)
       else bindE (sock_do old (terminate True) s1) (\<lambda>s2. Inr (r3, s2))))))"

definition choose_id :: "pid \<Rightarrow> bool \<Rightarrow> router \<Rightarrow> sockenv \<Rightarrow> (rid option \<times> router \<times> sockenv) result" where
  "choose_id x locally_initiated r s =
     (if locally_initiated \<and> connect_routing_id r \<noteq> []
      then let k = connect_routing_id r in
        if has_out_pipe k r then Inl Assertion else Inr (Some k, r\<lparr>connect_routing_id := []\<rparr>, s)
      else if opt_raw_socket r then (let (k, r1) = next_id r in Inr (Some k, r1, s))
      else bindE (sock_read x s) (\<lambda>(m, s1). case m of
          None \<Rightarrow> Inr (None, r, s1)
        | Some m \<Rightarrow>
            if w_data m = [] then (let (k, r1) = next_id r in Inr (Some k, r1, s1))
            else (case lookup_out_pipe (w_data m) r of
                None \<Rightarrow> Inr (Some (w_data m), r, s1)
              | Some e \<Rightarrow> if \<not> handover r then Inr (None, r, s1)
                  else bindE (displace (oe_pipe e) r s1) (\<lambda>(r1, s2). Inr (Some (w_data m), r1, s2)))))"

definition identify_peer :: "pid \<Rightarrow> bool \<Rightarrow> router \<Rightarrow> sockenv \<Rightarrow> (bool \<times> router \<times> sockenv) result" where
  "identify_peer x locally_initiated r s = bindE (choose_id x locally_initiated r s) (\<lambda>(k, r1, s1). case k of
      None \<Rightarrow> Inr (False, r1, s1)
    | Some k \<Rightarrow> bindE (sock_set_id x k s1) (\<lambda>s2. bindE (add_out_pipe k x r1) (\<lambda>r2. Inr (True, r2, s2))))"

definition router_attach_pipe :: "pid \<Rightarrow> bool \<Rightarrow> router \<Rightarrow> sockenv \<Rightarrow> (router \<times> sockenv) result" where
  "router_attach_pipe x locally_initiated r s = bindE (send_probe (r_probe_router r) x s) (\<lambda>s1.
     bindE (identify_peer x locally_initiated r s1) (\<lambda>(ok, r1, s2).
       if ok then bindE (fq_attach x (r_fq r1)) (\<lambda>f. Inr (r1\<lparr>r_fq := f\<rparr>, s2))
       else Inr (r1\<lparr>anonymous_pipes := x # anonymous_pipes r1\<rparr>, s2)))"

definition router_read_activated :: "pid \<Rightarrow> router \<Rightarrow> sockenv \<Rightarrow> (router \<times> sockenv) result" where
  "router_read_activated x r s =
     (if x \<notin> set (anonymous_pipes r) then bindE (fq_activated x (r_fq r)) (\<lambda>f. Inr (r\<lparr>r_fq := f\<rparr>, s))
      else bindE (identify_peer x False r s) (\<lambda>(ok, r1, s1).
        if ok then bindE (fq_attach x (r_fq r1)) (\<lambda>f. Inr (r1\<lparr>anonymous_pipes := removeAll x (anonymous_pipes r1), r_fq := f\<rparr>, s1))
        else Inr (r1, s1)))"

definition router_pipe_terminated :: "pid \<Rightarrow> router \<Rightarrow> sockenv \<Rightarrow> (router \<times> sockenv) result" where
  "router_pipe_terminated x r s =
     (if x \<in> set (anonymous_pipes r) then Inr (r\<lparr>anonymous_pipes := removeAll x (anonymous_pipes r)\<rparr>, s)
      else bindE (erase_out_pipe x s r) (\<lambda>r1. bindE (fq_pipe_terminated x (r_fq r1)) (\<lambda>f. bindE (sock_rollback x s) (\<lambda>s1.
        Inr (r1\<lparr>r_fq := f, current_out := (if current_out r1 = Some x then None else current_out r1)\<rparr>, s1)))))"

section \<open>Options\<close>

definition ZMQ_ROUTER_MANDATORY :: int where "ZMQ_ROUTER_MANDATORY = 33"
definition ZMQ_ROUTER_RAW :: int where "ZMQ_ROUTER_RAW = 41"
definition ZMQ_ROUTER_HANDOVER :: int where "ZMQ_ROUTER_HANDOVER = 56"
definition ZMQ_CONNECT_ROUTING_ID :: int where "ZMQ_CONNECT_ROUTING_ID = 61"

text \<open>The value of an option as bytes, and as an integer when it has the size of one.\<close>

definition routing_setsockopt :: "int \<Rightarrow> byte list \<Rightarrow> router \<Rightarrow> bool \<times> router" where
  "routing_setsockopt opt b r = (if opt = ZMQ_CONNECT_ROUTING_ID \<and> b \<noteq> [] then (True, r\<lparr>connect_routing_id := b\<rparr>) else (False, r))"

definition router_setsockopt :: "int \<Rightarrow> byte list \<Rightarrow> int option \<Rightarrow> router \<Rightarrow> bool \<times> router" where
  "router_setsockopt opt b v r =
     (let on = (v \<noteq> Some 0) in
      if opt = ZMQ_ROUTER_RAW then (if int_option v then (True, if on then r\<lparr>raw_socket := True, opt_recv_routing_id := False, opt_raw_socket := True\<rparr>
                                                       else r\<lparr>raw_socket := False\<rparr>) else (False, r))
      else if opt = ZMQ_ROUTER_MANDATORY then (if int_option v then (True, r\<lparr>mandatory := on\<rparr>) else (False, r))
      else if opt = ZMQ_PROBE_ROUTER then (if int_option v then (True, r\<lparr>r_probe_router := on\<rparr>) else (False, r))
      else if opt = ZMQ_ROUTER_HANDOVER then (if int_option v then (True, r\<lparr>handover := on\<rparr>) else (False, r))
      else routing_setsockopt opt b r)"

section \<open>Sending\<close>

datatype router_rc = Routed | Would_block | Unreachable

definition reset_more :: "wmsg \<Rightarrow> wmsg" where
  "reset_more m = m\<lparr>w_flags := w_flags m AND NOT msg_more\<rparr>"

definition router_send_id :: "wmsg \<Rightarrow> router \<Rightarrow> sockenv \<Rightarrow> (router_rc \<times> router \<times> sockenv) result" where
  "router_send_id m r s =
     (if current_out r \<noteq> None then Inl Assertion
      else if \<not> has_more (Msg m) then Inr (Routed, r, s)
      else case lookup_out_pipe (w_data m) r of
          None \<Rightarrow> if mandatory r then Inr (Unreachable, r, s) else Inr (Routed, r\<lparr>more_out := True\<rparr>, s)
        | Some e \<Rightarrow> bindE (sock_check_write (oe_pipe e) s) (\<lambda>(ok, s1).
            if ok then Inr (Routed, r\<lparr>more_out := True, current_out := Some (oe_pipe e)\<rparr>, s1)
            else let r1 = set_active (w_data m) False r; full = \<not> check_hwm (ends s1 (oe_pipe e)) in
              if mandatory r then Inr (if full then Would_block else Unreachable, r1, s1)
              else Inr (Routed, r1\<lparr>more_out := True\<rparr>, s1)))"

definition router_send_part :: "wmsg \<Rightarrow> router \<Rightarrow> sockenv \<Rightarrow> (router_rc \<times> router \<times> sockenv) result" where
  "router_send_part m0 r0 s =
     (let m = (if opt_raw_socket r0 then reset_more m0 else m0); r = r0\<lparr>more_out := has_more (Msg m)\<rparr> in
      case current_out r of
        None \<Rightarrow> Inr (Routed, r, s)
      | Some x \<Rightarrow>
          if raw_socket r \<and> w_data m = []
          then bindE (sock_do x (terminate False) s) (\<lambda>s1. Inr (Routed, r\<lparr>current_out := None\<rparr>, s1))
          else bindE (sock_write x m s) (\<lambda>(ok, s1).
            if \<not> ok then bindE (sock_rollback x s1) (\<lambda>s2. Inr (Routed, r\<lparr>current_out := None\<rparr>, s2))
            else if more_out r then Inr (Routed, r, s1)
            else bindE (sock_flush x s1) (\<lambda>s2. Inr (Routed, r\<lparr>current_out := None\<rparr>, s2))))"

definition router_send :: "wmsg \<Rightarrow> router \<Rightarrow> sockenv \<Rightarrow> (router_rc \<times> router \<times> sockenv) result" where
  "router_send m r s = (if more_out r then router_send_part m r s else router_send_id m r s)"

definition router_rollback :: "router \<Rightarrow> sockenv \<Rightarrow> (router \<times> sockenv) result" where
  "router_rollback r s = (case current_out r of None \<Rightarrow> Inr (r, s)
     | Some x \<Rightarrow> bindE (sock_rollback x s) (\<lambda>s1. Inr (r\<lparr>current_out := None, more_out := False\<rparr>, s1)))"

definition router_has_out :: "router \<Rightarrow> sockenv \<Rightarrow> bool" where
  "router_has_out r s = (if \<not> mandatory r then True else any_of_out_pipes (\<lambda>x. check_hwm (ends s x)) r)"

text \<open>\<open>None\<close> is \<^verbatim>\<open>EHOSTUNREACH\<close>.\<close>

definition get_peer_state :: "rid \<Rightarrow> router \<Rightarrow> sockenv \<Rightarrow> int option" where
  "get_peer_state k r s = map_option (\<lambda>e. if check_hwm (ends s (oe_pipe e)) then 2 else 0) (lookup_out_pipe k r)"

section \<open>Receiving\<close>

text \<open>Routing ids that a peer sends again after a reconnection are skipped.\<close>

function fetch :: "fq \<Rightarrow> sockenv \<Rightarrow> ((wmsg \<times> pid) option \<times> fq \<times> sockenv) result" where
  "fetch f s = (case recvpipe sock_read f s of
      Inl e \<Rightarrow> Inl e
    | Inr (None, f1, s1) \<Rightarrow> Inr (None, f1, s1)
    | Inr (Some (m, i), f1, s1) \<Rightarrow> if is_routing_id (Msg m) then fetch f1 s1 else Inr (Some (m, i), f1, s1))"
  by pat_completeness auto
termination
  by (relation "measure (\<lambda>(f, s). backlog f s)") (auto dest: recvpipe_backlog)

declare fetch.simps [simp del]

definition finish_part :: "bool \<Rightarrow> router \<Rightarrow> sockenv \<Rightarrow> (router \<times> sockenv) result" where
  "finish_part mr r0 s = (let r = r0\<lparr>more_in := mr\<rparr> in
     if mr then Inr (r, s)
     else if terminate_current_in r
     then (case current_in r of None \<Rightarrow> Inl Bad_pointer
       | Some x \<Rightarrow> bindE (sock_do x (terminate True) s) (\<lambda>s1. Inr (r\<lparr>terminate_current_in := False, current_in := None\<rparr>, s1)))
     else Inr (r\<lparr>current_in := None\<rparr>, s))"

definition id_msg :: "pid \<Rightarrow> sockenv \<Rightarrow> wmsg" where
  "id_msg x s = \<lparr>w_flags = msg_more, w_data = router_routing_id (me (ends s x))\<rparr>"

definition router_recv :: "router \<Rightarrow> sockenv \<Rightarrow> (wmsg option \<times> router \<times> sockenv) result" where
  "router_recv r s =
     (if prefetched r then
        if \<not> routing_id_sent r
        then bindE (finish_part (has_more (Msg (prefetched_id r))) (r\<lparr>prefetched_id := msg_init, routing_id_sent := True\<rparr>) s)
          (\<lambda>(r1, s1). Inr (Some (prefetched_id r), r1, s1))
        else bindE (finish_part (has_more (Msg (prefetched_msg r))) (r\<lparr>prefetched_msg := msg_init, prefetched := False\<rparr>) s)
          (\<lambda>(r1, s1). Inr (Some (prefetched_msg r), r1, s1))
      else bindE (fetch (r_fq r) s) (\<lambda>(p, f, s1). let r1 = r\<lparr>r_fq := f\<rparr> in case p of
          None \<Rightarrow> Inr (None, r1, s1)
        | Some (m, x) \<Rightarrow>
            if more_in r1 then bindE (finish_part (has_more (Msg m)) r1 s1) (\<lambda>(r2, s2). Inr (Some m, r2, s2))
            else Inr (Some (id_msg x s1), r1\<lparr>prefetched_msg := m, prefetched := True, current_in := Some x, routing_id_sent := True\<rparr>, s1)))"

definition router_has_in :: "router \<Rightarrow> sockenv \<Rightarrow> (bool \<times> router \<times> sockenv) result" where
  "router_has_in r s =
     (if more_in r \<or> prefetched r then Inr (True, r, s)
      else bindE (fetch (r_fq r) s) (\<lambda>(p, f, s1). let r1 = r\<lparr>r_fq := f\<rparr> in case p of
          None \<Rightarrow> Inr (False, r1\<lparr>prefetched_msg := msg_init\<rparr>, s1)
        | Some (m, x) \<Rightarrow> Inr (True, r1\<lparr>prefetched_msg := m, prefetched_id := id_msg x s1, prefetched := True,
            routing_id_sent := False, current_in := Some x\<rparr>, s1)))"

section \<open>Messages sent\<close>

definition router_send_step :: "wmsg \<Rightarrow> router \<times> sockenv \<Rightarrow> (router_rc \<times> router \<times> sockenv) result" where
  "router_send_step m z = (case z of (r, s) \<Rightarrow> router_send m r s)"

definition flushed :: "endp \<Rightarrow> bool" where
  "flushed e \<longleftrightarrow> ready (outq e) = all_items (outq e)"

lemma write_flush:
  assumes "sock_good s" "sock_room s x" "\<not> has_more (Msg m)"
  shows "\<exists>s1 s2. sock_write x m s = Inr (True, s1) \<and> sock_flush x s1 = Inr s2 \<and> sock_good s2 \<and>
    sock_sent s2 = (sock_sent s)(x := sock_sent s x @ [Msg m]) \<and> flushed (ends s2 x)"
proof -
  from sk.wr_room[OF assms(1,2), of m] obtain s1 where s1: "sock_write x m s = Inr (True, s1)" "sock_good s1"
    "sock_sent s1 = (sock_sent s)(x := sock_sent s x @ [Msg m])" by blast
  from sk.fl[OF s1(2), of x] obtain s2 where s2: "sock_flush x s1 = Inr s2" "sock_good s2" "sock_sent s2 = sock_sent s1" by blast
  from s1(1) obtain e' where e': "pipe_write m ((ends s x)\<lparr>cmds := []\<rparr>) = Inr (True, e')" "ends s1 = (ends s)(x := e')"
    unfolding sock_write_def by (rule on_end_cases)
  from e'(1) assms(3) have "partial (outq e') = []" "state (me e') = Active" "out_pipe (me e') \<noteq> None"
    by (auto simp: pipe_write_def check_write_def Let_def end_defs split: if_splits option.splits)
  moreover have "ends s2 x = flush (e'\<lparr>cmds := []\<rparr>)" using s2(1) e'(2) by (auto simp: sock_flush_def on_end_def)
  ultimately have "flushed (ends s2 x)" by (auto simp: flushed_def flush_fields all_items_def)
  with s1 s2 show ?thesis by auto
qed

lemma send_to_pipe:
  assumes "one_message ps" "more_out r" "current_out r = Some x" "\<not> opt_raw_socket r" "\<not> raw_socket r" "sock_good s" "sock_room s x"
  shows "\<exists>s'. run_ops router_send_step ps (r, s) = Inr (map (\<lambda>_. Routed) ps, r\<lparr>more_out := False, current_out := None\<rparr>, s') \<and>
    sock_good s' \<and> sock_sent s' = (sock_sent s)(x := sock_sent s x @ map Msg ps) \<and> flushed (ends s' x)"
  using assms(1,6,7)
proof (induction ps arbitrary: s rule: one_message.induct)
  case (2 m)
  then have nm: "\<not> has_more (Msg m)" by simp
  from write_flush[OF 2(2,3) nm] obtain s1 s2 where "sock_write x m s = Inr (True, s1)" "sock_flush x s1 = Inr s2" "sock_good s2"
    "sock_sent s2 = (sock_sent s)(x := sock_sent s x @ [Msg m])" "flushed (ends s2 x)" by blast
  with assms(2-5) nm show ?case by (simp add: router_send_step_def router_send_def router_send_part_def Let_def fun_eq_iff)
next
  case (3 m m' ms)
  then have mo: "has_more (Msg m)" "one_message (m' # ms)" by simp_all
  from sk.wr_room[OF 3(3,4), of m] mo obtain s1 where s1: "sock_write x m s = Inr (True, s1)" "sock_good s1"
    "sock_sent s1 = (sock_sent s)(x := sock_sent s x @ [Msg m])" "sock_room s1 x" using 3(4) by auto
  from 3(1)[OF mo(2) s1(2,4)] obtain s' where
    "run_ops router_send_step (m' # ms) (r, s1) = Inr (map (\<lambda>_. Routed) (m' # ms), r\<lparr>more_out := False, current_out := None\<rparr>, s')"
    "sock_good s'" "sock_sent s' = (sock_sent s1)(x := sock_sent s1 x @ map Msg (m' # ms))" "flushed (ends s' x)" by blast
  moreover have "router_send_step m (r, s) = Inr (Routed, r, s1)"
    using assms(2-5) mo s1 by (simp add: router_send_step_def router_send_def router_send_part_def)
  ultimately show ?case using s1(3) by (simp add: fun_eq_iff)
qed simp

lemma send_to_nobody:
  assumes "one_message ps" "more_out r" "current_out r = None" "\<not> opt_raw_socket r"
  shows "run_ops router_send_step ps (r, s) = Inr (map (\<lambda>_. Routed) ps, r\<lparr>more_out := False\<rparr>, s)"
  using assms(1)
proof (induction ps rule: one_message.induct)
  case (2 m)
  with assms(2-) show ?case by (simp add: router_send_step_def router_send_def router_send_part_def)
next
  case (3 m m' ms)
  have "router_send_step m (r, s) = Inr (Routed, r, s)"
    using assms(2-) 3 by (simp add: router_send_step_def router_send_def router_send_part_def)
  with 3 show ?case by simp
qed simp

text \<open>
  What becomes of a message for the peer \<open>k\<close>: it goes to the pipe of the table when that has room; otherwise it is dropped, or
  refused at once by a socket with the option \<^verbatim>\<open>ZMQ_ROUTER_MANDATORY\<close>.
\<close>

definition routed :: "wmsg \<Rightarrow> wmsg list \<Rightarrow> router \<Rightarrow> sockenv \<Rightarrow> bool" where
  "routed m ps r s \<longleftrightarrow> (case lookup_out_pipe (w_data m) r of
      None \<Rightarrow> if mandatory r then router_send m r s = Inr (Unreachable, r, s)
        else run_ops router_send_step (m # ps) (r, s) = Inr (map (\<lambda>_. Routed) (m # ps), r, s)
    | Some e \<Rightarrow> (\<exists>s'. sock_good s' \<and> (if sock_room s (oe_pipe e)
        then run_ops router_send_step (m # ps) (r, s) = Inr (map (\<lambda>_. Routed) (m # ps), r, s') \<and>
          sock_sent s' = (sock_sent s)(oe_pipe e := sock_sent s (oe_pipe e) @ map Msg ps) \<and> flushed (ends s' (oe_pipe e))
        else sock_sent s' = sock_sent s \<and> (if mandatory r
          then router_send m r s = Inr (if check_hwm (ends s (oe_pipe e)) then Unreachable else Would_block, set_active (w_data m) False r, s')
          else run_ops router_send_step (m # ps) (r, s) = Inr (map (\<lambda>_. Routed) (m # ps), set_active (w_data m) False r, s')))))"

lemma check_write_known:
  assumes "sock_good s"
  shows "\<exists>s'. sock_check_write x s = Inr (sock_room s x, s') \<and> sock_good s' \<and> sock_sent s' = sock_sent s \<and> sock_room s' = sock_room s \<and>
    check_hwm (ends s' x) = check_hwm (ends s x)"
proof -
  from sk.cw[OF assms, of x] obtain s' where s': "sock_check_write x s = Inr (sock_room s x, s')" "sock_good s'" "sock_sent s' = sock_sent s"
    "sock_room s' = sock_room s" by blast
  then have "check_hwm (ends s' x) = check_hwm (ends s x)"
    by (auto simp: sock_check_write_def on_end_def check_write_def check_hwm_def end_defs split: if_splits)
  with s' show ?thesis by blast
qed

lemma set_active_upd [simp]: "set_active k b (r\<lparr>more_out := x\<rparr>) = (set_active k b r)\<lparr>more_out := x\<rparr>"
  "current_out (set_active k b r) = current_out r" "more_out (set_active k b r) = more_out r"
  "opt_raw_socket (set_active k b r) = opt_raw_socket r" "mandatory (set_active k b r) = mandatory r"
  by (simp_all add: set_active_def)

lemma router_send_routed:
  assumes "sock_good s" "\<not> more_out r" "current_out r = None" "\<not> raw_socket r" "\<not> opt_raw_socket r" "has_more (Msg m)" "one_message ps"
  shows "routed m ps r s"
proof (cases "lookup_out_pipe (w_data m) r")
  case None
  have e: "r\<lparr>more_out := False\<rparr> = r" using assms(2) by simp
  have "run_ops router_send_step ps (r\<lparr>more_out := True\<rparr>, s) = Inr (map (\<lambda>_. Routed) ps, r, s)"
    using send_to_nobody[OF assms(7), of "r\<lparr>more_out := True\<rparr>" s] assms(3,5) e by simp
  with None assms(2,3,6) show ?thesis
    by (simp add: routed_def router_send_step_def router_send_def router_send_id_def)
next
  case (Some e)
  let ?x = "oe_pipe e"
  from check_write_known[OF assms(1), of ?x] obtain s1 where c: "sock_check_write ?x s = Inr (sock_room s ?x, s1)" "sock_good s1"
    "sock_sent s1 = sock_sent s" "sock_room s1 = sock_room s" "check_hwm (ends s1 ?x) = check_hwm (ends s ?x)" by blast
  show ?thesis
  proof (cases "sock_room s ?x")
    case True
    let ?r = "r\<lparr>more_out := True, current_out := Some ?x\<rparr>"
    have e: "?r\<lparr>more_out := False, current_out := None\<rparr> = r" using assms(2,3) by simp
    from send_to_pipe[OF assms(7), of ?r ?x s1] assms(4,5) c True obtain s' where
      "run_ops router_send_step ps (?r, s1) = Inr (map (\<lambda>_. Routed) ps, r, s')" "sock_good s'"
      "sock_sent s' = (sock_sent s)(?x := sock_sent s ?x @ map Msg ps)" "flushed (ends s' ?x)" using e by auto
    moreover have "router_send_step m (r, s) = Inr (Routed, ?r, s1)"
      using Some c(1) True assms(2,3,6) by (simp add: router_send_step_def router_send_def router_send_id_def)
    ultimately show ?thesis using Some True by (auto simp: routed_def)
  next
    case False
    let ?r = "set_active (w_data m) False r"
    have e: "?r\<lparr>more_out := False\<rparr> = ?r" using assms(2) by (simp add: set_active_def)
    have "run_ops router_send_step ps (?r\<lparr>more_out := True\<rparr>, s1) = Inr (map (\<lambda>_. Routed) ps, ?r, s1)"
      using send_to_nobody[OF assms(7), of "?r\<lparr>more_out := True\<rparr>" s1] assms(3,5) e by simp
    moreover have "mandatory r \<Longrightarrow> router_send m r s = Inr (if check_hwm (ends s ?x) then Unreachable else Would_block, ?r, s1)"
      "\<not> mandatory r \<Longrightarrow> router_send_step m (r, s) = Inr (Routed, ?r\<lparr>more_out := True\<rparr>, s1)"
      using Some c(1,5) False assms(2,3,6) by (simp_all add: router_send_step_def router_send_def router_send_id_def Let_def)
    ultimately show ?thesis using Some False c(2,3) unfolding routed_def by (cases "mandatory r") auto
  qed
qed

section \<open>Messages received\<close>

text \<open>The table and the pipes agree on the ids, and the fair queue has the pipes of the table.\<close>

definition table_pipes :: "router \<Rightarrow> pid set" where
  "table_pipes r = (\<lambda>(k, e). oe_pipe e) ` set (out_pipes r)"

definition table_ok :: "router \<Rightarrow> sockenv \<Rightarrow> bool" where
  "table_ok r s \<longleftrightarrow> distinct (map fst (out_pipes r)) \<and> (\<forall>(k, e)\<in>set (out_pipes r). router_routing_id (me (ends s (oe_pipe e))) = k)"

definition router_ok :: "router \<times> sockenv \<Rightarrow> bool" where
  "router_ok z \<longleftrightarrow> (case z of (r, s) \<Rightarrow> fq_ok (r_fq r) \<and> queues_ok s \<and> fq_midway (r_fq r) s \<and> table_ok r s \<and>
     set (items (f_pipes (r_fq r))) = table_pipes r \<and> set (anonymous_pipes r) \<inter> table_pipes r = {} \<and>
     (f_more (r_fq r) \<longrightarrow> current_in r = Some (cur (r_fq r))))"

lemma table_lookup:
  assumes "table_ok r s" "x \<in> table_pipes r"
  shows "\<exists>e. lookup_out_pipe (router_routing_id (me (ends s x))) r = Some e \<and> oe_pipe e = x"
  using assms by (force simp: table_ok_def table_pipes_def lookup_out_pipe_def)

lemma table_keep: "table_ok r s \<Longrightarrow> (\<And>x. router_routing_id (me (ends s' x)) = router_routing_id (me (ends s x))) \<Longrightarrow> table_ok r s'"
  by (simp add: table_ok_def)

text \<open>What the loop over repeated routing ids takes from each pipe.\<close>

definition skipped :: "wmsg list \<Rightarrow> bool" where
  "skipped ms \<longleftrightarrow> list_all (\<lambda>m. is_routing_id (Msg m)) ms"

lemma fetch_ok:
  assumes "fq_ok f" "queues_ok s" "fq_midway f s"
  shows "\<exists>p f' s'. fetch f s = Inr (p, f', s') \<and> fq_ok f' \<and> fq_midway f' s' \<and> in_frame s s' \<and>
    set (items (f_pipes f')) = set (items (f_pipes f)) \<and>
    (\<forall>j. \<exists>pre. skipped pre \<and> sock_avail s j = pre @ (case p of Some (m, i) \<Rightarrow> if j = i then [m] else [] | None \<Rightarrow> []) @ sock_avail s' j) \<and>
    (case p of None \<Rightarrow> \<not> f_more f' \<and> (\<forall>j\<in>set (active_pipes f). skipped (sock_avail s j))
     | Some (m, i) \<Rightarrow> \<not> is_routing_id (Msg m) \<and> i \<in> set (items (f_pipes f)) \<and> f_more f' = has_more (Msg m) \<and> (f_more f' \<longrightarrow> cur f' = i))"
  using assms
proof (induction f s rule: fetch.induct)
  case (1 f s)
  from recv_result[OF 1(2-4)] obtain p f1 s1 where p: "recvpipe sock_read f s = Inr (p, f1, s1)" "fq_ok f1"
    "set (items (f_pipes f1)) = set (items (f_pipes f))" "fq_midway f1 s1" "in_frame s s1" "fetched p f s f1 s1" by blast
  consider (none) "p = None" | (skip) m i where "p = Some (m, i)" "is_routing_id (Msg m)" | (got) m i where "p = Some (m, i)" "\<not> is_routing_id (Msg m)"
    by (metis option.exhaust prod.exhaust)
  then show ?case
  proof cases
    case none
    with p(1) have "fetch f s = Inr (None, f1, s1)" by (simp add: fetch.simps[of f s])
    moreover have "\<forall>j. sock_avail s j = sock_avail s1 j" "\<not> f_more f1" "\<forall>j\<in>set (active_pipes f). sock_avail s j = []"
      using p(6) none by (simp_all add: fetched_def)
    ultimately show ?thesis using p(2-5) by (auto simp: skipped_def)
  next
    case got
    with p(1) have "fetch f s = Inr (Some (m, i), f1, s1)" by (simp add: fetch.simps[of f s])
    moreover have v: "i \<in> set (active_pipes f)" "sock_avail s = (sock_avail s1)(i := m # sock_avail s1 i)" "f_more f1 = has_more (Msg m)"
      "has_more (Msg m) \<longrightarrow> cur f1 = i" using p(6) got by (simp_all add: fetched_def)
    moreover have "i \<in> set (items (f_pipes f))" using v(1) by (auto simp: active_pipes_def dest: in_set_takeD)
    moreover have "\<forall>j. \<exists>pre. skipped pre \<and> sock_avail s j = pre @ (if j = i then [m] else []) @ sock_avail s1 j"
      unfolding v(2) by (auto intro!: exI[of _ "[]"] simp: skipped_def)
    ultimately show ?thesis using p(2-5) got(2) by auto
  next
    case skip
    have v: "i \<in> set (active_pipes f)" "i \<in> set (active_pipes f1)" "sock_avail s = (sock_avail s1)(i := m # sock_avail s1 i)"
      "\<forall>j\<in>set (active_pipes f). sock_avail s j \<noteq> [] \<longrightarrow> j \<in> set (active_pipes f1)" using p(6) skip by (simp_all add: fetched_def)
    have q1: "queues_ok s1" using p(5) by (simp add: in_frame_def)
    from 1(1)[OF p(1) refl skip(1) refl refl skip(2) p(2) q1 p(4)] obtain p' f' s' where ih: "fetch f1 s1 = Inr (p', f', s')" "fq_ok f'" "fq_midway f' s'"
      "in_frame s1 s'" "set (items (f_pipes f')) = set (items (f_pipes f1))"
      and pre: "\<And>j. \<exists>pre. skipped pre \<and> sock_avail s1 j = pre @ (case p' of Some (m, i) \<Rightarrow> if j = i then [m] else [] | None \<Rightarrow> []) @ sock_avail s' j"
      and c: "case p' of None \<Rightarrow> \<not> f_more f' \<and> (\<forall>j\<in>set (active_pipes f1). skipped (sock_avail s1 j))
        | Some (m, i) \<Rightarrow> \<not> is_routing_id (Msg m) \<and> i \<in> set (items (f_pipes f1)) \<and> f_more f' = has_more (Msg m) \<and> (f_more f' \<longrightarrow> cur f' = i)"
      by auto
    have e: "fetch f s = Inr (p', f', s')" using p(1) skip ih(1) by (simp add: fetch.simps[of f s])
    have fr: "in_frame s s'" using p(5) ih(4) keeps_out_trans unfolding in_frame_def by blast
    have "\<exists>pre. skipped pre \<and> sock_avail s j = pre @ (case p' of Some (m, i) \<Rightarrow> if j = i then [m] else [] | None \<Rightarrow> []) @ sock_avail s' j" for j
    proof -
      from pre[of j] obtain q where q: "skipped q" "sock_avail s1 j = q @ (case p' of Some (m, i) \<Rightarrow> if j = i then [m] else [] | None \<Rightarrow> []) @ sock_avail s' j" by blast
      show ?thesis by (rule exI[of _ "if j = i then m # q else q"]) (use q skip(2) v(3) in \<open>auto simp: skipped_def\<close>)
    qed
    moreover have "skipped (sock_avail s j)" if "\<forall>j\<in>set (active_pipes f1). skipped (sock_avail s1 j)" "j \<in> set (active_pipes f)" for j
    proof (cases "sock_avail s j = []")
      case False
      with v(4) that have "skipped (sock_avail s1 j)" by blast
      with v(3) skip(2) show ?thesis by (auto simp: skipped_def)
    qed (simp add: skipped_def)
    ultimately show ?thesis using e ih(2,3,5) fr c p(3) by (cases p') auto
  qed
qed

lemma finish_part_result:
  assumes "queues_ok s" "current_in r \<noteq> None"
  shows "\<exists>r' s'. finish_part mr r s = Inr (r', s')"
proof -
  obtain x where "current_in r = Some x" using assms(2) by blast
  with sock_terminate_ok[OF assms(1), of x True] show ?thesis by (auto simp: finish_part_def Let_def)
qed

lemma in_frame_id: "in_frame s s' \<Longrightarrow> router_routing_id (me (ends s' x)) = router_routing_id (me (ends s x))"
  by (simp add: in_frame_def keeps_out_def)

lemma router_recv_message:
  assumes "router_ok (r, s)" "\<not> prefetched r" "\<not> more_in r"
  shows "\<exists>p r' s'. router_recv r s = Inr (p, r', s') \<and> router_ok (r', s') \<and> r' = r\<lparr>r_fq := r_fq r', prefetched_msg := prefetched_msg r',
      prefetched := prefetched r', current_in := current_in r', routing_id_sent := routing_id_sent r'\<rparr> \<and> (case p of
      None \<Rightarrow> \<forall>x\<in>set (active_pipes (r_fq r)). skipped (sock_avail s x)
    | Some m \<Rightarrow> \<exists>x e b pre r2 s2. m = id_msg x s \<and> lookup_out_pipe (w_data m) r = Some e \<and> oe_pipe e = x \<and>
        sock_avail s x = pre @ b # sock_avail s' x \<and> skipped pre \<and> \<not> is_routing_id (Msg b) \<and> router_recv r' s' = Inr (Some b, r2, s2))"
proof -
  let ?f = "r_fq r"
  from assms(1) have o: "fq_ok ?f" "queues_ok s" "fq_midway ?f s" "table_ok r s" "set (items (f_pipes ?f)) = table_pipes r"
    "set (anonymous_pipes r) \<inter> table_pipes r = {}" by (simp_all add: router_ok_def)
  from fetch_ok[OF o(1-3)] obtain p f' s' where p: "fetch ?f s = Inr (p, f', s')" "fq_ok f'" "fq_midway f' s'" "in_frame s s'"
    "set (items (f_pipes f')) = table_pipes r"
    and pre: "\<And>j. \<exists>pre. skipped pre \<and> sock_avail s j = pre @ (case p of Some (m, i) \<Rightarrow> if j = i then [m] else [] | None \<Rightarrow> []) @ sock_avail s' j"
    and c: "case p of None \<Rightarrow> \<not> f_more f' \<and> (\<forall>j\<in>set (active_pipes ?f). skipped (sock_avail s j))
     | Some (m, i) \<Rightarrow> \<not> is_routing_id (Msg m) \<and> i \<in> set (items (f_pipes ?f)) \<and> f_more f' = has_more (Msg m) \<and> (f_more f' \<longrightarrow> cur f' = i)"
    unfolding o(5) by blast
  have t: "table_ok r s'" "queues_ok s'" using table_keep[OF o(4) in_frame_id[OF p(4)]] p(4) by (simp_all add: in_frame_def)
  show ?thesis
  proof (cases p)
    case None
    let ?r = "r\<lparr>r_fq := f'\<rparr>"
    have "router_recv r s = Inr (None, ?r, s')" using p(1) None assms(2,3) by (simp add: router_recv_def)
    moreover have "router_ok (?r, s')" using p(2,3,5) t None c o(6) by (simp add: router_ok_def table_ok_def table_pipes_def)
    ultimately show ?thesis using None c by auto
  next
    case (Some mi)
    obtain b x where mi: "mi = (b, x)" by (cases mi)
    let ?r = "r\<lparr>r_fq := f', prefetched_msg := b, prefetched := True, current_in := Some x, routing_id_sent := True\<rparr>"
    have id: "id_msg x s' = id_msg x s" by (simp add: id_msg_def in_frame_id[OF p(4)])
    have g: "\<not> is_routing_id (Msg b)" "x \<in> table_pipes r" "f_more f' \<longrightarrow> cur f' = x" using c Some mi o(5) by simp_all
    from table_lookup[OF o(4) g(2)] obtain e where e: "lookup_out_pipe (w_data (id_msg x s)) r = Some e" "oe_pipe e = x"
      by (auto simp: id_msg_def)
    from pre[of x] Some mi obtain q where q: "skipped q" "sock_avail s x = q @ b # sock_avail s' x" by auto
    have r1: "router_recv r s = Inr (Some (id_msg x s), ?r, s')" using p(1) Some mi assms(2,3) id by (simp add: router_recv_def)
    have "router_ok (?r, s')" using p(2,3,5) t g(3) o(6) by (simp add: router_ok_def table_ok_def table_pipes_def)
    moreover obtain r2 s2 where "router_recv ?r s' = Inr (Some b, r2, s2)"
      using finish_part_result[OF t(2), of "?r\<lparr>prefetched_msg := msg_init, prefetched := False\<rparr>" "has_more (Msg b)"]
      by (auto simp: router_recv_def)
    ultimately show ?thesis using r1 e q g(1) by auto
  qed
qed

section \<open>Peers that come and go\<close>

text \<open>What identification relies on: generated ids are not in use, nor is the id chosen for the next connection.\<close>

definition ids_free :: "bool \<Rightarrow> router \<Rightarrow> bool" where
  "ids_free loc r \<longleftrightarrow> \<not> has_out_pipe (integral_id (next_integral_routing_id r)) r \<and>
     (loc \<and> connect_routing_id r \<noteq> [] \<longrightarrow> \<not> has_out_pipe (connect_routing_id r) r)"

abbreviation rid_of :: "sockenv \<Rightarrow> pid \<Rightarrow> rid" where "rid_of s x \<equiv> router_routing_id (me (ends s x))"

lemma set_id_ok:
  assumes "queues_ok s"
  shows "\<exists>s'. sock_set_id x k s = Inr s' \<and> queues_ok s' \<and> rid_of s' = (rid_of s)(x := k) \<and> sock_avail s' = sock_avail s"
  using assms
  by (auto simp: sock_set_id_def sock_do_def on_end_def set_router_socket_routing_id_def end_defs queues_ok_def sock_good_def plain_def end_wf_def
    sock_avail_def avail_of_def may_read_def fun_eq_iff)

lemma probe_ok:
  assumes "queues_ok s"
  shows "\<exists>s1. send_probe b x s = Inr s1 \<and> out_frame s s1"
proof (cases b)
  case True
  have g: "sock_good s" using assms by (simp add: queues_ok_def)
  obtain ok s1 where w: "sock_write x msg_init s = Inr (ok, s1)"
    using sk.wr_room[OF g, of x msg_init] sk.wr_full[OF g, of x msg_init] by (cases "sock_room s x") auto
  have f: "out_frame s s1" using write_frame(1)[OF out_frame_refl[OF assms] w] by blast
  then have "sock_good s1" by (simp add: out_frame_def)
  from sk.fl[OF this, of x] obtain s2 where "sock_flush x s1 = Inr s2" by blast
  with sock_flush_frame[OF f] w True show ?thesis by (auto simp: send_probe_def)
qed (use out_frame_refl[OF assms] in \<open>simp add: send_probe_def\<close>)

lemma out_frame_id: "out_frame s s' \<Longrightarrow> rid_of s' x = rid_of s x"
  by (simp add: out_frame_def keeps_in_def)

lemma has_out_pipe_lookup: "has_out_pipe k r \<longleftrightarrow> lookup_out_pipe k r \<noteq> None"
  by (simp add: has_out_pipe_def lookup_out_pipe_def map_of_eq_None_iff)

lemma lookup_table:
  assumes "table_ok r s" "lookup_out_pipe k r = Some e"
  shows "(k, e) \<in> set (out_pipes r)" "rid_of s (oe_pipe e) = k" "oe_pipe e \<in> table_pipes r"
proof -
  show m: "(k, e) \<in> set (out_pipes r)" using assms(2) by (simp add: lookup_out_pipe_def map_of_SomeD)
  then show "rid_of s (oe_pipe e) = k" using assms(1) by (auto simp: table_ok_def)
  show "oe_pipe e \<in> table_pipes r" using m by (force simp: table_pipes_def)
qed

lemma erase_key_table:
  assumes "table_ok r s" "lookup_out_pipe k r = Some e"
  shows "table_pipes (erase_key k r) = table_pipes r - {oe_pipe e}" "table_ok (erase_key k r) s"
    "has_out_pipe j (erase_key k r) \<longleftrightarrow> j \<noteq> k \<and> has_out_pipe j r"
proof -
  note l = lookup_table[OF assms]
  have iff: "k' \<noteq> k \<longleftrightarrow> oe_pipe e' \<noteq> oe_pipe e" if m: "(k', e') \<in> set (out_pipes r)" for k' e'
  proof
    show "k' \<noteq> k \<Longrightarrow> oe_pipe e' \<noteq> oe_pipe e" using m l(2) assms(1) by (auto simp: table_ok_def)
    show "oe_pipe e' \<noteq> oe_pipe e \<Longrightarrow> k' \<noteq> k"
      using m l(1) assms(1) eq_key_imp_eq_value[of "out_pipes r" k e' e] by (auto simp: table_ok_def)
  qed
  have "set (filter (\<lambda>(k', e'). k' \<noteq> k) (out_pipes r)) = {p \<in> set (out_pipes r). oe_pipe (snd p) \<noteq> oe_pipe e}"
    by (auto, (use iff in blast)+)
  then show "table_pipes (erase_key k r) = table_pipes r - {oe_pipe e}"
    by (auto simp: table_pipes_def erase_key_def case_prod_beta)
  show "table_ok (erase_key k r) s" using assms(1) by (auto simp: table_ok_def erase_key_def distinct_map_filter)
  show "has_out_pipe j (erase_key k r) \<longleftrightarrow> j \<noteq> k \<and> has_out_pipe j r" by (force simp: has_out_pipe_def erase_key_def)
qed

lemma add_table:
  assumes "table_ok r s" "\<not> has_out_pipe k r" "x \<notin> table_pipes r" "rid_of s' = (rid_of s)(x := k)"
  shows "\<exists>r'. add_out_pipe k x r = Inr r' \<and> table_ok r' s' \<and> table_pipes r' = insert x (table_pipes r) \<and>
    r' = r\<lparr>out_pipes := out_pipes r'\<rparr> \<and> (\<forall>j. has_out_pipe j r' \<longleftrightarrow> j = k \<or> has_out_pipe j r)"
proof -
  have n: "rid_of s' (oe_pipe e) = j" if "(j, e) \<in> set (out_pipes r)" for j e
  proof -
    have "oe_pipe e \<noteq> x" using that assms(3) by (force simp: table_pipes_def)
    with that assms(1) fun_cong[OF assms(4), of "oe_pipe e"] show ?thesis by (auto simp: table_ok_def)
  qed
  have "k \<notin> fst ` set (out_pipes r)" using assms(2) by (simp add: has_out_pipe_def)
  moreover have "rid_of s' x = k" using fun_cong[OF assms(4), of x] by simp
  ultimately show ?thesis using assms(1,2) n by (auto simp: add_out_pipe_def table_ok_def table_pipes_def has_out_pipe_def)
qed

text \<open>Nothing but the table and the pending termination changes, no pipe leaves the table, and the id is free afterwards.\<close>

definition renamed :: "pid option \<Rightarrow> rid \<Rightarrow> router \<Rightarrow> sockenv \<Rightarrow> sockenv \<Rightarrow> bool" where
  "renamed old k r s s' \<longleftrightarrow> (case old of None \<Rightarrow> rid_of s' = rid_of s
     | Some y \<Rightarrow> handover r \<and> y \<in> table_pipes r \<and> rid_of s y = k \<and> rid_of s' = (rid_of s)(y := integral_id (next_integral_routing_id r)))"

lemma displace_ok:
  assumes "router_ok (r, s)" "lookup_out_pipe k r = Some e" "handover r" "\<not> has_out_pipe (integral_id (next_integral_routing_id r)) r"
  shows "\<exists>r' s'. displace (oe_pipe e) r s = Inr (r', s') \<and> router_ok (r', s') \<and> \<not> has_out_pipe k r' \<and> table_pipes r' = table_pipes r \<and>
    anonymous_pipes r' = anonymous_pipes r \<and> r_fq r' = r_fq r \<and> renamed (Some (oe_pipe e)) k r s s'"
proof -
  let ?y = "oe_pipe e" and ?n = "integral_id (next_integral_routing_id r)"
  let ?r1 = "r\<lparr>next_integral_routing_id := next_integral_routing_id r + 1\<rparr>"
  from assms(1) have o: "queues_ok s" "table_ok r s" "fq_ok (r_fq r)" "fq_midway (r_fq r) s" "set (items (f_pipes (r_fq r))) = table_pipes r"
    "set (anonymous_pipes r) \<inter> table_pipes r = {}" "f_more (r_fq r) \<longrightarrow> current_in r = Some (cur (r_fq r))" by (simp_all add: router_ok_def)
  note l = lookup_table[OF o(2) assms(2)]
  have t1: "table_ok ?r1 s" "lookup_out_pipe k ?r1 = Some e" "table_pipes ?r1 = table_pipes r" "\<And>j. has_out_pipe j ?r1 = has_out_pipe j r"
    using o(2) assms(2) by (simp_all add: table_ok_def lookup_out_pipe_def table_pipes_def has_out_pipe_def)
  let ?r2 = "erase_key k ?r1"
  note t2 = erase_key_table[OF t1(1,2)]
  have hk: "has_out_pipe k r" using assms(2) by (simp add: has_out_pipe_lookup)
  have e2: "erase_out_pipe ?y s ?r1 = Inr ?r2" using l(2) hk t1(4) by (simp add: erase_out_pipe_def Let_def)
  from set_id_ok[OF o(1), of ?y ?n] obtain s1 where s1: "sock_set_id ?y ?n s = Inr s1" "queues_ok s1" "rid_of s1 = (rid_of s)(?y := ?n)"
    "sock_avail s1 = sock_avail s" by blast
  have nn: "\<not> has_out_pipe ?n ?r2" "?y \<notin> table_pipes ?r2" using assms(4) t2(1,3) t1(4) by auto
  from add_table[OF t2(2) nn s1(3)] obtain r3 where r3: "add_out_pipe ?n ?y ?r2 = Inr r3" "table_ok r3 s1"
    "table_pipes r3 = insert ?y (table_pipes ?r2)" "r3 = ?r2\<lparr>out_pipes := out_pipes r3\<rparr>" "\<And>j. has_out_pipe j r3 \<longleftrightarrow> j = ?n \<or> has_out_pipe j ?r2" by blast
  have tp: "table_pipes r3 = table_pipes r" using r3(3) t2(1) t1(3) l(3) by auto
  have nk: "\<not> has_out_pipe k r3" using r3(5) t2(3) assms(4) hk by auto
  have f3: "r_fq r3 = r_fq r" "anonymous_pipes r3 = anonymous_pipes r" "current_in r3 = current_in r"
    using arg_cong[OF r3(4), of r_fq] arg_cong[OF r3(4), of anonymous_pipes] arg_cong[OF r3(4), of current_in] by (simp_all add: erase_key_def)
  have d: "displace ?y r s = (if current_in r = Some ?y then Inr (r3\<lparr>terminate_current_in := True\<rparr>, s1)
      else bindE (sock_do ?y (terminate True) s1) (\<lambda>s2. Inr (r3, s2)))"
    using e2 s1(1) r3(1) f3(3) by (simp add: displace_def next_id_def)
  have ren: "renamed (Some ?y) k r s s2" if "rid_of s2 = rid_of s1" for s2
    using that s1(3) l(2,3) assms(3) by (simp add: renamed_def)
  have mid: "fq_midway (r_fq r) s1" using o(4) s1(4) by (simp add: fq_midway_def)
  show ?thesis
  proof (cases "current_in r = Some ?y")
    case True
    let ?r = "r3\<lparr>terminate_current_in := True\<rparr>"
    have "router_ok (?r, s1)" using r3(2) tp f3 o s1(2) mid by (simp add: router_ok_def table_ok_def table_pipes_def)
    moreover have "\<not> has_out_pipe k ?r" "table_pipes ?r = table_pipes r" using nk tp by (simp_all add: has_out_pipe_def table_pipes_def)
    ultimately show ?thesis using d True f3 ren[of s1] by auto
  next
    case False
    from sock_terminate_ok[OF s1(2), of ?y True] obtain s2 where s2: "sock_do ?y (terminate True) s1 = Inr s2" "queues_ok s2"
      "\<And>j. rid_of s2 j = rid_of s1 j" "\<And>j. j \<noteq> ?y \<Longrightarrow> ends s2 j = ends s1 j" by blast
    have "f_more (r_fq r) \<Longrightarrow> cur (r_fq r) \<noteq> ?y" using o(7) False by auto
    then have "fq_midway (r_fq r) s2" using mid s2(4) by (auto simp: fq_midway_def sock_avail_def)
    then have "router_ok (r3, s2)" using table_keep[OF r3(2) s2(3)] tp f3 o s2(2) by (simp add: router_ok_def)
    moreover have "rid_of s2 = rid_of s1" using s2(3) by auto
    ultimately show ?thesis using d False f3 nk tp ren s2(1) by auto
  qed
qed

lemma choose_id_ok:
  assumes "router_ok (r, s)" "ids_free loc r" "x \<notin> table_pipes r"
  shows "\<exists>k r' s' old. choose_id x loc r s = Inr (k, r', s') \<and> router_ok (r', s') \<and> table_pipes r' = table_pipes r \<and>
    anonymous_pipes r' = anonymous_pipes r \<and> r_fq r' = r_fq r \<and> (\<forall>i. k = Some i \<longrightarrow> \<not> has_out_pipe i r') \<and>
    (k = None \<longrightarrow> old = None) \<and> renamed old (the k) r s s'"
proof -
  have upd: "router_ok (r\<lparr>connect_routing_id := c\<rparr>, s) = router_ok (r, s)" "router_ok (r\<lparr>next_integral_routing_id := n\<rparr>, s) = router_ok (r, s)"
    "table_pipes (r\<lparr>connect_routing_id := c\<rparr>) = table_pipes r" "table_pipes (r\<lparr>next_integral_routing_id := n\<rparr>) = table_pipes r"
    "has_out_pipe i (r\<lparr>connect_routing_id := c\<rparr>) = has_out_pipe i r" "has_out_pipe i (r\<lparr>next_integral_routing_id := n\<rparr>) = has_out_pipe i r" for c n i s
    by (simp_all add: router_ok_def table_ok_def table_pipes_def has_out_pipe_def)
  have same: "renamed None i r s s" for i by (simp add: renamed_def)
  have free: "\<not> has_out_pipe (integral_id (next_integral_routing_id r)) r" using assms(2) by (simp add: ids_free_def)
  show ?thesis
  proof (cases "loc \<and> connect_routing_id r \<noteq> [] \<or> opt_raw_socket r")
    case True
    then show ?thesis using assms(1,2) upd same[of "connect_routing_id r"] same[of "integral_id (next_integral_routing_id r)"] free
      by (cases "loc \<and> connect_routing_id r \<noteq> []") (auto simp: choose_id_def ids_free_def next_id_def Let_def intro!: exI[of _ None])
  next
    case False
    have q: "queues_ok s" and g: "sock_good s" using assms(1) by (simp_all add: router_ok_def queues_ok_def)
    obtain m s1 where m: "sock_read x s = Inr (m, s1)" using sq.rd_empty[OF g, of x] sq.rd_some[OF g, of x] by (cases "sock_avail s x") auto
    have fr: "in_frame s s1" using read_frame[OF in_frame_refl[OF q] m] by blast
    have ids: "rid_of s1 = rid_of s" using in_frame_id[OF fr] by auto
    have ends: "ends s1 j = ends s j" if "j \<noteq> x" for j using m that by (auto simp: sock_read_def on_end_def bindE_eq_Inr)
    have ok1: "router_ok (r, s1)"
    proof -
      have "fq_midway (r_fq r) s1" if "fq_midway (r_fq r) s" "fq_ok (r_fq r)" "set (items (f_pipes (r_fq r))) = table_pipes r"
      proof -
        have "f_more (r_fq r) \<Longrightarrow> cur (r_fq r) \<noteq> x"
          using active_nonempty[OF that(2)] that(1,3) assms(3) by (auto simp: fq_midway_def active_pipes_def dest!: in_set_takeD)
        then show ?thesis using that(1) ends by (auto simp: fq_midway_def sock_avail_def)
      qed
      moreover have "queues_ok s1" using fr by (simp add: in_frame_def)
      moreover have "table_ok r s1" if "table_ok r s" using table_keep[OF that in_frame_id[OF fr]] .
      ultimately show ?thesis using assms(1) by (auto simp: router_ok_def)
    qed
    have c: "choose_id x loc r s = (case m of None \<Rightarrow> Inr (None, r, s1) | Some m \<Rightarrow>
            if w_data m = [] then (let (k, r1) = next_id r in Inr (Some k, r1, s1))
            else (case lookup_out_pipe (w_data m) r of
                None \<Rightarrow> Inr (Some (w_data m), r, s1)
              | Some e \<Rightarrow> if \<not> handover r then Inr (None, r, s1)
                  else bindE (displace (oe_pipe e) r s1) (\<lambda>(r1, s2). Inr (Some (w_data m), r1, s2))))"
      using False m by (simp add: choose_id_def) auto
    have same1: "renamed None i r s s1" for i using ids by (simp add: renamed_def)
    show ?thesis
    proof (cases "\<exists>b e. m = Some b \<and> w_data b \<noteq> [] \<and> lookup_out_pipe (w_data b) r = Some e \<and> handover r")
      case True
      then obtain b e where b: "m = Some b" "w_data b \<noteq> []" "lookup_out_pipe (w_data b) r = Some e" "handover r" by blast
      from displace_ok[OF ok1 b(3,4) free] obtain r' s' where "displace (oe_pipe e) r s1 = Inr (r', s')" "router_ok (r', s')" "\<not> has_out_pipe (w_data b) r'"
        "table_pipes r' = table_pipes r" "anonymous_pipes r' = anonymous_pipes r" "r_fq r' = r_fq r" "renamed (Some (oe_pipe e)) (w_data b) r s1 s'" by blast
      moreover from this(7) have "renamed (Some (oe_pipe e)) (w_data b) r s s'" using ids by (simp add: renamed_def fun_eq_iff)
      ultimately show ?thesis using c b by (intro exI[of _ "Some (w_data b)"] exI[of _ r'] exI[of _ s'] exI[of _ "Some (oe_pipe e)"]) simp
    next
      case none: False
      have "\<exists>k r'. choose_id x loc r s = Inr (k, r', s1) \<and> (r' = r \<or> r' = snd (next_id r)) \<and> (\<forall>i. k = Some i \<longrightarrow> \<not> has_out_pipe i r)"
        using c none free by (auto simp: next_id_def has_out_pipe_lookup split: option.splits)
      then obtain k r' where kr: "choose_id x loc r s = Inr (k, r', s1)" "r' = r \<or> r' = snd (next_id r)" "\<forall>i. k = Some i \<longrightarrow> \<not> has_out_pipe i r" by blast
      have "router_ok (r', s1) \<and> table_pipes r' = table_pipes r \<and> anonymous_pipes r' = anonymous_pipes r \<and> r_fq r' = r_fq r \<and> has_out_pipe i r' = has_out_pipe i r" for i
        using kr(2) ok1 upd by (auto simp: next_id_def)
      with kr(1,3) same1 show ?thesis by (intro exI[of _ k] exI[of _ r'] exI[of _ s1] exI[of _ None]) simp
    qed
  qed
qed

text \<open>
  The id that a new pipe has to get: the one set for the next connection, if the connection was made from this side; else a generated
  one on a raw socket or for a peer that announces an empty id; else the id announced, unless another pipe has it and the handover option is
  off.  Without an announcement there is none yet.
\<close>

definition expected_id :: "pid \<Rightarrow> bool \<Rightarrow> router \<Rightarrow> sockenv \<Rightarrow> rid option" where
  "expected_id x loc r s =
     (if loc \<and> connect_routing_id r \<noteq> [] then Some (connect_routing_id r)
      else if opt_raw_socket r then Some (integral_id (next_integral_routing_id r))
      else case sock_avail s x of [] \<Rightarrow> None
        | m # _ \<Rightarrow> if w_data m = [] then Some (integral_id (next_integral_routing_id r))
            else if has_out_pipe (w_data m) r \<and> \<not> handover r then None else Some (w_data m))"

lemma choose_id_expected:
  assumes "choose_id x loc r s = Inr (k, r', s')" "sock_good s"
  shows "k = expected_id x loc r s"
proof (cases "loc \<and> connect_routing_id r \<noteq> [] \<or> opt_raw_socket r")
  case True
  with assms(1) show ?thesis by (auto simp: choose_id_def expected_id_def next_id_def Let_def split: if_splits)
next
  case False
  show ?thesis
  proof (cases "sock_avail s x")
    case Nil
    from sq.rd_empty[OF assms(2) this] obtain s1 where "sock_read x s = Inr (None, s1)" by blast
    with assms(1) False Nil show ?thesis by (auto simp: choose_id_def expected_id_def)
  next
    case (Cons m ms)
    from sq.rd_some[OF assms(2) this] obtain s1 where "sock_read x s = Inr (Some m, s1)" by blast
    with assms(1) False Cons show ?thesis
      by (auto simp: choose_id_def expected_id_def next_id_def has_out_pipe_lookup bindE_eq_Inr split: if_splits option.splits)
  qed
qed

text \<open>
  A peer is identified: it gets the id that it has to get; a pipe that had this id gets a generated one and every other pipe keeps its id.
  A pipe without an id waits among the anonymous pipes.
\<close>

definition identified :: "pid \<Rightarrow> bool \<Rightarrow> router \<Rightarrow> sockenv \<Rightarrow> bool \<Rightarrow> router \<Rightarrow> sockenv \<Rightarrow> bool" where
  "identified x loc r s ok r' s' \<longleftrightarrow> (ok \<longleftrightarrow> expected_id x loc r s \<noteq> None) \<and> table_pipes r' = (if ok then insert x (table_pipes r) else table_pipes r) \<and>
     (ok \<longrightarrow> expected_id x loc r s = Some (rid_of s' x)) \<and>
     (\<forall>y\<in>table_pipes r. rid_of s' y = (if expected_id x loc r s = Some (rid_of s y) then integral_id (next_integral_routing_id r) else rid_of s y))"

lemma identify_ok:
  assumes "router_ok (r, s)" "ids_free loc r" "x \<notin> table_pipes r"
  shows "\<exists>ok r' s'. identify_peer x loc r s = Inr (ok, r', s') \<and> identified x loc r s ok r' s' \<and> anonymous_pipes r' = anonymous_pipes r \<and>
    r_fq r' = r_fq r \<and> table_ok r' s' \<and> queues_ok s' \<and> fq_midway (r_fq r) s' \<and> (f_more (r_fq r) \<longrightarrow> current_in r' = Some (cur (r_fq r)))"
proof -
  from choose_id_ok[OF assms] obtain k r1 s1 old where c: "choose_id x loc r s = Inr (k, r1, s1)" "router_ok (r1, s1)" "table_pipes r1 = table_pipes r"
    "anonymous_pipes r1 = anonymous_pipes r" "r_fq r1 = r_fq r" "\<And>i. k = Some i \<Longrightarrow> \<not> has_out_pipe i r1" "k = None \<longrightarrow> old = None" "renamed old (the k) r s s1" by blast
  have o: "queues_ok s1" "table_ok r1 s1" "fq_midway (r_fq r) s1" "f_more (r_fq r) \<longrightarrow> current_in r1 = Some (cur (r_fq r))"
    using c(2,5) by (simp_all add: router_ok_def)
  have q: "sock_good s" and tab: "table_ok r s" using assms(1) by (simp_all add: router_ok_def queues_ok_def)
  have ex: "expected_id x loc r s = k" using choose_id_expected[OF c(1) q] by simp
  show ?thesis
  proof (cases k)
    case None
    with c(7,8) have "rid_of s1 = rid_of s" by (simp add: renamed_def)
    then have "identified x loc r s False r1 s1" using c(3) ex None by (simp add: identified_def fun_eq_iff)
    with c None o show ?thesis by (auto simp: identify_peer_def)
  next
    case (Some i)
    from set_id_ok[OF o(1), of x i] obtain s2 where s2: "sock_set_id x i s1 = Inr s2" "queues_ok s2" "rid_of s2 = (rid_of s1)(x := i)" "sock_avail s2 = sock_avail s1" by blast
    have "x \<notin> table_pipes r1" using assms(3) c(3) by simp
    from add_table[OF o(2) c(6)[OF Some] this s2(3)] obtain r2 where r2: "add_out_pipe i x r1 = Inr r2" "table_ok r2 s2" "table_pipes r2 = insert x (table_pipes r1)"
      "r2 = r1\<lparr>out_pipes := out_pipes r2\<rparr>" by blast
    have f2: "r_fq r2 = r_fq r" "anonymous_pipes r2 = anonymous_pipes r" "current_in r2 = current_in r1"
      using arg_cong[OF r2(4), of r_fq] arg_cong[OF r2(4), of anonymous_pipes] arg_cong[OF r2(4), of current_in] c(4,5) by simp_all
    have idx: "rid_of s2 x = i" and idy: "\<And>y. y \<noteq> x \<Longrightarrow> rid_of s2 y = rid_of s1 y" using fun_cong[OF s2(3)] by simp_all
    have "rid_of s2 y = (if expected_id x loc r s = Some (rid_of s y) then integral_id (next_integral_routing_id r) else rid_of s y)" if y: "y \<in> table_pipes r" for y
    proof -
      have e: "rid_of s2 y = rid_of s1 y" using idy[of y] y assms(3) by blast
      show ?thesis
      proof (cases old)
        case None
        with c(8) have same: "rid_of s1 = rid_of s" by (simp add: renamed_def)
        from table_lookup[OF o(2), of y] y c(3) have "has_out_pipe (rid_of s1 y) r1" by (auto simp: has_out_pipe_lookup)
        with c(6)[OF Some] have "i \<noteq> rid_of s y" using fun_cong[OF same, of y] by metis
        with e ex Some fun_cong[OF same, of y] show ?thesis by simp
      next
        case (Some z)
        with c(8) \<open>k = Some i\<close> have z: "z \<in> table_pipes r" "rid_of s z = i" "rid_of s1 = (rid_of s)(z := integral_id (next_integral_routing_id r))" by (simp_all add: renamed_def)
        have one: "y = z" if yi: "rid_of s y = i"
        proof -
          from table_lookup[OF tab z(1)] obtain e where "lookup_out_pipe i r = Some e" "oe_pipe e = z" unfolding z(2) by blast
          moreover from table_lookup[OF tab y] obtain e' where "lookup_out_pipe i r = Some e'" "oe_pipe e' = y" unfolding yi by blast
          ultimately show ?thesis by simp
        qed
        have k: "expected_id x loc r s = Some i" using ex \<open>k = Some i\<close> by simp
        show ?thesis
        proof (cases "y = z")
          case True
          with e k z(2) fun_cong[OF z(3), of z] show ?thesis by simp
        next
          case False
          with one have "rid_of s y \<noteq> i" by blast
          with e k False fun_cong[OF z(3), of y] show ?thesis by simp
        qed
      qed
    qed
    then have "identified x loc r s True r2 s2" using r2(3) c(3) ex Some idx by (simp add: identified_def)
    moreover have "fq_midway (r_fq r) s2" using o(3) s2(4) by (simp add: fq_midway_def)
    moreover have "identify_peer x loc r s = Inr (True, r2, s2)" using c(1) Some s2(1) r2(1) by (simp add: identify_peer_def)
    ultimately show ?thesis using f2 r2(2) s2(2) o(4) by auto
  qed
qed

lemma attach_to_queue:
  assumes "fq_ok (r_fq r)" "x \<notin> set (items (f_pipes (r_fq r)))" "fq_midway (r_fq r) s" "f_more (r_fq r) \<longrightarrow> current_in r = Some (cur (r_fq r))"
  shows "\<exists>f. fq_attach x (r_fq r) = Inr f \<and> fq_ok f \<and> set (items (f_pipes f)) = insert x (set (items (f_pipes (r_fq r)))) \<and> fq_midway f s \<and>
    (f_more f \<longrightarrow> current_in r = Some (cur f))"
proof -
  from fq_attach_ok[OF assms(1,2)] obtain f where f: "fq_attach x (r_fq r) = Inr f" "fq_ok f"
    "set (items (f_pipes f)) = insert x (set (items (f_pipes (r_fq r))))" by blast
  with fq_attach_cur[OF assms(1,2) f(1)] assms(3,4) show ?thesis by (auto simp: fq_midway_def)
qed

lemma router_attach_ok:
  assumes "router_ok (r, s)" "ids_free loc r" "x \<notin> table_pipes r" "x \<notin> set (anonymous_pipes r)"
  shows "\<exists>ok r' s'. router_attach_pipe x loc r s = Inr (r', s') \<and> router_ok (r', s') \<and> identified x loc r s ok r' s' \<and>
    set (anonymous_pipes r') = (if ok then {} else {x}) \<union> set (anonymous_pipes r)"
proof -
  have q: "queues_ok s" using assms(1) by (simp add: router_ok_def)
  from probe_ok[OF q, of "r_probe_router r" x] obtain s1 where s1: "send_probe (r_probe_router r) x s = Inr s1" "out_frame s s1" by blast
  have ids: "rid_of s1 y = rid_of s y" for y by (rule out_frame_id[OF s1(2)])
  have ok1: "router_ok (r, s1)" using assms(1) out_frame_in(2,3)[OF s1(2)] table_keep[of r s s1, OF _ ids] by (auto simp: router_ok_def)
  from identify_ok[OF ok1 assms(2,3)] obtain ok r2 s2 where i: "identify_peer x loc r s1 = Inr (ok, r2, s2)" "identified x loc r s1 ok r2 s2"
    "anonymous_pipes r2 = anonymous_pipes r" "r_fq r2 = r_fq r" "table_ok r2 s2" "queues_ok s2" "fq_midway (r_fq r) s2"
    "f_more (r_fq r) \<longrightarrow> current_in r2 = Some (cur (r_fq r))" by blast
  have "sock_avail s1 x = sock_avail s x" using s1(2) keeps_in_avail[of "ends s x" "ends s1 x"] by (simp add: out_frame_def sock_avail_def)
  then have "expected_id x loc r s1 = expected_id x loc r s" by (simp add: expected_id_def)
  with i(2) ids have id2: "identified x loc r s ok r2 s2" by (simp add: identified_def)
  from assms(1) have o: "fq_ok (r_fq r)" "set (items (f_pipes (r_fq r))) = table_pipes r" "set (anonymous_pipes r) \<inter> table_pipes r = {}" by (simp_all add: router_ok_def)
  show ?thesis
  proof (cases ok)
    case True
    with id2 have tp: "table_pipes r2 = insert x (table_pipes r)" by (simp add: identified_def)
    from attach_to_queue[of r2 x s2] i(4,7,8) o assms(3) obtain f where f: "fq_attach x (r_fq r2) = Inr f" "fq_ok f"
      "set (items (f_pipes f)) = insert x (table_pipes r)" "fq_midway f s2" "f_more f \<longrightarrow> current_in r2 = Some (cur f)" by auto
    let ?r = "r2\<lparr>r_fq := f\<rparr>"
    have "router_ok (?r, s2)" using f tp i(3,5,6) o(3) assms(4) by (simp add: router_ok_def table_ok_def table_pipes_def)
    moreover have "identified x loc r s True ?r s2" using id2 True by (simp add: identified_def table_pipes_def)
    moreover have "router_attach_pipe x loc r s = Inr (?r, s2)" using s1(1) i(1) True f(1) by (simp add: router_attach_pipe_def)
    ultimately show ?thesis using i(3) by (intro exI[of _ True] exI[of _ ?r] exI[of _ s2]) simp
  next
    case False
    with id2 have tp: "table_pipes r2 = table_pipes r" by (simp add: identified_def)
    let ?r = "r2\<lparr>anonymous_pipes := x # anonymous_pipes r2\<rparr>"
    have "router_ok (?r, s2)" using tp i o assms(3) by (simp add: router_ok_def table_ok_def table_pipes_def)
    moreover have "identified x loc r s False ?r s2" using id2 False by (simp add: identified_def table_pipes_def)
    moreover have "router_attach_pipe x loc r s = Inr (?r, s2)" using s1(1) i(1) False by (simp add: router_attach_pipe_def)
    ultimately show ?thesis using i(3) by (intro exI[of _ False] exI[of _ ?r] exI[of _ s2]) simp
  qed
qed

lemma router_terminated_ok:
  assumes "router_ok (r, s)" "x \<in> table_pipes r" "x \<notin> set (active_pipes (r_fq r))"
  shows "\<exists>r' s'. router_pipe_terminated x r s = Inr (r', s') \<and> router_ok (r', s') \<and> table_pipes r' = table_pipes r - {x} \<and>
    \<not> has_out_pipe (rid_of s x) r' \<and> current_out r' \<noteq> Some x"
proof -
  from assms(1) have o: "queues_ok s" "table_ok r s" "fq_ok (r_fq r)" "set (items (f_pipes (r_fq r))) = table_pipes r"
    "set (anonymous_pipes r) \<inter> table_pipes r = {}" "fq_midway (r_fq r) s" "sock_good s" by (simp_all add: router_ok_def queues_ok_def)
  from table_lookup[OF o(2) assms(2)] obtain e where e: "lookup_out_pipe (rid_of s x) r = Some e" "oe_pipe e = x" by blast
  let ?r1 = "erase_key (rid_of s x) r"
  note t = erase_key_table[OF o(2) e(1)]
  have x: "x \<in> set (items (f_pipes (r_fq r))) - set (active_pipes (r_fq r))" using assms(2,3) o(4) by simp
  from fq_terminated_ok[OF o(3), of x] x obtain f where f: "fq_pipe_terminated x (r_fq r) = Inr f" "fq_ok f"
    "set (items (f_pipes f)) = table_pipes r - {x}" using o(4) by auto
  note c = fq_terminated_cur[OF o(3) x f(1)]
  from sk.rb[OF o(7), of x] obtain s1 where s1: "sock_rollback x s = Inr s1" by blast
  have fr: "out_frame s s1" using sock_rollback_frame[OF out_frame_refl[OF o(1)] s1] by blast
  let ?r = "?r1\<lparr>r_fq := f, current_out := (if current_out ?r1 = Some x then None else current_out ?r1)\<rparr>"
  have "router_pipe_terminated x r s = Inr (?r, s1)"
    using e assms(2) o(5) f(1) s1 has_out_pipe_lookup[of "rid_of s x" r]
    by (auto simp: router_pipe_terminated_def erase_out_pipe_def Let_def erase_key_def)
  moreover have "fq_midway f s1" using out_frame_in(2)[OF fr o(6)] c by (auto simp: fq_midway_def)
  moreover have "table_ok ?r1 s1" using table_keep[OF t(2) out_frame_id[OF fr]] .
  moreover have "table_pipes ?r = table_pipes r - {x}" "\<not> has_out_pipe (rid_of s x) ?r"
    using t(1,3) e(2) by (simp_all add: table_pipes_def has_out_pipe_def)
  moreover have "f_more f \<longrightarrow> current_in r = Some (cur f)" using c assms(1) o(6) by (auto simp: router_ok_def fq_midway_def)
  ultimately show ?thesis using f out_frame_in(3)[OF fr o(1)] o(5)
    by (auto simp: router_ok_def table_ok_def erase_key_def)
qed

section \<open>Properties\<close>

text \<open>
  C21. Routing is exact: a message whose first part is the id of a known peer with room goes, without that part and in one piece, to
  the pipe of that peer and to no other, and is flushed; when the peer is unknown, its pipe closed or full, no
  pipe gets anything and the socket either takes and drops the whole message or, with the mandatory option, refuses the id at once with
  the error that fits.
\<close>
theorem router_routes_exactly:
  assumes "sock_good s" "\<not> more_out r" "current_out r = None" "\<not> raw_socket r" "\<not> opt_raw_socket r" "has_more (Msg m)" "one_message ps"
  shows "routed m ps r s"
  by (rule router_send_routed[OF assms])

text \<open>
  C22. A reply finds its way back: at the beginning of a message the socket hands out the id of the peer whose message comes next, then that
  message, repeated routing ids skipped; and a reply under this id goes to exactly the pipe the message was read
  from, when that pipe has room.  Without a message no active pipe has one.
\<close>
theorem router_reply_returns:
  assumes "router_ok (r, s)" "\<not> prefetched r" "\<not> more_in r" "\<not> more_out r" "current_out r = None" "\<not> raw_socket r" "\<not> opt_raw_socket r"
  shows "\<exists>p r' s'. router_recv r s = Inr (p, r', s') \<and> router_ok (r', s') \<and> (case p of
      None \<Rightarrow> \<forall>x\<in>set (active_pipes (r_fq r)). skipped (sock_avail s x)
    | Some m \<Rightarrow> \<exists>x b pre r2 s2. sock_avail s x = pre @ b # sock_avail s' x \<and> skipped pre \<and> \<not> is_routing_id (Msg b) \<and>
        router_recv r' s' = Inr (Some b, r2, s2) \<and> (\<forall>ps. one_message ps \<and> sock_room s' x \<longrightarrow>
          (\<exists>s3. run_ops router_send_step (m # ps) (r', s') = Inr (map (\<lambda>_. Routed) (m # ps), r', s3) \<and>
             sock_sent s3 = (sock_sent s')(x := sock_sent s' x @ map Msg ps))))"
proof -
  from router_recv_message[OF assms(1-3)] obtain p r' s' where r: "router_recv r s = Inr (p, r', s')" "router_ok (r', s')"
    "r' = r\<lparr>r_fq := r_fq r', prefetched_msg := prefetched_msg r', prefetched := prefetched r', current_in := current_in r', routing_id_sent := routing_id_sent r'\<rparr>"
    and c: "case p of None \<Rightarrow> \<forall>x\<in>set (active_pipes (r_fq r)). skipped (sock_avail s x)
      | Some m \<Rightarrow> \<exists>x e b pre r2 s2. m = id_msg x s \<and> lookup_out_pipe (w_data m) r = Some e \<and> oe_pipe e = x \<and>
        sock_avail s x = pre @ b # sock_avail s' x \<and> skipped pre \<and> \<not> is_routing_id (Msg b) \<and> router_recv r' s' = Inr (Some b, r2, s2)" by blast
  have g: "sock_good s'" using r(2) by (simp add: router_ok_def queues_ok_def)
  have k: "\<not> more_out r'" "current_out r' = None" "\<not> raw_socket r'" "\<not> opt_raw_socket r'" "out_pipes r' = out_pipes r"
    using arg_cong[OF r(3), of more_out] arg_cong[OF r(3), of current_out] arg_cong[OF r(3), of raw_socket] arg_cong[OF r(3), of opt_raw_socket]
      arg_cong[OF r(3), of out_pipes] assms(4-7) by simp_all
  show ?thesis
  proof (cases p)
    case None
    with r c show ?thesis by auto
  next
    case (Some m)
    with c obtain x e b pre r2 s2 where x: "m = id_msg x s" "lookup_out_pipe (w_data m) r = Some e" "oe_pipe e = x"
      "sock_avail s x = pre @ b # sock_avail s' x" "skipped pre" "\<not> is_routing_id (Msg b)" "router_recv r' s' = Inr (Some b, r2, s2)" by auto
    have "\<exists>s3. run_ops router_send_step (m # ps) (r', s') = Inr (map (\<lambda>_. Routed) (m # ps), r', s3) \<and>
        sock_sent s3 = (sock_sent s')(x := sock_sent s' x @ map Msg ps)" if "one_message ps" "sock_room s' x" for ps
    proof -
      have h: "has_more (Msg m)" by (simp add: x(1) id_msg_def has_more_def msg_more_def)
      have "lookup_out_pipe (w_data m) r' = Some e" using x(2) k(5) by (simp add: lookup_out_pipe_def)
      with router_send_routed[OF g k(1-4) h that(1)] x(3) that(2) show ?thesis unfolding routed_def by auto
    qed
    with Some r x show ?thesis by (intro exI[of _ p] exI[of _ r'] exI[of _ s']) auto
  qed
qed

text \<open>
  C30. Identification: a pipe that is attached is entered under the id that it has to get, \<open>expected_id\<close>: the id set
  for the connection, a generated one, or the id that its peer announced.  If another pipe had this id it gets a generated one instead, and only with the handover
  option; every other pipe keeps its id, no pipe is lost, and the table, the
  fair queue and the ids stored in the pipes stay in agreement.  A pipe without an id, because nothing was announced yet or its id is taken,
  is set aside.  This assumes \<open>ids_free\<close>: no pipe has the id that is generated next or the id set for the connection (a peer can break the first:
  \<open>router_generated_id_collides\<close>).
\<close>
theorem router_attach_identifies:
  assumes "router_ok (r, s)" "ids_free loc r" "x \<notin> table_pipes r" "x \<notin> set (anonymous_pipes r)"
  shows "\<exists>r' s'. router_attach_pipe x loc r s = Inr (r', s') \<and> router_ok (r', s') \<and>
    (\<forall>y\<in>table_pipes r. rid_of s' y = (if expected_id x loc r s = Some (rid_of s y) then integral_id (next_integral_routing_id r) else rid_of s y)) \<and>
    (case expected_id x loc r s of
       None \<Rightarrow> table_pipes r' = table_pipes r \<and> set (anonymous_pipes r') = insert x (set (anonymous_pipes r))
     | Some k \<Rightarrow> table_pipes r' = insert x (table_pipes r) \<and> set (anonymous_pipes r') = set (anonymous_pipes r) \<and> rid_of s' x = k \<and>
         map_option oe_pipe (lookup_out_pipe k r') = Some x)"
proof -
  from router_attach_ok[OF assms] obtain ok r' s' where a: "router_attach_pipe x loc r s = Inr (r', s')" "router_ok (r', s')" "identified x loc r s ok r' s'"
    "set (anonymous_pipes r') = (if ok then {} else {x}) \<union> set (anonymous_pipes r)" by blast
  show ?thesis
  proof (cases "expected_id x loc r s")
    case None
    with a show ?thesis by (intro exI[of _ r'] exI[of _ s']) (simp add: identified_def)
  next
    case (Some k)
    with a(3) have i: "ok" "rid_of s' x = k" "table_pipes r' = insert x (table_pipes r)" by (simp_all add: identified_def)
    have "table_ok r' s'" using a(2) by (simp add: router_ok_def)
    from table_lookup[OF this, of x] i have "map_option oe_pipe (lookup_out_pipe k r') = Some x" by auto
    with a i Some show ?thesis by (intro exI[of _ r'] exI[of _ s']) (simp add: identified_def)
  qed
qed

text \<open>
  C34. Handover of a full pipe aborts the process: when the id of the pipe that is being read is taken over, the pipe is entered anew as one
  that takes messages; if it is full, the peer's next report of what it has read notifies the socket, which
  fails its assertion that the pipe was marked as not taking messages.
\<close>
theorem router_handover_aborts:
  assumes "router_ok (r, s)" "lookup_out_pipe k r = Some e" "handover r" "\<not> has_out_pipe (integral_id (next_integral_routing_id r)) r"
    "current_in r = Some (oe_pipe e)" "\<not> out_active (me (ends s (oe_pipe e)))" "state (me (ends s (oe_pipe e))) = Active"
  shows "\<exists>r' s'. displace (oe_pipe e) r s = Inr (r', s') \<and> router_ok (r', s') \<and>
    Write_activated \<in> set (evs (process_activate_write n (ends s' (oe_pipe e)))) \<and> router_write_activated (oe_pipe e) r' = Inl Assertion"
proof -
  let ?y = "oe_pipe e" and ?n = "integral_id (next_integral_routing_id r)"
  from displace_ok[OF assms(1-4)] obtain r' s' where d: "displace ?y r s = Inr (r', s')" "router_ok (r', s')" by blast
  have l: "rid_of s ?y = k" "table_ok r s" using lookup_table(2)[of r s k e] assms(1,2) by (simp_all add: router_ok_def)
  have rest: "oe_pipe e' \<noteq> ?y" if "(k', e') \<in> set (out_pipes r)" "k' \<noteq> k" for k' e'
    using that l by (auto simp: table_ok_def)
  from d(1) assms(5) obtain s1 where s1: "sock_set_id ?y ?n s = Inr s1" "s' = s1"
    "out_pipes r' = (?n, \<lparr>oe_pipe = ?y, oe_active = True\<rparr>) # filter (\<lambda>(k', e). k' \<noteq> k) (out_pipes r)"
    using l(1) by (auto simp: displace_def next_id_def bindE_eq_Inr erase_out_pipe_def add_out_pipe_def erase_key_def Let_def split: if_splits)
  have "out_active (me (ends s' ?y)) = out_active (me (ends s ?y)) \<and> state (me (ends s' ?y)) = state (me (ends s ?y))"
    using s1(1,2) by (auto simp: sock_set_id_def sock_do_def on_end_def set_router_socket_routing_id_def end_defs)
  then have "Write_activated \<in> set (evs (process_activate_write n (ends s' ?y)))"
    using assms(6,7) by (simp add: process_activate_write_def Let_def end_defs)
  moreover have "router_write_activated ?y r' = Inl Assertion" using s1(3) rest by (simp add: router_write_activated_def)
  ultimately show ?thesis using d by blast
qed

text \<open>A peer that calls itself by the id that is generated next makes the next peer without a name abort the process.\<close>

lemma router_generated_id_collides:
  assumes "has_out_pipe (integral_id (next_integral_routing_id r)) r" "connect_routing_id r = []" "\<not> opt_raw_socket r"
    "sock_read x s = Inr (Some m, s1)" "w_data m = []"
  shows "identify_peer x loc r s = Inl Assertion"
  using assms by (simp add: identify_peer_def choose_id_def next_id_def sock_set_id_def sock_do_def on_end_def add_out_pipe_def has_out_pipe_def
      set_router_socket_routing_id_def)

section \<open>Witnesses\<close>

definition sample_rt_env :: sockenv where
  "sample_rt_env = \<lparr>ends = (\<lambda>i. upd_me (\<lambda>p. p\<lparr>router_routing_id := [of_nat i]\<rparr>) (ends sample_env i)), outbox = []\<rparr>"

definition sample_router :: router where
  "sample_router = (router_new 1)\<lparr>r_fq := sample_fq, out_pipes := [([7], \<lparr>oe_pipe = 7, oe_active = True\<rparr>), ([8], \<lparr>oe_pipe = 8, oe_active = True\<rparr>)]\<rparr>"

lemma sample_rt_queues: "queues_ok sample_rt_env"
  using sample_queues by (auto simp: queues_ok_def sock_good_def plain_def end_wf_def sample_rt_env_def end_defs)

lemma sample_router_ok: "router_ok (sample_router, sample_rt_env)"
  using sample_rt_queues sample_fq_ok(1)
  by (auto simp: router_ok_def sample_router_def router_new_def table_ok_def table_pipes_def sample_rt_env_def end_defs sample_fq_def fq_midway_def)

theorem router_routes_exactly_witness:
  "routed \<lparr>w_flags = 1, w_data = [8]\<rparr> [\<lparr>w_flags = 1, w_data = [9]\<rparr>, \<lparr>w_flags = 0, w_data = [10]\<rparr>] sample_router sample_rt_env"
  using sample_rt_queues
  by (intro router_routes_exactly) (simp_all add: queues_ok_def sample_router_def router_new_def has_more_def msg_more_def)

theorem router_reply_returns_witness:
  "\<exists>p r' s'. router_recv sample_router sample_rt_env = Inr (p, r', s') \<and> router_ok (r', s')"
  using router_reply_returns[OF sample_router_ok] by (auto simp: sample_router_def router_new_def)

text \<open>A peer that announces the id of pipe 8 takes it over.\<close>

definition taking_env :: sockenv where
  "taking_env = sample_rt_env\<lparr>ends := (ends sample_rt_env)(9 := (ends sample_rt_env 9)\<lparr>inq := upipe_new\<lparr>ready := [Msg \<lparr>w_flags = 64, w_data = [8]\<rparr>]\<rparr>\<rparr>)\<rparr>"

lemma id_flags [simp]: "\<not> is_credential (Msg \<lparr>w_flags = 64, w_data = d\<rparr>)" "\<not> has_more (Msg \<lparr>w_flags = 64, w_data = d\<rparr>)"
  by (simp_all add: is_credential_def has_more_def msg_more_def)

definition taking_router :: router where
  "taking_router = sample_router\<lparr>handover := True\<rparr>"

theorem router_attach_identifies_witness:
  "\<exists>r' s'. router_attach_pipe 9 False taking_router taking_env = Inr (r', s') \<and> rid_of s' 9 = [8] \<and> rid_of s' 8 = integral_id 1 \<and> rid_of s' 7 = [7]"
proof -
  have ok: "router_ok (taking_router, taking_env)"
    using sample_router_ok by (auto simp: router_ok_def taking_router_def taking_env_def queues_ok_def sock_good_def plain_def end_wf_def end_defs table_ok_def table_pipes_def
      sample_router_def router_new_def sample_fq_def fq_midway_def uq_def upipe_new_def)
  have pre: "ids_free False taking_router" "9 \<notin> table_pipes taking_router" "9 \<notin> set (anonymous_pipes taking_router)"
    by (simp_all add: ids_free_def has_out_pipe_def taking_router_def sample_router_def router_new_def integral_id_def table_pipes_def)
  have av: "sock_avail taking_env 9 = [\<lparr>w_flags = 64, w_data = [8]\<rparr>]"
    by (simp add: sock_avail_def avail_of_def taking_env_def upipe_new_def may_read_def sample_rt_env_def sample_env_def sample_end_def pipe_new_def end_defs)
  have e: "expected_id 9 False taking_router taking_env = Some [8]"
    by (simp add: expected_id_def av) (simp add: taking_router_def sample_router_def router_new_def)
  have t: "table_pipes taking_router = {7, 8}" "next_integral_routing_id taking_router = 1"
    by (simp_all add: taking_router_def sample_router_def router_new_def table_pipes_def)
  have r: "rid_of taking_env 7 = [7]" "rid_of taking_env 8 = [8]"
    by (simp_all add: taking_env_def sample_rt_env_def end_defs)
  from router_attach_identifies[OF ok pre] show ?thesis by (auto simp: e t r)
qed

definition full_rt_env :: sockenv where
  "full_rt_env = sample_rt_env\<lparr>ends := (ends sample_rt_env)(7 := upd_me (\<lambda>p. p\<lparr>out_active := False\<rparr>) (ends sample_rt_env 7))\<rparr>"

definition reading_router :: router where
  "reading_router = sample_router\<lparr>handover := True, current_in := Some 7, more_in := True\<rparr>"

theorem router_handover_aborts_witness:
  "\<exists>r' s'. displace 7 reading_router full_rt_env = Inr (r', s') \<and> router_write_activated 7 r' = Inl Assertion"
proof -
  have "router_ok (reading_router, full_rt_env)" using sample_router_ok
    by (auto simp: router_ok_def reading_router_def full_rt_env_def queues_ok_def sock_good_def plain_def end_wf_def end_defs table_ok_def table_pipes_def
      sample_router_def router_new_def sample_fq_def fq_midway_def)
  moreover have "lookup_out_pipe [7] reading_router = Some \<lparr>oe_pipe = 7, oe_active = True\<rparr>" "handover reading_router"
    "\<not> has_out_pipe (integral_id (next_integral_routing_id reading_router)) reading_router" "current_in reading_router = Some 7"
    "\<not> out_active (me (ends full_rt_env 7))" "state (me (ends full_rt_env 7)) = Active"
    by (simp_all add: lookup_out_pipe_def has_out_pipe_def reading_router_def full_rt_env_def sample_router_def router_new_def integral_id_def
      sample_rt_env_def sample_env_def sample_end_def pipe_new_def end_defs)
  ultimately show ?thesis using router_handover_aborts[of reading_router full_rt_env "[7]" "\<lparr>oe_pipe = 7, oe_active = True\<rparr>" 0] by auto
qed

end
