(* ===== verification/Distributor.thy ===== *)
theory Distributor
  imports Load_Balance
begin

text \<open>
  Distribution of messages to all the matching pipes of a socket: \<^verbatim>\<open>dist.cpp\<close>.  The array is cut into the
  matching, the active, the eligible and the passive pipes.  The pipes are those of the locale \<open>message_sink\<close>.
\<close>

record dist =
  d_pipes :: "pid parray"
  d_matching :: nat
  d_active :: nat
  d_eligible :: nat
  d_more :: bool

definition dist_new :: dist where
  "dist_new = \<lparr>d_pipes = array_new, d_matching = 0, d_active = 0, d_eligible = 0, d_more = False\<rparr>"

definition dist_attach :: "pid \<Rightarrow> dist \<Rightarrow> dist result" where
  "dist_attach x d = (let a = push_back x (d_pipes d) in
     if d_more d
     then bindE (swap (int (d_eligible d)) (int (length (items a) - 1)) a)
       (\<lambda>a1. Inr (d\<lparr>d_pipes := a1, d_eligible := d_eligible d + 1\<rparr>))
     else bindE (swap (int (d_active d)) (int (length (items a) - 1)) a)
       (\<lambda>a1. Inr (d\<lparr>d_pipes := a1, d_active := d_active d + 1, d_eligible := d_eligible d + 1\<rparr>)))"

text \<open>The position of an item as the unsigned number that the code compares.\<close>

definition below :: "int \<Rightarrow> nat \<Rightarrow> bool" where
  "below k n \<longleftrightarrow> 0 \<le> k \<and> k < int n"

definition has_pipe :: "pid \<Rightarrow> dist \<Rightarrow> bool" where
  "has_pipe x d = (let k = index_of x (d_pipes d) in
     below k (length (items (d_pipes d))) \<and> items (d_pipes d) ! nat k = x)"

definition dist_match :: "pid \<Rightarrow> dist \<Rightarrow> dist result" where
  "dist_match x d = (let k = index_of x (d_pipes d) in
     if below k (d_matching d) then Inr d
     else if \<not> below k (d_eligible d) then Inr d
     else bindE (swap k (int (d_matching d)) (d_pipes d))
       (\<lambda>a1. Inr (d\<lparr>d_pipes := a1, d_matching := d_matching d + 1\<rparr>)))"

definition unmatch :: "dist \<Rightarrow> dist" where
  "unmatch d = d\<lparr>d_matching := 0\<rparr>"

function reverse_loop :: "nat \<Rightarrow> dist \<Rightarrow> dist result" where
  "reverse_loop i d =
     (if i < d_eligible d
      then bindE (swap (int i) (int (d_matching d)) (d_pipes d))
        (\<lambda>a1. reverse_loop (i + 1) (d\<lparr>d_pipes := a1, d_matching := d_matching d + 1\<rparr>))
      else Inr d)"
  by pat_completeness auto
termination
  by (relation "measure (\<lambda>(i, d). d_eligible d - i)") auto

declare reverse_loop.simps [simp del]

definition reverse_match :: "dist \<Rightarrow> dist result" where
  "reverse_match d = reverse_loop (d_matching d) (unmatch d)"

text \<open>An item before position \<open>n\<close> moves to the end of the segment, which ends before it.\<close>

definition cut :: "pid \<Rightarrow> nat \<Rightarrow> pid parray \<Rightarrow> (pid parray \<times> nat) result" where
  "cut x n a = (if below (index_of x a) n
     then bindE (swap (index_of x a) (int (n - 1)) a) (\<lambda>a1. Inr (a1, n - 1))
     else Inr (a, n))"

definition dist_pipe_terminated :: "pid \<Rightarrow> dist \<Rightarrow> dist result" where
  "dist_pipe_terminated x d =
     bindE (cut x (d_matching d) (d_pipes d)) (\<lambda>(a1, mt).
     bindE (cut x (d_active d) a1) (\<lambda>(a2, ac).
     bindE (cut x (d_eligible d) a2) (\<lambda>(a3, el).
     bindE (erase x a3) (\<lambda>a4. Inr (d\<lparr>d_pipes := a4, d_matching := mt, d_active := ac, d_eligible := el\<rparr>)))))"

definition dist_activated :: "pid \<Rightarrow> dist \<Rightarrow> dist result" where
  "dist_activated x d =
     bindE (if d_eligible d < length (items (d_pipes d))
            then bindE (swap (index_of x (d_pipes d)) (int (d_eligible d)) (d_pipes d))
              (\<lambda>a1. Inr (d\<lparr>d_pipes := a1, d_eligible := d_eligible d + 1\<rparr>))
            else Inr d) (\<lambda>d1.
     if \<not> d_more d1 \<and> d_active d1 < length (items (d_pipes d1))
     then bindE (swap (int (d_eligible d1) - 1) (int (d_active d1)) (d_pipes d1))
       (\<lambda>a1. Inr (d1\<lparr>d_pipes := a1, d_active := d_active d1 + 1\<rparr>))
     else Inr d1)"

text \<open>A pipe that does not take the message leaves the three segments.\<close>

definition set_passive :: "pid \<Rightarrow> dist \<Rightarrow> dist result" where
  "set_passive x d =
     bindE (swap (index_of x (d_pipes d)) (int (d_matching d) - 1) (d_pipes d)) (\<lambda>a1.
     bindE (swap (index_of x a1) (int (d_active d) - 1) a1) (\<lambda>a2.
     bindE (swap (int (d_active d) - 1) (int (d_eligible d) - 1) a2) (\<lambda>a3.
       Inr (d\<lparr>d_pipes := a3, d_matching := d_matching d - 1, d_active := d_active d - 1, d_eligible := d_eligible d - 1\<rparr>))))"

definition dist_write :: "(pid \<Rightarrow> wmsg \<Rightarrow> 's \<Rightarrow> (bool \<times> 's) result) \<Rightarrow> (pid \<Rightarrow> 's \<Rightarrow> 's result) \<Rightarrow> pid \<Rightarrow> wmsg \<Rightarrow> dist \<Rightarrow> 's \<Rightarrow>
    (bool \<times> dist \<times> 's) result" where
  "dist_write wr fl x m d s = bindE (wr x m s) (\<lambda>(b, s1).
     if \<not> b then bindE (set_passive x d) (\<lambda>d1. Inr (False, d1, s1))
     else if \<not> has_more (Msg m) then bindE (fl x s1) (\<lambda>s2. Inr (True, d, s2))
     else Inr (True, d, s1))"

lemma set_passive_matching: "set_passive x d = Inr d' \<Longrightarrow> d_matching d' = d_matching d - 1"
  by (auto simp: set_passive_def bindE_eq_Inr)

lemma dist_write_matching: "dist_write wr fl x m d s = Inr (b, d', s') \<Longrightarrow> d_matching d' = (if b then d_matching d else d_matching d - 1)"
  by (auto simp: dist_write_def bindE_eq_Inr split: if_splits dest: set_passive_matching)

function distribute_loop :: "(pid \<Rightarrow> wmsg \<Rightarrow> 's \<Rightarrow> (bool \<times> 's) result) \<Rightarrow> (pid \<Rightarrow> 's \<Rightarrow> 's result) \<Rightarrow> nat \<Rightarrow> wmsg \<Rightarrow> dist \<Rightarrow> 's \<Rightarrow>
    (dist \<times> 's) result" where
  "distribute_loop wr fl i m d s =
     (if i < d_matching d
      then bindE (a_at i (d_pipes d)) (\<lambda>x. bindE (dist_write wr fl x m d s) (\<lambda>(b, d1, s1).
        distribute_loop wr fl (if b then i + 1 else i) m d1 s1))
      else Inr (d, s))"
  by pat_completeness auto
termination
  by (relation "measure (\<lambda>(wr, fl, i, m, d, s). d_matching d - i)") (auto dest!: dist_write_matching split: if_splits)

declare distribute_loop.simps [simp del]

text \<open>
  Both loops of the code (for small messages, and for messages with a shared buffer, whose reference count
  only changes) write the message to the same pipes.
\<close>

definition distribute :: "(pid \<Rightarrow> wmsg \<Rightarrow> 's \<Rightarrow> (bool \<times> 's) result) \<Rightarrow> (pid \<Rightarrow> 's \<Rightarrow> 's result) \<Rightarrow> wmsg \<Rightarrow> dist \<Rightarrow> 's \<Rightarrow>
    (dist \<times> 's) result" where
  "distribute wr fl m d s = (if d_matching d = 0 then Inr (d, s) else distribute_loop wr fl 0 m d s)"

definition send_to_matching :: "(pid \<Rightarrow> wmsg \<Rightarrow> 's \<Rightarrow> (bool \<times> 's) result) \<Rightarrow> (pid \<Rightarrow> 's \<Rightarrow> 's result) \<Rightarrow> wmsg \<Rightarrow> dist \<Rightarrow> 's \<Rightarrow>
    (dist \<times> 's) result" where
  "send_to_matching wr fl m d s = bindE (distribute wr fl m d s) (\<lambda>(d1, s1).
     let more = has_more (Msg m); d2 = (if more then d1 else d1\<lparr>d_active := d_eligible d1\<rparr>)
     in Inr (d2\<lparr>d_more := more\<rparr>, s1))"

definition send_to_all :: "(pid \<Rightarrow> wmsg \<Rightarrow> 's \<Rightarrow> (bool \<times> 's) result) \<Rightarrow> (pid \<Rightarrow> 's \<Rightarrow> 's result) \<Rightarrow> wmsg \<Rightarrow> dist \<Rightarrow> 's \<Rightarrow>
    (dist \<times> 's) result" where
  "send_to_all wr fl m d s = send_to_matching wr fl m (d\<lparr>d_matching := d_active d\<rparr>) s"

definition dist_has_out :: "dist \<Rightarrow> bool" where
  "dist_has_out d = True"

definition dist_check_hwm :: "(pid \<Rightarrow> 's \<Rightarrow> bool) \<Rightarrow> dist \<Rightarrow> 's \<Rightarrow> bool" where
  "dist_check_hwm hw d s = list_all (\<lambda>x. hw x s) (take (d_matching d) (items (d_pipes d)))"

section \<open>Invariant\<close>

definition dist_ok :: "dist \<Rightarrow> bool" where
  "dist_ok d \<longleftrightarrow> arr_ok (d_pipes d) \<and> d_matching d \<le> d_active d \<and> d_active d \<le> d_eligible d \<and>
     d_eligible d \<le> length (items (d_pipes d)) \<and> (\<not> d_more d \<longrightarrow> d_active d = d_eligible d)"

definition matching_set :: "dist \<Rightarrow> pid set" where
  "matching_set d = set (take (d_matching d) (items (d_pipes d)))"

definition active_set :: "dist \<Rightarrow> pid set" where
  "active_set d = set (take (d_active d) (items (d_pipes d)))"

definition eligible_set :: "dist \<Rightarrow> pid set" where
  "eligible_set d = set (take (d_eligible d) (items (d_pipes d)))"

definition all_set :: "dist \<Rightarrow> pid set" where
  "all_set d = set (items (d_pipes d))"

lemmas dist_sets = matching_set_def active_set_def eligible_set_def all_set_def

lemma dist_ok_new: "dist_ok dist_new"
  using arr_ok_new by (simp add: dist_ok_def dist_new_def)

lemma take_swap_high: "n \<le> i \<Longrightarrow> n \<le> j \<Longrightarrow> i < length xs \<Longrightarrow> j < length xs \<Longrightarrow> take n (swap_list i j xs) = take n xs"
  by (intro nth_equalityI) (auto simp: swap_list_nth)

lemma set_swap_last:
  assumes "distinct xs" "k < n" "n \<le> length xs"
  shows "set (take (n - 1) (swap_list k (n - 1) xs)) = set (take n xs) - {xs ! k}"
proof -
  let ?ys = "swap_list k (n - 1) xs"
  have "set (take n ?ys) = set (take n xs)" "distinct ?ys" "n - 1 < length ?ys" "Suc (n - 1) = n" "?ys ! (n - 1) = xs ! k"
    using assms by (simp_all add: set_take_swap swap_list_nth)
  then show ?thesis using set_take_minus[of ?ys "n - 1"] by simp
qed

lemma cut_ok:
  assumes "arr_ok a" "x \<in> set (items a)" "n \<le> length (items a)"
  shows "\<exists>a' n'. cut x n a = Inr (a', n') \<and> arr_ok a' \<and> n' \<le> n \<and> set (take n' (items a')) = set (take n (items a)) - {x} \<and>
    (n' < n \<longleftrightarrow> x \<in> set (take n (items a))) \<and> (n' < n \<longrightarrow> index_of x a' = int n') \<and> n \<le> Suc n' \<and> length (items a') = length (items a) \<and>
    (\<forall>p \<le> n. x \<notin> set (take p (items a)) \<longrightarrow> p \<le> n' \<and> take p (items a') = take p (items a)) \<and>
    (\<forall>p \<ge> n. p \<le> length (items a) \<longrightarrow> set (take p (items a')) = set (take p (items a)))"
proof -
  let ?xs = "items a"
  from index_of_mem[OF assms(1,2)] obtain k where k: "k < length ?xs" "?xs ! k = x" "index_of x a = int k" by blast
  have d: "distinct ?xs" using assms(1) by (simp add: arr_ok_def)
  show ?thesis
  proof (cases "k < n")
    case True
    then have b: "n - 1 < length ?xs" using assms(3) by simp
    from swap_ok[OF assms(1) k(1) b] obtain a' where a': "swap (int k) (int (n - 1)) a = Inr a'" "arr_ok a'" "items a' = swap_list k (n - 1) ?xs" by blast
    have "cut x n a = Inr (a', n - 1)" using k True a'(1) by (simp add: cut_def below_def)
    moreover have "set (take (n - 1) (items a')) = set (take n ?xs) - {x}" using set_swap_last[OF d True assms(3)] k a'(3) by simp
    moreover have "x \<in> set (take n ?xs)" using mem_take_nth[OF True assms(3)] k by simp
    moreover have "p \<le> n - 1 \<and> take p (items a') = take p ?xs" if "p \<le> n" "x \<notin> set (take p ?xs)" for p
    proof -
      have "p \<le> k" using that(2) mem_take_nth[of k p ?xs] k that(1) assms(3) by fastforce
      then show ?thesis unfolding a'(3) using take_swap_high[of p k "n - 1" ?xs] k b True by simp
    qed
    moreover have "set (take p (items a')) = set (take p ?xs)" if "p \<ge> n" "p \<le> length ?xs" for p
      unfolding a'(3) using that True by (intro set_take_swap) auto
    moreover have l: "length (items a') = length ?xs" using a'(3) by simp
    moreover have "index_of x a' = int (n - 1)"
      using index_of_nth[OF a'(2), of "n - 1"] k(1,2) b l unfolding a'(3) by (simp add: swap_list_nth)
    ultimately show ?thesis using a'(2) True by (intro exI[of _ a'] exI[of _ "n - 1"]) simp
  next
    case False
    then have "x \<notin> set (take n ?xs)" using k d assms(3) by (auto simp: in_set_conv_nth nth_eq_iff_index_eq)
    moreover have "cut x n a = Inr (a, n)" using k False by (simp add: cut_def below_def)
    ultimately show ?thesis using assms by auto
  qed
qed

lemma dist_attach_ok:
  assumes "dist_ok d" "x \<notin> all_set d"
  shows "\<exists>d'. dist_attach x d = Inr d' \<and> dist_ok d' \<and> matching_set d' = matching_set d \<and> all_set d' = insert x (all_set d) \<and>
    active_set d' = (if d_more d then active_set d else insert x (active_set d)) \<and> eligible_set d' = insert x (eligible_set d)"
proof -
  let ?xs = "items (d_pipes d)"
  define n where "n = (if d_more d then d_eligible d else d_active d)"
  have o: "arr_ok (d_pipes d)" "x \<notin> set ?xs" "n \<le> length ?xs" "d_matching d \<le> n" "d_eligible d = n" "d_active d \<le> n" "\<not> d_more d \<longrightarrow> d_active d = n"
    "d_matching d \<le> d_active d"
    using assms by (auto simp: dist_ok_def all_set_def n_def)
  from push_swap_ok[OF o(1-3)] obtain a where a: "swap (int n) (int (length ?xs)) (push_back x (d_pipes d)) = Inr a"
    "arr_ok a" "items a = swap_list n (length ?xs) (?xs @ [x])" by blast
  have t: "take (Suc n) (items a) = take n ?xs @ [x]"
    using o(3) unfolding a(3) by (intro nth_equalityI) (auto simp: swap_list_nth nth_append)
  have lo: "take p (items a) = take p ?xs" if "p \<le> n" for p
    using arg_cong[OF t, of "take p"] that o(3) by simp
  have "length (items (push_back x (d_pipes d))) - 1 = length ?xs" by (simp add: push_back_def)
  then have "dist_attach x d = Inr (d\<lparr>d_pipes := a, d_active := (if d_more d then d_active d else n + 1), d_eligible := n + 1\<rparr>)"
    using a(1) o by (auto simp: dist_attach_def Let_def n_def)
  moreover have "length (items a) = Suc (length ?xs)" "set (items a) = insert x (set ?xs)" using a(3) o(3) by simp_all
  ultimately show ?thesis using a(2) o t lo by (auto simp: dist_ok_def dist_sets)
qed


lemma dist_match_ok:
  assumes "dist_ok d" "x \<in> all_set d" "\<not> d_more d"
  shows "\<exists>d'. dist_match x d = Inr d' \<and> dist_ok d' \<and> \<not> d_more d' \<and> active_set d' = active_set d \<and> eligible_set d' = eligible_set d \<and>
    all_set d' = all_set d \<and> matching_set d' = (if x \<in> eligible_set d then insert x (matching_set d) else matching_set d)"
proof -
  let ?xs = "items (d_pipes d)" and ?m = "d_matching d"
  have o: "arr_ok (d_pipes d)" "distinct ?xs" "?m \<le> d_active d" "d_active d = d_eligible d" "d_eligible d \<le> length ?xs"
    using assms by (auto simp: dist_ok_def arr_ok_def)
  from index_of_mem[OF o(1), of x] assms(2) obtain k where k: "k < length ?xs" "?xs ! k = x" "index_of x (d_pipes d) = int k"
    by (auto simp: all_set_def)
  have e: "x \<in> set (take p ?xs) \<longleftrightarrow> k < p" if "p \<le> length ?xs" for p
    using k o(2) that mem_take_nth[of k p ?xs] by (auto simp: in_set_conv_nth nth_eq_iff_index_eq)
  consider "k < ?m" | "\<not> k < d_eligible d" | "?m \<le> k" "k < d_eligible d" by linarith
  then show ?thesis
  proof cases
    case 3
    then have m: "?m < length ?xs" using o by simp
    from swap_ok[OF o(1) k(1) m] obtain a where a: "swap (int k) (int ?m) (d_pipes d) = Inr a" "arr_ok a" "items a = swap_list k ?m ?xs" by blast
    have "take (Suc ?m) (items a) = take ?m ?xs @ [x]"
      using m k 3 unfolding a(3) by (intro nth_equalityI) (auto simp: swap_list_nth nth_append)
    moreover have "set (take (d_eligible d) (items a)) = set (take (d_eligible d) ?xs)"
      unfolding a(3) using 3 o by (intro set_take_swap) auto
    moreover have "dist_match x d = Inr (d\<lparr>d_pipes := a, d_matching := ?m + 1\<rparr>)"
      using a(1) k(3) 3 by (simp add: dist_match_def below_def)
    moreover have "x \<in> set (take (d_eligible d) ?xs)" using e[OF o(5)] 3 by simp
    ultimately show ?thesis using a(2,3) o k(1) m 3 assms(3) by (auto simp: dist_ok_def dist_sets)
  next
    case 1
    then have "dist_match x d = Inr d" using k(3) by (simp add: dist_match_def below_def)
    moreover have "x \<in> matching_set d" using e[of ?m] 1 o by (simp add: matching_set_def)
    ultimately show ?thesis using assms by (auto simp: insert_absorb)
  next
    case 2
    then have "dist_match x d = Inr d" using k(3) o by (simp add: dist_match_def below_def)
    moreover have "x \<notin> eligible_set d" using e[OF o(5)] 2 by (simp add: eligible_set_def)
    ultimately show ?thesis using assms by auto
  qed
qed

lemma unmatch_ok: "dist_ok d \<Longrightarrow> dist_ok (unmatch d) \<and> matching_set (unmatch d) = {}"
  by (auto simp: dist_ok_def unmatch_def matching_set_def)

lemma cutD: "cut x n a = Inr (a', n') \<Longrightarrow> n' < n \<Longrightarrow> swap (index_of x a) (int n - 1) a = Inr a' \<and> n' = n - 1"
  by (auto simp: cut_def below_def bindE_eq_Inr of_nat_diff split: if_splits)

lemma erase_after:
  assumes "arr_ok a" "x \<in> set (items a)" "x \<notin> set (take n (items a))" "n \<le> length (items a)"
  shows "\<exists>a'. erase x a = Inr a' \<and> arr_ok a' \<and> set (items a') = set (items a) - {x} \<and> n \<le> length (items a') \<and>
    (\<forall>p \<le> n. take p (items a') = take p (items a))"
proof -
  from index_of_mem[OF assms(1,2)] obtain k where k: "k < length (items a)" "items a ! k = x" by blast
  have nk: "n \<le> k" using assms(3,4) mem_take_nth[of k n "items a"] k by fastforce
  from erase_ok[OF assms(1) k] obtain e where e: "erase x a = Inr e" "arr_ok e" "items e = butlast ((items a)[k := last (items a)])" by blast
  have "take p (items e) = take p (items a)" if "p \<le> n" for p
    unfolding e(3) using take_erase[of p k "items a"] nk k(1) that by simp
  moreover have "set (items e) = set (items a) - {x}" using set_erase[of "items a" k] assms(1) k e(3) by (simp add: arr_ok_def)
  ultimately show ?thesis using e nk k(1) by auto
qed

text \<open>Cutting an item off the three segments, one after the other.\<close>

lemma cuts_ok:
  assumes "dist_ok d" "x \<in> all_set d"
  obtains a mt b ac c el where "cut x (d_matching d) (d_pipes d) = Inr (a, mt)" "cut x (d_active d) a = Inr (b, ac)"
    "cut x (d_eligible d) b = Inr (c, el)" "dist_ok (d\<lparr>d_pipes := c, d_matching := mt, d_active := ac, d_eligible := el\<rparr>)"
    "set (take mt (items c)) = matching_set d - {x}" "set (take ac (items c)) = active_set d - {x}"
    "set (take el (items c)) = eligible_set d - {x}" "set (items c) = all_set d"
    "\<And>p. p \<le> d_matching d \<Longrightarrow> x \<notin> set (take p (items (d_pipes d))) \<Longrightarrow> take p (items c) = take p (items (d_pipes d))"
    "x \<in> matching_set d \<Longrightarrow> mt < d_matching d \<and> ac < d_active d \<and> el < d_eligible d \<and> index_of x b = int ac"
proof -
  let ?xs = "items (d_pipes d)"
  have o: "arr_ok (d_pipes d)" "x \<in> set ?xs" "d_matching d \<le> d_active d" "d_active d \<le> d_eligible d" "d_eligible d \<le> length ?xs"
    "d_matching d \<le> length ?xs" "d_active d \<le> length ?xs"
    using assms by (auto simp: dist_ok_def all_set_def)
  from cut_ok[OF o(1,2,6)] obtain a mt where a: "cut x (d_matching d) (d_pipes d) = Inr (a, mt)" "arr_ok a" "mt \<le> d_matching d"
    "set (take mt (items a)) = matching_set d - {x}" "length (items a) = length ?xs" "mt < d_matching d \<longleftrightarrow> x \<in> matching_set d"
    "\<And>p. p \<le> d_matching d \<Longrightarrow> x \<notin> set (take p ?xs) \<Longrightarrow> take p (items a) = take p ?xs"
    "\<And>p. p \<ge> d_matching d \<Longrightarrow> p \<le> length ?xs \<Longrightarrow> set (take p (items a)) = set (take p ?xs)" unfolding matching_set_def by blast
  have sa: "set (take (d_active d) (items a)) = active_set d" "set (take (d_eligible d) (items a)) = eligible_set d" "set (items a) = all_set d"
    using a(5) a(8)[of "d_active d"] a(8)[of "d_eligible d"] a(8)[of "length ?xs"] o by (simp_all add: dist_sets)
  have la: "x \<in> set (items a)" "d_active d \<le> length (items a)" using o a(5) sa assms(2) by simp_all
  from cut_ok[OF a(2) la] obtain b ac where b: "cut x (d_active d) a = Inr (b, ac)" "arr_ok b" "ac \<le> d_active d"
    "set (take ac (items b)) = active_set d - {x}" "length (items b) = length ?xs"
    "ac < d_active d \<longleftrightarrow> x \<in> active_set d" "d_active d \<le> Suc ac" "ac < d_active d \<longrightarrow> index_of x b = int ac"
    "\<And>p. p \<le> d_active d \<Longrightarrow> x \<notin> set (take p (items a)) \<Longrightarrow> p \<le> ac \<and> take p (items b) = take p (items a)"
    "\<And>p. p \<ge> d_active d \<Longrightarrow> p \<le> length ?xs \<Longrightarrow> set (take p (items b)) = set (take p (items a))"
    unfolding sa(1) a(5) by blast
  have sb: "set (take (d_eligible d) (items b)) = eligible_set d" "set (items b) = all_set d"
    using b(5) b(10)[of "d_eligible d"] b(10)[of "length ?xs"] sa a(5) o by simp_all
  have lb: "x \<in> set (items b)" "d_eligible d \<le> length (items b)" using o b(5) sb assms(2) by simp_all
  from cut_ok[OF b(2) lb] obtain c el where c: "cut x (d_eligible d) b = Inr (c, el)" "arr_ok c" "el \<le> d_eligible d"
    "set (take el (items c)) = eligible_set d - {x}" "length (items c) = length ?xs"
    "el < d_eligible d \<longleftrightarrow> x \<in> eligible_set d" "d_eligible d \<le> Suc el"
    "\<And>p. p \<le> d_eligible d \<Longrightarrow> x \<notin> set (take p (items b)) \<Longrightarrow> p \<le> el \<and> take p (items c) = take p (items b)"
    "\<And>p. p \<ge> d_eligible d \<Longrightarrow> p \<le> length ?xs \<Longrightarrow> set (take p (items c)) = set (take p (items b))"
    unfolding sb(1) b(5) by blast
  have sc: "set (items c) = all_set d" using c(5) c(9)[of "length ?xs"] sb b(5) o by simp
  have sub: "matching_set d \<subseteq> active_set d" "active_set d \<subseteq> eligible_set d" using o by (simp_all add: dist_sets set_take_subset_set_take)
  have keep: "take p (items c) = take p (items a)" if "p \<le> d_matching d" "x \<notin> set (take p (items a))" for p
    using b(9)[of p] c(8)[of p] that o by simp
  have mt: "take mt (items c) = take mt (items a)" using keep[of mt] a(3,4) by simp
  have ac: "ac \<le> el" "take ac (items c) = take ac (items b)" using c(8)[of ac] b(3,4) o by simp_all
  have ma: "mt \<le> ac" using b(9)[of mt] a(3,4) o(3) by simp
  have eq: "ac = el" if "\<not> d_more d"
  proof -
    have e: "d_active d = d_eligible d" using that assms(1) by (simp add: dist_ok_def)
    then have "active_set d = eligible_set d" by (simp add: dist_sets)
    with e b(3,6,7) c(3,6,7) show ?thesis by auto
  qed
  show thesis
  proof (rule that[OF a(1) b(1) c(1)])
    show "dist_ok (d\<lparr>d_pipes := c, d_matching := mt, d_active := ac, d_eligible := el\<rparr>)"
      using c(2,3,5) ma ac(1) eq o by (simp add: dist_ok_def)
    show "x \<in> matching_set d \<Longrightarrow> mt < d_matching d \<and> ac < d_active d \<and> el < d_eligible d \<and> index_of x b = int ac"
      using a(6) b(6,8) c(6) sub by blast
    show "take p (items c) = take p ?xs" if "p \<le> d_matching d" "x \<notin> set (take p ?xs)" for p
      using a(7)[OF that] keep[of p] that by simp
  qed (use mt a(4) ac(2) b(4) c(4) sc in simp_all)
qed

lemma dist_terminated_ok:
  assumes "dist_ok d" "x \<in> all_set d"
  shows "\<exists>d'. dist_pipe_terminated x d = Inr d' \<and> dist_ok d' \<and> d_more d' = d_more d \<and> all_set d' = all_set d - {x} \<and>
    matching_set d' = matching_set d - {x} \<and> active_set d' = active_set d - {x} \<and> eligible_set d' = eligible_set d - {x}"
proof -
  obtain a mt b ac c el where c: "cut x (d_matching d) (d_pipes d) = Inr (a, mt)" "cut x (d_active d) a = Inr (b, ac)"
    "cut x (d_eligible d) b = Inr (c, el)" "dist_ok (d\<lparr>d_pipes := c, d_matching := mt, d_active := ac, d_eligible := el\<rparr>)"
    "set (take mt (items c)) = matching_set d - {x}" "set (take ac (items c)) = active_set d - {x}"
    "set (take el (items c)) = eligible_set d - {x}" "set (items c) = all_set d"
    "\<And>p. p \<le> d_matching d \<Longrightarrow> x \<notin> set (take p (items (d_pipes d))) \<Longrightarrow> take p (items c) = take p (items (d_pipes d))"
    "x \<in> matching_set d \<Longrightarrow> mt < d_matching d \<and> ac < d_active d \<and> el < d_eligible d \<and> index_of x b = int ac"
    by (rule cuts_ok[OF assms]) (rule that)
  have "arr_ok c" "x \<in> set (items c)" "x \<notin> set (take el (items c))" "el \<le> length (items c)" "mt \<le> el" "ac \<le> el"
    using c(4,7,8) assms(2) by (auto simp: dist_ok_def)
  with erase_after[of c x el] obtain e where e: "erase x c = Inr e" "arr_ok e" "set (items e) = set (items c) - {x}" "el \<le> length (items e)"
    "\<And>p. p \<le> el \<Longrightarrow> take p (items e) = take p (items c)" and le: "mt \<le> el" "ac \<le> el" by blast
  show ?thesis using c e(1-4) e(5)[OF le(1)] e(5)[OF le(2)] e(5)[of el] assms(2)
    by (simp add: dist_pipe_terminated_def dist_ok_def dist_sets)
qed

lemma set_drop_take:
  assumes "distinct xs" "i \<le> m"
  shows "set (drop i (take m xs)) = set (take m xs) - set (take i xs)"
proof -
  have e: "take i xs @ drop i (take m xs) = take m xs" by (metis append_take_drop_id assms(2) min.absorb1 take_take)
  then have "set (take m xs) = set (take i xs) \<union> set (drop i (take m xs))" by (metis set_append)
  moreover have "set (take i xs) \<inter> set (drop i (take m xs)) = {}" using e assms(1) by (metis distinct_append distinct_take)
  ultimately show ?thesis by blast
qed

lemma set_passive_ok:
  assumes "dist_ok d" "i < d_matching d" "items (d_pipes d) ! i = x"
  shows "\<exists>d'. set_passive x d = Inr d' \<and> dist_ok d' \<and> d_more d' = d_more d \<and> all_set d' = all_set d \<and>
    d_matching d' = d_matching d - 1 \<and> matching_set d' = matching_set d - {x} \<and> active_set d' = active_set d - {x} \<and>
    eligible_set d' = eligible_set d - {x} \<and> take i (items (d_pipes d')) = take i (items (d_pipes d))"
proof -
  have o: "d_matching d \<le> length (items (d_pipes d))" "distinct (items (d_pipes d))" using assms(1) by (auto simp: dist_ok_def arr_ok_def)
  have x: "x \<in> matching_set d" using mem_take_nth[OF assms(2) o(1)] assms(3) by (simp add: matching_set_def)
  then have "x \<in> all_set d" by (auto simp: dist_sets dest: in_set_takeD)
  then obtain a mt b ac c el where c: "cut x (d_matching d) (d_pipes d) = Inr (a, mt)" "cut x (d_active d) a = Inr (b, ac)"
    "cut x (d_eligible d) b = Inr (c, el)" "dist_ok (d\<lparr>d_pipes := c, d_matching := mt, d_active := ac, d_eligible := el\<rparr>)"
    "set (take mt (items c)) = matching_set d - {x}" "set (take ac (items c)) = active_set d - {x}"
    "set (take el (items c)) = eligible_set d - {x}" "set (items c) = all_set d"
    "\<And>p. p \<le> d_matching d \<Longrightarrow> x \<notin> set (take p (items (d_pipes d))) \<Longrightarrow> take p (items c) = take p (items (d_pipes d))"
    "x \<in> matching_set d \<Longrightarrow> mt < d_matching d \<and> ac < d_active d \<and> el < d_eligible d \<and> index_of x b = int ac"
    by (rule cuts_ok[OF assms(1)]) (rule that)
  have s: "swap (index_of x (d_pipes d)) (int (d_matching d) - 1) (d_pipes d) = Inr a" "mt = d_matching d - 1"
    "swap (index_of x a) (int (d_active d) - 1) a = Inr b" "ac = d_active d - 1"
    "swap (int (d_active d) - 1) (int (d_eligible d) - 1) b = Inr c" "el = d_eligible d - 1"
    using cutD[OF c(1)] cutD[OF c(2)] cutD[OF c(3)] c(10)[OF x] by auto
  have "x \<notin> set (take i (items (d_pipes d)))"
    using assms(2,3) o by (auto simp: in_set_conv_nth nth_eq_iff_index_eq)
  then have "take i (items c) = take i (items (d_pipes d))" using c(9)[of i] assms(2) by simp
  moreover have "set_passive x d = Inr (d\<lparr>d_pipes := c, d_matching := mt, d_active := ac, d_eligible := el\<rparr>)"
    unfolding set_passive_def s(1) using s(2-6) by simp
  ultimately show ?thesis using c(4-8) s(2) by (simp add: dist_sets)
qed

lemma dist_activated_ok:
  assumes "dist_ok d" "x \<in> all_set d - eligible_set d"
  shows "\<exists>d'. dist_activated x d = Inr d' \<and> dist_ok d' \<and> d_more d' = d_more d \<and> matching_set d' = matching_set d \<and> all_set d' = all_set d \<and>
    active_set d' = (if d_more d then active_set d else insert x (active_set d)) \<and> eligible_set d' = insert x (eligible_set d)"
proof -
  let ?xs = "items (d_pipes d)" and ?e = "d_eligible d"
  have o: "arr_ok (d_pipes d)" "d_matching d \<le> d_active d" "d_active d \<le> ?e" "?e \<le> length ?xs" "\<not> d_more d \<longrightarrow> d_active d = ?e"
    using assms(1) by (auto simp: dist_ok_def)
  from index_of_mem[OF o(1), of x] assms(2) obtain k where k: "k < length ?xs" "?xs ! k = x" "index_of x (d_pipes d) = int k"
    by (auto simp: all_set_def)
  have "\<not> k < ?e" using assms(2) mem_take_nth[of k ?e ?xs] k o(4) by (auto simp: eligible_set_def)
  then have e: "?e \<le> k" "?e < length ?xs" using k by auto
  from swap_ok[OF o(1) k(1) e(2)] obtain a where a: "swap (int k) (int ?e) (d_pipes d) = Inr a" "arr_ok a" "items a = swap_list k ?e ?xs" by blast
  have t: "take (Suc ?e) (items a) = take ?e ?xs @ [x]"
    using e k unfolding a(3) by (intro nth_equalityI) (auto simp: swap_list_nth nth_append)
  have lo: "take p (items a) = take p ?xs" if "p \<le> ?e" for p
    using arg_cong[OF t, of "take p"] that o(4) by simp
  have s: "swap (int ?e) (int ?e) a = Inr a" using swap_self[OF a(2), of ?e] e a(3) by simp
  have "dist_activated x d = Inr (d\<lparr>d_pipes := a, d_active := (if d_more d then d_active d else ?e + 1), d_eligible := ?e + 1\<rparr>)"
    using a(1,3) e k(3) s o(5) by (auto simp: dist_activated_def)
  moreover have "length (items a) = length ?xs" "set (items a) = set ?xs" using a(3) e k by simp_all
  ultimately show ?thesis using a(2) o t lo e(2) by (auto simp: dist_ok_def dist_sets)
qed

lemma reverse_loop_ok:
  assumes "arr_ok (d_pipes d)" "d_matching d \<le> i" "i \<le> d_eligible d" "d_eligible d \<le> length (items (d_pipes d))"
  shows "\<exists>a. reverse_loop i d = Inr (d\<lparr>d_pipes := a, d_matching := d_matching d + (d_eligible d - i)\<rparr>) \<and> arr_ok a \<and>
    length (items a) = length (items (d_pipes d)) \<and>
    (\<forall>p \<ge> d_eligible d. p \<le> length (items a) \<longrightarrow> set (take p (items a)) = set (take p (items (d_pipes d)))) \<and>
    set (take (d_matching d + (d_eligible d - i)) (items a)) =
      set (take (d_matching d) (items (d_pipes d))) \<union> set (drop i (take (d_eligible d) (items (d_pipes d))))"
  using assms
proof (induction "d_eligible d - i" arbitrary: i d)
  case 0
  then have "reverse_loop i d = Inr d" by (simp add: reverse_loop.simps[of i d])
  with 0 show ?case by (intro exI[of _ "d_pipes d"]) auto
next
  case (Suc n)
  let ?xs = "items (d_pipes d)" and ?j = "d_matching d" and ?e = "d_eligible d"
  have b: "i < length ?xs" "?j < length ?xs" "i < ?e" using Suc by linarith+
  from swap_ok[OF Suc.prems(1) b(1,2)] obtain a where a: "swap (int i) (int ?j) (d_pipes d) = Inr a" "arr_ok a" "items a = swap_list i ?j ?xs" by blast
  let ?d = "d\<lparr>d_pipes := a, d_matching := ?j + 1\<rparr>"
  have r: "reverse_loop i d = reverse_loop (i + 1) ?d" using b a(1) by (simp add: reverse_loop.simps[of i d])
  have t: "take (?j + 1) (items a) = take ?j ?xs @ [?xs ! i]"
    using b Suc.prems unfolding a(3) by (intro nth_equalityI) (auto simp: swap_list_nth nth_append)
  have dr: "drop i (take ?e ?xs) = ?xs ! i # drop (i + 1) (take ?e (items a))"
  proof -
    have "drop (i + 1) (take ?e (items a)) = drop (i + 1) (take ?e ?xs)"
      using b Suc.prems unfolding a(3) by (intro nth_equalityI) (auto simp: swap_list_nth)
    then show ?thesis using Cons_nth_drop_Suc[of i "take ?e ?xs"] b Suc.prems(4) by simp
  qed
  have "n = d_eligible ?d - (i + 1)" "arr_ok (d_pipes ?d)" "d_matching ?d \<le> i + 1" "i + 1 \<le> d_eligible ?d" "d_eligible ?d \<le> length (items (d_pipes ?d))"
    using Suc.hyps(2) Suc.prems a b by simp_all
  from Suc.hyps(1)[OF this] obtain a' where a': "reverse_loop (i + 1) ?d = Inr (?d\<lparr>d_pipes := a', d_matching := ?j + 1 + (?e - (i + 1))\<rparr>)" "arr_ok a'"
    "length (items a') = length (items a)"
    "\<forall>p \<ge> ?e. p \<le> length (items a') \<longrightarrow> set (take p (items a')) = set (take p (items a))"
    "set (take (?j + 1 + (?e - (i + 1))) (items a')) = set (take (?j + 1) (items a)) \<union> set (drop (i + 1) (take ?e (items a)))" by auto
  have n: "?j + 1 + (?e - (i + 1)) = ?j + (?e - i)" using b by simp
  have "set (take p (items a')) = set (take p ?xs)" if "p \<ge> ?e" "p \<le> length (items a')" for p
    using a'(3,4) that b a(3) Suc.prems by (auto simp: set_take_swap)
  moreover have "set (take (?j + (?e - i)) (items a')) = set (take ?j ?xs) \<union> set (drop i (take ?e ?xs))"
    using a'(5) unfolding n t dr by auto
  moreover have "reverse_loop i d = Inr (d\<lparr>d_pipes := a', d_matching := ?j + (?e - i)\<rparr>)" using r a'(1) unfolding n by simp
  ultimately show ?case using a'(2,3) a(3) by auto
qed

lemma reverse_match_ok:
  assumes "dist_ok d" "\<not> d_more d"
  shows "\<exists>d'. reverse_match d = Inr d' \<and> dist_ok d' \<and> \<not> d_more d' \<and> all_set d' = all_set d \<and> active_set d' = active_set d \<and>
    eligible_set d' = eligible_set d \<and> matching_set d' = eligible_set d - matching_set d"
proof -
  let ?u = "unmatch d" and ?xs = "items (d_pipes d)" and ?e = "d_eligible d" and ?m = "d_matching d"
  have o: "arr_ok (d_pipes d)" "distinct ?xs" "?m \<le> ?e" "d_active d = ?e" "?e \<le> length ?xs" using assms by (auto simp: dist_ok_def arr_ok_def)
  from reverse_loop_ok[of ?u ?m] o obtain a where a: "reverse_loop ?m ?u = Inr (?u\<lparr>d_pipes := a, d_matching := ?e - ?m\<rparr>)" "arr_ok a"
    "length (items a) = length ?xs" "\<forall>p \<ge> ?e. p \<le> length (items a) \<longrightarrow> set (take p (items a)) = set (take p ?xs)"
    "set (take (?e - ?m) (items a)) = set (drop ?m (take ?e ?xs))" by (auto simp: unmatch_def)
  have "set (items a) = set ?xs" using a(3) spec[OF a(4), of "length ?xs"] o(5) by simp
  with a o assms(2) set_drop_take[OF o(2,3)] show ?thesis
    by (auto simp: reverse_match_def dist_ok_def dist_sets unmatch_def)
qed

section \<open>Distribution\<close>

text \<open>What one part does: the pipes in \<open>D\<close> with room get it, and those without room leave the segments.\<close>

definition handed_out :: "pid set \<Rightarrow> (pid \<Rightarrow> bool) \<Rightarrow> (pid \<Rightarrow> pmsg list) \<Rightarrow> pmsg list \<Rightarrow> pid \<Rightarrow> pmsg list" where
  "handed_out D rm st ms = (\<lambda>x. if x \<in> D \<and> rm x then st x @ ms else st x)"

text \<open>The parts of one message, sent one after the other.\<close>

primrec send_parts :: "(pid \<Rightarrow> wmsg \<Rightarrow> 's \<Rightarrow> (bool \<times> 's) result) \<Rightarrow> (pid \<Rightarrow> 's \<Rightarrow> 's result) \<Rightarrow> wmsg list \<Rightarrow> dist \<Rightarrow> 's \<Rightarrow>
    (dist \<times> 's) result" where
  "send_parts wr fl [] d s = Inr (d, s)"
| "send_parts wr fl (m # ms) d s = bindE (send_to_matching wr fl m d s) (\<lambda>(d1, s1). send_parts wr fl ms d1 s1)"

context message_sink
begin

lemma distribute_loop_ok:
  assumes "dist_ok d" "good s" "i \<le> d_matching d"
    and D: "D = set (drop i (take (d_matching d) (items (d_pipes d))))" and F: "F = {x\<in>D. \<not> room s x}"
  shows "\<exists>d' s'. distribute_loop wr fl i m d s = Inr (d', s') \<and> dist_ok d' \<and> good s' \<and> d_more d' = d_more d \<and> all_set d' = all_set d \<and>
    matching_set d' = matching_set d - F \<and> active_set d' = active_set d - F \<and> eligible_set d' = eligible_set d - F \<and>
    sent s' = handed_out D (room s) (sent s) [Msg m] \<and> (has_more (Msg m) \<longrightarrow> room s' = room s)"
  using assms
proof (induction "d_matching d - i" arbitrary: i d s D F)
  case 0
  then show ?case by (simp add: distribute_loop.simps[of wr fl i m d s] handed_out_def)
next
  case (Suc n)
  let ?xs = "items (d_pipes d)" and ?x = "items (d_pipes d) ! i"
  have o: "d_matching d \<le> length ?xs" "distinct ?xs" "i < d_matching d" using Suc(2,3) by (auto simp: dist_ok_def arr_ok_def)
  have at: "a_at i (d_pipes d) = Inr ?x" using o by (simp add: a_at_def)
  define D' where "D' = set (drop (i + 1) (take (d_matching d) ?xs))"
  have DD: "D = insert ?x D'" using Cons_nth_drop_Suc[of i "take (d_matching d) ?xs"] o Suc.prems(4) by (simp add: D'_def flip: Cons_nth_drop_Suc)
  have xD: "?x \<notin> D'"
    unfolding D'_def using o by (auto simp: in_set_conv_nth nth_eq_iff_index_eq)
  have step: "distribute_loop wr fl i m d s = bindE (dist_write wr fl ?x m d s) (\<lambda>(b, d1, s1). distribute_loop wr fl (if b then i + 1 else i) m d1 s1)"
    using o(3) at by (simp add: distribute_loop.simps[of wr fl i m d s])
  show ?case
  proof (cases "room s ?x")
    case True
    from wr_room[OF Suc.prems(2) True, of m] obtain s1 where s1: "wr ?x m s = Inr (True, s1)" "good s1"
      "sent s1 = (sent s)(?x := sent s ?x @ [Msg m])" "\<And>j. j \<noteq> ?x \<or> has_more (Msg m) \<Longrightarrow> room s1 j = room s j" by blast
    obtain s2 where s2: "dist_write wr fl ?x m d s = Inr (True, d, s2)" "good s2" "sent s2 = sent s1" "room s2 = room s1"
      using s1(1,2) fl[OF s1(2), of ?x] by (cases "has_more (Msg m)") (auto simp: dist_write_def)
    have h: "n = d_matching d - (i + 1)" "i + 1 \<le> d_matching d" using Suc(2) o(3) by simp_all
    have rm: "room s2 j = room s j" if "j \<in> D'" for j using s1(4)[of j] s2(4) xD that by metis
    have F': "F = {x\<in>D'. \<not> room s2 x}" using Suc.prems(5) True DD rm by auto
    from Suc.hyps(1)[OF h(1) Suc.prems(1) s2(2) h(2) D'_def F'] obtain d' s' where ih: "distribute_loop wr fl (i + 1) m d s2 = Inr (d', s')"
      "dist_ok d'" "good s'" "d_more d' = d_more d" "all_set d' = all_set d" "matching_set d' = matching_set d - F" "active_set d' = active_set d - F"
      "eligible_set d' = eligible_set d - F" "sent s' = handed_out D' (room s2) (sent s2) [Msg m]" "has_more (Msg m) \<longrightarrow> room s' = room s2" by blast
    have "sent s' = handed_out D (room s) (sent s) [Msg m]"
      unfolding ih(9) s2(3) s1(3) DD handed_out_def using True xD rm by (auto simp: fun_eq_iff)
    moreover have "has_more (Msg m) \<longrightarrow> room s' = room s" using ih(10) s2(4) s1(4) by (auto simp: fun_eq_iff)
    ultimately show ?thesis using step s2(1) ih(1-8) by simp
  next
    case False
    from wr_full[OF Suc.prems(2) False, of m] obtain s1 where s1: "wr ?x m s = Inr (False, s1)" "good s1" "sent s1 = sent s" "room s1 = room s" by blast
    from set_passive_ok[OF Suc.prems(1) o(3) refl] obtain d1 where d1: "set_passive ?x d = Inr d1" "dist_ok d1" "d_more d1 = d_more d" "all_set d1 = all_set d"
      "d_matching d1 = d_matching d - 1" "matching_set d1 = matching_set d - {?x}" "active_set d1 = active_set d - {?x}"
      "eligible_set d1 = eligible_set d - {?x}" "take i (items (d_pipes d1)) = take i ?xs" by blast
    have w: "dist_write wr fl ?x m d s = Inr (False, d1, s1)" using s1(1) d1(1) by (simp add: dist_write_def)
    have h: "n = d_matching d1 - i" "i \<le> d_matching d1" using Suc(2) d1(5) o(3) by simp_all
    have dd: "distinct (items (d_pipes d1))" using d1(2) by (simp add: dist_ok_def arr_ok_def)
    have "D = matching_set d - set (take i ?xs)" using set_drop_take[OF o(2), of i] o(3) Suc.prems(4) by (simp add: matching_set_def)
    moreover have "set (drop i (take (d_matching d1) (items (d_pipes d1)))) = matching_set d1 - set (take i ?xs)"
      using set_drop_take[OF dd h(2)] d1(9) by (simp add: matching_set_def)
    ultimately have D1: "D' = set (drop i (take (d_matching d1) (items (d_pipes d1))))" using d1(6) DD xD by blast
    have F': "F - {?x} = {x\<in>D'. \<not> room s1 x}" and xF: "insert ?x (F - {?x}) = F" using Suc.prems(5) False DD xD s1(4) by auto
    from Suc.hyps(1)[OF h(1) d1(2) s1(2) h(2) D1 F'] obtain d' s' where ih: "distribute_loop wr fl i m d1 s1 = Inr (d', s')"
      "dist_ok d'" "good s'" "d_more d' = d_more d" "all_set d' = all_set d" "matching_set d' = matching_set d1 - (F - {?x})"
      "active_set d' = active_set d1 - (F - {?x})" "eligible_set d' = eligible_set d1 - (F - {?x})"
      "sent s' = handed_out D' (room s) (sent s) [Msg m]" "has_more (Msg m) \<longrightarrow> room s' = room s" unfolding d1(3,4) s1(3,4) by blast
    have "sent s' = handed_out D (room s) (sent s) [Msg m]" unfolding ih(9) DD handed_out_def using False by (auto simp: fun_eq_iff)
    moreover have "X - {?x} - (F - {?x}) = X - F" for X using xF by blast
    ultimately show ?thesis using step w ih d1(6-8) by simp
  qed
qed

lemma send_part:
  assumes "dist_ok d" "good s" and F: "F = {x\<in>matching_set d. \<not> room s x}"
  shows "\<exists>d' s'. send_to_matching wr fl m d s = Inr (d', s') \<and> dist_ok d' \<and> good s' \<and> d_more d' = has_more (Msg m) \<and> all_set d' = all_set d \<and>
    matching_set d' = matching_set d - F \<and> eligible_set d' = eligible_set d - F \<and>
    sent s' = handed_out (matching_set d) (room s) (sent s) [Msg m] \<and> (has_more (Msg m) \<longrightarrow> room s' = room s)"
proof -
  have "set (drop 0 (take (d_matching d) (items (d_pipes d)))) = matching_set d" by (simp add: matching_set_def)
  with distribute_loop_ok[OF assms(1,2) _ refl, of 0 F m] F obtain d' s' where d': "distribute_loop wr fl 0 m d s = Inr (d', s')" "dist_ok d'" "good s'"
    "all_set d' = all_set d" "matching_set d' = matching_set d - F" "eligible_set d' = eligible_set d - F"
    "sent s' = handed_out (matching_set d) (room s) (sent s) [Msg m]" "has_more (Msg m) \<longrightarrow> room s' = room s" by auto
  have r: "distribute wr fl m d s = Inr (d', s')"
    using d'(1) by (cases "d_matching d = 0") (simp_all add: distribute_def distribute_loop.simps[of wr fl 0 m d s])
  let ?d = "(if has_more (Msg m) then d' else d'\<lparr>d_active := d_eligible d'\<rparr>)\<lparr>d_more := has_more (Msg m)\<rparr>"
  have "dist_ok ?d" "matching_set ?d = matching_set d'" "eligible_set ?d = eligible_set d'" "all_set ?d = all_set d'"
    using d'(2) by (auto simp: dist_ok_def dist_sets)
  moreover have "send_to_matching wr fl m d s = Inr (?d, s')" using r by (simp add: send_to_matching_def Let_def)
  ultimately show ?thesis using d' by (intro exI[of _ ?d] exI[of _ s']) simp
qed

lemma send_message:
  assumes "one_message ms" "dist_ok d" "good s"
  shows "\<exists>d' s'. send_parts wr fl ms d s = Inr (d', s') \<and> dist_ok d' \<and> good s' \<and> \<not> d_more d' \<and> all_set d' = all_set d \<and>
    eligible_set d' = eligible_set d - {x\<in>matching_set d. \<not> room s x} \<and>
    sent s' = handed_out (matching_set d) (room s) (sent s) (map Msg ms)"
  using assms
proof (induction ms arbitrary: d s rule: one_message.induct)
  case (2 m)
  from send_part[OF 2(2,3) refl, of m] 2(1) show ?case by auto
next
  case (3 m m' ms)
  let ?F = "{x\<in>matching_set d. \<not> room s x}"
  from send_part[OF 3(3,4) refl, of m] 3(2) obtain d1 s1 where 1: "send_to_matching wr fl m d s = Inr (d1, s1)" "dist_ok d1" "good s1"
    "all_set d1 = all_set d" "matching_set d1 = matching_set d - ?F" "eligible_set d1 = eligible_set d - ?F"
    "sent s1 = handed_out (matching_set d) (room s) (sent s) [Msg m]" "room s1 = room s" by auto
  have "one_message (m' # ms)" using 3(2) by simp
  from "3.IH"[OF this 1(2,3)] obtain d' s' where ih: "send_parts wr fl (m' # ms) d1 s1 = Inr (d', s')" "dist_ok d'" "good s'" "\<not> d_more d'"
    "all_set d' = all_set d1" "eligible_set d' = eligible_set d1 - {x\<in>matching_set d1. \<not> room s1 x}"
    "sent s' = handed_out (matching_set d1) (room s1) (sent s1) (map Msg (m' # ms))" by blast
  have "sent s' = handed_out (matching_set d) (room s) (sent s) (map Msg (m # m' # ms))"
    unfolding ih(7) 1(5,7,8) handed_out_def by (auto simp: fun_eq_iff)
  moreover have "eligible_set d' = eligible_set d - ?F" using ih(6) 1(5,6,8) by auto
  moreover have "send_parts wr fl (m # m' # ms) d s = Inr (d', s')" using 1(1) ih(1) by simp
  ultimately show ?case using ih(2-5) 1(4) by (intro exI[of _ d'] exI[of _ s']) simp
qed simp

end

section \<open>Property\<close>

text \<open>
  C16. A message in any number of parts is distributed atomically and exactly: each matching pipe with
  room gets all its parts, in order, behind what it had; every other pipe of the socket, also a matching one without room,
  gets none. The pipes without room leave the eligible ones, no pipe is lost from the array, and the array is
  ready for the next message.
\<close>
theorem dist_message_atomic:
  assumes "one_message ms" "dist_ok d" "sock_good s"
  shows "\<exists>d' s'. send_parts sock_write sock_flush ms d s = Inr (d', s') \<and> dist_ok d' \<and> sock_good s' \<and> \<not> d_more d' \<and> all_set d' = all_set d \<and>
    active_set d' = eligible_set d - {x\<in>matching_set d. \<not> sock_room s x} \<and>
    (\<forall>x. sock_sent s' x = (if x \<in> matching_set d \<and> sock_room s x then sock_sent s x @ map Msg ms else sock_sent s x))"
proof -
  from sk.send_message[OF assms] obtain d' s' where "send_parts sock_write sock_flush ms d s = Inr (d', s')" "dist_ok d'" "sock_good s'" "\<not> d_more d'"
    "all_set d' = all_set d" "eligible_set d' = eligible_set d - {x\<in>matching_set d. \<not> sock_room s x}"
    "sock_sent s' = handed_out (matching_set d) (sock_room s) (sock_sent s) (map Msg ms)" by blast
  moreover from this have "active_set d' = eligible_set d'" by (simp add: dist_ok_def dist_sets)
  ultimately show ?thesis by (intro exI[of _ d'] exI[of _ s']) (simp add: handed_out_def)
qed

definition sample_dist :: dist where
  "sample_dist = \<lparr>d_pipes = \<lparr>items = [7, 8, 9], pos = (\<lambda>i. int i - 7)\<rparr>, d_matching = 2, d_active = 3, d_eligible = 3, d_more = False\<rparr>"

definition sample_parts :: "wmsg list" where
  "sample_parts = [\<lparr>w_flags = 1, w_data = [5]\<rparr>, \<lparr>w_flags = 0, w_data = [6]\<rparr>]"

lemma sample_dist_ok: "one_message sample_parts" "dist_ok sample_dist" "7 \<in> matching_set sample_dist" "9 \<notin> matching_set sample_dist"
proof -
  show "one_message sample_parts" by (simp add: sample_parts_def has_more_def msg_more_def)
  show "dist_ok sample_dist" by (auto simp: dist_ok_def sample_dist_def arr_ok_def less_Suc_eq)
  show "7 \<in> matching_set sample_dist" "9 \<notin> matching_set sample_dist" by (simp_all add: matching_set_def sample_dist_def numeral_2_eq_2)
qed

theorem dist_message_atomic_witness:
  "\<exists>d' s'. send_parts sock_write sock_flush sample_parts sample_dist sample_env = Inr (d', s') \<and> dist_ok d' \<and>
    sock_sent s' 7 = sock_sent sample_env 7 @ map Msg sample_parts \<and> sock_sent s' 9 = sock_sent sample_env 9"
  using dist_message_atomic[OF sample_dist_ok(1,2) sample_fq_ok(2)] sample_dist_ok(3,4) sample_lb_ok(3) by (metis (no_types, lifting))

end
