(* ===== verification/Char_Table.thy ===== *)
theory Char_Table
  imports Wire
begin

text \<open>
  Tables of subnodes indexed by a range of characters, as the nodes of the two tries of libzmq
  (\<^verbatim>\<open>trie.cpp\<close> and \<^verbatim>\<open>generic_mtrie_impl.hpp\<close>) have them: a smallest character and one entry per
  character from there on.  The table with one entry is the single-node representation of the union.
\<close>

text \<open>The part of \<^verbatim>\<open>add\<close> that makes room for a character: new minimum and table.\<close>

definition extend :: "nat \<Rightarrow> nat \<Rightarrow> 'a option list \<Rightarrow> nat \<times> 'a option list" where
  "extend c mn tab =
     (if c < mn \<or> c \<ge> mn + length tab then
        if length tab = 0 then (c, [None])
        else if length tab = 1 then
          (let n = (if mn < c then c - mn else mn - c) + 1; mn' = min mn c
           in (mn', (replicate n None)[mn - mn' := tab ! 0]))
        else if mn < c then (mn, tab @ replicate (c - mn + 1 - length tab) None)
        else (c, replicate (mn - c) None @ tab)
      else (mn, tab))"

text \<open>The first live entry from index 1 on, from the left and from the right.\<close>

definition first_live :: "'a option list \<Rightarrow> nat option" where
  "first_live tab = List.find (\<lambda>i. tab ! i \<noteq> None) [1..<length tab]"

definition last_live :: "'a option list \<Rightarrow> nat option" where
  "last_live tab = List.find (\<lambda>i. tab ! (length tab - 1 - i) \<noteq> None) [1..<length tab]"

definition nlive :: "'a option list \<Rightarrow> nat" where
  "nlive tab = length (filter (\<lambda>x. x \<noteq> None) tab)"

text \<open>A table that is not empty begins and ends with a live entry.\<close>

definition tight :: "'a option list \<Rightarrow> bool" where
  "tight tab \<longleftrightarrow> tab = [] \<or> hd tab \<noteq> None \<and> last tab \<noteq> None"

definition slot :: "nat \<Rightarrow> 'a option list \<Rightarrow> nat \<Rightarrow> 'a option" where
  "slot mn tab c = (if mn \<le> c \<and> c < mn + length tab then tab ! (c - mn) else None)"

lemma slot_in_set: "slot mn tab c = Some n \<Longrightarrow> Some n \<in> set tab"
  by (metis add.commute less_diff_conv2 nth_mem option.distinct(1) slot_def)

lemma slot_Nil [simp]: "slot mn [] c = None"
  by (auto simp: slot_def)

lemma nlive_append [simp]: "nlive (xs @ ys) = nlive xs + nlive ys"
  by (simp add: nlive_def)

lemma nlive_replicate [simp]: "nlive (replicate n None) = 0"
  by (simp add: nlive_def)

lemma nlive_Cons [simp]: "nlive (x # xs) = (if x = None then 0 else 1) + nlive xs"
  by (simp add: nlive_def)

lemma nlive_Nil [simp]: "nlive [] = 0" by (simp add: nlive_def)

lemma nlive_update:
  "i < length tab \<Longrightarrow> nlive (tab[i := x]) + (if tab ! i = None then 0 else 1) =
     nlive tab + (if x = None then 0 else 1)"
proof (induction tab arbitrary: i)
  case (Cons a tab)
  then show ?case by (cases i) auto
qed simp

lemma nlive_zero: "nlive tab = 0 \<Longrightarrow> x \<in> set tab \<Longrightarrow> x = None"
  by (auto simp: nlive_def filter_empty_conv)

lemma tight_nlive:
  assumes "tight tab" "length tab \<ge> 2" shows "nlive tab \<ge> 2"
proof -
  obtain a xs where 1: "tab = a # xs" "xs \<noteq> []" using assms(2) by (cases tab) fastforce+
  then obtain ys b where 2: "xs = ys @ [b]" by (meson rev_exhaust)
  with 1 assms(1) show ?thesis by (auto simp: tight_def)
qed

lemma slot_update:
  "mn \<le> c \<Longrightarrow> c < mn + length tab \<Longrightarrow> slot mn (tab[c - mn := x]) d = (if d = c then x else slot mn tab d)"
  by (auto simp: slot_def nth_list_update)

lemma replicate_set_last: "(replicate (Suc d) y)[d := x] = replicate d y @ [x]"
  by (induction d) auto

text \<open>Making room for a character.\<close>

lemma extend_cases:
  assumes "tight tab"
  obtains (Same) "extend c mn tab = (mn, tab)" "mn \<le> c" "c < mn + length tab"
  | (Empty) "extend c mn tab = (c, [None])" "tab = []"
  | (Above) k where "extend c mn tab = (mn, tab @ replicate (Suc k) None)" "tab \<noteq> []" "c = mn + length tab + k"
  | (Below) k where "extend c mn tab = (c, replicate (Suc k) None @ tab)" "tab \<noteq> []" "mn = c + Suc k"
proof (cases "c < mn \<or> c \<ge> mn + length tab")
  case False
  then show thesis by (intro Same) (auto simp: extend_def)
next
  case out: True
  show thesis
  proof (cases "length tab \<le> 1")
    case True
    show thesis
    proof (cases tab)
      case Nil
      with out show thesis by (intro Empty) (auto simp: extend_def)
    next
      case (Cons x xs)
      with True have tab: "tab = [x]" by simp
      show thesis
      proof (cases "mn < c")
        case True
        with tab have "extend c mn tab = (mn, tab @ replicate (Suc (c - mn - 1)) None)"
          by (auto simp: extend_def Let_def min_def Suc_diff_Suc list_update.simps split: if_splits
              intro!: nth_equalityI)
        with True tab show thesis by (intro Above) auto
      next
        case False
        with out tab have "c < mn" by auto
        then obtain d where d: "mn = c + Suc d" using less_iff_Suc_add by auto
        with tab have "extend c mn tab = (c, replicate (Suc (mn - c - 1)) None @ tab)"
          by (simp add: extend_def Let_def min_def replicate_set_last[of "Suc d"] del: replicate_Suc)
        with \<open>c < mn\<close> tab show thesis by (intro Below) auto
      qed
    qed
  next
    case False
    show thesis
    proof (cases "mn < c")
      case True
      with out False have "extend c mn tab = (mn, tab @ replicate (Suc (c - mn - length tab)) None)"
        by (auto simp: extend_def Suc_diff_le)
      with True out False show thesis by (intro Above) auto
    next
      case lt: False
      with out False have "c < mn" by auto
      with False have "extend c mn tab = (c, replicate (Suc (mn - c - 1)) None @ tab)"
        by (auto simp: extend_def Suc_diff_Suc simp del: replicate_Suc)
      with \<open>c < mn\<close> False show thesis by (intro Below) auto
    qed
  qed
qed

lemma extend_ok:
  assumes "tight tab" "mn + length tab \<le> 256" "c < 256" "extend c mn tab = (mn', tab')"
  shows "mn' \<le> c \<and> c < mn' + length tab' \<and> mn' + length tab' \<le> 256 \<and> nlive tab' = nlive tab \<and>
    slot mn' tab' = slot mn tab \<and> (\<forall>n. Some n \<in> set tab' \<longleftrightarrow> Some n \<in> set tab) \<and>
    tight (tab'[c - mn' := Some n]) \<and> (length tab' = 1 \<longrightarrow> tab' ! 0 = None \<longrightarrow> tab = [])
    \<and> (length tab' \<noteq> 1 \<longrightarrow> tab \<noteq> [])"
  using assms(1)
proof (cases rule: extend_cases[where c = c and mn = mn])
  case Same
  with assms have "tight (tab[c - mn := Some n])"
    by (auto simp: tight_def hd_conv_nth last_conv_nth nth_list_update)
  moreover have "length tab = 1 \<longrightarrow> tab ! 0 \<noteq> None"
    using assms(1) by (cases tab) (auto simp: tight_def)
  ultimately show ?thesis using Same assms by auto
next
  case Empty
  with assms show ?thesis by (auto simp: slot_def tight_def fun_eq_iff)
next
  case (Above k)
  with assms have t: "tab' = tab @ replicate (Suc k) None" "mn' = mn" by auto
  have "slot mn' tab' = slot mn tab"
    unfolding t by (auto simp: slot_def nth_append fun_eq_iff nth_Cons' simp del: replicate_Suc)
  moreover have "tight (tab'[c - mn' := Some n])"
    using assms(1) Above unfolding t
    by (auto simp: tight_def hd_conv_nth last_conv_nth nth_list_update nth_append)
  ultimately show ?thesis using Above assms unfolding t by auto
next
  case (Below k)
  with assms have t: "tab' = replicate (Suc k) None @ tab" "mn' = c" by auto
  have "slot mn' tab' = slot mn tab"
    unfolding t using Below(3) by (auto simp: slot_def nth_append fun_eq_iff simp del: replicate_Suc)
  moreover have "tab'[c - mn' := Some n] = Some n # replicate k None @ tab" unfolding t by simp
  then have "tight (tab'[c - mn' := Some n])"
    using assms(1) Below(2) by (simp add: tight_def)
  ultimately show ?thesis using Below assms unfolding t by auto
qed

lemma slot_drop:
  assumes "\<forall>x\<in>set (take i tab). x = None"
  shows "slot (mn + i) (drop i tab) = slot mn tab" "nlive (drop i tab) = nlive tab"
proof -
  have none: "tab ! j = None" if "j < i" "j < length tab" for j
  proof -
    have "tab ! j = take i tab ! j" "j < length (take i tab)" using that by simp_all
    then show ?thesis using assms nth_mem by metis
  qed
  show "slot (mn + i) (drop i tab) = slot mn tab"
    using none by (auto simp: slot_def fun_eq_iff)
  have "nlive tab = nlive (take i tab) + nlive (drop i tab)"
    using nlive_append[of "take i tab" "drop i tab"] by simp
  moreover have "nlive (take i tab) = 0"
    using assms by (simp add: nlive_def filter_empty_conv)
  ultimately show "nlive (drop i tab) = nlive tab" by simp
qed

lemma slot_take:
  assumes "\<forall>x\<in>set (drop i tab). x = None"
  shows "slot mn (take i tab) = slot mn tab" "nlive (take i tab) = nlive tab"
proof -
  have none: "tab ! j = None" if "i \<le> j" "j < length tab" for j
  proof -
    have "tab ! j = drop i tab ! (j - i)" "j - i < length (drop i tab)" using that by simp_all
    then show ?thesis using assms nth_mem by metis
  qed
  show "slot mn (take i tab) = slot mn tab"
    using none by (auto simp: slot_def fun_eq_iff)
  have "nlive tab = nlive (take i tab) + nlive (drop i tab)"
    using nlive_append[of "take i tab" "drop i tab"] by simp
  moreover have "nlive (drop i tab) = 0"
    using assms by (simp add: nlive_def filter_empty_conv)
  ultimately show "nlive (take i tab) = nlive tab" by simp
qed

lemma tight_ends:
  "tight tab \<longleftrightarrow> tab = [] \<or> tab ! 0 \<noteq> None \<and> tab ! (length tab - 1) \<noteq> None"
  by (auto simp: tight_def hd_conv_nth last_conv_nth)

lemma tight_update:
  assumes "tight xs" shows "tight (xs[i := Some n])"
proof -
  have "xs[i := Some n] ! j \<noteq> None" if "xs ! j \<noteq> None" for j
    using that by (cases "j = i \<and> i < length xs") (auto simp: list_update_beyond)
  with assms show ?thesis unfolding tight_ends length_list_update list_update_nonempty by blast
qed

lemma first_live_Some:
  assumes "first_live tab = Some i"
  shows "1 \<le> i" "i < length tab" "tab ! i \<noteq> None" "\<And>j. 1 \<le> j \<Longrightarrow> j < i \<Longrightarrow> tab ! j = None"
proof -
  from assms obtain a where a: "a < length [1..<length tab]" "tab ! ([1..<length tab] ! a) \<noteq> None"
    "i = [1..<length tab] ! a" "\<forall>j<a. tab ! ([1..<length tab] ! j) = None"
    unfolding first_live_def find_Some_iff by (elim exE conjE) simp
  then have i: "i = Suc a" by simp
  with a show "1 \<le> i" "i < length tab" "tab ! i \<noteq> None" by auto
  fix j assume "1 \<le> j" "j < i"
  with a(4)[rule_format, of "j - 1"] a(1) i show "tab ! j = None" by simp
qed

lemma last_live_Some:
  assumes "last_live tab = Some i"
  shows "1 \<le> i" "i < length tab" "tab ! (length tab - 1 - i) \<noteq> None"
    "\<And>j. 1 \<le> j \<Longrightarrow> j < i \<Longrightarrow> tab ! (length tab - 1 - j) = None"
proof -
  from assms obtain a where a: "a < length [1..<length tab]" "tab ! (length tab - 1 - [1..<length tab] ! a) \<noteq> None"
    "i = [1..<length tab] ! a" "\<forall>j<a. tab ! (length tab - 1 - [1..<length tab] ! j) = None"
    unfolding last_live_def find_Some_iff by (elim exE conjE) simp
  then have i: "i = Suc a" by simp
  with a show "1 \<le> i" "i < length tab" "tab ! (length tab - 1 - i) \<noteq> None" by auto
  fix j assume "1 \<le> j" "j < i"
  with a(4)[rule_format, of "j - 1"] a(1) i show "tab ! (length tab - 1 - j) = None" by simp
qed

lemma first_live_None: "first_live tab = None \<Longrightarrow> 1 \<le> j \<Longrightarrow> j < length tab \<Longrightarrow> tab ! j = None"
  unfolding first_live_def find_None_iff by auto

lemma last_live_None: "last_live tab = None \<Longrightarrow> 1 \<le> j \<Longrightarrow> j < length tab \<Longrightarrow> tab ! (length tab - 1 - j) = None"
  unfolding last_live_def find_None_iff by auto

text \<open>What a pruned table must be.\<close>

definition pruned :: "nat \<Rightarrow> nat \<Rightarrow> 'a option list \<Rightarrow> nat \<Rightarrow> nat \<Rightarrow> 'a option list \<Rightarrow> bool" where
  "pruned c mn tab mn' lv' tab' \<longleftrightarrow>
     mn' + length tab' \<le> mn + length tab \<and> lv' = nlive tab' \<and> tight tab' \<and>
     slot mn' tab' = (slot mn tab)(c := None) \<and> (\<forall>n. Some n \<in> set tab' \<longrightarrow> Some n \<in> set tab)"

lemma pruned_drop:
  assumes "mn \<le> c" "c < mn + length tab" "i < length tab"
    and none: "\<And>j. j < i \<Longrightarrow> tab[c - mn := None] ! j = None"
    and ends: "tab[c - mn := None] ! i \<noteq> None" "tab[c - mn := None] ! (length tab - 1) \<noteq> None"
    and lv: "lv = nlive (tab[c - mn := None])"
  shows "pruned c mn tab (mn + i) lv (drop i (tab[c - mn := None]))"
proof -
  let ?t = "tab[c - mn := None]"
  have all: "\<forall>x\<in>set (take i ?t). x = None"
    using none by (auto simp: in_set_conv_nth)
  have "slot (mn + i) (drop i ?t) = (slot mn tab)(c := None)"
    using slot_drop(1)[OF all] slot_update[OF assms(1,2), of None] by (auto simp: fun_eq_iff)
  moreover have "tight (drop i ?t)" using ends assms(3) by (simp add: tight_ends)
  moreover have "Some n \<in> set tab" if "Some n \<in> set (drop i ?t)" for n
    using that set_drop_subset[of i ?t] set_update_subset_insert[of tab "c - mn" None] by auto
  ultimately show ?thesis
    using slot_drop(2)[OF all] assms(3) lv by (simp add: pruned_def)
qed

lemma pruned_take:
  assumes "mn \<le> c" "c < mn + length tab" "0 < m" "m \<le> length tab"
    and none: "\<And>j. m \<le> j \<Longrightarrow> j < length tab \<Longrightarrow> tab[c - mn := None] ! j = None"
    and ends: "tab[c - mn := None] ! 0 \<noteq> None" "tab[c - mn := None] ! (m - 1) \<noteq> None"
    and lv: "lv = nlive (tab[c - mn := None])"
  shows "pruned c mn tab mn lv (take m (tab[c - mn := None]))"
proof -
  let ?t = "tab[c - mn := None]"
  have all: "\<forall>x\<in>set (drop m ?t). x = None"
    using none by (auto simp: in_set_conv_nth)
  have "slot mn (take m ?t) = (slot mn tab)(c := None)"
    using slot_take(1)[OF all] slot_update[OF assms(1,2), of None] by (auto simp: fun_eq_iff)
  moreover have "tight (take m ?t)" using ends assms(3,4) by (simp add: tight_ends min_def)
  moreover have "Some n \<in> set tab" if "Some n \<in> set (take m ?t)" for n
    using that set_take_subset[of m ?t] set_update_subset_insert[of tab "c - mn" None] by auto
  ultimately show ?thesis
    using slot_take(2)[OF all] assms(3,4) lv by (simp add: pruned_def)
qed

lemma nlive_two:
  assumes "i < j" "j < length tab" "tab ! i \<noteq> None" "tab ! j \<noteq> None" shows "nlive tab \<ge> 2"
proof -
  have split: "nlive tab = nlive (take j tab) + nlive (drop j tab)"
    using nlive_append[of "take j tab" "drop j tab"] by simp
  have "take j tab ! i \<in> set (take j tab)" using assms(1,2) by (intro nth_mem) simp
  then have "tab ! i \<in> set (take j tab)" using assms(1) by simp
  moreover have "drop j tab ! 0 \<in> set (drop j tab)" using assms(2) by (intro nth_mem) simp
  then have "tab ! j \<in> set (drop j tab)" using assms(2) by simp
  ultimately have "nlive (take j tab) \<noteq> 0" "nlive (drop j tab) \<noteq> 0"
    using nlive_zero assms(3,4) by metis+
  with split show ?thesis by simp
qed

end
