(* ===== verification/Trie_Sub.thy ===== *)
theory Trie_Sub
  imports Char_Table
begin

text \<open>
  The subscription trie of libzmq, \<^verbatim>\<open>libzmq/src/trie.cpp\<close>, which a SUB socket uses to filter
  messages.  A node has a reference count, the smallest handled character, the number
  of its live subnodes and the table of subnodes; the table with one entry is
  the single-node representation of the union.  A failed \<^verbatim>\<open>zmq_assert\<close>, a null pointer that
  is followed and an index out of the table are failure values.
\<close>

section \<open>The trie\<close>

datatype trie = Trie (refcnt: u32) (tmin: nat) (live: nat) (table: "trie option list")

definition trie_new :: trie where
  "trie_new = Trie 0 0 0 []"

abbreviation count :: "trie \<Rightarrow> nat" where
  "count t \<equiv> length (table t)"

definition is_redundant :: "trie \<Rightarrow> bool" where
  "is_redundant t \<longleftrightarrow> refcnt t = 0 \<and> live t = 0"

fun trie_add :: "byte list \<Rightarrow> trie \<Rightarrow> (bool \<times> trie) result" where
  "trie_add [] t = Inr (refcnt t + 1 = 1, Trie (refcnt t + 1) (tmin t) (live t) (table t))"
| "trie_add (ch # prefix) t =
     (let c = unat ch; (mn, tab) = extend c (tmin t) (table t) in
      if length tab = 1 then
        (case tab ! 0 of
           None \<Rightarrow> if live t + 1 \<noteq> 1 then Inl Assertion
                   else bindE (trie_add prefix trie_new)
                          (\<lambda>(b, n). Inr (b, Trie (refcnt t) mn (live t + 1) [Some n]))
         | Some n \<Rightarrow> bindE (trie_add prefix n) (\<lambda>(b, n'). Inr (b, Trie (refcnt t) mn (live t) [Some n'])))
      else if c - mn \<ge> length tab then Inl Bad_index
      else (case tab ! (c - mn) of
           None \<Rightarrow> if \<not> live t + 1 > 1 then Inl Assertion
                   else bindE (trie_add prefix trie_new)
                          (\<lambda>(b, n). Inr (b, Trie (refcnt t) mn (live t + 1) (tab[c - mn := Some n])))
         | Some n \<Rightarrow> bindE (trie_add prefix n)
                       (\<lambda>(b, n'). Inr (b, Trie (refcnt t) mn (live t) (tab[c - mn := Some n'])))))"

text \<open>Pruning of the subnode for character \<open>c\<close>, with the compaction of the table.\<close>

definition prune :: "nat \<Rightarrow> nat \<Rightarrow> nat \<Rightarrow> 'a option list \<Rightarrow> (nat \<times> nat \<times> 'a option list) result" where
  "prune c mn lv tab =
     (if length tab = 1 then
        if lv - 1 \<noteq> 0 then Inl Assertion else Inr (mn, lv - 1, [])
      else
        let tab = tab[c - mn := None]; n = length tab in
        if \<not> lv > 1 then Inl Assertion
        else let lv = lv - 1 in
          if lv = 1 then
            if c = mn then
              (case tab ! (n - 1) of None \<Rightarrow> Inl Assertion | Some x \<Rightarrow> Inr (mn + (n - 1), lv, [Some x]))
            else if c = mn + n - 1 then
              (case tab ! 0 of None \<Rightarrow> Inl Assertion | Some x \<Rightarrow> Inr (mn, lv, [Some x]))
            else Inl Assertion
          else if c = mn then
            (case first_live tab of None \<Rightarrow> Inl Assertion | Some i \<Rightarrow> Inr (mn + i, lv, drop i tab))
          else if c = mn + n - 1 then
            (case last_live tab of None \<Rightarrow> Inl Assertion | Some i \<Rightarrow> Inr (mn, lv, take (n - i) tab))
          else Inr (mn, lv, tab))"

fun trie_rm :: "byte list \<Rightarrow> trie \<Rightarrow> (bool \<times> trie) result" where
  "trie_rm [] t =
     (if refcnt t = 0 then Inr (False, t)
      else Inr (refcnt t - 1 = 0, Trie (refcnt t - 1) (tmin t) (live t) (table t)))"
| "trie_rm (ch # prefix) t =
     (let c = unat ch in
      if count t = 0 \<or> c < tmin t \<or> c \<ge> tmin t + count t then Inr (False, t)
      else (case table t ! (c - tmin t) of
          None \<Rightarrow> Inr (False, t)
        | Some n \<Rightarrow>
            bindE (trie_rm prefix n) (\<lambda>(ret, n').
              if is_redundant n' then
                bindE (prune c (tmin t) (live t) (table t))
                  (\<lambda>(mn, lv, tab). Inr (ret, Trie (refcnt t) mn lv tab))
              else Inr (ret, Trie (refcnt t) (tmin t) (live t) ((table t)[c - tmin t := Some n'])))))"

fun trie_check :: "byte list \<Rightarrow> trie \<Rightarrow> bool result" where
  "trie_check [] t = Inr (refcnt t \<noteq> 0)"
| "trie_check (ch # data) t =
     (if refcnt t \<noteq> 0 then Inr True
      else let c = unat ch in
        if c < tmin t \<or> c \<ge> tmin t + count t then Inr False
        else (case table t ! (c - tmin t) of
            None \<Rightarrow> if count t = 1 then Inl Bad_index else Inr False
          | Some n \<Rightarrow> trie_check data n))"

text \<open>\<^verbatim>\<open>apply\<close>: the keys to which the function is applied, in order.\<close>

function apply_helper :: "byte list \<Rightarrow> trie \<Rightarrow> byte list list" where
  "apply_helper buff (Trie r mn lv tab) =
     (if r \<noteq> 0 then [buff] else []) @
     concat (map (\<lambda>(i, n). case n of None \<Rightarrow> [] | Some n' \<Rightarrow> apply_helper (buff @ [of_nat (mn + i)]) n')
       (enumerate 0 tab))"
  by pat_completeness auto
termination
proof (relation "measure (\<lambda>(buff, t). size t)", goal_cases)
  case 1
  then show ?case by simp
next
  case (2 buff r mn lv tab x i n n')
  then have "Some n' \<in> set tab"
    by (auto simp: enumerate_eq_zip dest: set_zip_rightD)
  then have "size n' < Suc (size_list (size_option size) tab)"
    by (induction tab) auto
  with 2 show ?case by simp
qed

definition trie_apply :: "trie \<Rightarrow> byte list list" where
  "trie_apply t = apply_helper [] t"

section \<open>Invariant and abstraction\<close>

inductive trie_wf :: "trie \<Rightarrow> bool" where
  "mn + length tab \<le> 256 \<Longrightarrow> lv = nlive tab \<Longrightarrow> tight tab \<Longrightarrow>
   (\<And>n. Some n \<in> set tab \<Longrightarrow> trie_wf n \<and> \<not> is_redundant n) \<Longrightarrow> trie_wf (Trie r mn lv tab)"

inductive_simps trie_wf_Trie: "trie_wf (Trie r mn lv tab)"

text \<open>How often a key was added and not removed.\<close>

fun tcount :: "byte list \<Rightarrow> trie \<Rightarrow> nat" where
  "tcount [] t = unat (refcnt t)"
| "tcount (ch # k) t = (case slot (tmin t) (table t) (unat ch) of None \<Rightarrow> 0 | Some n \<Rightarrow> tcount k n)"

lemma trie_wf_eq:
  "trie_wf t \<longleftrightarrow> tmin t + count t \<le> 256 \<and> live t = nlive (table t) \<and> tight (table t) \<and>
     (\<forall>n. Some n \<in> set (table t) \<longrightarrow> trie_wf n \<and> \<not> is_redundant n)"
  by (cases t) (simp add: trie_wf_Trie)

lemma trie_wf_new: "trie_wf trie_new" "tcount k trie_new = 0"
  by (auto simp: trie_new_def trie_wf_Trie tight_def slot_def intro: list.exhaust[of k])

lemma trie_wfD:
  assumes "trie_wf t"
  shows "tmin t + count t \<le> 256" "live t = nlive (table t)" "tight (table t)"
    "Some n \<in> set (table t) \<Longrightarrow> trie_wf n" "Some n \<in> set (table t) \<Longrightarrow> \<not> is_redundant n"
  using assms by (simp_all add: trie_wf_eq[of t])

text \<open>Adding below a character: the subnode, or a new one, is replaced.\<close>

definition subnode :: "nat \<Rightarrow> trie \<Rightarrow> trie" where
  "subnode c t = (case slot (tmin t) (table t) c of None \<Rightarrow> trie_new | Some n \<Rightarrow> n)"

lemma trie_add_Cons:
  assumes wf: "trie_wf t" and ext: "extend (unat ch) (tmin t) (table t) = (mn, tab)"
    and sub: "trie_add k (subnode (unat ch) t) = Inr (b, n)"
  shows "trie_add (ch # k) t =
    Inr (b, Trie (refcnt t) mn (nlive (tab[unat ch - mn := Some n])) (tab[unat ch - mn := Some n]))"
proof -
  let ?c = "unat ch"
  have "?c < 256" using unsigned_less[of ch] by simp
  note e = extend_ok[OF trie_wfD(3,1)[OF wf] this ext, of n]
  have e: "mn \<le> ?c" "?c < mn + length tab" "nlive tab = live t" "slot mn tab = slot (tmin t) (table t)"
    "length tab = 1 \<longrightarrow> tab ! 0 = None \<longrightarrow> table t = []" "length tab \<noteq> 1 \<longrightarrow> table t \<noteq> []"
    using e trie_wfD(2)[OF wf] by simp_all
  have s: "tab ! (?c - mn) = slot (tmin t) (table t) ?c"
    using e by (simp add: slot_def flip: e(4))
  note lv = trie_wfD(2,3)[OF wf]
  have up: "nlive (tab[?c - mn := Some n]) + (if tab ! (?c - mn) = None then 0 else 1) = live t + 1"
    using nlive_update[of "?c - mn" tab "Some n"] e by simp
  show ?thesis
  proof (cases "length tab = 1")
    case True
    then obtain x where x: "tab = [x]" by (metis One_nat_def length_0_conv length_Suc_conv)
    then have "?c - mn = 0" using e(1,2) by simp
    show ?thesis
    proof (cases x)
      case None
      with x e(5) lv(1) have "live t = 0" by simp
      moreover from None x s \<open>?c - mn = 0\<close> sub have "trie_add k trie_new = Inr (b, n)" by (simp add: subnode_def)
      ultimately show ?thesis using x None \<open>?c - mn = 0\<close> by (simp add: ext)
    next
      case (Some m)
      with x s \<open>?c - mn = 0\<close> have "slot (tmin t) (table t) ?c = Some m" by simp
      with sub have "trie_add k m = Inr (b, n)" by (simp add: subnode_def)
      moreover have "live t = 1" using up x Some \<open>?c - mn = 0\<close> by simp
      ultimately show ?thesis using x Some \<open>?c - mn = 0\<close> by (simp add: ext)
    qed
  next
    case False
    then have "table t \<noteq> []" using e(6) by simp
    then have "nlive (table t) \<noteq> 0" using lv(2) by (metis hd_in_set nlive_zero tight_def)
    then have pos: "live t > 0" using lv(1) by simp
    have idx: "\<not> ?c - mn \<ge> length tab" using e(1,2) by simp
    show ?thesis
    proof (cases "tab ! (?c - mn)")
      case None
      with s sub have "trie_add k trie_new = Inr (b, n)" by (simp add: subnode_def)
      with None up pos idx False show ?thesis by (simp add: ext)
    next
      case (Some m)
      with s have "slot (tmin t) (table t) ?c = Some m" by simp
      with sub have "trie_add k m = Inr (b, n)" by (simp add: subnode_def)
      with Some up idx False show ?thesis by (simp add: ext)
    qed
  qed
qed

lemma trie_add_ok:
  "trie_wf t \<Longrightarrow> tcount k t < 2 ^ 32 - 1 \<Longrightarrow>
   \<exists>t'. trie_add k t = Inr (tcount k t = 0, t') \<and> trie_wf t' \<and> \<not> is_redundant t' \<and>
     (\<forall>k'. tcount k' t' = (if k' = k then Suc (tcount k t) else tcount k' t))"
proof (induction k arbitrary: t)
  case Nil
  let ?r = "refcnt t"
  have r: "unat (?r + 1) = Suc (unat ?r)"
    using Nil.prems(2) by (simp add: unat_word_ariths)
  then have "?r + 1 \<noteq> 0" by (metis nat.distinct(1) unsigned_0)
  moreover have "?r + 1 = 1 \<longleftrightarrow> unat ?r = 0"
    using r by (metis add.left_neutral nat.inject unat_1 One_nat_def unat_eq_zero)
  moreover have "tcount k' (Trie (?r + 1) (tmin t) (live t) (table t)) = (if k' = [] then Suc (unat ?r) else tcount k' t)" for k'
    using r by (cases k') simp_all
  moreover have "trie_wf (Trie (?r + 1) (tmin t) (live t) (table t))"
    using Nil.prems(1) by (cases t) (simp add: trie_wf_Trie)
  ultimately show ?case by (simp add: is_redundant_def)
next
  case (Cons ch k)
  let ?c = "unat ch" and ?n = "subnode (unat ch) t"
  have c: "?c < 256" using unsigned_less[of ch] by simp
  have n: "trie_wf ?n"
    using trie_wfD(4)[OF Cons.prems(1)] by (auto simp: subnode_def trie_wf_new dest: slot_in_set split: option.splits)
  have cnt: "tcount (ch # k') t = tcount k' ?n" for k'
    by (simp add: subnode_def trie_wf_new split: option.splits)
  from Cons.IH[OF n] Cons.prems(2) obtain n' where n': "trie_add k ?n = Inr (tcount k ?n = 0, n')"
    "trie_wf n'" "\<not> is_redundant n'" "\<forall>k'. tcount k' n' = (if k' = k then Suc (tcount k ?n) else tcount k' ?n)"
    unfolding cnt by blast
  obtain mn tab where ext: "extend ?c (tmin t) (table t) = (mn, tab)" by fastforce
  let ?t' = "Trie (refcnt t) mn (nlive (tab[?c - mn := Some n'])) (tab[?c - mn := Some n'])"
  have add: "trie_add (ch # k) t = Inr (tcount k ?n = 0, ?t')"
    by (rule trie_add_Cons[OF Cons.prems(1) ext n'(1)])
  have e: "mn \<le> ?c" "?c < mn + length tab" "mn + length tab \<le> 256" "slot mn tab = slot (tmin t) (table t)"
    "\<forall>n. Some n \<in> set tab \<longleftrightarrow> Some n \<in> set (table t)" "tight (tab[?c - mn := Some n'])"
    using extend_ok[OF trie_wfD(3,1)[OF Cons.prems(1)] c ext, of n'] by simp_all
  have "trie_wf m \<and> \<not> is_redundant m" if "Some m \<in> set (tab[?c - mn := Some n'])" for m
    using that e(5) trie_wfD(4,5)[OF Cons.prems(1), of m] n'(2,3) set_update_subset_insert[of tab "?c - mn" "Some n'"]
    by auto
  then have "trie_wf ?t'"
    using e by (simp add: trie_wf_Trie)
  moreover have "nlive (tab[?c - mn := Some n']) \<noteq> 0"
    using nlive_zero[of "tab[?c - mn := Some n']" "Some n'"] e(1,2) by (auto simp: set_update_memI)
  then have "\<not> is_redundant ?t'" by (simp add: is_redundant_def)
  moreover have "tcount k' ?t' = (if k' = ch # k then Suc (tcount (ch # k) t) else tcount k' t)" for k'
  proof (cases k')
    case (Cons d k'')
    have "unat d = ?c \<longleftrightarrow> d = ch" by (rule word_eq_iff_unsigned[symmetric])
    with Cons show ?thesis
      using e(1,2,4) n'(4) cnt[of k''] cnt[of k] by (auto simp: slot_update)
  qed simp
  ultimately show ?case using add cnt by auto
qed

lemma prune_ok:
  assumes "tight tab" "lv = nlive tab" "mn \<le> c" "c < mn + length tab" "tab ! (c - mn) \<noteq> None"
  shows "\<exists>mn' lv' tab'. prune c mn lv tab = Inr (mn', lv', tab') \<and> pruned c mn tab mn' lv' tab'"
proof (cases "length tab = 1")
  case True
  then obtain x where "tab = [x]" by (metis One_nat_def length_0_conv length_Suc_conv)
  with assms show ?thesis
    by (auto simp: prune_def pruned_def tight_def slot_def fun_eq_iff)
next
  case False
  let ?t = "tab[c - mn := None]" and ?n = "length tab"
  have n: "?n \<ge> 2" using False assms(3,4) by (cases tab) (auto simp: Suc_le_eq)
  have lv2: "lv \<ge> 2" using tight_nlive[OF assms(1) n] assms(2) by simp
  have "c - mn < length tab" using assms(3,4) by simp
  from nlive_update[OF this, of None] have lv': "lv - 1 = nlive ?t" using assms(2,5) by simp
  have ends: "tab ! 0 \<noteq> None" "tab ! (?n - 1) \<noteq> None" using assms(1) n by (auto simp: tight_ends)
  have left: "c = mn \<Longrightarrow> ?t ! (?n - 1) \<noteq> None" and right: "c \<noteq> mn \<Longrightarrow> ?t ! 0 \<noteq> None"
    and mid: "c \<noteq> mn + ?n - 1 \<Longrightarrow> ?t ! (?n - 1) \<noteq> None"
    using ends n assms(3,4) by (auto simp: nth_list_update)
  note P = prune_def Let_def
  show ?thesis
  proof (cases "c = mn")
    case c: True
    have none0: "?t ! 0 = None" using c n by (cases tab) simp_all
    obtain i where i: "first_live ?t = Some i"
      using first_live_None[of ?t "?n - 1"] left[OF c] n by (cases "first_live ?t") auto
    note fi = first_live_Some[OF i]
    have pd: "pruned c mn tab (mn + i) (lv - 1) (drop i ?t)"
    proof (rule pruned_drop[OF assms(3,4)])
      show "?t ! j = None" if "j < i" for j using that fi(4)[of j] none0 by (cases j) auto
    qed (use fi left[OF c] lv' in auto)
    show ?thesis
    proof (cases "lv - 1 = 1")
      case True
      then have "i = ?n - 1"
        using nlive_two[of i "?n - 1" ?t] fi left[OF c] lv' by fastforce
      moreover obtain x where x: "?t ! (?n - 1) = Some x" using left[OF c] by auto
      moreover have "drop (?n - 1) ?t = [Some x]"
        using x n Cons_nth_drop_Suc[of "?n - 1" ?t] by simp
      ultimately show ?thesis using pd True c False lv2 by (simp add: P)
    next
      case False2: False
      with pd c i False lv2 show ?thesis by (simp add: P)
    qed
  next
    case c: False
    show ?thesis
    proof (cases "c = mn + ?n - 1")
      case r: True
      obtain i where i: "last_live ?t = Some i"
      proof (cases "last_live ?t")
        case None
        have "1 \<le> ?n - 1" "?n - 1 < length ?t" using n by auto
        from last_live_None[OF None this] right[OF c] show ?thesis by simp
      qed
      note fi = last_live_Some[OF i]
      have noneN: "?t ! (?n - 1) = None" using r n by simp
      have pd: "pruned c mn tab mn (lv - 1) (take (?n - i) ?t)"
      proof (rule pruned_take[OF assms(3,4)])
        show "?t ! j = None" if "?n - i \<le> j" "j < ?n" for j
          using that fi(4)[of "?n - 1 - j"] noneN fi(2) by (cases "j = ?n - 1") auto
      qed (use fi right[OF c] lv' in \<open>auto simp: diff_right_commute\<close>)
      show ?thesis
      proof (cases "lv - 1 = 1")
        case True
        then have "i = ?n - 1"
          using nlive_two[of 0 "?n - 1 - i" ?t] fi right[OF c] lv' by fastforce
        moreover obtain x where x: "?t ! 0 = Some x" using right[OF c] by auto
        moreover have "take 1 ?t = [Some x]" using x n by (cases ?t) auto
        moreover have "?n - (?n - 1) = 1" using n by simp
        ultimately show ?thesis using pd True c r False lv2 by (simp add: P)
      next
        case False2: False
        with pd c r i False lv2 show ?thesis by (simp add: P)
      qed
    next
      case m: False
      have "lv - 1 \<ge> 2" using nlive_two[of 0 "?n - 1" ?t] right[OF c] mid[OF m] n lv' by simp
      moreover have "pruned c mn tab mn (lv - 1) (take ?n ?t)"
        by (rule pruned_take[OF assms(3,4)]) (use right[OF c] mid[OF m] lv' n in auto)
      ultimately show ?thesis using c m False lv2 by (simp add: P)
    qed
  qed
qed

lemma redundant_empty:
  assumes "trie_wf t" "is_redundant t" shows "tcount k t = 0"
proof -
  have "nlive (table t) = 0" "tight (table t)" "refcnt t = 0"
    using trie_wfD(2,3)[OF assms(1)] assms(2) by (simp_all add: is_redundant_def)
  moreover from this have "table t = []" by (metis hd_in_set nlive_zero tight_def)
  ultimately show ?thesis by (cases k) (simp_all add: slot_def)
qed

lemma trie_rm_ok:
  "trie_wf t \<Longrightarrow> \<exists>t'. trie_rm k t = Inr (tcount k t = 1, t') \<and> trie_wf t' \<and>
     (\<forall>k'. tcount k' t' = (if k' = k then tcount k t - 1 else tcount k' t))"
proof (induction k arbitrary: t)
  case Nil
  let ?r = "refcnt t"
  show ?case
  proof (cases "?r = 0")
    case True
    with Nil show ?thesis by simp
  next
    case False
    then have r: "unat (?r - 1) = unat ?r - 1" by (simp add: unat_minus_one)
    have pos: "unat ?r > 0" using False by (simp add: unat_gt_0)
    have "?r - 1 = 0 \<longleftrightarrow> unat (?r - 1) = 0" by (simp only: unat_eq_zero)
    then have "?r - 1 = 0 \<longleftrightarrow> unat ?r = 1" unfolding r using pos by linarith
    moreover have "trie_wf (Trie (?r - 1) (tmin t) (live t) (table t))"
      using Nil.prems(1) by (cases t) (simp add: trie_wf_Trie)
    moreover have "tcount k' (Trie (?r - 1) (tmin t) (live t) (table t)) = (if k' = [] then unat ?r - 1 else tcount k' t)" for k'
      using r by (cases k') simp_all
    ultimately show ?thesis using False by simp
  qed
next
  case (Cons ch k)
  let ?c = "unat ch" and ?mn = "tmin t" and ?tab = "table t"
  show ?case
  proof (cases "slot ?mn ?tab ?c")
    case None
    then have "trie_rm (ch # k) t = Inr (False, t)"
      by (auto simp: slot_def Let_def split: if_splits)
    with None Cons.prems show ?thesis by simp
  next
    case (Some n)
    then have c: "?mn \<le> ?c" "?c < ?mn + length ?tab" and tab: "?tab ! (?c - ?mn) = Some n"
      by (auto simp: slot_def split: if_splits)
    have n: "trie_wf n" using trie_wfD(4)[OF Cons.prems] slot_in_set[OF Some] by simp
    from Cons.IH[OF n] obtain n' where n': "trie_rm k n = Inr (tcount k n = 1, n')" "trie_wf n'"
      "\<forall>k'. tcount k' n' = (if k' = k then tcount k n - 1 else tcount k' n)" by auto
    have inj: "unat d = ?c \<longleftrightarrow> d = ch" for d by (rule word_eq_iff_unsigned[symmetric])
    have cnt: "tcount (ch # k) t = tcount k n" by (simp add: Some)
    have guard: "\<not> (count t = 0 \<or> ?c < ?mn \<or> ?c \<ge> ?mn + count t)" using c by auto
    show ?thesis
    proof (cases "is_redundant n'")
      case True
      from prune_ok[OF trie_wfD(3,2)[OF Cons.prems] c] tab obtain mn' lv' tab'
        where p: "prune ?c ?mn (live t) ?tab = Inr (mn', lv', tab')" "pruned ?c ?mn ?tab mn' lv' tab'" by auto
      have "trie_rm (ch # k) t = Inr (tcount (ch # k) t = 1, Trie (refcnt t) mn' lv' tab')"
        using guard tab n'(1) True p(1) cnt by simp
      moreover have "trie_wf (Trie (refcnt t) mn' lv' tab')"
        using p(2) trie_wfD[OF Cons.prems] by (auto simp: trie_wf_Trie pruned_def)
      moreover have "tcount k' (Trie (refcnt t) mn' lv' tab') = (if k' = ch # k then tcount (ch # k) t - 1 else tcount k' t)" for k'
      proof (cases k')
        case (Cons d k'')
        have "slot mn' tab' = (slot ?mn ?tab)(?c := None)" using p(2) by (simp add: pruned_def)
        moreover have "tcount k'' n' = 0" "tcount k n' = 0" using redundant_empty[OF n'(2) True] by simp_all
        then have "tcount k n - 1 = 0" "k'' \<noteq> k \<Longrightarrow> tcount k'' n = 0" using n'(3) by (simp_all split: if_splits)
        ultimately show ?thesis using Cons Some inj[of d] by auto
      qed simp
      ultimately show ?thesis by blast
    next
      case False
      let ?t' = "Trie (refcnt t) ?mn (live t) (?tab[?c - ?mn := Some n'])"
      have "trie_rm (ch # k) t = Inr (tcount (ch # k) t = 1, ?t')"
        using guard tab n'(1) False cnt by simp
      moreover have "trie_wf ?t'"
      proof -
        have i: "?c - ?mn < length ?tab" using c by simp
        have "nlive (?tab[?c - ?mn := Some n']) = live t"
          using nlive_update[OF i, of "Some n'"] tab trie_wfD(2)[OF Cons.prems] by simp
        moreover have "tight (?tab[?c - ?mn := Some n'])"
          using trie_wfD(3)[OF Cons.prems] by (rule tight_update)
        moreover have "trie_wf m \<and> \<not> is_redundant m" if "Some m \<in> set (?tab[?c - ?mn := Some n'])" for m
          using that trie_wfD(4,5)[OF Cons.prems, of m] n'(2) False
            set_update_subset_insert[of ?tab "?c - ?mn" "Some n'"] by auto
        ultimately show ?thesis using trie_wfD(1)[OF Cons.prems] by (simp add: trie_wf_Trie)
      qed
      moreover have "tcount k' ?t' = (if k' = ch # k then tcount (ch # k) t - 1 else tcount k' t)" for k'
      proof (cases k')
        case (Cons d k'')
        then show ?thesis using n'(3) Some inj[of d] slot_update[OF c, of "Some n'"] by auto
      qed simp
      ultimately show ?thesis by blast
    qed
  qed
qed

text \<open>Matching: some prefix of the data is subscribed.\<close>

lemma trie_check_ok:
  "trie_wf t \<Longrightarrow> trie_check data t = Inr (\<exists>i \<le> length data. tcount (take i data) t > 0)"
proof (induction data arbitrary: t)
  case Nil
  then show ?case by (simp add: unat_gt_0)
next
  case (Cons ch data)
  let ?c = "unat ch"
  have split: "(\<exists>i \<le> length (ch # data). tcount (take i (ch # data)) t > 0) \<longleftrightarrow>
      refcnt t \<noteq> 0 \<or> (\<exists>i \<le> length data. tcount (ch # take i data) t > 0)" (is "?L \<longleftrightarrow> ?R")
  proof
    assume ?L
    then obtain i where i: "i \<le> length (ch # data)" "tcount (take i (ch # data)) t > 0" by blast
    then show ?R by (cases i) (auto simp: unat_gt_0)
  next
    assume ?R
    then show ?L
    proof
      assume "refcnt t \<noteq> 0"
      then show ?L by (intro exI[of _ 0]) (simp add: unat_gt_0)
    next
      assume "\<exists>i \<le> length data. tcount (ch # take i data) t > 0"
      then obtain i where "i \<le> length data" "tcount (ch # take i data) t > 0" by blast
      then show ?L by (intro exI[of _ "Suc i"]) simp
    qed
  qed
  show ?case
  proof (cases "slot (tmin t) (table t) ?c")
    case None
    have "count t = 1 \<Longrightarrow> table t ! 0 \<noteq> None"
      using trie_wfD(3)[OF Cons.prems] by (cases "table t") (auto simp: tight_def)
    then have "\<not> (tmin t \<le> ?c \<and> ?c < tmin t + count t \<and> count t = 1)"
      using None by (auto simp: slot_def split: if_splits)
    with None show ?thesis unfolding split
      by (auto simp: slot_def split: if_splits)
  next
    case (Some n)
    then have c: "tmin t \<le> ?c" "?c < tmin t + count t" and tab: "table t ! (?c - tmin t) = Some n"
      by (auto simp: slot_def split: if_splits)
    have "trie_wf n" using trie_wfD(4)[OF Cons.prems] slot_in_set[OF Some] by simp
    from Cons.IH[OF this] show ?thesis unfolding split using c tab Some by simp
  qed
qed

lemma distinct_concat_map:
  "distinct xs \<Longrightarrow> (\<And>x. x \<in> set xs \<Longrightarrow> distinct (f x)) \<Longrightarrow>
   (\<And>x y. x \<in> set xs \<Longrightarrow> y \<in> set xs \<Longrightarrow> x \<noteq> y \<Longrightarrow> set (f x) \<inter> set (f y) = {}) \<Longrightarrow>
   distinct (concat (map f xs))"
  by (induction xs) force+

lemma in_enumerate: "(i, x) \<in> set (enumerate 0 tab) \<longleftrightarrow> i < length tab \<and> tab ! i = x"
  by (auto simp: enumerate_eq_zip in_set_zip intro!: exI[of _ i])

lemma apply_helper_ok:
  "trie_wf t \<Longrightarrow> set (apply_helper buff t) = (\<lambda>k. buff @ k) ` {k. tcount k t > 0} \<and> distinct (apply_helper buff t)"
proof (induction buff t rule: apply_helper.induct)
  case (1 buff r mn lv tab)
  let ?f = "\<lambda>(i, n). case n of None \<Rightarrow> [] | Some n' \<Rightarrow> apply_helper (buff @ [of_nat (mn + i)]) n'"
  note wf = trie_wfD[OF "1.prems", simplified]
  have byte: "unat (of_nat (mn + i) :: byte) = mn + i" if "i < length tab" for i
    using wf(1) that by (simp add: unsigned_of_nat take_bit_nat_eq_self_iff del: of_nat_add)
  have IH: "set (apply_helper (buff @ [of_nat (mn + i)]) n) = (\<lambda>k. (buff @ [of_nat (mn + i)]) @ k) ` {k. tcount k n > 0}"
    "distinct (apply_helper (buff @ [of_nat (mn + i)]) n)" if "i < length tab" "tab ! i = Some n" for i n
  proof -
    have "Some n \<in> set tab" using that by (metis nth_mem)
    then have "trie_wf n" using wf(4) by simp
    moreover have "(i, Some n) \<in> set (enumerate 0 tab)" using that by (simp add: in_enumerate)
    ultimately show "set (apply_helper (buff @ [of_nat (mn + i)]) n) = (\<lambda>k. (buff @ [of_nat (mn + i)]) @ k) ` {k. tcount k n > 0}"
      "distinct (apply_helper (buff @ [of_nat (mn + i)]) n)"
      using "1.IH"[of "(i, Some n)" i "Some n" n] by auto
  qed
  have elem: "x \<in> set (?f (i, n)) \<longleftrightarrow> (\<exists>n' k. n = Some n' \<and> x = buff @ of_nat (mn + i) # k \<and> tcount k n' > 0)"
    if "(i, n) \<in> set (enumerate 0 tab)" for x i n
    using that IH(1)[of i] by (cases n) (auto simp: in_enumerate)
  have eq: "set (concat (map ?f (enumerate 0 tab))) = (\<lambda>k. buff @ k) ` {k. k \<noteq> [] \<and> tcount k (Trie r mn lv tab) > 0}"
  proof (intro set_eqI iffI)
    fix x assume "x \<in> set (concat (map ?f (enumerate 0 tab)))"
    then obtain i n where i: "(i, n) \<in> set (enumerate 0 tab)" "x \<in> set (?f (i, n))" by auto
    then obtain n' k where x: "n = Some n'" "x = buff @ of_nat (mn + i) # k" "tcount k n' > 0"
      using elem by blast
    moreover have "slot mn tab (unat (of_nat (mn + i) :: byte)) = Some n'"
      using i(1) x(1) byte[of i] by (simp add: in_enumerate slot_def)
    ultimately show "x \<in> (\<lambda>k. buff @ k) ` {k. k \<noteq> [] \<and> tcount k (Trie r mn lv tab) > 0}" by auto
  next
    fix x assume "x \<in> (\<lambda>k. buff @ k) ` {k. k \<noteq> [] \<and> tcount k (Trie r mn lv tab) > 0}"
    then obtain ch k n' where x: "x = buff @ ch # k" "slot mn tab (unat ch) = Some n'" "tcount k n' > 0"
      by (auto simp: neq_Nil_conv split: option.splits)
    let ?i = "unat ch - mn"
    have i: "?i < length tab" "tab ! ?i = Some n'" "mn + ?i = unat ch"
      using x(2) by (auto simp: slot_def split: if_splits)
    have "(of_nat (mn + ?i) :: byte) = ch" unfolding i(3) by simp
    then have "x \<in> set (?f (?i, Some n'))"
      using elem[of ?i "Some n'" x] i(1,2) x by (simp add: in_enumerate del: of_nat_add)
    moreover have "(?i, Some n') \<in> set (enumerate 0 tab)" using i(1,2) by (simp add: in_enumerate)
    ultimately show "x \<in> set (concat (map ?f (enumerate 0 tab)))"
      unfolding set_concat set_map by (rule UN_I[OF imageI, rotated])
  qed
  have "distinct (concat (map ?f (enumerate 0 tab)))"
  proof (rule distinct_concat_map)
    show "distinct (enumerate 0 tab)" by (simp add: enumerate_eq_zip distinct_zipI1)
    show "distinct (?f x)" if "x \<in> set (enumerate 0 tab)" for x
    proof -
      obtain i n where x: "x = (i, n)" by fastforce
      from that show ?thesis unfolding x using IH(2)[of i] by (auto simp: in_enumerate split: option.splits)
    qed
    show "set (?f x) \<inter> set (?f y) = {}"
      if xy: "x \<in> set (enumerate 0 tab)" "y \<in> set (enumerate 0 tab)" "x \<noteq> y" for x y
    proof -
      obtain i n j m where e: "x = (i, n)" "y = (j, m)" by fastforce
      have "i \<noteq> j" using xy e by (auto simp: in_enumerate)
      then have "(of_nat (mn + i) :: byte) \<noteq> of_nat (mn + j)"
        using byte[of i] byte[of j] xy e by (metis add_left_cancel in_enumerate)
      then show ?thesis using elem xy(1,2) unfolding e by fastforce
    qed
  qed
  then obtain L where L: "L = concat (map ?f (enumerate 0 tab))" "distinct L" by blast
  have run: "apply_helper buff (Trie r mn lv tab) = (if r \<noteq> 0 then [buff] else []) @ L"
    unfolding L(1) by (rule apply_helper.simps)
  have "{k. tcount k (Trie r mn lv tab) > 0} =
      (if r \<noteq> 0 then {[]} else {}) \<union> {k. k \<noteq> [] \<and> tcount k (Trie r mn lv tab) > 0}"
    by (auto simp: unat_gt_0)
  moreover have "set L = (\<lambda>k. buff @ k) ` {k. k \<noteq> [] \<and> tcount k (Trie r mn lv tab) > 0}"
    unfolding L(1) by (rule eq)
  moreover from this have "buff \<notin> set L" by auto
  ultimately show ?case unfolding run using L(2) by (auto simp del: tcount.simps)
qed

section \<open>The contract of a subscription store\<close>

text \<open>A sequence of additions (\<open>True\<close>) and removals of keys, and what it means for the counts.\<close>

fun store_run :: "('k \<Rightarrow> 's \<Rightarrow> (bool \<times> 's) result) \<Rightarrow> ('k \<Rightarrow> 's \<Rightarrow> (bool \<times> 's) result)
    \<Rightarrow> (bool \<times> 'k) list \<Rightarrow> 's \<Rightarrow> 's result" where
  "store_run add remove [] s = Inr s"
| "store_run add remove ((b, k) # ops) s =
     bindE (if b then add k s else remove k s) (\<lambda>(_, s'). store_run add remove ops s')"

fun sub_spec :: "(bool \<times> 'k) list \<Rightarrow> ('k \<Rightarrow> nat) \<Rightarrow> 'k \<Rightarrow> nat" where
  "sub_spec [] f = f"
| "sub_spec ((b, k) # ops) f = sub_spec ops (f(k := if b then Suc (f k) else f k - 1))"

locale subscription_store =
  fixes inv :: "'s \<Rightarrow> bool"
    and empty :: 's
    and cnt :: "'k list \<Rightarrow> 's \<Rightarrow> nat"
    and add :: "'k list \<Rightarrow> 's \<Rightarrow> (bool \<times> 's) result"
    and remove :: "'k list \<Rightarrow> 's \<Rightarrow> (bool \<times> 's) result"
    and check :: "'k list \<Rightarrow> 's \<Rightarrow> bool result"
    and limit :: nat
  assumes empty: "inv empty" "cnt k empty = 0"
    and add: "inv s \<Longrightarrow> cnt k s < limit \<Longrightarrow>
      \<exists>s'. add k s = Inr (cnt k s = 0, s') \<and> inv s' \<and> (\<forall>k'. cnt k' s' = (if k' = k then Suc (cnt k s) else cnt k' s))"
    and remove: "inv s \<Longrightarrow>
      \<exists>s'. remove k s = Inr (cnt k s = 1, s') \<and> inv s' \<and> (\<forall>k'. cnt k' s' = (if k' = k then cnt k s - 1 else cnt k' s))"
    and check: "inv s \<Longrightarrow> check d s = Inr (\<exists>i \<le> length d. cnt (take i d) s > 0)"
begin

lemma run_refines:
  "inv s \<Longrightarrow> (\<And>k. cnt k s + length ops \<le> limit) \<Longrightarrow>
   \<exists>s'. store_run add remove ops s = Inr s' \<and> inv s' \<and> (\<lambda>k. cnt k s') = sub_spec ops (\<lambda>k. cnt k s)"
proof (induction ops arbitrary: s)
  case Nil
  then show ?case by simp
next
  case (Cons op ops)
  obtain b k where op: "op = (b, k)" by fastforce
  have "cnt k s + length (op # ops) \<le> limit" by (rule Cons.prems(2))
  then have less: "cnt k s < limit" by simp
  define g where "g = (\<lambda>k. cnt k s)(k := if b then Suc (cnt k s) else cnt k s - 1)"
  obtain s1 r where s1: "(if b then add k s else remove k s) = Inr (r, s1)" "inv s1" "(\<lambda>k'. cnt k' s1) = g"
    using add[OF Cons.prems(1) less] remove[OF Cons.prems(1), of k] unfolding g_def fun_upd_def by (cases b) auto
  have "cnt k' s1 + length ops \<le> limit" for k'
  proof -
    have "cnt k' s1 \<le> Suc (cnt k' s)" using fun_cong[OF s1(3), of k'] by (auto simp: g_def)
    with Cons.prems(2)[of k'] show ?thesis by simp
  qed
  from Cons.IH[OF s1(2) this] show ?case
    using s1(1,3) op by (auto simp: g_def)
qed

lemma run_check:
  "length ops \<le> limit \<Longrightarrow> \<exists>s. store_run add remove ops empty = Inr s \<and>
     (\<forall>d. check d s = Inr (\<exists>i \<le> length d. sub_spec ops (\<lambda>_. 0) (take i d) > 0))"
  using run_refines[OF empty(1), of ops] check by (auto simp: empty(2) fun_eq_iff)

end

interpretation ts: subscription_store trie_wf trie_new tcount trie_add trie_rm trie_check "2 ^ 32 - 1"
proof
  show "trie_wf trie_new" by (rule trie_wf_new)
  show "tcount k trie_new = 0" for k by (rule trie_wf_new)
  show "\<exists>s'. trie_add k s = Inr (tcount k s = 0, s') \<and> trie_wf s' \<and>
      (\<forall>k'. tcount k' s' = (if k' = k then Suc (tcount k s) else tcount k' s))"
    if "trie_wf s" "tcount k s < 2 ^ 32 - 1" for s k
    using trie_add_ok[OF that] by blast
qed (fact trie_rm_ok trie_check_ok)+

section \<open>Properties\<close>

text \<open>
  C9. The subscription trie filters exactly: after any sequence of at most $2^{32}-1$
  subscriptions and cancellations, none of which violates an assertion, a message passes if
  and only if some prefix of it was subscribed more often than cancelled.
\<close>
theorem trie_filters_exactly:
  assumes "length ops \<le> 2 ^ 32 - 1"
  shows "\<exists>t. store_run trie_add trie_rm ops trie_new = Inr t \<and>
    (\<forall>d. trie_check d t = Inr (\<exists>i \<le> length d. sub_spec ops (\<lambda>_. 0) (take i d) > 0))"
  using assms by (rule ts.run_check)

text \<open>
  Every operation keeps the shape of the trie (bounds of the table within the characters,
  exact number of live subnodes, live entries at both ends, no redundant node), reports
  whether the key is new or gone, and changes the count of that key only; no
  assertion fails and no index leaves its table.
\<close>
theorem trie_operations:
  assumes "trie_wf t"
  shows "(tcount k t < 2 ^ 32 - 1 \<longrightarrow>
      (\<exists>t'. trie_add k t = Inr (tcount k t = 0, t') \<and> trie_wf t' \<and>
         (\<forall>k'. tcount k' t' = (if k' = k then Suc (tcount k t) else tcount k' t)))) \<and>
    (\<exists>t'. trie_rm k t = Inr (tcount k t = 1, t') \<and> trie_wf t' \<and>
       (\<forall>k'. tcount k' t' = (if k' = k then tcount k t - 1 else tcount k' t))) \<and>
    set (trie_apply t) = {k'. tcount k' t > 0} \<and> distinct (trie_apply t)"
  using trie_add_ok[OF assms, of k] trie_rm_ok[OF assms, of k] apply_helper_ok[OF assms, of "[]"]
  by (auto simp: trie_apply_def)

section \<open>Witnesses\<close>

theorem trie_filters_exactly_witness:
  "\<exists>t. store_run trie_add trie_rm [(True, [1, 2]), (True, [1]), (False, [1])] trie_new = Inr t \<and>
     trie_check [1, 2, 3] t = Inr True \<and> trie_check [1, 3] t = Inr False"
proof -
  let ?ops = "[(True, [1, 2]), (True, [1]), (False, [1])] :: (bool \<times> byte list) list"
  obtain t where run: "store_run trie_add trie_rm ?ops trie_new = Inr t"
    and chk: "\<forall>d. trie_check d t = Inr (\<exists>i \<le> length d. sub_spec ?ops (\<lambda>_. 0) (take i d) > 0)"
    using trie_filters_exactly[of ?ops] by auto
  have "\<exists>i \<le> length [1, 2, 3 :: byte]. sub_spec ?ops (\<lambda>_. 0) (take i [1, 2, 3]) > 0"
    by (intro exI[of _ 2]) simp
  then have "trie_check [1, 2, 3] t = Inr True" unfolding chk[rule_format] by blast
  moreover have "\<not> (\<exists>i \<le> length [1, 3 :: byte]. sub_spec ?ops (\<lambda>_. 0) (take i [1, 3]) > 0)"
    by (auto simp: take_Cons' split: if_splits)
  then have "trie_check [1, 3] t = Inr False" unfolding chk[rule_format] by blast
  ultimately show ?thesis using run by blast
qed

theorem trie_operations_witness:
  "set (trie_apply trie_new) = {} \<and> (\<exists>t'. trie_add [1] trie_new = Inr (True, t') \<and> trie_wf t')"
  using trie_operations[OF trie_wf_new(1), of "[1]"] by (auto simp: trie_wf_new(2))

end
