(* ===== verification/Mtrie.thy ===== *)
theory Mtrie
  imports Trie_Sub
begin

text \<open>
  The multi-trie of libzmq, \<^verbatim>\<open>generic_mtrie_impl.hpp\<close>, in which a PUB socket keeps the subscriptions of its
  pipes: every node has the set of the values stored under its key.  The two removals run over an
  explicit stack in the code, which revisits a node after each of its subnodes; here they are the recursion that
  the stack replaces, with the same steps before and after each subnode.  A \<^verbatim>\<open>std::set\<close> of pointers is
  an ordered list without duplicates.
\<close>

section \<open>The multi-trie\<close>

datatype mtrie = MTrie (mpipes: "nat list option") (mmin: nat) (mlive: nat) (mtable: "mtrie option list")

datatype rm_result = Not_found | Last_value_removed | Values_remain

definition mtrie_new :: mtrie where
  "mtrie_new = MTrie None 0 0 []"

definition m_redundant :: "mtrie \<Rightarrow> bool" where
  "m_redundant t \<longleftrightarrow> mpipes t = None \<and> mlive t = 0"

fun mtrie_add :: "byte list \<Rightarrow> nat \<Rightarrow> mtrie \<Rightarrow> (bool \<times> mtrie) result" where
  "mtrie_add [] x t = Inr (mpipes t = None,
     MTrie (Some (insort_insert x (case mpipes t of None \<Rightarrow> [] | Some ps \<Rightarrow> ps))) (mmin t) (mlive t) (mtable t))"
| "mtrie_add (ch # prefix) x t =
     (let c = unat ch; (mn, tab) = extend c (mmin t) (mtable t) in
      if length tab = 1 then
        (case tab ! 0 of
           None \<Rightarrow> bindE (mtrie_add prefix x mtrie_new)
             (\<lambda>(b, n). Inr (b, MTrie (mpipes t) mn (mlive t + 1) [Some n]))
         | Some n \<Rightarrow> bindE (mtrie_add prefix x n) (\<lambda>(b, n'). Inr (b, MTrie (mpipes t) mn (mlive t) [Some n'])))
      else if c - mn \<ge> length tab then Inl Bad_index
      else (case tab ! (c - mn) of
           None \<Rightarrow> bindE (mtrie_add prefix x mtrie_new)
             (\<lambda>(b, n). Inr (b, MTrie (mpipes t) mn (mlive t + 1) (tab[c - mn := Some n])))
         | Some n \<Rightarrow> bindE (mtrie_add prefix x n)
             (\<lambda>(b, n'). Inr (b, MTrie (mpipes t) mn (mlive t) (tab[c - mn := Some n'])))))"

text \<open>Pruning after the removal of one entry: new minimum, number of live subnodes, table.\<close>

definition m_prune :: "nat \<Rightarrow> nat \<Rightarrow> nat \<Rightarrow> mtrie option list \<Rightarrow> (nat \<times> nat \<times> mtrie option list) result" where
  "m_prune c mn lv tab =
     (if length tab = 1 then
        if lv - 1 \<noteq> 0 then Inl Assertion else Inr (mn, lv - 1, [])
      else
        let tab = tab[c - mn := None]; n = length tab in
        if \<not> lv > 1 then Inl Assertion
        else let lv = lv - 1 in
          if lv = 1 then
            (case List.find (\<lambda>i. tab ! i \<noteq> None) [0..<n] of None \<Rightarrow> Inl Assertion
             | Some i \<Rightarrow> Inr (mn + i, lv, [tab ! i]))
          else if c = mn then
            (case first_live tab of None \<Rightarrow> Inl Assertion | Some i \<Rightarrow> Inr (mn + i, lv, drop i tab))
          else if c = mn + n - 1 then
            (case last_live tab of None \<Rightarrow> Inl Assertion | Some i \<Rightarrow> Inr (mn, lv, take (n - i) tab))
          else Inr (mn, lv, tab))"

fun mtrie_rm :: "byte list \<Rightarrow> nat \<Rightarrow> mtrie \<Rightarrow> (rm_result \<times> mtrie) result" where
  "mtrie_rm [] x t = (case mpipes t of
       None \<Rightarrow> Inr (Not_found, t)
     | Some ps \<Rightarrow> let erased = (x \<in> set ps); ps' = removeAll x ps in
         if ps' = [] then
           if \<not> erased then Inl Assertion
           else Inr (Last_value_removed, MTrie None (mmin t) (mlive t) (mtable t))
         else Inr (if erased then Values_remain else Not_found, MTrie (Some ps') (mmin t) (mlive t) (mtable t)))"
| "mtrie_rm (ch # prefix) x t =
     (let c = unat ch in
      if length (mtable t) = 0 \<or> c < mmin t \<or> c \<ge> mmin t + length (mtable t) then Inr (Not_found, t)
      else (case mtable t ! (c - mmin t) of
          None \<Rightarrow> Inr (Not_found, t)
        | Some n \<Rightarrow>
            bindE (mtrie_rm prefix x n) (\<lambda>(ret, n').
              if m_redundant n' then
                bindE (m_prune c (mmin t) (mlive t) (mtable t))
                  (\<lambda>(mn, lv, tab). Inr (ret, MTrie (mpipes t) mn lv tab))
              else Inr (ret, MTrie (mpipes t) (mmin t) (mlive t) ((mtable t)[c - mmin t := Some n'])))))"

text \<open>
  Removal of a value from the whole trie.  The callback is reported by the keys it is called with.  First
  what happens to the values of one node:
\<close>

definition drop_value :: "nat \<Rightarrow> bool \<Rightarrow> byte list \<Rightarrow> nat list option \<Rightarrow> byte list list \<times> nat list option" where
  "drop_value x call_on_uniq buff ps = (case ps of
      None \<Rightarrow> ([], None)
    | Some xs \<Rightarrow> if x \<in> set xs
        then let ys = removeAll x xs in
          (if \<not> call_on_uniq \<or> ys = [] then [buff] else [], if ys = [] then None else Some ys)
        else ([], Some xs))"

text \<open>The table after the last subnode was visited.\<close>

definition compact :: "nat \<Rightarrow> nat \<Rightarrow> nat \<Rightarrow> nat \<Rightarrow> mtrie option list \<Rightarrow> (nat \<times> mtrie option list) result" where
  "compact mn lv new_min new_max tab =
     (if lv = 0 then Inr (mn, [])
      else if lv = 1 then
        if new_min \<noteq> new_max \<or> new_min < mn \<or> new_min \<ge> mn + length tab \<or> tab ! (new_min - mn) = None then Inl Assertion
        else Inr (new_min, [tab ! (new_min - mn)])
      else if new_min > mn \<or> new_max < mn + length tab - 1 then
        if \<not> new_max > new_min \<or> new_min < mn \<or> new_max > mn + length tab - 1 \<or> \<not> new_max - new_min + 1 < length tab then Inl Assertion
        else Inr (new_min, take (new_max - new_min + 1) (drop (new_min - mn) tab))
      else Inr (mn, tab))"

function mtrie_rm_node :: "nat \<Rightarrow> bool \<Rightarrow> byte list \<Rightarrow> mtrie \<Rightarrow> (byte list list \<times> mtrie) result"
  and mtrie_rm_kids :: "nat \<Rightarrow> bool \<Rightarrow> byte list \<Rightarrow> nat \<Rightarrow> mtrie option list \<Rightarrow> nat \<times> nat \<times> nat \<Rightarrow>
    (byte list list \<times> (nat \<times> nat \<times> nat) \<times> mtrie option list) result" where
  "mtrie_rm_node x u buff (MTrie ps mn lv []) =
     (let (calls, ps') = drop_value x u buff ps in Inr (calls, MTrie ps' mn lv []))"
| "mtrie_rm_node x u buff (MTrie ps mn lv [None]) = Inl Bad_pointer"
| "mtrie_rm_node x u buff (MTrie ps mn lv [Some n]) =
     (let (calls, ps') = drop_value x u buff ps in
      bindE (mtrie_rm_node x u (buff @ [of_nat mn]) n) (\<lambda>(calls', n').
        if m_redundant n' then
          if lv - 1 \<noteq> 0 then Inl Assertion else Inr (calls @ calls', MTrie ps' mn (lv - 1) [])
        else Inr (calls @ calls', MTrie ps' mn lv [Some n'])))"
| "mtrie_rm_node x u buff (MTrie ps mn lv (n1 # n2 # ns)) =
     (let (calls, ps') = drop_value x u buff ps; tab = n1 # n2 # ns in
      bindE (mtrie_rm_kids x u buff mn tab (lv, mn + length tab - 1, mn)) (\<lambda>(calls', (lv', new_min, new_max), tab').
        bindE (compact mn lv' new_min new_max tab') (\<lambda>(mn', tab''). Inr (calls @ calls', MTrie ps' mn' lv' tab''))))"
| "mtrie_rm_kids x u buff c [] acc = Inr ([], acc, [])"
| "mtrie_rm_kids x u buff c (None # ns) acc =
     bindE (mtrie_rm_kids x u buff (c + 1) ns acc) (\<lambda>(calls, acc', ns'). Inr (calls, acc', None # ns'))"
| "mtrie_rm_kids x u buff c (Some n # ns) (lv, new_min, new_max) =
     bindE (mtrie_rm_node x u (buff @ [of_nat c]) n) (\<lambda>(calls, n').
       if m_redundant n' then
         if \<not> lv > 0 then Inl Assertion
         else bindE (mtrie_rm_kids x u buff (c + 1) ns (lv - 1, new_min, new_max)) (\<lambda>(calls', acc', ns').
           Inr (calls @ calls', acc', None # ns'))
       else bindE (mtrie_rm_kids x u buff (c + 1) ns (lv, if c < new_min then c else new_min, if c > new_max then c else new_max))
         (\<lambda>(calls', acc', ns'). Inr (calls @ calls', acc', Some n' # ns')))"
  by pat_completeness auto
termination
  by (relation "measure (\<lambda>z. case z of Inl (x, u, b, t) \<Rightarrow> size t | Inr (x, u, b, c, tab, a) \<Rightarrow> size_list (size_option size) tab)") auto

definition mtrie_rm_value :: "nat \<Rightarrow> bool \<Rightarrow> mtrie \<Rightarrow> (byte list list \<times> mtrie) result" where
  "mtrie_rm_value x call_on_uniq t = mtrie_rm_node x call_on_uniq [] t"

text \<open>The values that the callback of \<^verbatim>\<open>match\<close> gets, in order.\<close>

fun mtrie_match :: "byte list \<Rightarrow> mtrie \<Rightarrow> nat list" where
  "mtrie_match [] t = (case mpipes t of None \<Rightarrow> [] | Some ps \<Rightarrow> ps)"
| "mtrie_match (ch # data) t =
     (case mpipes t of None \<Rightarrow> [] | Some ps \<Rightarrow> ps) @
     (let c = unat ch in
      if length (mtable t) = 0 then []
      else if c < mmin t \<or> c \<ge> mmin t + length (mtable t) then []
      else (case mtable t ! (c - mmin t) of None \<Rightarrow> [] | Some n \<Rightarrow> mtrie_match data n))"

section \<open>Invariant and abstraction\<close>

inductive mtrie_wf :: "mtrie \<Rightarrow> bool" where
  "mn + length tab \<le> 256 \<Longrightarrow> lv = nlive tab \<Longrightarrow> tight tab \<Longrightarrow> (\<And>xs. ps = Some xs \<Longrightarrow> xs \<noteq> [] \<and> sorted xs \<and> distinct xs) \<Longrightarrow>
   (\<And>n. Some n \<in> set tab \<Longrightarrow> mtrie_wf n \<and> \<not> m_redundant n) \<Longrightarrow> mtrie_wf (MTrie ps mn lv tab)"

inductive_simps mtrie_wf_MTrie: "mtrie_wf (MTrie ps mn lv tab)"

text \<open>The values stored under a key.\<close>

definition values_of :: "nat list option \<Rightarrow> nat set" where
  "values_of ps = (case ps of None \<Rightarrow> {} | Some xs \<Rightarrow> set xs)"

fun subs :: "mtrie \<Rightarrow> byte list \<Rightarrow> nat set" where
  "subs t [] = values_of (mpipes t)"
| "subs t (ch # k) = (case slot (mmin t) (mtable t) (unat ch) of None \<Rightarrow> {} | Some n \<Rightarrow> subs n k)"

lemma values_of_simps [simp]: "values_of None = {}" "values_of (Some xs) = set xs"
  by (simp_all add: values_of_def)

lemma mtrie_wf_new: "mtrie_wf mtrie_new" "subs mtrie_new k = {}"
  by (auto simp: mtrie_new_def mtrie_wf_MTrie tight_def slot_def intro: list.exhaust[of k])

lemma mtrie_wf_eq:
  "mtrie_wf t \<longleftrightarrow> mmin t + length (mtable t) \<le> 256 \<and> mlive t = nlive (mtable t) \<and> tight (mtable t) \<and>
     (\<forall>xs. mpipes t = Some xs \<longrightarrow> xs \<noteq> [] \<and> sorted xs \<and> distinct xs) \<and>
     (\<forall>n. Some n \<in> set (mtable t) \<longrightarrow> mtrie_wf n \<and> \<not> m_redundant n)"
  by (cases t) (simp add: mtrie_wf_MTrie)

lemma mtrie_wfD:
  assumes "mtrie_wf t"
  shows "mmin t + length (mtable t) \<le> 256" "mlive t = nlive (mtable t)" "tight (mtable t)"
    "Some n \<in> set (mtable t) \<Longrightarrow> mtrie_wf n" "Some n \<in> set (mtable t) \<Longrightarrow> \<not> m_redundant n"
    "mpipes t = Some xs \<Longrightarrow> xs \<noteq> [] \<and> sorted xs \<and> distinct xs"
  using assms by (simp_all add: mtrie_wf_eq[of t])

lemma values_empty: "mtrie_wf t \<Longrightarrow> values_of (mpipes t) = {} \<longleftrightarrow> mpipes t = None"
  using mtrie_wfD(6)[of t] by (cases "mpipes t") auto

lemma m_redundant_empty:
  assumes "mtrie_wf t" "m_redundant t" shows "subs t k = {}"
proof -
  have "nlive (mtable t) = 0" "tight (mtable t)" "mpipes t = None"
    using mtrie_wfD(2,3)[OF assms(1)] assms(2) by (simp_all add: m_redundant_def)
  moreover from this have "mtable t = []" by (metis hd_in_set nlive_zero tight_def)
  ultimately show ?thesis by (cases k) simp_all
qed

text \<open>Replacing the subnode of one character.\<close>

lemma subs_replace:
  assumes "slot mn tab = (slot (mmin t) (mtable t))(unat ch := v)"
    and "(case v of None \<Rightarrow> \<lambda>_. {} | Some n \<Rightarrow> subs n) = h"
  shows "subs (MTrie (mpipes t) mn lv tab) k' = (case k' of [] \<Rightarrow> subs t [] | d # k \<Rightarrow> if d = ch then h k else subs t k')"
proof (cases k')
  case (Cons d k)
  have "unat d = unat ch \<longleftrightarrow> d = ch" by (rule word_eq_iff_unsigned[symmetric])
  with Cons assms show ?thesis by (auto split: option.splits)
qed simp

lemma mtrie_add_Cons:
  assumes wf: "mtrie_wf t" and ext: "extend (unat ch) (mmin t) (mtable t) = (mn, tab)"
    and sub: "mtrie_add k x (case slot (mmin t) (mtable t) (unat ch) of None \<Rightarrow> mtrie_new | Some n \<Rightarrow> n) = Inr (b, n)"
  shows "mtrie_add (ch # k) x t =
    Inr (b, MTrie (mpipes t) mn (nlive (tab[unat ch - mn := Some n])) (tab[unat ch - mn := Some n]))"
proof -
  let ?c = "unat ch"
  have "?c < 256" using unsigned_less[of ch] by simp
  note e0 = extend_ok[OF mtrie_wfD(3,1)[OF wf] this ext, of n]
  have e: "mn \<le> ?c" "?c < mn + length tab" "nlive tab = mlive t" "slot mn tab = slot (mmin t) (mtable t)"
    using e0 mtrie_wfD(2)[OF wf] by simp_all
  have s: "tab ! (?c - mn) = slot (mmin t) (mtable t) ?c"
    using e by (simp add: slot_def flip: e(4))
  have up: "nlive (tab[?c - mn := Some n]) + (if tab ! (?c - mn) = None then 0 else 1) = mlive t + 1"
    using nlive_update[of "?c - mn" tab "Some n"] e by simp
  show ?thesis
  proof (cases "length tab = 1")
    case True
    then obtain y where y: "tab = [y]" by (metis One_nat_def length_0_conv length_Suc_conv)
    then have "?c - mn = 0" using e(1,2) by simp
    then have "y = slot (mmin t) (mtable t) ?c" using y s by simp
    with y up sub \<open>?c - mn = 0\<close> show ?thesis by (cases y) (auto simp: ext split: option.splits)
  next
    case False
    have idx: "\<not> ?c - mn \<ge> length tab" using e(1,2) by simp
    with False up s sub show ?thesis by (cases "slot (mmin t) (mtable t) ?c") (auto simp: ext Let_def)
  qed
qed

lemma mtrie_add_ok:
  "mtrie_wf t \<Longrightarrow> \<exists>t'. mtrie_add k x t = Inr (subs t k = {}, t') \<and> mtrie_wf t' \<and> \<not> m_redundant t' \<and>
     subs t' = (subs t)(k := insert x (subs t k))"
proof (induction k arbitrary: t)
  case Nil
  let ?t = "MTrie (Some (insort_insert x (case mpipes t of None \<Rightarrow> [] | Some ps \<Rightarrow> ps))) (mmin t) (mlive t) (mtable t)"
  have "values_of (mpipes t) = set (case mpipes t of None \<Rightarrow> [] | Some ps \<Rightarrow> ps)" by (cases "mpipes t") auto
  then have "subs ?t k = ((subs t)([] := insert x (subs t []))) k" for k
    by (cases k) (simp_all add: set_insort_insert)
  moreover have "mtrie_wf ?t"
    using mtrie_wfD[OF Nil.prems] by (auto simp: mtrie_wf_MTrie sorted_insort_insert distinct_insort_insert insort_insert_insort insort_insert_triv split: option.splits)
      (metis insort_insert_key_def insort_not_Nil)+
  ultimately show ?case using values_empty[OF Nil.prems] by (auto simp: m_redundant_def fun_eq_iff)
next
  case (Cons ch k)
  let ?c = "unat ch"
  define n where "n = (case slot (mmin t) (mtable t) ?c of None \<Rightarrow> mtrie_new | Some n \<Rightarrow> n)"
  have c: "?c < 256" using unsigned_less[of ch] by simp
  have n: "mtrie_wf n"
    using mtrie_wfD(4)[OF Cons.prems] by (auto simp: n_def mtrie_wf_new dest: slot_in_set split: option.splits)
  have cnt: "subs t (ch # k') = subs n k'" for k'
    by (simp add: n_def mtrie_wf_new split: option.splits)
  from Cons.IH[OF n] obtain n' where n': "mtrie_add k x n = Inr (subs n k = {}, n')"
    "mtrie_wf n'" "\<not> m_redundant n'" "subs n' = (subs n)(k := insert x (subs n k))" by blast
  obtain mn tab where ext: "extend ?c (mmin t) (mtable t) = (mn, tab)" by fastforce
  let ?t' = "MTrie (mpipes t) mn (nlive (tab[?c - mn := Some n'])) (tab[?c - mn := Some n'])"
  have add: "mtrie_add (ch # k) x t = Inr (subs n k = {}, ?t')"
    using mtrie_add_Cons[OF Cons.prems ext] n'(1) by (simp add: n_def)
  have e: "mn \<le> ?c" "?c < mn + length tab" "mn + length tab \<le> 256" "slot mn tab = slot (mmin t) (mtable t)"
    "\<forall>n. Some n \<in> set tab \<longleftrightarrow> Some n \<in> set (mtable t)" "tight (tab[?c - mn := Some n'])"
    using extend_ok[OF mtrie_wfD(3,1)[OF Cons.prems] c ext, of n'] by simp_all
  have "mtrie_wf m \<and> \<not> m_redundant m" if "Some m \<in> set (tab[?c - mn := Some n'])" for m
    using that e(5) mtrie_wfD(4,5)[OF Cons.prems, of m] n'(2,3) set_update_subset_insert[of tab "?c - mn" "Some n'"]
    by auto
  then have "mtrie_wf ?t'"
    using e mtrie_wfD(6)[OF Cons.prems] by (simp add: mtrie_wf_MTrie)
  moreover have "nlive (tab[?c - mn := Some n']) \<noteq> 0"
    using nlive_zero[of "tab[?c - mn := Some n']" "Some n'"] e(1,2) by (auto simp: set_update_memI)
  then have "\<not> m_redundant ?t'" by (simp add: m_redundant_def)
  moreover have "slot mn (tab[?c - mn := Some n']) = (slot (mmin t) (mtable t))(?c := Some n')"
    using e(1,2,4) by (auto simp: slot_update fun_eq_iff)
  from subs_replace[OF this, of "subs n'" "nlive (tab[?c - mn := Some n'])"] cnt n'(4)
  have "subs ?t' = (subs t)(ch # k := insert x (subs t (ch # k)))"
    by (auto simp: fun_eq_iff split: list.splits)
  ultimately show ?case using add cnt by auto
qed

lemma nlive_one_unique: "nlive tab = 1 \<Longrightarrow> i < length tab \<Longrightarrow> tab ! i \<noteq> None \<Longrightarrow> j < length tab \<Longrightarrow> j \<noteq> i \<Longrightarrow> tab ! j = None"
  using nlive_two[of i j tab] nlive_two[of j i tab] by (cases "i < j") fastforce+

lemma single_slot:
  assumes "i < length tab" "\<And>j. j < length tab \<Longrightarrow> j \<noteq> i \<Longrightarrow> tab ! j = None"
  shows "slot (mn + i) [tab ! i] = slot mn tab"
proof
  fix c
  show "slot (mn + i) [tab ! i] c = slot mn tab c"
    using assms(1) assms(2)[of "c - mn"] by (cases "c = mn + i") (auto simp: slot_def)
qed

lemma m_prune_ok:
  assumes "tight tab" "lv = nlive tab" "mn \<le> c" "c < mn + length tab" "tab ! (c - mn) \<noteq> None"
  shows "\<exists>mn' lv' tab'. m_prune c mn lv tab = Inr (mn', lv', tab') \<and> pruned c mn tab mn' lv' tab'"
proof (cases "length tab = 1 \<or> lv \<noteq> 2")
  case True
  then have "m_prune c mn lv tab = prune c mn lv tab" by (auto simp: m_prune_def prune_def Let_def)
  then show ?thesis using prune_ok[OF assms] by simp
next
  case False
  let ?t = "tab[c - mn := None]"
  have "c - mn < length tab" using assms(3,4) by simp
  from nlive_update[OF this, of None] have one: "nlive ?t = 1" using assms(2,5) False by simp
  obtain i where i: "List.find (\<lambda>i. ?t ! i \<noteq> None) [0..<length ?t] = Some i"
  proof (cases "List.find (\<lambda>i. ?t ! i \<noteq> None) [0..<length ?t]")
    case None
    then have "\<forall>j < length ?t. ?t ! j = None" by (auto simp: find_None_iff)
    then have "nlive ?t = 0" unfolding nlive_def by (auto simp: filter_empty_conv in_set_conv_nth)
    with one show ?thesis by simp
  qed
  then have il: "i < length ?t" "?t ! i \<noteq> None" by (auto simp: find_Some_iff)
  have "slot (mn + i) [?t ! i] = (slot mn tab)(c := None)"
    using single_slot[OF il(1) nlive_one_unique[OF one il]] slot_update[OF assms(3,4), of None] by (auto simp: fun_eq_iff)
  moreover have "?t ! i \<in> set ?t" using il(1) by (rule nth_mem)
  then have "Some n \<in> set tab" if "?t ! i = Some n" for n
    using that set_update_subset_insert[of tab "c - mn" None] by auto
  ultimately have "pruned c mn tab (mn + i) 1 [?t ! i]" using il by (auto simp: pruned_def tight_def)
  with i False show ?thesis by (simp add: m_prune_def Let_def)
qed

definition rm_code :: "nat \<Rightarrow> nat set \<Rightarrow> rm_result" where
  "rm_code x X = (if x \<notin> X then Not_found else if X = {x} then Last_value_removed else Values_remain)"

lemma set_removeAll_empty: "removeAll x xs = [] \<longleftrightarrow> set xs \<subseteq> {x}"
  by (induction xs) auto

lemma mtrie_wf_values:
  "mtrie_wf t \<Longrightarrow> mtrie_wf (MTrie None (mmin t) (mlive t) (mtable t))"
  "mtrie_wf t \<Longrightarrow> mpipes t = Some xs \<Longrightarrow> removeAll x xs \<noteq> [] \<Longrightarrow> mtrie_wf (MTrie (Some (removeAll x xs)) (mmin t) (mlive t) (mtable t))"
  using mtrie_wfD[of t] by (auto simp: mtrie_wf_MTrie removeAll_filter_not_eq sorted_wrt_filter)

lemma subs_values: "values_of ps = X \<Longrightarrow> subs (MTrie ps (mmin t) lv (mtable t)) = (subs t)([] := X)"
proof
  fix k assume "values_of ps = X"
  then show "subs (MTrie ps (mmin t) lv (mtable t)) k = ((subs t)([] := X)) k" by (cases k) simp_all
qed

lemma mtrie_rm_ok:
  "mtrie_wf t \<Longrightarrow> \<exists>t'. mtrie_rm k x t = Inr (rm_code x (subs t k), t') \<and> mtrie_wf t' \<and> subs t' = (subs t)(k := subs t k - {x})"
proof (induction k arbitrary: t)
  case Nil
  show ?case
  proof (cases "mpipes t")
    case None
    then show ?thesis using Nil by (auto simp: rm_code_def fun_eq_iff)
  next
    case (Some xs)
    have ne: "xs \<noteq> []" using mtrie_wfD(6)[OF Nil Some] by blast
    show ?thesis
    proof (cases "removeAll x xs = []")
      case True
      then have "set xs = {x}" using ne unfolding set_removeAll_empty by (cases xs) auto
      with True Some mtrie_wf_values(1)[OF Nil] subs_values[of None "{}" t "mlive t"] show ?thesis by (simp add: rm_code_def fun_upd_def)
    next
      case False
      then have "\<not> set xs \<subseteq> {x}" by (simp add: set_removeAll_empty)
      with False Some mtrie_wf_values(2)[OF Nil Some False] subs_values[of "Some (removeAll x xs)" "set xs - {x}" t "mlive t"] show ?thesis
        by (auto simp: rm_code_def fun_eq_iff)
    qed
  qed
next
  case (Cons ch k)
  let ?c = "unat ch" and ?tab = "mtable t" and ?mn = "mmin t"
  have none: "mtrie_rm (ch # k) x t = Inr (Not_found, t) \<and> subs t (ch # k) = {}" if "slot ?mn ?tab ?c = None"
    using that by (auto simp: slot_def Let_def split: if_splits)
  show ?case
  proof (cases "slot ?mn ?tab ?c")
    case None
    with none Cons.prems show ?thesis by (auto simp: rm_code_def fun_eq_iff)
  next
    case (Some n)
    then have c: "?mn \<le> ?c" "?c < ?mn + length ?tab" "?tab ! (?c - ?mn) = Some n" by (auto simp: slot_def split: if_splits)
    have n: "mtrie_wf n" using mtrie_wfD(4)[OF Cons.prems] slot_in_set[OF Some] by simp
    from Cons.IH[OF n] obtain n' where n': "mtrie_rm k x n = Inr (rm_code x (subs n k), n')" "mtrie_wf n'"
      "subs n' = (subs n)(k := subs n k - {x})" by blast
    have st: "subs t (ch # k') = subs n k'" for k' using Some by simp
    show ?thesis
    proof (cases "m_redundant n'")
      case True
      from m_prune_ok[OF mtrie_wfD(3,2)[OF Cons.prems] c(1,2)] c(3) obtain mn' lv' tab' where
        p: "m_prune ?c ?mn (mlive t) ?tab = Inr (mn', lv', tab')" "pruned ?c ?mn ?tab mn' lv' tab'" by auto
      have "mtrie_wf (MTrie (mpipes t) mn' lv' tab')"
        using p(2) mtrie_wfD[OF Cons.prems] by (auto simp: mtrie_wf_MTrie pruned_def)
      moreover have e: "((subs n)(k := subs n k - {x})) k' = {}" for k' using m_redundant_empty[OF n'(2) True] n'(3) by simp
      have "subs n k - {x} = {}" "\<And>k'. k' \<noteq> k \<Longrightarrow> subs n k' = {}" using e[of k] e by (simp_all add: fun_upd_def split: if_splits) metis
      then have "subs (MTrie (mpipes t) mn' lv' tab') k' = ((subs t)(ch # k := subs t (ch # k) - {x})) k'" for k'
        using subs_replace[of mn' tab' t ch None "\<lambda>_. {}" lv' k'] p(2) st
        by (auto simp: pruned_def simp del: subs.simps(2) split: list.splits)
      then have "subs (MTrie (mpipes t) mn' lv' tab') = (subs t)(ch # k := subs t (ch # k) - {x})" by (rule ext)
      ultimately show ?thesis using c n'(1) p(1) True st by (auto simp: Let_def)
    next
      case False
      let ?t = "MTrie (mpipes t) ?mn (mlive t) (?tab[?c - ?mn := Some n'])"
      have "nlive (?tab[?c - ?mn := Some n']) = nlive ?tab" using nlive_update[of "?c - ?mn" ?tab "Some n'"] c by simp
      then have "mtrie_wf ?t"
        using mtrie_wfD[OF Cons.prems] n'(2) False set_update_subset_insert[of ?tab "?c - ?mn" "Some n'"]
        by (auto simp: mtrie_wf_MTrie tight_update)
      moreover have "slot ?mn (?tab[?c - ?mn := Some n']) = (slot ?mn ?tab)(?c := Some n')"
        using c by (auto simp: slot_update fun_eq_iff)
      from subs_replace[OF this, of "subs n'" "mlive t"] n'(3) st
      have "subs ?t = (subs t)(ch # k := subs t (ch # k) - {x})" by (auto simp: fun_eq_iff split: list.splits)
      ultimately show ?thesis using c n'(1) False st by (auto simp: Let_def)
    qed
  qed
qed

lemma mtrie_match_ok: "mtrie_wf t \<Longrightarrow> set (mtrie_match d t) = (\<Union>i \<le> length d. subs t (take i d))"
proof (induction d arbitrary: t)
  case Nil
  show ?case by (cases "mpipes t") auto
next
  case (Cons ch d)
  have split: "(\<Union>i \<le> length (ch # d). subs t (take i (ch # d))) = subs t [] \<union> (\<Union>i \<le> length d. subs t (ch # take i d))"
    by (auto simp: atMost_Suc_eq_insert_0)
  have here: "set (case mpipes t of None \<Rightarrow> [] | Some ps \<Rightarrow> ps) = subs t []" by (cases "mpipes t") auto
  show ?case
  proof (cases "slot (mmin t) (mtable t) (unat ch)")
    case None
    then show ?thesis unfolding split using here by (auto simp: slot_def Let_def split: if_splits)
  next
    case (Some n)
    then have "mtrie_match (ch # d) t = (case mpipes t of None \<Rightarrow> [] | Some ps \<Rightarrow> ps) @ mtrie_match d n"
      by (auto simp: slot_def Let_def split: if_splits)
    moreover have "mtrie_wf n" using mtrie_wfD(4)[OF Cons.prems] slot_in_set[OF Some] by simp
    ultimately show ?thesis unfolding split using here Cons.IH[of n] Some by simp
  qed
qed

section \<open>Removal of a value\<close>

text \<open>The keys for which the callback is called, the least and the greatest live character.\<close>

definition lost :: "nat \<Rightarrow> bool \<Rightarrow> nat set \<Rightarrow> bool" where
  "lost x u X \<longleftrightarrow> x \<in> X \<and> (u \<longrightarrow> X = {x})"

definition csubs :: "mtrie option \<Rightarrow> byte list \<Rightarrow> nat set" where
  "csubs n k = (case n of None \<Rightarrow> {} | Some n' \<Rightarrow> subs n' k)"

lemma csubs_simps [simp]: "csubs (Some n) = subs n" "csubs None = (\<lambda>_. {})"
  by (simp_all add: fun_eq_iff csubs_def)

definition lowest :: "nat \<Rightarrow> 'a option list \<Rightarrow> nat \<Rightarrow> nat \<Rightarrow> bool" where
  "lowest c tab a a' \<longleftrightarrow> a' \<le> a \<and> (\<forall>i < length tab. tab ! i \<noteq> None \<longrightarrow> a' \<le> c + i) \<and>
     (a' = a \<or> (\<exists>i < length tab. tab ! i \<noteq> None \<and> a' = c + i))"

definition highest :: "nat \<Rightarrow> 'a option list \<Rightarrow> nat \<Rightarrow> nat \<Rightarrow> bool" where
  "highest c tab b b' \<longleftrightarrow> b \<le> b' \<and> (\<forall>i < length tab. tab ! i \<noteq> None \<longrightarrow> c + i \<le> b') \<and>
     (b' = b \<or> (\<exists>i < length tab. tab ! i \<noteq> None \<and> b' = c + i))"

lemma lost_simps [simp]: "\<not> lost x u {}" "lost x u X \<Longrightarrow> x \<in> X"
  by (simp_all add: lost_def)

lemma drop_value_ok:
  assumes "\<And>xs. ps = Some xs \<Longrightarrow> xs \<noteq> [] \<and> sorted xs \<and> distinct xs" "drop_value x u buff ps = (calls, ps')"
  shows "values_of ps' = values_of ps - {x}" "calls = (if lost x u (values_of ps) then [buff] else [])"
    "ps' = Some ys \<Longrightarrow> ys \<noteq> [] \<and> sorted ys \<and> distinct ys"
proof -
  have e: "removeAll x xs = [] \<longleftrightarrow> set xs = {x}" if "x \<in> set xs" for xs using that unfolding set_removeAll_empty by auto
  show "values_of ps' = values_of ps - {x}" "calls = (if lost x u (values_of ps) then [buff] else [])"
    using assms e by (auto simp: drop_value_def lost_def Let_def split: option.splits if_splits)
  show "ps' = Some ys \<Longrightarrow> ys \<noteq> [] \<and> sorted ys \<and> distinct ys"
    using assms by (auto simp: drop_value_def Let_def removeAll_filter_not_eq sorted_wrt_filter split: option.splits if_splits)
qed

lemma nth_Cons_all: "(\<forall>i < length (y # ys). P i) \<longleftrightarrow> P 0 \<and> (\<forall>i < length ys. P (Suc i))"
  by (simp add: All_less_Suc2)

lemma nth_Cons_ex: "(\<exists>i < length (y # ys). P i) \<longleftrightarrow> P 0 \<or> (\<exists>i < length ys. P (Suc i))"
  by (simp add: Ex_less_Suc2)

lemma lowest_None: "lowest (c + 1) tab a a' \<Longrightarrow> lowest c (None # tab) a a'"
  unfolding lowest_def nth_Cons_all nth_Cons_ex by auto

lemma lowest_Some: "lowest (c + 1) tab (if c < a then c else a) a' \<Longrightarrow> lowest c (Some n # tab) a a'"
  unfolding lowest_def nth_Cons_all nth_Cons_ex by (auto split: if_splits)

lemma highest_None: "highest (c + 1) tab b b' \<Longrightarrow> highest c (None # tab) b b'"
  unfolding highest_def nth_Cons_all nth_Cons_ex by auto

lemma highest_Some: "highest (c + 1) tab (if c > b then c else b) b' \<Longrightarrow> highest c (Some n # tab) b b'"
  unfolding highest_def nth_Cons_all nth_Cons_ex by (auto split: if_splits)

lemma nlive_le: "nlive tab \<le> length tab" by (simp add: nlive_def)

lemma nlive_ex: "nlive tab > 0 \<Longrightarrow> \<exists>i < length tab. tab ! i \<noteq> None"
  unfolding nlive_def by (metis (mono_tags, lifting) filter_False in_set_conv_nth length_0_conv less_irrefl)

lemma ends_live:
  assumes "lowest mn tab (mn + length tab - 1) a" "highest mn tab mn b" "nlive tab > 0"
  obtains i j where "a = mn + i" "b = mn + j" "i \<le> j" "j < length tab" "tab ! i \<noteq> None" "tab ! j \<noteq> None"
    "\<And>k. k < i \<Longrightarrow> tab ! k = None" "\<And>k. j < k \<Longrightarrow> k < length tab \<Longrightarrow> tab ! k = None"
proof -
  obtain q where q: "q < length tab" "tab ! q \<noteq> None" using nlive_ex[OF assms(3)] by blast
  have a: "a \<le> mn + q" and b: "mn + q \<le> b" using assms(1,2) q by (auto simp: lowest_def highest_def)
  obtain i where i: "a = mn + i" "i < length tab" "tab ! i \<noteq> None"
  proof (cases "a = mn + length tab - 1")
    case True
    with a q have "a = mn + q" by simp
    with q that show ?thesis by blast
  qed (use assms(1) that in \<open>auto simp: lowest_def\<close>)
  obtain j where j: "b = mn + j" "j < length tab" "tab ! j \<noteq> None"
  proof (cases "b = mn")
    case True
    with b q have "b = mn + q" by simp
    with q that show ?thesis by blast
  qed (use assms(2) that in \<open>auto simp: highest_def\<close>)
  have "i \<le> j" using a b i(1) j(1) by simp
  moreover have "tab ! k = None" if "k < i" for k
  proof (rule ccontr)
    assume "tab ! k \<noteq> None"
    then have "a \<le> mn + k" using assms(1) that i(2) by (auto simp: lowest_def)
    with i(1) that show False by simp
  qed
  moreover have "tab ! k = None" if "j < k" "k < length tab" for k
  proof (rule ccontr)
    assume "tab ! k \<noteq> None"
    then have "mn + k \<le> b" using assms(2) that by (auto simp: highest_def)
    with j(1) that show False by simp
  qed
  ultimately show thesis using that i j by blast
qed

lemma compact_ok:
  assumes "lowest mn tab (mn + length tab - 1) a" "highest mn tab mn b" "lv = nlive tab"
  shows "\<exists>mn' tab'. compact mn lv a b tab = Inr (mn', tab') \<and> mn' + length tab' \<le> mn + length tab \<and> nlive tab' = lv \<and> tight tab' \<and>
    slot mn' tab' = slot mn tab \<and> (\<forall>n. Some n \<in> set tab' \<longrightarrow> Some n \<in> set tab)"
proof (cases "lv = 0")
  case True
  then have "tab ! i = None" if "i < length tab" for i using assms(3) nlive_zero[of tab "tab ! i"] that by simp
  then have "slot mn [] = slot mn tab" by (auto simp: slot_def fun_eq_iff)
  with True show ?thesis by (auto simp: compact_def tight_def)
next
  case False
  then have "nlive tab > 0" using assms(3) by simp
  from ends_live[OF assms(1,2) this] obtain i j where ij: "a = mn + i" "b = mn + j" "i \<le> j" "j < length tab" "tab ! i \<noteq> None" "tab ! j \<noteq> None"
    "\<And>k. k < i \<Longrightarrow> tab ! k = None" "\<And>k. j < k \<Longrightarrow> k < length tab \<Longrightarrow> tab ! k = None" by blast
  let ?d = "drop i tab"
  let ?t = "take (j - i + 1) ?d"
  have "\<forall>x\<in>set (take i tab). x = None" using ij(4,7) by (auto simp: in_set_conv_nth)
  note d = slot_drop(1)[OF this, of mn] slot_drop(2)[OF this]
  have "\<forall>x\<in>set (drop (j - i + 1) ?d). x = None" using ij(3,4,8) by (auto simp: in_set_conv_nth)
  then have s: "slot (mn + i) ?t = slot mn tab" "nlive ?t = lv" using slot_take(1)[of "j - i + 1" ?d "mn + i"] slot_take(2)[of "j - i + 1" ?d] d assms(3) by simp_all
  have lt: "length ?t = j - i + 1" "?t ! 0 = tab ! i" "?t ! (j - i) = tab ! j" using ij by simp_all
  then have t: "tight ?t" using ij(5,6) unfolding tight_ends lt(1) by simp
  have sub: "\<forall>n. Some n \<in> set ?t \<longrightarrow> Some n \<in> set tab" by (metis in_set_dropD in_set_takeD)
  have ok: "mn + i + length ?t \<le> mn + length tab" using ij by simp
  consider "lv = 1" | "lv > 1" "i = 0" "j = length tab - 1" | "lv > 1" "i > 0 \<or> j < length tab - 1" using False ij(4) by linarith
  then show ?thesis
  proof cases
    case 1
    then have "i = j" using nlive_two[of i j tab] ij assms(3) by fastforce
    then have "?t = [tab ! i]" using ij(4) by (simp add: take_Suc hd_drop_conv_nth)
    moreover have "compact mn lv a b tab = Inr (mn + i, [tab ! i])" using 1 ij \<open>i = j\<close> by (simp add: compact_def)
    ultimately show ?thesis using s t sub ok by (intro exI[of _ "mn + i"] exI[of _ ?t]) simp
  next
    case 2
    then have "?t = tab" using ij(4) by simp
    moreover have "compact mn lv a b tab = Inr (mn, tab)" using 2 ij by (simp add: compact_def)
    ultimately show ?thesis using s t 2 by (intro exI[of _ mn] exI[of _ tab]) simp
  next
    case 3
    have "i \<noteq> j"
    proof
      assume "i = j"
      with lt(1) have "length ?t = 1" by simp
      with s(2) nlive_le[of ?t] 3(1) show False by linarith
    qed
    then have "compact mn lv a b tab = Inr (mn + i, ?t)" using 3 ij by (auto simp: compact_def)
    then show ?thesis using s t sub ok by (intro exI[of _ "mn + i"] exI[of _ ?t]) simp
  qed
qed

lemma mtrie_wf_cases:
  assumes "mtrie_wf (MTrie ps mn lv tab)"
  shows "mn + length tab \<le> 256" "lv = nlive tab" "tight tab" "\<And>n. Some n \<in> set tab \<Longrightarrow> mtrie_wf n \<and> \<not> m_redundant n"
    "\<And>xs. ps = Some xs \<Longrightarrow> xs \<noteq> [] \<and> sorted xs \<and> distinct xs"
  using assms by (auto simp: mtrie_wf_MTrie)

text \<open>What the removal does below a node, as a property of the reported keys and of the values under the keys.\<close>

definition dropped :: "nat \<Rightarrow> bool \<Rightarrow> byte list \<Rightarrow> (byte list \<Rightarrow> nat set) \<Rightarrow> byte list list \<Rightarrow> (byte list \<Rightarrow> nat set) \<Rightarrow> bool" where
  "dropped x u buff f calls g \<longleftrightarrow> (\<forall>k. g k = f k - {x}) \<and> set calls = (\<lambda>k. buff @ k) ` {k. lost x u (f k)} \<and> distinct calls"

definition kids_subs :: "nat \<Rightarrow> mtrie option list \<Rightarrow> byte list \<Rightarrow> nat set" where
  "kids_subs c tab k = (case k of [] \<Rightarrow> {} | ch # k' \<Rightarrow> csubs (slot c tab (unat ch)) k')"

lemma subs_MTrie: "subs (MTrie ps mn lv tab) k = (if k = [] then values_of ps else kids_subs mn tab k)"
  by (cases k) (auto simp: kids_subs_def csubs_def)

lemma dropped_node:
  assumes "dropped x u buff (kids_subs mn tab) calls' (kids_subs mn' tab')" "drop_value x u buff ps = (calls, ps')"
    "\<And>xs. ps = Some xs \<Longrightarrow> xs \<noteq> [] \<and> sorted xs \<and> distinct xs"
  shows "dropped x u buff (subs (MTrie ps mn lv tab)) (calls @ calls') (subs (MTrie ps' mn' lv' tab'))"
proof -
  note d = drop_value_ok[OF assms(3,2)]
  have k: "kids_subs mn tab [] = {}" by (simp add: kids_subs_def)
  have "buff \<notin> set calls'" using assms(1) k by (auto simp: dropped_def)
  moreover have "(\<lambda>k. buff @ k) ` {k. lost x u (subs (MTrie ps mn lv tab) k)} =
    (if lost x u (values_of ps) then {buff} else {}) \<union> (\<lambda>k. buff @ k) ` {k. lost x u (kids_subs mn tab k)}"
    using k by (auto simp: subs_MTrie image_iff split: if_splits)
  ultimately show ?thesis using assms(1) d by (auto simp: dropped_def subs_MTrie)
qed

lemma slot_Cons: "slot c (y # ys) d = (if d = c then y else slot (c + 1) ys d)"
  by (auto simp: slot_def nth_Cons' le_less)

lemma dropped_kids:
  assumes "dropped x u (buff @ [of_nat c]) (csubs n) calls (csubs n')"
    "dropped x u buff (kids_subs (c + 1) ns) calls' (kids_subs (c + 1) ns')" "c < 256"
  shows "dropped x u buff (kids_subs c (n # ns)) (calls @ calls') (kids_subs c (n' # ns'))"
proof -
  have c: "unat ch = c \<longleftrightarrow> ch = of_nat c" for ch :: byte using assms(3) by (auto simp: unat_of_nat)
  have f: "kids_subs c (m # ms) k = (case k of [] \<Rightarrow> {} | ch # k' \<Rightarrow> if ch = of_nat c then csubs m k' else kids_subs (c + 1) ms k)" for m ms k
    by (cases k) (simp_all add: kids_subs_def slot_Cons c)
  have n: "kids_subs (c + 1) ms (of_nat c # k) = {}" for ms k
    using assms(3) by (simp add: kids_subs_def slot_def csubs_def unat_of_nat)
  have k0: "kids_subs d ms [] = {}" for d ms by (simp add: kids_subs_def)
  have "{k. lost x u (kids_subs c (n # ns) k)} = (\<lambda>k. of_nat c # k) ` {k. lost x u (csubs n k)} \<union> {k. lost x u (kids_subs (c + 1) ns k)}"
  proof (rule set_eqI)
    fix k
    show "k \<in> {k. lost x u (kids_subs c (n # ns) k)} \<longleftrightarrow>
        k \<in> (\<lambda>k. of_nat c # k) ` {k. lost x u (csubs n k)} \<union> {k. lost x u (kids_subs (c + 1) ns k)}"
      unfolding f using n k0 by (cases k) auto
  qed
  then have "set (calls @ calls') = (\<lambda>k. buff @ k) ` {k. lost x u (kids_subs c (n # ns) k)}"
    using assms(1,2) by (simp add: dropped_def image_Un image_image)
  moreover have "set calls \<inter> set calls' = {}" using assms(1,2) n by (auto simp: dropped_def)
  moreover have "kids_subs c (n' # ns') k = kids_subs c (n # ns) k - {x}" for k
    using assms(1,2) unfolding f by (auto simp: dropped_def split: list.splits)
  ultimately show ?thesis using assms(1,2) by (simp add: dropped_def)
qed

text \<open>What has been done after the subnodes of a table, from character \<open>c\<close> on.\<close>

definition kids_done :: "nat \<Rightarrow> bool \<Rightarrow> byte list \<Rightarrow> nat \<Rightarrow> mtrie option list \<Rightarrow> nat \<times> nat \<times> nat \<Rightarrow> byte list list \<Rightarrow> nat \<times> nat \<times> nat \<Rightarrow>
    mtrie option list \<Rightarrow> bool" where
  "kids_done x u buff c tab acc calls acc' tab' \<longleftrightarrow> (case (acc, acc') of ((lv, a, b), (lv', a', b')) \<Rightarrow>
     length tab' = length tab \<and> lv' + nlive tab = lv + nlive tab' \<and> lowest c tab' a a' \<and> highest c tab' b b' \<and>
     (\<forall>n. Some n \<in> set tab' \<longrightarrow> mtrie_wf n \<and> \<not> m_redundant n) \<and> dropped x u buff (kids_subs c tab) calls (kids_subs c tab'))"

lemma dropped_nothing: "dropped x u buff (\<lambda>_. {}) [] (\<lambda>_. {})" "kids_subs c [] = (\<lambda>_. {})"
  by (auto simp: dropped_def kids_subs_def fun_eq_iff split: list.splits)

lemma kids_done_Nil: "kids_done x u buff c [] acc [] acc []"
  by (cases acc) (simp add: kids_done_def lowest_def highest_def dropped_nothing)

lemma kids_done_None:
  assumes "kids_done x u buff (c + 1) ns acc calls acc' tab'" "c < 256"
  shows "kids_done x u buff c (None # ns) acc calls acc' (None # tab')"
  using assms dropped_kids[of x u buff c None "[]" None ns calls tab'] dropped_nothing(1)
  by (auto simp: kids_done_def lowest_None highest_None)

lemma kids_done_gone:
  assumes "dropped x u (buff @ [of_nat c]) (subs n) calls (subs n')" "mtrie_wf n'" "m_redundant n'"
    "kids_done x u buff (c + 1) ns (lv - 1, a, b) calls' acc' tab'" "c < 256" "lv > 0"
  shows "kids_done x u buff c (Some n # ns) (lv, a, b) (calls @ calls') acc' (None # tab')"
proof -
  have "subs n' = (\<lambda>_. {})" using m_redundant_empty[OF assms(2,3)] by (simp add: fun_eq_iff)
  with assms dropped_kids[of x u buff c "Some n" calls None ns calls' tab'] show ?thesis
    by (auto simp: kids_done_def lowest_None highest_None)
qed

lemma kids_done_kept:
  assumes "dropped x u (buff @ [of_nat c]) (subs n) calls (subs n')" "mtrie_wf n'" "\<not> m_redundant n'"
    "kids_done x u buff (c + 1) ns (lv, if c < a then c else a, if c > b then c else b) calls' acc' tab'" "c < 256"
  shows "kids_done x u buff c (Some n # ns) (lv, a, b) (calls @ calls') acc' (Some n' # tab')"
  using assms dropped_kids[of x u buff c "Some n" calls "Some n'" ns calls' tab']
  by (auto simp: kids_done_def lowest_Some highest_Some)

text \<open>A node with one subnode, and a node with a table.\<close>

lemma one_subnode:
  assumes "mtrie_wf (MTrie ps mn lv [Some n])" "drop_value x u buff ps = (calls, ps')" "mtrie_wf n'"
    "dropped x u (buff @ [of_nat mn]) (subs n) calls' (subs n')"
    and t: "t = (if m_redundant n' then MTrie ps' mn (lv - 1) [] else MTrie ps' mn lv [Some n'])"
  shows "mtrie_wf t \<and> dropped x u buff (subs (MTrie ps mn lv [Some n])) (calls @ calls') (subs t)"
proof -
  note w = mtrie_wf_cases[OF assms(1)]
  have c: "mn < 256" "lv = 1" using w(1,2) by simp_all
  have one: "kids_done x u buff mn [Some n] (lv, mn, mn) (calls' @ []) (if m_redundant n' then (0, mn, mn) else (1, mn, mn)) (if m_redundant n' then [None] else [Some n'])"
    using kids_done_gone[OF assms(4,3) _ kids_done_Nil c(1), of 1 mn mn] kids_done_kept[OF assms(4,3) _ kids_done_Nil c(1), of 1 mn mn] c(2)
    by (simp split: if_splits)
  have "kids_subs mn [None] = kids_subs mn []" by (auto simp: kids_subs_def slot_def fun_eq_iff split: list.splits)
  then have "dropped x u buff (subs (MTrie ps mn lv [Some n])) (calls @ calls') (subs t)"
    using one dropped_node[OF _ assms(2) w(5)] unfolding t by (auto simp: kids_done_def split: if_splits)
  moreover have "mtrie_wf t"
    using w drop_value_ok(3)[OF w(5) assms(2)] assms(3) unfolding t by (auto simp: mtrie_wf_MTrie tight_def)
  ultimately show ?thesis by blast
qed

lemma many_subnodes:
  assumes "mtrie_wf (MTrie ps mn lv tab)" "drop_value x u buff ps = (calls, ps')"
    "kids_done x u buff mn tab (lv, mn + length tab - 1, mn) calls' (lv', a, b) tab'"
  shows "\<exists>mn' tab''. compact mn lv' a b tab' = Inr (mn', tab'') \<and> mtrie_wf (MTrie ps' mn' lv' tab'') \<and>
    dropped x u buff (subs (MTrie ps mn lv tab)) (calls @ calls') (subs (MTrie ps' mn' lv' tab''))"
proof -
  note w = mtrie_wf_cases[OF assms(1)]
  have k: "length tab' = length tab" "lv' = nlive tab'" "lowest mn tab' (mn + length tab' - 1) a" "highest mn tab' mn b"
    "\<forall>n. Some n \<in> set tab' \<longrightarrow> mtrie_wf n \<and> \<not> m_redundant n" "dropped x u buff (kids_subs mn tab) calls' (kids_subs mn tab')"
    using assms(3) w(2) by (auto simp: kids_done_def)
  from compact_ok[OF k(3,4,2)] obtain mn' tab'' where c: "compact mn lv' a b tab' = Inr (mn', tab'')"
    "mn' + length tab'' \<le> mn + length tab'" "nlive tab'' = lv'" "tight tab''" "slot mn' tab'' = slot mn tab'"
    "\<forall>n. Some n \<in> set tab'' \<longrightarrow> Some n \<in> set tab'" by blast
  have "kids_subs mn' tab'' = kids_subs mn tab'" using c(5) by (auto simp: kids_subs_def fun_eq_iff split: list.splits)
  with k(6) have "dropped x u buff (subs (MTrie ps mn lv tab)) (calls @ calls') (subs (MTrie ps' mn' lv' tab''))"
    using dropped_node[OF _ assms(2) w(5)] by simp
  moreover have "mtrie_wf (MTrie ps' mn' lv' tab'')"
    using c k(1,5) w(1) drop_value_ok(3)[OF w(5) assms(2)] by (auto simp: mtrie_wf_MTrie)
  ultimately show ?thesis using c(1) by blast
qed

lemma mtrie_rm_node_ok:
  "mtrie_wf t \<Longrightarrow> \<exists>calls t'. mtrie_rm_node x u buff t = Inr (calls, t') \<and> mtrie_wf t' \<and> dropped x u buff (subs t) calls (subs t')"
  "c + length tab \<le> 256 \<Longrightarrow> (\<And>n. Some n \<in> set tab \<Longrightarrow> mtrie_wf n \<and> \<not> m_redundant n) \<Longrightarrow> nlive tab \<le> fst acc \<Longrightarrow>
    \<exists>calls acc' tab'. mtrie_rm_kids x u buff c tab acc = Inr (calls, acc', tab') \<and> kids_done x u buff c tab acc calls acc' tab'"
proof (induction x u buff t and x u buff c tab acc rule: mtrie_rm_node_mtrie_rm_kids.induct)
  case (1 x u buff ps mn lv)
  obtain calls ps' where d: "drop_value x u buff ps = (calls, ps')" by fastforce
  note w = mtrie_wf_cases[OF 1]
  have "dropped x u buff (kids_subs mn []) [] (kids_subs mn [])" by (simp add: dropped_nothing)
  from dropped_node[OF this d w(5)] d w drop_value_ok(3)[OF w(5) d] show ?case by (auto simp: mtrie_wf_MTrie)
next
  case (2 x u buff ps mn lv)
  then show ?case by (auto simp: mtrie_wf_MTrie tight_def)
next
  case (3 x u buff ps mn lv n)
  obtain calls ps' where d: "drop_value x u buff ps = (calls, ps')" by fastforce
  have "mtrie_wf n" "lv = 1" using mtrie_wf_cases(2,4)[OF 3(2)] by simp_all
  with "3.IH"[OF refl d[symmetric]] obtain calls' n' where n': "mtrie_rm_node x u (buff @ [of_nat mn]) n = Inr (calls', n')" "mtrie_wf n'"
    "dropped x u (buff @ [of_nat mn]) (subs n) calls' (subs n')" by auto
  with one_subnode[OF 3(2) d n'(2,3) refl] d \<open>lv = 1\<close> show ?case by (cases "m_redundant n'") simp_all
next
  case (4 x u buff ps mn lv n1 n2 ns)
  let ?tab = "n1 # n2 # ns"
  obtain calls ps' where d: "drop_value x u buff ps = (calls, ps')" by fastforce
  note w = mtrie_wf_cases[OF 4(2)]
  have "nlive ?tab \<le> fst (lv, mn + length ?tab - 1, mn)" using w(2) by simp
  from "4.IH"[OF refl d[symmetric] refl w(1,4) this] obtain calls' lv' a b tab' where
    k: "mtrie_rm_kids x u buff mn ?tab (lv, mn + length ?tab - 1, mn) = Inr (calls', (lv', a, b), tab')"
    "kids_done x u buff mn ?tab (lv, mn + length ?tab - 1, mn) calls' (lv', a, b) tab'" by auto
  from many_subnodes[OF 4(2) d k(2)] d k(1) show ?case by auto
next
  case (5 x u buff c acc)
  then show ?case using kids_done_Nil by auto
next
  case (6 x u buff c ns acc)
  have "c + 1 + length ns \<le> 256" "\<And>n. Some n \<in> set ns \<Longrightarrow> mtrie_wf n \<and> \<not> m_redundant n" "nlive ns \<le> fst acc" using "6.prems" by auto
  from "6.IH"[OF this] kids_done_None[of x u buff c ns acc] "6.prems"(1) show ?case by fastforce
next
  case (7 x u buff c n ns lv a b)
  have n: "mtrie_wf n" and c: "c < 256" using "7.prems"(1,2) by simp_all
  have p: "c + 1 + length ns \<le> 256" "\<And>n. Some n \<in> set ns \<Longrightarrow> mtrie_wf n \<and> \<not> m_redundant n" "nlive ns < lv" using "7.prems" by auto
  from "7.IH"(1)[OF n] obtain calls n' where n': "mtrie_rm_node x u (buff @ [of_nat c]) n = Inr (calls, n')" "mtrie_wf n'"
    "dropped x u (buff @ [of_nat c]) (subs n) calls (subs n')" by blast
  show ?case
  proof (cases "m_redundant n'")
    case True
    have "nlive ns \<le> fst (lv - 1, a, b)" "\<not> \<not> lv > 0" using p(3) by simp_all
    from "7.IH"(2)[OF n'(1) refl True this(2) p(1,2) this(1)] kids_done_gone[OF n'(3,2) True _ c] n'(1) True p(3) show ?thesis by fastforce
  next
    case False
    have "nlive ns \<le> fst (lv, if c < a then c else a, if c > b then c else b)" using p(3) by simp
    from "7.IH"(3)[OF n'(1) refl False p(1,2) this] obtain calls' acc' tab' where
      "mtrie_rm_kids x u buff (c + 1) ns (lv, if c < a then c else a, if c > b then c else b) = Inr (calls', acc', tab')"
      "kids_done x u buff (c + 1) ns (lv, if c < a then c else a, if c > b then c else b) calls' acc' tab'" by blast
    with kids_done_kept[OF n'(3,2) False _ c] n'(1) False show ?thesis by simp
  qed
qed

section \<open>The contract of a topic store\<close>

text \<open>Subscriptions, cancellations and leaving subscribers, and what they mean for the relation of topics and subscribers.\<close>

datatype ('k, 'v) topic_op = Sub 'k 'v | Cancel 'k 'v | Leave 'v

fun topic_spec :: "('k, 'v) topic_op list \<Rightarrow> ('k \<times> 'v) set \<Rightarrow> ('k \<times> 'v) set" where
  "topic_spec [] R = R"
| "topic_spec (Sub k v # ops) R = topic_spec ops (insert (k, v) R)"
| "topic_spec (Cancel k v # ops) R = topic_spec ops (R - {(k, v)})"
| "topic_spec (Leave v # ops) R = topic_spec ops {(k, w) \<in> R. w \<noteq> v}"

fun topic_run :: "('k \<Rightarrow> 'v \<Rightarrow> 's \<Rightarrow> ('a \<times> 's) result) \<Rightarrow> ('k \<Rightarrow> 'v \<Rightarrow> 's \<Rightarrow> ('b \<times> 's) result) \<Rightarrow> ('v \<Rightarrow> 's \<Rightarrow> ('c \<times> 's) result) \<Rightarrow>
    ('k, 'v) topic_op list \<Rightarrow> 's \<Rightarrow> 's result" where
  "topic_run ad rm lv [] s = Inr s"
| "topic_run ad rm lv (Sub k v # ops) s = bindE (ad k v s) (\<lambda>(_, s1). topic_run ad rm lv ops s1)"
| "topic_run ad rm lv (Cancel k v # ops) s = bindE (rm k v s) (\<lambda>(_, s1). topic_run ad rm lv ops s1)"
| "topic_run ad rm lv (Leave v # ops) s = bindE (lv v s) (\<lambda>(_, s1). topic_run ad rm lv ops s1)"

locale topic_store =
  fixes inv :: "'s \<Rightarrow> bool"
    and empty :: 's
    and val :: "'s \<Rightarrow> 'k list \<Rightarrow> 'v set"
    and ad :: "'k list \<Rightarrow> 'v \<Rightarrow> 's \<Rightarrow> ('a \<times> 's) result"
    and rm :: "'k list \<Rightarrow> 'v \<Rightarrow> 's \<Rightarrow> ('b \<times> 's) result"
    and lv :: "'v \<Rightarrow> 's \<Rightarrow> ('c \<times> 's) result"
    and match :: "'k list \<Rightarrow> 's \<Rightarrow> 'v list"
  assumes empty: "inv empty" "val empty k = {}"
    and ad: "inv s \<Longrightarrow> \<exists>r s'. ad k v s = Inr (r, s') \<and> inv s' \<and> val s' = (val s)(k := insert v (val s k))"
    and rm: "inv s \<Longrightarrow> \<exists>r s'. rm k v s = Inr (r, s') \<and> inv s' \<and> val s' = (val s)(k := val s k - {v})"
    and lv: "inv s \<Longrightarrow> \<exists>r s'. lv v s = Inr (r, s') \<and> inv s' \<and> (\<forall>k. val s' k = val s k - {v})"
    and match: "inv s \<Longrightarrow> set (match d s) = (\<Union>i \<le> length d. val s (take i d))"
begin

definition rel :: "'s \<Rightarrow> ('k list \<times> 'v) set" where
  "rel s = {(k, v). v \<in> val s k}"

lemma run_topics: "inv s \<Longrightarrow> \<exists>s'. topic_run ad rm lv ops s = Inr s' \<and> inv s' \<and> rel s' = topic_spec ops (rel s)"
proof (induction ops arbitrary: s)
  case (Cons p ops)
  show ?case
  proof (cases p)
    case (Sub k v)
    from ad[OF Cons.prems, of k v] obtain r s1 where s1: "ad k v s = Inr (r, s1)" "inv s1" "val s1 = (val s)(k := insert v (val s k))" by blast
    have "rel s1 = insert (k, v) (rel s)" using s1(3) by (auto simp: rel_def split: if_splits)
    with Cons.IH[OF s1(2)] s1(1) Sub show ?thesis by simp
  next
    case (Cancel k v)
    from rm[OF Cons.prems, of k v] obtain r s1 where s1: "rm k v s = Inr (r, s1)" "inv s1" "val s1 = (val s)(k := val s k - {v})" by blast
    have "rel s1 = rel s - {(k, v)}" using s1(3) by (auto simp: rel_def split: if_splits)
    with Cons.IH[OF s1(2)] s1(1) Cancel show ?thesis by simp
  next
    case (Leave v)
    from lv[OF Cons.prems, of v] obtain r s1 where s1: "lv v s = Inr (r, s1)" "inv s1" "\<forall>k. val s1 k = val s k - {v}" by blast
    have "rel s1 = {(k, w) \<in> rel s. w \<noteq> v}" using s1(3) by (auto simp: rel_def)
    with Cons.IH[OF s1(2)] s1(1) Leave show ?thesis by simp
  qed
qed simp

lemma run_match:
  "\<exists>s. topic_run ad rm lv ops empty = Inr s \<and> (\<forall>d. set (match d s) = {v. \<exists>i \<le> length d. (take i d, v) \<in> topic_spec ops {}})"
proof -
  have "rel empty = {}" using empty(2) by (simp add: rel_def)
  with run_topics[OF empty(1), of ops] obtain s where s: "topic_run ad rm lv ops empty = Inr s" "inv s" "rel s = topic_spec ops {}" by auto
  have "set (match d s) = {v. \<exists>i \<le> length d. (take i d, v) \<in> rel s}" for d using match[OF s(2), of d] by (auto simp: rel_def)
  with s show ?thesis by auto
qed

end

interpretation mt: topic_store mtrie_wf mtrie_new subs mtrie_add mtrie_rm "\<lambda>x. mtrie_rm_value x u" mtrie_match for u
proof
  show "mtrie_wf mtrie_new" "subs mtrie_new k = {}" for k by (rule mtrie_wf_new)+
  show "\<exists>r s'. mtrie_add k v s = Inr (r, s') \<and> mtrie_wf s' \<and> subs s' = (subs s)(k := insert v (subs s k))" if "mtrie_wf s" for s k v
    using mtrie_add_ok[OF that] by blast
  show "\<exists>r s'. mtrie_rm k v s = Inr (r, s') \<and> mtrie_wf s' \<and> subs s' = (subs s)(k := subs s k - {v})" if "mtrie_wf s" for s k v
    using mtrie_rm_ok[OF that] by blast
  show "\<exists>r s'. mtrie_rm_value v u s = Inr (r, s') \<and> mtrie_wf s' \<and> (\<forall>k. subs s' k = subs s k - {v})" if "mtrie_wf s" for s v
    using mtrie_rm_node_ok(1)[OF that, of v u "[]"] by (auto simp: mtrie_rm_value_def dropped_def)
  show "set (mtrie_match d s) = (\<Union>i\<le>length d. subs s (take i d))" if "mtrie_wf s" for s d by (rule mtrie_match_ok[OF that])
qed

section \<open>Properties\<close>

text \<open>
  C27. The multi-trie matches exactly: after any subscriptions, cancellations and departures of subscribers, in any order
  and without a failed assertion, the subscribers called for a message are those with a live subscription to
  one of its prefixes, and the cancellation in one place or the departure changes nothing else.
\<close>
theorem mtrie_matches_exactly:
  "\<exists>t. topic_run mtrie_add mtrie_rm (\<lambda>x. mtrie_rm_value x u) ops mtrie_new = Inr t \<and>
     (\<forall>d. set (mtrie_match d t) = {x. \<exists>i \<le> length d. (take i d, x) \<in> topic_spec ops {}})"
  by (rule mt.run_match)

text \<open>
  C28. What the operations of the multi-trie do and report.  An addition puts the value under its topic, changes no other topic, and reports whether the
  topic had no value before; a removal takes exactly that entry away and reports whether it existed and was
  the last of its topic; the departure of a subscriber takes it away from every topic and nothing else, and calls exactly once for each topic that it
  leaves, or, if asked, for each topic that it leaves without subscribers.  All keep the shape of the trie.
\<close>
theorem mtrie_operations:
  assumes "mtrie_wf t"
  shows "(\<exists>t'. mtrie_add k x t = Inr (subs t k = {}, t') \<and> mtrie_wf t' \<and> subs t' = (subs t)(k := insert x (subs t k))) \<and>
    (\<exists>t'. mtrie_rm k x t = Inr (if x \<notin> subs t k then Not_found else if subs t k = {x} then Last_value_removed else Values_remain, t') \<and>
       mtrie_wf t' \<and> subs t' = (subs t)(k := subs t k - {x})) \<and>
    (\<exists>calls t'. mtrie_rm_value x u t = Inr (calls, t') \<and> mtrie_wf t' \<and> subs t' = (\<lambda>k'. subs t k' - {x}) \<and> distinct calls \<and>
       set calls = {k'. x \<in> subs t k' \<and> (u \<longrightarrow> subs t k' = {x})})"
proof -
  have "rm_code x (subs t k) = (if x \<notin> subs t k then Not_found else if subs t k = {x} then Last_value_removed else Values_remain)"
    by (auto simp: rm_code_def)
  moreover obtain calls t' where "mtrie_rm_value x u t = Inr (calls, t')" "mtrie_wf t'" "dropped x u [] (subs t) calls (subs t')"
    using mtrie_rm_node_ok(1)[OF assms, of x u "[]"] by (auto simp: mtrie_rm_value_def)
  ultimately show ?thesis
    using mtrie_add_ok[OF assms, of k x] mtrie_rm_ok[OF assms, of k x] by (auto simp: dropped_def lost_def fun_eq_iff)
qed

section \<open>Witness\<close>

theorem mtrie_operations_witness:
  "(\<exists>t'. mtrie_add [1] 7 mtrie_new = Inr (True, t')) \<and> (\<exists>t'. mtrie_rm [1] 7 mtrie_new = Inr (Not_found, t')) \<and>
   (\<exists>t'. mtrie_rm_value 7 True mtrie_new = Inr ([], t'))"
  using mtrie_operations[OF mtrie_wf_new(1), of "[1]" 7 True] by (simp add: mtrie_wf_new(2) del: mtrie_add.simps mtrie_rm.simps subs.simps) blast

end
