(* ===== verification/Xpub.thy ===== *)
theory Xpub
  imports Socket_Pipes Distributor Mtrie
begin

text \<open>
  The publishing sockets XPUB and PUB, \<^verbatim>\<open>xpub.cpp\<close> and \<^verbatim>\<open>pub.cpp\<close>: subscriptions that arrive on the pipes are kept in a multi-trie, and
  a message is distributed to the pipes whose subscriptions match its first part.  Metadata of messages is left out.
\<close>

record xpub =
  x_subs :: mtrie
  x_manual_subs :: mtrie
  x_dist :: dist
  verbose_subs :: bool
  verbose_unsubs :: bool
  more_send :: bool
  more_recv :: bool
  process_subscribe :: bool
  only_first_subscribe :: bool
  lossy :: bool
  manual :: bool
  send_last_pipe :: bool
  last_pipe :: "pid option"
  pending_pipes :: "pid option list"
  welcome_msg :: "byte list"
  pending_data :: "byte list list"
  pending_flags :: "byte list"
  opt_pub :: bool
  invert_matching :: bool

definition xpub_new :: "bool \<Rightarrow> xpub" where
  "xpub_new pub = \<lparr>x_subs = mtrie_new, x_manual_subs = mtrie_new, x_dist = dist_new, verbose_subs = False, verbose_unsubs = False,
     more_send = False, more_recv = False, process_subscribe = False, only_first_subscribe = False, lossy = True, manual = False,
     send_last_pipe = False, last_pipe = None, pending_pipes = [], welcome_msg = [], pending_data = [], pending_flags = [],
     opt_pub = pub, invert_matching = False\<rparr>"

section \<open>Subscriptions\<close>

text \<open>The topic of a subscription command; inproc messages have no command name before it (\<^verbatim>\<open>msg.cpp\<close>).\<close>

definition command_body :: "wmsg \<Rightarrow> byte list result" where
  "command_body m =
     (let n = (if w_flags m AND msg_command = 0 then 0 else if is_subscribe m then length sub_cmd_name else length cancel_cmd_name) in
      if n \<le> length (w_data m) then Inr (drop n (w_data m)) else Inl Bad_index)"

text \<open>A message as a request: subscription or not, and the topic.\<close>

definition sub_request :: "wmsg \<Rightarrow> (bool \<times> byte list) option result" where
  "sub_request m =
     (if is_subscribe m \<or> is_cancel m then bindE (command_body m) (\<lambda>k. Inr (Some (is_subscribe m, k)))
      else case w_data m of [] \<Rightarrow> Inr None
        | c # k \<Rightarrow> if c = 0 \<or> c = 1 then Inr (Some (c = 1, k)) else Inr None)"

definition push_pending :: "byte list \<Rightarrow> byte \<Rightarrow> xpub \<Rightarrow> xpub" where
  "push_pending b fl p = p\<lparr>pending_data := pending_data p @ [b], pending_flags := pending_flags p @ [fl]\<rparr>"

text \<open>A request in the tries: whether the user is to be told.\<close>

definition apply_request :: "pid \<Rightarrow> bool \<Rightarrow> byte list \<Rightarrow> xpub \<Rightarrow> (bool \<times> xpub) result" where
  "apply_request x sub k p =
     (if manual p then
        bindE (if sub then bindE (mtrie_add k x (x_manual_subs p)) (\<lambda>(_, t). Inr t) else bindE (mtrie_rm k x (x_manual_subs p)) (\<lambda>(_, t). Inr t))
          (\<lambda>t. Inr (False, p\<lparr>x_manual_subs := t, pending_pipes := pending_pipes p @ [Some x]\<rparr>))
      else if sub then bindE (mtrie_add k x (x_subs p)) (\<lambda>(new, t). Inr (new \<or> verbose_subs p, p\<lparr>x_subs := t\<rparr>))
      else bindE (mtrie_rm k x (x_subs p)) (\<lambda>(rc, t). Inr (rc \<noteq> Values_remain \<or> verbose_unsubs p, p\<lparr>x_subs := t\<rparr>)))"

definition process_message :: "pid \<Rightarrow> wmsg \<Rightarrow> xpub \<Rightarrow> xpub result" where
  "process_message x m p =
     (let first = \<not> more_recv p; p1 = p\<lparr>more_recv := has_more (Msg m)\<rparr> in
      bindE (if first \<or> process_subscribe p1 then sub_request m else Inr None) (\<lambda>rq.
        let p2 = (if first then p1\<lparr>process_subscribe := (\<not> only_first_subscribe p1 \<or> rq \<noteq> None)\<rparr> else p1) in
        case rq of
          Some (sub, k) \<Rightarrow> bindE (apply_request x sub k p2) (\<lambda>(notify, p3).
            if manual p3 \<or> \<not> opt_pub p3 \<and> notify then Inr (push_pending ((if sub then 1 else 0) # k) 0 p3) else Inr p3)
        | None \<Rightarrow> if \<not> opt_pub p2 then Inr (push_pending (w_data m) (w_flags m) p2) else Inr p2))"

function xpub_read_activated :: "pid \<Rightarrow> xpub \<Rightarrow> sockenv \<Rightarrow> (xpub \<times> sockenv) result" where
  "xpub_read_activated x p s = (case sock_read x s of
      Inl e \<Rightarrow> Inl e
    | Inr (None, s1) \<Rightarrow> Inr (p, s1)
    | Inr (Some m, s1) \<Rightarrow> bindE (process_message x m p) (\<lambda>p1. xpub_read_activated x p1 s1))"
  by pat_completeness auto
termination
  by (relation "measure (\<lambda>(x, p, s). waiting s x)") (auto dest: sock_read_waiting(2))

declare xpub_read_activated.simps [simp del]

definition xpub_attach_pipe :: "pid \<Rightarrow> bool \<Rightarrow> xpub \<Rightarrow> sockenv \<Rightarrow> (xpub \<times> sockenv) result" where
  "xpub_attach_pipe x subscribe_to_all p s =
     bindE (dist_attach x (x_dist p)) (\<lambda>d.
     bindE (if subscribe_to_all then bindE (mtrie_add [] x (x_subs p)) (\<lambda>(_, t). Inr t) else Inr (x_subs p)) (\<lambda>t.
     bindE (if welcome_msg p \<noteq> []
            then bindE (sock_write x \<lparr>w_flags = 0, w_data = welcome_msg p\<rparr> s) (\<lambda>(ok, s1). if ok then sock_flush x s1 else Inl Assertion)
            else Inr s) (\<lambda>s1. xpub_read_activated x (p\<lparr>x_dist := d, x_subs := t\<rparr>) s1)))"

definition pub_attach_pipe :: "pid \<Rightarrow> bool \<Rightarrow> xpub \<Rightarrow> sockenv \<Rightarrow> (xpub \<times> sockenv) result" where
  "pub_attach_pipe x subscribe_to_all p s =
     bindE (sock_do x (\<lambda>e. Inr (set_nodelay e)) s) (\<lambda>s1. xpub_attach_pipe x subscribe_to_all p s1)"

definition xpub_write_activated :: "pid \<Rightarrow> xpub \<Rightarrow> xpub result" where
  "xpub_write_activated x p = bindE (dist_activated x (x_dist p)) (\<lambda>d. Inr (p\<lparr>x_dist := d\<rparr>))"

definition send_unsubscription :: "byte list \<Rightarrow> xpub \<Rightarrow> xpub" where
  "send_unsubscription k p =
     (if opt_pub p then p
      else let p1 = push_pending (0 # k) 0 p in
        if manual p1 then p1\<lparr>last_pipe := None, pending_pipes := pending_pipes p1 @ [None]\<rparr> else p1)"

definition xpub_pipe_terminated :: "pid \<Rightarrow> xpub \<Rightarrow> xpub result" where
  "xpub_pipe_terminated x p =
     bindE (if manual p
            then bindE (mtrie_rm_value x False (x_manual_subs p)) (\<lambda>(ks, t).
              let p1 = fold send_unsubscription ks (p\<lparr>x_manual_subs := t\<rparr>) in
              bindE (mtrie_rm_value x False (x_subs p1)) (\<lambda>(_, t1).
                Inr (p1\<lparr>x_subs := t1, last_pipe := (if last_pipe p1 = Some x then None else last_pipe p1)\<rparr>)))
            else bindE (mtrie_rm_value x (\<not> verbose_unsubs p) (x_subs p)) (\<lambda>(ks, t).
              Inr (fold send_unsubscription ks (p\<lparr>x_subs := t\<rparr>))))
       (\<lambda>p1. bindE (dist_pipe_terminated x (x_dist p1)) (\<lambda>d. Inr (p1\<lparr>x_dist := d\<rparr>)))"

section \<open>Options\<close>

definition ZMQ_XPUB_VERBOSE :: int where "ZMQ_XPUB_VERBOSE = 40"
definition ZMQ_XPUB_NODROP :: int where "ZMQ_XPUB_NODROP = 69"
definition ZMQ_XPUB_MANUAL :: int where "ZMQ_XPUB_MANUAL = 71"
definition ZMQ_XPUB_WELCOME_MSG :: int where "ZMQ_XPUB_WELCOME_MSG = 72"
definition ZMQ_XPUB_VERBOSER :: int where "ZMQ_XPUB_VERBOSER = 78"
definition ZMQ_XPUB_MANUAL_LAST_VALUE :: int where "ZMQ_XPUB_MANUAL_LAST_VALUE = 98"

definition xpub_flag :: "int \<Rightarrow> bool \<Rightarrow> xpub \<Rightarrow> xpub" where
  "xpub_flag opt on p =
     (if opt = ZMQ_XPUB_VERBOSE then p\<lparr>verbose_subs := on, verbose_unsubs := False\<rparr>
      else if opt = ZMQ_XPUB_VERBOSER then p\<lparr>verbose_subs := on, verbose_unsubs := on\<rparr>
      else if opt = ZMQ_XPUB_MANUAL_LAST_VALUE then p\<lparr>manual := on, send_last_pipe := on\<rparr>
      else if opt = ZMQ_XPUB_NODROP then p\<lparr>lossy := \<not> on\<rparr>
      else if opt = ZMQ_XPUB_MANUAL then p\<lparr>manual := on\<rparr>
      else if opt = ZMQ_ONLY_FIRST_SUBSCRIBE then p\<lparr>only_first_subscribe := on\<rparr> else p)"

text \<open>The value as bytes, and as an integer when it has the size of one; \<open>False\<close> is \<^verbatim>\<open>EINVAL\<close>.\<close>

definition xpub_setsockopt :: "int \<Rightarrow> byte list \<Rightarrow> int option \<Rightarrow> xpub \<Rightarrow> (bool \<times> xpub) result" where
  "xpub_setsockopt opt b v p =
     (if opt \<in> {ZMQ_XPUB_VERBOSE, ZMQ_XPUB_VERBOSER, ZMQ_XPUB_MANUAL_LAST_VALUE, ZMQ_XPUB_NODROP, ZMQ_XPUB_MANUAL, ZMQ_ONLY_FIRST_SUBSCRIBE}
      then Inr (if int_option v then (True, xpub_flag opt (v \<noteq> Some 0) p) else (False, p))
      else if opt = ZMQ_SUBSCRIBE \<and> manual p
      then (case last_pipe p of None \<Rightarrow> Inr (True, p)
        | Some x \<Rightarrow> bindE (mtrie_add b x (x_subs p)) (\<lambda>(_, t). Inr (True, p\<lparr>x_subs := t\<rparr>)))
      else if opt = ZMQ_UNSUBSCRIBE \<and> manual p
      then (case last_pipe p of None \<Rightarrow> Inr (True, p)
        | Some x \<Rightarrow> bindE (mtrie_rm b x (x_subs p)) (\<lambda>(_, t). Inr (True, p\<lparr>x_subs := t\<rparr>)))
      else if opt = ZMQ_XPUB_WELCOME_MSG then Inr (True, p\<lparr>welcome_msg := b\<rparr>)
      else Inr (False, p))"

section \<open>Sending and receiving\<close>

primrec mark_as_matching :: "pid list \<Rightarrow> dist \<Rightarrow> dist result" where
  "mark_as_matching [] d = Inr d"
| "mark_as_matching (x # xs) d = bindE (dist_match x d) (mark_as_matching xs)"

definition select_pipes :: "wmsg \<Rightarrow> xpub \<Rightarrow> xpub result" where
  "select_pipes m p =
     (let xs = mtrie_match (w_data m) (x_subs p);
          last = manual p \<and> last_pipe p \<noteq> None \<and> send_last_pipe p;
          ys = (if last then filter (\<lambda>x. last_pipe p = Some x) xs else xs) in
      bindE (mark_as_matching ys (unmatch (x_dist p))) (\<lambda>d.
      bindE (if invert_matching p then reverse_match d else Inr d) (\<lambda>d1.
        Inr (p\<lparr>x_dist := d1, last_pipe := (if last then None else last_pipe p)\<rparr>))))"

text \<open>\<open>False\<close> is \<^verbatim>\<open>EAGAIN\<close>.\<close>

definition xpub_send :: "wmsg \<Rightarrow> xpub \<Rightarrow> sockenv \<Rightarrow> (bool \<times> xpub \<times> sockenv) result" where
  "xpub_send m p s =
     bindE (if \<not> more_send p then select_pipes m p else Inr p) (\<lambda>p1.
       if lossy p1 \<or> dist_check_hwm (\<lambda>x s. check_hwm (ends s x)) (x_dist p1) s
       then bindE (send_to_matching sock_write sock_flush m (x_dist p1) s) (\<lambda>(d, s1).
         Inr (True, p1\<lparr>x_dist := (if has_more (Msg m) then d else unmatch d), more_send := has_more (Msg m)\<rparr>, s1))
       else Inr (False, p1, s))"

definition xpub_has_out :: "xpub \<Rightarrow> bool" where
  "xpub_has_out p = dist_has_out (x_dist p)"

definition xpub_recv :: "xpub \<Rightarrow> wmsg option \<times> xpub" where
  "xpub_recv p = (case pending_data p of
      [] \<Rightarrow> (None, p)
    | b # bs \<Rightarrow>
        let p1 = (if manual p then (case pending_pipes p of [] \<Rightarrow> p
                  | y # ys \<Rightarrow> p\<lparr>pending_pipes := ys, last_pipe := (case y of None \<Rightarrow> None | Some x \<Rightarrow> if has_pipe x (x_dist p) then Some x else None)\<rparr>)
                  else p)
        in (Some \<lparr>w_flags = hd (pending_flags p), w_data = b\<rparr>, p1\<lparr>pending_data := bs, pending_flags := tl (pending_flags p)\<rparr>))"

definition xpub_has_in :: "xpub \<Rightarrow> bool" where
  "xpub_has_in p \<longleftrightarrow> pending_data p \<noteq> []"

text \<open>PUB receives nothing: \<^verbatim>\<open>ENOTSUP\<close>.\<close>

definition pub_recv :: "xpub \<Rightarrow> wmsg option \<times> xpub" where "pub_recv p = (None, p)"

definition pub_has_in :: "xpub \<Rightarrow> bool" where "pub_has_in p = False"

section \<open>Invariant\<close>

text \<open>The pipes in the tries are pipes of the distributor.\<close>

definition known :: "mtrie \<Rightarrow> dist \<Rightarrow> bool" where
  "known t d \<longleftrightarrow> mtrie_wf t \<and> (\<forall>k. subs t k \<subseteq> all_set d)"

definition xpub_ok :: "xpub \<Rightarrow> bool" where
  "xpub_ok p \<longleftrightarrow> known (x_subs p) (x_dist p) \<and> mtrie_wf (x_manual_subs p) \<and> dist_ok (x_dist p) \<and>
     d_more (x_dist p) = more_send p \<and> length (pending_flags p) = length (pending_data p)"

lemma known_add: "known t d \<Longrightarrow> x \<in> all_set d \<Longrightarrow> \<exists>t'. mtrie_add k x t = Inr (subs t k = {}, t') \<and> known t' d \<and> subs t' = (subs t)(k := insert x (subs t k))"
  using mtrie_add_ok[of t k x] by (auto simp: known_def)

lemma known_rm: "known t d \<Longrightarrow> \<exists>t'. mtrie_rm k x t = Inr (rm_code x (subs t k), t') \<and> known t' d \<and> subs t' = (subs t)(k := subs t k - {x})"
  using mtrie_rm_ok[of t k x] by (fastforce simp: known_def split: if_splits)

lemma leave_ok:
  "mtrie_wf t \<Longrightarrow> \<exists>ks t'. mtrie_rm_value x u t = Inr (ks, t') \<and> mtrie_wf t' \<and> (\<forall>k. subs t' k = subs t k - {x}) \<and> distinct ks \<and>
     set ks = {k. x \<in> subs t k \<and> (u \<longrightarrow> subs t k = {x})}"
  using mtrie_rm_node_ok(1)[of t x u "[]"] by (auto simp: mtrie_rm_value_def dropped_def lost_def)

lemma xpub_ok_new: "xpub_ok (xpub_new b)"
  using mtrie_wf_new dist_ok_new by (simp add: xpub_ok_def xpub_new_def known_def dist_new_def)

section \<open>Requests of the subscribers\<close>

text \<open>What a request makes of the topics, and what the user hears of it.\<close>

definition requested :: "pid \<Rightarrow> bool \<Rightarrow> byte list \<Rightarrow> (byte list \<Rightarrow> pid set) \<Rightarrow> byte list \<Rightarrow> pid set" where
  "requested x sub k f = f(k := (if sub then insert x (f k) else f k - {x}))"

definition notified :: "pid \<Rightarrow> bool \<Rightarrow> byte list \<Rightarrow> xpub \<Rightarrow> bool" where
  "notified x sub k p \<longleftrightarrow> manual p \<or> \<not> opt_pub p \<and> (if sub then subs (x_subs p) k = {} \<or> verbose_subs p
     else x \<notin> subs (x_subs p) k \<or> subs (x_subs p) k = {x} \<or> verbose_unsubs p)"

lemma process_request:
  assumes "xpub_ok p" "x \<in> all_set (x_dist p)" "\<not> more_recv p \<or> process_subscribe p" "sub_request m = Inr (Some (sub, k))"
  shows "\<exists>p'. process_message x m p = Inr p' \<and> xpub_ok p' \<and> x_dist p' = x_dist p \<and>
    subs (x_subs p') = (if manual p then subs (x_subs p) else requested x sub k (subs (x_subs p))) \<and>
    subs (x_manual_subs p') = (if manual p then requested x sub k (subs (x_manual_subs p)) else subs (x_manual_subs p)) \<and>
    pending_data p' = pending_data p @ (if notified x sub k p then [(if sub then 1 else 0) # k] else []) \<and>
    pending_pipes p' = pending_pipes p @ (if manual p then [Some x] else [])"
proof -
  have o: "known (x_subs p) (x_dist p)" "mtrie_wf (x_manual_subs p)" using assms(1) by (simp_all add: xpub_ok_def)
  show ?thesis
  proof (cases "manual p")
    case True
    have "\<exists>r t. mtrie_add k x (x_manual_subs p) = Inr (r, t) \<and> mtrie_wf t \<and> subs t = (subs (x_manual_subs p))(k := insert x (subs (x_manual_subs p) k))"
      using mtrie_add_ok[OF o(2), of k x] by blast
    moreover have "\<exists>r t. mtrie_rm k x (x_manual_subs p) = Inr (r, t) \<and> mtrie_wf t \<and> subs t = (subs (x_manual_subs p))(k := subs (x_manual_subs p) k - {x})"
      using mtrie_rm_ok[OF o(2), of k x] by blast
    ultimately show ?thesis using assms True
      by (cases sub) (auto simp: process_message_def apply_request_def Let_def xpub_ok_def push_pending_def notified_def requested_def)
  next
    case False
    show ?thesis
    proof (cases sub)
      case True
      from known_add[OF o(1) assms(2), of k] obtain t where "mtrie_add k x (x_subs p) = Inr (subs (x_subs p) k = {}, t)" "known t (x_dist p)"
        "subs t = (subs (x_subs p))(k := insert x (subs (x_subs p) k))" by blast
      with assms \<open>\<not> manual p\<close> True show ?thesis
        by (auto simp: process_message_def apply_request_def Let_def xpub_ok_def push_pending_def notified_def requested_def)
    next
      case ns: False
      from known_rm[OF o(1), of k x] obtain t where "mtrie_rm k x (x_subs p) = Inr (rm_code x (subs (x_subs p) k), t)" "known t (x_dist p)"
        "subs t = (subs (x_subs p))(k := subs (x_subs p) k - {x})" by blast
      with assms False ns show ?thesis
        by (auto simp: process_message_def apply_request_def Let_def xpub_ok_def push_pending_def notified_def requested_def rm_code_def)
    qed
  qed
qed

lemma process_other:
  assumes "xpub_ok p" "(if \<not> more_recv p \<or> process_subscribe p then sub_request m else Inr None) = Inr None"
  shows "\<exists>p'. process_message x m p = Inr p' \<and> xpub_ok p' \<and> x_dist p' = x_dist p \<and> x_subs p' = x_subs p \<and> x_manual_subs p' = x_manual_subs p \<and>
    pending_data p' = pending_data p @ (if opt_pub p then [] else [w_data m]) \<and> pending_pipes p' = pending_pipes p"
  using assms by (auto simp: process_message_def Let_def xpub_ok_def push_pending_def)

section \<open>Distribution\<close>

lemma mark_ok:
  assumes "dist_ok d" "set xs \<subseteq> all_set d" "\<not> d_more d"
  shows "\<exists>d'. mark_as_matching xs d = Inr d' \<and> dist_ok d' \<and> \<not> d_more d' \<and> active_set d' = active_set d \<and> eligible_set d' = eligible_set d \<and>
    all_set d' = all_set d \<and> matching_set d' = matching_set d \<union> (set xs \<inter> eligible_set d)"
  using assms
proof (induction xs arbitrary: d)
  case (Cons x xs)
  from dist_match_ok[OF Cons.prems(1) _ Cons.prems(3), of x] Cons.prems(2) obtain d1 where d1: "dist_match x d = Inr d1" "dist_ok d1" "\<not> d_more d1"
    "active_set d1 = active_set d" "eligible_set d1 = eligible_set d" "all_set d1 = all_set d"
    "matching_set d1 = (if x \<in> eligible_set d then insert x (matching_set d) else matching_set d)" by auto
  have "set xs \<subseteq> all_set d1" using Cons.prems(2) d1(6) by simp
  from Cons.IH[OF d1(2) this d1(3)] d1 show ?case by auto
qed auto

definition xpub_step :: "wmsg \<Rightarrow> xpub \<times> sockenv \<Rightarrow> (bool \<times> xpub \<times> sockenv) result" where
  "xpub_step m z = (case z of (p, s) \<Rightarrow> xpub_send m p s)"

definition finish_dist :: "dist \<Rightarrow> xpub \<Rightarrow> xpub" where
  "finish_dist d p = p\<lparr>x_dist := unmatch d, more_send := False\<rparr>"

text \<open>Once the pipes are selected, the parts go the way of the distributor.\<close>

lemma send_rest:
  assumes "one_message ms" "more_send p" "lossy p"
  shows "run_ops xpub_step ms (p, s) = bindE (send_parts sock_write sock_flush ms (x_dist p) s) (\<lambda>(d, s1). Inr (map (\<lambda>_. True) ms, finish_dist d p, s1))"
  using assms
proof (induction ms arbitrary: p s rule: one_message.induct)
  case (2 m)
  then show ?case
    by (cases "send_to_matching sock_write sock_flush m (x_dist p) s") (auto simp: xpub_step_def xpub_send_def finish_dist_def)
next
  case (3 m m' ms)
  show ?case
  proof (cases "send_to_matching sock_write sock_flush m (x_dist p) s")
    case (Inl e)
    with 3(2-) show ?thesis by (simp add: xpub_step_def xpub_send_def)
  next
    case (Inr z)
    obtain d1 s1 where z: "z = (d1, s1)" by (cases z)
    let ?p = "p\<lparr>x_dist := d1, more_send := True\<rparr>"
    have "xpub_step m (p, s) = Inr (True, ?p, s1)" using 3(2-) Inr z by (simp add: xpub_step_def xpub_send_def)
    moreover have "finish_dist d ?p = finish_dist d p" for d by (simp add: finish_dist_def)
    moreover have "one_message (m' # ms)" using 3(2) by simp
    ultimately show ?thesis using "3.IH"[of ?p s1] 3(4) Inr z
      by (cases "send_parts sock_write sock_flush (m' # ms) d1 s1") (auto simp del: send_parts.simps(2) simp: send_parts.simps(2)[of _ _ m "m' # ms"])
  qed
qed simp

definition subscribed :: "xpub \<Rightarrow> byte list \<Rightarrow> pid \<Rightarrow> bool" where
  "subscribed p b x \<longleftrightarrow> (\<exists>i\<le>length b. x \<in> subs (x_subs p) (take i b))"

lemma select_ok:
  assumes "xpub_ok p" "\<not> more_send p" "\<not> manual p"
  shows "\<exists>d. select_pipes m p = Inr (p\<lparr>x_dist := d\<rparr>) \<and> dist_ok d \<and> \<not> d_more d \<and> all_set d = all_set (x_dist p) \<and> eligible_set d = eligible_set (x_dist p) \<and>
    matching_set d = {x\<in>eligible_set (x_dist p). subscribed p (w_data m) x \<noteq> invert_matching p}"
proof -
  let ?d = "unmatch (x_dist p)" and ?xs = "mtrie_match (w_data m) (x_subs p)"
  have o: "dist_ok ?d" "matching_set ?d = {}" "\<not> d_more ?d" "eligible_set ?d = eligible_set (x_dist p)" "all_set ?d = all_set (x_dist p)"
    using assms unmatch_ok[of "x_dist p"] by (auto simp: xpub_ok_def unmatch_def dist_sets)
  have m: "set ?xs = {x. subscribed p (w_data m) x}" using mtrie_match_ok[of "x_subs p" "w_data m"] assms(1) by (auto simp: xpub_ok_def known_def subscribed_def)
  have "set ?xs \<subseteq> all_set ?d" using m o(5) assms(1) by (auto simp: xpub_ok_def known_def subscribed_def)
  from mark_ok[OF o(1) this o(3)] obtain d where d: "mark_as_matching ?xs ?d = Inr d" "dist_ok d" "\<not> d_more d" "eligible_set d = eligible_set (x_dist p)"
    "all_set d = all_set (x_dist p)" "matching_set d = set ?xs \<inter> eligible_set (x_dist p)" using o by auto
  have md: "matching_set d = {x\<in>eligible_set (x_dist p). subscribed p (w_data m) x}" using d(6) m by auto
  show ?thesis
  proof (cases "invert_matching p")
    case False
    with d(1-5) md assms(3) show ?thesis by (auto simp: select_pipes_def Let_def)
  next
    case True
    from reverse_match_ok[OF d(2,3)] obtain d2 where d2: "reverse_match d = Inr d2" "dist_ok d2" "\<not> d_more d2" "all_set d2 = all_set d"
      "eligible_set d2 = eligible_set d" "matching_set d2 = eligible_set d - matching_set d" by blast
    with True d(1-5) md assms(3) show ?thesis by (auto simp: select_pipes_def Let_def)
  qed
qed

lemma publish:
  assumes "xpub_ok p" "\<not> more_send p" "\<not> manual p" "lossy p" "sock_good s" "one_message (m # ms)"
  shows "\<exists>p' s'. run_ops xpub_step (m # ms) (p, s) = Inr (map (\<lambda>_. True) (m # ms), p', s') \<and> xpub_ok p' \<and> \<not> more_send p' \<and> sock_good s' \<and> x_subs p' = x_subs p \<and>
    all_set (x_dist p') = all_set (x_dist p) \<and>
    (\<forall>x. sock_sent s' x = (if x \<in> eligible_set (x_dist p) \<and> sock_room s x \<and> subscribed p (w_data m) x \<noteq> invert_matching p
        then sock_sent s x @ map Msg (m # ms) else sock_sent s x))"
proof -
  from select_ok[OF assms(1-3), of m] obtain d where d: "select_pipes m p = Inr (p\<lparr>x_dist := d\<rparr>)" "dist_ok d" "\<not> d_more d"
    "all_set d = all_set (x_dist p)" "eligible_set d = eligible_set (x_dist p)"
    "matching_set d = {x\<in>eligible_set (x_dist p). subscribed p (w_data m) x \<noteq> invert_matching p}" by blast
  from sk.send_message[OF assms(6) d(2) assms(5)] obtain d' s' where r: "send_parts sock_write sock_flush (m # ms) d s = Inr (d', s')" "dist_ok d'" "sock_good s'"
    "\<not> d_more d'" "all_set d' = all_set d" "sock_sent s' = handed_out (matching_set d) (sock_room s) (sock_sent s) (map Msg (m # ms))" by blast
  have run: "run_ops xpub_step (m # ms) (p, s) = Inr (map (\<lambda>_. True) (m # ms), finish_dist d' p, s')"
  proof (cases ms)
    case Nil
    with r(1) d(1) assms(2,4,6) show ?thesis
      by (auto simp: xpub_step_def xpub_send_def finish_dist_def bindE_eq_Inr)
  next
    case (Cons m' ms')
    then have mo: "has_more (Msg m)" "one_message ms" using assms(6) by simp_all
    from r(1) obtain d1 s1 where 1: "send_to_matching sock_write sock_flush m d s = Inr (d1, s1)" "send_parts sock_write sock_flush ms d1 s1 = Inr (d', s')"
      by (auto simp: bindE_eq_Inr)
    let ?p = "p\<lparr>x_dist := d1, more_send := True\<rparr>"
    have "xpub_step m (p, s) = Inr (True, ?p, s1)" using assms(2,4) d(1) 1(1) mo(1) by (simp add: xpub_step_def xpub_send_def)
    moreover have "run_ops xpub_step ms (?p, s1) = Inr (map (\<lambda>_. True) ms, finish_dist d' p, s')"
      using send_rest[OF mo(2), of ?p s1] 1(2) assms(4) by (simp add: finish_dist_def)
    ultimately show ?thesis by simp
  qed
  have "all_set (unmatch d') = all_set (x_dist p)" "dist_ok (unmatch d')" "\<not> d_more (unmatch d')"
    using r(2,4,5) d(4) unmatch_ok[of d'] by (auto simp: unmatch_def dist_sets)
  then have "xpub_ok (finish_dist d' p)" using assms(1) by (simp add: xpub_ok_def finish_dist_def known_def)
  with run r(3,6) d(6) \<open>all_set (unmatch d') = all_set (x_dist p)\<close> show ?thesis by (simp add: finish_dist_def handed_out_def)
qed

section \<open>Whole pipes\<close>

text \<open>The requests among messages, one after the other.\<close>

definition request_of :: "pid \<Rightarrow> wmsg \<Rightarrow> (byte list \<Rightarrow> pid set) \<Rightarrow> byte list \<Rightarrow> pid set" where
  "request_of x m f = (case sub_request m of Inr (Some (sub, k)) \<Rightarrow> requested x sub k f | _ \<Rightarrow> f)"

definition well_formed :: "wmsg \<Rightarrow> bool" where
  "well_formed m \<longleftrightarrow> (\<exists>q. sub_request m = Inr q)"

text \<open>Every part of a message is looked at, as it is without the option \<^verbatim>\<open>ZMQ_ONLY_FIRST_SUBSCRIBE\<close>.\<close>

definition reads_all :: "xpub \<Rightarrow> bool" where
  "reads_all p \<longleftrightarrow> \<not> manual p \<and> \<not> only_first_subscribe p \<and> (\<not> more_recv p \<or> process_subscribe p)"

definition mode :: "xpub \<Rightarrow> bool \<times> bool \<times> bool \<times> bool" where
  "mode p = (manual p, only_first_subscribe p, more_recv p, process_subscribe p)"

lemma apply_request_mode: "apply_request x sub k p = Inr (n, p') \<Longrightarrow> mode p' = mode p"
  by (auto simp: apply_request_def mode_def bindE_eq_Inr split: if_splits)

lemma push_mode: "mode (push_pending b fl p) = mode p"
  by (simp add: mode_def push_pending_def)

lemma process_any:
  assumes "xpub_ok p" "x \<in> all_set (x_dist p)" "reads_all p" "well_formed m"
  shows "\<exists>p'. process_message x m p = Inr p' \<and> xpub_ok p' \<and> x_dist p' = x_dist p \<and> reads_all p' \<and>
    subs (x_subs p') = request_of x m (subs (x_subs p))"
proof -
  from assms(4) obtain q where q: "sub_request m = Inr q" by (auto simp: well_formed_def)
  have r: "reads_all p'" if "process_message x m p = Inr p'" for p'
  proof -
    let ?p = "if more_recv p then p\<lparr>more_recv := has_more (Msg m)\<rparr> else p\<lparr>more_recv := has_more (Msg m), process_subscribe := True\<rparr>"
    have "process_message x m p = (case q of Some (sub, k) \<Rightarrow> bindE (apply_request x sub k ?p) (\<lambda>(notify, p3).
            if manual p3 \<or> \<not> opt_pub p3 \<and> notify then Inr (push_pending ((if sub then 1 else 0) # k) 0 p3) else Inr p3)
        | None \<Rightarrow> if \<not> opt_pub ?p then Inr (push_pending (w_data m) (w_flags m) ?p) else Inr ?p)"
      using q assms(3) by (cases "more_recv p"; cases q) (simp_all add: process_message_def reads_all_def Let_def)
    with that have "mode p' = mode ?p"
      by (cases q) (auto simp: bindE_eq_Inr push_mode split: if_splits dest!: apply_request_mode)
    then show ?thesis using assms(3) by (auto simp: reads_all_def mode_def split: if_splits)
  qed
  show ?thesis
  proof (cases q)
    case None
    then have "(if \<not> more_recv p \<or> process_subscribe p then sub_request m else Inr None) = Inr None" using q by simp
    from process_other[OF assms(1) this, of x] None q r show ?thesis by (auto simp: request_of_def)
  next
    case (Some z)
    obtain sub k where "z = (sub, k)" by (cases z)
    with process_request[OF assms(1,2), of m sub k] q r Some assms(3) show ?thesis by (auto simp: request_of_def reads_all_def)
  qed
qed

lemma xpub_reads:
  assumes "xpub_ok p" "x \<in> all_set (x_dist p)" "reads_all p" "sock_good s" "list_all well_formed (sock_avail s x)"
  shows "\<exists>p' s'. xpub_read_activated x p s = Inr (p', s') \<and> xpub_ok p' \<and> x_dist p' = x_dist p \<and> sock_good s' \<and>
    sock_avail s' = (sock_avail s)(x := []) \<and> subs (x_subs p') = fold (request_of x) (sock_avail s x) (subs (x_subs p))"
  using assms
proof (induction "sock_avail s x" arbitrary: p s)
  case Nil
  from sq.rd_empty[OF Nil(5), of x] Nil(1) obtain s1 where s1: "sock_read x s = Inr (None, s1)" "sock_good s1" "sock_avail s1 = sock_avail s" by auto
  then have "xpub_read_activated x p s = Inr (p, s1)" by (simp add: xpub_read_activated.simps[of x p s])
  moreover have "sock_avail s1 = (sock_avail s)(x := [])" using s1(3) Nil(1) by (simp add: fun_upd_idem)
  ultimately show ?case using Nil(1,2) s1(2) by (auto simp: Nil(1)[symmetric])
next
  case (Cons m ms)
  from sq.rd_some[OF Cons(6) Cons(2)[symmetric]] obtain s1 where s1: "sock_read x s = Inr (Some m, s1)" "sock_good s1" "sock_avail s1 = (sock_avail s)(x := ms)" by blast
  have wf: "well_formed m" "list_all well_formed ms" using Cons(7) unfolding Cons(2)[symmetric] by simp_all
  from process_any[OF Cons(3-5) wf(1)] obtain p1 where p1: "process_message x m p = Inr p1" "xpub_ok p1" "x_dist p1 = x_dist p" "reads_all p1"
    "subs (x_subs p1) = request_of x m (subs (x_subs p))" by blast
  have a: "sock_avail s1 x = ms" using s1(3) by simp
  from Cons(1)[OF a[symmetric] p1(2) _ p1(4) s1(2)] p1(3) Cons(4) wf(2) a obtain p' s' where ih: "xpub_read_activated x p1 s1 = Inr (p', s')" "xpub_ok p'"
    "x_dist p' = x_dist p1" "sock_good s'" "sock_avail s' = (sock_avail s1)(x := [])" "subs (x_subs p') = fold (request_of x) ms (subs (x_subs p1))" by auto
  have "xpub_read_activated x p s = Inr (p', s')" using s1(1) p1(1) ih(1) by (simp add: xpub_read_activated.simps[of x p s])
  moreover have "sock_avail s' = (sock_avail s)(x := [])" using ih(5) s1(3) by simp
  moreover have "subs (x_subs p') = fold (request_of x) (sock_avail s x) (subs (x_subs p))" using ih(6) p1(5) by (simp add: Cons(2)[symmetric])
  ultimately show ?case using ih(2-4) p1(3) by auto
qed

section \<open>Departures\<close>

lemma unsubscriptions:
  "x_subs (fold send_unsubscription ks p) = x_subs p" "x_manual_subs (fold send_unsubscription ks p) = x_manual_subs p"
  "x_dist (fold send_unsubscription ks p) = x_dist p" "more_send (fold send_unsubscription ks p) = more_send p"
  "length (pending_flags p) = length (pending_data p) \<Longrightarrow> length (pending_flags (fold send_unsubscription ks p)) = length (pending_data (fold send_unsubscription ks p))"
  "pending_data (fold send_unsubscription ks p) = pending_data p @ (if opt_pub p then [] else map (\<lambda>k. 0 # k) ks)"
proof -
  have o: "opt_pub (send_unsubscription k p) = opt_pub p" for k p by (simp add: send_unsubscription_def push_pending_def Let_def)
  show "x_subs (fold send_unsubscription ks p) = x_subs p" "x_manual_subs (fold send_unsubscription ks p) = x_manual_subs p"
    "x_dist (fold send_unsubscription ks p) = x_dist p" "more_send (fold send_unsubscription ks p) = more_send p"
    by (induction ks arbitrary: p) (simp_all add: send_unsubscription_def push_pending_def Let_def)
  show "length (pending_flags (fold send_unsubscription ks p)) = length (pending_data (fold send_unsubscription ks p))"
    if "length (pending_flags p) = length (pending_data p)"
    using that by (induction ks arbitrary: p) (simp_all add: send_unsubscription_def push_pending_def Let_def)
  show "pending_data (fold send_unsubscription ks p) = pending_data p @ (if opt_pub p then [] else map (\<lambda>k. 0 # k) ks)"
    by (induction ks arbitrary: p) (simp_all add: o, simp add: send_unsubscription_def push_pending_def Let_def)
qed

text \<open>The topics that a departing pipe is reported to leave.\<close>

definition left_topics :: "pid \<Rightarrow> xpub \<Rightarrow> byte list set" where
  "left_topics x p = (if manual p then {k. x \<in> subs (x_manual_subs p) k}
     else {k. x \<in> subs (x_subs p) k \<and> (verbose_unsubs p \<or> subs (x_subs p) k = {x})})"

lemma xpub_leaves:
  assumes "xpub_ok p" "x \<in> all_set (x_dist p)"
  shows "\<exists>p' ks. xpub_pipe_terminated x p = Inr p' \<and> xpub_ok p' \<and> all_set (x_dist p') = all_set (x_dist p) - {x} \<and>
    (\<forall>k. subs (x_subs p') k = subs (x_subs p) k - {x}) \<and> distinct ks \<and> set ks = left_topics x p \<and>
    pending_data p' = pending_data p @ (if opt_pub p then [] else map (\<lambda>k. 0 # k) ks)"
proof -
  have o: "known (x_subs p) (x_dist p)" "mtrie_wf (x_manual_subs p)" "mtrie_wf (x_subs p)" "dist_ok (x_dist p)" "length (pending_flags p) = length (pending_data p)"
    "d_more (x_dist p) = more_send p" using assms(1) by (simp_all add: xpub_ok_def known_def)
  from dist_terminated_ok[OF o(4) assms(2)] obtain d where d: "dist_pipe_terminated x (x_dist p) = Inr d" "dist_ok d" "d_more d = d_more (x_dist p)"
    "all_set d = all_set (x_dist p) - {x}" by blast
  have kn: "known t d" if "mtrie_wf t" "\<forall>k. subs t k = subs (x_subs p) k - {x}" for t
    using that o(1) d(4) by (auto simp: known_def)
  show ?thesis
  proof (cases "manual p")
    case True
    from leave_ok[OF o(2), of x False] obtain ks t where t: "mtrie_rm_value x False (x_manual_subs p) = Inr (ks, t)" "mtrie_wf t"
      "distinct ks" "set ks = {k. x \<in> subs (x_manual_subs p) k}" by auto
    from leave_ok[OF o(3), of x False] obtain ks1 t1 where t1: "mtrie_rm_value x False (x_subs p) = Inr (ks1, t1)" "mtrie_wf t1"
      "\<forall>k. subs t1 k = subs (x_subs p) k - {x}" by auto
    let ?p = "fold send_unsubscription ks (p\<lparr>x_manual_subs := t\<rparr>)"
    let ?q = "?p\<lparr>x_subs := t1, last_pipe := (if last_pipe ?p = Some x then None else last_pipe ?p), x_dist := d\<rparr>"
    have "xpub_pipe_terminated x p = Inr ?q" using True t(1) t1(1) d(1) by (simp add: xpub_pipe_terminated_def unsubscriptions)
    moreover have "xpub_ok ?q" using t(2) kn[OF t1(2,3)] d(2,3) o(5,6) unsubscriptions(5)[of "p\<lparr>x_manual_subs := t\<rparr>" ks]
      by (simp add: xpub_ok_def unsubscriptions)
    ultimately show ?thesis using t(3,4) t1(3) d(4) True by (intro exI[of _ ?q] exI[of _ ks]) (simp add: unsubscriptions left_topics_def)
  next
    case False
    from leave_ok[OF o(3), of x "\<not> verbose_unsubs p"] obtain ks t where t: "mtrie_rm_value x (\<not> verbose_unsubs p) (x_subs p) = Inr (ks, t)" "mtrie_wf t"
      "\<forall>k. subs t k = subs (x_subs p) k - {x}" "distinct ks" "set ks = {k. x \<in> subs (x_subs p) k \<and> (\<not> verbose_unsubs p \<longrightarrow> subs (x_subs p) k = {x})}" by auto
    let ?q = "(fold send_unsubscription ks (p\<lparr>x_subs := t\<rparr>))\<lparr>x_dist := d\<rparr>"
    have "xpub_pipe_terminated x p = Inr ?q" using False t(1) d(1) by (simp add: xpub_pipe_terminated_def unsubscriptions)
    moreover have "xpub_ok ?q" using kn[OF t(2,3)] d(2,3) o(2,5,6) unsubscriptions(5)[of "p\<lparr>x_subs := t\<rparr>" ks]
      by (simp add: xpub_ok_def unsubscriptions)
    moreover have "set ks = left_topics x p" using t(5) False by (auto simp: left_topics_def)
    ultimately show ?thesis using t(3,4) d(4) by (intro exI[of _ ?q] exI[of _ ks]) (simp add: unsubscriptions)
  qed
qed

section \<open>Properties\<close>

text \<open>
  C23. A published message reaches exactly its subscribers: every part of a message goes, in order and in one piece, to the pipes that take
  messages, have room and are subscribed to a prefix of its first part (not subscribed to any, with inverted matching),
  and to no others; afterwards the socket is ready for the next message, with the same subscriptions.
\<close>
theorem xpub_publishes_exactly:
  assumes "xpub_ok p" "\<not> more_send p" "\<not> manual p" "lossy p" "sock_good s" "one_message (m # ms)"
  shows "\<exists>p' s'. run_ops xpub_step (m # ms) (p, s) = Inr (map (\<lambda>_. True) (m # ms), p', s') \<and> xpub_ok p' \<and> \<not> more_send p' \<and> sock_good s' \<and> x_subs p' = x_subs p \<and>
    all_set (x_dist p') = all_set (x_dist p) \<and>
    (\<forall>x. sock_sent s' x = (if x \<in> eligible_set (x_dist p) \<and> sock_room s x \<and> subscribed p (w_data m) x \<noteq> invert_matching p
        then sock_sent s x @ map Msg (m # ms) else sock_sent s x))"
  by (rule publish[OF assms])

text \<open>
  The requests in a pipe are all carried out: reading a pipe ends with the pipe empty and the other pipes untouched, and the subscriptions are
  those before with the requests of its messages applied in order, for this pipe only; no assertion fails.
\<close>
theorem xpub_reads_requests:
  assumes "xpub_ok p" "x \<in> all_set (x_dist p)" "reads_all p" "sock_good s" "list_all well_formed (sock_avail s x)"
  shows "\<exists>p' s'. xpub_read_activated x p s = Inr (p', s') \<and> xpub_ok p' \<and> x_dist p' = x_dist p \<and> sock_good s' \<and>
    sock_avail s' = (sock_avail s)(x := []) \<and> subs (x_subs p') = fold (request_of x) (sock_avail s x) (subs (x_subs p))"
  by (rule xpub_reads[OF assms])

text \<open>
  C31. A subscriber that leaves is forgotten: it disappears from the distributor and from all topics, all other subscriptions stay, and the user
  of an XPUB is told, once for each, exactly of the topics that it leaves without subscribers, or of all its
  topics in verbose mode and in manual mode; a PUB tells nothing.
\<close>
theorem xpub_forgets_pipe:
  assumes "xpub_ok p" "x \<in> all_set (x_dist p)"
  shows "\<exists>p' ks. xpub_pipe_terminated x p = Inr p' \<and> xpub_ok p' \<and> all_set (x_dist p') = all_set (x_dist p) - {x} \<and>
    (\<forall>k. subs (x_subs p') k = subs (x_subs p) k - {x}) \<and> distinct ks \<and> set ks = left_topics x p \<and>
    pending_data p' = pending_data p @ (if opt_pub p then [] else map (\<lambda>k. 0 # k) ks)"
  by (rule xpub_leaves[OF assms])

section \<open>Witnesses\<close>

definition sample_pub_env :: sockenv where
  "sample_pub_env = \<lparr>ends = (\<lambda>i. if i = 7 then sample_end [[1, 65], [1, 66], [0, 65]] else if i = 8 then sample_end [[1, 65]] else sample_end []), outbox = []\<rparr>"

definition sample_xpub :: xpub where
  "sample_xpub = (xpub_new False)\<lparr>x_dist := unmatch sample_dist\<rparr>"

lemma sample_xpub_ok: "xpub_ok sample_xpub" "7 \<in> all_set (x_dist sample_xpub)" "reads_all sample_xpub" "\<not> more_send sample_xpub" "\<not> manual sample_xpub" "lossy sample_xpub"
proof -
  show "xpub_ok sample_xpub" using xpub_ok_new[of False] unmatch_ok[OF sample_dist_ok(2)]
    by (simp add: xpub_ok_def sample_xpub_def xpub_new_def known_def mtrie_wf_new) (simp add: unmatch_def sample_dist_def)
  show "7 \<in> all_set (x_dist sample_xpub)" by (simp add: sample_xpub_def all_set_def unmatch_def sample_dist_def)
qed (simp_all add: sample_xpub_def xpub_new_def reads_all_def)

lemma sample_pub_env_ok: "sock_good sample_pub_env"
  by (auto simp: sock_good_def sample_pub_env_def sample_end_def plain_def end_wf_def pipe_new_def upipe_new_def acked_def uq_def is_credential_def)

theorem xpub_publishes_exactly_witness:
  "\<exists>p' s'. run_ops xpub_step sample_parts (sample_xpub, sample_pub_env) = Inr ([True, True], p', s') \<and> sock_sent s' 7 = sock_sent sample_pub_env 7"
proof -
  have "\<not> subscribed sample_xpub b x" for b x by (simp add: subscribed_def sample_xpub_def xpub_new_def mtrie_wf_new)
  moreover have "\<not> invert_matching sample_xpub" by (simp add: sample_xpub_def xpub_new_def)
  ultimately show ?thesis
    using xpub_publishes_exactly[OF sample_xpub_ok(1,4,5,6) sample_pub_env_ok, of "hd sample_parts" "tl sample_parts"] sample_dist_ok(1)
    by (auto simp: sample_parts_def)
qed

lemma sample_avail: "sock_avail sample_pub_env 7 = map (\<lambda>d. \<lparr>w_flags = 0, w_data = d\<rparr>) [[1, 65], [1, 66], [0, 65]]"
  by (simp add: sock_avail_def sample_pub_env_def sample_end_def avail_of_def may_read_def pipe_new_def upipe_new_def)

lemma sample_requests: "sub_request \<lparr>w_flags = 0, w_data = [c, d]\<rparr> = Inr (if c = 0 \<or> c = 1 then Some (c = 1, [d]) else None)"
  by (simp add: sub_request_def is_subscribe_def is_cancel_def CMD_TYPE_MASK_def)

theorem xpub_reads_requests_witness:
  "\<exists>p' s'. xpub_read_activated 7 sample_xpub sample_pub_env = Inr (p', s') \<and> subs (x_subs p') [66] = {7} \<and> subs (x_subs p') [65] = {}"
proof -
  have "list_all well_formed (sock_avail sample_pub_env 7)" by (auto simp: sample_avail well_formed_def sample_requests)
  from xpub_reads_requests[OF sample_xpub_ok(1-3) sample_pub_env_ok this] obtain p' s' where
    r: "xpub_read_activated 7 sample_xpub sample_pub_env = Inr (p', s')"
      "subs (x_subs p') = fold (request_of 7) (sock_avail sample_pub_env 7) (subs (x_subs sample_xpub))" by blast
  have "subs (x_subs sample_xpub) = (\<lambda>_. {})" by (simp add: sample_xpub_def xpub_new_def mtrie_wf_new fun_eq_iff)
  then have "subs (x_subs p') = (\<lambda>_. {})([66] := {7})"
    unfolding r(2) by (simp add: sample_avail request_of_def sample_requests requested_def fun_upd_twist fun_eq_iff del: subs.simps)
  with r(1) show ?thesis by (simp del: subs.simps)
qed

theorem xpub_forgets_pipe_witness:
  "\<exists>p' ks. xpub_pipe_terminated 7 sample_xpub = Inr p' \<and> xpub_ok p' \<and> 7 \<notin> all_set (x_dist p') \<and> set ks = left_topics 7 sample_xpub"
  using xpub_forgets_pipe[OF sample_xpub_ok(1,2)] by blast

section \<open>Manual subscriptions\<close>

text \<open>
  In manual mode a message that is no subscription has an entry among the pending messages and none among the pending pipes, so that the
  pipes run ahead of the messages from there on: the user that answers the subscription of one pipe subscribes another.
\<close>

definition manual_history :: "xpub \<Rightarrow> xpub result" where
  "manual_history p =
     bindE (process_message 7 \<lparr>w_flags = 0, w_data = [5]\<rparr> p) (\<lambda>p1.
     bindE (process_message 7 \<lparr>w_flags = 0, w_data = [1, 65]\<rparr> p1) (\<lambda>p2.
     bindE (process_message 8 \<lparr>w_flags = 0, w_data = [1, 66]\<rparr> p2) (\<lambda>p3.
     let (m1, p4) = xpub_recv p3; (m2, p5) = xpub_recv p4 in
     if m2 = Some \<lparr>w_flags = 0, w_data = [1, 65]\<rparr> then bindE (xpub_setsockopt ZMQ_SUBSCRIBE [65] None p5) (\<lambda>(_, p6). Inr p6) else Inr p5)))"

lemma manual_subscribes_other:
  "(case manual_history (sample_xpub\<lparr>manual := True\<rparr>) of Inl e \<Rightarrow> False | Inr p \<Rightarrow> mtrie_match [65] (x_subs p) = [8])"
  by code_simp

end
