(* ===== verification/Xsub.thy ===== *)
theory Xsub
  imports Socket_Pipes Distributor Trie_Sub
begin

text \<open>
  The subscribing sockets XSUB and SUB, \<^verbatim>\<open>xsub.cpp\<close> and \<^verbatim>\<open>sub.cpp\<close>: messages are fair-queued and filtered by the trie of subscriptions,
  which also go upstream to all pipes.  The subscriptions are kept in the trie of \<^verbatim>\<open>trie.cpp\<close>, as they are without
  the draft option for a radix tree.
\<close>

record xsub =
  s_fq :: fq
  s_dist :: dist
  s_subs :: trie
  s_verbose_unsubs :: bool
  has_message :: bool
  message :: wmsg
  s_more_send :: bool
  s_more_recv :: bool
  s_process_subscribe :: bool
  s_only_first_subscribe :: bool
  opt_filter :: bool
  s_invert_matching :: bool

text \<open>The option to filter is on for SUB and off for XSUB.\<close>

definition xsub_new :: "bool \<Rightarrow> xsub" where
  "xsub_new sub = \<lparr>s_fq = fq_new, s_dist = dist_new, s_subs = trie_new, s_verbose_unsubs = False, has_message = False, message = msg_init,
     s_more_send = False, s_more_recv = False, s_process_subscribe = False, s_only_first_subscribe = False, opt_filter = sub,
     s_invert_matching = False\<rparr>"

section \<open>Subscriptions upstream\<close>

definition init_subscribe :: "byte list \<Rightarrow> wmsg" where
  "init_subscribe k = \<lparr>w_flags = 12, w_data = k\<rparr>"

definition init_cancel :: "byte list \<Rightarrow> wmsg" where
  "init_cancel k = \<lparr>w_flags = 16, w_data = k\<rparr>"

text \<open>A subscription that a full pipe does not take is dropped.\<close>

definition send_subscription :: "pid \<Rightarrow> byte list \<Rightarrow> sockenv \<Rightarrow> sockenv result" where
  "send_subscription x k s = bindE (sock_write x (init_subscribe k) s) (\<lambda>(_, s1). Inr s1)"

primrec send_subscriptions :: "pid \<Rightarrow> byte list list \<Rightarrow> sockenv \<Rightarrow> sockenv result" where
  "send_subscriptions x [] s = Inr s"
| "send_subscriptions x (k # ks) s = bindE (send_subscription x k s) (send_subscriptions x ks)"

definition xsub_hiccuped :: "pid \<Rightarrow> xsub \<Rightarrow> sockenv \<Rightarrow> sockenv result" where
  "xsub_hiccuped x p s = bindE (send_subscriptions x (trie_apply (s_subs p)) s) (\<lambda>s1. sock_flush x s1)"

definition xsub_attach_pipe :: "pid \<Rightarrow> xsub \<Rightarrow> sockenv \<Rightarrow> (xsub \<times> sockenv) result" where
  "xsub_attach_pipe x p s = bindE (fq_attach x (s_fq p)) (\<lambda>f. bindE (dist_attach x (s_dist p)) (\<lambda>d.
     bindE (xsub_hiccuped x p s) (\<lambda>s1. Inr (p\<lparr>s_fq := f, s_dist := d\<rparr>, s1))))"

definition xsub_read_activated :: "pid \<Rightarrow> xsub \<Rightarrow> xsub result" where
  "xsub_read_activated x p = bindE (fq_activated x (s_fq p)) (\<lambda>f. Inr (p\<lparr>s_fq := f\<rparr>))"

definition xsub_write_activated :: "pid \<Rightarrow> xsub \<Rightarrow> xsub result" where
  "xsub_write_activated x p = bindE (dist_activated x (s_dist p)) (\<lambda>d. Inr (p\<lparr>s_dist := d\<rparr>))"

definition xsub_pipe_terminated :: "pid \<Rightarrow> xsub \<Rightarrow> xsub result" where
  "xsub_pipe_terminated x p = bindE (fq_pipe_terminated x (s_fq p)) (\<lambda>f. bindE (dist_pipe_terminated x (s_dist p)) (\<lambda>d.
     Inr (p\<lparr>s_fq := f, s_dist := d\<rparr>)))"


definition xsub_setsockopt :: "int \<Rightarrow> int option \<Rightarrow> xsub \<Rightarrow> bool \<times> xsub" where
  "xsub_setsockopt opt v p = (if opt = ZMQ_ONLY_FIRST_SUBSCRIBE \<and> int_option v
     then (True, p\<lparr>s_only_first_subscribe := (v \<noteq> Some 0)\<rparr>) else (False, p))"

definition to_all :: "wmsg \<Rightarrow> xsub \<Rightarrow> sockenv \<Rightarrow> (xsub \<times> sockenv) result" where
  "to_all m p s = bindE (send_to_all sock_write sock_flush m (s_dist p) s) (\<lambda>(d, s1). Inr (p\<lparr>s_dist := d\<rparr>, s1))"

text \<open>The call returns 0 on every branch.\<close>

definition xsub_send :: "wmsg \<Rightarrow> xsub \<Rightarrow> sockenv \<Rightarrow> (xsub \<times> sockenv) result" where
  "xsub_send m p0 s =
     (let first = \<not> s_more_send p0; p1 = p0\<lparr>s_more_send := has_more (Msg m)\<rparr>;
          p = (if first then p1\<lparr>s_process_subscribe := \<not> s_only_first_subscribe p1\<rparr> else p1) in
      if \<not> first \<and> \<not> s_process_subscribe p then to_all m p s
      else if is_subscribe m \<or> (w_data m \<noteq> [] \<and> hd (w_data m) = 1)
      then let k = (if is_subscribe m then w_data m else tl (w_data m)) in
        bindE (trie_add k (s_subs p)) (\<lambda>(_, t). to_all m (p\<lparr>s_subs := t, s_process_subscribe := True\<rparr>) s)
      else if is_cancel m \<or> (w_data m \<noteq> [] \<and> hd (w_data m) = 0)
      then let k = (if is_cancel m then w_data m else tl (w_data m)) in
        bindE (trie_rm k (s_subs p)) (\<lambda>(gone, t).
          let p2 = p\<lparr>s_subs := t, s_process_subscribe := True\<rparr> in
          if gone \<or> s_verbose_unsubs p2 then to_all m p2 s else Inr (p2, s))
      else to_all m p s)"

definition xsub_has_out :: "xsub \<Rightarrow> bool" where "xsub_has_out p = True"


text \<open>The options of SUB; other options are \<^verbatim>\<open>EINVAL\<close>, and sending is \<^verbatim>\<open>ENOTSUP\<close>.\<close>

definition sub_setsockopt :: "int \<Rightarrow> byte list \<Rightarrow> xsub \<Rightarrow> sockenv \<Rightarrow> (bool \<times> xsub \<times> sockenv) result" where
  "sub_setsockopt opt k p s =
     (if opt \<noteq> ZMQ_SUBSCRIBE \<and> opt \<noteq> ZMQ_UNSUBSCRIBE then Inr (False, p, s)
      else bindE (xsub_send (if opt = ZMQ_SUBSCRIBE then init_subscribe k else init_cancel k) p s) (\<lambda>(p1, s1). Inr (True, p1, s1)))"

definition sub_send :: "wmsg \<Rightarrow> xsub \<Rightarrow> sockenv \<Rightarrow> bool \<times> xsub \<times> sockenv" where
  "sub_send m p s = (False, p, s)"

definition sub_has_out :: "xsub \<Rightarrow> bool" where "sub_has_out p = False"

section \<open>Receiving\<close>

definition sub_match :: "wmsg \<Rightarrow> xsub \<Rightarrow> bool result" where
  "sub_match m p = bindE (trie_check (w_data m) (s_subs p)) (\<lambda>b. Inr (b \<noteq> s_invert_matching p))"

lemma fq_recv_backlog: "fq_recv sock_read f s = Inr (Some m, f', s') \<Longrightarrow> backlog f' s' < backlog f s"
  by (auto simp: fq_recv_def bindE_eq_Inr dest: recvpipe_backlog)

text \<open>The rest of a message that does not match.\<close>

function drop_rest :: "wmsg \<Rightarrow> fq \<Rightarrow> sockenv \<Rightarrow> (fq \<times> sockenv) result" where
  "drop_rest m f s =
     (if \<not> has_more (Msg m) then Inr (f, s)
      else case fq_recv sock_read f s of
          Inl e \<Rightarrow> Inl e
        | Inr (None, f1, s1) \<Rightarrow> Inl Assertion
        | Inr (Some m1, f1, s1) \<Rightarrow> drop_rest m1 f1 s1)"
  by pat_completeness auto
termination
  by (relation "measure (\<lambda>(m, f, s). backlog f s)") (auto dest: fq_recv_backlog)

declare drop_rest.simps [simp del]

lemma drop_rest_backlog: "drop_rest m f s = Inr (f', s') \<Longrightarrow> backlog f' s' \<le> backlog f s"
proof (induction m f s rule: drop_rest.induct)
  case (1 m f s)
  show ?case
  proof (cases "has_more (Msg m)")
    case False
    with 1(2) show ?thesis by (simp add: drop_rest.simps[of m f s])
  next
    case True
    with 1(2) obtain m1 f1 s1 where r: "fq_recv sock_read f s = Inr (Some m1, f1, s1)" "drop_rest m1 f1 s1 = Inr (f', s')"
      by (auto simp: drop_rest.simps[of m f s] split: sum.splits option.splits)
    have "backlog f' s' \<le> backlog f1 s1" using 1(1) True r by auto
    with fq_recv_backlog[OF r(1)] show ?thesis by simp
  qed
qed

text \<open>The next message that passes; \<open>ok\<close> decides for the first part of a message.\<close>

function next_matching :: "(wmsg \<Rightarrow> bool result) \<Rightarrow> fq \<Rightarrow> sockenv \<Rightarrow> (wmsg option \<times> fq \<times> sockenv) result" where
  "next_matching ok f s = (case fq_recv sock_read f s of
      Inl e \<Rightarrow> Inl e
    | Inr (None, f1, s1) \<Rightarrow> Inr (None, f1, s1)
    | Inr (Some m, f1, s1) \<Rightarrow> (case ok m of
        Inl e \<Rightarrow> Inl e
      | Inr True \<Rightarrow> Inr (Some m, f1, s1)
      | Inr False \<Rightarrow> (case drop_rest m f1 s1 of Inl e \<Rightarrow> Inl e | Inr (f2, s2) \<Rightarrow> next_matching ok f2 s2)))"
  by pat_completeness auto
termination
  by (relation "measure (\<lambda>(ok, f, s). backlog f s)") (auto dest!: fq_recv_backlog drop_rest_backlog)

declare next_matching.simps [simp del]

definition xsub_recv :: "xsub \<Rightarrow> sockenv \<Rightarrow> (wmsg option \<times> xsub \<times> sockenv) result" where
  "xsub_recv p s =
     (if has_message p
      then Inr (Some (message p), p\<lparr>message := msg_init, has_message := False, s_more_recv := has_more (Msg (message p))\<rparr>, s)
      else bindE (next_matching (\<lambda>m. if s_more_recv p \<or> \<not> opt_filter p then Inr True else sub_match m p) (s_fq p) s) (\<lambda>(r, f, s1). case r of
          None \<Rightarrow> Inr (None, p\<lparr>s_fq := f\<rparr>, s1)
        | Some m \<Rightarrow> Inr (Some m, p\<lparr>s_fq := f, s_more_recv := has_more (Msg m)\<rparr>, s1)))"

definition xsub_has_in :: "xsub \<Rightarrow> sockenv \<Rightarrow> (bool \<times> xsub \<times> sockenv) result" where
  "xsub_has_in p s =
     (if s_more_recv p \<or> has_message p then Inr (True, p, s)
      else bindE (next_matching (\<lambda>m. if \<not> opt_filter p then Inr True else sub_match m p) (s_fq p) s) (\<lambda>(r, f, s1). case r of
          None \<Rightarrow> Inr (False, p\<lparr>s_fq := f, message := msg_init\<rparr>, s1)
        | Some m \<Rightarrow> Inr (True, p\<lparr>s_fq := f, message := m, has_message := True\<rparr>, s1)))"

section \<open>What the filter takes and leaves\<close>

lemma fq_recv_result:
  assumes "fq_ok f" "queues_ok s" "fq_midway f s"
  shows "\<exists>r f' s'. fq_recv sock_read f s = Inr (map_option fst r, f', s') \<and> fq_ok f' \<and> set (items (f_pipes f')) = set (items (f_pipes f)) \<and>
    fq_midway f' s' \<and> in_frame s s' \<and> queues_ok s' \<and> fetched r f s f' s'"
  using recv_result[OF assms] by (fastforce simp: fq_recv_def in_frame_def)

lemma in_frame_trans: "in_frame s s1 \<Longrightarrow> in_frame s1 s2 \<Longrightarrow> in_frame s s2"
  using keeps_out_trans unfolding in_frame_def by blast

text \<open>No pipe with messages is set aside.\<close>

definition keeps_busy :: "fq \<Rightarrow> sockenv \<Rightarrow> fq \<Rightarrow> sockenv \<Rightarrow> bool" where
  "keeps_busy f s f' s' \<longleftrightarrow> (\<forall>j\<in>set (active_pipes f). sock_avail s' j \<noteq> [] \<longrightarrow> j \<in> set (active_pipes f'))"

lemma fetched_busy: "fetched (Some (m, i)) f s f' s' \<Longrightarrow> keeps_busy f s f' s'"
  by (auto simp: fetched_def keeps_busy_def split: if_splits)

lemma drop_rest_ok:
  assumes "fq_ok f" "queues_ok s" "fq_midway f s" "f_more f = has_more (Msg m)"
  shows "\<exists>rest f' s'. drop_rest m f s = Inr (f', s') \<and> fq_ok f' \<and> fq_midway f' s' \<and> in_frame s s' \<and> queues_ok s' \<and> \<not> f_more f' \<and>
    set (items (f_pipes f')) = set (items (f_pipes f)) \<and> one_message (m # rest) \<and> keeps_busy f s f' s' \<and>
    sock_avail s = (sock_avail s')(cur f := rest @ sock_avail s' (cur f))"
  using assms
proof (induction m f s rule: drop_rest.induct)
  case (1 m f s)
  show ?case
  proof (cases "has_more (Msg m)")
    case False
    with 1 in_frame_refl[OF 1(3)] show ?thesis
      by (intro exI[of _ "[]"] exI[of _ f] exI[of _ s]) (simp add: drop_rest.simps[of m f s] keeps_busy_def)
  next
    case True
    from fq_recv_result[OF 1(2-4)] obtain r f1 s1 where r: "fq_recv sock_read f s = Inr (map_option fst r, f1, s1)" "fq_ok f1"
      "set (items (f_pipes f1)) = set (items (f_pipes f))" "fq_midway f1 s1" "in_frame s s1" "queues_ok s1" "fetched r f s f1 s1" by blast
    have "r \<noteq> None" using r(7) True 1(5) by (cases r) (simp_all add: fetched_def)
    then obtain m1 i where mi: "r = Some (m1, i)" by auto
    with r(7) True 1(5) have g: "i = cur f" "sock_avail s = (sock_avail s1)(i := m1 # sock_avail s1 i)" "f_more f1 = has_more (Msg m1)"
      "has_more (Msg m1) \<longrightarrow> cur f1 = i" by (auto simp: fetched_def)
    have b: "keeps_busy f s f1 s1" using fetched_busy r(7) mi by blast
    have rr: "fq_recv sock_read f s = Inr (Some m1, f1, s1)" using r(1) mi by simp
    note IH = 1(1)[OF _ rr refl refl refl r(2,6,4) g(3)]
    have "\<not> \<not> has_more (Msg m)" using True by simp
    from IH[OF this] obtain rest f' s' where
      ih: "drop_rest m1 f1 s1 = Inr (f', s')" "fq_ok f'" "fq_midway f' s'" "in_frame s1 s'" "queues_ok s'" "\<not> f_more f'"
        "set (items (f_pipes f')) = set (items (f_pipes f1))" "one_message (m1 # rest)" "keeps_busy f1 s1 f' s'"
        "sock_avail s1 = (sock_avail s')(cur f1 := rest @ sock_avail s' (cur f1))" by blast
    have "drop_rest m f s = Inr (f', s')" using True rr ih(1) by (simp add: drop_rest.simps[of m f s])
    moreover have "rest = []" if "\<not> has_more (Msg m1)" using ih(8) that by (cases rest) auto
    then have "sock_avail s = (sock_avail s')(cur f := (m1 # rest) @ sock_avail s' (cur f))"
      using g(1,2,4) ih(10) by (cases "has_more (Msg m1)") (auto simp: fun_eq_iff)
    moreover have "keeps_busy f s f' s'" using b ih(9,10) unfolding keeps_busy_def by (metis append_is_Nil_conv fun_upd_apply)
    ultimately show ?thesis using ih True r(3,5) in_frame_trans
      by (intro exI[of _ "m1 # rest"] exI[of _ f'] exI[of _ s']) auto
  qed
qed

text \<open>Whole messages whose first part does not pass.\<close>

definition rejected :: "(wmsg \<Rightarrow> bool) \<Rightarrow> wmsg list \<Rightarrow> bool" where
  "rejected P ms \<longleftrightarrow> (\<exists>mss. ms = concat mss \<and> (\<forall>q\<in>set mss. one_message q \<and> \<not> P (hd q)))"

lemma rejected_Nil [simp]: "rejected P []" by (auto simp: rejected_def intro!: exI[of _ "[]"])

lemma rejected_append: "one_message q \<Longrightarrow> \<not> P (hd q) \<Longrightarrow> rejected P ms \<Longrightarrow> rejected P (q @ ms)"
  unfolding rejected_def by (metis concat.simps(2) set_ConsD)

lemma next_matching_ok:
  assumes ok: "\<And>m. ok m = Inr (P m)" and "fq_ok f" "queues_ok s" "fq_midway f s" "\<not> f_more f"
  shows "\<exists>r f' s' i. next_matching ok f s = Inr (r, f', s') \<and> fq_ok f' \<and> fq_midway f' s' \<and> in_frame s s' \<and>
    set (items (f_pipes f')) = set (items (f_pipes f)) \<and>
    (\<forall>j. \<exists>pre. rejected P pre \<and> sock_avail s j = pre @ (case r of Some m \<Rightarrow> if j = i then [m] else [] | None \<Rightarrow> []) @ sock_avail s' j) \<and>
    (case r of None \<Rightarrow> \<not> f_more f' \<and> f_active f' = 0 \<and> (\<forall>j\<in>set (active_pipes f). sock_avail s' j = []) | Some m \<Rightarrow> P m \<and> f_more f' = has_more (Msg m))"
  using assms(2-)
proof (induction "backlog f s" arbitrary: f s rule: less_induct)
  case less
  from fq_recv_result[OF less(2-4)] obtain r f1 s1 where r: "fq_recv sock_read f s = Inr (map_option fst r, f1, s1)" "fq_ok f1"
    "set (items (f_pipes f1)) = set (items (f_pipes f))" "fq_midway f1 s1" "in_frame s s1" "queues_ok s1" "fetched r f s f1 s1" by blast
  show ?case
  proof (cases r)
    case None
    with r(1) have "next_matching ok f s = Inr (None, f1, s1)" by (simp add: next_matching.simps[of ok f s])
    moreover have "sock_avail s1 = sock_avail s" "\<not> f_more f1" "\<forall>j\<in>set (active_pipes f). sock_avail s j = []" using r(7) None by (simp_all add: fetched_def)
    moreover have "f_active f1 = 0" using r(2,7) None by (auto simp: fetched_def active_pipes_def fq_ok_def)
    ultimately show ?thesis using r(2-5) by (intro exI[of _ None] exI[of _ f1] exI[of _ s1]) auto
  next
    case (Some mi)
    obtain m i where mi: "mi = (m, i)" by (cases mi)
    with r(7) Some have g: "sock_avail s = (sock_avail s1)(i := m # sock_avail s1 i)" "f_more f1 = has_more (Msg m)" "has_more (Msg m) \<longrightarrow> cur f1 = i"
      by (simp_all add: fetched_def)
    have b: "keeps_busy f s f1 s1" using fetched_busy r(7) Some mi by blast
    have rr: "fq_recv sock_read f s = Inr (Some m, f1, s1)" using r(1) Some mi by simp
    show ?thesis
    proof (cases "P m")
      case True
      then have "next_matching ok f s = Inr (Some m, f1, s1)" using rr ok[of m] by (simp add: next_matching.simps[of ok f s])
      moreover have "\<forall>j. \<exists>pre. rejected P pre \<and> sock_avail s j = pre @ (if j = i then [m] else []) @ sock_avail s1 j"
        by (intro allI exI[of _ "[]"]) (simp add: g(1))
      ultimately show ?thesis using r(2-5) g(2) True by (intro exI[of _ "Some m"] exI[of _ f1] exI[of _ s1] exI[of _ i]) simp
    next
      case False
      from drop_rest_ok[OF r(2,6,4) g(2)] obtain rest f2 s2 where d: "drop_rest m f1 s1 = Inr (f2, s2)" "fq_ok f2" "fq_midway f2 s2" "in_frame s1 s2" "queues_ok s2"
        "\<not> f_more f2" "set (items (f_pipes f2)) = set (items (f_pipes f1))" "one_message (m # rest)" "keeps_busy f1 s1 f2 s2"
        "sock_avail s1 = (sock_avail s2)(cur f1 := rest @ sock_avail s2 (cur f1))" by blast
      have "rest = []" if "\<not> has_more (Msg m)" using d(8) that by (cases rest) auto
      then have av: "sock_avail s = (sock_avail s2)(i := (m # rest) @ sock_avail s2 i)"
        using g(1,3) d(10) by (cases "has_more (Msg m)") (auto simp: fun_eq_iff)
      have "backlog f2 s2 < backlog f s" using fq_recv_backlog[OF rr] drop_rest_backlog[OF d(1)] by simp
      from less(1)[OF this d(2,5,3,6)] obtain q f' s' k where ih: "next_matching ok f2 s2 = Inr (q, f', s')" "fq_ok f'" "fq_midway f' s'" "in_frame s2 s'"
          "set (items (f_pipes f')) = set (items (f_pipes f2))"
        and pre: "\<And>j. \<exists>pre. rejected P pre \<and> sock_avail s2 j = pre @ (case q of Some m \<Rightarrow> if j = k then [m] else [] | None \<Rightarrow> []) @ sock_avail s' j"
        and c: "case q of None \<Rightarrow> \<not> f_more f' \<and> f_active f' = 0 \<and> (\<forall>j\<in>set (active_pipes f2). sock_avail s' j = []) | Some m \<Rightarrow> P m \<and> f_more f' = has_more (Msg m)" by blast
      have e: "next_matching ok f s = Inr (q, f', s')" using rr ok[of m] False d(1) ih(1) by (simp add: next_matching.simps[of ok f s])
      have "\<exists>pre. rejected P pre \<and> sock_avail s j = pre @ (case q of Some m \<Rightarrow> if j = k then [m] else [] | None \<Rightarrow> []) @ sock_avail s' j" for j
      proof -
        from pre[of j] obtain w where w: "rejected P w" "sock_avail s2 j = w @ (case q of Some m \<Rightarrow> if j = k then [m] else [] | None \<Rightarrow> []) @ sock_avail s' j" by blast
        show ?thesis by (rule exI[of _ "if j = i then (m # rest) @ w else w"]) (use w rejected_append[OF d(8), of P w] False av in auto)
      qed
      moreover have "sock_avail s' j = []" if "\<forall>j\<in>set (active_pipes f2). sock_avail s' j = []" "j \<in> set (active_pipes f)" for j
      proof (rule ccontr)
        assume n: "sock_avail s' j \<noteq> []"
        have n2: "sock_avail s2 j \<noteq> []" using pre[of j] n by auto
        then have n1: "sock_avail s1 j \<noteq> []" unfolding d(10) by (cases "j = cur f1") auto
        from b that(2) n1 have "j \<in> set (active_pipes f1)" by (auto simp: keeps_busy_def)
        with d(9) n2 that(1) n show False by (auto simp: keeps_busy_def)
      qed
      ultimately show ?thesis using e ih(2,3,5) c d(7) r(3) in_frame_trans[OF in_frame_trans[OF r(5) d(4)] ih(4)]
        by (intro exI[of _ q] exI[of _ f'] exI[of _ s'] exI[of _ k]) (cases q; auto)
    qed
  qed
qed

section \<open>Invariant\<close>

text \<open>
  A message prepared by polling is the first part of a message, and the fair queue is in the middle of a message exactly when more parts
  of what was returned or prepared are to come.
\<close>

definition xsub_ok :: "xsub \<Rightarrow> sockenv \<Rightarrow> bool" where
  "xsub_ok p s \<longleftrightarrow> fq_ok (s_fq p) \<and> dist_ok (s_dist p) \<and> trie_wf (s_subs p) \<and> queues_ok s \<and> fq_midway (s_fq p) s \<and>
     (if has_message p then \<not> s_more_recv p \<and> f_more (s_fq p) = has_more (Msg (message p))
      else message p = msg_init \<and> f_more (s_fq p) = s_more_recv p) \<and> d_more (s_dist p) = s_more_send p \<and>
     set (items (f_pipes (s_fq p))) = all_set (s_dist p)"

definition passes :: "xsub \<Rightarrow> wmsg \<Rightarrow> bool" where
  "passes p m \<longleftrightarrow> \<not> opt_filter p \<or> (\<exists>i \<le> length (w_data m). tcount (take i (w_data m)) (s_subs p) > 0) \<noteq> s_invert_matching p"

lemma xsub_ok_new: "queues_ok s \<Longrightarrow> xsub_ok (xsub_new b) s"
  using fq_ok_new dist_ok_new by (simp add: xsub_ok_def xsub_new_def trie_wf_new fq_midway_def fq_new_def dist_new_def all_set_def array_new_def)

lemma filter_passes: "trie_wf (s_subs p) \<Longrightarrow> (if \<not> opt_filter p then Inr True else sub_match m p) = Inr (passes p m)"
  by (simp add: sub_match_def trie_check_ok passes_def)

lemma midway_part:
  assumes "fq_ok f" "queues_ok s" "fq_midway f s" "f_more f"
  shows "\<exists>m f' s'. fq_recv sock_read f s = Inr (Some m, f', s') \<and> fq_ok f' \<and> fq_midway f' s' \<and> in_frame s s' \<and> f_more f' = has_more (Msg m) \<and>
    set (items (f_pipes f')) = set (items (f_pipes f)) \<and> sock_avail s = (sock_avail s')(cur f := m # sock_avail s' (cur f))"
proof -
  from fq_recv_result[OF assms(1-3)] obtain r f' s' where r: "fq_recv sock_read f s = Inr (map_option fst r, f', s')" "fq_ok f'"
    "set (items (f_pipes f')) = set (items (f_pipes f))" "fq_midway f' s'" "in_frame s s'" "fetched r f s f' s'" by blast
  then obtain m where "r = Some (m, cur f)" using assms(4) by (cases r) (auto simp: fetched_def)
  with r show ?thesis by (intro exI[of _ m] exI[of _ f'] exI[of _ s']) (simp add: fetched_def)
qed

text \<open>What a call of \<open>xsub_recv\<close> takes from the pipes and returns.\<close>

definition received :: "xsub \<Rightarrow> sockenv \<Rightarrow> wmsg option \<Rightarrow> sockenv \<Rightarrow> bool" where
  "received p s r s' \<longleftrightarrow>
     (if has_message p then r = Some (message p) \<and> s' = s
      else if s_more_recv p then \<exists>m. r = Some m \<and> sock_avail s = (sock_avail s')(cur (s_fq p) := m # sock_avail s' (cur (s_fq p)))
      else (\<exists>i. \<forall>j. \<exists>pre. rejected (passes p) pre \<and>
             sock_avail s j = pre @ (case r of Some m \<Rightarrow> if j = i then [m] else [] | None \<Rightarrow> []) @ sock_avail s' j) \<and>
           (case r of None \<Rightarrow> \<forall>j\<in>set (active_pipes (s_fq p)). sock_avail s' j = [] | Some m \<Rightarrow> passes p m))"

lemma in_frame_queues: "in_frame s s' \<Longrightarrow> queues_ok s'" by (simp add: in_frame_def)

lemma next_first:
  assumes "xsub_ok p s" "\<not> has_message p" "\<not> s_more_recv p"
  obtains r f' s' i where "next_matching (\<lambda>m. if \<not> opt_filter p then Inr True else sub_match m p) (s_fq p) s = Inr (r, f', s')"
    "fq_ok f'" "fq_midway f' s'" "in_frame s s'" "set (items (f_pipes f')) = set (items (f_pipes (s_fq p)))"
    "received p s r s'" "case r of None \<Rightarrow> \<not> f_more f' \<and> f_active f' = 0 | Some m \<Rightarrow> f_more f' = has_more (Msg m)"
proof -
  have o: "fq_ok (s_fq p)" "queues_ok s" "fq_midway (s_fq p) s" "\<not> f_more (s_fq p)" using assms by (simp_all add: xsub_ok_def)
  let ?ok = "\<lambda>m. Inr (passes p m)"
  from next_matching_ok[of ?ok "passes p", OF refl o] obtain r f' s' i where
    n: "next_matching ?ok (s_fq p) s = Inr (r, f', s')" "fq_ok f'" "fq_midway f' s'" "in_frame s s'"
      "set (items (f_pipes f')) = set (items (f_pipes (s_fq p)))"
      "\<forall>j. \<exists>pre. rejected (passes p) pre \<and> sock_avail s j = pre @ (case r of Some m \<Rightarrow> if j = i then [m] else [] | None \<Rightarrow> []) @ sock_avail s' j"
      "case r of None \<Rightarrow> \<not> f_more f' \<and> f_active f' = 0 \<and> (\<forall>j\<in>set (active_pipes (s_fq p)). sock_avail s' j = []) | Some m \<Rightarrow> passes p m \<and> f_more f' = has_more (Msg m)"
    by blast
  show thesis
  proof (rule that[OF _ n(2-5)])
    have "trie_wf (s_subs p)" using assms by (simp add: xsub_ok_def)
    from filter_passes[OF this] show "next_matching (\<lambda>m. if \<not> opt_filter p then Inr True else sub_match m p) (s_fq p) s = Inr (r, f', s')" using n(1) by simp
    show "received p s r s'" using assms(2,3) n(6,7) exI[of _ i] unfolding received_def by (cases r) (simp_all only: option.case if_False, blast+)
    show "case r of None \<Rightarrow> \<not> f_more f' \<and> f_active f' = 0 | Some m \<Rightarrow> f_more f' = has_more (Msg m)" using n(7) by (cases r) auto
  qed
qed

lemma xsub_recv_ok:
  assumes "xsub_ok p s"
  shows "\<exists>r p' s'. xsub_recv p s = Inr (r, p', s') \<and> xsub_ok p' s' \<and> s_subs p' = s_subs p \<and> in_frame s s' \<and> received p s r s' \<and>
    \<not> has_message p' \<and> s_more_recv p' = (case r of None \<Rightarrow> False | Some m \<Rightarrow> has_more (Msg m))"
proof -
  have o: "fq_ok (s_fq p)" "queues_ok s" "fq_midway (s_fq p) s" "trie_wf (s_subs p)" using assms by (simp_all add: xsub_ok_def)
  consider (ready) "has_message p" | (more) "\<not> has_message p" "s_more_recv p" | (first) "\<not> has_message p" "\<not> s_more_recv p" by blast
  then show ?thesis
  proof cases
    case ready
    with assms in_frame_refl[OF o(2)] show ?thesis by (auto simp: xsub_recv_def xsub_ok_def received_def)
  next
    case more
    then have "f_more (s_fq p)" using assms by (simp add: xsub_ok_def)
    from midway_part[OF o(1-3) this] obtain m f' s' where m: "fq_recv sock_read (s_fq p) s = Inr (Some m, f', s')" "fq_ok f'" "fq_midway f' s'" "in_frame s s'"
      "f_more f' = has_more (Msg m)" "sock_avail s = (sock_avail s')(cur (s_fq p) := m # sock_avail s' (cur (s_fq p)))"
      "set (items (f_pipes f')) = set (items (f_pipes (s_fq p)))" by blast
    have "xsub_recv p s = Inr (Some m, p\<lparr>s_fq := f', s_more_recv := has_more (Msg m)\<rparr>, s')"
      using more m(1) by (simp add: xsub_recv_def next_matching.simps[of _ "s_fq p"])
    moreover have "received p s (Some m) s'" unfolding received_def using more m(6) by auto
    moreover have "xsub_ok (p\<lparr>s_fq := f', s_more_recv := has_more (Msg m)\<rparr>) s'"
      using assms more m(2,3,5,7) in_frame_queues[OF m(4)] by (simp add: xsub_ok_def)
    ultimately show ?thesis using more(1) m(4) by (intro exI[of _ "Some m"] exI[of _ "p\<lparr>s_fq := f', s_more_recv := has_more (Msg m)\<rparr>"] exI[of _ s']) simp
  next
    case first
    obtain r f' s' where n: "next_matching (\<lambda>m. if \<not> opt_filter p then Inr True else sub_match m p) (s_fq p) s = Inr (r, f', s')" "fq_ok f'" "fq_midway f' s'" "in_frame s s'"
      "set (items (f_pipes f')) = set (items (f_pipes (s_fq p)))" "received p s r s'" "case r of None \<Rightarrow> \<not> f_more f' \<and> f_active f' = 0 | Some m \<Rightarrow> f_more f' = has_more (Msg m)"
      by (rule next_first[OF assms first]) (rule that)
    let ?p = "p\<lparr>s_fq := f', s_more_recv := (case r of None \<Rightarrow> False | Some m \<Rightarrow> has_more (Msg m))\<rparr>"
    have "p\<lparr>s_fq := f'\<rparr> = p\<lparr>s_fq := f', s_more_recv := False\<rparr>" using first(2) by simp
    then have "xsub_recv p s = Inr (r, ?p, s')"
      using first n(1) by (cases r) (simp_all add: xsub_recv_def)
    moreover have "xsub_ok ?p s'" using assms first n(2,3,5,7) in_frame_queues[OF n(4)] by (cases r) (simp_all add: xsub_ok_def)
    ultimately show ?thesis using first(1) n(4,6) by (intro exI[of _ r] exI[of _ ?p] exI[of _ s']) simp
  qed
qed

text \<open>Receiving with nothing active finds nothing.\<close>

lemma next_none: "f_active f = 0 \<Longrightarrow> next_matching ok f s = Inr (None, f, s)"
  by (simp add: next_matching.simps[of ok f s] fq_recv_def recvpipe.simps[of sock_read f s])

definition poll_then_recv :: "xsub \<Rightarrow> sockenv \<Rightarrow> (wmsg option \<times> xsub \<times> sockenv) result" where
  "poll_then_recv p s = bindE (xsub_has_in p s) (\<lambda>(_, p1, s1). xsub_recv p1 s1)"

lemma poll_transparent:
  assumes "xsub_ok p s"
  shows "poll_then_recv p s = xsub_recv p s \<and>
    (\<exists>b p1 s1 r p2 s2. xsub_has_in p s = Inr (b, p1, s1) \<and> xsub_ok p1 s1 \<and> xsub_recv p s = Inr (r, p2, s2) \<and> (b \<longleftrightarrow> r \<noteq> None))"
proof (cases "s_more_recv p \<or> has_message p")
  case True
  from xsub_recv_ok[OF assms] obtain r p2 s2 where r: "xsub_recv p s = Inr (r, p2, s2)" "received p s r s2" by blast
  have "r \<noteq> None" using r(2) True by (auto simp: received_def split: if_splits)
  with True r(1) assms show ?thesis by (auto simp: poll_then_recv_def xsub_has_in_def)
next
  case False
  then have n: "\<not> has_message p" "\<not> s_more_recv p" by simp_all
  have w: "message p = msg_init" using assms n by (simp add: xsub_ok_def)
  obtain r f' s' where f: "next_matching (\<lambda>m. if \<not> opt_filter p then Inr True else sub_match m p) (s_fq p) s = Inr (r, f', s')" "fq_ok f'" "fq_midway f' s'" "in_frame s s'"
    "set (items (f_pipes f')) = set (items (f_pipes (s_fq p)))" "case r of None \<Rightarrow> \<not> f_more f' \<and> f_active f' = 0 | Some m \<Rightarrow> f_more f' = has_more (Msg m)"
    by (rule next_first[OF assms n]) (rule that)
  note nm = f(1)
  show ?thesis
  proof (cases r)
    case None
    then have e: "xsub_has_in p s = Inr (False, p\<lparr>s_fq := f'\<rparr>, s')" "xsub_recv p s = Inr (None, p\<lparr>s_fq := f'\<rparr>, s')"
      using n nm w by (simp_all add: xsub_has_in_def xsub_recv_def)
    moreover have "xsub_recv (p\<lparr>s_fq := f'\<rparr>) s' = Inr (None, p\<lparr>s_fq := f'\<rparr>, s')" using n next_none[of f'] f(6) None by (simp add: xsub_recv_def)
    moreover have "xsub_ok (p\<lparr>s_fq := f'\<rparr>) s'" using assms n f(2,3,5,6) in_frame_queues[OF f(4)] None by (simp add: xsub_ok_def)
    ultimately show ?thesis by (auto simp: poll_then_recv_def)
  next
    case (Some m)
    then have e: "xsub_has_in p s = Inr (True, p\<lparr>s_fq := f', message := m, has_message := True\<rparr>, s')"
      "xsub_recv p s = Inr (Some m, p\<lparr>s_fq := f', s_more_recv := has_more (Msg m)\<rparr>, s')"
      using n nm by (simp_all add: xsub_has_in_def xsub_recv_def)
    moreover have "xsub_recv (p\<lparr>s_fq := f', message := m, has_message := True\<rparr>) s' = Inr (Some m, p\<lparr>s_fq := f', s_more_recv := has_more (Msg m)\<rparr>, s')"
      using n w by (cases p) (simp add: xsub_recv_def)
    moreover have "xsub_ok (p\<lparr>s_fq := f', message := m, has_message := True\<rparr>) s'"
      using assms n f(2,3,5,6) in_frame_queues[OF f(4)] Some by (simp add: xsub_ok_def)
    ultimately show ?thesis by (auto simp: poll_then_recv_def)
  qed
qed

section \<open>Subscribing\<close>

lemma init_kinds [simp]:
  "is_subscribe (init_subscribe k)" "\<not> is_subscribe (init_cancel k)" "is_cancel (init_cancel k)" "\<not> has_more (Msg (init_subscribe k))" "\<not> has_more (Msg (init_cancel k))"
  "w_data (init_subscribe k) = k" "w_data (init_cancel k) = k"
  by (simp_all add: is_subscribe_def is_cancel_def init_subscribe_def init_cancel_def CMD_TYPE_MASK_def has_more_def msg_more_def)

text \<open>Distribution keeps what writing and flushing keep.\<close>

lemma dist_write_frame:
  assumes "dist_write sock_write sock_flush x m d s = Inr (b, d', s')" "out_frame s0 s"
  shows "out_frame s0 s'"
proof -
  from assms(1) obtain c s1 where w: "sock_write x m s = Inr (c, s1)" "s' = s1 \<or> sock_flush x s1 = Inr s'"
    by (auto simp: dist_write_def bindE_eq_Inr split: if_splits)
  have f: "out_frame s0 s1" using write_frame(1)[OF assms(2) w(1)] by blast
  show ?thesis using w(2) f sock_flush_frame[OF f] by blast
qed

lemma distribute_frame:
  "distribute_loop sock_write sock_flush i m d s = Inr (d', s') \<Longrightarrow> out_frame s0 s \<Longrightarrow> out_frame s0 s'"
proof (induction "d_matching d - i" arbitrary: i d s rule: less_induct)
  case less
  show ?case
  proof (cases "i < d_matching d")
    case True
    with less(2) obtain x b d1 s1 where x: "dist_write sock_write sock_flush x m d s = Inr (b, d1, s1)"
      "distribute_loop sock_write sock_flush (if b then i + 1 else i) m d1 s1 = Inr (d', s')"
      by (auto simp: distribute_loop.simps[of _ _ i m d s] bindE_eq_Inr)
    have "d_matching d1 - (if b then i + 1 else i) < d_matching d - i" using dist_write_matching[OF x(1)] True by auto
    from less(1)[OF this x(2) dist_write_frame[OF x(1) less(3)]] show ?thesis .
  next
    case False
    with less(2,3) show ?thesis by (simp add: distribute_loop.simps[of _ _ i m d s])
  qed
qed

lemma to_all_ok:
  assumes "dist_ok (s_dist p)" "\<not> d_more (s_dist p)" "queues_ok s" "\<not> has_more (Msg m)"
  shows "\<exists>d s'. to_all m p s = Inr (p\<lparr>s_dist := d\<rparr>, s') \<and> dist_ok d \<and> \<not> d_more d \<and> all_set d = all_set (s_dist p) \<and> out_frame s s' \<and>
    sock_sent s' = handed_out (eligible_set (s_dist p)) (sock_room s) (sock_sent s) [Msg m]"
proof -
  let ?d = "(s_dist p)\<lparr>d_matching := d_active (s_dist p)\<rparr>"
  have d: "dist_ok ?d" "matching_set ?d = eligible_set (s_dist p)" "all_set ?d = all_set (s_dist p)" using assms(1,2) by (simp_all add: dist_ok_def dist_sets)
  have g: "sock_good s" using assms(3) by (simp add: queues_ok_def)
  from sk.send_part[OF d(1) g refl, of m] obtain d' s' where r: "send_to_matching sock_write sock_flush m ?d s = Inr (d', s')" "dist_ok d'" "\<not> d_more d'"
    "all_set d' = all_set (s_dist p)" "sock_sent s' = handed_out (eligible_set (s_dist p)) (sock_room s) (sock_sent s) [Msg m]" using d assms(4) by auto
  have "out_frame s s'" using r(1) out_frame_refl[OF assms(3)] distribute_frame[of 0 m ?d s]
    by (auto simp: send_to_matching_def distribute_def bindE_eq_Inr Let_def split: if_splits)
  with r show ?thesis by (auto simp: to_all_def send_to_all_def)
qed

text \<open>What the peers are told of an option, given the number of subscriptions to the topic.\<close>

definition announced :: "int \<Rightarrow> byte list \<Rightarrow> xsub \<Rightarrow> wmsg list" where
  "announced opt k p = (if opt = ZMQ_SUBSCRIBE then [init_subscribe k]
     else if tcount k (s_subs p) = 1 \<or> s_verbose_unsubs p then [init_cancel k] else [])"

definition recount :: "int \<Rightarrow> byte list \<Rightarrow> xsub \<Rightarrow> byte list \<Rightarrow> nat" where
  "recount opt k p = (\<lambda>k'. tcount k' (s_subs p))(k := (if opt = ZMQ_SUBSCRIBE then Suc (tcount k (s_subs p)) else tcount k (s_subs p) - 1))"

lemma xsub_ok_after:
  assumes "xsub_ok p s" "\<not> s_more_send p" "trie_wf t" "dist_ok d" "\<not> d_more d" "all_set d = all_set (s_dist p)" "out_frame s s'"
  shows "xsub_ok (p\<lparr>s_more_send := False, s_subs := t, s_process_subscribe := b, s_dist := d\<rparr>) s'"
  using assms(1-6) out_frame_in(2,3)[OF assms(7)] by (simp add: xsub_ok_def)

lemma sub_option:
  assumes "xsub_ok p s" "\<not> s_more_send p" "opt = ZMQ_SUBSCRIBE \<or> opt = ZMQ_UNSUBSCRIBE \<and> (k = [] \<or> hd k \<noteq> 1)" "tcount k (s_subs p) < 2 ^ 32 - 1"
  shows "\<exists>p' s'. sub_setsockopt opt k p s = Inr (True, p', s') \<and> xsub_ok p' s' \<and> \<not> s_more_send p' \<and> (\<lambda>k'. tcount k' (s_subs p')) = recount opt k p \<and>
    sock_avail s' = sock_avail s \<and>
    (\<forall>x. sock_sent s' x = (if x \<in> eligible_set (s_dist p) \<and> sock_room s x then sock_sent s x @ map Msg (announced opt k p) else sock_sent s x))"
proof -
  have o: "trie_wf (s_subs p)" "dist_ok (s_dist p)" "queues_ok s" "\<not> d_more (s_dist p)" using assms(1,2) by (simp_all add: xsub_ok_def)
  have av: "sock_avail s' = sock_avail s" if "out_frame s s'" for s'
    using that by (auto simp: out_frame_def sock_avail_def keeps_in_avail)
  let ?q = "\<lambda>t. p\<lparr>s_more_send := False, s_subs := t, s_process_subscribe := True\<rparr>"
  note all = to_all_ok[where p = "?q _", simplified, OF o(2,4,3)]
  note ok = xsub_ok_after[OF assms(1,2), where b = True]
  show ?thesis
  proof (cases "opt = ZMQ_SUBSCRIBE")
    case True
    from trie_add_ok[OF o(1) assms(4)] obtain t where t: "trie_add k (s_subs p) = Inr (tcount k (s_subs p) = 0, t)" "trie_wf t"
      "\<And>k'. tcount k' t = (if k' = k then Suc (tcount k (s_subs p)) else tcount k' (s_subs p))" by blast
    from all[of "init_subscribe k" t] obtain d s' where d: "to_all (init_subscribe k) (?q t) s = Inr ((?q t)\<lparr>s_dist := d\<rparr>, s')" "dist_ok d" "\<not> d_more d"
      "all_set d = all_set (s_dist p)" "out_frame s s'" "sock_sent s' = handed_out (eligible_set (s_dist p)) (sock_room s) (sock_sent s) [Msg (init_subscribe k)]" by auto
    have "sub_setsockopt opt k p s = Inr (True, (?q t)\<lparr>s_dist := d\<rparr>, s')" using True assms(2) t(1) d(1) by (simp add: sub_setsockopt_def xsub_send_def Let_def)
    with ok[OF t(2) d(2-5)] t(3) d(6) True av[OF d(5)] show ?thesis
      by (auto simp: handed_out_def announced_def recount_def fun_eq_iff)
  next
    case False
    from trie_rm_ok[OF o(1)] obtain t where t: "trie_rm k (s_subs p) = Inr (tcount k (s_subs p) = 1, t)" "trie_wf t"
      "\<And>k'. tcount k' t = (if k' = k then tcount k (s_subs p) - 1 else tcount k' (s_subs p))" by blast
    show ?thesis
    proof (cases "tcount k (s_subs p) = 1 \<or> s_verbose_unsubs p")
      case c: True
      from all[of "init_cancel k" t] obtain d s' where d: "to_all (init_cancel k) (?q t) s = Inr ((?q t)\<lparr>s_dist := d\<rparr>, s')" "dist_ok d" "\<not> d_more d"
        "all_set d = all_set (s_dist p)" "out_frame s s'" "sock_sent s' = handed_out (eligible_set (s_dist p)) (sock_room s) (sock_sent s) [Msg (init_cancel k)]" by auto
      have "sub_setsockopt opt k p s = Inr (True, (?q t)\<lparr>s_dist := d\<rparr>, s')" using False c assms(2,3) t(1) d(1) by (auto simp: sub_setsockopt_def xsub_send_def Let_def)
      with ok[OF t(2) d(2-5)] t(3) d(6) False c av[OF d(5)] show ?thesis
        by (auto simp: handed_out_def announced_def recount_def fun_eq_iff)
    next
      case c: False
      have "sub_setsockopt opt k p s = Inr (True, ?q t, s)" using False c assms(2,3) t(1) by (auto simp: sub_setsockopt_def xsub_send_def Let_def)
      with ok[OF t(2) o(2,4) refl out_frame_refl[OF o(3)]] t(3) False c show ?thesis
        by (auto simp: announced_def recount_def fun_eq_iff)
    qed
  qed
qed

text \<open>
  A cancellation whose topic begins with the byte 1 passes the test for subscriptions that old peers send as data.
\<close>

lemma sub_option_reversed:
  assumes "xsub_ok p s" "\<not> s_more_send p" "tcount k (s_subs p) < 2 ^ 32 - 1"
  shows "\<exists>p' s'. sub_setsockopt ZMQ_UNSUBSCRIBE (1 # k) p s = Inr (True, p', s') \<and> xsub_ok p' s' \<and>
    (\<lambda>k'. tcount k' (s_subs p')) = recount ZMQ_SUBSCRIBE k p \<and>
    (\<forall>x. sock_sent s' x = (if x \<in> eligible_set (s_dist p) \<and> sock_room s x then sock_sent s x @ [Msg (init_cancel (1 # k))] else sock_sent s x))"
proof -
  have o: "trie_wf (s_subs p)" "dist_ok (s_dist p)" "queues_ok s" "\<not> d_more (s_dist p)" using assms(1,2) by (simp_all add: xsub_ok_def)
  let ?q = "\<lambda>t. p\<lparr>s_more_send := False, s_subs := t, s_process_subscribe := True\<rparr>" and ?m = "init_cancel (1 # k)"
  from trie_add_ok[OF o(1) assms(3)] obtain t where t: "trie_add k (s_subs p) = Inr (tcount k (s_subs p) = 0, t)" "trie_wf t"
    "\<And>k'. tcount k' t = (if k' = k then Suc (tcount k (s_subs p)) else tcount k' (s_subs p))" by blast
  from to_all_ok[of "?q t" s ?m] o obtain d s' where d: "to_all ?m (?q t) s = Inr ((?q t)\<lparr>s_dist := d\<rparr>, s')" "dist_ok d" "\<not> d_more d"
    "all_set d = all_set (s_dist p)" "out_frame s s'" "sock_sent s' = handed_out (eligible_set (s_dist p)) (sock_room s) (sock_sent s) [Msg ?m]" by auto
  have "ZMQ_UNSUBSCRIBE \<noteq> ZMQ_SUBSCRIBE" by (simp add: ZMQ_UNSUBSCRIBE_def ZMQ_SUBSCRIBE_def)
  then have "sub_setsockopt ZMQ_UNSUBSCRIBE (1 # k) p s = Inr (True, (?q t)\<lparr>s_dist := d\<rparr>, s')" using assms(2) t(1) d(1)
    by (simp add: sub_setsockopt_def xsub_send_def Let_def)
  with xsub_ok_after[OF assms(1,2) t(2) d(2-5), where b = True] t(3) d(6) show ?thesis by (auto simp: handed_out_def recount_def fun_eq_iff)
qed

section \<open>New pipes\<close>

lemma send_subscriptions_ok:
  assumes "out_frame s0 s"
  shows "\<exists>s' n. send_subscriptions x ks s = Inr s' \<and> out_frame s0 s' \<and> n \<le> length ks \<and>
    sock_sent s' = (sock_sent s)(x := sock_sent s x @ map Msg (map init_subscribe (take n ks))) \<and>
    (n < length ks \<longrightarrow> \<not> sock_room s' x) \<and> (\<not> sock_room s x \<longrightarrow> n = 0)"
  using assms
proof (induction ks arbitrary: s)
  case (Cons k ks)
  have g: "sock_good s" using Cons(2) by (simp add: out_frame_def)
  show ?case
  proof (cases "sock_room s x")
    case True
    from sk.wr_room[OF g True, of "init_subscribe k"] obtain s1 where s1: "sock_write x (init_subscribe k) s = Inr (True, s1)"
      "sock_sent s1 = (sock_sent s)(x := sock_sent s x @ [Msg (init_subscribe k)])" by blast
    from Cons(1)[OF write_frame(1)[OF Cons(2) s1(1), THEN conjunct1]] obtain s' n where ih: "send_subscriptions x ks s1 = Inr s'" "out_frame s0 s'" "n \<le> length ks"
      "sock_sent s' = (sock_sent s1)(x := sock_sent s1 x @ map Msg (map init_subscribe (take n ks)))" "n < length ks \<longrightarrow> \<not> sock_room s' x" by blast
    then show ?thesis using True s1 by (intro exI[of _ s'] exI[of _ "Suc n"]) (simp add: send_subscription_def)
  next
    case False
    from sk.wr_full[OF g False, of "init_subscribe k"] obtain s1 where s1: "sock_write x (init_subscribe k) s = Inr (False, s1)"
      "sock_sent s1 = sock_sent s" "sock_room s1 = sock_room s" by blast
    from Cons(1)[OF write_frame(1)[OF Cons(2) s1(1), THEN conjunct1]] False s1(3) obtain s' where ih: "send_subscriptions x ks s1 = Inr s'" "out_frame s0 s'"
      "sock_sent s' = sock_sent s1" "ks \<noteq> [] \<longrightarrow> \<not> sock_room s' x" by fastforce
    have "\<not> sock_room s' x" using ih(1,4) False s1(3) by (cases ks) auto
    then show ?thesis using False s1 ih by (intro exI[of _ s'] exI[of _ 0]) (simp add: send_subscription_def)
  qed
qed (auto simp: fun_upd_idem)

lemma dist_attach_more: "dist_attach x d = Inr d' \<Longrightarrow> d_more d' = d_more d"
  by (auto simp: dist_attach_def bindE_eq_Inr Let_def split: if_splits)

lemma xsub_attach_ok:
  assumes "xsub_ok p s" "x \<notin> all_set (s_dist p)"
  shows "\<exists>p' s' n. xsub_attach_pipe x p s = Inr (p', s') \<and> xsub_ok p' s' \<and> s_subs p' = s_subs p \<and> all_set (s_dist p') = insert x (all_set (s_dist p)) \<and>
    sock_avail s' = sock_avail s \<and> n \<le> length (trie_apply (s_subs p)) \<and>
    sock_sent s' = (sock_sent s)(x := sock_sent s x @ map Msg (map init_subscribe (take n (trie_apply (s_subs p))))) \<and>
    (n < length (trie_apply (s_subs p)) \<longrightarrow> \<not> sock_room s' x)"
proof -
  have o: "fq_ok (s_fq p)" "dist_ok (s_dist p)" "queues_ok s" "fq_midway (s_fq p) s" "x \<notin> set (items (f_pipes (s_fq p)))"
    using assms by (simp_all add: xsub_ok_def)
  from fq_attach_ok[OF o(1,5)] obtain f where f: "fq_attach x (s_fq p) = Inr f" "fq_ok f" "set (items (f_pipes f)) = insert x (set (items (f_pipes (s_fq p))))" by blast
  from dist_attach_ok[OF o(2) assms(2)] obtain d where d: "dist_attach x (s_dist p) = Inr d" "dist_ok d" "all_set d = insert x (all_set (s_dist p))" by blast
  from send_subscriptions_ok[OF out_frame_refl[OF o(3)], of x "trie_apply (s_subs p)"] obtain s1 n where
    s1: "send_subscriptions x (trie_apply (s_subs p)) s = Inr s1" "out_frame s s1" "n \<le> length (trie_apply (s_subs p))"
      "sock_sent s1 = (sock_sent s)(x := sock_sent s x @ map Msg (map init_subscribe (take n (trie_apply (s_subs p)))))"
      "n < length (trie_apply (s_subs p)) \<longrightarrow> \<not> sock_room s1 x" by blast
  have "sock_good s1" using s1(2) by (simp add: out_frame_def)
  from sk.fl[OF this, of x] obtain s' where s': "sock_flush x s1 = Inr s'" "sock_sent s' = sock_sent s1" "sock_room s' = sock_room s1" by blast
  have fr: "out_frame s s'" using sock_flush_frame[OF s1(2) s'(1)] by simp
  let ?p = "p\<lparr>s_fq := f, s_dist := d\<rparr>"
  have "xsub_attach_pipe x p s = Inr (?p, s')" using f(1) d(1) s1(1) s'(1) by (simp add: xsub_attach_pipe_def xsub_hiccuped_def)
  moreover have "fq_midway f s" using o(4) fq_attach_cur[OF o(1,5) f(1)] by (auto simp: fq_midway_def)
  then have "xsub_ok ?p s'" using assms(1) f(2,3) d(2,3) dist_attach_more[OF d(1)] out_frame_in(2,3)[OF fr] fq_attach_cur(1)[OF o(1,5) f(1)] o(3)
    by (simp add: xsub_ok_def)
  moreover have "sock_avail s' = sock_avail s" using fr by (auto simp: out_frame_def sock_avail_def keeps_in_avail)
  ultimately show ?thesis using s1(3-5) s'(2,3) d(3) by (intro exI[of _ ?p] exI[of _ s'] exI[of _ n]) simp
qed

section \<open>Properties\<close>

text \<open>
  C24. A subscriber receives exactly what it subscribed to. A receive call returns the part prepared by polling, or the next part of the message being
  received, or else the first part of the next message that passes the filter (a prefix of it is subscribed, or none with inverted matching);
  on the way only whole messages that do not pass are dropped, each in all its parts, and when nothing is
  returned all active pipes are empty. No assertion fails, the loops end, and the socket stays well-formed.
\<close>
theorem xsub_filters_exactly:
  assumes "xsub_ok p s"
  shows "\<exists>r p' s'. xsub_recv p s = Inr (r, p', s') \<and> xsub_ok p' s' \<and> s_subs p' = s_subs p \<and> received p s r s' \<and>
    s_more_recv p' = (case r of None \<Rightarrow> False | Some m \<Rightarrow> has_more (Msg m))"
  using xsub_recv_ok[OF assms] by blast

text \<open>
  C32. Polling is transparent: asking whether there is a message before receiving leaves the same result, socket and pipes as receiving at
  once, and the answer is yes exactly when the receive call returns a message.
\<close>
theorem xsub_poll_transparent:
  assumes "xsub_ok p s"
  shows "poll_then_recv p s = xsub_recv p s \<and>
    (\<exists>b p1 s1 r p2 s2. xsub_has_in p s = Inr (b, p1, s1) \<and> xsub_ok p1 s1 \<and> xsub_recv p s = Inr (r, p2, s2) \<and> (b \<longleftrightarrow> r \<noteq> None))"
  by (rule poll_transparent[OF assms])

text \<open>
  The options of a SUB socket count subscriptions: subscribing adds one to the count of the topic and tells every peer that takes messages;
  unsubscribing from a topic that does not begin with the byte 1 takes one off, and tells the peers only when it was the last
  one (or in verbose mode). Inbound messages are not touched.
\<close>
theorem sub_options_exact:
  assumes "xsub_ok p s" "\<not> s_more_send p" "opt = ZMQ_SUBSCRIBE \<or> opt = ZMQ_UNSUBSCRIBE \<and> (k = [] \<or> hd k \<noteq> 1)" "tcount k (s_subs p) < 2 ^ 32 - 1"
  shows "\<exists>p' s'. sub_setsockopt opt k p s = Inr (True, p', s') \<and> xsub_ok p' s' \<and> (\<lambda>k'. tcount k' (s_subs p')) = recount opt k p \<and>
    sock_avail s' = sock_avail s \<and>
    (\<forall>x. sock_sent s' x = (if x \<in> eligible_set (s_dist p) \<and> sock_room s x then sock_sent s x @ map Msg (announced opt k p) else sock_sent s x))"
  using sub_option[OF assms] by blast

text \<open>
  C33. Unsubscribing from a topic that begins with the byte 1 subscribes: the count of the topic stays, the topic without its first byte gets one more
  subscription, and the peers are told to cancel the topic that the socket still counts.
\<close>
theorem sub_unsubscribe_subscribes:
  assumes "xsub_ok p s" "\<not> s_more_send p" "tcount k (s_subs p) < 2 ^ 32 - 1"
  shows "\<exists>p' s'. sub_setsockopt ZMQ_UNSUBSCRIBE (1 # k) p s = Inr (True, p', s') \<and>
    tcount k (s_subs p') = Suc (tcount k (s_subs p)) \<and> tcount (1 # k) (s_subs p') = tcount (1 # k) (s_subs p) \<and>
    (\<forall>x. sock_sent s' x = (if x \<in> eligible_set (s_dist p) \<and> sock_room s x then sock_sent s x @ [Msg (init_cancel (1 # k))] else sock_sent s x))"
proof -
  from sub_option_reversed[OF assms] obtain p' s' where r: "sub_setsockopt ZMQ_UNSUBSCRIBE (1 # k) p s = Inr (True, p', s')"
    "(\<lambda>k'. tcount k' (s_subs p')) = recount ZMQ_SUBSCRIBE k p"
    "\<forall>x. sock_sent s' x = (if x \<in> eligible_set (s_dist p) \<and> sock_room s x then sock_sent s x @ [Msg (init_cancel (1 # k))] else sock_sent s x)" by blast
  have "tcount k (s_subs p') = Suc (tcount k (s_subs p))" "tcount (1 # k) (s_subs p') = tcount (1 # k) (s_subs p)"
    using fun_cong[OF r(2), of k] fun_cong[OF r(2), of "1 # k"] by (simp_all only: recount_def fun_upd_apply if_True) auto
  with r(1,3) show ?thesis by blast
qed

section \<open>Witnesses\<close>

definition sample_xsub :: xsub where
  "sample_xsub = (xsub_new True)\<lparr>s_fq := sample_fq,
     s_dist := \<lparr>d_pipes = \<lparr>items = [7, 8], pos = (\<lambda>i. int i - 7)\<rparr>, d_matching = 0, d_active = 2, d_eligible = 2, d_more = False\<rparr>,
     s_subs := (case trie_add [2] trie_new of Inl e \<Rightarrow> trie_new | Inr (_, t) \<Rightarrow> t)\<rparr>"

lemma sample_xsub_ok: "xsub_ok sample_xsub sample_env" "\<not> s_more_send sample_xsub" "tcount k (s_subs sample_xsub) = (if k = [2] then 1 else 0)"
proof -
  from trie_add_ok[OF trie_wf_new(1), of "[2]"] obtain t where t: "trie_add [2] trie_new = Inr (True, t)" "trie_wf t"
    "\<And>k'. tcount k' t = (if k' = [2] then 1 else 0)" using trie_wf_new(2) by auto
  have "\<not> f_more sample_fq" by (simp add: sample_fq_def)
  then show "xsub_ok sample_xsub sample_env" using t sample_fq_ok(1) sample_queues
    by (auto simp: xsub_ok_def sample_xsub_def xsub_new_def fq_midway_def dist_ok_def arr_ok_def less_Suc_eq all_set_def) (auto simp: sample_fq_def)
  show "\<not> s_more_send sample_xsub" by (simp add: sample_xsub_def xsub_new_def)
  show "tcount k (s_subs sample_xsub) = (if k = [2] then 1 else 0)" using t by (simp add: sample_xsub_def xsub_new_def)
qed

theorem xsub_filters_exactly_witness:
  "\<exists>r p' s'. xsub_recv sample_xsub sample_env = Inr (r, p', s') \<and> xsub_ok p' s' \<and> received sample_xsub sample_env r s'"
  using xsub_filters_exactly[OF sample_xsub_ok(1)] by blast

theorem xsub_poll_transparent_witness: "poll_then_recv sample_xsub sample_env = xsub_recv sample_xsub sample_env"
  using xsub_poll_transparent[OF sample_xsub_ok(1)] by blast

theorem sub_options_exact_witness:
  "\<exists>p' s'. sub_setsockopt ZMQ_SUBSCRIBE [2] sample_xsub sample_env = Inr (True, p', s') \<and> tcount [2] (s_subs p') = 2 \<and>
    sock_sent s' 7 = sock_sent sample_env 7 @ [Msg (init_subscribe [2])]"
proof -
  have "tcount [2] (s_subs sample_xsub) < 2 ^ 32 - 1" unfolding sample_xsub_ok(3) by simp
  from sub_options_exact[OF sample_xsub_ok(1,2) _ this, of ZMQ_SUBSCRIBE] obtain p' s' where r: "sub_setsockopt ZMQ_SUBSCRIBE [2] sample_xsub sample_env = Inr (True, p', s')"
    "(\<lambda>k'. tcount k' (s_subs p')) = recount ZMQ_SUBSCRIBE [2] sample_xsub"
    "\<forall>x. sock_sent s' x = (if x \<in> eligible_set (s_dist sample_xsub) \<and> sock_room sample_env x
      then sock_sent sample_env x @ map Msg (announced ZMQ_SUBSCRIBE [2] sample_xsub) else sock_sent sample_env x)" by blast
  have "tcount [2] (s_subs p') = 2" using fun_cong[OF r(2), of "[2]"] sample_xsub_ok(3)[of "[2]"] by (simp only: recount_def fun_upd_apply) simp
  moreover have "7 \<in> eligible_set (s_dist sample_xsub)" by (simp add: sample_xsub_def eligible_set_def)
  ultimately show ?thesis using r(1,3) sample_lb_ok(3) by (auto simp: announced_def)
qed

theorem sub_unsubscribe_subscribes_witness:
  "\<exists>p' s'. sub_setsockopt ZMQ_UNSUBSCRIBE [1, 2] sample_xsub sample_env = Inr (True, p', s') \<and> tcount [2] (s_subs p') = 2"
proof -
  have c: "tcount [2] (s_subs sample_xsub) = 1" unfolding sample_xsub_ok(3) by simp
  then have "tcount [2] (s_subs sample_xsub) < 2 ^ 32 - 1" by simp
  from sub_unsubscribe_subscribes[OF sample_xsub_ok(1,2) this] c show ?thesis by auto
qed

end
