(* ===== verification/Pub_Sub.thy ===== *)
theory Pub_Sub
  imports Xpub Xsub
begin

text \<open>
  A SUB socket and an XPUB or PUB socket together: the filter of the subscriber and the subscriptions that the publisher keeps for its pipe
  are the same topics, from the moment they are connected and after each option of the subscriber.
\<close>

definition agree :: "xsub \<Rightarrow> pid \<Rightarrow> xpub \<Rightarrow> bool" where
  "agree p x q \<longleftrightarrow> (\<forall>k. x \<in> subs (x_subs q) k \<longleftrightarrow> tcount k (s_subs p) > 0)"

lemma sub_request_init:
  "sub_request (init_subscribe k) = Inr (Some (True, k))" "sub_request (init_cancel k) = Inr (Some (False, k))"
  by (simp_all add: sub_request_def command_body_def init_subscribe_def init_cancel_def is_subscribe_def is_cancel_def CMD_TYPE_MASK_def msg_command_def)

lemma requests_wf [simp]: "well_formed (init_subscribe k)" "well_formed (init_cancel k)"
  by (simp_all add: well_formed_def sub_request_init)

lemma announced_wf: "list_all well_formed (announced opt k p)"
  by (simp add: announced_def)

lemma topics_requested: "x \<in> fold (request_of x) (map init_subscribe ks) f k \<longleftrightarrow> x \<in> f k \<or> k \<in> set ks"
  by (induction ks arbitrary: f) (auto simp: request_of_def sub_request_init requested_def)

lemma announced_requested:
  assumes "\<forall>k'. x \<in> f k' \<longleftrightarrow> tcount k' (s_subs p) > 0"
  shows "x \<in> fold (request_of x) (announced opt k p) f k' \<longleftrightarrow>
    (if opt = ZMQ_SUBSCRIBE \<or> \<not> s_verbose_unsubs p \<or> tcount k (s_subs p) \<le> 1 then recount opt k p k' > 0 else (if k' = k then False else recount opt k p k' > 0))"
  using assms by (auto simp: announced_def request_of_def sub_request_init requested_def recount_def simp del: tcount.simps)

text \<open>Topics in common mean the same messages.\<close>

lemma agree_passes:
  assumes "agree p x q" "xsub_ok p s"
  shows "trie_check b (s_subs p) = Inr (subscribed q b x)"
  using assms trie_check_ok[of "s_subs p" b] by (simp add: agree_def subscribed_def xsub_ok_def)

section \<open>Properties\<close>

text \<open>
  C25. Publisher and subscriber stay in agreement: when a SUB socket subscribes or unsubscribes (a topic that does not begin with the byte 1), its pipe has
  room and the publisher reads what was written to that pipe, the topics that the publisher keeps for the pipe are again those the
  subscriber counts, so a message is subscribed for the publisher exactly when it is for the subscriber.
\<close>
theorem pub_sub_agree:
  assumes "xsub_ok p s" "\<not> s_more_send p" "opt = ZMQ_SUBSCRIBE \<or> opt = ZMQ_UNSUBSCRIBE \<and> (k = [] \<or> hd k \<noteq> 1)" "tcount k (s_subs p) < 2 ^ 32 - 1"
    "\<not> s_verbose_unsubs p" "y \<in> eligible_set (s_dist p)" "sock_room s y"
    and "xpub_ok q" "x \<in> all_set (x_dist q)" "reads_all q" "sock_good t" "agree p x q" "sock_avail t x = announced opt k p"
  shows "\<exists>p' s' q' t'. sub_setsockopt opt k p s = Inr (True, p', s') \<and> sock_sent s' y = sock_sent s y @ map Msg (sock_avail t x) \<and>
    xpub_read_activated x q t = Inr (q', t') \<and> xsub_ok p' s' \<and> xpub_ok q' \<and> agree p' x q' \<and>
    (\<forall>b. trie_check b (s_subs p') = Inr (subscribed q' b x))"
proof -
  from sub_option[OF assms(1-4)] obtain p' s' where p': "sub_setsockopt opt k p s = Inr (True, p', s')" "xsub_ok p' s'"
    "(\<lambda>k'. tcount k' (s_subs p')) = recount opt k p" "sock_sent s' y = sock_sent s y @ map Msg (announced opt k p)" using assms(6,7) by auto
  have "list_all well_formed (sock_avail t x)" using announced_wf assms(13) by simp
  from xpub_reads[OF assms(8-11) this] obtain q' t' where q': "xpub_read_activated x q t = Inr (q', t')" "xpub_ok q'"
    "subs (x_subs q') = fold (request_of x) (announced opt k p) (subs (x_subs q))" using assms(13) by auto
  have "x \<in> subs (x_subs q') k' \<longleftrightarrow> tcount k' (s_subs p') > 0" for k'
    using announced_requested[of x "subs (x_subs q)" p opt k k'] assms(5,12) fun_cong[OF p'(3), of k'] by (simp add: q'(3) agree_def del: tcount.simps subs.simps)
  then have "agree p' x q'" by (simp add: agree_def)
  with p' q'(1,2) assms(13) agree_passes[OF this p'(2)] show ?thesis by auto
qed

text \<open>
  C26. Connecting brings agreement: a SUB or XSUB socket that gets a new pipe writes the topics it counts to it, each once, or as many as the pipe takes; when
  all were taken, a publisher without subscriptions for that pipe that reads them keeps exactly the topics of the subscriber and finds the same messages subscribed.
\<close>
theorem pub_sub_connect:
  assumes "xsub_ok p s" "y \<notin> all_set (s_dist p)"
    and "xpub_ok q" "x \<in> all_set (x_dist q)" "reads_all q" "sock_good t" "\<forall>k. x \<notin> subs (x_subs q) k"
    "sock_avail t x = map init_subscribe (trie_apply (s_subs p))"
  shows "\<exists>p' s' ms q' t'. xsub_attach_pipe y p s = Inr (p', s') \<and> xsub_ok p' s' \<and> sock_sent s' = (sock_sent s)(y := sock_sent s y @ map Msg ms) \<and>
    (ms = sock_avail t x \<or> \<not> sock_room s' y) \<and> xpub_read_activated x q t = Inr (q', t') \<and> xpub_ok q' \<and> agree p' x q' \<and>
    (\<forall>b. trie_check b (s_subs p') = Inr (subscribed q' b x))"
proof -
  let ?ks = "trie_apply (s_subs p)"
  from xsub_attach_ok[OF assms(1,2)] obtain p' s' n where p': "xsub_attach_pipe y p s = Inr (p', s')" "xsub_ok p' s'" "s_subs p' = s_subs p" "n \<le> length ?ks"
    "sock_sent s' = (sock_sent s)(y := sock_sent s y @ map Msg (map init_subscribe (take n ?ks)))" "n < length ?ks \<longrightarrow> \<not> sock_room s' y" by blast
  have "list_all well_formed (sock_avail t x)" unfolding assms(8) by (simp add: list_all_iff)
  from xpub_reads[OF assms(3-6) this] obtain q' t' where q': "xpub_read_activated x q t = Inr (q', t')" "xpub_ok q'"
    "subs (x_subs q') = fold (request_of x) (map init_subscribe ?ks) (subs (x_subs q))" unfolding assms(8) by auto
  have "trie_wf (s_subs p)" using assms(1) by (simp add: xsub_ok_def)
  from apply_helper_ok[OF this, of "[]"] have ks: "set ?ks = {k. tcount k (s_subs p) > 0}" by (auto simp: trie_apply_def)
  have a: "agree p' x q'" unfolding agree_def q'(3) topics_requested using assms(7) ks p'(3) by (simp del: tcount.simps subs.simps)
  moreover have "map init_subscribe (take n ?ks) = sock_avail t x \<or> \<not> sock_room s' y" using p'(4,6) assms(8) by (cases "n < length ?ks") auto
  ultimately show ?thesis using p'(1,2,5) q'(1,2) a agree_passes[OF a p'(2)] by blast
qed

section \<open>Witnesses\<close>

definition pending_end :: "wmsg list \<Rightarrow> endp" where
  "pending_end ms = (sample_end [])\<lparr>inq := upipe_new\<lparr>ready := map Msg ms\<rparr>\<rparr>"

definition pending_env :: "wmsg list \<Rightarrow> sockenv" where
  "pending_env ms = \<lparr>ends = (\<lambda>i. if i = 7 then pending_end ms else sample_end []), outbox = []\<rparr>"

lemma pending_env_ok:
  "sock_good (pending_env [init_subscribe [2]])" "sock_avail (pending_env [init_subscribe [2]]) 7 = [init_subscribe [2]]"
  by (auto simp: sock_good_def pending_env_def pending_end_def sample_end_def plain_def end_wf_def pipe_new_def upipe_new_def acked_def uq_def
    is_credential_def init_subscribe_def sock_avail_def avail_of_def may_read_def)

lemma no_topics: "subs (x_subs sample_xpub) k = {}"
  by (simp add: sample_xpub_def xpub_new_def mtrie_wf_new)

theorem pub_sub_agree_witness:
  "\<exists>p' s' q' t'. sub_setsockopt ZMQ_SUBSCRIBE [2] (sample_xsub\<lparr>s_subs := trie_new\<rparr>) sample_env = Inr (True, p', s') \<and>
    xpub_read_activated 7 sample_xpub (pending_env [init_subscribe [2]]) = Inr (q', t') \<and> agree p' 7 q'"
proof -
  let ?p = "sample_xsub\<lparr>s_subs := trie_new\<rparr>"
  have p: "xsub_ok ?p sample_env" "\<not> s_more_send ?p" "tcount [2] (s_subs ?p) < 2 ^ 32 - 1" "\<not> s_verbose_unsubs ?p" "7 \<in> eligible_set (s_dist ?p)"
    using sample_xsub_ok(1,2) trie_wf_new by (simp_all add: xsub_ok_def) (simp_all add: sample_xsub_def xsub_new_def eligible_set_def)
  have a: "agree ?p 7 sample_xpub" "sock_avail (pending_env [init_subscribe [2]]) 7 = announced ZMQ_SUBSCRIBE [2] ?p"
    using no_topics trie_wf_new(2) pending_env_ok(2) by (simp_all add: agree_def announced_def)
  from pub_sub_agree[OF p(1,2) disjI1[OF refl] p(3-5) sample_lb_ok(3) sample_xpub_ok(1-3) pending_env_ok(1) a] show ?thesis by blast
qed

theorem pub_sub_connect_witness:
  "\<exists>p' s' q' t'. xsub_attach_pipe 9 sample_xsub sample_env = Inr (p', s') \<and>
    xpub_read_activated 7 sample_xpub (pending_env [init_subscribe [2]]) = Inr (q', t') \<and> agree p' 7 q'"
proof -
  have "9 \<notin> all_set (s_dist sample_xsub)" by (simp add: sample_xsub_def all_set_def)
  moreover have "trie_apply (s_subs sample_xsub) = [[2]]" by code_simp
  ultimately show ?thesis
    using pub_sub_connect[OF sample_xsub_ok(1) _ sample_xpub_ok(1-3) pending_env_ok(1), of 9] no_topics pending_env_ok(2) by auto
qed

end
