(* ===== verification/Spec2Isabelle.thy ===== *)
theory Spec2Isabelle
  imports Data_Node System Codec Message Pair Dealer Router Pub_Sub
begin

text \<open>
  \<^bold>\<open>The program.\<close>  ComuFrame (\<^verbatim>\<open>src/ComuFrame\<close>) starts a distributed system of a central node and a number of other
  nodes.  Every node registers with the central node (phase registration), asks for data by name and is told which
  packets carry them (phase configuration), subscribes to these packets and reports that it has done so; when all
  nodes have reported, the central node broadcasts \<^verbatim>\<open>AllSubscribed\<close>.  The nodes talk over ZeroMQ: the
  multipart messages of the C++ binding (\<^verbatim>\<open>src/ExternalLib/cppzmq\<close>) over the library libzmq
  (\<^verbatim>\<open>src/ExternalLib/libzmq/src\<close>), both of which are part of the repository.  The development follows these
  three layers; the statements of one layer are about the code of that layer, and what a layer takes from the one below
  is said here.

  \<^bold>\<open>The application.\<close>
    \<^item> \<open>Fsm\<close>: \<^verbatim>\<open>fsm.cpp\<close>, the phases, their printers and transitions.  Each successful transition raises the rank of the phase,
      so that a run has at most six.
    \<^item> \<open>Data_Node\<close>: \<^verbatim>\<open>DataNode.cpp\<close>, the packet table of a sender.  Names stay unique under every operation.
    \<^item> \<open>Data_Base\<close>: \<^verbatim>\<open>DataBase.cpp\<close>, the database of the central node, with pointers to flags as slots.  The
      locale \<open>catalogue\<close> is what a client of the database relies on (the carriers of a datum after packets were added),
      interpreted as \<open>db\<close>.  The search for packets is characterised on every branch, with the condition under which
      it covers the request and a request that it does not cover.
    \<^item> \<open>Retry\<close>: the retry loop of \<^verbatim>\<open>sendStrMSG\<close> in \<^verbatim>\<open>Central.cpp\<close> and \<^verbatim>\<open>Node.cpp\<close>, and the channels of \<^verbatim>\<open>utils.cpp\<close>.
    \<^item> \<open>Yaml_Api\<close>: the calls into yaml-cpp, which is not in the repository, as a record of functions that the models take
      as an argument.
    \<^item> \<open>Central\<close>: \<^verbatim>\<open>Central.cpp\<close>, the service thread as a function of what its socket delivers, the
      main thread and the timer thread.  Registration is safe whatever arrives, the barrier before the broadcast holds, and the thread
      completes for every order of messages within the phases.
    \<^item> \<open>Node\<close>: \<^verbatim>\<open>Node.cpp\<close>, four threads and their channels as an interleaving step relation; the handshake completes
      under every interleaving, and an invariant says what a node can ever have sent.
    \<^item> \<open>System\<close>: the central node and all the others as one transition system, in which a message is received only after the other side sent it.
      Every run is bounded, and where it stops the handshake is complete, so the two sides never wait for each other.  The confirmation wait of a
      node does not time out there; \<open>Node\<close> has the runs with timeouts and what a repeated confirmation leads to.

  \<^bold>\<open>The binding.\<close>
    \<^item> \<open>Wire\<close>: byte order, \<^verbatim>\<open>wire.hpp\<close> and the helpers of \<^verbatim>\<open>zmq_addon.hpp\<close>.
    \<^item> \<open>Multipart\<close>: \<^verbatim>\<open>multipart_t\<close> of \<^verbatim>\<open>zmq_addon.hpp\<close>.  Encoding round trips; sending and receiving several messages over one
      socket is the locale \<open>self_delimiting\<close> of \<open>Prelude\<close>, interpreted as \<open>fr\<close>.

  \<^bold>\<open>The library.\<close>
    \<^item> \<open>Codec\<close>: the encoders and decoders of the three protocol versions (\<^verbatim>\<open>v1_encoder.cpp\<close>, \<^verbatim>\<open>v2_encoder.cpp\<close>,
      \<^verbatim>\<open>v3_1_encoder.cpp\<close>, \<^verbatim>\<open>v1_decoder.cpp\<close>, \<^verbatim>\<open>v2_decoder.cpp\<close>, \<^verbatim>\<open>encoder.hpp\<close>, \<^verbatim>\<open>decoder.hpp\<close>) with the input loop of the
      engine: what is encoded is decoded again, however the stream is cut.
    \<^item> \<open>Message\<close>: message objects, \<^verbatim>\<open>msg.cpp\<close> with \<^verbatim>\<open>metadata.cpp\<close> and \<^verbatim>\<open>atomic_counter.hpp\<close>, on a store of buffers with 32-bit reference counters.
      \<open>ms\<close> interprets \<open>simulation\<close>: sharing is not visible, messages are values.  This is why the other theories pass messages as values (\<open>wmsg\<close>).
    \<^item> \<open>Char_Table\<close>, \<open>Trie_Sub\<close>, \<open>Mtrie\<close>: \<^verbatim>\<open>trie.cpp\<close> and \<^verbatim>\<open>generic_mtrie_impl.hpp\<close>.  The locales
      \<open>subscription_store\<close> and \<open>topic_store\<close> say what the sockets rely on (a refined multiset of topics, a refined relation of
      topics and pipes); \<open>ts\<close> and \<open>mt\<close> interpret them.
    \<^item> \<open>Yqueue\<close>, \<open>Ypipe\<close>: \<^verbatim>\<open>yqueue.hpp\<close> on a heap of chunks and \<^verbatim>\<open>ypipe.hpp\<close> with the two threads interleaved at the atomic
      pointer.  The locale \<open>simulation\<close> of \<open>Prelude\<close> (a step function against a specification, under a condition on
      the environment) is interpreted as \<open>yps\<close>: the lock-free pipe refines the sequential one, \<open>upipe\<close>, which the layers above use.
    \<^item> \<open>Pipe\<close>, \<open>Pipe_Term\<close>: \<^verbatim>\<open>pipe.cpp\<close>, both ends with their mailboxes on a store of pipes and queues in which every use of a
      deleted object is a failure; the wake-up and termination protocol does not fail and comes to rest, except for hiccups and for watermarks
      or statistics sent after an acknowledgement, whose races are lemmas of their own.
    \<^item> \<open>Pipe_Array\<close>, \<open>Fair_Queue\<close>, \<open>Load_Balance\<close>, \<open>Distributor\<close>: \<^verbatim>\<open>array.hpp\<close>, \<^verbatim>\<open>fq.cpp\<close>, \<^verbatim>\<open>lb.cpp\<close>,
      \<^verbatim>\<open>dist.cpp\<close>.  What they need of the pipes are the locales \<open>message_source\<close> and \<open>message_sink\<close>, interpreted with
      the pipes of a socket as \<open>sq\<close> and \<open>sk\<close>.
    \<^item> \<open>Socket_Pipes\<close>: the pipes of a socket as its queue and its balancer see them together.
    \<^item> \<open>Dealer\<close>, \<open>Router\<close>, \<open>Xpub\<close>, \<open>Xsub\<close>, \<open>Pair\<close>: the sockets \<^verbatim>\<open>dealer.cpp\<close>, \<^verbatim>\<open>router.cpp\<close>, \<^verbatim>\<open>xpub.cpp\<close> with \<^verbatim>\<open>pub.cpp\<close>,
      \<^verbatim>\<open>xsub.cpp\<close> with \<^verbatim>\<open>sub.cpp\<close>, and \<^verbatim>\<open>pair.cpp\<close>.  Disconnections and hiccups are part of the histories of a DEALER; what it does not survive are lemmas of \<open>Dealer\<close>.  \<open>dl\<close> and \<open>ch\<close> interpret \<open>simulation\<close> for the histories of a DEALER and
      for two connected PAIR sockets.
    \<^item> \<open>Pub_Sub\<close>: a subscriber and a publisher together; the topics of the one are those the other keeps for its pipe.

  \<^bold>\<open>Conventions.\<close>  Failed assertions, exceptions, undefined operations and uses of freed memory are the left values of the sum type \<open>result\<close> of
  \<open>Prelude\<close>, so that a statement with \<open>Inr\<close> says that none of them happens.  Containers with unspecified iteration order
  are association lists, and the statements hold for every starting order.  Counters and sizes are words where the code
  compares or wraps them, and natural numbers where their bound is part of an invariant.  Watermarks are integers without the overflow of \<^verbatim>\<open>int\<close>
  that \<^verbatim>\<open>compute_lwm\<close> has for the largest one.

  \<^bold>\<open>Loops and fuel.\<close>  All operations are total functions with termination proofs: the loops over pipes by the number
  of active pipes and waiting messages, the decoding loop by the bytes left.  The one loop with fuel is the destructor of the
  chunked queue (\<open>free_all\<close>); fuel greater than the number of chunks is enough, which its lemma shows.  The
  retry loop, the encoder and the threads are bounded by their inputs, and statements of progress say so.

  \<^bold>\<open>Not modelled.\<close>  The entry \<^verbatim>\<open>main.cpp\<close> is empty; clocks and sleeping have no result in the models.  The wrapper
  \<^verbatim>\<open>zmq.hpp\<close> hands its arguments to the C functions.  Of libzmq: contexts and sessions (\<^verbatim>\<open>ctx.cpp\<close>, \<^verbatim>\<open>session_base.cpp\<close>: creation of threads and
  objects around the pipes), pollers, transports and name resolution (calls into the operating system), the security mechanisms (third-party cryptography),
  conflating queues, the metadata of messages above \<open>Message\<close>, the draft options and draft sockets, and the remaining socket types, which the program does not use.
\<close>

end
